(* ===== verification/Prelude.thy ===== *)
theory Prelude
  imports Main "HOL-Library.Word" "HOL-Library.Monad_Syntax"
begin

text \<open>
  What every component of the development shares: the byte and machine integer types, buffers
  with checked loads and stores (a load or store outside the buffer is the value \<open>None\<close>,
  so that an out-of-bounds access of the source is a branch of the model and not an
  unspecified HOL value), and small lemmas on lists, words and options.
\<close>

unbundle bit_operations_syntax

type_synonym u8 = "8 word"
type_synonym u16 = "16 word"
type_synonym u32 = "32 word"
type_synonym u64 = "64 word"
type_synonym s32 = "32 word"
type_synonym s64 = "64 word"
type_synonym bytes = "u8 list"

named_theorems buffer_simps \<open>evaluation of checked loads and stores\<close>
named_theorems inv_intros \<open>an operation keeps its component's invariant\<close>

section \<open>Buffers with checked accesses\<close>

definition load :: "'a list \<Rightarrow> nat \<Rightarrow> 'a option" where
  "load buf i = (if i < length buf then Some (buf ! i) else None)"

definition store :: "'a list \<Rightarrow> nat \<Rightarrow> 'a \<Rightarrow> 'a list option" where
  "store buf i x = (if i < length buf then Some (buf[i := x]) else None)"

fun store_all :: "'a list \<Rightarrow> nat \<Rightarrow> 'a list \<Rightarrow> 'a list option" where
  "store_all buf i [] = Some buf"
| "store_all buf i (x # xs) =
     (case store buf i x of None \<Rightarrow> None | Some buf' \<Rightarrow> store_all buf' (Suc i) xs)"

lemma load_Some [buffer_simps]: "i < length buf \<Longrightarrow> load buf i = Some (buf ! i)"
  by (simp add: load_def)

lemma load_None [buffer_simps]: "length buf \<le> i \<Longrightarrow> load buf i = None"
  by (simp add: load_def)

lemma store_Some [buffer_simps]: "i < length buf \<Longrightarrow> store buf i x = Some (buf[i := x])"
  by (simp add: store_def)

lemma store_None [buffer_simps]: "length buf \<le> i \<Longrightarrow> store buf i x = None"
  by (simp add: store_def)

lemma load_SomeD: "load buf i = Some x \<Longrightarrow> i < length buf \<and> x = buf ! i"
  by (simp add: load_def split: if_splits)

lemma store_SomeD: "store buf i x = Some buf' \<Longrightarrow> i < length buf \<and> buf' = buf[i := x]"
  by (simp add: store_def split: if_splits)

lemma store_length: "store buf i x = Some buf' \<Longrightarrow> length buf' = length buf"
  by (auto dest: store_SomeD)

text \<open>Storing a run of bytes overwrites exactly that range.\<close>

lemma store_all_fits:
  "i + length xs \<le> length buf \<Longrightarrow>
   store_all buf i xs = Some (take i buf @ xs @ drop (i + length xs) buf)"
proof (induction xs arbitrary: buf i)
  case Nil
  then show ?case by simp
next
  case (Cons x xs)
  then have "i < length buf" by simp
  moreover have "Suc i + length xs \<le> length (buf[i := x])" using Cons.prems by simp
  ultimately show ?case
    using Cons.IH [of "Suc i" "buf[i := x]"]
    by (simp add: store_Some take_Suc_conv_app_nth)
qed

lemma store_all_overrun: "length buf < i + length xs \<Longrightarrow> i \<le> length buf \<Longrightarrow> store_all buf i xs = None"
proof (induction xs arbitrary: buf i)
  case Nil
  then show ?case by simp
next
  case (Cons x xs)
  then show ?case
    by (cases "i < length buf") (simp_all add: buffer_simps)
qed

lemma store_all_length: "store_all buf i xs = Some buf' \<Longrightarrow> length buf' = length buf"
  by (induction xs arbitrary: buf i) (auto split: option.splits dest: store_length)

lemma load_append_right: "length xs \<le> i \<Longrightarrow> load (xs @ ys) i = load ys (i - length xs)"
  by (auto simp: load_def nth_append)

lemma load_drop:
  assumes "drop p buf = xs @ ys" "i < length xs"
  shows "load buf (p + i) = Some (xs ! i)"
proof -
  have "length xs \<le> length (drop p buf)" using assms(1) by simp
  then have "p + i < length buf" using assms(2) by simp
  moreover have "buf ! (p + i) = xs ! i"
    using assms by (metis nth_append nth_drop calculation less_or_eq_imp_le add_leE)
  ultimately show ?thesis by (simp add: load_Some)
qed

section \<open>Bytes\<close>

lemma u8_eqI:
  fixes a b :: u8
  assumes "bit a 0 = bit b 0" "bit a 1 = bit b 1" "bit a 2 = bit b 2" "bit a 3 = bit b 3"
    "bit a 4 = bit b 4" "bit a 5 = bit b 5" "bit a 6 = bit b 6" "bit a 7 = bit b 7"
  shows "a = b"
proof (rule bit_word_eqI)
  fix n assume "n < LENGTH(8)"
  then have "n \<in> {0, 1, 2, 3, 4, 5, 6, 7}" by auto
  with assms show "bit a n = bit b n" by auto
qed

lemma u8_bit_high [simp]: "\<not> bit (c :: u8) 8" "\<not> bit (c :: u8) 9"
  by (auto dest: bit_imp_le_length)

section \<open>Integer division\<close>

text \<open>C's division truncates towards zero.\<close>

definition c_div :: "int \<Rightarrow> int \<Rightarrow> int" where
  "c_div a b = sgn a * sgn b * (\<bar>a\<bar> div \<bar>b\<bar>)"

definition c_mod :: "int \<Rightarrow> int \<Rightarrow> int" where
  "c_mod a b = a - c_div a b * b"

lemma c_div_nonneg: "0 \<le> a \<Longrightarrow> 0 < b \<Longrightarrow> c_div a b = a div b"
  by (cases "a = 0") (simp_all add: c_div_def sgn_if)

lemma c_mod_nonneg: "0 \<le> a \<Longrightarrow> 0 < b \<Longrightarrow> c_mod a b = a mod b"
  by (simp add: c_mod_def c_div_nonneg minus_div_mult_eq_mod)

section \<open>Lists\<close>

lemma nth_append_drop: "i < length xs \<Longrightarrow> drop i xs = xs ! i # drop (Suc i) xs"
  by (rule Cons_nth_drop_Suc [symmetric])

lemma length_takeWhile_less: "i < length (takeWhile P xs) \<Longrightarrow> P (xs ! i)"
  by (metis nth_mem set_takeWhileD takeWhile_nth)

lemma takeWhile_append_stop: "\<forall>x \<in> set xs. P x \<Longrightarrow> \<not> P y \<Longrightarrow> takeWhile P (xs @ y # ys) = xs"
  by (induction xs) auto

lemma dropWhile_append_stop: "\<forall>x \<in> set xs. P x \<Longrightarrow> \<not> P y \<Longrightarrow> dropWhile P (xs @ y # ys) = y # ys"
  by (induction xs) auto

section \<open>Singly linked chains\<close>

text \<open>The list of the nodes that \<open>nx\<close> links from \<open>p\<close>, up to the NULL link 0.\<close>

fun chain :: "(nat \<Rightarrow> nat) \<Rightarrow> nat \<Rightarrow> nat list \<Rightarrow> bool" where
  "chain nx p [] = (p = 0)"
| "chain nx p (x # xs) = (p = x \<and> x \<noteq> 0 \<and> chain nx (nx x) xs)"

lemma chain_nonzero: "chain nx p xs \<Longrightarrow> 0 \<notin> set xs"
  by (induction xs arbitrary: p) auto

lemma chain_zero [simp]: "chain nx 0 xs \<longleftrightarrow> xs = []"
  by (cases xs) auto

lemma chain_head: "chain nx p xs \<Longrightarrow> p \<noteq> 0 \<Longrightarrow> \<exists>ys. xs = p # ys \<and> chain nx (nx p) ys"
  by (cases xs) auto

lemma chain_unique: "chain nx p xs \<Longrightarrow> chain nx p ys \<Longrightarrow> xs = ys"
  by (induction xs arbitrary: p ys) (auto dest: chain_head)

lemma chain_upd [simp]: "e \<notin> set xs \<Longrightarrow> chain (nx(e := v)) p xs = chain nx p xs"
  by (induction xs arbitrary: p) auto

lemma chain_cong: "(\<And>x. x \<in> set xs \<Longrightarrow> nx' x = nx x) \<Longrightarrow> chain nx' p xs = chain nx p xs"
  by (induction xs arbitrary: p) auto

lemma chain_suffix: "chain nx p (xs @ y # ys) \<Longrightarrow> chain nx y (y # ys)"
  by (induction xs arbitrary: p) auto

lemma chain_distinct: "chain nx p xs \<Longrightarrow> distinct xs"
proof (induction xs arbitrary: p rule: length_induct)
  case (1 xs)
  show ?case
  proof (cases xs)
    case (Cons x ys)
    with "1.prems" have c: "chain nx x (x # ys)" "chain nx (nx x) ys" by auto
    have "x \<notin> set ys"
    proof
      assume "x \<in> set ys"
      then obtain as bs where ys: "ys = as @ x # bs" by (meson split_list)
      have "chain nx x (x # bs)" using c(2) ys chain_suffix by metis
      with c(1) have "x # ys = x # bs" by (rule chain_unique)
      with ys show False by simp
    qed
    with "1.IH" c(2) Cons show ?thesis by auto
  qed simp
qed

end
