(* ===== verification/Base64.thy ===== *)
theory Base64
  imports Prelude
begin

text \<open>
  The base64 codec of lib/ts/ink_base64.cc. The output buffer is the list of the bytes the
  caller owns (its length is the real size of the allocation), the input of the decoder is the
  list of all the bytes that are readable from \<open>inBuffer\<close> on, so that a read or a write
  outside of them is the value \<open>None\<close>; a \<open>false\<close> return is \<open>Some None\<close>.
\<close>

section \<open>Tables and sizes\<close>

definition codes :: bytes where
  "codes = map (\<lambda>c. of_nat (of_char c))
     ''ABCDEFGHIJKLMNOPQRSTUVWXYZabcdefghijklmnopqrstuvwxyz0123456789+/''"

definition code_of :: "u8 \<Rightarrow> u8" where
  "code_of i = codes ! unat i"

definition printableToSixBit :: bytes where
  "printableToSixBit =
    [64, 64, 64, 64, 64, 64, 64, 64, 64, 64, 64, 64, 64, 64, 64, 64, 64, 64, 64, 64, 64, 64, 64, 64,
     64, 64, 64, 64, 64, 64, 64, 64, 64, 64, 64, 64, 64, 64, 64, 64, 64, 64, 64, 62, 64, 62, 64, 63,
     52, 53, 54, 55, 56, 57, 58, 59, 60, 61, 64, 64, 64, 64, 64, 64, 64, 0, 1, 2, 3, 4, 5, 6, 7, 8, 9,
     10, 11, 12, 13, 14, 15, 16, 17, 18, 19, 20, 21, 22, 23, 24, 25, 64, 64, 64, 64, 63, 64, 26, 27,
     28, 29, 30, 31, 32, 33, 34, 35, 36, 37, 38, 39, 40, 41, 42, 43, 44, 45, 46, 47, 48, 49, 50, 51,
     64, 64, 64, 64, 64, 64, 64, 64, 64, 64, 64, 64, 64, 64, 64, 64, 64, 64, 64, 64, 64, 64, 64, 64,
     64, 64, 64, 64, 64, 64, 64, 64, 64, 64, 64, 64, 64, 64, 64, 64, 64, 64, 64, 64, 64, 64, 64, 64,
     64, 64, 64, 64, 64, 64, 64, 64, 64, 64, 64, 64, 64, 64, 64, 64, 64, 64, 64, 64, 64, 64, 64, 64,
     64, 64, 64, 64, 64, 64, 64, 64, 64, 64, 64, 64, 64, 64, 64, 64, 64, 64, 64, 64, 64, 64, 64, 64,
     64, 64, 64, 64, 64, 64, 64, 64, 64, 64, 64, 64, 64, 64, 64, 64, 64, 64, 64, 64, 64, 64, 64, 64,
     64, 64, 64, 64, 64, 64, 64, 64, 64, 64, 64, 64, 64]"

definition DECODE :: "u8 \<Rightarrow> u8" where
  "DECODE x = printableToSixBit ! unat x"

definition MAX_PRINT_VAL :: u8 where
  "MAX_PRINT_VAL = 63"

text \<open>The two size macros of ink_base64.h, in \<open>size_t\<close> arithmetic.\<close>

definition encode_dstlen :: "nat \<Rightarrow> nat" where
  "encode_dstlen n = ((n * 8) mod 2 ^ 64) div 6 + 4"

definition decode_dstlen :: "nat \<Rightarrow> nat" where
  "decode_dstlen n = (((n + 3) mod 2 ^ 64) div 4) * 3"

section \<open>The encoder\<close>

text \<open>The four sextets of a group of three bytes, and the characters they are written as.\<close>

definition sextet0 :: "u8 \<Rightarrow> u8" where
  "sextet0 a = drop_bit 2 a AND 0x3F"

definition sextet1 :: "u8 \<Rightarrow> u8 \<Rightarrow> u8" where
  "sextet1 a b = push_bit 4 (a AND 3) OR (drop_bit 4 b AND 0xF)"

definition sextet2 :: "u8 \<Rightarrow> u8 \<Rightarrow> u8" where
  "sextet2 b c = push_bit 2 (b AND 0xF) OR (drop_bit 6 c AND 0xF)"

definition sextet3 :: "u8 \<Rightarrow> u8" where
  "sextet3 c = c AND 0x3F"

definition quad :: "u8 \<Rightarrow> u8 \<Rightarrow> u8 \<Rightarrow> bytes" where
  "quad a b c =
     [code_of (sextet0 a), code_of (sextet1 a b), code_of (sextet2 b c), code_of (sextet3 c)]"

text \<open>The bytes the encoder writes, the terminating NUL excluded.\<close>

fun encode_body :: "bytes \<Rightarrow> bytes" where
  "encode_body (a # b # c # rest) = quad a b c @ encode_body rest"
| "encode_body [] = []"
| "encode_body [a] = take 2 (quad a 0 0) @ [0x3D, 0x3D]"
| "encode_body [a, b] = take 3 (quad a b 0) @ [0x3D]"

definition ats_base64_encode :: "bytes \<Rightarrow> bytes \<Rightarrow> (bytes \<times> nat) option option" where
  "ats_base64_encode inBuffer outBuffer =
     (if length outBuffer < encode_dstlen (length inBuffer) then Some None
      else (case store_all outBuffer 0 (encode_body inBuffer @ [0]) of
              None \<Rightarrow> None
            | Some out \<Rightarrow> Some (Some (out, length (encode_body inBuffer)))))"

section \<open>The decoder\<close>

text \<open>The scan for the end of the input: it looks at the bytes only, not at the size.\<close>

fun scan_printable :: "bytes \<Rightarrow> nat option" where
  "scan_printable [] = None"
| "scan_printable (x # xs) =
     (if DECODE x \<le> MAX_PRINT_VAL then map_option Suc (scan_printable xs) else Some 0)"

definition triple :: "u8 \<Rightarrow> u8 \<Rightarrow> u8 \<Rightarrow> u8 \<Rightarrow> bytes" where
  "triple a b c d =
     [push_bit 2 (DECODE a) OR drop_bit 4 (DECODE b),
      push_bit 4 (DECODE b) OR drop_bit 2 (DECODE c),
      push_bit 6 (DECODE c) OR DECODE d]"

text \<open>
  One iteration per four input bytes, \<open>i\<close> the loop counter, \<open>p\<close> the offset of
  \<open>inBuffer\<close> and \<open>o\<close> that of \<open>buf\<close>, which is also \<open>decodedBytes\<close>.
\<close>

function decode_loop :: "bytes \<Rightarrow> nat \<Rightarrow> nat \<Rightarrow> nat \<Rightarrow> nat \<Rightarrow> bytes \<Rightarrow> (bytes \<times> nat \<times> nat) option" where
  "decode_loop inb inBytes i p q out =
     (if i < inBytes then do {
        a \<leftarrow> load inb p;
        b \<leftarrow> load inb (p + 1);
        c \<leftarrow> load inb (p + 2);
        d \<leftarrow> load inb (p + 3);
        out' \<leftarrow> store_all out q (triple a b c d);
        decode_loop inb inBytes (i + 4) (p + 4) (q + 3) out'
      } else Some (out, p, q))"
  by pat_completeness auto
termination
  by (relation "measure (\<lambda>(inb, n, i, p, q, out). n - i)") auto

declare decode_loop.simps [simp del]

definition ats_base64_decode :: "bytes \<Rightarrow> nat \<Rightarrow> bytes \<Rightarrow> (bytes \<times> nat) option option" where
  "ats_base64_decode inb inBufferSize outBuffer =
     (if length outBuffer < decode_dstlen inBufferSize then Some None
      else do {
        inBytes \<leftarrow> scan_printable inb;
        (out, p, decodedBytes) \<leftarrow> decode_loop inb inBytes 0 0 0 outBuffer;
        decodedBytes' \<leftarrow>
          (if inBytes mod 4 \<noteq> 0
           then do {
             x \<leftarrow> load inb (p - 2);
             Some (if DECODE x > MAX_PRINT_VAL then decodedBytes - 2 else decodedBytes - 1)
           }
           else Some decodedBytes);
        out' \<leftarrow> store out decodedBytes' 0;
        Some (Some (out', decodedBytes'))
      })"

section \<open>Sextets and the code table\<close>

lemma and_masks:
  "(x :: u8) AND 0x3F = take_bit 6 x" "x AND 0xF = take_bit 4 x" "x AND 3 = take_bit 2 x"
  by (simp_all add: take_bit_eq_mask mask_eq_exp_minus_1)

lemmas sextet_defs = sextet0_def sextet1_def sextet2_def sextet3_def and_masks

lemma sextets_join:
  "push_bit 2 (sextet0 a) OR drop_bit 4 (sextet1 a b) = a"
  "push_bit 4 (sextet1 a b) OR drop_bit 2 (sextet2 b c) = b"
  "push_bit 6 (sextet2 b c) OR sextet3 c = c"
  unfolding sextet_defs by (rule u8_eqI; simp add: bit_simps)+

lemma take_bit_6_small: "take_bit 6 x = x \<Longrightarrow> unat (x :: u8) < 64"
proof -
  assume "take_bit 6 x = x"
  then have "unat x = take_bit 6 (unat x)" by (metis unsigned_take_bit_eq)
  also have "\<dots> < 2 ^ 6" by (rule take_bit_nat_less_exp)
  finally show ?thesis by simp
qed

lemma sextet_take_bit:
  "take_bit 6 (sextet0 a) = sextet0 a" "take_bit 6 (sextet1 a b) = sextet1 a b"
  "take_bit 6 (sextet2 b c) = sextet2 b c" "take_bit 6 (sextet3 c) = sextet3 c"
  unfolding sextet_defs by (rule u8_eqI; simp add: bit_simps)+

lemmas sextet_small [simp] = sextet_take_bit [THEN take_bit_6_small]

lemma decode_code_all:
  "\<forall>i \<in> set [0..<64]. DECODE (code_of (of_nat i)) = of_nat i"
  by code_simp

lemma decode_code [simp]: "unat i < 64 \<Longrightarrow> DECODE (code_of i) = i"
  using bspec [OF decode_code_all, of "unat i"] by simp

lemma decode_pad [simp]: "DECODE 0x3D = 64" "DECODE 0 = 64"
  by code_simp+

lemma triple_quad:
  "triple (code_of (sextet0 a)) (code_of (sextet1 a b)) (code_of (sextet2 b c)) (code_of (sextet3 c)) = [a, b, c]"
  by (simp add: triple_def sextets_join)

lemma triple_length [simp]: "length (triple a b c d) = 3"
  by (simp add: triple_def)

lemma quad_length [simp]: "length (quad a b c) = 4"
  by (simp add: quad_def)

definition printable_len :: "bytes \<Rightarrow> nat" where
  "printable_len xs = length (takeWhile (\<lambda>x. DECODE x \<le> MAX_PRINT_VAL) xs)"

lemma max_print_64 [simp]: "\<not> (64 :: u8) \<le> MAX_PRINT_VAL" "MAX_PRINT_VAL < (64 :: u8)"
  by (simp_all add: MAX_PRINT_VAL_def)

lemma small_printable [simp]: "unat i < 64 \<Longrightarrow> i \<le> MAX_PRINT_VAL"
  by (simp add: MAX_PRINT_VAL_def word_le_nat_alt)

lemma div3_step [simp]: "(5 + n) div 3 = Suc (Suc (Suc n) div 3)"
  by presburger

lemma scan_printable_len:
  "scan_printable xs = (if \<exists>x \<in> set xs. \<not> DECODE x \<le> MAX_PRINT_VAL then Some (printable_len xs) else None)"
  by (induction xs) (auto simp: printable_len_def)

lemma printable_len_body [simp]:
  "printable_len (quad a b c @ ys) = 4 + printable_len ys"
  "printable_len (take 2 (quad a b c) @ 0x3D # ys) = 2"
  "printable_len (take 3 (quad a b c) @ 0x3D # ys) = 3"
  by (simp_all add: printable_len_def quad_def)

lemma decode_loop_done: "n \<le> i \<Longrightarrow> decode_loop inb n i p q out = Some (out, p, q)"
  by (simp add: decode_loop.simps)

lemma decode_loop_step:
  assumes "drop p inb = [a, b, c, d] @ ys" "i < n" "q + 3 \<le> length out"
  shows "decode_loop inb n i p q out =
    decode_loop inb n (i + 4) (p + 4) (q + 3) (take q out @ triple a b c d @ drop (q + 3) out)"
proof -
  have ld: "load inb (p + 0) = Some a" "load inb (p + 1) = Some b" "load inb (p + 2) = Some c"
    "load inb (p + 3) = Some d"
    using load_drop [OF assms(1), of 0] load_drop [OF assms(1), of 1]
      load_drop [OF assms(1), of 2] load_drop [OF assms(1), of 3] by simp_all
  have "store_all out q (triple a b c d) = Some (take q out @ triple a b c d @ drop (q + 3) out)"
    using store_all_fits [of q "triple a b c d" out] assms(3) by (simp add: triple_length)
  with ld assms(2) show ?thesis
    by (subst decode_loop.simps) simp
qed

text \<open>Decoding what the encoder wrote, from any position of the two buffers.\<close>

lemma decode_loop_encode:
  assumes "drop p inb = encode_body xs @ 0 # ys"
    and "n = p + printable_len (encode_body xs @ 0 # ys)"
    and "q + 3 * ((length xs + 2) div 3) \<le> length out"
  shows "\<exists>out'. decode_loop inb n p p q out =
      Some (out', p + 4 * ((length xs + 2) div 3), q + 3 * ((length xs + 2) div 3)) \<and>
    length out' = length out \<and> take (q + length xs) out' = take q out @ xs"
  using assms
proof (induction xs arbitrary: p q out rule: encode_body.induct)
  case (1 a b c rest)
  let ?out = "take q out @ [a, b, c] @ drop (q + 3) out"
  have len: "length ?out = length out" and k: "(length (a # b # c # rest) + 2) div 3 = Suc ((length rest + 2) div 3)"
    using 1(4) by auto
  from 1(2) have d: "drop p inb = [code_of (sextet0 a), code_of (sextet1 a b), code_of (sextet2 b c),
      code_of (sextet3 c)] @ encode_body rest @ 0 # ys"
    by (simp add: quad_def)
  have "drop (p + 4) inb = encode_body rest @ 0 # ys"
    using arg_cong [OF 1(2), of "drop 4"] by (simp add: quad_def add.commute)
  moreover have "n = (p + 4) + printable_len (encode_body rest @ 0 # ys)"
    using 1(3) by simp
  moreover have "q + 3 + 3 * ((length rest + 2) div 3) \<le> length ?out" using 1(4) len k by simp
  ultimately have "\<exists>out'. decode_loop inb n (p + 4) (p + 4) (q + 3) ?out =
      Some (out', p + 4 + 4 * ((length rest + 2) div 3), q + 3 + 3 * ((length rest + 2) div 3)) \<and>
      length out' = length ?out \<and> take (q + 3 + length rest) out' = take (q + 3) ?out @ rest"
    by (rule 1(1))
  then obtain out' where o: "decode_loop inb n (p + 4) (p + 4) (q + 3) ?out =
      Some (out', p + 4 + 4 * ((length rest + 2) div 3), q + 3 + 3 * ((length rest + 2) div 3))"
    "length out' = length ?out" "take (q + 3 + length rest) out' = take (q + 3) ?out @ rest"
    by blast
  have "decode_loop inb n p p q out = decode_loop inb n (p + 4) (p + 4) (q + 3) ?out"
    using decode_loop_step [OF d, of p n q out] 1(3,4) by (simp add: triple_quad)
  moreover have "take (q + length (a # b # c # rest)) out' = take q out @ a # b # c # rest"
  proof -
    have "q + length (a # b # c # rest) = q + 3 + length rest" by simp
    moreover have "take (q + 3) ?out @ rest = take q out @ a # b # c # rest" using 1(4) by simp
    ultimately show ?thesis using o(3) by (simp only:)
  qed
  moreover have "length out' = length out" using o(2) len by (simp only:)
  ultimately show ?case using o(1) k by (simp add: add.assoc)
next
  case 2
  then show ?case by (simp add: decode_loop_done printable_len_def)
next
  case (3 a)
  then have d: "drop p inb = [code_of (sextet0 a), code_of (sextet1 a 0), 0x3D, 0x3D] @ 0 # ys"
    by (simp add: quad_def)
  from 3 have n: "n = p + 2" by simp
  have "decode_loop inb n p p q out = Some (take q out @
     triple (code_of (sextet0 a)) (code_of (sextet1 a 0)) 0x3D 0x3D @ drop (q + 3) out, p + 4, q + 3)"
    using decode_loop_step [OF d, of p n q out] 3 n by (simp add: decode_loop_done)
  then show ?case using 3 by (simp add: triple_def sextets_join)
next
  case (4 a b)
  then have d: "drop p inb = [code_of (sextet0 a), code_of (sextet1 a b), code_of (sextet2 b 0), 0x3D] @ 0 # ys"
    by (simp add: quad_def)
  from 4 have n: "n = p + 3" by simp
  have "decode_loop inb n p p q out = Some (take q out @
     triple (code_of (sextet0 a)) (code_of (sextet1 a b)) (code_of (sextet2 b 0)) 0x3D @ drop (q + 3) out, p + 4, q + 3)"
    using decode_loop_step [OF d, of p n q out] 4 n by (simp add: decode_loop_done)
  then show ?case using 4 by (simp add: triple_def sextets_join)
qed

lemma encode_body_length: "length (encode_body xs) = 4 * ((length xs + 2) div 3)"
  by (induction xs rule: encode_body.induct) (simp_all add: quad_def)


lemma scan_printable_encode:
  "scan_printable (encode_body xs @ 0 # ys) = Some (printable_len (encode_body xs @ 0 # ys))"
  by (simp add: scan_printable_len)

text \<open>What the length of the printable part says of the last group.\<close>

lemma printable_len_mod:
  "printable_len (encode_body xs @ 0 # ys) mod 4 = (if length xs mod 3 = 0 then 0 else length xs mod 3 + 1)"
proof (induction xs rule: encode_body.induct)
  case 2
  then show ?case by (simp add: printable_len_def)
qed (simp_all add: mod_Suc)

lemma third_char_of_last_group:
  assumes "length xs mod 3 \<noteq> 0"
  shows "load (encode_body xs @ ys) (4 * ((length xs + 2) div 3) - 2) =
    Some (if length xs mod 3 = 1 then 0x3D else code_of (sextet2 (last xs) 0))"
  using assms
proof (induction xs rule: encode_body.induct)
  case (1 a b c rest)
  then have ne: "rest \<noteq> []" "length rest mod 3 \<noteq> 0" "length (a # b # c # rest) mod 3 = length rest mod 3"
    by (auto simp: mod_Suc split: if_splits)
  then have "2 \<le> 4 * ((length rest + 2) div 3)" by (cases rest) auto
  then have idx: "4 * ((length (a # b # c # rest) + 2) div 3) - 2 = 4 + (4 * ((length rest + 2) div 3) - 2)"
    by simp
  have "load (encode_body (a # b # c # rest) @ ys) (4 + (4 * ((length rest + 2) div 3) - 2)) =
      load (encode_body rest @ ys) (4 * ((length rest + 2) div 3) - 2)"
    by (simp add: load_append_right)
  with 1 ne idx show ?case by simp
qed (simp_all add: load_def quad_def)

text \<open>The loop on any input: as many groups of four as cover the printable bytes.\<close>

lemma decode_loop_quads:
  assumes "m \<le> i + 4 * k" "i + 4 * k < m + 4"
    and "p + 4 * k \<le> length inb" "q + 3 * k \<le> length out"
  shows "\<exists>out'. decode_loop inb m i p q out = Some (out', p + 4 * k, q + 3 * k) \<and> length out' = length out"
  using assms
proof (induction k arbitrary: i p q out)
  case 0
  then show ?case by (simp add: decode_loop_done)
next
  case (Suc k)
  then have d: "drop p inb = [inb ! p, inb ! (p + 1), inb ! (p + 2), inb ! (p + 3)] @ drop (p + 4) inb"
    by (simp add: nth_append_drop numeral_2_eq_2 numeral_3_eq_3 eval_nat_numeral)
  let ?t = "triple (inb ! p) (inb ! (p + 1)) (inb ! (p + 2)) (inb ! (p + 3))"
  let ?out = "take q out @ ?t @ drop (q + 3) out"
  have len: "length ?out = length out" using Suc.prems(4) by simp
  have "\<exists>out'. decode_loop inb m (i + 4) (p + 4) (q + 3) ?out =
      Some (out', p + 4 + 4 * k, q + 3 + 3 * k) \<and> length out' = length ?out"
    by (rule Suc.IH) (use Suc.prems len in simp_all)
  moreover have "decode_loop inb m i p q out = decode_loop inb m (i + 4) (p + 4) (q + 3) ?out"
    by (rule decode_loop_step [OF d]) (use Suc.prems in simp_all)
  ultimately show ?case using len by (auto simp: add.assoc)
qed

lemma decode_A: "DECODE 65 = 0"
  by code_simp

section \<open>Properties\<close>

text \<open>
  C1. Decoding what the encoder wrote gives back the bytes that were encoded, for every input
  whose size the macros can compute and buffers of the documented size (one more byte for the
  decoder's NUL): the two calls return true, and the reported length is that of the input.
\<close>

theorem base64_roundtrip:
  assumes small: "length xs * 8 < 2 ^ 64"
    and out: "encode_dstlen (length xs) \<le> length out"
    and out2: "decode_dstlen (length (encode_body xs)) < length out2"
  shows "\<exists>enc dec n. ats_base64_encode xs out = Some (Some (enc, n)) \<and>
    ats_base64_decode enc n out2 = Some (Some (dec, length xs)) \<and> take (length xs) dec = xs"
proof -
  let ?k = "(length xs + 2) div 3"
  have n: "length (encode_body xs) = 4 * ?k" by (rule encode_body_length)
  have dst: "decode_dstlen (4 * ?k) = 3 * ?k"
    using small by (simp add: decode_dstlen_def)
  have "4 * ?k + 1 \<le> length out" using out small by (simp add: encode_dstlen_def)
  then obtain tl where enc: "store_all out 0 (encode_body xs @ [0]) = Some (encode_body xs @ 0 # tl)"
    using store_all_fits [of 0 "encode_body xs @ [0]" out] n by simp
  have big: "q + 3 * ?k \<le> length out2" if "q = 0" for q using out2 n dst that by simp
  obtain dec where dec: "decode_loop (encode_body xs @ 0 # tl) (printable_len (encode_body xs @ 0 # tl)) 0 0 0 out2 =
      Some (dec, 4 * ?k, 3 * ?k)" "length dec = length out2" "take (length xs) dec = xs"
    using decode_loop_encode [of 0 "encode_body xs @ 0 # tl" xs tl _ 0 out2] big by auto
  have len: "length xs < length dec" using out2 n dst dec(2) by simp
  let ?m = "length xs mod 3"
  have k3: "3 * ?k = length xs + (if ?m = 0 then 0 else 3 - ?m)" by presburger
  have "ats_base64_decode (encode_body xs @ 0 # tl) (4 * ?k) out2 = Some (Some (dec[length xs := 0], length xs))"
  proof (cases "?m = 0")
    case True
    then show ?thesis
      using dec out2 n dst k3 len
      by (simp add: ats_base64_decode_def scan_printable_encode printable_len_mod store_Some)
  next
    case False
    then have "?m = 1 \<or> ?m = 2" by presburger
    moreover have "\<not> MAX_PRINT_VAL < sextet2 (last xs) 0" by (simp add: not_less)
    ultimately show ?thesis
      using dec out2 n dst k3 len third_char_of_last_group [OF False, of "0 # tl"]
      by (auto simp: ats_base64_decode_def scan_printable_encode printable_len_mod store_Some)
  qed
  moreover have "ats_base64_encode xs out = Some (Some (encode_body xs @ 0 # tl, 4 * ?k))"
    using out enc n by (simp add: ats_base64_encode_def)
  ultimately show ?thesis using dec(3) by auto
qed


theorem base64_roundtrip_witness:
  "\<exists>enc dec n. ats_base64_encode [77, 97] (replicate 8 0) = Some (Some (enc, n)) \<and>
    ats_base64_decode enc n (replicate 4 0) = Some (Some (dec, length [77, 97 :: u8])) \<and>
    take (length [77, 97 :: u8]) dec = [77, 97]"
  by (rule base64_roundtrip) (simp_all add: encode_dstlen_def decode_dstlen_def quad_def)



text \<open>
  The size check of the decoder misses the terminating NUL: for a whole number of groups
  and an output buffer of exactly \<open>ATS_BASE64_DECODE_DSTLEN\<close> bytes, which it accepts,
  the final store is outside the buffer.
\<close>

lemma base64_decode_nul_overrun:
  assumes "scan_printable inb = Some (4 * k)" "4 * k \<le> length inb" "4 * k + 3 < 2 ^ 64"
    and "length out = decode_dstlen (4 * k)"
  shows "ats_base64_decode inb (4 * k) out = None"
proof -
  have dst: "decode_dstlen (4 * k) = 3 * k" using assms(3) by (simp add: decode_dstlen_def)
  have "4 * k \<le> 0 + 4 * k" "0 + 4 * k < 4 * k + 4" "0 + 4 * k \<le> length inb" "0 + 3 * k \<le> length out"
    using assms(2,4) dst by simp_all
  then obtain out' where l: "decode_loop inb (4 * k) 0 0 0 out = Some (out', 0 + 4 * k, 0 + 3 * k)"
      "length out' = length out"
    using decode_loop_quads by blast
  have "store out' (3 * k) 0 = None" using l(2) assms(4) dst by (simp add: store_None)
  then show ?thesis
    using assms(1,4) l(1) by (simp add: ats_base64_decode_def)
qed

theorem base64_decode_nul_overrun_witness:
  "ats_base64_decode [65, 65, 65, 65, 0] (4 * 1) (replicate 3 0) = None"
  by (rule base64_decode_nul_overrun) (simp_all add: decode_A decode_dstlen_def)

end
