(* ===== verification/Links.thy ===== *)
theory Links
  imports Prelude
begin

text \<open>
  The intrusive doubly linked lists and queues of lib/ts/List.h. An object is an address (a
  non-zero number, zero is NULL), the link cells of all objects are one store of \<open>next\<close> and
  \<open>prev\<close> pointers, and a list is its \<open>head\<close> (a queue its \<open>head\<close> and \<open>tail\<close>).
  Every operation is translated pointer write by pointer write; the theorems say that it
  implements the operation on the list of its elements.
\<close>

section \<open>The code\<close>

record links =
  nxt :: "nat \<Rightarrow> nat"
  prv :: "nat \<Rightarrow> nat"

abbreviation set_nxt :: "nat \<Rightarrow> nat \<Rightarrow> links \<Rightarrow> links" where
  "set_nxt e v l \<equiv> l\<lparr>nxt := (nxt l)(e := v)\<rparr>"

abbreviation set_prv :: "nat \<Rightarrow> nat \<Rightarrow> links \<Rightarrow> links" where
  "set_prv e v l \<equiv> l\<lparr>prv := (prv l)(e := v)\<rparr>"

definition dll_push :: "links \<Rightarrow> nat \<Rightarrow> nat \<Rightarrow> links \<times> nat" where
  "dll_push l head e =
     (let l1 = (if head \<noteq> 0 then set_prv head e l else l)
      in (set_nxt e head l1, e))"

definition dll_remove :: "links \<Rightarrow> nat \<Rightarrow> nat \<Rightarrow> links \<times> nat" where
  "dll_remove l head e =
     (if head = 0 then (l, head)
      else
        let head' = (if e = head then nxt l e else head);
            l1 = (if prv l e \<noteq> 0 then set_nxt (prv l e) (nxt l e) l else l);
            l2 = (if nxt l1 e \<noteq> 0 then set_prv (nxt l1 e) (prv l1 e) l1 else l1)
        in (set_nxt e 0 (set_prv e 0 l2), head'))"

definition dll_pop :: "links \<Rightarrow> nat \<Rightarrow> links \<times> nat \<times> nat" where
  "dll_pop l head =
     (if head \<noteq> 0 then
        let ret = head;
            head' = nxt l ret;
            l1 = (if head' \<noteq> 0 then set_prv head' 0 l else l)
        in (set_nxt ret 0 l1, head', ret)
      else (l, head, 0))"

definition dll_insert :: "links \<Rightarrow> nat \<Rightarrow> nat \<Rightarrow> nat \<Rightarrow> links \<times> nat" where
  "dll_insert l head e after =
     (if after = 0 then dll_push l head e
      else
        let l1 = set_prv e after l;
            l2 = set_nxt e (nxt l1 after) l1;
            l3 = set_nxt after e l2;
            l4 = (if nxt l3 e \<noteq> 0 then set_prv (nxt l3 e) e l3 else l3)
        in (l4, head))"

record que =
  qhead :: nat
  qtail :: nat

definition que_push :: "links \<Rightarrow> que \<Rightarrow> nat \<Rightarrow> links \<times> que" where
  "que_push l q e =
     (let (l', h) = dll_push l (qhead q) e
      in (l', \<lparr>qhead = h, qtail = (if qtail q = 0 then h else qtail q)\<rparr>))"

definition que_pop :: "links \<Rightarrow> que \<Rightarrow> links \<times> que \<times> nat" where
  "que_pop l q =
     (let (l', h, ret) = dll_pop l (qhead q)
      in (l', \<lparr>qhead = h, qtail = (if h = 0 then 0 else qtail q)\<rparr>, ret))"

definition que_insert :: "links \<Rightarrow> que \<Rightarrow> nat \<Rightarrow> nat \<Rightarrow> links \<times> que" where
  "que_insert l q e after =
     (let (l', h) = dll_insert l (qhead q) e after
      in (l', \<lparr>qhead = h,
               qtail = (if qtail q = 0 then h else if qtail q = after then e else qtail q)\<rparr>))"

definition que_remove :: "links \<Rightarrow> que \<Rightarrow> nat \<Rightarrow> links \<times> que" where
  "que_remove l q e =
     (let t = (if qtail q = e then prv l e else qtail q);
          (l', h) = dll_remove l (qhead q) e
      in (l', \<lparr>qhead = h, qtail = t\<rparr>))"

definition que_enqueue :: "links \<Rightarrow> que \<Rightarrow> nat \<Rightarrow> links \<times> que" where
  "que_enqueue l q e = (if qtail q \<noteq> 0 then que_insert l q e (qtail q) else que_push l q e)"

definition que_dequeue :: "links \<Rightarrow> que \<Rightarrow> links \<times> que \<times> nat" where
  "que_dequeue l q = que_pop l q"

definition que_append :: "links \<Rightarrow> que \<Rightarrow> que \<Rightarrow> links \<times> que" where
  "que_append l this q =
     (if qhead this = 0 then (l, \<lparr>qhead = qhead q, qtail = qtail q\<rparr>)
      else if qhead q \<noteq> 0
      then (set_prv (qhead q) (qtail this) (set_nxt (qtail this) (qhead q) l),
            \<lparr>qhead = qhead this, qtail = qtail q\<rparr>)
      else (l, this))"

definition que_clear :: que where
  "que_clear = \<lparr>qhead = 0, qtail = 0\<rparr>"

section \<open>The list a head stands for\<close>

definition hd0 :: "nat list \<Rightarrow> nat \<Rightarrow> nat" where
  "hd0 xs q = (if xs = [] then q else hd xs)"

definition last0 :: "nat \<Rightarrow> nat list \<Rightarrow> nat" where
  "last0 p xs = (if xs = [] then p else last xs)"

fun linked :: "(nat \<Rightarrow> nat) \<Rightarrow> (nat \<Rightarrow> nat) \<Rightarrow> nat \<Rightarrow> nat list \<Rightarrow> nat \<Rightarrow> bool" where
  "linked nx pv p [] q = True"
| "linked nx pv p (x # xs) q =
     (x \<noteq> 0 \<and> pv x = p \<and> nx x = hd0 xs q \<and> linked nx pv x xs q)"

definition dll_rep :: "links \<Rightarrow> nat \<Rightarrow> nat list \<Rightarrow> bool" where
  "dll_rep l h xs \<longleftrightarrow> h = hd0 xs 0 \<and> linked (nxt l) (prv l) 0 xs 0 \<and> distinct xs"

definition que_rep :: "links \<Rightarrow> que \<Rightarrow> nat list \<Rightarrow> bool" where
  "que_rep l q xs \<longleftrightarrow> dll_rep l (qhead q) xs \<and> qtail q = last0 0 xs"

definition detached :: "links \<Rightarrow> nat \<Rightarrow> bool" where
  "detached l e \<longleftrightarrow> e \<noteq> 0 \<and> nxt l e = 0 \<and> prv l e = 0"

lemma hd0_simps [simp]: "hd0 [] q = q" "hd0 (x # xs) q = x" "hd0 (xs @ ys) q = hd0 xs (hd0 ys q)"
  by (simp_all add: hd0_def)

lemma last0_simps [simp]: "last0 p [] = p" "last0 p (x # xs) = last0 x xs"
  "last0 p (xs @ ys) = last0 (last0 p xs) ys"
  by (simp_all add: last0_def)

lemma linked_append:
  "linked nx pv p (xs @ ys) q \<longleftrightarrow> linked nx pv p xs (hd0 ys q) \<and> linked nx pv (last0 p xs) ys q"
  by (induction xs arbitrary: p) auto

lemma linked_nonzero: "linked nx pv p xs q \<Longrightarrow> 0 \<notin> set xs"
  by (induction xs arbitrary: p) auto

lemma linked_upd [simp]:
  "e \<notin> set xs \<Longrightarrow> linked (nx(e := v)) pv p xs q = linked nx pv p xs q"
  "e \<notin> set xs \<Longrightarrow> linked nx (pv(e := v)) p xs q = linked nx pv p xs q"
  by (induction xs arbitrary: p) auto

text \<open>Relinking the first and the last element of a chain.\<close>

lemma linked_relink_first:
  "linked nx pv p (x # xs) q \<Longrightarrow> x \<notin> set xs \<Longrightarrow> linked nx (pv(x := p')) p' (x # xs) q"
  by simp

lemma linked_relink_last:
  "linked nx pv p (xs @ [x]) q \<Longrightarrow> x \<notin> set xs \<Longrightarrow> linked (nx(x := q')) pv p (xs @ [x]) q'"
  by (simp add: linked_append)

lemma dll_rep_empty [simp]: "dll_rep l h [] \<longleftrightarrow> h = 0"
  by (simp add: dll_rep_def)

lemma dll_rep_head: "dll_rep l h xs \<Longrightarrow> h = 0 \<longleftrightarrow> xs = []"
  by (cases xs) (auto simp: dll_rep_def)

section \<open>Lists\<close>

lemma hd0_eq: "e \<notin> set xs \<Longrightarrow> hd0 xs q = e \<longleftrightarrow> xs = [] \<and> q = e"
  by (cases xs) auto

lemma hd0_eq2: "e \<notin> set xs \<Longrightarrow> e = hd0 xs q \<longleftrightarrow> xs = [] \<and> e = q"
  by (cases xs) auto

lemma hd0_pos: "linked nx pv p xs q \<Longrightarrow> 0 < q \<Longrightarrow> 0 < hd0 xs q"
  by (cases xs) auto

lemma dll_push_rep:
  assumes "dll_rep l h xs" "detached l e" "e \<notin> set xs"
  shows "\<exists>l' h'. dll_push l h e = (l', h') \<and> dll_rep l' h' (e # xs)"
  using assms by (cases xs) (auto simp: dll_push_def dll_rep_def detached_def)

lemma dll_pop_rep:
  assumes "dll_rep l h (x # xs)"
  shows "\<exists>l' h'. dll_pop l h = (l', h', x) \<and> dll_rep l' h' xs \<and> detached l' x"
  using assms by (cases xs) (auto simp: dll_pop_def dll_rep_def detached_def)

lemma dll_pop_empty: "dll_pop l 0 = (l, 0, 0)"
  by (simp add: dll_pop_def)

lemma dll_remove_rep:
  assumes "dll_rep l h (as @ e # bs)"
  shows "\<exists>l' h'. dll_remove l h e = (l', h') \<and> dll_rep l' h' (as @ bs) \<and> detached l' e"
  using assms
  by (cases as rule: rev_cases; cases bs)
    (auto simp: dll_remove_def dll_rep_def detached_def linked_append Let_def hd0_eq hd0_eq2
      intro: hd0_pos)

lemma dll_remove_detached:
  "detached l e \<Longrightarrow> dll_rep l h xs \<Longrightarrow> e \<notin> set xs \<Longrightarrow> dll_remove l h e = (l, h)"
  by (cases xs) (auto simp: dll_remove_def dll_rep_def detached_def fun_upd_idem)

lemma dll_insert_rep:
  assumes "dll_rep l h (as @ a # bs)" "detached l e" "e \<notin> set (as @ a # bs)"
  shows "\<exists>l' h'. dll_insert l h e a = (l', h') \<and> dll_rep l' h' (as @ a # e # bs)"
  using assms by (cases bs) (auto simp: dll_insert_def dll_rep_def detached_def linked_append Let_def)


section \<open>Queues\<close>

lemma que_rep_tail: "que_rep l q xs \<Longrightarrow> qtail q = 0 \<longleftrightarrow> xs = []"
  by (cases xs rule: rev_cases) (auto simp: que_rep_def dll_rep_def linked_append)

lemma que_rep_clear: "que_rep l que_clear []"
  by (simp add: que_rep_def que_clear_def)

lemma que_push_rep:
  assumes "que_rep l q xs" "detached l e" "e \<notin> set xs"
  shows "\<exists>l' q'. que_push l q e = (l', q') \<and> que_rep l' q' (e # xs)"
proof -
  obtain l' h' where p: "dll_push l (qhead q) e = (l', h')" "dll_rep l' h' (e # xs)"
    using dll_push_rep [of l "qhead q" xs e] assms by (auto simp: que_rep_def)
  then have "h' = e" by (simp add: dll_rep_def)
  with p assms(1) que_rep_tail [OF assms(1)] show ?thesis
    by (cases xs) (auto simp: que_push_def que_rep_def last0_def)
qed

lemma que_pop_rep:
  assumes "que_rep l q (x # xs)"
  shows "\<exists>l' q'. que_pop l q = (l', q', x) \<and> que_rep l' q' xs \<and> detached l' x"
proof -
  obtain l' h' where p: "dll_pop l (qhead q) = (l', h', x)" "dll_rep l' h' xs" "detached l' x"
    using dll_pop_rep [of l "qhead q" x xs] assms by (auto simp: que_rep_def)
  with assms show ?thesis
    using dll_rep_head [OF p(2)] by (auto simp: que_pop_def que_rep_def last0_def)
qed

lemma que_pop_empty: "que_rep l q [] \<Longrightarrow> que_pop l q = (l, que_clear, 0)"
  by (simp add: que_rep_def que_pop_def dll_pop_empty que_clear_def)

lemma que_enqueue_rep:
  assumes "que_rep l q xs" "detached l e" "e \<notin> set xs"
  shows "\<exists>l' q'. que_enqueue l q e = (l', q') \<and> que_rep l' q' (xs @ [e])"
proof (cases xs rule: rev_cases)
  case Nil
  then show ?thesis using que_push_rep [OF assms] que_rep_tail [OF assms(1)]
    by (auto simp: que_enqueue_def)
next
  case (snoc ys a)
  with assms(1) have t: "qtail q = a" "a \<noteq> 0" "dll_rep l (qhead q) (ys @ a # [])"
    by (auto simp: que_rep_def dll_rep_def linked_append)
  obtain l' h' where "dll_insert l (qhead q) e a = (l', h')" "dll_rep l' h' (ys @ [a, e])"
    using dll_insert_rep [OF t(3) assms(2)] assms(3) snoc by auto
  with t snoc show ?thesis by (auto simp: que_enqueue_def que_insert_def que_rep_def)
qed

lemma que_remove_rep:
  assumes "que_rep l q (as @ e # bs)"
  shows "\<exists>l' q'. que_remove l q e = (l', q') \<and> que_rep l' q' (as @ bs) \<and> detached l' e"
proof -
  obtain l' h' where p: "dll_remove l (qhead q) e = (l', h')" "dll_rep l' h' (as @ bs)" "detached l' e"
    using dll_remove_rep [of l "qhead q" as e bs] assms by (auto simp: que_rep_def)
  have "prv l e = last0 0 as" "qtail q = last0 e bs" "e \<notin> set bs"
    using assms by (auto simp: que_rep_def dll_rep_def linked_append)
  with p show ?thesis
    by (cases bs rule: rev_cases) (auto simp: que_remove_def que_rep_def)
qed

lemma que_remove_detached:
  assumes "que_rep l q xs" "detached l e" "e \<notin> set xs"
  shows "que_remove l q e = (l, q)"
proof -
  have "qtail q \<noteq> e"
    using assms by (cases xs rule: rev_cases) (auto simp: que_rep_def detached_def)
  then show ?thesis
    using assms dll_remove_detached [of l e "qhead q" xs] by (simp add: que_remove_def que_rep_def)
qed

lemma que_append_rep:
  assumes "que_rep l q xs" "que_rep l r ys" "set xs \<inter> set ys = {}"
  shows "\<exists>l' q'. que_append l q r = (l', q') \<and> que_rep l' q' (xs @ ys)"
  using assms
  by (cases xs rule: rev_cases; cases ys)
    (auto simp: que_append_def que_rep_def dll_rep_def linked_append hd0_eq intro: hd0_pos)

section \<open>Frames\<close>

text \<open>An operation writes the cells of its own list and of its argument only.\<close>

definition agree_off :: "nat set \<Rightarrow> links \<Rightarrow> links \<Rightarrow> bool" where
  "agree_off S l l' \<longleftrightarrow> (\<forall>x. x \<notin> S \<longrightarrow> nxt l' x = nxt l x \<and> prv l' x = prv l x)"

lemma agree_off_linked:
  "agree_off S l l' \<Longrightarrow> S \<inter> set ys = {} \<Longrightarrow> linked (nxt l') (prv l') p ys q = linked (nxt l) (prv l) p ys q"
  by (induction ys arbitrary: p) (auto simp: agree_off_def)

lemma agree_off_que_rep: "agree_off S l l' \<Longrightarrow> S \<inter> set ys = {} \<Longrightarrow> que_rep l r ys \<Longrightarrow> que_rep l' r ys"
  by (simp add: que_rep_def dll_rep_def agree_off_linked)

lemma agree_off_detached: "agree_off S l l' \<Longrightarrow> x \<notin> S \<Longrightarrow> detached l x \<Longrightarrow> detached l' x"
  by (simp add: agree_off_def detached_def)

lemma que_push_frame: "que_rep l q xs \<Longrightarrow> que_push l q e = (l', q') \<Longrightarrow> agree_off (insert e (set xs)) l l'"
  by (cases xs) (auto simp: que_push_def dll_push_def que_rep_def dll_rep_def agree_off_def)

lemma que_pop_frame: "que_rep l q xs \<Longrightarrow> que_pop l q = (l', q', e) \<Longrightarrow> agree_off (set xs) l l'"
  by (cases xs rule: remdups_adj.cases)
    (auto simp: que_pop_def dll_pop_def que_rep_def dll_rep_def agree_off_def)

lemma que_enqueue_frame:
  assumes "que_rep l q xs" "detached l e" "que_enqueue l q e = (l', q')"
  shows "agree_off (insert e (set xs)) l l'"
proof (cases "qtail q = 0")
  case True
  with assms show ?thesis using que_push_frame by (simp add: que_enqueue_def)
next
  case False
  with assms(1) have "qtail q \<in> set xs" "nxt l (qtail q) = 0"
    by (cases xs rule: rev_cases; auto simp: que_rep_def dll_rep_def linked_append)+
  with False assms(2,3) show ?thesis
    by (auto simp: que_enqueue_def que_insert_def dll_insert_def agree_off_def detached_def Let_def)
qed

lemma que_remove_frame:
  assumes "que_rep l q (as @ e # bs)" "que_remove l q e = (l', q')"
  shows "agree_off (set (as @ e # bs)) l l'"
proof -
  have "prv l e = last0 0 as" "nxt l e = hd0 bs 0" "e \<noteq> 0"
    using assms(1) by (auto simp: que_rep_def dll_rep_def linked_append)
  then have "prv l e = 0 \<or> prv l e \<in> set as" "nxt l e = 0 \<or> nxt l e \<in> set bs"
    by (auto simp: last0_def hd0_def)
  then show ?thesis
    using assms(2) \<open>e \<noteq> 0\<close>
    by (auto simp: que_remove_def dll_remove_def Let_def agree_off_def split: prod.splits if_splits)
qed

section \<open>The queue interface\<close>

text \<open>
  What the clients of a queue rely on: the operations act on the list of the elements, an
  element that leaves is free again, and the other queues of the same link store keep theirs.
\<close>

locale fifo =
  fixes enq :: "'s \<Rightarrow> 'q \<Rightarrow> nat \<Rightarrow> 's \<times> 'q"
    and deq :: "'s \<Rightarrow> 'q \<Rightarrow> 's \<times> 'q \<times> nat"
    and rep :: "'s \<Rightarrow> 'q \<Rightarrow> nat list \<Rightarrow> bool"
    and free :: "'s \<Rightarrow> nat \<Rightarrow> bool"
  assumes enq: "rep s q xs \<Longrightarrow> free s e \<Longrightarrow> e \<notin> set xs \<Longrightarrow> enq s q e = (s', q') \<Longrightarrow> rep s' q' (xs @ [e])"
    and enq_other: "rep s q xs \<Longrightarrow> free s e \<Longrightarrow> enq s q e = (s', q') \<Longrightarrow> rep s r ys \<Longrightarrow>
        e \<notin> set ys \<Longrightarrow> set xs \<inter> set ys = {} \<Longrightarrow> rep s' r ys"
    and enq_free: "rep s q xs \<Longrightarrow> free s e \<Longrightarrow> enq s q e = (s', q') \<Longrightarrow> free s x \<Longrightarrow>
        x \<noteq> e \<Longrightarrow> x \<notin> set xs \<Longrightarrow> free s' x"
    and deq: "rep s q (x # xs) \<Longrightarrow> deq s q = (s', q', e) \<Longrightarrow> e = x \<and> rep s' q' xs \<and> free s' x"
    and deq_empty: "rep s q [] \<Longrightarrow> deq s q = (s', q', e) \<Longrightarrow> e = 0 \<and> s' = s \<and> rep s' q' []"
    and deq_other: "rep s q xs \<Longrightarrow> deq s q = (s', q', e) \<Longrightarrow> rep s r ys \<Longrightarrow> set xs \<inter> set ys = {} \<Longrightarrow> rep s' r ys"
    and rep_nonzero: "rep s q xs \<Longrightarrow> 0 \<notin> set xs"
    and rep_distinct: "rep s q xs \<Longrightarrow> distinct xs"
begin

text \<open>Moving the first element of one queue to the end of another one.\<close>

lemma move:
  assumes "rep s q (x # xs)" "rep s r ys" "set (x # xs) \<inter> set ys = {}"
    and "deq s q = (s1, q', e)" "enq s1 r e = (s2, r')"
  shows "e = x \<and> rep s2 q' xs \<and> rep s2 r' (ys @ [x])"
proof -
  from assms(1,4) have d: "e = x" "rep s1 q' xs" "free s1 x" using deq by blast+
  have r: "rep s1 r ys" using deq_other [OF assms(1,4,2)] assms(3) by blast
  have "rep s2 r' (ys @ [x])" using enq [OF r d(3)] assms(3,5) d(1) by auto
  moreover have "rep s2 q' xs"
    using enq_other [OF r d(3), of s2 r' q' xs] assms(3,5) d(1,2) rep_distinct [OF assms(1)] by auto
  ultimately show ?thesis using d(1) by simp
qed

text \<open>\<dots> and the queues that are neither of the two are left alone.\<close>

lemma move_other:
  assumes "rep s q (x # xs)" "rep s r ys" "set (x # xs) \<inter> set ys = {}"
    and "deq s q = (s1, q', e)" "enq s1 r e = (s2, r')"
    and "rep s t zs" "set zs \<inter> set (x # xs) = {}" "set zs \<inter> set ys = {}"
  shows "rep s2 t zs"
proof -
  from assms(1,4) have d: "e = x" "free s1 x" using deq by blast+
  have r: "rep s1 r ys" using deq_other [OF assms(1,4,2)] assms(3) by blast
  have "rep s1 t zs" using deq_other [OF assms(1,4,6)] assms(7) by blast
  then show ?thesis using enq_other [OF r d(2), of s2 r' t zs] assms(5,7,8) d(1) by auto
qed

end

text \<open>The laws, for the pointer queues of List.h.\<close>

lemma que_enq_law:
  "que_rep s q xs \<Longrightarrow> detached s e \<Longrightarrow> e \<notin> set xs \<Longrightarrow> que_enqueue s q e = (s', q') \<Longrightarrow> que_rep s' q' (xs @ [e])"
  using que_enqueue_rep [of s q xs e] by auto

lemma que_enq_other_law:
  "que_rep s q xs \<Longrightarrow> detached s e \<Longrightarrow> que_enqueue s q e = (s', q') \<Longrightarrow> que_rep s r ys \<Longrightarrow>
    e \<notin> set ys \<Longrightarrow> set xs \<inter> set ys = {} \<Longrightarrow> que_rep s' r ys"
  using agree_off_que_rep [OF que_enqueue_frame [of s q xs e s' q'], of ys r] by simp

lemma que_enq_free_law:
  "que_rep s q xs \<Longrightarrow> detached s e \<Longrightarrow> que_enqueue s q e = (s', q') \<Longrightarrow> detached s x \<Longrightarrow>
    x \<noteq> e \<Longrightarrow> x \<notin> set xs \<Longrightarrow> detached s' x"
  using agree_off_detached [OF que_enqueue_frame [of s q xs e s' q'], of x] by simp

lemma que_deq_law:
  "que_rep s q (x # xs) \<Longrightarrow> que_dequeue s q = (s', q', e) \<Longrightarrow> e = x \<and> que_rep s' q' xs \<and> detached s' x"
  using que_pop_rep [of s q x xs] by (auto simp: que_dequeue_def)

lemma que_deq_empty_law:
  "que_rep s q [] \<Longrightarrow> que_dequeue s q = (s', q', e) \<Longrightarrow> e = 0 \<and> s' = s \<and> que_rep s' q' []"
  by (auto simp: que_dequeue_def que_pop_empty que_rep_clear)

lemma que_deq_other_law:
  "que_rep s q xs \<Longrightarrow> que_dequeue s q = (s', q', e) \<Longrightarrow> que_rep s r ys \<Longrightarrow> set xs \<inter> set ys = {} \<Longrightarrow> que_rep s' r ys"
  using agree_off_que_rep [OF que_pop_frame [of s q xs s' q' e], of ys r] by (simp add: que_dequeue_def)

lemma que_rep_nonzero: "que_rep s q xs \<Longrightarrow> 0 \<notin> set xs"
  by (auto simp: que_rep_def dll_rep_def dest: linked_nonzero)

lemma que_rep_distinct: "que_rep s q xs \<Longrightarrow> distinct xs"
  by (simp add: que_rep_def dll_rep_def)

interpretation lq: fifo que_enqueue que_dequeue que_rep detached
  by unfold_locales
    (fact que_enq_law que_enq_other_law que_enq_free_law que_deq_law que_deq_empty_law
      que_deq_other_law que_rep_nonzero que_rep_distinct)+

end
