(* ===== verification/EventQueue.thy ===== *)
theory EventQueue
  imports Links
begin

text \<open>
  The priority event queue of the event threads (iocore/eventsystem/I_PriorityEventQueue.h and
  PQ-List.cc): ten queues of events, queue \<open>i\<close> for the events due within
  \<open>PQ_BUCKET_TIME(i)\<close>. The queues are the pointer queues of \<open>Links\<close>, all threaded
  through the one link cell of an event.
\<close>

section \<open>The code\<close>

definition N_PQ_LIST :: nat where
  "N_PQ_LIST = 10"

definition PQ_BUCKET_TIME :: "nat \<Rightarrow> int" where
  "PQ_BUCKET_TIME i = 5000000 * 2 ^ i"

definition HRTIME_FOREVER :: int where
  "HRTIME_FOREVER =
     10 * (10 * (365 * (24 * 3600 * 1000000000) + c_div (24 * 3600 * 1000000000) 4))"

record event =
  timeout_at :: int
  cancelled :: bool
  in_heap :: nat
  in_the_priority_queue :: bool
  freed :: bool

record pqueue =
  plinks :: links
  events :: "nat \<Rightarrow> event"
  after :: "nat \<Rightarrow> que"
  last_check_time :: int
  last_check_buckets :: u32

definition upd_event :: "nat \<Rightarrow> (event \<Rightarrow> event) \<Rightarrow> pqueue \<Rightarrow> pqueue" where
  "upd_event e f pq = pq\<lparr>events := (events pq)(e := f (events pq e))\<rparr>"

definition after_enqueue :: "nat \<Rightarrow> nat \<Rightarrow> pqueue \<Rightarrow> pqueue" where
  "after_enqueue i e pq =
     (let (l, q) = que_enqueue (plinks pq) (after pq i) e
      in pq\<lparr>plinks := l, after := (after pq)(i := q)\<rparr>)"

definition pq_init :: "links \<Rightarrow> (nat \<Rightarrow> event) \<Rightarrow> int \<Rightarrow> pqueue" where
  "pq_init l ev now =
     \<lparr>plinks = l, events = ev, after = (\<lambda>_. que_clear), last_check_time = now,
      last_check_buckets = word_of_int (c_div now (PQ_BUCKET_TIME 0))\<rparr>"

definition pq_index :: "int \<Rightarrow> nat" where
  "pq_index t =
     (if t \<le> PQ_BUCKET_TIME 3
      then if t \<le> PQ_BUCKET_TIME 1
           then if t \<le> PQ_BUCKET_TIME 0 then 0 else 1
           else if t \<le> PQ_BUCKET_TIME 2 then 2 else 3
      else if t \<le> PQ_BUCKET_TIME 7
           then if t \<le> PQ_BUCKET_TIME 5
                then if t \<le> PQ_BUCKET_TIME 4 then 4 else 5
                else if t \<le> PQ_BUCKET_TIME 6 then 6 else 7
           else if t \<le> PQ_BUCKET_TIME 8 then 8 else 9)"

definition pq_enqueue :: "nat \<Rightarrow> int \<Rightarrow> pqueue \<Rightarrow> pqueue" where
  "pq_enqueue e now pq =
     (let i = pq_index (timeout_at (events pq e) - now)
      in after_enqueue i e
           (upd_event e (\<lambda>ev. ev\<lparr>in_the_priority_queue := True, in_heap := i\<rparr>) pq))"

definition pq_remove :: "nat \<Rightarrow> pqueue \<Rightarrow> pqueue" where
  "pq_remove e pq =
     (let pq1 = upd_event e (\<lambda>ev. ev\<lparr>in_the_priority_queue := False\<rparr>) pq;
          i = in_heap (events pq1 e);
          (l, q) = que_remove (plinks pq1) (after pq1 i) e
      in pq1\<lparr>plinks := l, after := (after pq1)(i := q)\<rparr>)"

definition pq_dequeue_ready :: "pqueue \<Rightarrow> pqueue \<times> nat" where
  "pq_dequeue_ready pq =
     (let (l, q, e) = que_dequeue (plinks pq) (after pq 0);
          pq1 = pq\<lparr>plinks := l, after := (after pq)(0 := q)\<rparr>
      in if e \<noteq> 0 then (upd_event e (\<lambda>ev. ev\<lparr>in_the_priority_queue := False\<rparr>) pq1, e) else (pq1, e))"

function bit_length :: "u32 \<Rightarrow> nat" where
  "bit_length todo = (if todo \<noteq> 0 then Suc (bit_length (drop_bit 1 todo)) else 0)"
  by pat_completeness auto
termination
proof (relation "measure unat")
  fix w :: u32 assume "w \<noteq> 0"
  then have "0 < unat w" by (simp add: unat_gt_0)
  then show "(drop_bit 1 w, w) \<in> measure unat"
    by (simp add: unat_drop_bit_eq drop_bit_eq_div unat_div)
qed simp

declare bit_length.simps [simp del]

fun find_bucket :: "int \<Rightarrow> nat \<Rightarrow> nat" where
  "find_bucket tt 0 = 0"
| "find_bucket tt (Suc j) = (if tt \<le> PQ_BUCKET_TIME j then find_bucket tt j else Suc j)"

text \<open>The body of the loop that empties a bucket: the event is freed or put into its bucket.\<close>

definition check_event :: "int \<Rightarrow> nat \<Rightarrow> nat \<Rightarrow> pqueue \<Rightarrow> pqueue" where
  "check_event now i e pq =
     (if cancelled (events pq e)
      then upd_event e (\<lambda>ev. ev\<lparr>in_the_priority_queue := False, cancelled := False, freed := True\<rparr>) pq
      else
        let tt = timeout_at (events pq e) - now;
            j = find_bucket tt i
        in after_enqueue j e (upd_event e (\<lambda>ev. ev\<lparr>in_heap := j\<rparr>) pq))"

partial_function (option) drain_bucket :: "int \<Rightarrow> nat \<Rightarrow> que \<Rightarrow> pqueue \<Rightarrow> pqueue option" where
  "drain_bucket now i q pq =
     (case que_dequeue (plinks pq) q of (l, q', e) \<Rightarrow>
        (if e = 0 then Some (pq\<lparr>plinks := l\<rparr>)
         else drain_bucket now i q' (check_event now i e (pq\<lparr>plinks := l\<rparr>))))"

fun check_buckets_from :: "int \<Rightarrow> nat \<Rightarrow> nat \<Rightarrow> pqueue \<Rightarrow> pqueue option" where
  "check_buckets_from now i 0 pq = Some pq"
| "check_buckets_from now i (Suc n) pq =
     (case drain_bucket now i (after pq i) (pq\<lparr>after := (after pq)(i := que_clear)\<rparr>) of
        None \<Rightarrow> None
      | Some pq' \<Rightarrow> check_buckets_from now (Suc i) n pq')"

definition todo_buckets :: "int \<Rightarrow> pqueue \<Rightarrow> u32" where
  "todo_buckets now pq =
     (word_of_int (c_div now (PQ_BUCKET_TIME 0)) XOR last_check_buckets pq)
       AND (push_bit (N_PQ_LIST - 1) 1 - 1)"

definition check_ready :: "int \<Rightarrow> pqueue \<Rightarrow> pqueue option" where
  "check_ready now pq =
     check_buckets_from now 1 (bit_length (todo_buckets now pq))
       (pq\<lparr>last_check_time := now,
           last_check_buckets := word_of_int (c_div now (PQ_BUCKET_TIME 0))\<rparr>)"

fun earliest_from :: "nat \<Rightarrow> nat \<Rightarrow> pqueue \<Rightarrow> int" where
  "earliest_from i 0 pq = last_check_time pq + HRTIME_FOREVER"
| "earliest_from i (Suc n) pq =
     (if qhead (after pq i) \<noteq> 0 then last_check_time pq + c_div (PQ_BUCKET_TIME i) 2
      else earliest_from (Suc i) n pq)"

definition earliest_timeout :: "pqueue \<Rightarrow> int" where
  "earliest_timeout pq = earliest_from 0 N_PQ_LIST pq"

section \<open>Buckets as lists\<close>

text \<open>
  \<open>xs i\<close> is the list of the events in bucket \<open>i\<close>; the invariant of the structure, without
  the timing.
\<close>

definition buckets_apart :: "(nat \<Rightarrow> nat list) \<Rightarrow> bool" where
  "buckets_apart xs \<longleftrightarrow>
     (\<forall>i < N_PQ_LIST. \<forall>j < N_PQ_LIST. i \<noteq> j \<longrightarrow> set (xs i) \<inter> set (xs j) = {})"

definition pq_rep :: "pqueue \<Rightarrow> (nat \<Rightarrow> nat list) \<Rightarrow> bool" where
  "pq_rep pq xs \<longleftrightarrow>
     (\<forall>i < N_PQ_LIST. que_rep (plinks pq) (after pq i) (xs i)) \<and> buckets_apart xs"

declare N_PQ_LIST_def [simp]

lemma upd_event_simps [simp]:
  "plinks (upd_event e f pq) = plinks pq" "after (upd_event e f pq) = after pq"
  "last_check_time (upd_event e f pq) = last_check_time pq"
  "last_check_buckets (upd_event e f pq) = last_check_buckets pq"
  "events (upd_event e f pq) = (events pq)(e := f (events pq e))"
  by (simp_all add: upd_event_def)

lemma after_enqueue_simps [simp]:
  "events (after_enqueue i e pq) = events pq"
  "last_check_time (after_enqueue i e pq) = last_check_time pq"
  "last_check_buckets (after_enqueue i e pq) = last_check_buckets pq"
  by (simp_all add: after_enqueue_def split: prod.splits)

lemma pq_rep_upd_event [simp]: "pq_rep (upd_event e f pq) xs = pq_rep pq xs"
  by (simp add: pq_rep_def)

lemma after_enqueue_rep:
  assumes rep: "pq_rep pq xs" and i: "i < 10" and e: "detached (plinks pq) e"
    and new: "\<forall>j < 10. e \<notin> set (xs j)"
  shows "pq_rep (after_enqueue i e pq) (xs(i := xs i @ [e]))"
proof -
  obtain l q where enq: "que_enqueue (plinks pq) (after pq i) e = (l, q)" by fastforce
  have rep_j: "que_rep (plinks pq) (after pq j) (xs j)" if "j < 10" for j
    using rep that by (simp add: pq_rep_def)
  have "que_rep l q (xs i @ [e])" using lq.enq [OF rep_j [OF i] e _ enq] new i by blast
  moreover have "que_rep l (after pq j) (xs j)" if "j < 10" "j \<noteq> i" for j
    using lq.enq_other [OF rep_j [OF i] e enq rep_j [OF that(1)]] rep new that i
    by (simp add: pq_rep_def buckets_apart_def)
  ultimately show ?thesis
    using rep new by (auto simp: pq_rep_def buckets_apart_def after_enqueue_def enq)
qed

text \<open>Elements outside a queue stay detached.\<close>

lemma after_enqueue_other:
  assumes "pq_rep pq xs" "i < 10" "detached (plinks pq) e"
    and "que_rep (plinks pq) r zs" "e \<notin> set zs" "\<forall>j < 10. set zs \<inter> set (xs j) = {}"
  shows "que_rep (plinks (after_enqueue i e pq)) r zs"
proof -
  obtain l q where enq: "que_enqueue (plinks pq) (after pq i) e = (l, q)" by fastforce
  have "que_rep (plinks pq) (after pq i) (xs i)" using assms(1,2) by (simp add: pq_rep_def)
  from lq.enq_other [OF this assms(3) enq assms(4,5)] assms(2,6)
  show ?thesis by (auto simp: after_enqueue_def enq)
qed

lemma find_bucket_le: "find_bucket tt i \<le> i"
  by (induction i) auto

lemma find_bucket_above: "0 < find_bucket tt i \<Longrightarrow> PQ_BUCKET_TIME (find_bucket tt i - 1) < tt"
  by (induction i) (auto split: if_splits)

lemma bucket_time_mono: "i \<le> j \<Longrightarrow> PQ_BUCKET_TIME i \<le> PQ_BUCKET_TIME j"
  by (simp add: PQ_BUCKET_TIME_def)

lemma pq_index_find_bucket: "pq_index t = find_bucket t 9"
  unfolding pq_index_def by (simp add: eval_nat_numeral PQ_BUCKET_TIME_def)

text \<open>Where an event of a drained bucket goes.\<close>

definition requeued :: "int \<Rightarrow> nat \<Rightarrow> (nat \<Rightarrow> event) \<Rightarrow> nat \<Rightarrow> nat list \<Rightarrow> nat list" where
  "requeued now i ev j zs =
     filter (\<lambda>e. \<not> cancelled (ev e) \<and> find_bucket (timeout_at (ev e) - now) i = j) zs"

lemma requeued_split:
  "requeued now i ev j (z # zs) = requeued now i ev j [z] @ requeued now i ev j zs"
  by (simp add: requeued_def)

lemma requeued_cong: "(\<And>e. e \<in> set zs \<Longrightarrow> ev' e = ev e) \<Longrightarrow> requeued now i ev' j zs = requeued now i ev j zs"
  by (simp add: requeued_def cong: filter_cong)

lemma check_event_frame [simp]:
  "last_check_time (check_event now i e pq) = last_check_time pq"
  "last_check_buckets (check_event now i e pq) = last_check_buckets pq"
  "x \<noteq> e \<Longrightarrow> events (check_event now i e pq) x = events pq x"
  "timeout_at (events (check_event now i e pq) x) = timeout_at (events pq x)"
  "\<not> cancelled (events pq x) \<Longrightarrow> \<not> cancelled (events (check_event now i e pq) x)"
  by (simp_all add: check_event_def Let_def)

lemma check_event_rep:
  assumes "pq_rep pq xs" "i < 10" "detached (plinks pq) e" "\<forall>j < 10. e \<notin> set (xs j)"
  shows "pq_rep (check_event now i e pq) (\<lambda>j. xs j @ requeued now i (events pq) j [e])"
proof (cases "cancelled (events pq e)")
  case True
  then show ?thesis using assms(1) by (simp add: check_event_def requeued_def)
next
  case False
  let ?j = "find_bucket (timeout_at (events pq e) - now) i"
  have "?j < 10" using find_bucket_le [of _ i] assms(2) by (meson le_less_trans)
  then have "pq_rep (check_event now i e pq) (xs(?j := xs ?j @ [e]))"
    using after_enqueue_rep [of "upd_event e (\<lambda>ev. ev\<lparr>in_heap := ?j\<rparr>) pq" xs ?j e] assms False
    by (simp add: check_event_def Let_def)
  moreover have "xs(?j := xs ?j @ [e]) = (\<lambda>j. xs j @ requeued now i (events pq) j [e])"
    using False by (auto simp: requeued_def)
  ultimately show ?thesis by simp
qed

lemma check_event_other:
  assumes "pq_rep pq xs" "i < 10" "detached (plinks pq) e"
    and "que_rep (plinks pq) r zs" "e \<notin> set zs" "\<forall>j < 10. set zs \<inter> set (xs j) = {}"
  shows "que_rep (plinks (check_event now i e pq)) r zs"
proof (cases "cancelled (events pq e)")
  case False
  let ?j = "find_bucket (timeout_at (events pq e) - now) i"
  have "?j < 10" using find_bucket_le [of _ i] assms(2) by (meson le_less_trans)
  then show ?thesis
    using after_enqueue_other [of "upd_event e (\<lambda>ev. ev\<lparr>in_heap := ?j\<rparr>) pq" xs ?j e r zs] assms False
    by (simp add: check_event_def Let_def)
qed (use assms(4) in \<open>simp add: check_event_def\<close>)

lemma drain_bucket_rep:
  assumes "pq_rep pq xs" "que_rep (plinks pq) q zs" "i < 10" "\<forall>j < 10. set zs \<inter> set (xs j) = {}"
  shows "\<exists>pq'. drain_bucket now i q pq = Some pq' \<and>
    pq_rep pq' (\<lambda>j. xs j @ requeued now i (events pq) j zs) \<and>
    last_check_time pq' = last_check_time pq \<and> last_check_buckets pq' = last_check_buckets pq \<and>
    (\<forall>e. timeout_at (events pq' e) = timeout_at (events pq e)) \<and>
    (\<forall>e. \<not> cancelled (events pq e) \<longrightarrow> \<not> cancelled (events pq' e))"
  using assms
proof (induction zs arbitrary: pq xs q)
  case Nil
  obtain l q' e where d: "que_dequeue (plinks pq) q = (l, q', e)" by (metis prod_cases3)
  then have "e = 0" "l = plinks pq" using lq.deq_empty [OF Nil(2) d] by simp_all
  then show ?case using d Nil(1) by (simp add: drain_bucket.simps requeued_def)
next
  case (Cons z zs)
  obtain l q' e where d: "que_dequeue (plinks pq) q = (l, q', e)" by (metis prod_cases3)
  have e: "e = z" "que_rep l q' zs" "detached l z" using lq.deq [OF Cons.prems(2) d] by blast+
  have z: "z \<noteq> 0" "z \<notin> set zs"
    using lq.rep_nonzero [OF Cons.prems(2)] lq.rep_distinct [OF Cons.prems(2)] by auto
  let ?pq = "pq\<lparr>plinks := l\<rparr>" let ?pq2 = "check_event now i z ?pq"
  have rep1: "pq_rep ?pq xs"
    unfolding pq_rep_def
  proof (intro conjI allI impI)
    fix j :: nat assume "j < N_PQ_LIST"
    then show "que_rep (plinks ?pq) (after ?pq j) (xs j)"
      using lq.deq_other [OF Cons.prems(2) d, of "after pq j" "xs j"] Cons.prems(1,4)
      by (simp add: pq_rep_def)
  qed (use Cons.prems(1) in \<open>simp add: pq_rep_def\<close>)
  have rep2: "pq_rep ?pq2 (\<lambda>j. xs j @ requeued now i (events pq) j [z])"
    using check_event_rep [OF rep1 Cons.prems(3), of z] e(3) Cons.prems(4) by simp
  have q2: "que_rep (plinks ?pq2) q' zs"
    using check_event_other [OF rep1 Cons.prems(3), of z q' zs] e(2,3) z(2) Cons.prems(4) by simp
  have "\<forall>j < 10. set zs \<inter> set (xs j @ requeued now i (events pq) j [z]) = {}"
    using Cons.prems(4) z(2) by (auto simp: requeued_def)
  from Cons.IH [OF rep2 q2 Cons.prems(3) this] obtain pq' where ih: "drain_bucket now i q' ?pq2 = Some pq'"
    "pq_rep pq' (\<lambda>j. (xs j @ requeued now i (events pq) j [z]) @ requeued now i (events ?pq2) j zs)"
    "last_check_time pq' = last_check_time pq" "last_check_buckets pq' = last_check_buckets pq"
    "\<forall>e. timeout_at (events pq' e) = timeout_at (events pq e)"
    "\<forall>e. \<not> cancelled (events ?pq2 e) \<longrightarrow> \<not> cancelled (events pq' e)"
    by auto
  have "requeued now i (events ?pq2) j zs = requeued now i (events pq) j zs" for j
  proof (rule requeued_cong)
    fix e assume "e \<in> set zs"
    then have "e \<noteq> z" using z(2) by auto
    then show "events ?pq2 e = events pq e" using check_event_frame(3) [of e z now i ?pq] by simp
  qed
  then have "pq_rep pq' (\<lambda>j. xs j @ requeued now i (events pq) j (z # zs))"
    using ih(2) by (simp only: requeued_split [of now i "events pq" _ z zs] append_assoc)
  moreover have "drain_bucket now i q pq = Some pq'"
    using ih(1) d e(1) z(1) by (simp add: drain_bucket.simps [of now i q pq])
  moreover have "\<forall>e. \<not> cancelled (events pq e) \<longrightarrow> \<not> cancelled (events pq' e)"
    using ih(6) check_event_frame(5) [of ?pq _ now i z] by auto
  ultimately show ?case using ih(3-5) by auto
qed


section \<open>No event is late\<close>

text \<open>
  An event of bucket \<open>j \<ge> 1\<close> is due after the next multiple of the width below
  (\<open>PQ_BUCKET_TIME (j - 1)\<close>) that follows the last check: crossing that multiple is what
  makes \<open>check_ready\<close> look at the bucket again.
\<close>

definition not_due :: "int \<Rightarrow> nat \<Rightarrow> int \<Rightarrow> bool" where
  "not_due t j tau \<longleftrightarrow> (t div PQ_BUCKET_TIME (j - 1) + 1) * PQ_BUCKET_TIME (j - 1) < tau"

definition all_not_due :: "int \<Rightarrow> nat set \<Rightarrow> pqueue \<Rightarrow> (nat \<Rightarrow> nat list) \<Rightarrow> bool" where
  "all_not_due t J pq xs \<longleftrightarrow> (\<forall>j \<in> J. \<forall>e \<in> set (xs j). not_due t j (timeout_at (events pq e)))"

definition pq_inv :: "pqueue \<Rightarrow> (nat \<Rightarrow> nat list) \<Rightarrow> bool" where
  "pq_inv pq xs \<longleftrightarrow> pq_rep pq xs \<and> all_not_due (last_check_time pq) {1..<10} pq xs \<and>
     0 \<le> last_check_time pq \<and>
     last_check_buckets pq = word_of_int (last_check_time pq div PQ_BUCKET_TIME 0)"

lemma bucket_time_pos [simp]: "0 < PQ_BUCKET_TIME i"
  by (simp add: PQ_BUCKET_TIME_def)

lemma next_multiple_le: "0 < b \<Longrightarrow> (t div b + 1) * b \<le> t + (b :: int)"
  by (simp add: distrib_right) (metis div_mult_mod_eq le_add_same_cancel1 pos_mod_sign)

lemma next_multiple_gt: "0 < b \<Longrightarrow> t < (t div b + 1) * (b :: int)"
  by (metis add.commute div_mult_mod_eq distrib_right mult_1 pos_mod_bound add_less_cancel_left)

lemma not_due_far: "t + PQ_BUCKET_TIME (j - 1) < tau \<Longrightarrow> not_due t j tau"
  using next_multiple_le [of "PQ_BUCKET_TIME (j - 1)" t] by (simp add: not_due_def)

lemma not_due_later: "not_due t j tau \<Longrightarrow> t < tau"
  using next_multiple_gt [of "PQ_BUCKET_TIME (j - 1)" t] by (simp add: not_due_def)

lemma requeued_not_due:
  "e \<in> set (requeued now i ev j zs) \<Longrightarrow> 0 < j \<Longrightarrow> not_due now j (timeout_at (ev e))"
  using find_bucket_above [of "timeout_at (ev e) - now" i] not_due_far [of now j "timeout_at (ev e)"]
  by (auto simp: requeued_def)

lemma requeued_bucket_le: "e \<in> set (requeued now i ev j zs) \<Longrightarrow> j \<le> i"
  using find_bucket_le by (auto simp: requeued_def)

definition queued :: "(nat \<Rightarrow> nat list) \<Rightarrow> nat set" where
  "queued xs = (\<Union>j < 10. set (xs j))"

lemma check_buckets_from_rep:
  assumes "pq_rep pq xs" "1 \<le> i" "i + n \<le> 10" "all_not_due now ({1..<i} \<union> {i + n..<10}) pq xs"
  shows "\<exists>pq' xs'. check_buckets_from now i n pq = Some pq' \<and> pq_rep pq' xs' \<and>
    all_not_due now {1..<10} pq' xs' \<and>
    last_check_time pq' = last_check_time pq \<and> last_check_buckets pq' = last_check_buckets pq \<and>
    (\<forall>e. timeout_at (events pq' e) = timeout_at (events pq e)) \<and>
    queued xs' \<subseteq> queued xs \<and> (\<forall>e \<in> queued xs. \<not> cancelled (events pq e) \<longrightarrow> e \<in> queued xs')"
  using assms
proof (induction n arbitrary: i pq xs)
  case 0
  then have "{1..<i} \<union> {i + 0..<10} = {1..<10}" by auto
  with 0 show ?case by auto
next
  case (Suc n)
  let ?pq = "pq\<lparr>after := (after pq)(i := que_clear)\<rparr>" let ?xs = "xs(i := [])"
  have i: "i < 10" using Suc.prems by simp
  have rep: "pq_rep ?pq ?xs"
    using Suc.prems(1) by (auto simp: pq_rep_def buckets_apart_def que_rep_clear)
  have q: "que_rep (plinks ?pq) (after pq i) (xs i)" and apart: "\<forall>j < 10. set (xs i) \<inter> set (?xs j) = {}"
    using Suc.prems(1) i by (auto simp: pq_rep_def buckets_apart_def)
  let ?ys = "\<lambda>j. ?xs j @ requeued now i (events pq) j (xs i)"
  obtain pq1 where d: "drain_bucket now i (after pq i) ?pq = Some pq1" "pq_rep pq1 ?ys"
    "last_check_time pq1 = last_check_time pq" "last_check_buckets pq1 = last_check_buckets pq"
    "\<forall>e. timeout_at (events pq1 e) = timeout_at (events pq e)"
    "\<forall>e. \<not> cancelled (events pq e) \<longrightarrow> \<not> cancelled (events pq1 e)"
    using drain_bucket_rep [OF rep q i apart, of now] by auto
  have "all_not_due now ({1..<Suc i} \<union> {Suc i + n..<10}) pq1 ?ys"
    unfolding all_not_due_def
  proof (intro ballI)
    fix j e assume j: "j \<in> {1..<Suc i} \<union> {Suc i + n..<10}" and e: "e \<in> set (?ys j)"
    show "not_due now j (timeout_at (events pq1 e))"
    proof (cases "e \<in> set (requeued now i (events pq) j (xs i))")
      case True
      then show ?thesis using requeued_not_due [OF True] j d(5) by auto
    next
      case False
      with e have "e \<in> set (xs j)" "j \<noteq> i" by (auto split: if_splits)
      then show ?thesis using Suc.prems(4) j d(5) by (auto simp: all_not_due_def)
    qed
  qed
  from Suc.IH [OF d(2) _ _ this] Suc.prems(2,3)
  obtain pq' xs' where ih: "check_buckets_from now (Suc i) n pq1 = Some pq'" "pq_rep pq' xs'"
    "all_not_due now {1..<10} pq' xs'"
    "last_check_time pq' = last_check_time pq" "last_check_buckets pq' = last_check_buckets pq"
    "\<forall>e. timeout_at (events pq' e) = timeout_at (events pq e)"
    "queued xs' \<subseteq> queued ?ys" "\<forall>e \<in> queued ?ys. \<not> cancelled (events pq1 e) \<longrightarrow> e \<in> queued xs'"
    using d(3,4,5) by auto
  have "queued ?ys \<subseteq> queued xs"
    using i by (auto simp: queued_def requeued_def split: if_splits)
  moreover have "e \<in> queued ?ys \<and> \<not> cancelled (events pq1 e)" if e: "e \<in> queued xs" "\<not> cancelled (events pq e)" for e
  proof -
    obtain j where j: "j < 10" "e \<in> set (xs j)" using e(1) by (auto simp: queued_def)
    let ?k = "if j = i then find_bucket (timeout_at (events pq e) - now) i else j"
    have "?k < 10" using j(1) i find_bucket_le [of "timeout_at (events pq e) - now" i] by auto
    moreover have "e \<in> set (?ys ?k)" using j(2) e(2) by (auto simp: requeued_def)
    ultimately show ?thesis using d(6) e(2) unfolding queued_def by blast
  qed
  moreover have "check_buckets_from now i (Suc n) pq = Some pq'" using d(1) ih(1) by simp
  moreover have "\<forall>e \<in> queued xs. \<not> cancelled (events pq e) \<longrightarrow> e \<in> queued xs'"
    using calculation(2) ih(8) by blast
  ultimately show ?case using ih(2-7) by (intro exI [of _ pq'] exI [of _ xs'] conjI) (assumption | blast)+
qed

section \<open>Which buckets are looked at\<close>

lemma drop_bit_bit_length: "bit_length w \<le> m \<Longrightarrow> drop_bit m w = 0"
proof (induction w arbitrary: m rule: bit_length.induct)
  case (1 w)
  show ?case
  proof (cases "w = 0")
    case False
    with 1(2) obtain m' where m: "m = Suc m'" "bit_length (drop_bit 1 w) \<le> m'"
      by (cases m) (auto simp: bit_length.simps [of w])
    with 1(1) [OF False] show ?thesis by (simp add: drop_bit_Suc drop_bit_half)
  qed simp
qed

lemma bit_length_le: "drop_bit m w = 0 \<Longrightarrow> bit_length w \<le> m"
proof (induction w arbitrary: m rule: bit_length.induct)
  case (1 w)
  show ?case
  proof (cases "w = 0")
    case True
    then show ?thesis by (simp add: bit_length.simps)
  next
    case False
    with 1(2) obtain m' where m: "m = Suc m'" by (cases m) auto
    with 1 False show ?thesis by (simp add: drop_bit_Suc drop_bit_half bit_length.simps [of w])
  qed
qed

lemma and_511: "(w :: u32) AND 511 = take_bit 9 w"
  by (simp add: take_bit_eq_mask mask_eq_exp_minus_1)

lemma bit_length_mask: "bit_length (w AND 511) \<le> 9"
proof (rule bit_length_le)
  show "drop_bit 9 (w AND 511) = 0" by (simp only: and_511 drop_bit_take_bit) simp
qed

lemma div_eq_close:
  assumes "x div p = y div p" "0 < (p :: int)"
  shows "\<bar>x - y\<bar> < p"
proof -
  have "x mod p - y mod p = x - y" using assms(1) by (simp add: minus_mult_div_eq_mod [symmetric])
  moreover have "0 \<le> x mod p" "x mod p < p" "0 \<le> y mod p" "y mod p < p" using assms(2) by simp_all
  ultimately show ?thesis by linarith
qed

lemma block_eq:
  fixes c l :: int
  assumes "l \<le> c" "c - l \<le> 256" "\<bar>c mod 512 - l mod 512\<bar> < 256"
  shows "c div 512 = l div 512"
proof -
  have gen: "a = b" if "c = 512 * a + r" "l = 512 * b + s" "\<bar>r - s\<bar> < 256" for a b r s :: int
    using that assms(1,2) by linarith
  show ?thesis by (rule gen [of _ "c mod 512" _ "l mod 512"]) (use assms(3) in simp_all)
qed

text \<open>If the low nine bits of two tick counts agree from bit \<open>m\<close> on, so do the ticks.\<close>

lemma ticks_agree:
  fixes c l :: int
  assumes "l \<le> c" "c - l \<le> 256" "m \<le> 8"
    and "drop_bit m ((word_of_int c XOR word_of_int l :: u32) AND 511) = 0"
  shows "c div 2 ^ m = l div 2 ^ m"
proof -
  have bits: "bit c n = bit l n" if "m \<le> n" "n < 9" for n
  proof -
    have "\<not> bit (drop_bit m ((word_of_int c XOR word_of_int l :: u32) AND 511)) (n - m)"
      using assms(4) by simp
    then show ?thesis using that by (simp add: and_511 bit_simps)
  qed
  have "drop_bit m (take_bit 9 c) = drop_bit m (take_bit 9 l)"
    by (rule bit_eqI) (auto simp: bit_simps bits)
  then have r: "(c mod 512) div 2 ^ m = (l mod 512) div 2 ^ m"
    by (simp add: drop_bit_eq_div take_bit_eq_mod)
  have small: "\<bar>c mod 512 - l mod 512\<bar> < 256"
  proof -
    have "(2 :: int) ^ m \<le> 2 ^ 8" using assms(3) by (intro power_increasing) auto
    moreover have "\<bar>c mod 512 - l mod 512\<bar> < 2 ^ m" using r by (rule div_eq_close) simp
    ultimately show ?thesis by simp
  qed
  then have "c div 512 = l div 512" using assms(1,2) by (rule block_eq [rotated 2])
  moreover have "x div 2 ^ m = (x div 512) * 2 ^ (9 - m) + (x mod 512) div 2 ^ m" for x :: int
  proof -
    have "x = 2 ^ m * ((x div 512) * 2 ^ (9 - m)) + x mod 512"
      using assms(3) by (simp add: power_add [symmetric] mult.assoc [symmetric] mult.commute)
    then have "x div 2 ^ m = (2 ^ m * ((x div 512) * 2 ^ (9 - m)) + x mod 512) div 2 ^ m" by simp
    then show ?thesis by simp
  qed
  ultimately show ?thesis using r by metis
qed


lemma tick_div:
  "t div PQ_BUCKET_TIME i = (t div PQ_BUCKET_TIME 0) div 2 ^ i"
proof -
  have "t div (5000000 * 2 ^ i) = t div 5000000 div 2 ^ i" by (rule zdiv_zmult2_eq) simp
  then show ?thesis by (simp add: PQ_BUCKET_TIME_def)
qed

lemma todo_buckets_eq:
  "0 \<le> now \<Longrightarrow> todo_buckets now pq =
    (word_of_int (now div PQ_BUCKET_TIME 0) XOR last_check_buckets pq) AND 511"
  by (simp add: todo_buckets_def c_div_nonneg)

text \<open>A bucket that is not looked at has no multiple of its width crossed since the last check.\<close>

lemma unscanned_not_due:
  assumes inv: "pq_inv pq xs" and now: "last_check_time pq \<le> now"
    and near: "now div PQ_BUCKET_TIME 0 - last_check_time pq div PQ_BUCKET_TIME 0 \<le> 256"
    and j: "bit_length (todo_buckets now pq) < j" "j < 10"
    and e: "not_due (last_check_time pq) j tau"
  shows "not_due now j tau"
proof -
  let ?c = "now div PQ_BUCKET_TIME 0" and ?l = "last_check_time pq div PQ_BUCKET_TIME 0"
  have pos: "0 \<le> last_check_time pq" "last_check_buckets pq = word_of_int ?l"
    using inv by (simp_all add: pq_inv_def)
  have "drop_bit (j - 1) ((word_of_int ?c XOR word_of_int ?l :: u32) AND 511) = 0"
    using drop_bit_bit_length [of "todo_buckets now pq" "j - 1"] j(1) todo_buckets_eq [of now pq] pos now by simp
  moreover have "?l \<le> ?c" using now by (intro zdiv_mono1) auto
  ultimately have "?c div 2 ^ (j - 1) = ?l div 2 ^ (j - 1)"
    using near j(2) by (intro ticks_agree) auto
  then show ?thesis using e tick_div [of now "j - 1"] tick_div [of "last_check_time pq" "j - 1"] pos(1) now
    by (simp add: not_due_def)
qed

lemma pq_index_bound: "pq_index t < 9 \<Longrightarrow> t \<le> PQ_BUCKET_TIME (pq_index t)"
  unfolding pq_index_def by (auto split: if_splits)

lemma pq_enqueue_at:
  assumes inv: "pq_inv pq xs" and e: "detached (plinks pq) e" "e \<notin> queued xs"
    and now: "last_check_time pq \<le> now"
  shows "pq_index (timeout_at (events pq e) - now) < 10 \<and>
    pq_inv (pq_enqueue e now pq)
      (xs(pq_index (timeout_at (events pq e) - now) := xs (pq_index (timeout_at (events pq e) - now)) @ [e])) \<and>
    in_heap (events (pq_enqueue e now pq) e) = pq_index (timeout_at (events pq e) - now)"
proof -
  let ?i = "pq_index (timeout_at (events pq e) - now)"
  let ?pq = "upd_event e (\<lambda>ev. ev\<lparr>in_the_priority_queue := True, in_heap := ?i\<rparr>) pq"
  have eq: "pq_enqueue e now pq = after_enqueue ?i e ?pq" by (simp add: pq_enqueue_def Let_def)
  have i: "?i < 10"
    using find_bucket_le [of "timeout_at (events pq e) - now" 9] by (simp add: pq_index_find_bucket)
  have due: "not_due (last_check_time pq) ?i (timeout_at (events pq e))" if "0 < ?i"
    using find_bucket_above [of "timeout_at (events pq e) - now" 9] that now
    by (intro not_due_far) (simp add: pq_index_find_bucket)
  have "pq_rep (after_enqueue ?i e ?pq) (xs(?i := xs ?i @ [e]))"
    using inv e i by (intro after_enqueue_rep) (auto simp: pq_inv_def queued_def)
  moreover have "all_not_due (last_check_time pq) {1..<10} (after_enqueue ?i e ?pq) (xs(?i := xs ?i @ [e]))"
    using inv due by (auto simp: pq_inv_def all_not_due_def)
  ultimately have "pq_inv (pq_enqueue e now pq) (xs(?i := xs ?i @ [e]))"
    using inv by (simp add: pq_inv_def eq)
  moreover have "in_heap (events (pq_enqueue e now pq) e) = ?i" by (simp add: eq)
  ultimately show ?thesis using i by blast
qed

text \<open>Taking the first event of bucket 0, and taking any event out of its bucket.\<close>

lemma pq_rep_bucket: "pq_rep pq xs \<Longrightarrow> i < 10 \<Longrightarrow> que_rep (plinks pq) (after pq i) (xs i)"
  by (simp add: pq_rep_def)

lemma pq_rep_apart: "pq_rep pq xs \<Longrightarrow> i < 10 \<Longrightarrow> j < 10 \<Longrightarrow> i \<noteq> j \<Longrightarrow> set (xs i) \<inter> set (xs j) = {}"
  by (simp add: pq_rep_def buckets_apart_def)

lemma pq_rep_replace:
  assumes "pq_rep pq xs" "i < 10" "que_rep l q ys" "set ys \<subseteq> set (xs i)"
    and "\<And>j. j < 10 \<Longrightarrow> j \<noteq> i \<Longrightarrow> que_rep l (after pq j) (xs j)"
  shows "pq_rep (pq\<lparr>plinks := l, after := (after pq)(i := q)\<rparr>) (xs(i := ys))"
proof -
  have apart: "set ((xs(i := ys)) j) \<inter> set ((xs(i := ys)) k) = {}" if "j < 10" "k < 10" "j \<noteq> k" for j k
  proof -
    have "set ((xs(i := ys)) j) \<subseteq> set (xs j)" "set ((xs(i := ys)) k) \<subseteq> set (xs k)" using assms(4) by auto
    moreover have "set (xs j) \<inter> set (xs k) = {}" using pq_rep_apart [OF assms(1) that] .
    ultimately show ?thesis by blast
  qed
  then have "buckets_apart (xs(i := ys))" by (simp add: buckets_apart_def del: fun_upd_apply)
  then show ?thesis using assms by (simp add: pq_rep_def)
qed

lemma pq_dequeue_ready_rep:
  assumes inv: "pq_inv pq xs" and x: "xs 0 = e # es"
  shows "\<exists>pq'. pq_dequeue_ready pq = (pq', e) \<and> pq_inv pq' (xs(0 := es)) \<and>
    \<not> in_the_priority_queue (events pq' e)"
proof -
  have rep: "pq_rep pq xs" using inv by (simp add: pq_inv_def)
  have q0: "que_rep (plinks pq) (after pq 0) (e # es)" using pq_rep_bucket [OF rep, of 0] x by simp
  obtain l q y where d: "que_dequeue (plinks pq) (after pq 0) = (l, q, y)" by (metis prod_cases3)
  have y: "y = e" "que_rep l q es" "e \<noteq> 0" using lq.deq [OF q0 d] lq.rep_nonzero [OF q0] by auto
  let ?pq = "upd_event e (\<lambda>ev. ev\<lparr>in_the_priority_queue := False\<rparr>) (pq\<lparr>plinks := l, after := (after pq)(0 := q)\<rparr>)"
  have "pq_rep ?pq (xs(0 := es))"
  proof (subst pq_rep_upd_event, rule pq_rep_replace [OF rep _ y(2)])
    fix j :: nat assume j: "j < 10" "j \<noteq> 0"
    have "set (e # es) \<inter> set (xs j) = {}" using pq_rep_apart [OF rep, of 0 j] j x by simp
    then show "que_rep l (after pq j) (xs j)" by (rule lq.deq_other [OF q0 d pq_rep_bucket [OF rep j(1)]])
  qed (use x in auto)
  moreover have "all_not_due (last_check_time pq) {1..<10} ?pq (xs(0 := es))"
    using inv by (auto simp: pq_inv_def all_not_due_def)
  ultimately show ?thesis using inv d y by (simp add: pq_dequeue_ready_def pq_inv_def)
qed

lemma pq_remove_rep:
  assumes inv: "pq_inv pq xs" and i: "in_heap (events pq e) < 10" "xs (in_heap (events pq e)) = as @ e # bs"
  shows "pq_inv (pq_remove e pq) (xs(in_heap (events pq e) := as @ bs)) \<and> detached (plinks (pq_remove e pq)) e"
proof -
  let ?i = "in_heap (events pq e)"
  have rep: "pq_rep pq xs" using inv by (simp add: pq_inv_def)
  have q0: "que_rep (plinks pq) (after pq ?i) (as @ e # bs)" using pq_rep_bucket [OF rep i(1)] i(2) by simp
  obtain l q where r: "que_remove (plinks pq) (after pq ?i) e = (l, q)" "que_rep l q (as @ bs)" "detached l e"
    using que_remove_rep [OF q0] by blast
  let ?pq = "upd_event e (\<lambda>ev. ev\<lparr>in_the_priority_queue := False\<rparr>) pq"
  have eq: "pq_remove e pq = ?pq\<lparr>plinks := l, after := (after ?pq)(?i := q)\<rparr>"
    using r(1) by (simp add: pq_remove_def Let_def)
  have "que_rep l (after pq j) (xs j)" if "j < 10" "j \<noteq> ?i" for j
  proof (rule agree_off_que_rep [OF que_remove_frame [OF q0 r(1)] _ pq_rep_bucket [OF rep that(1)]])
    show "set (as @ e # bs) \<inter> set (xs j) = {}"
      using pq_rep_apart [OF rep i(1) that(1)] that(2) i(2) by simp
  qed
  then have "pq_rep (pq_remove e pq) (xs(?i := as @ bs))"
    unfolding eq using rep r(2) i by (intro pq_rep_replace) auto
  moreover have "all_not_due (last_check_time pq) {1..<10} (pq_remove e pq) (xs(?i := as @ bs))"
    using inv i(2) by (auto simp: pq_inv_def all_not_due_def eq)
  ultimately show ?thesis using inv r(3) by (simp add: pq_inv_def eq)
qed

section \<open>Properties\<close>

definition sample_event :: event where
  "sample_event = \<lparr>timeout_at = 20000000, cancelled = False, in_heap = 0,
     in_the_priority_queue = False, freed = False\<rparr>"

definition sample_pq :: pqueue where
  "sample_pq = pq_init \<lparr>nxt = (\<lambda>_. 0), prv = (\<lambda>_. 0)\<rparr> (\<lambda>_. sample_event) 0"

lemma sample_pq_inv: "pq_inv sample_pq (\<lambda>_. [])"
  by (simp add: sample_pq_def pq_init_def pq_inv_def pq_rep_def buckets_apart_def all_not_due_def
      que_rep_clear c_div_def)

lemma sample_pq_simps [simp]:
  "last_check_time sample_pq = 0" "events sample_pq = (\<lambda>_. sample_event)"
  "detached (plinks sample_pq) (Suc n)" "timeout_at sample_event = 20000000"
  by (simp_all add: sample_pq_def pq_init_def detached_def sample_event_def)

lemma sample_pq1_inv: "pq_inv (pq_enqueue 1 0 sample_pq) ((\<lambda>_. [])(2 := [1]))"
  using pq_enqueue_at [OF sample_pq_inv, of 1 0]
  by (simp add: queued_def pq_index_def PQ_BUCKET_TIME_def)

lemma pq_enqueue_frame [simp]:
  "last_check_time (pq_enqueue e now pq) = last_check_time pq"
  "timeout_at (events (pq_enqueue e now pq) x) = timeout_at (events pq x)"
  by (simp_all add: pq_enqueue_def Let_def)

text \<open>
  C6. No event is late: when \<open>check_ready\<close> runs at least every 256 ticks (1.28 seconds), it
  returns, keeps the invariant of the buckets, loses no event that is not cancelled, and every
  event that is due at \<open>now\<close> is in bucket 0, from which \<open>dequeue_ready\<close> takes events.
\<close>

theorem check_ready_timely:
  assumes inv: "pq_inv pq xs" and now: "last_check_time pq \<le> now"
    and near: "now div PQ_BUCKET_TIME 0 - last_check_time pq div PQ_BUCKET_TIME 0 \<le> 256"
  shows "\<exists>pq' xs'. check_ready now pq = Some pq' \<and> pq_inv pq' xs' \<and> last_check_time pq' = now \<and>
    queued xs' \<subseteq> queued xs \<and> (\<forall>e \<in> queued xs. \<not> cancelled (events pq e) \<longrightarrow> e \<in> queued xs') \<and>
    (\<forall>e \<in> queued xs'. timeout_at (events pq' e) \<le> now \<longrightarrow> e \<in> set (xs' 0))"
proof -
  let ?k = "bit_length (todo_buckets now pq)"
  let ?pq = "pq\<lparr>last_check_time := now, last_check_buckets := word_of_int (c_div now (PQ_BUCKET_TIME 0))\<rparr>"
  have pos: "0 \<le> now" using inv now by (simp add: pq_inv_def)
  have k: "1 + ?k \<le> 10" using bit_length_mask todo_buckets_eq [OF pos, of pq] by simp
  have rep: "pq_rep ?pq xs" using inv by (simp add: pq_inv_def pq_rep_def)
  have anb: "all_not_due now ({1..<1} \<union> {1 + ?k..<10}) ?pq xs"
    using inv unscanned_not_due [OF inv now near] by (auto simp: all_not_due_def pq_inv_def)
  obtain pq' xs' where r: "check_buckets_from now 1 ?k ?pq = Some pq'" "pq_rep pq' xs'"
    "all_not_due now {1..<10} pq' xs'" "last_check_time pq' = now"
    "last_check_buckets pq' = word_of_int (c_div now (PQ_BUCKET_TIME 0))"
    "\<forall>e. timeout_at (events pq' e) = timeout_at (events pq e)"
    "queued xs' \<subseteq> queued xs" "\<forall>e \<in> queued xs. \<not> cancelled (events pq e) \<longrightarrow> e \<in> queued xs'"
    using check_buckets_from_rep [OF rep _ k anb] by auto
  have "pq_inv pq' xs'" using r(2-5) pos by (simp add: pq_inv_def c_div_nonneg)
  moreover have "e \<in> set (xs' 0)" if e: "e \<in> queued xs'" "timeout_at (events pq' e) \<le> now" for e
  proof -
    obtain j where j: "j < 10" "e \<in> set (xs' j)" using e(1) by (auto simp: queued_def)
    then have "j = 0"
      using r(3) not_due_later [of now j "timeout_at (events pq' e)"] e(2)
      by (cases "j = 0") (auto simp: all_not_due_def)
    then show ?thesis using j(2) by simp
  qed
  moreover have "check_ready now pq = Some pq'" using r(1) by (simp add: check_ready_def)
  ultimately show ?thesis using r(4,7,8) by blast
qed

theorem check_ready_timely_witness:
  "\<exists>pq' xs'. check_ready 25000000 (pq_enqueue 1 0 sample_pq) = Some pq' \<and> pq_inv pq' xs' \<and>
    last_check_time pq' = 25000000 \<and> queued xs' \<subseteq> queued ((\<lambda>_. [])(2 := [1])) \<and>
    (\<forall>e \<in> queued ((\<lambda>_. [])(2 := [1])).
       \<not> cancelled (events (pq_enqueue 1 0 sample_pq) e) \<longrightarrow> e \<in> queued xs') \<and>
    (\<forall>e \<in> queued xs'. timeout_at (events pq' e) \<le> 25000000 \<longrightarrow> e \<in> set (xs' 0))"
  by (rule check_ready_timely [OF sample_pq1_inv]) (simp_all add: PQ_BUCKET_TIME_def)

text \<open>
  Enqueueing an event keeps the invariant of the buckets and appends the event to the bucket
  its \<open>in_heap\<close> names, the last one or one whose width covers the time that is left.
\<close>

theorem pq_enqueue_inv:
  assumes inv: "pq_inv pq xs" and e: "detached (plinks pq) e" "e \<notin> queued xs"
    and now: "last_check_time pq \<le> now"
  shows "\<exists>i < 10. pq_inv (pq_enqueue e now pq) (xs(i := xs i @ [e])) \<and>
    in_heap (events (pq_enqueue e now pq) e) = i \<and>
    (i < 9 \<longrightarrow> timeout_at (events pq e) - now \<le> PQ_BUCKET_TIME i)"
  using pq_enqueue_at [OF inv e now] pq_index_bound [of "timeout_at (events pq e) - now"] by metis

theorem pq_enqueue_inv_witness:
  "\<exists>i < 10. pq_inv (pq_enqueue 1 0 sample_pq) ((\<lambda>_. [])(i := (\<lambda>_. []) i @ [1])) \<and>
    in_heap (events (pq_enqueue 1 0 sample_pq) 1) = i \<and>
    (i < 9 \<longrightarrow> timeout_at (events sample_pq 1) - 0 \<le> PQ_BUCKET_TIME i)"
  by (rule pq_enqueue_inv [OF sample_pq_inv]) (simp_all add: queued_def)

text \<open>
  When a whole number of 512 ticks (2.56 seconds each) lies between two checks,
  \<open>check_ready\<close> looks at no bucket at all, however late the events in them are.
\<close>

theorem check_ready_misses_512_ticks:
  assumes inv: "pq_inv pq xs" and now: "now = last_check_time pq + n * (512 * PQ_BUCKET_TIME 0)" "0 \<le> n"
  shows "check_ready now pq = Some (pq\<lparr>last_check_time := now,
    last_check_buckets := word_of_int (now div PQ_BUCKET_TIME 0)\<rparr>)"
proof -
  let ?l = "last_check_time pq div PQ_BUCKET_TIME 0"
  have l: "0 \<le> last_check_time pq" "last_check_buckets pq = word_of_int ?l" using inv by (simp_all add: pq_inv_def)
  have pos: "0 \<le> now" using l(1) now by (simp add: PQ_BUCKET_TIME_def)
  have c: "now div PQ_BUCKET_TIME 0 = ?l + n * 512"
  proof -
    have "now = last_check_time pq + (n * 512) * PQ_BUCKET_TIME 0" using now by simp
    then show ?thesis by (simp add: PQ_BUCKET_TIME_def)
  qed
  have "take_bit 9 (word_of_int (?l + n * 512) :: u32) = take_bit 9 (word_of_int ?l)"
  proof (rule bit_word_eqI)
    fix i
    have "take_bit 9 (?l + n * 512) = take_bit 9 ?l" by (simp add: take_bit_eq_mod)
    then have "i < 9 \<Longrightarrow> bit (?l + n * 512) i = bit ?l i" by (metis bit_take_bit_iff)
    then show "bit (take_bit 9 (word_of_int (?l + n * 512) :: u32)) i = bit (take_bit 9 (word_of_int ?l :: u32)) i"
      unfolding bit_take_bit_iff bit_word_of_int_iff by auto
  qed
  then have "take_bit 9 (word_of_int (?l + n * 512) XOR word_of_int ?l :: u32) = 0"
    by (simp add: take_bit_xor)
  then have "todo_buckets now pq = 0"
    by (simp only: todo_buckets_eq [OF pos] c l(2) and_511)
  then show ?thesis using pos by (simp add: check_ready_def bit_length.simps c_div_nonneg)
qed

theorem check_ready_misses_512_ticks_witness:
  "timeout_at (events (pq_enqueue 1 0 sample_pq) 1) \<le> 2560000000 \<and>
   check_ready 2560000000 (pq_enqueue 1 0 sample_pq) =
     Some ((pq_enqueue 1 0 sample_pq)\<lparr>last_check_time := 2560000000,
       last_check_buckets := word_of_int (2560000000 div PQ_BUCKET_TIME 0)\<rparr>)"
  using check_ready_misses_512_ticks [OF sample_pq1_inv, of 2560000000 1]
  by (simp add: PQ_BUCKET_TIME_def)

end
