(* ===== verification/AtomicList.thy ===== *)
theory AtomicList
  imports Prelude
begin

text \<open>
  The lock-free lists of lib/ts/ink_queue.cc: \<open>ink_atomiclist_push\<close>, \<open>pop\<close> and \<open>popall\<close>
  and the free list (\<open>ink_freelist_new\<close>, \<open>ink_freelist_free\<close>), any number of threads
  interleaved between their loads, stores and compare-and-swaps. The head is a pointer and a
  version of \<open>'v\<close> bits that is increased by every pop; \<open>pops\<close> counts the pops without
  wrapping and exists in the model only.
\<close>

section \<open>The code, as steps of threads\<close>

text \<open>
  \<open>Chunk\<close>: the thread is inside \<open>ink_freelist_new\<close>, freeing the elements of a new chunk.
\<close>

datatype cont = Return | Chunk "nat list"

datatype mode = ListPop | FreelistNew

text \<open>The program counter of a thread with the locals that are live there.\<close>

datatype 'w tstate =
    Idle
  | PushLoad nat cont
  | PushStore nat nat 'w cont
  | PushCas nat nat 'w cont
  | PopLoad mode
  | PopRead mode nat 'w
  | PopCas mode nat 'w nat
  | PopClear nat
  | PopAllLoad
  | PopAllCas nat 'w

record 'w afl =
  hptr :: nat
  hver :: 'w
  nxp :: "nat \<Rightarrow> nat"
  thr :: "nat \<Rightarrow> 'w tstate"
  own :: "nat \<Rightarrow> nat set"
  pops :: nat

definition afl_init :: "(nat \<Rightarrow> nat set) \<Rightarrow> ('v::len word) afl" where
  "afl_init o0 = \<lparr>hptr = 0, hver = 0, nxp = (\<lambda>_. 0), thr = (\<lambda>_. Idle), own = o0, pops = 0\<rparr>"

abbreviation goto :: "nat \<Rightarrow> 'w tstate \<Rightarrow> 'w afl \<Rightarrow> 'w afl" where
  "goto t pc s \<equiv> s\<lparr>thr := (thr s)(t := pc)\<rparr>"

text \<open>Where a thread goes when a push is done: back to its caller or to the next element.\<close>

fun after_push :: "cont \<Rightarrow> 'w tstate" where
  "after_push Return = Idle"
| "after_push (Chunk []) = PopLoad FreelistNew"
| "after_push (Chunk (a # as)) = PushLoad a (Chunk as)"

text \<open>\<open>ink_atomiclist_pop\<close> clears the link of what it returns, \<open>ink_freelist_new\<close> does not.\<close>

fun after_pop :: "mode \<Rightarrow> nat \<Rightarrow> 'w tstate" where
  "after_pop ListPop i = PopClear i"
| "after_pop FreelistNew i = Idle"

inductive afl_step :: "('v::len word) afl \<Rightarrow> 'v word afl \<Rightarrow> bool" where
  call_push: "thr s t = Idle \<Longrightarrow> i \<in> own s t \<Longrightarrow> afl_step s (goto t (PushLoad i Return) s)"
| call_pop: "thr s t = Idle \<Longrightarrow> afl_step s (goto t (PopLoad m) s)"
| call_popall: "thr s t = Idle \<Longrightarrow> afl_step s (goto t PopAllLoad s)"
| user_write: "thr s t = Idle \<Longrightarrow> i \<in> own s t \<Longrightarrow> afl_step s (s\<lparr>nxp := (nxp s)(i := x)\<rparr>)"
| hand_over: "thr s t = Idle \<Longrightarrow> i \<in> own s t \<Longrightarrow> u \<noteq> t \<Longrightarrow>
    afl_step s (s\<lparr>own := (own s)(t := own s t - {i}, u := insert i (own s u))\<rparr>)"
| push_load: "thr s t = PushLoad i k \<Longrightarrow> afl_step s (goto t (PushStore i (hptr s) (hver s) k) s)"
| push_store: "thr s t = PushStore i h v k \<Longrightarrow>
    afl_step s (goto t (PushCas i h v k) (s\<lparr>nxp := (nxp s)(i := h)\<rparr>))"
| push_cas: "thr s t = PushCas i h v k \<Longrightarrow> hptr s = h \<Longrightarrow> hver s = v \<Longrightarrow>
    afl_step s (goto t (after_push k) (s\<lparr>hptr := i, hver := v, own := (own s)(t := own s t - {i})\<rparr>))"
| push_retry: "thr s t = PushCas i h v k \<Longrightarrow> hptr s \<noteq> h \<or> hver s \<noteq> v \<Longrightarrow>
    afl_step s (goto t (PushLoad i k) s)"
| pop_load: "thr s t = PopLoad m \<Longrightarrow> hptr s \<noteq> 0 \<Longrightarrow>
    afl_step s (goto t (PopRead m (hptr s) (hver s)) s)"
| pop_empty: "thr s t = PopLoad ListPop \<Longrightarrow> hptr s = 0 \<Longrightarrow> afl_step s (goto t Idle s)"
| new_chunk: "thr s t = PopLoad FreelistNew \<Longrightarrow> hptr s = 0 \<Longrightarrow> distinct (a # as) \<Longrightarrow>
    0 \<notin> set (a # as) \<Longrightarrow> (\<forall>u. own s u \<inter> set (a # as) = {}) \<Longrightarrow>
    (\<forall>xs. chain (nxp s) (hptr s) xs \<longrightarrow> set xs \<inter> set (a # as) = {}) \<Longrightarrow>
    afl_step s (goto t (PushLoad a (Chunk as)) (s\<lparr>own := (own s)(t := own s t \<union> set (a # as))\<rparr>))"
| pop_read: "thr s t = PopRead m i v \<Longrightarrow> afl_step s (goto t (PopCas m i v (nxp s i)) s)"
| pop_cas: "thr s t = PopCas m i v n \<Longrightarrow> hptr s = i \<Longrightarrow> hver s = v \<Longrightarrow>
    afl_step s (goto t (after_pop m i)
      (s\<lparr>hptr := n, hver := v + 1, own := (own s)(t := insert i (own s t)), pops := Suc (pops s)\<rparr>))"
| pop_retry: "thr s t = PopCas m i v n \<Longrightarrow> hptr s \<noteq> i \<or> hver s \<noteq> v \<Longrightarrow>
    afl_step s (goto t (PopLoad m) s)"
| pop_clear: "thr s t = PopClear i \<Longrightarrow> afl_step s (goto t Idle (s\<lparr>nxp := (nxp s)(i := 0)\<rparr>))"
| popall_load: "thr s t = PopAllLoad \<Longrightarrow> hptr s \<noteq> 0 \<Longrightarrow>
    afl_step s (goto t (PopAllCas (hptr s) (hver s)) s)"
| popall_empty: "thr s t = PopAllLoad \<Longrightarrow> hptr s = 0 \<Longrightarrow> afl_step s (goto t Idle s)"
| popall_cas: "thr s t = PopAllCas i v \<Longrightarrow> hptr s = i \<Longrightarrow> hver s = v \<Longrightarrow>
    chain (nxp s) (hptr s) xs \<Longrightarrow>
    afl_step s (goto t Idle
      (s\<lparr>hptr := 0, hver := v + 1, own := (own s)(t := own s t \<union> set xs), pops := Suc (pops s)\<rparr>))"
| popall_retry: "thr s t = PopAllCas i v \<Longrightarrow> hptr s \<noteq> i \<or> hver s \<noteq> v \<Longrightarrow>
    afl_step s (goto t PopAllLoad s)"

section \<open>The invariant\<close>

fun cont_nodes :: "cont \<Rightarrow> nat list" where
  "cont_nodes Return = []"
| "cont_nodes (Chunk as) = as"

text \<open>What a thread knows while it is inside an operation, \<open>xs\<close> the list at this moment.\<close>

fun thread_ok :: "('v::len word) afl \<Rightarrow> nat list \<Rightarrow> nat set \<Rightarrow> 'v word tstate \<Rightarrow> bool" where
  "thread_ok s xs mine Idle = True"
| "thread_ok s xs mine (PushLoad i k) = (set (i # cont_nodes k) \<subseteq> mine \<and> distinct (i # cont_nodes k))"
| "thread_ok s xs mine (PushStore i h v k) = (set (i # cont_nodes k) \<subseteq> mine \<and> distinct (i # cont_nodes k))"
| "thread_ok s xs mine (PushCas i h v k) =
     (set (i # cont_nodes k) \<subseteq> mine \<and> distinct (i # cont_nodes k) \<and> nxp s i = h)"
| "thread_ok s xs mine (PopLoad m) = True"
| "thread_ok s xs mine (PopRead m i v) =
     (\<exists>p \<le> pops s. v = of_nat p \<and> (p = pops s \<longrightarrow> i \<in> set xs))"
| "thread_ok s xs mine (PopCas m i v n) =
     (\<exists>p \<le> pops s. v = of_nat p \<and> (p = pops s \<longrightarrow> i \<in> set xs \<and> n = nxp s i))"
| "thread_ok s xs mine (PopClear i) = (i \<in> mine)"
| "thread_ok s xs mine PopAllLoad = True"
| "thread_ok s xs mine (PopAllCas i v) = True"

definition afl_inv :: "('v::len word) afl \<Rightarrow> nat list \<Rightarrow> bool" where
  "afl_inv s xs \<longleftrightarrow> chain (nxp s) (hptr s) xs \<and> hver s = of_nat (pops s) \<and>
     (\<forall>t. thread_ok s xs (own s t) (thr s t)) \<and>
     (\<forall>t. \<forall>i \<in> own s t. i \<noteq> 0 \<and> i \<notin> set xs) \<and>
     (\<forall>t u i. i \<in> own s t \<longrightarrow> i \<in> own s u \<longrightarrow> t = u)"

definition bounded :: "('v::len word) afl \<Rightarrow> bool" where
  "bounded s \<longleftrightarrow> pops s < 2 ^ LENGTH('v)"

lemma pops_unique:
  fixes s :: "('v::len word) afl"
  shows "bounded s \<Longrightarrow> p \<le> pops s \<Longrightarrow> (of_nat p :: 'v word) = of_nat (pops s) \<Longrightarrow> p = pops s"
  by (simp add: bounded_def word_of_nat_eq_iff take_bit_nat_eq_self)

lemma thread_ok_frame:
  assumes "thread_ok s xs mine pc" "pops s' = pops s" "mine \<subseteq> mine'" "set xs \<subseteq> set xs'"
    "\<And>i. i \<in> set xs \<union> mine \<Longrightarrow> nxp s' i = nxp s i"
  shows "thread_ok s' xs' mine' pc"
  using assms by (cases pc; auto; metis)

lemma thread_ok_pop:
  assumes "thread_ok s xs mine pc" "pops s' = Suc (pops s)" "mine \<subseteq> mine'"
    "\<And>i. i \<in> mine \<Longrightarrow> nxp s' i = nxp s i"
  shows "thread_ok s' xs' mine' pc"
  using assms by (cases pc; auto; metis le_SucI not_less_eq_eq order_refl)

lemma thread_ok_thr [simp]: "thread_ok (s\<lparr>thr := f\<rparr>) xs mine pc = thread_ok s xs mine pc"
  by (cases pc) auto

lemma afl_inv_goto: "afl_inv s xs \<Longrightarrow> thread_ok s xs (own s t) pc \<Longrightarrow> afl_inv (goto t pc s) xs"
  by (simp add: afl_inv_def)

lemma afl_inv_chain: "afl_inv s xs \<Longrightarrow> chain (nxp s) (hptr s) xs"
  by (simp add: afl_inv_def)

lemma afl_inv_thread: "afl_inv s xs \<Longrightarrow> thread_ok s xs (own s t) (thr s t)"
  by (simp add: afl_inv_def)

text \<open>A store to a node of its own does not disturb the list or the other threads.\<close>

lemma afl_inv_write:
  assumes inv: "afl_inv s xs" and i: "i \<in> own s t"
    and me: "thread_ok (s\<lparr>nxp := (nxp s)(i := x)\<rparr>) xs (own s t) pc"
  shows "afl_inv (goto t pc (s\<lparr>nxp := (nxp s)(i := x)\<rparr>)) xs"
proof -
  have notin: "i \<notin> set xs" using inv i by (auto simp: afl_inv_def)
  have "thread_ok (s\<lparr>nxp := (nxp s)(i := x)\<rparr>) xs (own s u) (thr s u)" if "u \<noteq> t" for u
  proof (rule thread_ok_frame [OF afl_inv_thread [OF inv]])
    have "i \<notin> own s u" using inv i that by (auto simp: afl_inv_def)
    then show "\<And>j. j \<in> set xs \<union> own s u \<Longrightarrow> nxp (s\<lparr>nxp := (nxp s)(i := x)\<rparr>) j = nxp s j"
      using notin by auto
  qed auto
  then show ?thesis using inv me notin by (auto simp: afl_inv_def)
qed

inductive stack_step :: "nat list \<Rightarrow> nat list \<Rightarrow> bool" where
  "stack_step xs xs"
| "stack_step xs (i # xs)"
| "stack_step (i # xs) xs"
| "stack_step xs []"

lemma push_cas_inv:
  assumes inv: "afl_inv s xs" and t: "thr s t = PushCas i h v k" and h: "hptr s = h" "hver s = v"
  shows "afl_inv (goto t (after_push k) (s\<lparr>hptr := i, hver := v, own := (own s)(t := own s t - {i})\<rparr>)) (i # xs)"
    (is "afl_inv ?s' _")
proof -
  have me: "set (i # cont_nodes k) \<subseteq> own s t" "distinct (i # cont_nodes k)" "nxp s i = h"
    using afl_inv_thread [OF inv, of t] t by auto
  then have i: "i \<notin> set xs" "i \<noteq> 0" "\<And>u. u \<noteq> t \<Longrightarrow> i \<notin> own s u" using inv by (auto simp: afl_inv_def)
  have "thread_ok ?s' (i # xs) (own s u) (thr s u)" if "u \<noteq> t" for u
    by (rule thread_ok_frame [OF afl_inv_thread [OF inv]]) auto
  moreover have "thread_ok ?s' (i # xs) (own s t - {i}) (after_push k)"
    using me by (cases k rule: after_push.cases) auto
  ultimately show ?thesis using inv i me h by (auto simp: afl_inv_def)
qed

lemma pop_cas_inv:
  assumes inv: "afl_inv s xs" and b: "bounded s"
    and t: "thr s t = PopCas m i v n" and h: "hptr s = i" "hver s = v"
  shows "\<exists>ys. xs = i # ys \<and> afl_inv (goto t (after_pop m i)
      (s\<lparr>hptr := n, hver := v + 1, own := (own s)(t := insert i (own s t)), pops := Suc (pops s)\<rparr>)) ys"
proof -
  obtain p where p: "p \<le> pops s" "v = of_nat p" "p = pops s \<longrightarrow> i \<in> set xs \<and> n = nxp s i"
    using afl_inv_thread [OF inv, of t] t by auto
  have "p = pops s" using pops_unique [OF b p(1)] p(2) h(2) inv by (simp add: afl_inv_def)
  with p have i: "i \<in> set xs" "n = nxp s i" by auto
  have ch: "chain (nxp s) i xs" using inv h(1) by (simp add: afl_inv_def)
  then obtain ys where ys: "xs = i # ys" "chain (nxp s) n ys"
    using i by (cases xs) auto
  let ?s' = "goto t (after_pop m i)
      (s\<lparr>hptr := n, hver := v + 1, own := (own s)(t := insert i (own s t)), pops := Suc (pops s)\<rparr>)"
  have "i \<notin> set ys" "i \<noteq> 0" using chain_distinct [OF ch] chain_nonzero [OF ch] ys(1) by auto
  moreover have "thread_ok ?s' ys (own s u) (thr s u)" for u
    by (rule thread_ok_pop [OF afl_inv_thread [OF inv]]) auto
  moreover have "thread_ok ?s' ys (insert i (own s t)) (after_pop m i)" by (cases m) auto
  ultimately have "afl_inv ?s' ys" using inv ys h by (auto simp: afl_inv_def)
  then show ?thesis using ys(1) by blast
qed

lemma popall_cas_inv:
  assumes inv: "afl_inv s xs" and t: "thr s t = PopAllCas i v" and h: "hver s = v"
  shows "afl_inv (goto t Idle
      (s\<lparr>hptr := 0, hver := v + 1, own := (own s)(t := own s t \<union> set xs), pops := Suc (pops s)\<rparr>)) []"
proof -
  let ?s' = "goto t Idle
      (s\<lparr>hptr := 0, hver := v + 1, own := (own s)(t := own s t \<union> set xs), pops := Suc (pops s)\<rparr>)"
  have "thread_ok ?s' [] (own s u) (thr s u)" for u
    by (rule thread_ok_pop [OF afl_inv_thread [OF inv]]) auto
  moreover have "\<forall>x \<in> set xs. 0 < x"
    using inv chain_nonzero [of "nxp s" "hptr s" xs] by (metis afl_inv_def gr0I)
  ultimately show ?thesis using inv h by (auto simp: afl_inv_def)
qed

lemma new_chunk_inv:
  assumes inv: "afl_inv s xs" and a: "distinct (a # as)" "0 \<notin> set (a # as)" "\<forall>u. own s u \<inter> set (a # as) = {}"
    "set xs \<inter> set (a # as) = {}"
  shows "afl_inv (goto t (PushLoad a (Chunk as)) (s\<lparr>own := (own s)(t := own s t \<union> set (a # as))\<rparr>)) xs"
proof -
  let ?s' = "goto t (PushLoad a (Chunk as)) (s\<lparr>own := (own s)(t := own s t \<union> set (a # as))\<rparr>)"
  have "thread_ok ?s' xs (own s u) (thr s u)" for u
    by (rule thread_ok_frame [OF afl_inv_thread [OF inv]]) auto
  then show ?thesis using inv a by (auto simp: afl_inv_def)
qed

lemma hand_over_inv:
  assumes inv: "afl_inv s xs" and "thr s t = Idle" "i \<in> own s t" "u \<noteq> t"
  shows "afl_inv (s\<lparr>own := (own s)(t := own s t - {i}, u := insert i (own s u))\<rparr>) xs"
proof -
  let ?s' = "s\<lparr>own := (own s)(t := own s t - {i}, u := insert i (own s u))\<rparr>"
  have "thread_ok ?s' xs (own ?s' w) (thr s w)" if "w \<noteq> t" for w
    by (rule thread_ok_frame [OF afl_inv_thread [OF inv]]) (use that in auto)
  moreover have "thread_ok ?s' xs (own ?s' t) (thr s t)" using assms(2) by simp
  ultimately have "thread_ok ?s' xs (own ?s' w) (thr s w)" for w by metis
  then show ?thesis using inv assms(3,4) by (auto simp: afl_inv_def)
qed

lemma goto_step:
  "s' = goto t pc s \<Longrightarrow> afl_inv s xs \<Longrightarrow> thread_ok s xs (own s t) pc \<Longrightarrow>
   \<exists>xs'. stack_step xs xs' \<and> afl_inv s' xs'"
  using afl_inv_goto stack_step.intros(1) by blast

lemma afl_step_inv:
  assumes "afl_step s s'" "afl_inv s xs" "bounded s'"
  shows "\<exists>xs'. stack_step xs xs' \<and> afl_inv s' xs'"
  using assms
proof (cases rule: afl_step.cases)
  case (user_write t i x)
  then show ?thesis
    using afl_inv_write [OF assms(2), of i t x Idle] stack_step.intros(1)
    by (fastforce simp: fun_upd_idem)
next
  case (hand_over t i u)
  then show ?thesis using hand_over_inv [OF assms(2)] stack_step.intros(1) by blast
next
  case (push_store t i h v k)
  have "afl_inv s' xs" unfolding push_store(1)
    using afl_inv_thread [OF assms(2), of t] push_store by (intro afl_inv_write [OF assms(2)]) auto
  then show ?thesis using stack_step.intros(1) by blast
next
  case (push_cas t i h v k)
  then show ?thesis using push_cas_inv [OF assms(2)] stack_step.intros(2) by blast
next
  case (pop_cas t m i v n)
  have "bounded s" using assms(3) unfolding pop_cas(1) by (simp add: bounded_def)
  then show ?thesis using pop_cas_inv [OF assms(2)] pop_cas stack_step.intros(3) by metis
next
  case (popall_cas t i v ys)
  have "ys = xs" using chain_unique popall_cas(5) assms(2) by (auto simp: afl_inv_def)
  then show ?thesis using popall_cas_inv [OF assms(2) popall_cas(2,4)] popall_cas(1) stack_step.intros(4) by blast
next
  case (new_chunk t a as)
  have "afl_inv s' xs" unfolding new_chunk(1)
    using new_chunk assms(2) by (intro new_chunk_inv) (auto simp: afl_inv_def)
  then show ?thesis using stack_step.intros(1) by blast
next
  case (pop_clear t i)
  have "afl_inv s' xs" unfolding pop_clear(1)
    using afl_inv_thread [OF assms(2), of t] pop_clear by (intro afl_inv_write [OF assms(2)]) auto
  then show ?thesis using stack_step.intros(1) by blast
next
  case (pop_load t m)
  have "hptr s \<in> set xs" using assms(2) pop_load(3) by (cases xs) (auto simp: afl_inv_def)
  then have "afl_inv s' xs" unfolding pop_load(1)
    using assms(2) by (intro afl_inv_goto) (auto simp: afl_inv_def)
  then show ?thesis using stack_step.intros(1) by blast
next
  case (call_push t i)
  then show ?thesis
    using afl_inv_thread [OF assms(2), of t] by (intro goto_step [OF call_push(1) assms(2)]) auto
next
  case (call_pop t m)
  then show ?thesis
    using afl_inv_thread [OF assms(2), of t] by (intro goto_step [OF call_pop(1) assms(2)]) auto
next
  case (call_popall t)
  then show ?thesis
    using afl_inv_thread [OF assms(2), of t] by (intro goto_step [OF call_popall(1) assms(2)]) auto
next
  case (push_load t i k)
  then show ?thesis
    using afl_inv_thread [OF assms(2), of t] by (intro goto_step [OF push_load(1) assms(2)]) auto
next
  case (push_retry t i h v k)
  then show ?thesis
    using afl_inv_thread [OF assms(2), of t] by (intro goto_step [OF push_retry(1) assms(2)]) auto
next
  case (pop_empty t)
  then show ?thesis
    using afl_inv_thread [OF assms(2), of t] by (intro goto_step [OF pop_empty(1) assms(2)]) auto
next
  case (pop_read t m i v)
  then show ?thesis
    using afl_inv_thread [OF assms(2), of t] by (intro goto_step [OF pop_read(1) assms(2)]) auto
next
  case (pop_retry t m i v n)
  then show ?thesis
    using afl_inv_thread [OF assms(2), of t] by (intro goto_step [OF pop_retry(1) assms(2)]) auto
next
  case (popall_load t)
  then show ?thesis
    using afl_inv_thread [OF assms(2), of t] by (intro goto_step [OF popall_load(1) assms(2)]) auto
next
  case (popall_empty t)
  then show ?thesis
    using afl_inv_thread [OF assms(2), of t] by (intro goto_step [OF popall_empty(1) assms(2)]) auto
next
  case (popall_retry t i v)
  then show ?thesis
    using afl_inv_thread [OF assms(2), of t] by (intro goto_step [OF popall_retry(1) assms(2)]) auto
qed

section \<open>Runs\<close>

inductive afl_reach :: "(nat \<Rightarrow> nat set) \<Rightarrow> ('v::len word) afl \<Rightarrow> bool" for o0 where
  start: "afl_reach o0 (afl_init o0)"
| step: "afl_reach o0 s \<Longrightarrow> afl_step s s' \<Longrightarrow> afl_reach o0 s'"

definition owners_ok :: "(nat \<Rightarrow> nat set) \<Rightarrow> bool" where
  "owners_ok o0 \<longleftrightarrow> (\<forall>t. 0 \<notin> o0 t) \<and> (\<forall>t u i. i \<in> o0 t \<longrightarrow> i \<in> o0 u \<longrightarrow> t = u)"

lemma afl_step_pops: "afl_step s s' \<Longrightarrow> pops s \<le> pops s'"
  by (cases rule: afl_step.cases) auto

lemma afl_step_bounded: "afl_step s s' \<Longrightarrow> bounded s' \<Longrightarrow> bounded s"
  using afl_step_pops [of s s'] by (simp add: bounded_def)

lemma afl_init_inv: "owners_ok o0 \<Longrightarrow> afl_inv (afl_init o0) []"
  by (auto simp: afl_init_def afl_inv_def owners_ok_def intro: gr0I)

lemma afl_reach_inv: "afl_reach o0 s \<Longrightarrow> owners_ok o0 \<Longrightarrow> bounded s \<Longrightarrow> \<exists>xs. afl_inv s xs"
proof (induction rule: afl_reach.induct)
  case start
  then show ?case using afl_init_inv by blast
next
  case (step s s')
  then show ?case using afl_step_inv afl_step_bounded by blast
qed

text \<open>A run for the witnesses: thread 0 pushes node 1 and is about to pop it again.\<close>

definition sample_owners :: "nat \<Rightarrow> nat set" where
  "sample_owners = (\<lambda>_. {})(0 := {1})"

definition sample_afl :: "16 word afl" where
  "sample_afl = \<lparr>hptr = 1, hver = 0, nxp = (\<lambda>_. 0), thr = (\<lambda>_. Idle)(0 := PopCas ListPop 1 0 0),
     own = (\<lambda>_. {}), pops = 0\<rparr>"

lemma sample_owners_ok: "owners_ok sample_owners"
  by (simp add: owners_ok_def sample_owners_def)

lemma sample_afl_reach: "afl_reach sample_owners sample_afl"
proof -
  note next_step = afl_reach.step [of sample_owners]
  let ?s0 = "afl_init sample_owners :: 16 word afl"
  have "afl_reach sample_owners (goto 0 (PushLoad 1 Return) ?s0)"
    by (rule next_step [OF afl_reach.start afl_step.call_push]) (simp_all add: afl_init_def sample_owners_def)
  from next_step [OF this afl_step.push_load [of _ 0]]
  have "afl_reach sample_owners (goto 0 (PushStore 1 0 0 Return) ?s0)" by (simp add: afl_init_def)
  from next_step [OF this afl_step.push_store [of _ 0]]
  have "afl_reach sample_owners (goto 0 (PushCas 1 0 0 Return) ?s0)"
    by (simp add: afl_init_def fun_upd_idem)
  from next_step [OF this afl_step.push_cas [of _ 0 1 0 0 Return]]
  have "afl_reach sample_owners (?s0\<lparr>hptr := 1, own := \<lambda>_. {}\<rparr>)"
    by (simp add: afl_init_def sample_owners_def fun_upd_idem)
  from next_step [OF this afl_step.call_pop [of _ 0 ListPop]]
  have "afl_reach sample_owners (goto 0 (PopLoad ListPop) (?s0\<lparr>hptr := 1, own := \<lambda>_. {}\<rparr>))"
    by (simp add: afl_init_def)
  from next_step [OF this afl_step.pop_load [of _ 0]]
  have "afl_reach sample_owners (goto 0 (PopRead ListPop 1 0) (?s0\<lparr>hptr := 1, own := \<lambda>_. {}\<rparr>))"
    by (simp add: afl_init_def)
  from next_step [OF this afl_step.pop_read [of _ 0]]
  show ?thesis by (simp add: afl_init_def sample_afl_def)
qed

section \<open>Properties\<close>

text \<open>
  C5. Exclusive ownership: in every reachable state with fewer pops than the version can count,
  no node belongs to two threads, and no node that belongs to a thread is on the list, which is
  a finite chain from its head. So no interleaving hands one node to two callers.
\<close>

theorem afl_exclusive:
  assumes "afl_reach o0 (s :: ('v::len word) afl)" "owners_ok o0" "pops s < 2 ^ LENGTH('v)"
  shows "\<exists>xs. chain (nxp s) (hptr s) xs \<and> distinct xs \<and> (\<forall>t. own s t \<inter> set xs = {}) \<and>
    (\<forall>t u. t \<noteq> u \<longrightarrow> own s t \<inter> own s u = {})"
proof -
  obtain xs where inv: "afl_inv s xs" using afl_reach_inv [OF assms(1,2)] assms(3) by (auto simp: bounded_def)
  have "chain (nxp s) (hptr s) xs" by (rule afl_inv_chain [OF inv])
  moreover have "\<forall>t. own s t \<inter> set xs = {}" "\<forall>t u. t \<noteq> u \<longrightarrow> own s t \<inter> own s u = {}"
    using inv by (auto simp: afl_inv_def)
  ultimately show ?thesis using chain_distinct by blast
qed

theorem afl_exclusive_witness:
  "\<exists>xs. chain (nxp sample_afl) (hptr sample_afl) xs \<and> distinct xs \<and>
    (\<forall>t. own sample_afl t \<inter> set xs = {}) \<and>
    (\<forall>t u. t \<noteq> u \<longrightarrow> own sample_afl t \<inter> own sample_afl u = {})"
  by (rule afl_exclusive [OF sample_afl_reach sample_owners_ok]) (simp add: sample_afl_def)

text \<open>
  No ABA: when the compare-and-swap of a pop succeeds, the node that was loaded is the first
  of the list at that moment and the link that was read before is the rest of the list, whatever
  the other threads did in between, and the popped node belonged to nobody.
\<close>

lemma afl_pop_cas_correct:
  assumes "afl_reach o0 (s :: ('v::len word) afl)" "owners_ok o0" "pops s < 2 ^ LENGTH('v)"
    and "thr s t = PopCas m i v n" "hptr s = i" "hver s = v"
  shows "\<exists>ys. chain (nxp s) (hptr s) (i # ys) \<and> chain (nxp s) n ys \<and> (\<forall>u. i \<notin> own s u)"
proof -
  obtain xs where inv: "afl_inv s xs" using afl_reach_inv [OF assms(1,2)] assms(3) by (auto simp: bounded_def)
  then obtain ys where ys: "xs = i # ys" "afl_inv (goto t (after_pop m i)
      (s\<lparr>hptr := n, hver := v + 1, own := (own s)(t := insert i (own s t)), pops := Suc (pops s)\<rparr>)) ys"
    using pop_cas_inv [OF inv _ assms(4,5,6)] assms(3) by (auto simp: bounded_def)
  have "chain (nxp s) n ys" using afl_inv_chain [OF ys(2)] by simp
  then show ?thesis using inv ys(1) by (auto simp: afl_inv_def)
qed

theorem afl_pop_cas_correct_witness:
  "\<exists>ys. chain (nxp sample_afl) (hptr sample_afl) (1 # ys) \<and> chain (nxp sample_afl) 0 ys \<and>
    (\<forall>u. 1 \<notin> own sample_afl u)"
  by (rule afl_pop_cas_correct [OF sample_afl_reach sample_owners_ok, where t = 0 and m = ListPop and v = 0])
    (simp_all add: sample_afl_def)

text \<open>
  C11. Every step of every thread implements one step of a stack: the list stays as it is, gains
  a first element, loses its first element, or is emptied at once.
\<close>

theorem afl_refines_stack:
  assumes "afl_reach o0 (s :: ('v::len word) afl)" "owners_ok o0" "afl_step s s'" "pops s' < 2 ^ LENGTH('v)"
  shows "\<exists>xs xs'. chain (nxp s) (hptr s) xs \<and> chain (nxp s') (hptr s') xs' \<and> stack_step xs xs'"
proof -
  have b: "bounded s'" using assms(4) by (simp add: bounded_def)
  obtain xs where inv: "afl_inv s xs"
    using afl_reach_inv [OF assms(1,2) afl_step_bounded [OF assms(3) b]] by blast
  then obtain xs' where "stack_step xs xs'" "afl_inv s' xs'" using afl_step_inv [OF assms(3) inv b] by blast
  with inv show ?thesis using afl_inv_chain by blast
qed

theorem afl_refines_stack_witness:
  "\<exists>s' xs xs'. afl_step sample_afl s' \<and> chain (nxp sample_afl) (hptr sample_afl) xs \<and>
    chain (nxp s') (hptr s') xs' \<and> stack_step xs xs'"
proof -
  have st: "afl_step sample_afl (goto 0 (after_pop ListPop 1)
      (sample_afl\<lparr>hptr := 0, hver := 0 + 1, own := (own sample_afl)(0 := insert 1 (own sample_afl 0)),
        pops := Suc (pops sample_afl)\<rparr>))" (is "afl_step _ ?s'")
    by (rule afl_step.pop_cas) (simp_all add: sample_afl_def)
  have "\<exists>xs xs'. chain (nxp sample_afl) (hptr sample_afl) xs \<and> chain (nxp ?s') (hptr ?s') xs' \<and> stack_step xs xs'"
    by (rule afl_refines_stack [OF sample_afl_reach sample_owners_ok st]) (simp add: sample_afl_def)
  with st show ?thesis by blast
qed

end
