(* ===== verification/CacheDir.thy ===== *)
theory CacheDir
  imports Prelude
begin

text \<open>
  The cache directory of iocore/cache (P_CacheDir.h, CacheDir.cc): segments of buckets of
  five-word entries, a chain of entries per bucket and a doubly linked free list per segment,
  all linked by 16-bit offsets in the entries. An entry is addressed by its segment and its
  offset in the segment; the offset 0 is the NULL link, and the entry at offset 0 is the first
  one of bucket 0, which no link ever names.
\<close>

section \<open>Entries\<close>

record dir =
  w0 :: u16
  w1 :: u16
  w2 :: u16
  w3 :: u16
  w4 :: u16

definition dir_clear :: dir where
  "dir_clear = \<lparr>w0 = 0, w1 = 0, w2 = 0, w3 = 0, w4 = 0\<rparr>"

definition DIR_TAG_WIDTH :: nat where "DIR_TAG_WIDTH = 12"
definition DIR_DEPTH :: nat where "DIR_DEPTH = 4"
definition DIR_SIZE_WIDTH :: nat where "DIR_SIZE_WIDTH = 6"
definition CACHE_BLOCK_SIZE :: int where "CACHE_BLOCK_SIZE = 512"
definition AGG_SIZE :: int where "AGG_SIZE = 4 * 1024 * 1024"

definition DIR_MASK_TAG :: "u32 \<Rightarrow> u32" where
  "DIR_MASK_TAG t = t AND (push_bit DIR_TAG_WIDTH 1 - 1)"

definition dir_offset :: "dir \<Rightarrow> int" where
  "dir_offset e = uint ((ucast (w0 e) :: u64) OR push_bit 16 (ucast (w1 e) AND 0xFF) OR
     push_bit 24 (ucast (w4 e)))"

definition dir_set_offset :: "int \<Rightarrow> dir \<Rightarrow> dir" where
  "dir_set_offset off e =
     (let ow = (word_of_int off :: u64)
      in e\<lparr>w0 := ucast ow,
           w1 := ucast ((drop_bit 16 ow AND 0xFF) OR (ucast (w1 e) AND 0xFF00)),
           w4 := ucast (drop_bit 24 ow)\<rparr>)"

definition dir_bit :: "u16 \<Rightarrow> nat \<Rightarrow> u32" where
  "dir_bit w b = ucast (drop_bit b w AND 1)"

definition dir_set_bit :: "nat \<Rightarrow> bool \<Rightarrow> u16 \<Rightarrow> u16" where
  "dir_set_bit b v w = (w AND NOT (push_bit b 1)) OR push_bit b (if v then 1 else 0)"

definition dir_big :: "dir \<Rightarrow> u32" where
  "dir_big e = ucast (drop_bit 8 (w1 e)) AND 3"

definition dir_set_big :: "u32 \<Rightarrow> dir \<Rightarrow> dir" where
  "dir_set_big v e = e\<lparr>w1 := (w1 e AND 0xFCFF) OR push_bit 8 (ucast v AND 3)\<rparr>"

definition dir_size :: "dir \<Rightarrow> u32" where
  "dir_size e = ucast (drop_bit 10 (w1 e))"

definition dir_set_size :: "u32 \<Rightarrow> dir \<Rightarrow> dir" where
  "dir_set_size v e = e\<lparr>w1 := (w1 e AND (push_bit 10 1 - 1)) OR ucast (push_bit 10 v)\<rparr>"

definition DIR_BLOCK_SIZE :: "nat \<Rightarrow> int" where
  "DIR_BLOCK_SIZE i = CACHE_BLOCK_SIZE * 2 ^ (3 * i)"

definition DIR_SIZE_WITH_BLOCK :: "nat \<Rightarrow> int" where
  "DIR_SIZE_WITH_BLOCK i = 2 ^ DIR_SIZE_WIDTH * DIR_BLOCK_SIZE i"

definition dir_set_approx_size :: "int \<Rightarrow> dir \<Rightarrow> dir" where
  "dir_set_approx_size s e =
     (if s \<le> DIR_SIZE_WITH_BLOCK 0
      then dir_set_size (word_of_int (c_div (s - 1) (DIR_BLOCK_SIZE 0))) (dir_set_big 0 e)
      else if s \<le> DIR_SIZE_WITH_BLOCK 1
      then dir_set_size (word_of_int (c_div (s - 1) (DIR_BLOCK_SIZE 1))) (dir_set_big 1 e)
      else if s \<le> DIR_SIZE_WITH_BLOCK 2
      then dir_set_size (word_of_int (c_div (s - 1) (DIR_BLOCK_SIZE 2))) (dir_set_big 2 e)
      else dir_set_size (word_of_int (c_div (s - 1) (DIR_BLOCK_SIZE 3))) (dir_set_big 3 e))"

definition dir_approx_size :: "dir \<Rightarrow> int" where
  "dir_approx_size e = (uint (dir_size e) + 1) * DIR_BLOCK_SIZE (unat (dir_big e))"

definition dir_tag :: "dir \<Rightarrow> u32" where
  "dir_tag e = ucast (w2 e AND (push_bit DIR_TAG_WIDTH 1 - 1))"

definition dir_set_tag :: "u32 \<Rightarrow> dir \<Rightarrow> dir" where
  "dir_set_tag t e =
     e\<lparr>w2 := ucast ((ucast (w2 e) AND NOT (push_bit DIR_TAG_WIDTH 1 - 1)) OR
                   (t AND (push_bit DIR_TAG_WIDTH 1 - 1)))\<rparr>"

definition dir_phase :: "dir \<Rightarrow> u32" where "dir_phase e = dir_bit (w2 e) 12"
definition dir_set_phase :: "bool \<Rightarrow> dir \<Rightarrow> dir" where
  "dir_set_phase v e = e\<lparr>w2 := dir_set_bit 12 v (w2 e)\<rparr>"
definition dir_head :: "dir \<Rightarrow> u32" where "dir_head e = dir_bit (w2 e) 13"
definition dir_set_head :: "bool \<Rightarrow> dir \<Rightarrow> dir" where
  "dir_set_head v e = e\<lparr>w2 := dir_set_bit 13 v (w2 e)\<rparr>"
definition dir_pinned :: "dir \<Rightarrow> u32" where "dir_pinned e = dir_bit (w2 e) 14"
definition dir_set_pinned :: "bool \<Rightarrow> dir \<Rightarrow> dir" where
  "dir_set_pinned v e = e\<lparr>w2 := dir_set_bit 14 v (w2 e)\<rparr>"
definition dir_token :: "dir \<Rightarrow> u32" where "dir_token e = dir_bit (w2 e) 15"
definition dir_set_token :: "bool \<Rightarrow> dir \<Rightarrow> dir" where
  "dir_set_token v e = e\<lparr>w2 := dir_set_bit 15 v (w2 e)\<rparr>"

text \<open>Links are read and written as numbers; a store keeps the low 16 bits.\<close>

definition dir_next :: "dir \<Rightarrow> nat" where "dir_next e = unat (w3 e)"
definition dir_set_next :: "nat \<Rightarrow> dir \<Rightarrow> dir" where "dir_set_next v e = e\<lparr>w3 := of_nat v\<rparr>"
definition dir_prev :: "dir \<Rightarrow> nat" where "dir_prev e = unat (w2 e)"
definition dir_set_prev :: "nat \<Rightarrow> dir \<Rightarrow> dir" where "dir_set_prev v e = e\<lparr>w2 := of_nat v\<rparr>"

definition dir_assign_data :: "dir \<Rightarrow> dir \<Rightarrow> dir" where
  "dir_assign_data e x = (let nx = dir_next e in dir_set_next nx x)"

definition dir_is_empty :: "dir \<Rightarrow> bool" where
  "dir_is_empty e \<longleftrightarrow> dir_offset e = 0"

section \<open>The volume\<close>

datatype cache_key = CacheKey u32 u32 u32 u32

fun key_word :: "cache_key \<Rightarrow> nat \<Rightarrow> u32" where
  "key_word (CacheKey a b c d) i = (if i = 0 then a else if i = 1 then b else if i = 2 then c else d)"

record vol =
  dirs :: "nat \<Rightarrow> nat \<Rightarrow> dir"
  freelist :: "nat \<Rightarrow> u16"
  phase :: u32
  dirty :: bool
  write_pos :: int
  agg_pos :: int
  agg_buf_pos :: int
  vstart :: int
  segments :: nat
  buckets :: nat
  dir_used :: int
  dir_collisions :: int

text \<open>Validity of an entry: P_CacheVol.h and the macros of P_CacheDir.h.\<close>

definition vol_out_of_phase_valid :: "vol \<Rightarrow> dir \<Rightarrow> bool" where
  "vol_out_of_phase_valid d e \<longleftrightarrow> dir_offset e - 1 \<ge> c_div (agg_pos d - vstart d) CACHE_BLOCK_SIZE"

definition vol_out_of_phase_agg_valid :: "vol \<Rightarrow> dir \<Rightarrow> bool" where
  "vol_out_of_phase_agg_valid d e \<longleftrightarrow>
     dir_offset e - 1 \<ge> c_div (agg_pos d - vstart d + AGG_SIZE) CACHE_BLOCK_SIZE"

definition vol_out_of_phase_write_valid :: "vol \<Rightarrow> dir \<Rightarrow> bool" where
  "vol_out_of_phase_write_valid d e \<longleftrightarrow>
     dir_offset e - 1 \<ge> c_div (write_pos d - vstart d) CACHE_BLOCK_SIZE"

definition vol_in_phase_valid :: "vol \<Rightarrow> dir \<Rightarrow> bool" where
  "vol_in_phase_valid d e \<longleftrightarrow>
     dir_offset e - 1 < c_div (write_pos d + agg_buf_pos d - vstart d) CACHE_BLOCK_SIZE"

definition vol_offset :: "vol \<Rightarrow> dir \<Rightarrow> int" where
  "vol_offset d e = vstart d + dir_offset e * CACHE_BLOCK_SIZE - CACHE_BLOCK_SIZE"

definition vol_in_phase_agg_buf_valid :: "vol \<Rightarrow> dir \<Rightarrow> bool" where
  "vol_in_phase_agg_buf_valid d e \<longleftrightarrow>
     vol_offset d e \<ge> write_pos d \<and> vol_offset d e < write_pos d + agg_buf_pos d"

definition dir_valid :: "vol \<Rightarrow> dir \<Rightarrow> bool" where
  "dir_valid d e \<longleftrightarrow>
     (if phase d = dir_phase e then vol_in_phase_valid d e else vol_out_of_phase_valid d e)"

definition dir_agg_valid :: "vol \<Rightarrow> dir \<Rightarrow> bool" where
  "dir_agg_valid d e \<longleftrightarrow>
     (if phase d = dir_phase e then vol_in_phase_valid d e else vol_out_of_phase_agg_valid d e)"

definition dir_write_valid :: "vol \<Rightarrow> dir \<Rightarrow> bool" where
  "dir_write_valid d e \<longleftrightarrow>
     (if phase d = dir_phase e then vol_in_phase_valid d e else vol_out_of_phase_write_valid d e)"

definition dir_agg_buf_valid :: "vol \<Rightarrow> dir \<Rightarrow> bool" where
  "dir_agg_buf_valid d e \<longleftrightarrow> phase d = dir_phase e \<and> vol_in_phase_agg_buf_valid d e"

text \<open>Reading and writing the entry at offset \<open>e\<close> of segment \<open>s\<close>.\<close>

abbreviation ent :: "vol \<Rightarrow> nat \<Rightarrow> nat \<Rightarrow> dir" where
  "ent d s e \<equiv> dirs d s e"

definition upd :: "nat \<Rightarrow> nat \<Rightarrow> (dir \<Rightarrow> dir) \<Rightarrow> vol \<Rightarrow> vol" where
  "upd s e f d = d\<lparr>dirs := (dirs d)(s := (dirs d s)(e := f (dirs d s e)))\<rparr>"

definition set_freelist :: "nat \<Rightarrow> nat \<Rightarrow> vol \<Rightarrow> vol" where
  "set_freelist s v d = d\<lparr>freelist := (freelist d)(s := of_nat v)\<rparr>"

definition freelist_head :: "vol \<Rightarrow> nat \<Rightarrow> nat" where
  "freelist_head d s = unat (freelist d s)"

definition add_used :: "int \<Rightarrow> vol \<Rightarrow> vol" where
  "add_used n d = d\<lparr>dir_used := dir_used d + n\<rparr>"

definition dir_compare_tag :: "dir \<Rightarrow> cache_key \<Rightarrow> bool" where
  "dir_compare_tag e key \<longleftrightarrow> dir_tag e = DIR_MASK_TAG (key_word key 2)"

text \<open>\<open>dir_from_offset\<close> and \<open>dir_to_offset\<close> are the identity on offsets, 0 the NULL pointer.\<close>

definition dir_from_offset :: "nat \<Rightarrow> nat option" where
  "dir_from_offset i = (if i = 0 then None else Some i)"

definition next_dir :: "vol \<Rightarrow> nat \<Rightarrow> nat \<Rightarrow> nat option" where
  "next_dir d s e = dir_from_offset (dir_next (ent d s e))"

definition dir_bucket :: "nat \<Rightarrow> nat" where
  "dir_bucket b = b * DIR_DEPTH"

definition dir_bucket_row :: "nat \<Rightarrow> nat \<Rightarrow> nat" where
  "dir_bucket_row b i = b + i"

section \<open>Free list\<close>

definition dir_free_entry :: "nat \<Rightarrow> nat \<Rightarrow> vol \<Rightarrow> vol" where
  "dir_free_entry e s d =
     (let fo = freelist_head d s;
          d1 = upd s e (dir_set_next fo) d;
          d2 = (if fo \<noteq> 0 then upd s fo (dir_set_prev e) d1 else d1)
      in set_freelist s e d2)"

definition dir_init_segment :: "nat \<Rightarrow> vol \<Rightarrow> vol" where
  "dir_init_segment s d =
     (let d1 = set_freelist s 0 d;
          d2 = d1\<lparr>dirs := (dirs d1)(s := (\<lambda>i. if i < DIR_DEPTH * buckets d then dir_clear else dirs d1 s i))\<rparr>
      in fold (\<lambda>l. fold (\<lambda>b. dir_free_entry (dir_bucket_row (dir_bucket b) l) s) [0..<buckets d])
           [1..<DIR_DEPTH] d2)"

definition unlink_from_freelist :: "nat \<Rightarrow> nat \<Rightarrow> vol \<Rightarrow> vol" where
  "unlink_from_freelist e s d =
     (let d1 = (case dir_from_offset (dir_prev (ent d s e)) of
                  Some p \<Rightarrow> upd s p (dir_set_next (dir_next (ent d s e))) d
                | None \<Rightarrow> set_freelist s (dir_next (ent d s e)) d)
      in case dir_from_offset (dir_next (ent d1 s e)) of
           Some n \<Rightarrow> upd s n (dir_set_prev (dir_prev (ent d1 s e))) d1
         | None \<Rightarrow> d1)"

text \<open>
  \<open>dir_delete_entry\<close>: with a predecessor the entry goes to the free list; the first entry of a
  bucket takes over its successor, which is then deleted as an entry with a predecessor.
\<close>

definition delete_linked :: "nat \<Rightarrow> nat \<Rightarrow> nat \<Rightarrow> vol \<Rightarrow> vol \<times> nat option" where
  "delete_linked e p s d =
     (let no = dir_next (ent d s e);
          d0 = d\<lparr>dirty := True\<rparr>;
          fo = freelist_head d0 s;
          d1 = upd s e (\<lambda>_. dir_clear) d0;
          d2 = upd s p (dir_set_next no) d1;
          d3 = upd s e (dir_set_next fo) d2;
          d4 = (if fo \<noteq> 0 then upd s fo (dir_set_prev e) d3 else d3)
      in (set_freelist s e d4, dir_from_offset no))"

definition dir_delete_entry :: "nat \<Rightarrow> nat option \<Rightarrow> nat \<Rightarrow> vol \<Rightarrow> vol \<times> nat option" where
  "dir_delete_entry e p s d =
     (case p of
        Some q \<Rightarrow> delete_linked e q s d
      | None \<Rightarrow>
          (case next_dir d s e of
             Some n \<Rightarrow> (fst (delete_linked n e s (upd s e (\<lambda>_. ent d s n) (d\<lparr>dirty := True\<rparr>))), Some e)
           | None \<Rightarrow> (upd s e (\<lambda>_. dir_clear) (d\<lparr>dirty := True\<rparr>), None)))"

section \<open>Cleaning\<close>

partial_function (option) clean_chain :: "nat \<Rightarrow> nat option \<Rightarrow> nat \<Rightarrow> vol \<Rightarrow> vol option" where
  "clean_chain e p s d =
     (if \<not> dir_valid d (ent d s e) \<or> dir_offset (ent d s e) = 0
      then (let d1 = (if dir_offset (ent d s e) \<noteq> 0 then add_used (- 1) d else d);
                (d2, e') = dir_delete_entry e p s d1
            in case e' of None \<Rightarrow> Some d2 | Some n \<Rightarrow> clean_chain n p s d2)
      else (case next_dir d s e of None \<Rightarrow> Some d | Some n \<Rightarrow> clean_chain n (Some e) s d))"

definition dir_clean_bucket :: "nat \<Rightarrow> nat \<Rightarrow> vol \<Rightarrow> vol option" where
  "dir_clean_bucket b s d = clean_chain b None s d"

fun clean_buckets :: "nat list \<Rightarrow> nat \<Rightarrow> vol \<Rightarrow> vol option" where
  "clean_buckets [] s d = Some d"
| "clean_buckets (i # is) s d =
     (case dir_clean_bucket (dir_bucket i) s d of None \<Rightarrow> None | Some d' \<Rightarrow> clean_buckets is s d')"

definition dir_clean_segment :: "nat \<Rightarrow> vol \<Rightarrow> vol option" where
  "dir_clean_segment s d = clean_buckets [0..<buckets d] s d"

fun clean_segments :: "nat list \<Rightarrow> vol \<Rightarrow> vol option" where
  "clean_segments [] d = Some d"
| "clean_segments (s # ss) d =
     (case dir_clean_segment s d of None \<Rightarrow> None | Some d' \<Rightarrow> clean_segments ss d')"

definition dir_clean_vol :: "vol \<Rightarrow> vol option" where
  "dir_clean_vol d = clean_segments [0..<segments d] d"

definition clear_entry_in :: "int \<Rightarrow> int \<Rightarrow> nat \<Rightarrow> vol \<Rightarrow> vol" where
  "clear_entry_in start end' i d =
     (let n = buckets d * DIR_DEPTH; s = i div n; e = i mod n
      in if dir_token (ent d s e) = 0 \<and> start \<le> dir_offset (ent d s e) \<and> dir_offset (ent d s e) < end'
         then upd s e (dir_set_offset 0) (add_used (- 1) d) else d)"

definition dir_clear_range :: "int \<Rightarrow> int \<Rightarrow> vol \<Rightarrow> vol option" where
  "dir_clear_range start end' d =
     dir_clean_vol (fold (clear_entry_in start end') [0..<buckets d * DIR_DEPTH * segments d] d)"

text \<open>Every tenth entry with the head bit is purged when cleaning freed nothing.\<close>

definition purge_entry :: "nat \<Rightarrow> nat \<Rightarrow> vol \<times> nat \<Rightarrow> vol \<times> nat" where
  "purge_entry s e dn =
     (let (d, n) = dn
      in if dir_head (ent d s e) \<noteq> 0
         then (if n mod 10 = 0 then upd s e (dir_set_offset 0) (add_used (- 1) d) else d, Suc n)
         else (d, n))"

definition freelist_clean :: "nat \<Rightarrow> vol \<Rightarrow> vol option" where
  "freelist_clean s d =
     (case dir_clean_segment s d of
        None \<Rightarrow> None
      | Some d1 \<Rightarrow>
          if freelist d1 s \<noteq> 0 then Some d1
          else
            let (d2, n) = fold (\<lambda>bi. fold (\<lambda>l. purge_entry s (dir_bucket_row (dir_bucket bi) l)) [0..<DIR_DEPTH])
                            [0..<buckets d1] (d1, 0)
            in dir_clean_segment s d2)"

definition freelist_pop :: "nat \<Rightarrow> vol \<Rightarrow> (vol \<times> nat option) option" where
  "freelist_pop s d =
     (case dir_from_offset (freelist_head d s) of
        None \<Rightarrow> map_option (\<lambda>d'. (d', None)) (freelist_clean s d)
      | Some e \<Rightarrow>
          let d1 = set_freelist s (dir_next (ent d s e)) d
          in if dir_offset (ent d1 s e) \<noteq> 0 then Some (dir_init_segment s d1, None)
             else (case dir_from_offset (freelist_head d1 s) of
                     Some h \<Rightarrow> Some (upd s h (dir_set_prev 0) d1, Some e)
                   | None \<Rightarrow> Some (d1, Some e)))"

section \<open>Loops and lengths\<close>

definition next_opt :: "vol \<Rightarrow> nat \<Rightarrow> nat option \<Rightarrow> nat option" where
  "next_opt d s p = (case p of None \<Rightarrow> None | Some e \<Rightarrow> next_dir d s e)"

text \<open>Two pointers, one twice as fast; \<open>True\<close> is the code's 1 (no loop).\<close>

partial_function (option) loop_check :: "vol \<Rightarrow> nat \<Rightarrow> nat option \<Rightarrow> nat option \<Rightarrow> bool option" where
  "loop_check d s p1 p2 =
     (if p2 = None \<or> next_opt d s p2 = None then Some True
      else if next_opt d s (next_opt d s p2) = next_opt d s p1 then Some False
      else loop_check d s (next_opt d s p1) (next_opt d s (next_opt d s p2)))"

definition dir_bucket_loop_check :: "vol \<Rightarrow> nat \<Rightarrow> nat option \<Rightarrow> bool option" where
  "dir_bucket_loop_check d s start_dir = loop_check d s start_dir start_dir"

definition dir_bucket_loop_fix :: "nat option \<Rightarrow> nat \<Rightarrow> vol \<Rightarrow> (vol \<times> bool) option" where
  "dir_bucket_loop_fix start_dir s d =
     map_option (\<lambda>ok. if ok then (d, False) else (dir_init_segment s d, True))
       (dir_bucket_loop_check d s start_dir)"

partial_function (option) chain_length :: "vol \<Rightarrow> nat \<Rightarrow> nat option \<Rightarrow> nat \<Rightarrow> nat option" where
  "chain_length d s p n =
     (case p of None \<Rightarrow> Some n | Some e \<Rightarrow> chain_length d s (next_dir d s e) (Suc n))"

definition dir_freelist_length :: "nat \<Rightarrow> vol \<Rightarrow> (vol \<times> nat) option" where
  "dir_freelist_length s d =
     (let e = dir_from_offset (freelist_head d s)
      in case dir_bucket_loop_fix e s d of
           None \<Rightarrow> None
         | Some (d', True) \<Rightarrow> Some (d', (DIR_DEPTH - 1) * buckets d')
         | Some (d', False) \<Rightarrow> map_option (\<lambda>n. (d', n)) (chain_length d' s e 0))"

function bucket_length_from :: "vol \<Rightarrow> nat \<Rightarrow> nat option \<Rightarrow> int \<Rightarrow> int" where
  "bucket_length_from d s p i =
     (case p of
        None \<Rightarrow> i
      | Some e \<Rightarrow> if i + 1 > 100 then - 1 else bucket_length_from d s (next_dir d s e) (i + 1))"
  by pat_completeness auto
termination
  by (relation "measure (\<lambda>(d, s, p, i). nat (101 - i))") auto

declare bucket_length_from.simps [simp del]

definition dir_bucket_length :: "nat \<Rightarrow> nat \<Rightarrow> vol \<Rightarrow> int" where
  "dir_bucket_length b s d = bucket_length_from d s (Some b) 0"

fun check_buckets :: "nat list \<Rightarrow> nat \<Rightarrow> vol \<Rightarrow> bool option" where
  "check_buckets [] s d = Some True"
| "check_buckets (i # is) s d =
     (let b = dir_bucket i
      in if \<not> (dir_bucket_length b s d \<ge> 0) then Some False
         else if \<not> (dir_next (ent d s b) = 0 \<or> dir_offset (ent d s b) \<noteq> 0) then Some False
         else case dir_bucket_loop_check d s (Some b) of
                None \<Rightarrow> None
              | Some False \<Rightarrow> Some False
              | Some True \<Rightarrow> check_buckets is s d)"

fun check_segments :: "nat list \<Rightarrow> vol \<Rightarrow> bool option" where
  "check_segments [] d = Some True"
| "check_segments (s # ss) d =
     (case check_buckets [0..<buckets d] s d of
        None \<Rightarrow> None | Some False \<Rightarrow> Some False | Some True \<Rightarrow> check_segments ss d)"

definition check_dir :: "vol \<Rightarrow> bool option" where
  "check_dir d = check_segments [0..<segments d] d"

section \<open>Lookup and update\<close>

definition key_segment :: "cache_key \<Rightarrow> vol \<Rightarrow> nat" where
  "key_segment key d = unat (key_word key 0) mod segments d"

definition key_bucket :: "cache_key \<Rightarrow> vol \<Rightarrow> nat" where
  "key_bucket key d = unat (key_word key 1) mod buckets d"

text \<open>
  The loop of \<open>dir_probe\<close>. It ends with the volume, the locals \<open>p\<close> and \<open>collision\<close>
  and the entry that was found.
\<close>

definition count_collision :: "bool \<Rightarrow> vol \<Rightarrow> vol" where
  "count_collision hit d = (if hit then d\<lparr>dir_collisions := dir_collisions d + 1\<rparr> else d)"

partial_function (option) probe_chain ::
    "cache_key \<Rightarrow> nat \<Rightarrow> nat \<Rightarrow> nat option \<Rightarrow> nat option \<Rightarrow> vol \<Rightarrow>
     (vol \<times> nat option \<times> nat option \<times> nat option) option" where
  "probe_chain key s e p col d =
     (if dir_compare_tag (ent d s e) key \<and> col = None
      then if dir_valid d (ent d s e) then Some (d, p, col, Some e)
           else (case dir_delete_entry e p s (add_used (- 1) d) of (d', e') \<Rightarrow>
                   (case e' of None \<Rightarrow> Some (d', p, col, None) | Some n \<Rightarrow> probe_chain key s n p col d'))
      else if dir_compare_tag (ent d s e) key \<and> col = Some e
      then (case next_dir d s e of
              None \<Rightarrow> Some (count_collision True d, Some e, None, None)
            | Some n \<Rightarrow> probe_chain key s n (Some e) None (count_collision True d))
      else (case next_dir d s e of
              None \<Rightarrow> Some (d, Some e, col, None)
            | Some n \<Rightarrow> probe_chain key s n (Some e) col d))"

text \<open>
  The collision of the caller is the offset of an entry of the key's segment; \<open>p\<close> is kept
  over \<open>goto Lagain\<close>, as in the code.
\<close>

definition probe_pass ::
    "cache_key \<Rightarrow> nat \<Rightarrow> nat \<Rightarrow> nat option \<Rightarrow> nat option \<Rightarrow> vol \<Rightarrow>
     (vol \<times> nat option \<times> nat option \<times> nat option) option" where
  "probe_pass key s b p col d =
     (if dir_offset (ent d s b) \<noteq> 0 then probe_chain key s b p col d else Some (d, p, col, None))"

definition dir_probe :: "cache_key \<Rightarrow> nat option \<Rightarrow> vol \<Rightarrow> (vol \<times> (dir \<times> nat) option) option" where
  "dir_probe key last_collision d =
     (let s = key_segment key d; b = dir_bucket (key_bucket key d)
      in case probe_pass key s b None last_collision d of
           None \<Rightarrow> None
         | Some (d1, p1, col1, Some e) \<Rightarrow> Some (d1, Some (ent d1 s e, e))
         | Some (d1, p1, None, None) \<Rightarrow> Some (d1, None)
         | Some (d1, p1, Some c, None) \<Rightarrow>
             (case probe_pass key s b p1 None (count_collision True d1) of
                None \<Rightarrow> None
              | Some (d2, p2, col2, Some e) \<Rightarrow> Some (d2, Some (ent d2 s e, e))
              | Some (d2, p2, col2, None) \<Rightarrow> Some (d2, None)))"

definition find_empty_row :: "nat \<Rightarrow> nat \<Rightarrow> vol \<Rightarrow> nat option" where
  "find_empty_row s b d = find (\<lambda>e. dir_is_empty (ent d s e)) (map (dir_bucket_row b) [1..<DIR_DEPTH])"

text \<open>Labels \<open>Llink\<close> and \<open>Lfill\<close>.\<close>

definition dir_link :: "nat \<Rightarrow> nat \<Rightarrow> nat \<Rightarrow> vol \<Rightarrow> vol" where
  "dir_link e b s d = (let d1 = upd s e (dir_set_next (dir_next (ent d s b))) d in upd s b (dir_set_next e) d1)"

definition dir_fill :: "nat \<Rightarrow> u32 \<Rightarrow> dir \<Rightarrow> nat \<Rightarrow> vol \<Rightarrow> vol" where
  "dir_fill e t to_part s d = upd s e (\<lambda>x. dir_set_tag t (dir_assign_data x to_part)) d"

partial_function (option) insert_loop :: "cache_key \<Rightarrow> nat \<Rightarrow> nat \<Rightarrow> dir \<Rightarrow> vol \<Rightarrow> vol option" where
  "insert_loop key s b to_part d =
     (if dir_is_empty (ent d s b) then Some (dir_fill b (key_word key 2) to_part s d)
      else (case find_empty_row s b d of
              Some e \<Rightarrow> Some (dir_fill e (key_word key 2) to_part s (dir_link e b s (unlink_from_freelist e s d)))
            | None \<Rightarrow>
                (case freelist_pop s d of
                   None \<Rightarrow> None
                 | Some (d', r) \<Rightarrow>
                     (case r of
                        None \<Rightarrow> insert_loop key s b to_part d'
                      | Some e \<Rightarrow> Some (dir_fill e (key_word key 2) to_part s (dir_link e b s d'))))))"

definition dir_insert :: "cache_key \<Rightarrow> dir \<Rightarrow> vol \<Rightarrow> vol option" where
  "dir_insert key to_part d =
     map_option (\<lambda>d'. add_used 1 (d'\<lparr>dirty := True\<rparr>))
       (insert_loop key (key_segment key d) (dir_bucket (key_bucket key d)) to_part d)"

partial_function (option) find_entry :: "nat \<Rightarrow> u32 \<Rightarrow> int \<Rightarrow> nat \<Rightarrow> nat option \<Rightarrow> vol \<Rightarrow> (nat \<times> nat option) option option" where
  "find_entry s t off e p d =
     (if dir_tag (ent d s e) = t \<and> dir_offset (ent d s e) = off then Some (Some (e, p))
      else (case next_dir d s e of
              None \<Rightarrow> Some None
            | Some n \<Rightarrow> find_entry s t off n (Some e) d))"

definition find_in_bucket :: "nat \<Rightarrow> u32 \<Rightarrow> int \<Rightarrow> nat \<Rightarrow> vol \<Rightarrow> (nat \<times> nat option) option option" where
  "find_in_bucket s t off b d =
     (if dir_offset (ent d s b) \<noteq> 0 then find_entry s t off b None d else Some None)"

partial_function (option) overwrite_loop ::
    "nat \<Rightarrow> u32 \<Rightarrow> nat \<Rightarrow> dir \<Rightarrow> dir \<Rightarrow> bool \<Rightarrow> bool \<Rightarrow> vol \<Rightarrow> (vol \<times> bool) option" where
  "overwrite_loop s t b to_part old must res d =
     (case find_in_bucket s t (dir_offset old) b d of
        None \<Rightarrow> None
      | Some r \<Rightarrow>
          (case r of
             Some ep \<Rightarrow> Some ((dir_fill (fst ep) t to_part s d)\<lparr>dirty := True\<rparr>, res)
           | None \<Rightarrow>
               (if must then Some (d, False)
                else if dir_is_empty (ent d s b)
                then Some ((dir_fill b t to_part s (add_used 1 d))\<lparr>dirty := True\<rparr>, False)
                else (case find_empty_row s b d of
                        Some e \<Rightarrow>
                          Some ((dir_fill e t to_part s
                                  (dir_link e b s (add_used 1 (unlink_from_freelist e s d))))\<lparr>dirty := True\<rparr>, False)
                      | None \<Rightarrow>
                          (case freelist_pop s d of
                             None \<Rightarrow> None
                           | Some (d', r') \<Rightarrow>
                               (case r' of
                                  None \<Rightarrow> overwrite_loop s t b to_part old must False d'
                                | Some e \<Rightarrow>
                                    Some ((dir_fill e t to_part s (dir_link e b s (add_used 1 d')))\<lparr>dirty := True\<rparr>, False)))))))"

definition dir_overwrite :: "cache_key \<Rightarrow> dir \<Rightarrow> dir \<Rightarrow> bool \<Rightarrow> vol \<Rightarrow> (vol \<times> bool) option" where
  "dir_overwrite key to_part old must_overwrite d =
     overwrite_loop (key_segment key d) (DIR_MASK_TAG (key_word key 2)) (dir_bucket (key_bucket key d))
       to_part old must_overwrite True d"

definition dir_delete :: "cache_key \<Rightarrow> dir \<Rightarrow> vol \<Rightarrow> (vol \<times> bool) option" where
  "dir_delete key del d =
     (let s = key_segment key d; b = dir_bucket (key_bucket key d)
      in case find_in_bucket s (DIR_MASK_TAG (key_word key 2)) (dir_offset del) b d of
           None \<Rightarrow> None
         | Some None \<Rightarrow> Some (d, False)
         | Some (Some (e, p)) \<Rightarrow> Some (fst (dir_delete_entry e p s (add_used (- 1) d)), True))"

end
