(* ===== verification/CacheDirShape.thy ===== *)
theory CacheDirShape
  imports CacheDir Links
begin

text \<open>
  The shape of a cache directory segment: which chains its buckets hold, which list its free
  entries form, that the two never share an entry and that together they hold every entry but the
  first ones of the buckets. Every pointer operation of CacheDir is shown to keep the shape,
  with its effect on the chains and on the free list.
\<close>

section \<open>Entries seen as links and data\<close>

lemma dir_offset_set_next [simp]: "dir_offset (dir_set_next v e) = dir_offset e"
  by (simp add: dir_offset_def dir_set_next_def)

lemma dir_offset_set_prev [simp]: "dir_offset (dir_set_prev v e) = dir_offset e"
  by (simp add: dir_offset_def dir_set_prev_def)

lemma dir_offset_set_tag [simp]: "dir_offset (dir_set_tag t e) = dir_offset e"
  by (simp add: dir_offset_def dir_set_tag_def)

lemma dir_offset_clear [simp]: "dir_offset dir_clear = 0"
  by (simp add: dir_offset_def dir_clear_def)

lemma dir_next_clear [simp]: "dir_next dir_clear = 0" "dir_prev dir_clear = 0"
  by (simp_all add: dir_next_def dir_prev_def dir_clear_def)

lemma dir_next_set_next [simp]: "v < 65536 \<Longrightarrow> dir_next (dir_set_next v e) = v"
  by (simp add: dir_next_def dir_set_next_def unat_of_nat)

lemma dir_prev_set_prev [simp]: "v < 65536 \<Longrightarrow> dir_prev (dir_set_prev v e) = v"
  by (simp add: dir_prev_def dir_set_prev_def unat_of_nat)

lemma dir_next_set_prev [simp]: "dir_next (dir_set_prev v e) = dir_next e"
  by (simp add: dir_next_def dir_set_prev_def)

lemma dir_prev_set_next [simp]: "dir_prev (dir_set_next v e) = dir_prev e"
  by (simp add: dir_prev_def dir_set_next_def)

lemma dir_next_set_tag [simp]: "dir_next (dir_set_tag v e) = dir_next e"
  by (simp add: dir_next_def dir_set_tag_def)

lemma dir_next_bound: "dir_next e < 65536"
  using unsigned_less [of "w3 e"] by (simp add: dir_next_def)

lemma dir_next_assign_data [simp]: "dir_next (dir_assign_data e x) = dir_next e"
  by (simp add: dir_assign_data_def dir_next_bound)

lemma dir_offset_assign_data [simp]: "dir_offset (dir_assign_data e x) = dir_offset x"
  by (simp add: dir_assign_data_def)

text \<open>An entry without its link.\<close>

definition payload :: "dir \<Rightarrow> dir" where
  "payload e = e\<lparr>w3 := 0\<rparr>"

lemma payload_set_next [simp]: "payload (dir_set_next v e) = payload e"
  by (simp add: payload_def dir_set_next_def)

lemma dir_offset_payload [simp]: "dir_offset (payload e) = dir_offset e"
  by (simp add: dir_offset_def payload_def)

lemma dir_tag_payload [simp]: "dir_tag (payload e) = dir_tag e"
  by (simp add: dir_tag_def payload_def)

lemma dir_valid_payload [simp]: "dir_valid d (payload e) = dir_valid d e"
  by (simp add: dir_valid_def dir_phase_def payload_def vol_in_phase_valid_def
      vol_out_of_phase_valid_def dir_offset_def)

lemma dir_compare_tag_payload [simp]: "dir_compare_tag (payload e) k = dir_compare_tag e k"
  by (simp add: dir_compare_tag_def)

lemma payload_fill [simp]:
  "payload (dir_set_tag t (dir_assign_data e x)) = payload (dir_set_tag t x)"
  by (simp add: payload_def dir_set_tag_def dir_assign_data_def dir_set_next_def)


section \<open>The shape of a segment\<close>

definition nx :: "(nat \<Rightarrow> dir) \<Rightarrow> nat \<Rightarrow> nat" where "nx D e = dir_next (D e)"
definition pv :: "(nat \<Rightarrow> dir) \<Rightarrow> nat \<Rightarrow> nat" where "pv D e = dir_prev (D e)"

lemma nx_upd [simp]: "nx (D(e := v)) = (nx D)(e := dir_next v)"
  by (auto simp: nx_def)

lemma pv_upd [simp]: "pv (D(e := v)) = (pv D)(e := dir_prev v)"
  by (auto simp: pv_def)

definition links_of :: "nat \<Rightarrow> nat set" where
  "links_of n = {e. e < 4 * n \<and> e mod 4 \<noteq> 0}"

text \<open>
  \<open>cs b\<close> is the chain after the first entry of bucket \<open>b\<close>, \<open>fl\<close> the free list and \<open>lim\<close>
  the entries that are on neither.
\<close>

definition seg_ok :: "nat \<Rightarrow> (nat \<Rightarrow> dir) \<Rightarrow> nat \<Rightarrow> (nat \<Rightarrow> nat list) \<Rightarrow> nat list \<Rightarrow> nat set \<Rightarrow> bool" where
  "seg_ok n D f cs fl lim \<longleftrightarrow>
     4 * n \<le> 65536 \<and>
     (\<forall>b < n. chain (nx D) (nx D (4 * b)) (cs b) \<and> (\<forall>e \<in> set (cs b). dir_offset (D e) \<noteq> 0) \<and>
        (dir_offset (D (4 * b)) = 0 \<longrightarrow> cs b = [])) \<and>
     f = hd0 fl 0 \<and> linked (nx D) (pv D) 0 fl 0 \<and> distinct fl \<and> (\<forall>e \<in> set fl. dir_offset (D e) = 0) \<and>
     (\<forall>b < n. \<forall>b' < n. b \<noteq> b' \<longrightarrow> set (cs b) \<inter> set (cs b') = {}) \<and>
     (\<forall>b < n. set (cs b) \<inter> (set fl \<union> lim) = {}) \<and> set fl \<inter> lim = {} \<and>
     links_of n = set fl \<union> lim \<union> (\<Union>b<n. set (cs b))"

definition bucket_of :: "(nat \<Rightarrow> dir) \<Rightarrow> (nat \<Rightarrow> nat list) \<Rightarrow> nat \<Rightarrow> dir list" where
  "bucket_of D cs b =
     (if dir_offset (D (4 * b)) = 0 then [] else map (\<lambda>e. payload (D e)) (4 * b # cs b))"

lemma head_not_link [simp]: "4 * b \<notin> links_of n"
  by (simp add: links_of_def)

lemma seg_okD:
  assumes "seg_ok n D f cs fl lim"
  shows seg_size: "4 * n \<le> 65536"
    and seg_chain: "b < n \<Longrightarrow> chain (nx D) (nx D (4 * b)) (cs b)"
    and seg_used: "b < n \<Longrightarrow> e \<in> set (cs b) \<Longrightarrow> dir_offset (D e) \<noteq> 0"
    and seg_empty: "b < n \<Longrightarrow> dir_offset (D (4 * b)) = 0 \<Longrightarrow> cs b = []"
    and seg_head: "f = hd0 fl 0"
    and seg_linked: "linked (nx D) (pv D) 0 fl 0"
    and seg_distinct: "distinct fl"
    and seg_free: "e \<in> set fl \<Longrightarrow> dir_offset (D e) = 0"
    and seg_disj: "b < n \<Longrightarrow> b' < n \<Longrightarrow> b \<noteq> b' \<Longrightarrow> e \<in> set (cs b) \<Longrightarrow> e \<notin> set (cs b')"
    and seg_not_free: "b < n \<Longrightarrow> e \<in> set (cs b) \<Longrightarrow> e \<notin> set fl"
    and seg_not_lim: "b < n \<Longrightarrow> e \<in> set (cs b) \<Longrightarrow> e \<notin> lim"
    and seg_free_lim: "e \<in> set fl \<Longrightarrow> e \<notin> lim"
    and seg_cover: "links_of n = set fl \<union> lim \<union> (\<Union>b<n. set (cs b))"
proof -
  note ok = assms [unfolded seg_ok_def]
  show "4 * n \<le> 65536" using ok by (elim conjE)
  show "f = hd0 fl 0" using ok by (elim conjE)
  show "linked (nx D) (pv D) 0 fl 0" using ok by (elim conjE)
  show "distinct fl" using ok by (elim conjE)
  show "links_of n = set fl \<union> lim \<union> (\<Union>b<n. set (cs b))" using ok by (elim conjE)
  have c: "\<forall>b < n. chain (nx D) (nx D (4 * b)) (cs b) \<and> (\<forall>e \<in> set (cs b). dir_offset (D e) \<noteq> 0) \<and>
        (dir_offset (D (4 * b)) = 0 \<longrightarrow> cs b = [])" using ok by (elim conjE)
  then show "b < n \<Longrightarrow> chain (nx D) (nx D (4 * b)) (cs b)"
    "b < n \<Longrightarrow> e \<in> set (cs b) \<Longrightarrow> dir_offset (D e) \<noteq> 0"
    "b < n \<Longrightarrow> dir_offset (D (4 * b)) = 0 \<Longrightarrow> cs b = []" by blast+
  have "\<forall>e \<in> set fl. dir_offset (D e) = 0" "set fl \<inter> lim = {}" using ok by - (elim conjE, assumption)+
  then show "e \<in> set fl \<Longrightarrow> dir_offset (D e) = 0" "e \<in> set fl \<Longrightarrow> e \<notin> lim" by blast+
  have "\<forall>b < n. \<forall>b' < n. b \<noteq> b' \<longrightarrow> set (cs b) \<inter> set (cs b') = {}"
    "\<forall>b < n. set (cs b) \<inter> (set fl \<union> lim) = {}" using ok by - (elim conjE, assumption)+
  then show "b < n \<Longrightarrow> b' < n \<Longrightarrow> b \<noteq> b' \<Longrightarrow> e \<in> set (cs b) \<Longrightarrow> e \<notin> set (cs b')"
    "b < n \<Longrightarrow> e \<in> set (cs b) \<Longrightarrow> e \<notin> set fl" "b < n \<Longrightarrow> e \<in> set (cs b) \<Longrightarrow> e \<notin> lim" by blast+
qed

lemma seg_okI:
  assumes "4 * n \<le> 65536"
    "\<And>b. b < n \<Longrightarrow> chain (nx D) (nx D (4 * b)) (cs b)"
    "\<And>b e. b < n \<Longrightarrow> e \<in> set (cs b) \<Longrightarrow> dir_offset (D e) \<noteq> 0"
    "\<And>b. b < n \<Longrightarrow> dir_offset (D (4 * b)) = 0 \<Longrightarrow> cs b = []"
    "f = hd0 fl 0" "linked (nx D) (pv D) 0 fl 0" "distinct fl"
    "\<And>e. e \<in> set fl \<Longrightarrow> dir_offset (D e) = 0"
    "\<And>b b' e. b < n \<Longrightarrow> b' < n \<Longrightarrow> b \<noteq> b' \<Longrightarrow> e \<in> set (cs b) \<Longrightarrow> e \<notin> set (cs b')"
    "\<And>b e. b < n \<Longrightarrow> e \<in> set (cs b) \<Longrightarrow> e \<notin> set fl \<and> e \<notin> lim"
    "\<And>e. e \<in> set fl \<Longrightarrow> e \<notin> lim"
    "links_of n = set fl \<union> lim \<union> (\<Union>b<n. set (cs b))"
  shows "seg_ok n D f cs fl lim"
proof -
  have 1: "\<forall>b < n. chain (nx D) (nx D (4 * b)) (cs b) \<and> (\<forall>e \<in> set (cs b). dir_offset (D e) \<noteq> 0) \<and>
        (dir_offset (D (4 * b)) = 0 \<longrightarrow> cs b = [])"
    using assms(2-4) by blast
  have 2: "\<forall>e \<in> set fl. dir_offset (D e) = 0" "set fl \<inter> lim = {}" using assms(8,11) by blast+
  have 3: "\<forall>b < n. \<forall>b' < n. b \<noteq> b' \<longrightarrow> set (cs b) \<inter> set (cs b') = {}" using assms(9) by blast
  have 4: "\<forall>b < n. set (cs b) \<inter> (set fl \<union> lim) = {}" using assms(10) by blast
  show ?thesis
    unfolding seg_ok_def by (intro conjI; fact 1 2 3 4 assms)
qed

lemma seg_link:
  assumes "seg_ok n D f cs fl lim"
  shows "e \<in> set fl \<Longrightarrow> e \<in> links_of n" "e \<in> lim \<Longrightarrow> e \<in> links_of n"
    "b < n \<Longrightarrow> e \<in> set (cs b) \<Longrightarrow> e \<in> links_of n"
  using seg_cover [OF assms] by auto

lemma link_bound: "e \<in> links_of n \<Longrightarrow> 4 * n \<le> 65536 \<Longrightarrow> 0 < e \<and> e < 65536"
  by (cases e) (auto simp: links_of_def)

lemma seg_bound:
  assumes "seg_ok n D f cs fl lim"
  shows "e \<in> set fl \<Longrightarrow> 0 < e \<and> e < 65536" "e \<in> lim \<Longrightarrow> 0 < e \<and> e < 65536"
    "b < n \<Longrightarrow> e \<in> set (cs b) \<Longrightarrow> 0 < e \<and> e < 65536"
  using seg_link [OF assms] link_bound [OF _ seg_size [OF assms], of e] by blast+

lemma seg_not_head:
  assumes "seg_ok n D f cs fl lim"
  shows "4 * b \<notin> set fl" "4 * b \<notin> lim" "b' < n \<Longrightarrow> 4 * b \<notin> set (cs b')"
  using seg_link [OF assms] head_not_link by blast+

text \<open>What a write to an entry changes.\<close>

lemma seg_chain_frame:
  assumes "seg_ok n D f cs fl lim" "b < n" "\<And>x. x \<in> set (cs b) \<or> x = 4 * b \<Longrightarrow> nx D' x = nx D x"
  shows "chain (nx D') (nx D' (4 * b)) (cs b)"
  using seg_chain [OF assms(1,2)] chain_cong [of "cs b" "nx D'" "nx D"] assms(3) by simp

section \<open>Steps on the shape\<close>

definition free_push :: "nat \<Rightarrow> nat \<Rightarrow> (nat \<Rightarrow> dir) \<Rightarrow> (nat \<Rightarrow> dir)" where
  "free_push e f D =
     (let D1 = D(e := dir_set_next f (D e)) in if f \<noteq> 0 then D1(f := dir_set_prev e (D1 f)) else D1)"

lemma seg_free_head:
  assumes "seg_ok n D f cs fl lim" "f \<noteq> 0"
  shows "f \<in> set fl"
  using seg_head [OF assms(1)] assms(2) by (cases fl) auto

lemma free_push_offset [simp]: "dir_offset (free_push e f D x) = dir_offset (D x)"
  by (simp add: free_push_def Let_def)

lemma free_push_frame: "x \<noteq> e \<Longrightarrow> x \<noteq> f \<or> f = 0 \<Longrightarrow> free_push e f D x = D x"
  by (auto simp: free_push_def Let_def)

lemma seg_ok_free_push:
  assumes ok: "seg_ok n D f cs fl lim" and e: "e \<in> lim" "dir_offset (D e) = 0" "dir_prev (D e) = 0"
  shows "seg_ok n (free_push e f D) e cs (e # fl) (lim - {e})"
    and "b < n \<Longrightarrow> bucket_of (free_push e f D) cs b = bucket_of D cs b"
proof -
  have eb: "0 < e" "e < 65536" using seg_bound(2) [OF ok e(1)] by auto
  have ef: "e \<notin> set fl" "b < n \<Longrightarrow> e \<notin> set (cs b)" "e \<noteq> 4 * b" for b
    using seg_free_lim [OF ok] seg_not_lim [OF ok] seg_not_head(2) [OF ok] e(1) by blast+
  have fb: "f < 65536" "f \<noteq> e"
    using seg_bound(1) [OF ok seg_free_head [OF ok]] seg_free_head [OF ok] ef(1) eb by (cases "f = 0"; force)+
  have fc: "f \<noteq> 0 \<Longrightarrow> b < n \<Longrightarrow> f \<notin> set (cs b)" "f \<noteq> 0 \<Longrightarrow> f \<noteq> 4 * b" for b
    using seg_not_free [OF ok] seg_not_head(1) [OF ok] seg_free_head [OF ok] by blast+
  have frame: "free_push e f D x = D x" if "b < n" "x \<in> set (cs b) \<or> x = 4 * b" for b x
    using that ef fc by (intro free_push_frame) auto
  have l: "linked (nx D) (pv D) 0 fl 0" "distinct fl" "f = hd0 fl 0"
    using ok by (rule seg_linked seg_distinct seg_head)+
  show "seg_ok n (free_push e f D) e cs (e # fl) (lim - {e})"
  proof (rule seg_okI)
    show "chain (nx (free_push e f D)) (nx (free_push e f D) (4 * b)) (cs b)" if "b < n" for b
      using seg_chain_frame [OF ok that] frame [OF that] by (simp add: nx_def)
    show "linked (nx (free_push e f D)) (pv (free_push e f D)) 0 (e # fl) 0"
      using l ef(1) eb fb e(3) by (cases fl) (auto simp: free_push_def Let_def nx_def pv_def)
    show "links_of n = set (e # fl) \<union> (lim - {e}) \<union> (\<Union>b<n. set (cs b))"
      using seg_cover [OF ok] e(1) by auto
  qed (use ok ef e l in \<open>auto dest: seg_used seg_empty seg_free seg_disj seg_not_free seg_not_lim
         seg_free_lim seg_size\<close>)
  show "bucket_of (free_push e f D) cs b = bucket_of D cs b" if "b < n"
    using frame [OF that] by (simp add: bucket_of_def)
qed


section \<open>Writes to a volume\<close>

lemma dirs_upd [simp]: "dirs (upd s e f d) s = (dirs d s)(e := f (dirs d s e))"
  by (simp add: upd_def)

lemma freelist_head_set [simp]: "v < 65536 \<Longrightarrow> freelist_head (set_freelist s v d) s = v"
  by (simp add: freelist_head_def set_freelist_def unat_of_nat)

lemma freelist_head_upd [simp]: "freelist_head (upd s e f d) t = freelist_head d t"
  by (simp add: freelist_head_def upd_def)

lemma dirs_set_freelist [simp]: "dirs (set_freelist s v d) = dirs d"
  by (simp add: set_freelist_def)

lemma vol_flags [simp]: "dirs (add_used k d) = dirs d" "freelist_head (add_used k d) t = freelist_head d t"
  "dirs (d\<lparr>dirty := x\<rparr>) = dirs d" "freelist_head (d\<lparr>dirty := x\<rparr>) t = freelist_head d t"
  "dir_used (add_used k d) = dir_used d + k" "dir_used (upd s e f d) = dir_used d"
  "dir_used (set_freelist s v d) = dir_used d"
  "dirs (count_collision h d) = dirs d" "freelist_head (count_collision h d) t = freelist_head d t"
  "dir_used (count_collision h d) = dir_used d"
  by (simp_all add: add_used_def freelist_head_def upd_def set_freelist_def count_collision_def)

text \<open>What an operation on segment \<open>s\<close> leaves alone.\<close>

definition geometry :: "vol \<Rightarrow> u32 \<times> int \<times> int \<times> int \<times> int \<times> nat \<times> nat" where
  "geometry d = (phase d, write_pos d, agg_pos d, agg_buf_pos d, vstart d, segments d, buckets d)"

definition only_seg :: "nat \<Rightarrow> vol \<Rightarrow> vol \<Rightarrow> bool" where
  "only_seg s d d' \<longleftrightarrow>
     geometry d' = geometry d \<and> (\<forall>t. t \<noteq> s \<longrightarrow> dirs d' t = dirs d t \<and> freelist d' t = freelist d t)"

lemma only_seg_refl [simp]: "only_seg s d d"
  by (simp add: only_seg_def)

lemma only_seg_trans [trans]: "only_seg s d d1 \<Longrightarrow> only_seg s d1 d2 \<Longrightarrow> only_seg s d d2"
  by (simp add: only_seg_def)

lemma only_seg_writes [simp]:
  "only_seg s d (upd s e f d1) = only_seg s d d1"
  "only_seg s d (set_freelist s v d1) = only_seg s d d1"
  "only_seg s d (add_used k d1) = only_seg s d d1"
  "only_seg s d (d1\<lparr>dirty := x\<rparr>) = only_seg s d d1"
  "only_seg s d (count_collision h d1) = only_seg s d d1"
  by (auto simp: only_seg_def geometry_def upd_def set_freelist_def add_used_def count_collision_def)

lemma only_seg_buckets: "only_seg s d d' \<Longrightarrow> buckets d' = buckets d"
  by (simp add: only_seg_def geometry_def)

lemma only_seg_valid: "only_seg s d d' \<Longrightarrow> dir_valid d' = dir_valid d"
  by (auto simp: only_seg_def geometry_def dir_valid_def vol_in_phase_valid_def
      vol_out_of_phase_valid_def fun_eq_iff)

lemma only_seg_keys: "only_seg s d d' \<Longrightarrow> key_segment k d' = key_segment k d \<and> key_bucket k d' = key_bucket k d"
  by (simp add: only_seg_def geometry_def key_segment_def key_bucket_def)

lemma dir_from_offset_case [simp]: "dir_from_offset 0 = None" "0 < e \<Longrightarrow> dir_from_offset e = Some e"
  by (simp_all add: dir_from_offset_def)

definition vol_ok :: "vol \<Rightarrow> nat \<Rightarrow> (nat \<Rightarrow> nat list) \<Rightarrow> nat list \<Rightarrow> nat set \<Rightarrow> bool" where
  "vol_ok d s cs fl lim \<longleftrightarrow> seg_ok (buckets d) (dirs d s) (freelist_head d s) cs fl lim"

section \<open>Removing an entry from a chain\<close>

lemma chain_remove:
  assumes "chain l p (xs @ q # e # bs)"
  shows "chain (l(e := v, q := l e)) p (xs @ q # bs)"
  using assms chain_distinct [OF assms] by (induction xs arbitrary: p) auto

lemma chain_remove_head:
  assumes "chain l (l h) xs" "h \<notin> set xs" "h # xs = as @ q # e # bs" "h # T = as @ q # bs"
  shows "chain (l(e := v, q := l e)) ((l(e := v, q := l e)) h) T"
proof (cases as)
  case Nil
  with assms have "chain l (l q) (e # bs)" "q \<notin> set (e # bs)" by auto
  then show ?thesis using Nil assms(4) chain_distinct [of l "l q" "e # bs"] by auto
next
  case (Cons x xs')
  with assms have c: "chain l (l h) (xs' @ q # e # bs)" "h \<noteq> q" "h \<noteq> e" by auto
  with chain_remove [OF c(1), of v] Cons assms(4) show ?thesis by simp
qed

lemma unchain_exists: "h # xs = as @ q # e # bs \<Longrightarrow> \<exists>T. h # T = as @ q # bs"
  by (cases as) auto

lemma split_tail: "h # xs = as @ q # e # bs \<Longrightarrow> \<exists>ys. xs = ys @ e # bs"
  by (cases as) (auto intro: exI [of _ "[]"])

lemma split_tail_mem: "h # xs = as @ q # e # bs \<Longrightarrow> e \<in> set xs \<and> (q = h \<or> q \<in> set xs)"
  by (cases as) auto

lemma split_tail_set:
  assumes "distinct (h # xs)" "h # xs = as @ q # e # bs" "h # T = as @ q # bs"
  shows "set T = set xs - {e}"
proof (cases as)
  case Nil
  with assms show ?thesis by auto
next
  case (Cons x xs')
  with assms have "xs = xs' @ q # e # bs" "T = xs' @ q # bs" by auto
  with assms(1) show ?thesis by auto
qed

lemma unchain_facts:
  assumes ok: "seg_ok n D f cs fl lim" and b: "b < n"
    and split: "4 * b # cs b = as @ q # e # bs" and T: "4 * b # T = as @ q # bs"
  shows "e \<in> set (cs b)" "distinct (4 * b # cs b)" "q \<noteq> e" "q = 4 * b \<or> q \<in> set (cs b)"
    "dir_offset (D (4 * b)) \<noteq> 0"
    "set T = set (cs b) - {e}" "e \<noteq> 4 * b'" "dir_next (D e) = hd0 bs 0"
    "e \<notin> set fl" "q \<notin> set fl" "distinct (as @ q # e # bs)"
proof -
  show e: "e \<in> set (cs b)" and q: "q = 4 * b \<or> q \<in> set (cs b)" using split_tail_mem [OF split] by auto
  show "dir_offset (D (4 * b)) \<noteq> 0" using seg_empty [OF ok b] e by auto
  show dist: "distinct (4 * b # cs b)"
    using chain_distinct [OF seg_chain [OF ok b]] seg_not_head(3) [OF ok b] by simp
  show d: "distinct (as @ q # e # bs)" using dist unfolding split .
  then show "q \<noteq> e" by auto
  show "e \<noteq> 4 * b'" using e seg_not_head(3) [OF ok b, of b'] by auto
  show "e \<notin> set fl" using e seg_not_free [OF ok b] by blast
  show "q \<notin> set fl" using q seg_not_free [OF ok b] seg_not_head(1) [OF ok, of b] by blast
  show "set T = set (cs b) - {e}" by (rule split_tail_set [OF dist split T])
  show "dir_next (D e) = hd0 bs 0"
  proof -
    obtain ys where "cs b = ys @ e # bs" using split_tail [OF split] by blast
    then have "chain (nx D) (nx D (4 * b)) (ys @ e # bs)" using seg_chain [OF ok b] by simp
    then have "chain (nx D) e (e # bs)" by (rule chain_suffix)
    then show ?thesis by (cases bs) (auto simp: nx_def)
  qed
qed

lemma seg_other:
  assumes "seg_ok n D f cs fl lim" "b < n" "x = 4 * b \<or> x \<in> set (cs b)" "b' < n" "b' \<noteq> b"
  shows "x \<noteq> 4 * b'" "x \<notin> set (cs b')"
  using assms seg_disj [OF assms(1,2,4)] seg_not_head(3) [OF assms(1)] by auto

lemma seg_ok_unchain:
  assumes ok: "seg_ok n D f cs fl lim" and b: "b < n" and split: "4 * b # cs b = as @ q # e # bs" and T: "4 * b # T = as @ q # bs"
    and v: "dir_next v = dir_next (D e)" "dir_offset v \<noteq> 0" and D': "D' = D(e := dir_clear, q := v)"
  shows "seg_ok n D' f (cs(b := T)) fl (insert e lim)"
proof -
  note f = unchain_facts [OF ok b split T]
  have off: "dir_offset (D' x) = 0 \<longleftrightarrow> dir_offset (D x) = 0" if "x \<noteq> e" for x
    using that f(3,4,5) v(2) seg_used [OF ok b] by (auto simp: D')
  have other: "b' < n \<Longrightarrow> b' \<noteq> b \<Longrightarrow> e \<notin> set (cs b') \<and> q \<notin> set (cs b') \<and> e \<noteq> 4 * b' \<and> q \<noteq> 4 * b'" for b'
    using seg_other [OF ok b] f(1,4) by blast
  define cs' where "cs' = cs(b := T)"
  have cs'b: "cs' b = T" "\<And>b'. b' \<noteq> b \<Longrightarrow> cs' b' = cs b'" by (auto simp: cs'_def)
  have sub: "x \<in> set (cs' b') \<longleftrightarrow> x \<in> set (cs b') \<and> x \<noteq> e" if "b' < n" for b' x
    using that f(6) other [OF that] cs'b by (cases "b' = b") auto
  have "seg_ok n D' f cs' fl (insert e lim)"
  proof (rule seg_okI)
    fix b' assume b': "b' < n"
    show "chain (nx D') (nx D' (4 * b')) (cs' b')"
    proof (cases "b' = b")
      case True
      have "nx D' = (nx D)(e := 0, q := nx D e)"
        using v(1) by (simp add: D' nx_def)
      then show ?thesis
        using chain_remove_head [OF seg_chain [OF ok b] _ split T] f(2) True cs'b(1) by simp
    next
      case False
      then have "nx D' x = nx D x" if "x \<in> set (cs b') \<or> x = 4 * b'" for x
        using that other [OF b' False] by (auto simp: D' nx_def)
      from seg_chain_frame [OF ok b' this] show ?thesis using cs'b(2) [OF False] by simp
    qed
    show "dir_offset (D' x) \<noteq> 0" if "x \<in> set (cs' b')" for x
      using that sub [OF b'] seg_used [OF ok b', of x] off [of x] by simp
    show "cs' b' = []" if "dir_offset (D' (4 * b')) = 0"
    proof -
      have z: "dir_offset (D (4 * b')) = 0" using that off [of "4 * b'"] f(7) [of b'] by simp
      then have "b' \<noteq> b" using f(5) by blast
      then show ?thesis using seg_empty [OF ok b' z] cs'b(2) by simp
    qed
    show "x \<notin> set (cs' b'')" if "b'' < n" "b' \<noteq> b''" "x \<in> set (cs' b')" for b'' x
      using that(3) sub [OF b'] sub [OF that(1)] seg_disj [OF ok b' that(1,2), of x] by simp
    show "x \<notin> set fl \<and> x \<notin> insert e lim" if "x \<in> set (cs' b')" for x
      using that sub [OF b'] seg_not_free [OF ok b', of x] seg_not_lim [OF ok b', of x] by simp
  next
    show "linked (nx D') (pv D') 0 fl 0"
      using seg_linked [OF ok] f(9,10) by (simp add: D')
    show "dir_offset (D' x) = 0" if "x \<in> set fl" for x
      using seg_free [OF ok that] off [of x] f(9) that by auto
    show "x \<notin> insert e lim" if "x \<in> set fl" for x
      using seg_free_lim [OF ok that] f(9) that by auto
    have "(\<Union>b<n. set (cs b)) = insert e (\<Union>b<n. set (cs' b))"
    proof (intro set_eqI iffI)
      fix x assume "x \<in> (\<Union>b<n. set (cs b))"
      then show "x \<in> insert e (\<Union>b<n. set (cs' b))" using sub by auto
    next
      fix x assume "x \<in> insert e (\<Union>b<n. set (cs' b))"
      then show "x \<in> (\<Union>b<n. set (cs b))" using sub b f(1) by auto
    qed
    then show "links_of n = set fl \<union> insert e lim \<union> (\<Union>b<n. set (cs' b))"
      using seg_cover [OF ok] by simp
  qed (rule seg_size [OF ok] seg_head [OF ok] seg_distinct [OF ok])+
  then show ?thesis by (simp add: cs'_def)
qed

lemma bucket_of_unchain:
  assumes ok: "seg_ok n D f cs fl lim" and b: "b < n" and split: "4 * b # cs b = as @ q # e # bs" and T: "4 * b # T = as @ q # bs"
    and v: "dir_next v = dir_next (D e)" "dir_offset v \<noteq> 0" and D': "D' = D(e := dir_clear, q := v)" and b': "b' < n"
  shows "bucket_of D' (cs(b := T)) b' =
    (if b' = b then map (\<lambda>x. payload ((D(q := v)) x)) (as @ q # bs) else bucket_of D cs b')"
proof (cases "b' = b")
  case True
  note f = unchain_facts [OF ok b split T]
  have "payload (D' x) = payload ((D(q := v)) x)" if "x \<in> set (as @ q # bs)" for x
    using that f(11) by (auto simp: D')
  then have "map (\<lambda>e. payload (D' e)) (as @ q # bs) = map (\<lambda>x. payload ((D(q := v)) x)) (as @ q # bs)"
    by (intro map_cong) auto
  moreover have "dir_offset (D' (4 * b)) \<noteq> 0" using f(3,5) f(7) [of b] v(2) by (auto simp: D')
  moreover have "bucket_of D' (cs(b := T)) b = map (\<lambda>e. payload (D' e)) (4 * b # T)"
    using calculation(2) by (simp add: bucket_of_def)
  ultimately show ?thesis unfolding True T by (simp only: simp_thms if_True)
next
  case False
  have "x \<noteq> e \<and> x \<noteq> q" if "x \<in> set (4 * b' # cs b')" for x
    using that seg_other [OF ok b _ b' False] unchain_facts(1,4) [OF ok b split T] by auto
  then have "D' x = D x" if "x \<in> set (4 * b' # cs b')" for x using that by (simp add: D')
  then show ?thesis using False by (simp add: bucket_of_def)
qed


lemma vol_bound:
  assumes "vol_ok d s cs fl lim"
  shows "b < buckets d \<Longrightarrow> e \<in> set (cs b) \<Longrightarrow> 0 < e \<and> e < 65536" "b < buckets d \<Longrightarrow> 4 * b < 65536"
  using assms seg_bound(3) seg_size unfolding vol_ok_def by fastforce+

lemma unchain_free:
  assumes ok: "seg_ok n D f cs fl lim" and b: "b < n"
    and split: "4 * b # cs b = as @ q # e # bs" and T: "4 * b # T = as @ q # bs"
    and v: "dir_next v = dir_next (D e)" "dir_offset v \<noteq> 0"
    and D': "D' = free_push e f (D(e := dir_clear, q := v))"
  shows "seg_ok n D' e (cs(b := T)) (e # fl) lim"
    "b' < n \<Longrightarrow> bucket_of D' (cs(b := T)) b' =
       (if b' = b then map (\<lambda>x. payload ((D(q := v)) x)) (as @ q # bs) else bucket_of D cs b')"
    "x \<in> set (as @ q # bs) \<Longrightarrow> payload (D' x) = payload ((D(q := v)) x)"
proof -
  note f = unchain_facts [OF ok b split T]
  let ?D = "D(e := dir_clear, q := v)"
  have nl: "e \<notin> lim" using seg_not_lim [OF ok b f(1)] .
  have u: "seg_ok n ?D f (cs(b := T)) fl (insert e lim)"
    by (rule seg_ok_unchain [OF ok b split T v refl])
  have e: "e \<in> insert e lim" "dir_offset (?D e) = 0" "dir_prev (?D e) = 0"
    using f(3) by simp_all
  have l: "insert e lim - {e} = lim" using nl by auto
  show "seg_ok n D' e (cs(b := T)) (e # fl) lim"
    using seg_ok_free_push(1) [OF u e] unfolding D' l .
  show "bucket_of D' (cs(b := T)) b' =
       (if b' = b then map (\<lambda>x. payload ((D(q := v)) x)) (as @ q # bs) else bucket_of D cs b')"
    if "b' < n"
    unfolding D' seg_ok_free_push(2) [OF u e that] by (rule bucket_of_unchain [OF ok b split T v refl that])
  show "payload (D' x) = payload ((D(q := v)) x)" if "x \<in> set (as @ q # bs)"
  proof -
    have "x \<noteq> e" using that f(11) by auto
    moreover have "x \<notin> set fl"
    proof -
      have "x = 4 * b \<or> x \<in> set (cs b)"
        using that split by (metis (no_types, lifting) Un_iff list.set_intros set_ConsD set_append)
      then show ?thesis using seg_not_free [OF ok b, of x] seg_not_head(1) [OF ok, of b] by blast
    qed
    moreover have "f = 0 \<or> f \<in> set fl" using seg_free_head [OF ok] by blast
    ultimately have "x \<noteq> f \<or> f = 0" by auto
    then show ?thesis using \<open>x \<noteq> e\<close> unfolding D' by (simp add: free_push_frame)
  qed
qed

lemma delete_linked_dirs:
  assumes "q \<noteq> e" "e < 65536" "delete_linked e q s d = (d', r)"
  shows "dirs d' s =
      free_push e (freelist_head d s) ((dirs d s)(e := dir_clear, q := dir_set_next (dir_next (dirs d s e)) (dirs d s q)))"
    and "freelist_head d' s = e" and "r = dir_from_offset (dir_next (dirs d s e))"
    and "only_seg s d0 d \<Longrightarrow> only_seg s d0 d'" and "dir_used d' = dir_used d"
  using assms by (auto simp: delete_linked_def Let_def free_push_def fun_upd_twist)

lemma hd_from_offset:
  "0 \<notin> set xs \<Longrightarrow> dir_from_offset (hd0 xs 0) = (case xs of [] \<Rightarrow> None | x # _ \<Rightarrow> Some x)"
  by (cases xs) auto

definition pred_of :: "nat list \<Rightarrow> nat option" where
  "pred_of xs = (if xs = [] then None else Some (last xs))"

definition first_of :: "nat list \<Rightarrow> nat option" where
  "first_of xs = (case xs of [] \<Rightarrow> None | x # _ \<Rightarrow> Some x)"

text \<open>
  Where a loop over bucket \<open>b\<close> stands: the entries it has passed and those it still has to
  visit; a bucket whose last entry was deleted has none.
\<close>

definition cursor :: "vol \<Rightarrow> nat \<Rightarrow> (nat \<Rightarrow> nat list) \<Rightarrow> nat \<Rightarrow> nat list \<Rightarrow> nat list \<Rightarrow> bool" where
  "cursor d s cs b pre rest \<longleftrightarrow>
     pre @ rest = 4 * b # cs b \<and> dir_offset (dirs d s (4 * b)) \<noteq> 0 \<or>
     pre = [] \<and> rest = [] \<and> cs b = [] \<and> dir_offset (dirs d s (4 * b)) = 0"

lemma cursor_bucket:
  "cursor d s cs b pre rest \<Longrightarrow>
   bucket_of (dirs d s) cs b = map (\<lambda>e. payload (dirs d s e)) (pre @ rest)"
  by (auto simp: cursor_def bucket_of_def simp del: map_append)

definition delete_effect ::
    "nat \<Rightarrow> nat \<Rightarrow> vol \<Rightarrow> (nat \<Rightarrow> nat list) \<Rightarrow> vol \<Rightarrow> (nat \<Rightarrow> nat list) \<Rightarrow> bool" where
  "delete_effect s b d cs d' cs' \<longleftrightarrow> only_seg s d d' \<and>
     (\<forall>b' < buckets d. b' \<noteq> b \<longrightarrow> bucket_of (dirs d' s) cs' b' = bucket_of (dirs d s) cs b')"

lemma delete_effect_refl [simp]: "delete_effect s b d cs d cs"
  by (simp add: delete_effect_def)

lemma delete_effect_trans:
  "delete_effect s b d cs d1 cs1 \<Longrightarrow> delete_effect s b d1 cs1 d2 cs2 \<Longrightarrow> delete_effect s b d cs d2 cs2"
  by (auto simp: delete_effect_def only_seg_buckets intro: only_seg_trans)

text \<open>An entry with a predecessor.\<close>

lemma delete_entry_linked:
  assumes ok: "vol_ok d s cs fl lim" and b: "b < buckets d"
    and pos: "(pre @ [q]) @ e # rest = 4 * b # cs b"
    and del: "dir_delete_entry e (Some q) s d = (d', r)"
  shows "\<exists>cs' fl'. vol_ok d' s cs' fl' lim \<and> delete_effect s b d cs d' cs' \<and> fl' \<noteq> [] \<and>
     dir_used d' = dir_used d \<and> r = first_of rest \<and> cursor d' s cs' b (pre @ [q]) rest \<and>
     (\<forall>x \<in> set ((pre @ [q]) @ rest). payload (dirs d' s x) = payload (dirs d s x))"
proof -
  note sok = ok [unfolded vol_ok_def]
  have split: "4 * b # cs b = pre @ q # e # rest" using pos by simp
  obtain T where T: "4 * b # T = pre @ q # rest" using unchain_exists [OF split] by blast
  note f = unchain_facts [OF sok b split T]
  let ?v = "dir_set_next (dir_next (dirs d s e)) (dirs d s q)"
  have v: "dir_next ?v = dir_next (dirs d s e)" "dir_offset ?v \<noteq> 0"
    using f(4,5) seg_used [OF sok b, of q] by (auto simp: dir_next_bound)
  have eb: "e < 65536" using vol_bound(1) [OF ok b] f(1) by blast
  have del': "delete_linked e q s d = (d', r)" using del by (simp add: dir_delete_entry_def)
  note dd = delete_linked_dirs [OF f(3) eb del']
  note u = unchain_free [OF sok b split T v dd(1)]
  have os: "only_seg s d d'" by (rule dd(4)) simp
  have "vol_ok d' s (cs(b := T)) (e # fl) lim"
    using u(1) unfolding vol_ok_def dd(2) only_seg_buckets [OF os] .
  moreover have "delete_effect s b d cs d' (cs(b := T))"
    using u(2) os by (simp add: delete_effect_def)
  moreover have "r = first_of rest"
  proof -
    have "set rest \<subseteq> set (cs b)" using split_tail [OF split] by auto
    then have "0 \<notin> set rest" using vol_bound(1) [OF ok b] by auto
    then show ?thesis using dd(3) f(8) by (simp add: hd_from_offset first_of_def)
  qed
  moreover have pay: "\<forall>x \<in> set ((pre @ [q]) @ rest). payload (dirs d' s x) = payload (dirs d s x)"
  proof
    fix x assume "x \<in> set ((pre @ [q]) @ rest)"
    then have "x \<in> set (pre @ q # rest)" by simp
    from u(3) [OF this] show "payload (dirs d' s x) = payload (dirs d s x)" by simp
  qed
  moreover have "cursor d' s (cs(b := T)) b (pre @ [q]) rest"
  proof -
    have "4 * b \<in> set (pre @ q # rest)" unfolding T [symmetric] by simp
    then have "payload (dirs d' s (4 * b)) = payload (dirs d s (4 * b))"
      using bspec [OF pay, of "4 * b"] by simp
    then have "dir_offset (dirs d' s (4 * b)) = dir_offset (dirs d s (4 * b))"
      by (metis dir_offset_payload)
    then show ?thesis using f(5) T unfolding cursor_def by simp
  qed
  ultimately show ?thesis using dd(5) by (intro exI [of _ "cs(b := T)"] exI [of _ "e # fl"]) simp
qed


text \<open>The first entry of a bucket takes over its successor, which is deleted instead.\<close>

lemma delete_entry_head:
  assumes ok: "vol_ok d s cs fl lim" and b: "b < buckets d" and pos: "cs b = x # rest"
    and del: "dir_delete_entry (4 * b) None s d = (d', r)"
  shows "\<exists>cs' fl'. vol_ok d' s cs' fl' lim \<and> delete_effect s b d cs d' cs' \<and> fl' \<noteq> [] \<and>
     dir_used d' = dir_used d \<and> r = Some (4 * b) \<and> cursor d' s cs' b [] (4 * b # rest) \<and>
     map (\<lambda>e. payload (dirs d' s e)) (4 * b # rest) = map (\<lambda>e. payload (dirs d s e)) (x # rest)"
proof -
  note sok = ok [unfolded vol_ok_def]
  have split: "4 * b # cs b = [] @ 4 * b # x # rest" using pos by simp
  have T: "4 * b # rest = [] @ 4 * b # rest" by simp
  note f = unchain_facts [OF sok b split T]
  let ?v = "dirs d s x"
  have v: "dir_next ?v = dir_next (dirs d s x)" "dir_offset ?v \<noteq> 0"
    using seg_used [OF sok b f(1)] by simp_all
  have xb: "0 < x \<and> x < 65536" using vol_bound(1) [OF ok b] f(1) by blast
  have "nx (dirs d s) (4 * b) = x" using seg_chain [OF sok b] pos by simp
  then have nd: "next_dir d s (4 * b) = Some x" using xb by (simp add: next_dir_def nx_def)
  let ?d0 = "upd s (4 * b) (\<lambda>_. ent d s x) (d\<lparr>dirty := True\<rparr>)"
  have del': "delete_linked x (4 * b) s ?d0 = (d', snd (delete_linked x (4 * b) s ?d0))" "r = Some (4 * b)"
    using del nd by (auto simp: dir_delete_entry_def split: prod.splits)
  note dd = delete_linked_dirs [OF f(3) _ del'(1)]
  have x: "x < 65536" using xb by simp
  have "dirs d' s = free_push x (freelist_head d s) ((dirs d s)(x := dir_clear, 4 * b := dirs d s x))"
  proof -
    have "dir_set_next (dir_next (dirs d s x)) (dirs d s x) = dirs d s x"
      by (simp add: dir_set_next_def dir_next_def)
    then show ?thesis using dd(1) [OF x] f(3) by (simp add: fun_upd_twist)
  qed
  note u = unchain_free [OF sok b split T v this]
  have os: "only_seg s d d'" by (rule dd(4) [OF x]) simp
  have "vol_ok d' s (cs(b := rest)) (x # fl) lim"
    using u(1) unfolding vol_ok_def dd(2) [OF x] only_seg_buckets [OF os] .
  moreover have "delete_effect s b d cs d' (cs(b := rest))"
    using u(2) os by (simp add: delete_effect_def)
  moreover have m: "map (\<lambda>e. payload (dirs d' s e)) (4 * b # rest) = map (\<lambda>e. payload (dirs d s e)) (x # rest)"
  proof -
    have "payload (dirs d' s y) = payload (((dirs d s)(4 * b := dirs d s x)) y)" if "y \<in> set (4 * b # rest)" for y
      using u(3) [of y] that by simp
    moreover have "4 * b \<notin> set rest" using f(2) pos by simp
    ultimately show ?thesis by (auto intro!: map_cong)
  qed
  moreover have "cursor d' s (cs(b := rest)) b [] (4 * b # rest)"
  proof -
    have "payload (dirs d' s (4 * b)) = payload (dirs d s x)" using m by simp
    then have "dir_offset (dirs d' s (4 * b)) = dir_offset (dirs d s x)" by (metis dir_offset_payload)
    then show ?thesis using v(2) by (simp add: cursor_def)
  qed
  ultimately show ?thesis using dd(5) [OF x] del'(2)
    by (intro exI [of _ "cs(b := rest)"] exI [of _ "x # fl"]) simp
qed

lemma seg_ok_clear_head:
  assumes ok: "seg_ok n D f cs fl lim" and b: "b < n" and c: "cs b = []"
  shows "seg_ok n (D(4 * b := dir_clear)) f cs fl lim"
    and "b' < n \<Longrightarrow> b' \<noteq> b \<Longrightarrow> bucket_of (D(4 * b := dir_clear)) cs b' = bucket_of D cs b'"
proof -
  have n: "4 * b \<notin> set fl" "b' < n \<Longrightarrow> 4 * b \<notin> set (cs b')" for b'
    using seg_not_head [OF ok] by blast+
  show "seg_ok n (D(4 * b := dir_clear)) f cs fl lim"
  proof (rule seg_okI)
    fix b' assume b': "b' < n"
    show "chain (nx (D(4 * b := dir_clear))) (nx (D(4 * b := dir_clear)) (4 * b')) (cs b')"
      using seg_chain [OF ok b'] n(2) [OF b'] c by (cases "b' = b") auto
    show "dir_offset ((D(4 * b := dir_clear)) e) \<noteq> 0" if "e \<in> set (cs b')" for e
      using seg_used [OF ok b' that] n(2) [OF b'] that by auto
    show "cs b' = []" if "dir_offset ((D(4 * b := dir_clear)) (4 * b')) = 0"
      using that seg_empty [OF ok b'] c by (cases "b' = b") auto
    show "e \<notin> set (cs b'')" if "b'' < n" "b' \<noteq> b''" "e \<in> set (cs b')" for b'' e
      by (rule seg_disj [OF ok b' that])
    show "e \<notin> set fl \<and> e \<notin> lim" if "e \<in> set (cs b')" for e
      using seg_not_free [OF ok b' that] seg_not_lim [OF ok b' that] by simp
  next
    show "linked (nx (D(4 * b := dir_clear))) (pv (D(4 * b := dir_clear))) 0 fl 0"
      using seg_linked [OF ok] n(1) by simp
    show "dir_offset ((D(4 * b := dir_clear)) e) = 0" if "e \<in> set fl" for e
      using seg_free [OF ok that] by simp
  qed (rule seg_size [OF ok] seg_head [OF ok] seg_distinct [OF ok] seg_free_lim [OF ok] seg_cover [OF ok]; assumption?)+
  show "bucket_of (D(4 * b := dir_clear)) cs b' = bucket_of D cs b'" if "b' < n" "b' \<noteq> b"
  proof -
    have "4 * b \<notin> set (4 * b' # cs b')" using n(2) [OF that(1)] that(2) by simp
    then show ?thesis by (auto simp: bucket_of_def)
  qed
qed

lemma delete_entry_last:
  assumes ok: "vol_ok d s cs fl lim" and b: "b < buckets d" and c: "cs b = []"
    and del: "dir_delete_entry (4 * b) None s d = (d', r)"
  shows "vol_ok d' s cs fl lim \<and> delete_effect s b d cs d' cs \<and>
     dir_used d' = dir_used d \<and> r = None \<and> cursor d' s cs b [] []"
proof -
  note sok = ok [unfolded vol_ok_def]
  have "nx (dirs d s) (4 * b) = 0" using seg_chain [OF sok b] c by simp
  then have "next_dir d s (4 * b) = None" by (simp add: next_dir_def nx_def)
  then have d': "d' = upd s (4 * b) (\<lambda>_. dir_clear) (d\<lparr>dirty := True\<rparr>)" "r = None"
    using del by (auto simp: dir_delete_entry_def)
  have os: "only_seg s d d'" by (simp add: d')
  have "seg_ok (buckets d) (dirs d' s) (freelist_head d' s) cs fl lim"
    using seg_ok_clear_head(1) [OF sok b c] by (simp add: d'(1))
  then show ?thesis
    using seg_ok_clear_head(2) [OF sok b c] os c d'(2) only_seg_buckets [OF os]
    by (simp add: vol_ok_def delete_effect_def cursor_def d'(1))
qed


lemma delete_entry_ok:
  assumes ok: "vol_ok d s cs fl lim" and b: "b < buckets d" and pos: "pre @ e # rest = 4 * b # cs b"
    and del: "dir_delete_entry e (pred_of pre) s d = (d', r)"
  shows "\<exists>cs' fl' rest'. vol_ok d' s cs' fl' lim \<and> delete_effect s b d cs d' cs' \<and>
     (fl' = [] \<longrightarrow> fl = [] \<and> pre = [] \<and> rest = []) \<and>
     dir_used d' = dir_used d \<and> r = first_of rest' \<and> cursor d' s cs' b pre rest' \<and>
     map (\<lambda>e. payload (dirs d' s e)) pre = map (\<lambda>e. payload (dirs d s e)) pre \<and>
     map (\<lambda>e. payload (dirs d' s e)) rest' = map (\<lambda>e. payload (dirs d s e)) rest"
proof (cases pre rule: rev_cases)
  case (snoc ys q)
  have "(ys @ [q]) @ e # rest = 4 * b # cs b" "dir_delete_entry e (Some q) s d = (d', r)"
    using pos del snoc by (simp_all add: pred_of_def)
  from delete_entry_linked [OF ok b this] obtain cs' fl' where
    "vol_ok d' s cs' fl' lim" "delete_effect s b d cs d' cs'" "fl' \<noteq> []"
    "dir_used d' = dir_used d" "r = first_of rest" "cursor d' s cs' b (ys @ [q]) rest"
    "\<forall>x \<in> set ((ys @ [q]) @ rest). payload (dirs d' s x) = payload (dirs d s x)"
    by (elim exE conjE) (rule that)
  then show ?thesis
    unfolding snoc by (intro exI [of _ cs'] exI [of _ fl'] exI [of _ rest]) simp
next
  case Nil
  with pos have e: "e = 4 * b" "rest = cs b" by simp_all
  with del Nil have del': "dir_delete_entry (4 * b) None s d = (d', r)" by (simp add: pred_of_def)
  show ?thesis
  proof (cases rest)
    case r: Nil
    from delete_entry_last [OF ok b _ del'] e r Nil show ?thesis
      by (intro exI [of _ cs] exI [of _ fl] exI [of _ "[]"]) (simp add: first_of_def)
  next
    case (Cons x ys)
    from delete_entry_head [OF ok b _ del', of x ys] e Cons obtain cs' fl' where
      "vol_ok d' s cs' fl' lim" "delete_effect s b d cs d' cs'" "fl' \<noteq> []"
      "dir_used d' = dir_used d" "r = Some (4 * b)" "cursor d' s cs' b [] (4 * b # ys)"
      "map (\<lambda>e. payload (dirs d' s e)) (4 * b # ys) = map (\<lambda>e. payload (dirs d s e)) (x # ys)"
      by auto
    then show ?thesis
      unfolding Nil Cons
      by (intro exI [of _ cs'] exI [of _ fl'] exI [of _ "4 * b # ys"]) (simp add: first_of_def)
  qed
qed

section \<open>Cleaning a bucket\<close>

lemma next_dir_rest:
  assumes ok: "vol_ok d s cs fl lim" and b: "b < buckets d" and pos: "pre @ e # rest = 4 * b # cs b"
  shows "next_dir d s e = first_of rest"
proof -
  note sok = ok [unfolded vol_ok_def]
  have c: "chain (nx (dirs d s)) (nx (dirs d s) (4 * b)) (cs b)" by (rule seg_chain [OF sok b])
  have "chain (nx (dirs d s)) (nx (dirs d s) e) rest"
  proof (cases pre)
    case Nil
    then show ?thesis using c pos by simp
  next
    case (Cons x ys)
    then have "chain (nx (dirs d s)) (nx (dirs d s) (4 * b)) (ys @ e # rest)" using c pos by simp
    then show ?thesis using chain_suffix by fastforce
  qed
  then show ?thesis
    by (cases rest) (auto simp: next_dir_def nx_def first_of_def)
qed

lemma vol_ok_cong:
  "dirs d' s = dirs d s \<Longrightarrow> freelist_head d' s = freelist_head d s \<Longrightarrow> buckets d' = buckets d \<Longrightarrow>
   vol_ok d' s cs fl lim = vol_ok d s cs fl lim"
  by (simp add: vol_ok_def)

lemma buckets_flags [simp]: "buckets (add_used k d) = buckets d" "buckets (count_collision h d) = buckets d"
  "buckets (upd s e f d) = buckets d" "buckets (set_freelist s v d) = buckets d"
  by (simp_all add: add_used_def count_collision_def upd_def set_freelist_def)

lemma vol_ok_flags [simp]: "vol_ok (add_used k d) s = vol_ok d s" "vol_ok (count_collision h d) s = vol_ok d s"
  "vol_ok (d\<lparr>dirty := x\<rparr>) s = vol_ok d s"
  by (simp_all add: vol_ok_def fun_eq_iff)

lemma delete_effect_flags [simp]:
  "delete_effect s b (add_used k d) cs = delete_effect s b d cs"
  "delete_effect s b (count_collision h d) cs = delete_effect s b d cs"
proof -
  have "only_seg s (add_used k d) d' = only_seg s d d'" "only_seg s (count_collision h d) d' = only_seg s d d'" for d'
    by (auto simp: only_seg_def geometry_def add_used_def count_collision_def)
  then show "delete_effect s b (add_used k d) cs = delete_effect s b d cs"
    "delete_effect s b (count_collision h d) cs = delete_effect s b d cs"
    by (auto simp: delete_effect_def fun_eq_iff)
qed

definition live :: "vol \<Rightarrow> dir \<Rightarrow> bool" where
  "live d x \<longleftrightarrow> dir_valid d x \<and> dir_offset x \<noteq> 0"

definition stale :: "vol \<Rightarrow> dir \<Rightarrow> bool" where
  "stale d x \<longleftrightarrow> \<not> dir_valid d x \<and> dir_offset x \<noteq> 0"

lemma clean_chain_ok:
  assumes "vol_ok d s cs fl lim" "b < buckets d" "pre @ e # rest = 4 * b # cs b"
  shows "\<exists>d' cs' fl'. clean_chain e (pred_of pre) s d = Some d' \<and> vol_ok d' s cs' fl' lim \<and>
     delete_effect s b d cs d' cs' \<and> (fl' = [] \<longrightarrow> fl = []) \<and>
     dir_used d' = dir_used d - int (length (filter (stale d) (map (\<lambda>e. payload (dirs d s e)) (e # rest)))) \<and>
     bucket_of (dirs d' s) cs' b = map (\<lambda>e. payload (dirs d s e)) pre @
       filter (live d) (map (\<lambda>e. payload (dirs d s e)) (e # rest))"
  using assms
proof (induction "length rest" arbitrary: d cs fl pre e rest rule: less_induct)
  case less
  note ok = less.prems(1) and b = less.prems(2) and pos = less.prems(3)
  let ?P = "\<lambda>e. payload (dirs d s e)"
  show ?case
  proof (cases "live d (?P e)")
    case True
    then have v: "dir_valid d (dirs d s e)" "dir_offset (dirs d s e) \<noteq> 0" by (simp_all add: live_def)
    note n = next_dir_rest [OF ok b pos]
    show ?thesis
    proof (cases rest)
      case Nil
      have "dir_offset (dirs d s (4 * b)) \<noteq> 0"
        using pos Nil v(2) seg_empty [OF ok [unfolded vol_ok_def] b] by (cases pre) auto
      then have "bucket_of (dirs d s) cs b = map ?P (pre @ [e])"
        using pos Nil unfolding bucket_of_def by simp
      then show ?thesis
        using v n Nil True ok
        by (intro exI [of _ d] exI [of _ cs] exI [of _ fl])
          (simp add: first_of_def stale_def clean_chain.simps)
    next
      case (Cons x ys)
      have pos': "(pre @ [e]) @ x # ys = 4 * b # cs b" using pos Cons by simp
      have "clean_chain e (pred_of pre) s d = clean_chain x (pred_of (pre @ [e])) s d"
        using v n Cons by (subst clean_chain.simps) (simp add: first_of_def pred_of_def)
      moreover from less.hyps [OF _ ok b pos'] Cons obtain d' cs' fl' where
        "clean_chain x (pred_of (pre @ [e])) s d = Some d'" "vol_ok d' s cs' fl' lim"
        "delete_effect s b d cs d' cs'" "fl' = [] \<longrightarrow> fl = []"
        "dir_used d' = dir_used d - int (length (filter (stale d) (map ?P (x # ys))))"
        "bucket_of (dirs d' s) cs' b = map ?P (pre @ [e]) @ filter (live d) (map ?P (x # ys))"
        by auto
      ultimately show ?thesis
        using True Cons
        by (intro exI [of _ d'] exI [of _ cs'] exI [of _ fl']) (simp add: stale_def live_def)
    qed
  next
    case False
    then have v: "\<not> dir_valid d (dirs d s e) \<or> dir_offset (dirs d s e) = 0" by (auto simp: live_def)
    define d1 where "d1 = (if dir_offset (ent d s e) \<noteq> 0 then add_used (- 1) d else d)"
    obtain d2 r where del: "dir_delete_entry e (pred_of pre) s d1 = (d2, r)" by fastforce
    have ok1: "vol_ok d1 s cs fl lim" and b1: "b < buckets d1" and d1: "dirs d1 = dirs d"
      and eff1: "delete_effect s b d1 cs = delete_effect s b d cs"
      and used1: "dir_used d1 = dir_used d - (if stale d (?P e) then 1 else 0)"
      using ok b v by (auto simp: d1_def stale_def)
    from delete_entry_ok [OF ok1 b1 pos del] obtain cs2 fl2 rest2 where
      2: "vol_ok d2 s cs2 fl2 lim" "delete_effect s b d1 cs d2 cs2" "fl2 = [] \<longrightarrow> fl = []"
      "dir_used d2 = dir_used d1" "r = first_of rest2" "cursor d2 s cs2 b pre rest2"
      "map (\<lambda>e. payload (dirs d2 s e)) pre = map ?P pre"
      "map (\<lambda>e. payload (dirs d2 s e)) rest2 = map ?P rest"
      unfolding d1 by blast
    have eff2: "delete_effect s b d cs d2 cs2" using 2(2) eff1 by simp
    then have os: "only_seg s d d2" by (simp add: delete_effect_def)
    note bu = only_seg_buckets [OF os]
    have val: "dir_valid d2 = dir_valid d" by (rule only_seg_valid [OF os])
    then have lv: "live d2 = live d" "stale d2 = stale d" by (auto simp: live_def stale_def fun_eq_iff)
    have unf: "clean_chain e (pred_of pre) s d =
        (case r of None \<Rightarrow> Some d2 | Some n \<Rightarrow> clean_chain n (pred_of pre) s d2)"
      using v del by (subst clean_chain.simps) (simp add: d1_def [symmetric])
    show ?thesis
    proof (cases rest2)
      case Nil
      have "bucket_of (dirs d2 s) cs2 b = map ?P pre"
        using cursor_bucket [OF 2(6)] Nil 2(7) by simp
      moreover have "rest = []" using 2(8) Nil by simp
      ultimately show ?thesis
        using unf Nil 2(1,3,4,5) eff2 used1 False
        by (intro exI [of _ d2] exI [of _ cs2] exI [of _ fl2]) (simp add: first_of_def)
    next
      case (Cons x ys)
      have pos2: "pre @ x # ys = 4 * b # cs2 b" using 2(6) Cons by (simp add: cursor_def)
      have "length rest2 = length rest" using 2(8) map_eq_imp_length_eq by blast
      then have l: "length ys < length rest" using Cons by simp
      have b2: "b < buckets d2" using b bu by simp
      from less.hyps [OF l 2(1) b2 pos2] obtain d' cs' fl' where
        "clean_chain x (pred_of pre) s d2 = Some d'" "vol_ok d' s cs' fl' lim"
        "delete_effect s b d2 cs2 d' cs'" "fl' = [] \<longrightarrow> fl2 = []"
        "dir_used d' = dir_used d2 - int (length (filter (stale d) (map ?P rest)))"
        "bucket_of (dirs d' s) cs' b = map ?P pre @ filter (live d) (map ?P rest)"
        unfolding lv 2(7) 2(8) [symmetric] Cons by blast
      moreover from this have "delete_effect s b d cs d' cs'" using delete_effect_trans [OF eff2] by blast
      ultimately show ?thesis
        using unf Cons 2(3,4,5) used1 False
        by (intro exI [of _ d'] exI [of _ cs'] exI [of _ fl']) (simp add: first_of_def)
    qed
  qed
qed


section \<open>The free list\<close>

lemma seg_ok_freelist:
  assumes ok: "seg_ok n D f cs fl lim" and out: "\<And>x. x \<notin> set fl \<Longrightarrow> D' x = D x"
    and off: "\<And>x. x \<in> set fl' \<Longrightarrow> dir_offset (D' x) = 0" and sub: "set fl' \<subseteq> set fl"
    and l: "linked (nx D') (pv D') 0 fl' 0" "distinct fl'" "f' = hd0 fl' 0"
    and lim: "lim' = lim \<union> (set fl - set fl')"
  shows "seg_ok n D' f' cs fl' lim'" "b < n \<Longrightarrow> bucket_of D' cs b = bucket_of D cs b"
proof -
  have same: "D' (4 * b) = D (4 * b)" "x \<in> set (cs b) \<Longrightarrow> D' x = D x" if "b < n" for b x
    using out seg_not_head(1) [OF ok, of b] seg_not_free [OF ok that] by blast+
  show "seg_ok n D' f' cs fl' lim'"
  proof (rule seg_okI)
    fix b assume b: "b < n"
    show "chain (nx D') (nx D' (4 * b)) (cs b)"
      by (rule seg_chain_frame [OF ok b]) (use same [OF b] in \<open>auto simp: nx_def\<close>)
    show "dir_offset (D' e) \<noteq> 0" if "e \<in> set (cs b)" for e
      using seg_used [OF ok b that] same(2) [OF b that] by simp
    show "cs b = []" if "dir_offset (D' (4 * b)) = 0"
      using seg_empty [OF ok b] that same(1) [OF b] by simp
    show "e \<notin> set (cs b')" if "b' < n" "b \<noteq> b'" "e \<in> set (cs b)" for b' e
      by (rule seg_disj [OF ok b that])
    show "e \<notin> set fl' \<and> e \<notin> lim'" if "e \<in> set (cs b)" for e
      using seg_not_free [OF ok b that] seg_not_lim [OF ok b that] sub lim by blast
  next
    show "e \<notin> lim'" if "e \<in> set fl'" for e
      using seg_free_lim [OF ok] that sub lim by blast
    show "links_of n = set fl' \<union> lim' \<union> (\<Union>b<n. set (cs b))"
      using seg_cover [OF ok] sub lim by blast
  qed (rule seg_size [OF ok] l off; assumption?)+
  show "bucket_of D' cs b = bucket_of D cs b" if "b < n"
    using same [OF that] by (simp add: bucket_of_def)
qed

lemma free_links:
  assumes "linked (nx D) (pv D) 0 (as @ e # bs) 0" "distinct (as @ e # bs)"
  shows "dir_prev (D e) = last0 0 as" "dir_next (D e) = hd0 bs 0" "0 \<notin> set (as @ e # bs)"
  using assms linked_nonzero [OF assms(1)] by (auto simp: linked_append nx_def pv_def)

definition unlinked :: "nat \<Rightarrow> (nat \<Rightarrow> dir) \<Rightarrow> (nat \<Rightarrow> dir)" where
  "unlinked e D =
     (let p = dir_prev (D e); m = dir_next (D e);
          D1 = (if p \<noteq> 0 then D(p := dir_set_next m (D p)) else D)
      in if m \<noteq> 0 then D1(m := dir_set_prev p (D1 m)) else D1)"

lemma linked_unlinked:
  assumes "linked (nx D) (pv D) 0 (as @ e # bs) 0" "distinct (as @ e # bs)"
    "\<forall>x \<in> set (as @ e # bs). x < 65536"
  shows "linked (nx (unlinked e D)) (pv (unlinked e D)) 0 (as @ bs) 0"
  using assms free_links [OF assms(1,2)]
  by (cases as rule: rev_cases; cases bs) (auto simp: unlinked_def Let_def linked_append nx_def [symmetric] pv_def [symmetric])

lemma unlinked_offset [simp]: "dir_offset (unlinked e D x) = dir_offset (D x)"
  by (simp add: unlinked_def Let_def)

lemma unlinked_frame: "x \<noteq> dir_prev (D e) \<or> x = 0 \<Longrightarrow> x \<noteq> dir_next (D e) \<or> x = 0 \<Longrightarrow> unlinked e D x = D x"
  by (auto simp: unlinked_def Let_def)

lemma seg_ok_unlinked:
  assumes ok: "seg_ok n D f cs (as @ e # bs) lim"
  shows "seg_ok n (unlinked e D) (hd0 (as @ bs) 0) cs (as @ bs) (insert e lim)"
    "b < n \<Longrightarrow> bucket_of (unlinked e D) cs b = bucket_of D cs b"
proof -
  note l = seg_linked [OF ok] seg_distinct [OF ok]
  note f = free_links [OF l]
  have out: "unlinked e D x = D x" if "x \<notin> set (as @ e # bs)" for x
    using that f(1,2) by (intro unlinked_frame) (auto simp: last0_def hd0_def)
  have bd: "\<forall>x \<in> set (as @ e # bs). x < 65536" using seg_bound(1) [OF ok] by blast
  have lim: "insert e lim = lim \<union> (set (as @ e # bs) - set (as @ bs))" using l(2) by auto
  note r = seg_ok_freelist [OF ok out _ _ linked_unlinked [OF l bd] _ refl lim]
  show "seg_ok n (unlinked e D) (hd0 (as @ bs) 0) cs (as @ bs) (insert e lim)"
    using seg_free [OF ok] l(2) by (intro r(1)) auto
  show "b < n \<Longrightarrow> bucket_of (unlinked e D) cs b = bucket_of D cs b"
    using seg_free [OF ok] l(2) by (intro r(2)) auto
qed

lemma unlink_from_freelist_ok:
  assumes ok: "vol_ok d s cs (as @ e # bs) lim"
  shows "vol_ok (unlink_from_freelist e s d) s cs (as @ bs) (insert e lim)"
    "only_seg s d (unlink_from_freelist e s d)" "dir_used (unlink_from_freelist e s d) = dir_used d"
    "b < buckets d \<Longrightarrow> bucket_of (dirs (unlink_from_freelist e s d) s) cs b = bucket_of (dirs d s) cs b"
proof -
  note sok = ok [unfolded vol_ok_def]
  note l = seg_linked [OF sok] seg_distinct [OF sok]
  note f = free_links [OF l]
  have n0: "dir_next (dirs d s e) < 65536" by (rule dir_next_bound)
  have p: "dir_prev (dirs d s e) \<noteq> e" "dir_prev (dirs d s e) = 0 \<longleftrightarrow> as = []"
    using f l(2) by (cases as rule: rev_cases; auto)+
  have n: "dir_next (dirs d s e) \<noteq> e" using f l(2) by (cases bs) auto
  have fl: "freelist_head d s = hd0 (as @ e # bs) 0" by (rule seg_head [OF sok])
  have D: "dirs (unlink_from_freelist e s d) s = unlinked e (dirs d s)"
    using p(1) n n0 by (simp add: unlink_from_freelist_def unlinked_def Let_def dir_from_offset_def)
  have F: "freelist_head (unlink_from_freelist e s d) s = hd0 (as @ bs) 0"
    using p n n0 f(2) fl
    by (cases as) (auto simp: unlink_from_freelist_def Let_def dir_from_offset_def)
  have os: "only_seg s d (unlink_from_freelist e s d)"
    by (simp add: unlink_from_freelist_def Let_def dir_from_offset_def)
  then show "only_seg s d (unlink_from_freelist e s d)" .
  show "vol_ok (unlink_from_freelist e s d) s cs (as @ bs) (insert e lim)"
    using seg_ok_unlinked(1) [OF sok] unfolding vol_ok_def D F only_seg_buckets [OF os] .
  show "dir_used (unlink_from_freelist e s d) = dir_used d"
    by (simp add: unlink_from_freelist_def Let_def dir_from_offset_def)
  show "b < buckets d \<Longrightarrow> bucket_of (dirs (unlink_from_freelist e s d) s) cs b = bucket_of (dirs d s) cs b"
    unfolding D by (rule seg_ok_unlinked(2) [OF sok])
qed

lemma freelist_pop_ok:
  assumes ok: "vol_ok d s cs (e # bs) lim"
  shows "\<exists>d'. freelist_pop s d = Some (d', Some e) \<and> vol_ok d' s cs bs (insert e lim) \<and>
    only_seg s d d' \<and> dir_used d' = dir_used d \<and>
    (\<forall>b < buckets d. bucket_of (dirs d' s) cs b = bucket_of (dirs d s) cs b)"
proof -
  note sok = ok [unfolded vol_ok_def]
  have l: "linked (nx (dirs d s)) (pv (dirs d s)) 0 ([] @ e # bs) 0" "distinct ([] @ e # bs)"
    using seg_linked [OF sok] seg_distinct [OF sok] by simp_all
  note f = free_links [OF l]
  have h: "freelist_head d s = e" "0 < e" using seg_head [OF sok] seg_bound(1) [OF sok, of e] by simp_all
  have o: "dir_offset (dirs d s e) = 0" using seg_free [OF sok] by simp
  have n0: "dir_next (dirs d s e) < 65536" by (rule dir_next_bound)
  define d1 where "d1 = set_freelist s (dir_next (ent d s e)) d"
  define d' where "d' = (if dir_next (ent d s e) \<noteq> 0 then upd s (dir_next (ent d s e)) (dir_set_prev 0) d1 else d1)"
  have pop: "freelist_pop s d = Some (d', Some e)"
    using h o n0 by (simp add: freelist_pop_def Let_def d'_def d1_def dir_from_offset_def)
  have D: "dirs d' s = unlinked e (dirs d s)"
    using f(1) by (simp add: d'_def d1_def unlinked_def Let_def)
  have F: "freelist_head d' s = hd0 bs 0" using n0 f(2) by (simp add: d'_def d1_def)
  have os: "only_seg s d d'" by (simp add: d'_def d1_def)
  have "seg_ok (buckets d) (dirs d s) (freelist_head d s) cs ([] @ e # bs) lim" using sok by simp
  note u = seg_ok_unlinked [OF this]
  have "vol_ok d' s cs bs (insert e lim)"
    using u(1) unfolding vol_ok_def D F only_seg_buckets [OF os] by simp
  then show ?thesis
    using pop os u(2) unfolding D [symmetric] by (intro exI [of _ d']) (simp add: d'_def d1_def)
qed

section \<open>Adding an entry\<close>

lemma seg_ok_fill:
  assumes ok: "seg_ok n D f cs fl lim" and b: "b < n" and e: "e = 4 * b \<or> e \<in> set (cs b)"
    and v: "dir_next v = dir_next (D e)" "dir_offset v \<noteq> 0"
  shows "seg_ok n (D(e := v)) f cs fl lim"
    "b' < n \<Longrightarrow> b' \<noteq> b \<Longrightarrow> bucket_of (D(e := v)) cs b' = bucket_of D cs b'"
proof -
  have ef: "e \<notin> set fl" using e seg_not_free [OF ok b] seg_not_head(1) [OF ok, of b] by blast
  have nx: "nx (D(e := v)) = nx D" using v(1) by (auto simp: nx_def)
  have oth: "e \<noteq> 4 * b' \<and> e \<notin> set (cs b')" if "b' < n" "b' \<noteq> b" for b'
    using seg_other [OF ok b e that] by blast
  show "seg_ok n (D(e := v)) f cs fl lim"
  proof (rule seg_okI)
    fix b' assume b': "b' < n"
    show "chain (nx (D(e := v))) (nx (D(e := v)) (4 * b')) (cs b')"
      unfolding nx by (rule seg_chain [OF ok b'])
    show "dir_offset ((D(e := v)) x) \<noteq> 0" if "x \<in> set (cs b')" for x
      using seg_used [OF ok b' that] v(2) by simp
    show "cs b' = []" if "dir_offset ((D(e := v)) (4 * b')) = 0"
      using that seg_empty [OF ok b'] v(2) by (simp split: if_splits)
    show "x \<notin> set (cs b'')" if "b'' < n" "b' \<noteq> b''" "x \<in> set (cs b')" for b'' x
      by (rule seg_disj [OF ok b' that])
    show "x \<notin> set fl \<and> x \<notin> lim" if "x \<in> set (cs b')" for x
      using seg_not_free [OF ok b' that] seg_not_lim [OF ok b' that] by simp
  next
    show "linked (nx (D(e := v))) (pv (D(e := v))) 0 fl 0"
      using seg_linked [OF ok] ef by simp
    show "dir_offset ((D(e := v)) x) = 0" if "x \<in> set fl" for x
      using seg_free [OF ok that] ef that by auto
  qed (rule seg_size [OF ok] seg_head [OF ok] seg_distinct [OF ok] seg_free_lim [OF ok] seg_cover [OF ok]; assumption?)+
  show "bucket_of (D(e := v)) cs b' = bucket_of D cs b'" if "b' < n" "b' \<noteq> b"
    using oth [OF that] by (auto simp: bucket_of_def)
qed

lemma seg_ok_link:
  assumes ok: "seg_ok n D f cs fl lim" and b: "b < n" and e: "e \<in> lim"
    and h: "dir_offset (D (4 * b)) \<noteq> 0" and v: "dir_next v = dir_next (D (4 * b))" "dir_offset v \<noteq> 0"
    and w: "dir_next w = e" "dir_offset w \<noteq> 0"
  defines "D' \<equiv> D(4 * b := w, e := v)"
  shows "seg_ok n D' f (cs(b := e # cs b)) fl (lim - {e})"
    "b' < n \<Longrightarrow> bucket_of D' (cs(b := e # cs b)) b' =
      (if b' = b then payload w # payload v # map (\<lambda>e. payload (D e)) (cs b) else bucket_of D cs b')"
proof -
  have eh: "e \<noteq> 4 * b'" for b' using e seg_not_head(2) [OF ok] by blast
  have ec: "b' < n \<Longrightarrow> e \<notin> set (cs b')" for b' using e seg_not_lim [OF ok] by blast
  have ef: "e \<notin> set fl" using e seg_free_lim [OF ok] by blast
  have e0: "0 < e" using seg_bound(2) [OF ok e] by blast
  have hc: "b' < n \<Longrightarrow> 4 * b \<notin> set (cs b')" for b' by (rule seg_not_head(3) [OF ok])
  have hf: "4 * b \<notin> set fl" by (rule seg_not_head(1) [OF ok])
  define cs' where "cs' = cs(b := e # cs b)"
  have cs'b: "cs' b = e # cs b" "\<And>b'. b' \<noteq> b \<Longrightarrow> cs' b' = cs b'" by (auto simp: cs'_def)
  have sub: "x \<in> set (cs' b') \<longleftrightarrow> x \<in> set (cs b') \<or> b' = b \<and> x = e" for b' x
    by (cases "b' = b") (auto simp: cs'b)
  have "seg_ok n D' f cs' fl (lim - {e})"
  proof (rule seg_okI)
    fix b' assume b': "b' < n"
    show "chain (nx D') (nx D' (4 * b')) (cs' b')"
    proof (cases "b' = b")
      case True
      then show ?thesis using seg_chain [OF ok b] eh [of b] ec [OF b] hc [OF b] e0 v(1) w(1)
        by (simp add: D'_def cs'b nx_def)
    next
      case False
      then show ?thesis using seg_chain [OF ok b'] eh [of b'] ec [OF b'] hc [OF b']
        by (simp add: D'_def cs'b)
    qed
    show "dir_offset (D' x) \<noteq> 0" if "x \<in> set (cs' b')" for x
      using that sub [of x b'] seg_used [OF ok b', of x] v(2) w(2) by (auto simp: D'_def)
    show "cs' b' = []" if "dir_offset (D' (4 * b')) = 0"
      using that seg_empty [OF ok b'] eh [of b'] w(2) by (cases "b' = b") (auto simp: D'_def cs'b)
    show "x \<notin> set (cs' b'')" if "b'' < n" "b' \<noteq> b''" "x \<in> set (cs' b')" for b'' x
      using that(3) sub [of x b'] sub [of x b''] seg_disj [OF ok b' that(1,2), of x] ec [OF b'] ec [OF that(1)] that(2)
      by auto
    show "x \<notin> set fl \<and> x \<notin> lim - {e}" if "x \<in> set (cs' b')" for x
      using that sub [of x b'] seg_not_free [OF ok b', of x] seg_not_lim [OF ok b', of x] ef by auto
  next
    show "linked (nx D') (pv D') 0 fl 0" using seg_linked [OF ok] ef hf by (simp add: D'_def)
    show "dir_offset (D' x) = 0" if "x \<in> set fl" for x
      using seg_free [OF ok that] ef hf that by (auto simp: D'_def)
    show "x \<notin> lim - {e}" if "x \<in> set fl" for x using seg_free_lim [OF ok that] by blast
    have "(\<Union>b<n. set (cs' b)) = insert e (\<Union>b<n. set (cs b))" using sub b by auto
    then show "links_of n = set fl \<union> (lim - {e}) \<union> (\<Union>b<n. set (cs' b))"
      using seg_cover [OF ok] e by auto
  qed (rule seg_size [OF ok] seg_head [OF ok] seg_distinct [OF ok])+
  then show "seg_ok n D' f (cs(b := e # cs b)) fl (lim - {e})" by (simp add: cs'_def)
  show "bucket_of D' (cs(b := e # cs b)) b' =
      (if b' = b then payload w # payload v # map (\<lambda>e. payload (D e)) (cs b) else bucket_of D cs b')"
    if "b' < n"
  proof (cases "b' = b")
    case True
    have "x \<noteq> e \<and> x \<noteq> 4 * b" if "x \<in> set (cs b)" for x using ec [OF b] hc [OF b] that by auto
    then have "map (\<lambda>x. payload (D' x)) (cs b) = map (\<lambda>x. payload (D x)) (cs b)"
      by (intro map_cong) (auto simp: D'_def)
    then show ?thesis using True eh [of b] w(2) by (simp add: bucket_of_def D'_def)
  next
    case False
    have "x \<noteq> e \<and> x \<noteq> 4 * b" if "x \<in> set (4 * b' # cs b')" for x
      using ec [OF \<open>b' < n\<close>] hc [OF \<open>b' < n\<close>] that False eh [of b'] by auto
    then show ?thesis using False by (auto simp: bucket_of_def D'_def)
  qed
qed


end
