(* ===== verification/CacheDirSpec.thy ===== *)
theory CacheDirSpec
  imports CacheDirShape
begin

text \<open>
  What the directory operations do to the contents of the buckets: a segment is the list of the
  entries of each bucket (without their links), and insertion, deletion, lookup and cleaning are
  operations on those lists.
\<close>

section \<open>Tags\<close>

lemma tag_mask16: "(push_bit DIR_TAG_WIDTH 1 - 1 :: u16) = mask 12"
  by (simp add: DIR_TAG_WIDTH_def mask_eq_exp_minus_1 push_bit_eq_mult)

lemma tag_mask32: "(push_bit DIR_TAG_WIDTH 1 - 1 :: u32) = mask 12"
  by (simp add: DIR_TAG_WIDTH_def mask_eq_exp_minus_1 push_bit_eq_mult)

lemma dir_tag_set_tag [simp]: "dir_tag (dir_set_tag t e) = DIR_MASK_TAG t"
  unfolding dir_tag_def dir_set_tag_def DIR_MASK_TAG_def tag_mask16 tag_mask32
  by (rule bit_word_eqI) (auto simp: bit_simps)

lemma dir_phase_set_tag [simp]: "dir_phase (dir_set_tag t e) = dir_phase e"
  unfolding dir_phase_def dir_bit_def dir_set_tag_def tag_mask32
  by (rule bit_word_eqI) (auto simp: bit_simps)

lemma DIR_MASK_TAG_idem [simp]: "DIR_MASK_TAG (DIR_MASK_TAG t) = DIR_MASK_TAG t"
  by (simp add: DIR_MASK_TAG_def and.assoc)


lemma dir_valid_set_tag [simp]: "dir_valid d (dir_set_tag t e) = dir_valid d e"
  by (simp add: dir_valid_def vol_in_phase_valid_def vol_out_of_phase_valid_def)

section \<open>A segment as lists of entries\<close>

definition seg_rep :: "vol \<Rightarrow> nat \<Rightarrow> (nat \<Rightarrow> dir list) \<Rightarrow> nat list \<Rightarrow> bool" where
  "seg_rep d s B fl \<longleftrightarrow>
     (\<exists>cs. vol_ok d s cs fl {} \<and> (\<forall>b < buckets d. B b = bucket_of (dirs d s) cs b))"

lemma seg_rep_flags [simp]:
  "seg_rep (add_used k d) s = seg_rep d s" "seg_rep (d\<lparr>dirty := x\<rparr>) s = seg_rep d s"
  "seg_rep (count_collision h d) s = seg_rep d s"
  by (simp_all add: seg_rep_def fun_eq_iff)

lemma seg_rep_effect:
  assumes "delete_effect s b d cs d' cs'" "vol_ok d' s cs' fl' {}" "bucket_of (dirs d' s) cs' b = X"
    "\<forall>b < buckets d. B b = bucket_of (dirs d s) cs b"
  shows "seg_rep d' s (B(b := X)) fl'"
proof -
  have bu: "buckets d' = buckets d" using assms(1) by (auto simp: delete_effect_def intro: only_seg_buckets)
  show ?thesis
    unfolding seg_rep_def
    by (rule exI [of _ cs']) (use assms bu in \<open>auto simp: delete_effect_def\<close>)
qed

lemma bucket_head:
  assumes "vol_ok d s cs fl lim" "b < buckets d"
  shows "bucket_of (dirs d s) cs b = [] \<longleftrightarrow> dir_offset (dirs d s (4 * b)) = 0"
    "filter (live d') (map (\<lambda>e. payload (dirs d s e)) (4 * b # cs b)) = filter (live d') (bucket_of (dirs d s) cs b)"
    "filter (stale d') (map (\<lambda>e. payload (dirs d s e)) (4 * b # cs b)) = filter (stale d') (bucket_of (dirs d s) cs b)"
  using seg_empty [OF assms(1) [unfolded vol_ok_def] assms(2)]
  by (auto simp: bucket_of_def live_def stale_def)

lemma clean_bucket_rep:
  assumes rep: "seg_rep d s B fl" and b: "b < buckets d"
  shows "\<exists>d' fl'. dir_clean_bucket (dir_bucket b) s d = Some d' \<and>
     seg_rep d' s (B(b := filter (live d) (B b))) fl' \<and> only_seg s d d' \<and> (fl' = [] \<longrightarrow> fl = []) \<and>
     dir_used d' = dir_used d - int (length (filter (stale d) (B b)))"
proof -
  from rep obtain cs where ok: "vol_ok d s cs fl {}" and B: "\<forall>b < buckets d. B b = bucket_of (dirs d s) cs b"
    unfolding seg_rep_def by blast
  have "[] @ 4 * b # cs b = 4 * b # cs b" by simp
  from clean_chain_ok [OF ok b this] obtain d' cs' fl' where
    1: "clean_chain (4 * b) None s d = Some d'" "vol_ok d' s cs' fl' {}" "delete_effect s b d cs d' cs'"
    "fl' = [] \<longrightarrow> fl = []"
    "dir_used d' = dir_used d - int (length (filter (stale d) (B b)))"
    "bucket_of (dirs d' s) cs' b = filter (live d) (B b)"
    unfolding bucket_head [OF ok b] using B b by (auto simp: pred_of_def)
  show ?thesis
    using 1 seg_rep_effect [OF 1(3,2,6) B]
    by (intro exI [of _ d'] exI [of _ fl'])
      (simp add: dir_clean_bucket_def dir_bucket_def DIR_DEPTH_def delete_effect_def mult.commute)
qed

lemma live_only_seg: "only_seg s d d' \<Longrightarrow> live d' = live d \<and> stale d' = stale d"
  by (auto simp: live_def stale_def fun_eq_iff dest: only_seg_valid)

lemma clean_buckets_rep:
  "seg_rep d s B fl \<Longrightarrow> set is \<subseteq> {..<buckets d} \<Longrightarrow> distinct is \<Longrightarrow>
   \<exists>d' fl'. clean_buckets is s d = Some d' \<and>
     seg_rep d' s (\<lambda>b. if b \<in> set is then filter (live d) (B b) else B b) fl' \<and> only_seg s d d' \<and>
     (fl' = [] \<longrightarrow> fl = []) \<and>
     dir_used d' = dir_used d - (\<Sum>b \<leftarrow> is. int (length (filter (stale d) (B b))))"
proof (induction "is" arbitrary: d B fl)
  case Nil
  then show ?case by auto
next
  case (Cons i js)
  from Cons.prems have i: "i < buckets d" by simp
  from clean_bucket_rep [OF Cons.prems(1) i] obtain d1 fl1 where
    1: "dir_clean_bucket (dir_bucket i) s d = Some d1" "seg_rep d1 s (B(i := filter (live d) (B i))) fl1"
    "only_seg s d d1" "fl1 = [] \<longrightarrow> fl = []"
    "dir_used d1 = dir_used d - int (length (filter (stale d) (B i)))" by blast
  note lv = live_only_seg [OF 1(3)]
  have "set js \<subseteq> {..<buckets d1}" "distinct js" using Cons.prems only_seg_buckets [OF 1(3)] by auto
  from Cons.IH [OF 1(2) this, unfolded lv [THEN conjunct1] lv [THEN conjunct2]] obtain d' fl' where
    2: "clean_buckets js s d1 = Some d'"
    "seg_rep d' s (\<lambda>b. if b \<in> set js then filter (live d) ((B(i := filter (live d) (B i))) b)
                       else (B(i := filter (live d) (B i))) b) fl'"
    "only_seg s d1 d'" "fl' = [] \<longrightarrow> fl1 = []"
    "dir_used d' = dir_used d1 - (\<Sum>b \<leftarrow> js. int (length (filter (stale d) ((B(i := filter (live d) (B i))) b))))"
    by blast
  have "i \<notin> set js" using Cons.prems by simp
  then have "(\<lambda>b. if b \<in> set js then filter (live d) ((B(i := filter (live d) (B i))) b)
                       else (B(i := filter (live d) (B i))) b) =
             (\<lambda>b. if b \<in> set (i # js) then filter (live d) (B b) else B b)"
    "(\<Sum>b \<leftarrow> js. int (length (filter (stale d) ((B(i := filter (live d) (B i))) b)))) =
     (\<Sum>b \<leftarrow> js. int (length (filter (stale d) (B b))))"
    by (auto simp: fun_eq_iff intro!: arg_cong [of _ _ sum_list] map_cong)
  then show ?case using 1 2 only_seg_trans [OF 1(3) 2(3)] by auto
qed

definition insert_second :: "'a \<Rightarrow> 'a list \<Rightarrow> 'a list" where
  "insert_second x ys = (case ys of [] \<Rightarrow> [x] | y # zs \<Rightarrow> y # x # zs)"

section \<open>Insertion\<close>

lemma fill_head_rep:
  assumes ok: "vol_ok d s cs fl {}" and B: "\<forall>b < buckets d. B b = bucket_of (dirs d s) cs b"
    and b: "b < buckets d" and x: "dir_offset x \<noteq> 0" and e: "dir_offset (dirs d s (4 * b)) = 0"
  shows "seg_rep (dir_fill (4 * b) t x s d) s (B(b := [payload (dir_set_tag t x)])) fl"
proof -
  note sok = ok [unfolded vol_ok_def]
  let ?v = "dir_set_tag t (dir_assign_data (dirs d s (4 * b)) x)"
  have v: "dir_next ?v = dir_next (dirs d s (4 * b))" "dir_offset ?v \<noteq> 0" using x by simp_all
  note f = seg_ok_fill [OF sok b disjI1 [OF refl] v]
  have c: "cs b = []" by (rule seg_empty [OF sok b e])
  have D: "dirs (dir_fill (4 * b) t x s d) s = (dirs d s)(4 * b := ?v)" by (simp add: dir_fill_def)
  have "vol_ok (dir_fill (4 * b) t x s d) s cs fl {}"
    using f(1) unfolding vol_ok_def D by (simp add: dir_fill_def)
  moreover have "bucket_of (dirs (dir_fill (4 * b) t x s d) s) cs b = [payload (dir_set_tag t x)]"
    unfolding D using c x by (simp add: bucket_of_def)
  ultimately show ?thesis
    unfolding seg_rep_def using f(2) B by (intro exI [of _ cs]) (auto simp: D dir_fill_def)
qed

lemma link_fill_rep:
  assumes ok: "vol_ok d s cs fl {e}" and B: "\<forall>b < buckets d. B b = bucket_of (dirs d s) cs b"
    and b: "b < buckets d" and x: "dir_offset x \<noteq> 0" and h: "dir_offset (dirs d s (4 * b)) \<noteq> 0"
  shows "seg_rep (dir_fill e t x s (dir_link e (4 * b) s d)) s
     (B(b := insert_second (payload (dir_set_tag t x)) (B b))) fl"
proof -
  note sok = ok [unfolded vol_ok_def]
  have eh: "e \<noteq> 4 * b" using seg_not_head(2) [OF sok, of b] by blast
  have eb: "e < 65536" using seg_bound(2) [OF sok, of e] by blast
  let ?h = "dirs d s (4 * b)"
  let ?v = "dir_set_tag t (dir_assign_data (dir_set_next (dir_next ?h) (dirs d s e)) x)"
  let ?w = "dir_set_next e ?h"
  have v: "dir_next ?v = dir_next ?h" "dir_offset ?v \<noteq> 0" and w: "dir_next ?w = e" "dir_offset ?w \<noteq> 0"
    using x h eb by (simp_all add: dir_next_bound)
  note l = seg_ok_link [OF sok b _ h v w, simplified]
  let ?d = "dir_fill e t x s (dir_link e (4 * b) s d)"
  have D: "dirs ?d s = (dirs d s)(4 * b := ?w, e := ?v)"
    using eh by (simp add: dir_fill_def dir_link_def Let_def fun_upd_twist)
  have bu: "buckets ?d = buckets d" "freelist_head ?d s = freelist_head d s"
    by (simp_all add: dir_fill_def dir_link_def Let_def)
  have "vol_ok ?d s (cs(b := e # cs b)) fl {}"
    using l(1) unfolding vol_ok_def D bu by simp
  moreover have "insert_second (payload (dir_set_tag t x)) (B b) =
      payload ?w # payload ?v # map (\<lambda>e. payload (dirs d s e)) (cs b)"
    using B b h by (simp add: bucket_of_def insert_second_def)
  ultimately show ?thesis
    unfolding seg_rep_def using l(2) B bu D by (intro exI [of _ "cs(b := e # cs b)"]) auto
qed

lemma find_empty_row_free:
  assumes ok: "vol_ok d s cs fl {}" and b: "b < buckets d" and f: "find_empty_row s (4 * b) d = Some e"
  shows "e \<in> set fl"
proof -
  note sok = ok [unfolded vol_ok_def]
  from f obtain i where e: "e = 4 * b + i" "0 < i" "i < 4" "dir_offset (dirs d s e) = 0"
    unfolding find_empty_row_def
    by (auto simp: find_Some_iff dir_bucket_row_def dir_is_empty_def DIR_DEPTH_def)
  then have "e mod 4 = i" by simp
  then have "e \<in> links_of (buckets d)" using e b by (auto simp: links_of_def)
  then show ?thesis using seg_cover [OF sok] seg_used [OF sok] e(4) by auto
qed

section \<open>Search\<close>

definition entry_is :: "u32 \<Rightarrow> int \<Rightarrow> dir \<Rightarrow> bool" where
  "entry_is t off x \<longleftrightarrow> dir_tag x = t \<and> dir_offset x = off"

lemma entry_is_payload [simp]: "entry_is t off (payload x) = entry_is t off x"
  by (simp add: entry_is_def)

lemma find_entry_ok:
  assumes "vol_ok d s cs fl lim" "b < buckets d" "pre @ e # rest = 4 * b # cs b"
  shows "(\<forall>x \<in> set (e # rest). \<not> entry_is t off (dirs d s x)) \<and> find_entry s t off e (pred_of pre) d = Some None \<or>
     (\<exists>xs x ys. e # rest = xs @ x # ys \<and> (\<forall>y \<in> set xs. \<not> entry_is t off (dirs d s y)) \<and> entry_is t off (dirs d s x) \<and>
        find_entry s t off e (pred_of pre) d = Some (Some (x, pred_of (pre @ xs))))"
  using assms(3)
proof (induction rest arbitrary: pre e)
  case Nil
  then show ?case
    using next_dir_rest [OF assms(1,2) Nil]
    by (cases "entry_is t off (dirs d s e)") (auto simp: entry_is_def first_of_def find_entry.simps intro!: exI [of _ "[]"])
next
  case (Cons y rest)
  note n = next_dir_rest [OF assms(1,2) Cons.prems]
  show ?case
  proof (cases "entry_is t off (dirs d s e)")
    case True
    then show ?thesis
      by (intro disjI2 exI [of _ "[]"] exI [of _ e] exI [of _ "y # rest"])
        (simp add: entry_is_def find_entry.simps)
  next
    case False
    then have f: "find_entry s t off e (pred_of pre) d = find_entry s t off y (pred_of (pre @ [e])) d"
      using n by (subst find_entry.simps) (auto simp: first_of_def entry_is_def pred_of_def)
    have "(pre @ [e]) @ y # rest = 4 * b # cs b" using Cons.prems by simp
    from Cons.IH [OF this] show ?thesis
    proof
      assume "(\<forall>x \<in> set (y # rest). \<not> entry_is t off (dirs d s x)) \<and> find_entry s t off y (pred_of (pre @ [e])) d = Some None"
      then show ?thesis using False f by simp
    next
      assume "\<exists>xs x ys. y # rest = xs @ x # ys \<and> (\<forall>y \<in> set xs. \<not> entry_is t off (dirs d s y)) \<and> entry_is t off (dirs d s x) \<and>
        find_entry s t off y (pred_of (pre @ [e])) d = Some (Some (x, pred_of ((pre @ [e]) @ xs)))"
      then obtain xs x ys where "y # rest = xs @ x # ys" "\<forall>y \<in> set xs. \<not> entry_is t off (dirs d s y)" "entry_is t off (dirs d s x)"
        "find_entry s t off y (pred_of (pre @ [e])) d = Some (Some (x, pred_of ((pre @ [e]) @ xs)))" by blast
      then show ?thesis
        using False f by (intro disjI2 exI [of _ "e # xs"] exI [of _ x] exI [of _ ys]) simp
    qed
  qed
qed

section \<open>Deletion\<close>

definition remove_first :: "('a \<Rightarrow> bool) \<Rightarrow> 'a list \<Rightarrow> 'a list" where
  "remove_first m xs = takeWhile (\<lambda>x. \<not> m x) xs @ tl (dropWhile (\<lambda>x. \<not> m x) xs)"

definition replace_first :: "('a \<Rightarrow> bool) \<Rightarrow> 'a \<Rightarrow> 'a list \<Rightarrow> 'a list" where
  "replace_first m y xs =
     takeWhile (\<lambda>x. \<not> m x) xs @
     (case dropWhile (\<lambda>x. \<not> m x) xs of [] \<Rightarrow> [] | _ # zs \<Rightarrow> y # zs)"

lemma first_split:
  assumes "\<forall>x \<in> set xs. \<not> m x" "m y"
  shows "remove_first m (xs @ y # zs) = xs @ zs" "replace_first m w (xs @ y # zs) = xs @ w # zs"
  using takeWhile_append_stop [of xs "\<lambda>x. \<not> m x" y zs] dropWhile_append_stop [of xs "\<lambda>x. \<not> m x" y zs] assms
  by (simp_all add: remove_first_def replace_first_def)

lemma first_none: "\<forall>x \<in> set xs. \<not> m x \<Longrightarrow> remove_first m xs = xs"
  by (induction xs) (auto simp: remove_first_def)

lemma find_in_bucket_ok:
  assumes ok: "vol_ok d s cs fl lim" and b: "b < buckets d"
  shows "(\<forall>x \<in> set (bucket_of (dirs d s) cs b). \<not> entry_is t off x) \<and> find_in_bucket s t off (4 * b) d = Some None \<or>
    (\<exists>pre e rest. pre @ e # rest = 4 * b # cs b \<and> dir_offset (dirs d s (4 * b)) \<noteq> 0 \<and>
       (\<forall>y \<in> set pre. \<not> entry_is t off (dirs d s y)) \<and> entry_is t off (dirs d s e) \<and>
       find_in_bucket s t off (4 * b) d = Some (Some (e, pred_of pre)))"
proof (cases "dir_offset (dirs d s (4 * b)) = 0")
  case True
  then show ?thesis using bucket_head(1) [OF ok b] by (simp add: find_in_bucket_def)
next
  case False
  have p: "[] @ 4 * b # cs b = 4 * b # cs b" by simp
  have "find_in_bucket s t off (4 * b) d = find_entry s t off (4 * b) (pred_of []) d"
    using False by (simp add: find_in_bucket_def pred_of_def)
  note e = find_entry_ok [OF ok b p, of t off, folded this]
  from e show ?thesis
  proof
    assume "(\<forall>x \<in> set (4 * b # cs b). \<not> entry_is t off (dirs d s x)) \<and> find_in_bucket s t off (4 * b) d = Some None"
    then show ?thesis using False by (simp add: bucket_of_def)
  next
    assume "\<exists>xs x ys. 4 * b # cs b = xs @ x # ys \<and> (\<forall>y \<in> set xs. \<not> entry_is t off (dirs d s y)) \<and>
      entry_is t off (dirs d s x) \<and> find_in_bucket s t off (4 * b) d = Some (Some (x, pred_of ([] @ xs)))"
    then obtain xs x ys where f: "xs @ x # ys = 4 * b # cs b" "\<forall>y \<in> set xs. \<not> entry_is t off (dirs d s y)"
      "entry_is t off (dirs d s x)" "find_in_bucket s t off (4 * b) d = Some (Some (x, pred_of xs))"
      by (metis append_Nil)
    show ?thesis
      by (intro disjI2 exI [of _ xs] exI [of _ x] exI [of _ ys] conjI f False)
  qed
qed

lemma bucket_split:
  assumes "pre @ e # rest = 4 * b # cs b" "dir_offset (D (4 * b)) \<noteq> 0"
  shows "bucket_of D cs b = map (\<lambda>e. payload (D e)) pre @ payload (D e) # map (\<lambda>e. payload (D e)) rest"
proof -
  have "bucket_of D cs b = map (\<lambda>e. payload (D e)) (4 * b # cs b)" using assms(2) by (simp add: bucket_of_def)
  then show ?thesis unfolding assms(1) [symmetric] by simp
qed

lemma delete_rep:
  assumes rep: "seg_rep d s B fl" and b: "b < buckets d"
  shows "\<exists>r. find_in_bucket s t off (4 * b) d = Some r \<and> (r \<noteq> None \<longleftrightarrow> (\<exists>x \<in> set (B b). entry_is t off x)) \<and>
    (\<forall>e p d' q. r = Some (e, p) \<longrightarrow> dir_delete_entry e p s (add_used (- 1) d) = (d', q) \<longrightarrow>
       (\<exists>fl'. seg_rep d' s (B(b := remove_first (entry_is t off) (B b))) fl') \<and> only_seg s d d' \<and> dir_used d' = dir_used d - 1)"
proof -
  from rep obtain cs where ok: "vol_ok d s cs fl {}" and B: "\<forall>b < buckets d. B b = bucket_of (dirs d s) cs b"
    unfolding seg_rep_def by blast
  from find_in_bucket_ok [OF ok b, of t off] show ?thesis
  proof (elim disjE exE conjE)
    assume "\<forall>x \<in> set (bucket_of (dirs d s) cs b). \<not> entry_is t off x" "find_in_bucket s t off (4 * b) d = Some None"
    then show ?thesis using B b by (simp add: entry_is_payload)
  next
    fix pre e rest
    assume f: "pre @ e # rest = 4 * b # cs b" "dir_offset (dirs d s (4 * b)) \<noteq> 0"
      "\<forall>y \<in> set pre. \<not> entry_is t off (dirs d s y)" "entry_is t off (dirs d s e)"
      "find_in_bucket s t off (4 * b) d = Some (Some (e, pred_of pre))"
    let ?P = "\<lambda>e. payload (dirs d s e)"
    have Bb: "B b = map ?P pre @ ?P e # map ?P rest" using bucket_split [where D = "dirs d s" and cs = cs and b = b, OF f(1,2)] B b by simp
    have rf: "remove_first (entry_is t off) (B b) = map ?P pre @ map ?P rest"
      unfolding Bb using f(3,4) by (intro first_split) (auto simp: entry_is_payload)
    show ?thesis
    proof (intro exI [of _ "Some (e, pred_of pre)"] conjI allI impI)
      show "find_in_bucket s t off (4 * b) d = Some (Some (e, pred_of pre))" by (rule f(5))
      show "(Some (e, pred_of pre) \<noteq> None) = (\<exists>x \<in> set (B b). entry_is t off x)" using Bb f(4) by (simp add: entry_is_payload)
      fix e' p d' q
      assume r: "Some (e, pred_of pre) = Some (e', p)" "dir_delete_entry e' p s (add_used (- 1) d) = (d', q)"
      then have del: "dir_delete_entry e (pred_of pre) s (add_used (- 1) d) = (d', q)" by simp
      have "vol_ok (add_used (- 1) d) s cs fl {}" "b < buckets (add_used (- 1) d)" using ok b by simp_all
      from delete_entry_ok [OF this f(1) del] obtain cs' fl' rest' where
        1: "vol_ok d' s cs' fl' {}" "delete_effect s b d cs d' cs'" "dir_used d' = dir_used d - 1"
        "cursor d' s cs' b pre rest'" "map (\<lambda>e. payload (dirs d' s e)) pre = map ?P pre"
        "map (\<lambda>e. payload (dirs d' s e)) rest' = map ?P rest" by auto
      have "bucket_of (dirs d' s) cs' b = remove_first (entry_is t off) (B b)"
        using cursor_bucket [OF 1(4)] 1(5,6) rf by simp
      from seg_rep_effect [OF 1(2,1) this B]
      show "\<exists>fl'. seg_rep d' s (B(b := remove_first (entry_is t off) (B b))) fl'" by blast
      show "only_seg s d d'" using 1(2) by (simp add: delete_effect_def)
      show "dir_used d' = dir_used d - 1" by (rule 1(3))
    qed
  qed
qed

section \<open>Lookup\<close>

fun probe_prune :: "('a \<Rightarrow> bool) \<Rightarrow> ('a \<Rightarrow> bool) \<Rightarrow> 'a list \<Rightarrow> 'a list" where
  "probe_prune m v [] = []"
| "probe_prune m v (x # xs) =
     (if m x then if v x then x # xs else probe_prune m v xs else x # probe_prune m v xs)"

lemma probe_prune_length: "length (probe_prune m v xs) \<le> length xs"
  by (induction xs) auto

lemma probe_chain_ok:
  assumes "vol_ok d s cs fl lim" "b < buckets d" "pre @ e # rest = 4 * b # cs b"
    "dir_offset (dirs d s (4 * b)) \<noteq> 0"
  shows "\<exists>d' cs' fl' p r. probe_chain key s e (pred_of pre) None d = Some (d', p, None, r) \<and>
     vol_ok d' s cs' fl' lim \<and> delete_effect s b d cs d' cs' \<and>
     bucket_of (dirs d' s) cs' b = map (\<lambda>e. payload (dirs d s e)) pre @
       probe_prune (\<lambda>x. dir_compare_tag x key) (dir_valid d) (map (\<lambda>e. payload (dirs d s e)) (e # rest)) \<and>
     map_option (\<lambda>e. payload (dirs d' s e)) r =
       find (\<lambda>x. dir_compare_tag x key \<and> dir_valid d x) (map (\<lambda>e. payload (dirs d s e)) (e # rest)) \<and>
     dir_used d' = dir_used d - (int (length (e # rest)) -
       int (length (probe_prune (\<lambda>x. dir_compare_tag x key) (dir_valid d) (map (\<lambda>e. payload (dirs d s e)) (e # rest)))))"
  using assms
proof (induction "length rest" arbitrary: d cs fl pre e rest rule: less_induct)
  case less
  note ok = less.prems(1) and b = less.prems(2) and pos = less.prems(3) and h = less.prems(4)
  let ?P = "\<lambda>e. payload (dirs d s e)"
  let ?m = "\<lambda>x. dir_compare_tag x key"
  have bk: "bucket_of (dirs d s) cs b = map ?P pre @ ?P e # map ?P rest" by (rule bucket_split [where D = "dirs d s" and cs = cs and b = b, OF pos h])
  consider (hit) "?m (dirs d s e)" "dir_valid d (dirs d s e)"
    | (inv) "?m (dirs d s e)" "\<not> dir_valid d (dirs d s e)" | (skip) "\<not> ?m (dirs d s e)" by blast
  then show ?case
  proof cases
    case hit
    then have "probe_chain key s e (pred_of pre) None d = Some (d, pred_of pre, None, Some e)"
      by (subst probe_chain.simps) simp
    then show ?thesis using hit ok bk
      by (intro exI [of _ d] exI [of _ cs] exI [of _ fl] exI [of _ "pred_of pre"] exI [of _ "Some e"]) simp
  next
    case skip
    note n = next_dir_rest [OF ok b pos]
    show ?thesis
    proof (cases rest)
      case Nil
      then have "probe_chain key s e (pred_of pre) None d = Some (d, Some e, None, None)"
        using skip n by (subst probe_chain.simps) (simp add: first_of_def)
      then show ?thesis using skip ok bk Nil
        by (intro exI [of _ d] exI [of _ cs] exI [of _ fl] exI [of _ "Some e"] exI [of _ None]) simp
    next
      case (Cons x ys)
      have pos': "(pre @ [e]) @ x # ys = 4 * b # cs b" using pos Cons by simp
      have u: "probe_chain key s e (pred_of pre) None d = probe_chain key s x (pred_of (pre @ [e])) None d"
        using skip n Cons by (subst probe_chain.simps) (simp add: first_of_def pred_of_def)
      have l: "length ys < length rest" using Cons by simp
      from less.hyps [OF l ok b pos' h] obtain d' cs' fl' p r where
        "probe_chain key s x (pred_of (pre @ [e])) None d = Some (d', p, None, r)"
        "vol_ok d' s cs' fl' lim" "delete_effect s b d cs d' cs'"
        "bucket_of (dirs d' s) cs' b = map ?P (pre @ [e]) @ probe_prune ?m (dir_valid d) (map ?P (x # ys))"
        "map_option (\<lambda>e. payload (dirs d' s e)) r = find (\<lambda>x. ?m x \<and> dir_valid d x) (map ?P (x # ys))"
        "dir_used d' = dir_used d - (int (length (x # ys)) - int (length (probe_prune ?m (dir_valid d) (map ?P (x # ys)))))"
        by (elim exE conjE) (rule that)
      then show ?thesis using u skip Cons
        by (intro exI [of _ d'] exI [of _ cs'] exI [of _ fl'] exI [of _ p] exI [of _ r]) simp
    qed
  next
    case inv
    obtain d2 r where del: "dir_delete_entry e (pred_of pre) s (add_used (- 1) d) = (d2, r)" by fastforce
    have ok1: "vol_ok (add_used (- 1) d) s cs fl lim" and b1: "b < buckets (add_used (- 1) d)" using ok b by simp_all
    from delete_entry_ok [OF ok1 b1 pos del] obtain cs2 fl2 rest2 where
      2: "vol_ok d2 s cs2 fl2 lim" "delete_effect s b d cs d2 cs2"
      "dir_used d2 = dir_used d - 1" "r = first_of rest2" "cursor d2 s cs2 b pre rest2"
      "map (\<lambda>e. payload (dirs d2 s e)) pre = map ?P pre"
      "map (\<lambda>e. payload (dirs d2 s e)) rest2 = map ?P rest" by auto
    have os: "only_seg s d d2" using 2(2) by (simp add: delete_effect_def)
    note bu = only_seg_buckets [OF os]
    have val: "dir_valid d2 = dir_valid d" by (rule only_seg_valid [OF os])
    have unf: "probe_chain key s e (pred_of pre) None d =
        (case r of None \<Rightarrow> Some (d2, pred_of pre, None, None) | Some n \<Rightarrow> probe_chain key s n (pred_of pre) None d2)"
      using inv del by (subst probe_chain.simps) simp
    show ?thesis
    proof (cases rest2)
      case Nil
      have "bucket_of (dirs d2 s) cs2 b = map ?P pre" using cursor_bucket [OF 2(5)] Nil 2(6) by simp
      moreover have "rest = []" using 2(7) Nil by simp
      ultimately show ?thesis using unf Nil 2(1,2,3,4) inv
        by (intro exI [of _ d2] exI [of _ cs2] exI [of _ fl2] exI [of _ "pred_of pre"] exI [of _ None])
          (simp add: first_of_def)
    next
      case (Cons x ys)
      have pos2: "pre @ x # ys = 4 * b # cs2 b" and h2: "dir_offset (dirs d2 s (4 * b)) \<noteq> 0"
        using 2(5) Cons by (auto simp: cursor_def)
      have lr: "length rest2 = length rest" using 2(7) map_eq_imp_length_eq by blast
      then have l: "length ys < length rest" using Cons by simp
      have b2: "b < buckets d2" using b bu by simp
      from less.hyps [OF l 2(1) b2 pos2 h2, unfolded val 2(6) Cons [symmetric] 2(7)] obtain d' cs' fl' p r' where
        3: "probe_chain key s x (pred_of pre) None d2 = Some (d', p, None, r')"
        "vol_ok d' s cs' fl' lim" "delete_effect s b d2 cs2 d' cs'"
        "bucket_of (dirs d' s) cs' b = map ?P pre @ probe_prune ?m (dir_valid d) (map ?P rest)"
        "map_option (\<lambda>e. payload (dirs d' s e)) r' = find (\<lambda>x. ?m x \<and> dir_valid d x) (map ?P rest)"
        "dir_used d' = dir_used d2 - (int (length rest2) - int (length (probe_prune ?m (dir_valid d) (map ?P rest))))"
        by (elim exE conjE) (rule that)
      then show ?thesis using unf Cons 2(3,4) inv lr delete_effect_trans [OF 2(2) 3(3)]
        by (intro exI [of _ d'] exI [of _ cs'] exI [of _ fl'] exI [of _ p] exI [of _ r']) (simp add: first_of_def)
    qed
  qed
qed

lemma probe_rep:
  assumes rep: "seg_rep d s B fl" and b: "b < buckets d"
  shows "\<exists>d' fl' p r. probe_pass key s (4 * b) None None d = Some (d', p, None, r) \<and>
     seg_rep d' s (B(b := probe_prune (\<lambda>x. dir_compare_tag x key) (dir_valid d) (B b))) fl' \<and>
     only_seg s d d' \<and>
     map_option (\<lambda>e. payload (dirs d' s e)) r = find (\<lambda>x. dir_compare_tag x key \<and> dir_valid d x) (B b) \<and>
     dir_used d' = dir_used d - (int (length (B b)) -
       int (length (probe_prune (\<lambda>x. dir_compare_tag x key) (dir_valid d) (B b))))"
proof -
  from rep obtain cs where ok: "vol_ok d s cs fl {}" and B: "\<forall>b < buckets d. B b = bucket_of (dirs d s) cs b"
    unfolding seg_rep_def by blast
  show ?thesis
  proof (cases "dir_offset (dirs d s (4 * b)) = 0")
    case True
    then have "B b = []" using bucket_head(1) [OF ok b] B b by simp
    then show ?thesis using True rep
      by (intro exI [of _ d] exI [of _ fl] exI [of _ None]) (simp add: probe_pass_def fun_upd_idem)
  next
    case False
    have p: "[] @ 4 * b # cs b = 4 * b # cs b" by simp
    have Bb: "B b = map (\<lambda>e. payload (dirs d s e)) (4 * b # cs b)" using B b False by (simp add: bucket_of_def)
    from probe_chain_ok [OF ok b p False, of key, folded Bb] obtain d' cs' fl' p r where
      1: "probe_chain key s (4 * b) (pred_of []) None d = Some (d', p, None, r)"
      "vol_ok d' s cs' fl' {}" "delete_effect s b d cs d' cs'"
      "bucket_of (dirs d' s) cs' b = probe_prune (\<lambda>x. dir_compare_tag x key) (dir_valid d) (B b)"
      "map_option (\<lambda>e. payload (dirs d' s e)) r = find (\<lambda>x. dir_compare_tag x key \<and> dir_valid d x) (B b)"
      "dir_used d' = dir_used d - (int (length (4 * b # cs b)) -
         int (length (probe_prune (\<lambda>x. dir_compare_tag x key) (dir_valid d) (B b))))"
      by auto
    have "length (4 * b # cs b) = length (B b)" using Bb by simp
    then show ?thesis
      using 1 False seg_rep_effect [OF 1(3,2,4) B]
      by (intro exI [of _ d'] exI [of _ fl'] exI [of _ p] exI [of _ r])
        (simp add: probe_pass_def pred_of_def delete_effect_def)
  qed
qed


section \<open>A fresh segment\<close>

lemma dir_free_entry_dirs:
  assumes "e < 65536"
  shows "dirs (dir_free_entry e s d) s = free_push e (freelist_head d s) (dirs d s)"
    "freelist_head (dir_free_entry e s d) s = e" "only_seg s d0 d \<Longrightarrow> only_seg s d0 (dir_free_entry e s d)"
    "buckets (dir_free_entry e s d) = buckets d" "dir_used (dir_free_entry e s d) = dir_used d"
  using assms by (simp_all add: dir_free_entry_def free_push_def Let_def)

lemma free_all:
  assumes "vol_ok d s cs fl lim" "set es \<subseteq> lim" "distinct es" "\<forall>e \<in> lim. dirs d s e = dir_clear"
  shows "vol_ok (fold (\<lambda>e. dir_free_entry e s) es d) s cs (rev es @ fl) (lim - set es) \<and>
    (\<forall>b < buckets d. bucket_of (dirs (fold (\<lambda>e. dir_free_entry e s) es d) s) cs b = bucket_of (dirs d s) cs b) \<and>
    only_seg s d (fold (\<lambda>e. dir_free_entry e s) es d) \<and>
    dir_used (fold (\<lambda>e. dir_free_entry e s) es d) = dir_used d"
  using assms
proof (induction es arbitrary: d fl lim)
  case Nil
  then show ?case by simp
next
  case (Cons e es)
  note ok = Cons.prems(1) [unfolded vol_ok_def]
  have e: "e \<in> lim" "dirs d s e = dir_clear" "e < 65536"
    using Cons.prems(2,4) seg_bound(2) [OF ok] by auto
  note dd = dir_free_entry_dirs [OF e(3), where s = s and d = d]
  note p = seg_ok_free_push [OF ok e(1)]
  have ok': "vol_ok (dir_free_entry e s d) s cs (e # fl) (lim - {e})"
    using p(1) e(2) unfolding vol_ok_def dd by simp
  have clear: "\<forall>x \<in> lim - {e}. dirs (dir_free_entry e s d) s x = dir_clear"
  proof
    fix x assume x: "x \<in> lim - {e}"
    then have "x \<notin> set fl" using seg_free_lim [OF ok] by blast
    then have "x \<noteq> freelist_head d s \<or> freelist_head d s = 0" using seg_free_head [OF ok] by auto
    then show "dirs (dir_free_entry e s d) s x = dir_clear"
      using x Cons.prems(4) by (simp add: dd(1) free_push_frame)
  qed
  have sub: "set es \<subseteq> lim - {e}" "distinct es" using Cons.prems(2,3) by auto
  have os: "only_seg s d (dir_free_entry e s d)" by (rule dd(3)) simp
  have bk: "\<forall>b < buckets d. bucket_of (dirs (dir_free_entry e s d) s) cs b = bucket_of (dirs d s) cs b"
    using p(2) e(2) unfolding dd(1) by simp
  have l: "lim - {e} - set es = lim - set (e # es)" by auto
  from Cons.IH [OF ok' sub clear] show ?case
    using os bk dd(4,5) only_seg_trans [OF os] unfolding l by simp
qed

definition fresh_entries :: "nat \<Rightarrow> nat list" where
  "fresh_entries n = concat (map (\<lambda>l. map (\<lambda>b. 4 * b + l) [0..<n]) [1..<4])"

lemma fresh_entries_set: "set (fresh_entries n) = links_of n"
proof -
  have "e \<in> set (fresh_entries n) \<longleftrightarrow> e \<in> links_of n" for e
  proof
    assume "e \<in> links_of n"
    then have e: "e < 4 * n" "e mod 4 \<noteq> 0" by (auto simp: links_of_def)
    then have "e = 4 * (e div 4) + e mod 4" "e div 4 < n" "1 \<le> e mod 4" "e mod 4 < 4" by presburger+
    then show "e \<in> set (fresh_entries n)" unfolding fresh_entries_def by (auto intro!: bexI [of _ "e mod 4"] image_eqI)
  qed (auto simp: fresh_entries_def links_of_def mod_eq_0_iff_dvd; presburger)
  then show ?thesis by blast
qed

lemma fresh_entries_distinct: "distinct (fresh_entries n)"
proof -
  have "distinct ls \<Longrightarrow> \<forall>l \<in> set ls. l < 4 \<Longrightarrow> distinct (concat (map (\<lambda>l. map (\<lambda>b. 4 * b + l) [0..<n]) ls))"
    for ls :: "nat list"
  proof (induction ls)
    case (Cons l ls)
    have "distinct (map (\<lambda>b. 4 * b + l) [0..<n])" by (simp add: distinct_map inj_on_def)
    moreover have "4 * b + l \<notin> set (concat (map (\<lambda>l. map (\<lambda>b. 4 * b + l) [0..<n]) ls))" for b
    proof
      assume "4 * b + l \<in> set (concat (map (\<lambda>l. map (\<lambda>b. 4 * b + l) [0..<n]) ls))"
      then obtain l' b' where "l' \<in> set ls" "4 * b + l = 4 * b' + l'" by auto
      moreover from this Cons.prems have "l' \<noteq> l" "l' < 4" "l < 4" by auto
      ultimately show False by presburger
    qed
    ultimately show ?case using Cons by auto
  qed simp
  then show ?thesis unfolding fresh_entries_def by simp
qed

lemma dir_init_segment_fold:
  "dir_init_segment s d = fold (\<lambda>e. dir_free_entry e s) (fresh_entries (buckets d))
     ((set_freelist s 0 d)\<lparr>dirs := (dirs d)(s := (\<lambda>i. if i < 4 * buckets d then dir_clear else dirs d s i))\<rparr>)"
proof -
  have "fold (\<lambda>e. dir_free_entry e s) (fresh_entries n) d' =
      fold (\<lambda>l. fold (\<lambda>b. dir_free_entry (dir_bucket_row (dir_bucket b) l) s) [0..<n]) [1..<4] d'" for n d'
    unfolding fresh_entries_def
    by (induction "[1..<4::nat]" arbitrary: d') 
      (simp_all add: upt_rec dir_bucket_row_def dir_bucket_def DIR_DEPTH_def fold_map comp_def mult.commute)
  then show ?thesis
    by (simp add: dir_init_segment_def DIR_DEPTH_def Let_def cong: if_cong)
qed

lemma dir_init_segment_ok:
  assumes "4 * buckets d \<le> 65536"
  shows "seg_rep (dir_init_segment s d) s (\<lambda>_. []) (rev (fresh_entries (buckets d)))"
    "only_seg s d (dir_init_segment s d)" "dir_used (dir_init_segment s d) = dir_used d"
proof -
  let ?D = "\<lambda>i. if i < 4 * buckets d then dir_clear else dirs d s i"
  let ?d = "(set_freelist s 0 d)\<lparr>dirs := (dirs d)(s := ?D)\<rparr>"
  have "seg_ok (buckets d) ?D 0 (\<lambda>_. []) [] (links_of (buckets d))"
    using assms by (intro seg_okI) (auto simp: nx_def)
  then have ok: "vol_ok ?d s (\<lambda>_. []) [] (links_of (buckets d))"
    by (simp add: vol_ok_def freelist_head_def set_freelist_def)
  have clear: "\<forall>e \<in> links_of (buckets d). dirs ?d s e = dir_clear" by (simp add: links_of_def)
  note f = free_all [OF ok _ fresh_entries_distinct clear, of "buckets d", unfolded fresh_entries_set, simplified]
  have bu: "buckets (dir_init_segment s d) = buckets d"
    using f only_seg_buckets [of s ?d] unfolding dir_init_segment_fold by fastforce
  show "seg_rep (dir_init_segment s d) s (\<lambda>_. []) (rev (fresh_entries (buckets d)))"
    unfolding seg_rep_def bu using f unfolding dir_init_segment_fold
    by (intro exI [of _ "\<lambda>_. []"]) (auto simp: bucket_of_def)
  have "only_seg s d ?d" by (auto simp: only_seg_def geometry_def set_freelist_def)
  then show "only_seg s d (dir_init_segment s d)"
    using f only_seg_trans unfolding dir_init_segment_fold by blast
  show "dir_used (dir_init_segment s d) = dir_used d"
    using f unfolding dir_init_segment_fold by (simp add: set_freelist_def)
qed

section \<open>Overwriting\<close>


lemma used_writes [simp]:
  "dir_fill e t x s (add_used k d) = add_used k (dir_fill e t x s d)"
  "dir_link e b s (add_used k d) = add_used k (dir_link e b s d)"
  by (simp_all add: dir_fill_def dir_link_def upd_def add_used_def Let_def)

text \<open>Room for a new entry in bucket \<open>b\<close>.\<close>

lemma room_cases:
  assumes rep: "seg_rep d s B fl" and b: "b < buckets d" and x: "dir_offset x \<noteq> 0"
    and room: "fl \<noteq> [] \<or> B b = []"
  shows "(dir_is_empty (ent d s (4 * b)) \<and>
       (\<exists>fl'. seg_rep (dir_fill (4 * b) t x s d) s (B(b := insert_second (payload (dir_set_tag t x)) (B b))) fl') \<and>
       only_seg s d (dir_fill (4 * b) t x s d) \<and> dir_used (dir_fill (4 * b) t x s d) = dir_used d) \<or>
    (\<not> dir_is_empty (ent d s (4 * b)) \<and>
      (\<exists>e d1 fl'. (find_empty_row s (4 * b) d = Some e \<and> d1 = unlink_from_freelist e s d \<or>
           find_empty_row s (4 * b) d = None \<and> freelist_pop s d = Some (d1, Some e)) \<and>
         seg_rep (dir_fill e t x s (dir_link e (4 * b) s d1)) s
            (B(b := insert_second (payload (dir_set_tag t x)) (B b))) fl' \<and>
         only_seg s d (dir_fill e t x s (dir_link e (4 * b) s d1)) \<and>
         dir_used (dir_fill e t x s (dir_link e (4 * b) s d1)) = dir_used d))"
proof -
  from rep obtain cs where ok: "vol_ok d s cs fl {}" and B: "\<forall>b < buckets d. B b = bucket_of (dirs d s) cs b"
    unfolding seg_rep_def by blast
  note h = bucket_head(1) [OF ok b]
  show ?thesis
  proof (cases "B b = []")
    case True
    then have e: "dir_offset (dirs d s (4 * b)) = 0" using h B b by simp
    then show ?thesis
      using fill_head_rep [OF ok B b x e, of t] True
      by (intro disjI1) (auto simp add: insert_second_def dir_fill_def dir_is_empty_def)
  next
    case False
    then have e: "dir_offset (dirs d s (4 * b)) \<noteq> 0" using h B b by simp
    have "\<exists>e' d1 fl'. (find_empty_row s (4 * b) d = Some e' \<and> d1 = unlink_from_freelist e' s d \<or>
           find_empty_row s (4 * b) d = None \<and> freelist_pop s d = Some (d1, Some e')) \<and>
         vol_ok d1 s cs fl' {e'} \<and> only_seg s d d1 \<and> dir_used d1 = dir_used d \<and>
         (\<forall>b < buckets d. bucket_of (dirs d1 s) cs b = bucket_of (dirs d s) cs b)"
    proof (cases "find_empty_row s (4 * b) d")
      case (Some e')
      have "e' \<in> set fl" by (rule find_empty_row_free [OF ok b Some])
      then obtain as bs where fl: "fl = as @ e' # bs" by (meson split_list)
      note u = unlink_from_freelist_ok [OF ok [unfolded fl]]
      show ?thesis using Some u
        by (intro exI [of _ e'] exI [of _ "unlink_from_freelist e' s d"] exI [of _ "as @ bs"]) simp
    next
      case None
      from room False obtain e' bs where fl: "fl = e' # bs" by (cases fl) auto
      from freelist_pop_ok [OF ok [unfolded fl]] None show ?thesis by blast
    qed
    then obtain e' d1 fl' where
      1: "find_empty_row s (4 * b) d = Some e' \<and> d1 = unlink_from_freelist e' s d \<or>
           find_empty_row s (4 * b) d = None \<and> freelist_pop s d = Some (d1, Some e')"
      "vol_ok d1 s cs fl' {e'}" "only_seg s d d1" "dir_used d1 = dir_used d"
      "\<forall>b < buckets d. bucket_of (dirs d1 s) cs b = bucket_of (dirs d s) cs b" by blast
    note bu = only_seg_buckets [OF 1(3)]
    have B1: "\<forall>b < buckets d1. B b = bucket_of (dirs d1 s) cs b" using 1(5) B bu by simp
    have b1: "b < buckets d1" using b bu by simp
    have e1: "dir_offset (dirs d1 s (4 * b)) \<noteq> 0"
      using bucket_head(1) [OF 1(2) b1] B1 False b1 by simp
    note r = link_fill_rep [OF 1(2) B1 b1 x e1, of t]
    have "only_seg s d (dir_fill e' t x s (dir_link e' (4 * b) s d1))"
      "dir_used (dir_fill e' t x s (dir_link e' (4 * b) s d1)) = dir_used d"
      using 1(3,4) by (simp_all add: dir_fill_def dir_link_def Let_def)
    then show ?thesis using 1(1) r e unfolding dir_is_empty_def by blast
  qed
qed

lemma insert_loop_rep:
  assumes rep: "seg_rep d s B fl" and b: "b < buckets d" and x: "dir_offset x \<noteq> 0"
    and room: "fl \<noteq> [] \<or> B b = []"
  shows "\<exists>d' fl'. insert_loop key s (4 * b) x d = Some d' \<and>
     seg_rep d' s (B(b := insert_second (payload (dir_set_tag (key_word key 2) x)) (B b))) fl' \<and>
     only_seg s d d' \<and> dir_used d' = dir_used d"
  using room_cases [OF assms, of "key_word key 2"]
  by (subst insert_loop.simps) (elim disjE conjE exE; simp; blast?)


section \<open>The cache directory\<close>

definition sample_vol :: vol where
  "sample_vol = dir_init_segment 0
     \<lparr>dirs = (\<lambda>_ _. dir_clear), freelist = (\<lambda>_. 0), phase = 0, dirty = False, write_pos = 1024 * 512,
      agg_pos = 2048 * 512, agg_buf_pos = 0, vstart = 0, segments = 1, buckets = 2, dir_used = 0,
      dir_collisions = 0\<rparr>"

definition sample_entry :: dir where
  "sample_entry = dir_set_offset 5 dir_clear"

definition sample_key :: cache_key where
  "sample_key = CacheKey 7 3 9 0"

lemma dir_bucket_mult: "dir_bucket b = 4 * b"
  by (simp add: dir_bucket_def DIR_DEPTH_def)

lemma key_bucket_less: "0 < buckets d \<Longrightarrow> key_bucket key d < buckets d"
  by (simp add: key_bucket_def)

lemma sample_rep: "seg_rep sample_vol 0 (\<lambda>_. []) (rev (fresh_entries 2))"
  unfolding sample_vol_def
  using dir_init_segment_ok(1) [of "\<lparr>dirs = (\<lambda>_ _. dir_clear), freelist = (\<lambda>_. 0), phase = 0, dirty = False, write_pos = 1024 * 512,
      agg_pos = 2048 * 512, agg_buf_pos = 0, vstart = 0, segments = 1, buckets = 2, dir_used = 0,
      dir_collisions = 0\<rparr>" 0] by simp

lemma sample_geometry: "geometry sample_vol = (0, 1024 * 512, 2048 * 512, 0, 0, 1, 2)"
proof -
  let ?d = "\<lparr>dirs = (\<lambda>_ _. dir_clear), freelist = (\<lambda>_. 0), phase = 0, dirty = False, write_pos = 1024 * 512,
      agg_pos = 2048 * 512, agg_buf_pos = 0, vstart = 0, segments = 1, buckets = 2, dir_used = 0,
      dir_collisions = 0\<rparr>"
  have "only_seg 0 ?d sample_vol" unfolding sample_vol_def by (rule dir_init_segment_ok(2)) simp
  then show ?thesis by (simp add: only_seg_def geometry_def)
qed

lemma sample_keys: "buckets sample_vol = 2" "segments sample_vol = 1"
  "key_segment sample_key sample_vol = 0" "key_bucket sample_key sample_vol = 1"
  using sample_geometry by (simp_all add: geometry_def key_segment_def key_bucket_def sample_key_def)

lemma sample_offset: "dir_offset sample_entry = 5"
  by (simp add: sample_entry_def dir_set_offset_def dir_clear_def dir_offset_def Let_def)

lemma sample_phase: "dir_phase sample_entry = 0"
  by (simp add: dir_phase_def dir_bit_def sample_entry_def dir_set_offset_def dir_clear_def Let_def)

definition is_doc :: "cache_key \<Rightarrow> dir \<Rightarrow> dir \<Rightarrow> bool" where
  "is_doc key x = entry_is (DIR_MASK_TAG (key_word key 2)) (dir_offset x)"

abbreviation doc_entry :: "cache_key \<Rightarrow> dir \<Rightarrow> dir" where
  "doc_entry key x \<equiv> payload (dir_set_tag (key_word key 2) x)"

lemma is_doc_entry [simp]: "is_doc key x (doc_entry key x)"
  by (simp add: is_doc_def entry_is_def)

lemma dir_insert_rep:
  assumes "seg_rep d (key_segment key d) B fl" "0 < buckets d" "dir_offset x \<noteq> 0"
    and "fl \<noteq> [] \<or> B (key_bucket key d) = []"
  shows "\<exists>d' fl'. dir_insert key x d = Some d' \<and>
    seg_rep d' (key_segment key d)
      (B(key_bucket key d := insert_second (doc_entry key x) (B (key_bucket key d)))) fl' \<and>
    only_seg (key_segment key d) d d' \<and> dir_used d' = dir_used d + 1 \<and> dirty d'"
proof -
  from insert_loop_rep [OF assms(1) key_bucket_less [OF assms(2)] assms(3,4), of key] obtain d' fl' where
    "insert_loop key (key_segment key d) (4 * key_bucket key d) x d = Some d'"
    "seg_rep d' (key_segment key d)
      (B(key_bucket key d := insert_second (doc_entry key x) (B (key_bucket key d)))) fl'"
    "only_seg (key_segment key d) d d'" "dir_used d' = dir_used d" by blast
  then show ?thesis
    by (intro exI [of _ "add_used 1 (d'\<lparr>dirty := True\<rparr>)"] exI [of _ fl'])
      (simp add: dir_insert_def dir_bucket_mult, simp add: add_used_def)
qed

text \<open>A volume with one document.\<close>

lemma sample_inserted:
  "\<exists>d fl. dir_insert sample_key sample_entry sample_vol = Some d \<and>
     seg_rep d 0 ((\<lambda>_. [])(1 := [doc_entry sample_key sample_entry])) fl \<and> only_seg 0 sample_vol d \<and>
     dir_used d = dir_used sample_vol + 1"
  using dir_insert_rep [of sample_vol sample_key "\<lambda>_. []" "rev (fresh_entries 2)" sample_entry] sample_rep
  unfolding sample_keys by (auto simp: sample_offset insert_second_def)

lemma sample_keys_after:
  "only_seg 0 sample_vol d \<Longrightarrow> key_segment sample_key d = 0 \<and> key_bucket sample_key d = 1 \<and> buckets d = 2"
  using only_seg_keys [of 0 sample_vol d sample_key] only_seg_buckets [of 0 sample_vol d] sample_keys by simp

text \<open>
  C2. Insertion: with a free entry in the segment, or an empty bucket, \<open>dir_insert\<close> returns, the
  segment keeps its shape, the key's bucket gains the entry, tagged, in the second place (in the
  first of an empty bucket), the other buckets and segments keep their contents, and one more
  entry is used.
\<close>

theorem dir_insert_refines:
  assumes "seg_rep d (key_segment key d) B fl" "0 < buckets d" "dir_offset x \<noteq> 0"
    and "fl \<noteq> [] \<or> B (key_bucket key d) = []"
  shows "\<exists>d' fl'. dir_insert key x d = Some d' \<and>
    seg_rep d' (key_segment key d)
      (B(key_bucket key d := insert_second (payload (dir_set_tag (key_word key 2) x)) (B (key_bucket key d)))) fl' \<and>
    only_seg (key_segment key d) d d' \<and> dir_used d' = dir_used d + 1 \<and> dirty d'"
  by (rule dir_insert_rep [OF assms])

theorem dir_insert_refines_witness:
  "\<exists>d' fl'. dir_insert sample_key sample_entry sample_vol = Some d' \<and>
    seg_rep d' 0 ((\<lambda>_. [])(1 := [payload (dir_set_tag 9 sample_entry)])) fl' \<and> dir_used d' = 1 + dir_used sample_vol"
proof -
  have w: "key_word sample_key 2 = 9" by (simp add: sample_key_def)
  show ?thesis
    using dir_insert_refines [of sample_vol sample_key "\<lambda>_. []" "rev (fresh_entries 2)" sample_entry]
      sample_rep
    unfolding sample_keys by (auto simp: sample_offset insert_second_def w)
qed

text \<open>
  C3. Deletion: \<open>dir_delete\<close> returns 1 exactly when the key's bucket has an entry with the key's tag and
  the given disk offset; the first such entry leaves the bucket, and nothing else changes.
\<close>

theorem dir_delete_refines:
  assumes "seg_rep d (key_segment key d) B fl" "0 < buckets d"
  shows "\<exists>d' fl'. dir_delete key del d = Some (d', \<exists>x \<in> set (B (key_bucket key d)). is_doc key del x) \<and>
    seg_rep d' (key_segment key d)
      (B(key_bucket key d := remove_first (is_doc key del) (B (key_bucket key d)))) fl' \<and>
    only_seg (key_segment key d) d d' \<and>
    dir_used d' = dir_used d - (if \<exists>x \<in> set (B (key_bucket key d)). is_doc key del x then 1 else 0)"
proof -
  let ?s = "key_segment key d" and ?b = "key_bucket key d" and ?m = "is_doc key del"
  from delete_rep [OF assms(1) key_bucket_less [OF assms(2), of key], of "DIR_MASK_TAG (key_word key 2)" "dir_offset del",
      folded is_doc_def]
  obtain r where r: "find_in_bucket ?s (DIR_MASK_TAG (key_word key 2)) (dir_offset del) (4 * ?b) d = Some r"
    "r \<noteq> None \<longleftrightarrow> (\<exists>x \<in> set (B ?b). ?m x)"
    "\<forall>e p d' q. r = Some (e, p) \<longrightarrow> dir_delete_entry e p ?s (add_used (- 1) d) = (d', q) \<longrightarrow>
       (\<exists>fl'. seg_rep d' ?s (B(?b := remove_first ?m (B ?b))) fl') \<and> only_seg ?s d d' \<and> dir_used d' = dir_used d - 1"
    by (elim exE conjE) (rule that)
  show ?thesis
  proof (cases r)
    case None
    then have no: "\<forall>x \<in> set (B ?b). \<not> ?m x" using r(2) by blast
    then show ?thesis
      using r(1) None assms(1) first_none [OF no]
      by (intro exI [of _ d] exI [of _ fl]) (simp add: dir_delete_def dir_bucket_mult Let_def fun_upd_idem)
  next
    case (Some ep)
    obtain e p where ep: "ep = (e, p)" by (cases ep)
    obtain d' q where del: "dir_delete_entry e p ?s (add_used (- 1) d) = (d', q)" by fastforce
    have yes: "\<exists>x \<in> set (B ?b). ?m x" using r(2) Some by blast
    have "dir_delete key del d = Some (d', True)"
      using r(1) Some ep del by (simp add: dir_delete_def dir_bucket_mult Let_def)
    moreover obtain fl' where "seg_rep d' ?s (B(?b := remove_first ?m (B ?b))) fl'"
      "only_seg ?s d d'" "dir_used d' = dir_used d - 1" using r(3) [rule_format, OF Some [unfolded ep] del] by blast
    ultimately show ?thesis using yes by (intro exI [of _ d'] exI [of _ fl']) simp
  qed
qed

theorem dir_delete_refines_witness:
  "\<exists>d d' fl'. dir_insert sample_key sample_entry sample_vol = Some d \<and>
    dir_delete sample_key sample_entry d = Some (d', True) \<and> seg_rep d' 0 (\<lambda>_. []) fl'"
proof -
  from sample_inserted obtain d fl where d: "dir_insert sample_key sample_entry sample_vol = Some d"
    "seg_rep d 0 ((\<lambda>_. [])(1 := [doc_entry sample_key sample_entry])) fl" "only_seg 0 sample_vol d" by blast
  note k = sample_keys_after [OF d(3)]
  have "seg_rep d (key_segment sample_key d) ((\<lambda>_. [])(1 := [doc_entry sample_key sample_entry])) fl"
    "0 < buckets d" using d(2) k by simp_all
  from dir_delete_refines [OF this, of sample_entry] k obtain d' fl' where
    "dir_delete sample_key sample_entry d = Some (d', True)"
    "seg_rep d' 0 ((\<lambda>_. [])(1 := [])) fl'" by (auto simp: remove_first_def)
  then show ?thesis using d(1) by (auto simp: fun_upd_idem)
qed

text \<open>
  C4. Lookup: without a collision to skip, \<open>dir_probe\<close> returns the first entry of the key's bucket that has
  the key's tag and is valid (none if there is none), and it deletes the entries with the tag
  that it passes and that are not valid; the rest of the directory is as before.
\<close>

theorem dir_probe_refines:
  assumes "seg_rep d (key_segment key d) B fl" "0 < buckets d"
  shows "\<exists>d' fl' r. dir_probe key None d = Some (d', r) \<and>
    map_option (\<lambda>p. payload (fst p)) r =
      find (\<lambda>x. dir_compare_tag x key \<and> dir_valid d x) (B (key_bucket key d)) \<and>
    seg_rep d' (key_segment key d)
      (B(key_bucket key d := probe_prune (\<lambda>x. dir_compare_tag x key) (dir_valid d) (B (key_bucket key d)))) fl' \<and>
    only_seg (key_segment key d) d d'"
proof -
  from probe_rep [OF assms(1) key_bucket_less [OF assms(2)], of key key] obtain d' fl' p r where
    1: "probe_pass key (key_segment key d) (4 * key_bucket key d) None None d = Some (d', p, None, r)"
    "seg_rep d' (key_segment key d)
      (B(key_bucket key d := probe_prune (\<lambda>x. dir_compare_tag x key) (dir_valid d) (B (key_bucket key d)))) fl'"
    "only_seg (key_segment key d) d d'"
    "map_option (\<lambda>e. payload (dirs d' (key_segment key d) e)) r =
       find (\<lambda>x. dir_compare_tag x key \<and> dir_valid d x) (B (key_bucket key d))" by blast
  have "dir_probe key None d = Some (d', map_option (\<lambda>e. (dirs d' (key_segment key d) e, e)) r)"
    using 1(1) by (cases r) (simp_all add: dir_probe_def dir_bucket_mult Let_def)
  then show ?thesis using 1(2-4)
    by (intro exI [of _ d'] exI [of _ fl'] exI [of _ "map_option (\<lambda>e. (dirs d' (key_segment key d) e, e)) r"])
      (simp add: option.map_comp comp_def)
qed

theorem dir_probe_refines_witness:
  "\<exists>d d' e. dir_insert sample_key sample_entry sample_vol = Some d \<and>
    dir_probe sample_key None d = Some (d', Some e) \<and> payload (fst e) = doc_entry sample_key sample_entry"
proof -
  from sample_inserted obtain d fl where d: "dir_insert sample_key sample_entry sample_vol = Some d"
    "seg_rep d 0 ((\<lambda>_. [])(1 := [doc_entry sample_key sample_entry])) fl" "only_seg 0 sample_vol d" by blast
  note k = sample_keys_after [OF d(3)]
  have v: "dir_valid d sample_entry"
    using d(3) sample_geometry only_seg_valid [OF d(3)]
    by (simp add: dir_valid_def geometry_def vol_in_phase_valid_def sample_offset sample_phase
        CACHE_BLOCK_SIZE_def c_div_nonneg)
  have "seg_rep d (key_segment sample_key d) ((\<lambda>_. [])(1 := [doc_entry sample_key sample_entry])) fl"
    "0 < buckets d" using d(2) k by simp_all
  from dir_probe_refines [OF this] k v show ?thesis
    using d(1) by (auto simp: dir_compare_tag_def map_option_case split: option.splits)
qed

text \<open>
  C7. Cleaning a segment returns, keeps exactly the valid entries of every bucket in their order,
  keeps the shape of the segment, and lowers the count of used entries by the number of entries
  removed.
\<close>

theorem dir_clean_segment_filters:
  assumes "seg_rep d s B fl"
  shows "\<exists>d' B' fl'. dir_clean_segment s d = Some d' \<and> seg_rep d' s B' fl' \<and> only_seg s d d' \<and>
    (\<forall>b < buckets d. B' b = filter (\<lambda>x. dir_valid d x \<and> dir_offset x \<noteq> 0) (B b)) \<and>
    dir_used d' = dir_used d -
      (\<Sum>b \<leftarrow> [0..<buckets d]. int (length (filter (\<lambda>x. \<not> dir_valid d x \<and> dir_offset x \<noteq> 0) (B b))))"
proof -
  have l: "live d = (\<lambda>x. dir_valid d x \<and> dir_offset x \<noteq> 0)" "stale d = (\<lambda>x. \<not> dir_valid d x \<and> dir_offset x \<noteq> 0)"
    by (simp_all add: fun_eq_iff live_def stale_def)
  have "set [0..<buckets d] \<subseteq> {..<buckets d}" "distinct [0..<buckets d]" by auto
  from clean_buckets_rep [OF assms this] obtain d' fl' where
    1: "clean_buckets [0..<buckets d] s d = Some d'"
    "seg_rep d' s (\<lambda>b. if b \<in> set [0..<buckets d] then filter (live d) (B b) else B b) fl'"
    "only_seg s d d'"
    "dir_used d' = dir_used d - (\<Sum>b \<leftarrow> [0..<buckets d]. int (length (filter (stale d) (B b))))" by blast
  show ?thesis
    unfolding l [symmetric] dir_clean_segment_def
    by (intro exI [of _ d'] exI [of _ "\<lambda>b. if b \<in> set [0..<buckets d] then filter (live d) (B b) else B b"]
        exI [of _ fl'] conjI 1) simp_all
qed

theorem dir_clean_segment_filters_witness:
  "\<exists>d d' B' fl'. dir_insert sample_key sample_entry sample_vol = Some d \<and>
     dir_clean_segment 0 d = Some d' \<and> seg_rep d' 0 B' fl' \<and> B' 1 = [doc_entry sample_key sample_entry]"
proof -
  from sample_inserted obtain d fl where d: "dir_insert sample_key sample_entry sample_vol = Some d"
    "seg_rep d 0 ((\<lambda>_. [])(1 := [doc_entry sample_key sample_entry])) fl" "only_seg 0 sample_vol d" by blast
  note k = sample_keys_after [OF d(3)]
  have v: "dir_valid d sample_entry"
    using d(3) sample_geometry only_seg_valid [OF d(3)]
    by (simp add: dir_valid_def geometry_def vol_in_phase_valid_def sample_offset sample_phase
        CACHE_BLOCK_SIZE_def c_div_nonneg)
  from dir_clean_segment_filters [OF d(2)] obtain d' B' fl' where
    "dir_clean_segment 0 d = Some d'" "seg_rep d' 0 B' fl'"
    "\<forall>b < buckets d. B' b = filter (\<lambda>x. dir_valid d x \<and> dir_offset x \<noteq> 0)
       (((\<lambda>_. [])(1 := [doc_entry sample_key sample_entry])) b)" by blast
  moreover from this have "B' 1 = [doc_entry sample_key sample_entry]" using k v by (simp add: sample_offset)
  ultimately show ?thesis using d(1) by blast
qed



lemma dir_valid_count [simp]: "dir_valid (count_collision h d) = dir_valid d"
  by (rule only_seg_valid [of 0]) simp

lemma sample_insert:
  "dir_offset x \<noteq> 0 \<Longrightarrow> \<exists>d fl. dir_insert sample_key x sample_vol = Some d \<and>
     seg_rep d 0 ((\<lambda>_. [])(1 := [doc_entry sample_key x])) fl \<and> only_seg 0 sample_vol d"
  using dir_insert_rep [of sample_vol sample_key "\<lambda>_. []" "rev (fresh_entries 2)" x] sample_rep
  unfolding sample_keys by (auto simp: insert_second_def)

definition late_entry :: dir where
  "late_entry = dir_set_offset 2000 dir_clear"

lemma late_entry: "dir_offset late_entry = 2000" "dir_phase late_entry = 0"
  by (simp_all add: late_entry_def dir_set_offset_def dir_clear_def dir_offset_def dir_phase_def dir_bit_def Let_def)

text \<open>
  C9. The predecessor that \<open>dir_probe\<close> keeps over its second pass is stale: when the collision of
  the caller is no longer in the bucket and the bucket's only entry has the key's tag but is not
  valid, the first entry of the bucket itself is put on the free list, and the segment has lost
  its shape for good (a later insertion will hand it out as a free entry).
\<close>

theorem dir_probe_stale_predecessor:
  assumes rep: "seg_rep d (key_segment key d) B fl" and b: "0 < buckets d" "key_bucket key d \<noteq> 0"
    and x: "B (key_bucket key d) = [x]" "dir_compare_tag x key" "\<not> dir_valid d x"
    and c: "c \<noteq> dir_bucket (key_bucket key d)"
  shows "\<exists>d'. dir_probe key (Some c) d = Some (d', None) \<and>
    freelist_head d' (key_segment key d) = dir_bucket (key_bucket key d) \<and>
    (\<nexists>B' fl'. seg_rep d' (key_segment key d) B' fl')"
proof -
  let ?s = "key_segment key d" and ?b = "key_bucket key d"
  have bl: "?b < buckets d" by (rule key_bucket_less [OF b(1)])
  from rep obtain cs where ok: "vol_ok d ?s cs fl {}" and B: "\<forall>b < buckets d. B b = bucket_of (dirs d ?s) cs b"
    unfolding seg_rep_def by blast
  have o: "dir_offset (dirs d ?s (4 * ?b)) \<noteq> 0" and xs: "[x] = map (\<lambda>e. payload (dirs d ?s e)) (4 * ?b # cs ?b)"
    using B bl x(1) by (auto simp: bucket_of_def split: if_splits)
  then have e: "x = payload (dirs d ?s (4 * ?b))" "cs ?b = []" by auto
  have m: "dir_compare_tag (dirs d ?s (4 * ?b)) key" "\<not> dir_valid d (dirs d ?s (4 * ?b))"
    using x(2,3) unfolding e(1) by simp_all
  have n0: "dir_next (dirs d ?s (4 * ?b)) = 0"
    using seg_chain [OF ok [unfolded vol_ok_def] bl] e(2) by (simp add: nx_def)
  then have n: "next_dir d ?s (4 * ?b) = None" by (simp add: next_dir_def)
  have c': "c \<noteq> 4 * ?b" using c by (simp add: dir_bucket_mult)
  have b4: "4 * ?b < 65536" using vol_bound(2) [OF ok bl] .
  have p1: "probe_pass key ?s (4 * ?b) None (Some c) d = Some (d, Some (4 * ?b), Some c, None)"
    using o m n c' by (simp add: probe_pass_def probe_chain.simps)
  let ?d = "add_used (- 1) (count_collision True d)"
  obtain d' r where del: "delete_linked (4 * ?b) (4 * ?b) ?s ?d = (d', r)" by fastforce
  have del': "r = None" "freelist_head d' ?s = 4 * ?b"
    using del n0 b4 by (auto simp: delete_linked_def Let_def)
  have "probe_pass key ?s (4 * ?b) (Some (4 * ?b)) None (count_collision True d) =
      Some (d', Some (4 * ?b), None, None)"
    using o m del del'(1)
    by (simp add: probe_pass_def probe_chain.simps dir_delete_entry_def)
  then have "dir_probe key (Some c) d = Some (d', None)"
    using p1 by (simp add: dir_probe_def dir_bucket_mult Let_def)
  moreover have "\<not> seg_rep d' ?s B' fl'" for B' fl'
  proof
    assume "seg_rep d' ?s B' fl'"
    then obtain cs' where ok': "vol_ok d' ?s cs' fl' {}" unfolding seg_rep_def by blast
    note sok = ok' [unfolded vol_ok_def]
    have "4 * ?b \<in> set fl'" using seg_free_head [OF sok] del'(2) b(2) by simp
    then show False using seg_not_head(1) [OF sok] by blast
  qed
  ultimately show ?thesis using del'(2) by (simp add: dir_bucket_mult)
qed


theorem dir_probe_stale_predecessor_witness:
  "\<exists>d d'. dir_insert sample_key late_entry sample_vol = Some d \<and>
     dir_probe sample_key (Some 1) d = Some (d', None) \<and> freelist_head d' 0 = 4"
proof -
  from sample_insert [of late_entry] late_entry obtain d fl where
    d: "dir_insert sample_key late_entry sample_vol = Some d"
    "seg_rep d 0 ((\<lambda>_. [])(1 := [doc_entry sample_key late_entry])) fl" "only_seg 0 sample_vol d" by auto
  note k = sample_keys_after [OF d(3)]
  have v: "\<not> dir_valid d late_entry"
    using d(3) sample_geometry only_seg_valid [OF d(3)]
    by (simp add: dir_valid_def geometry_def vol_in_phase_valid_def late_entry CACHE_BLOCK_SIZE_def c_div_nonneg)
  let ?B = "(\<lambda>_. [])(1 := [doc_entry sample_key late_entry])"
  have "seg_rep d (key_segment sample_key d) ?B fl" "0 < buckets d" "key_bucket sample_key d \<noteq> 0"
    "?B (key_bucket sample_key d) = [doc_entry sample_key late_entry]"
    "dir_compare_tag (doc_entry sample_key late_entry) sample_key"
    "\<not> dir_valid d (doc_entry sample_key late_entry)" "1 \<noteq> dir_bucket (key_bucket sample_key d)"
    using d(2) k v by (simp_all add: dir_compare_tag_def dir_bucket_mult)
  from dir_probe_stale_predecessor [OF this]
  have "\<exists>d'. dir_probe sample_key (Some 1) d = Some (d', None) \<and>
    freelist_head d' (key_segment sample_key d) = dir_bucket (key_bucket sample_key d) \<and>
    (\<nexists>B' fl'. seg_rep d' (key_segment sample_key d) B' fl')"
    by blast
  then show ?thesis using d(1) k by (auto simp: dir_bucket_mult)
qed

lemma clean_chain_all_live:
  assumes "vol_ok d s cs fl lim" "b < buckets d" "pre @ e # rest = 4 * b # cs b"
    "\<forall>x \<in> set (e # rest). live d (dirs d s x)"
  shows "clean_chain e p s d = Some d"
  using assms(3,4)
proof (induction rest arbitrary: pre e p)
  case Nil
  then show ?case using next_dir_rest [OF assms(1,2) Nil(1)]
    by (subst clean_chain.simps) (simp add: live_def first_of_def)
next
  case (Cons y rest)
  have "(pre @ [e]) @ y # rest = 4 * b # cs b" using Cons.prems(1) by simp
  from Cons.IH [OF this] Cons.prems(2) have "clean_chain y (Some e) s d = Some d" by auto
  then show ?case using next_dir_rest [OF assms(1,2) Cons.prems(1)] Cons.prems(2)
    by (subst clean_chain.simps) (simp add: live_def first_of_def)
qed

text \<open>A segment with no room: no free entry, no empty bucket, nothing to clean, nothing to purge.\<close>

definition seg_full :: "vol \<Rightarrow> nat \<Rightarrow> bool" where
  "seg_full d s \<longleftrightarrow> (\<exists>B. seg_rep d s B [] \<and>
     (\<forall>b < buckets d. B b \<noteq> [] \<and> (\<forall>x \<in> set (B b). dir_valid d x)) \<and>
     (\<forall>e < buckets d * DIR_DEPTH. dir_head (dirs d s e) = 0))"

lemma seg_full_pop:
  assumes "seg_full d s"
  shows "freelist_pop s d = Some (d, None)"
proof -
  from assms obtain B cs where ok: "vol_ok d s cs [] {}"
    and B: "\<forall>b < buckets d. B b = bucket_of (dirs d s) cs b"
    and live: "\<forall>b < buckets d. B b \<noteq> [] \<and> (\<forall>x \<in> set (B b). dir_valid d x)"
    and head: "\<forall>e < buckets d * DIR_DEPTH. dir_head (dirs d s e) = 0"
    unfolding seg_full_def seg_rep_def by blast
  have fl: "freelist_head d s = 0" using seg_head [OF ok [unfolded vol_ok_def]] by simp
  have one: "dir_clean_bucket (dir_bucket b) s d = Some d" if b: "b < buckets d" for b
  proof -
    have h: "dir_offset (dirs d s (4 * b)) \<noteq> 0" using live B b bucket_head(1) [OF ok b] by simp
    have p: "[] @ 4 * b # cs b = 4 * b # cs b" by simp
    have "\<forall>x \<in> set (bucket_of (dirs d s) cs b). dir_valid d x" using live B b by simp
    then have v: "\<forall>x \<in> set (4 * b # cs b). dir_valid d (dirs d s x)" using h by (simp add: bucket_of_def)
    have "\<forall>x \<in> set (4 * b # cs b). live d (dirs d s x)"
      using v h seg_used [OF ok [unfolded vol_ok_def] b] by (simp add: live_def)
    from clean_chain_all_live [OF ok b p this] show ?thesis by (simp add: dir_clean_bucket_def dir_bucket_mult)
  qed
  have "set is \<subseteq> {..<buckets d} \<Longrightarrow> clean_buckets is s d = Some d" for "is"
    by (induction "is") (simp_all add: one)
  then have clean: "dir_clean_segment s d = Some d" by (simp add: dir_clean_segment_def lessThan_atLeast0)
  have row: "set ls \<subseteq> {..<DIR_DEPTH} \<Longrightarrow> bi < buckets d \<Longrightarrow>
      fold (\<lambda>l. purge_entry s (dir_bucket_row (dir_bucket bi) l)) ls (d, n) = (d, n)" for ls bi n
    using head by (induction ls) (auto simp: purge_entry_def dir_bucket_row_def dir_bucket_def DIR_DEPTH_def)
  have row4: "bi < buckets d \<Longrightarrow>
      fold (\<lambda>l. purge_entry s (dir_bucket_row (dir_bucket bi) l)) [0..<DIR_DEPTH] (d, n) = (d, n)" for bi n
    by (rule row) auto
  have "set bs \<subseteq> {..<buckets d} \<Longrightarrow> fold (\<lambda>bi. fold (\<lambda>l. purge_entry s (dir_bucket_row (dir_bucket bi) l))
      [0..<DIR_DEPTH]) bs (d, n) = (d, n)" for bs n
    using row4 by (induction bs) auto
  then have "freelist_clean s d = Some d"
    using clean fl by (simp add: freelist_clean_def freelist_head_def unat_eq_zero lessThan_atLeast0)
  then show ?thesis using fl by (simp add: freelist_pop_def)
qed

text \<open>
  C10. \<open>dir_insert\<close> does not return when the segment is full and neither cleaning nor purging can make room:
  every entry is valid and none is marked as the head of a document (only those are purged).
\<close>

theorem dir_insert_full_diverges:
  assumes "seg_full d (key_segment key d)" "0 < buckets d"
  shows "dir_insert key x d = None"
proof -
  let ?s = "key_segment key d" and ?b = "dir_bucket (key_bucket key d)"
  have bl: "key_bucket key d < buckets d" by (rule key_bucket_less [OF assms(2)])
  from assms(1) obtain B cs where ok: "vol_ok d ?s cs [] {}"
    and B: "\<forall>b < buckets d. B b = bucket_of (dirs d ?s) cs b" "\<forall>b < buckets d. B b \<noteq> []"
    unfolding seg_full_def seg_rep_def by blast
  have h: "\<not> dir_is_empty (ent d ?s ?b)"
    using B bl bucket_head(1) [OF ok bl] by (simp add: dir_is_empty_def dir_bucket_mult)
  have row: "find_empty_row ?s ?b d = None"
    using find_empty_row_free [OF ok bl] by (cases "find_empty_row ?s ?b d") (auto simp: dir_bucket_mult)
  have "d0 \<noteq> d \<or> s0 \<noteq> ?s \<or> b0 \<noteq> ?b" if "insert_loop k0 s0 b0 x0 d0 = Some y" for k0 s0 b0 x0 d0 y
    by (rule insert_loop.raw_induct [where P = "\<lambda>k0 s0 b0 x0 d0 y. d0 \<noteq> d \<or> s0 \<noteq> ?s \<or> b0 \<noteq> ?b", OF _ that])
      (use h row seg_full_pop [OF assms(1)] in \<open>auto, blast\<close>)
  then have "insert_loop key ?s ?b x d = None" by (cases "insert_loop key ?s ?b x d") blast+
  then show ?thesis by (simp add: dir_insert_def)
qed

definition full_vol :: vol where
  "full_vol = \<lparr>dirs = (\<lambda>_ e. \<lparr>w0 = of_nat (e + 1), w1 = 0, w2 = 0, w3 = of_nat ((e + 1) mod 4), w4 = 0\<rparr>),
     freelist = (\<lambda>_. 0), phase = 0, dirty = False, write_pos = 1024 * 512, agg_pos = 2048 * 512,
     agg_buf_pos = 0, vstart = 0, segments = 1, buckets = 1, dir_used = 4, dir_collisions = 0\<rparr>"

lemma full_vol_ok: "vol_ok full_vol 0 (\<lambda>_. [1, 2, 3]) [] {}"
proof -
  have nx: "nx (dirs full_vol 0) e = (e + 1) mod 4" for e
    by (simp add: nx_def dir_next_def full_vol_def unat_of_nat)
  have off: "dir_offset (dirs full_vol 0 e) \<noteq> 0" if "e < 4" for e
  proof -
    have "e \<in> {0, 1, 2, 3}" using that by auto
    then show ?thesis by (auto simp: full_vol_def dir_offset_def)
  qed
  have "seg_ok 1 (dirs full_vol 0) 0 (\<lambda>_. [1, 2, 3]) [] {}"
  proof (rule seg_okI)
    show "links_of 1 = set [] \<union> {} \<union> (\<Union>b<1 :: nat. set [1, 2, 3])"
    proof -
      have "e < 4 \<and> e mod 4 \<noteq> 0 \<longleftrightarrow> e \<in> {1, 2, 3}" for e :: nat by (cases "e < 4") auto
      then show ?thesis by (auto simp: links_of_def)
    qed
  qed (use off in \<open>auto simp: nx\<close>)
  then show ?thesis by (simp add: vol_ok_def full_vol_def freelist_head_def)
qed

lemma full_vol_entries:
  assumes "e < 4"
  shows "dir_offset (dirs full_vol 0 e) = int e + 1" "dir_phase (dirs full_vol 0 e) = 0"
    "dir_head (dirs full_vol 0 e) = 0"
proof -
  have "e \<in> {0, 1, 2, 3}" using assms by auto
  then show "dir_offset (dirs full_vol 0 e) = int e + 1" by (auto simp: full_vol_def dir_offset_def)
qed (simp_all add: full_vol_def dir_phase_def dir_bit_def dir_head_def)

lemma full_vol_valid: "e < 4 \<Longrightarrow> dir_valid full_vol (dirs full_vol 0 e)"
proof -
  assume e: "e < 4"
  have "phase full_vol = 0" "c_div (write_pos full_vol + agg_buf_pos full_vol - vstart full_vol) CACHE_BLOCK_SIZE = 1024"
    by (simp_all add: full_vol_def CACHE_BLOCK_SIZE_def c_div_nonneg)
  then show ?thesis using full_vol_entries [OF e] e by (simp add: dir_valid_def vol_in_phase_valid_def)
qed

lemma full_vol_full: "seg_full full_vol 0"
proof -
  let ?B = "\<lambda>b. bucket_of (dirs full_vol 0) (\<lambda>_. [1, 2, 3]) b"
  have "seg_rep full_vol 0 ?B []" using full_vol_ok by (auto simp: seg_rep_def)
  moreover have bu: "buckets full_vol = 1" by (simp add: full_vol_def)
  moreover have "?B 0 = map (\<lambda>e. payload (dirs full_vol 0 e)) [0, 1, 2, 3]"
    using full_vol_entries(1) [of 0] by (simp add: bucket_of_def)
  moreover have "\<forall>e < 4. dir_valid full_vol (dirs full_vol 0 e) \<and> dir_head (dirs full_vol 0 e) = 0"
    using full_vol_valid full_vol_entries(3) by blast
  ultimately show ?thesis
    unfolding seg_full_def by (intro exI [of _ ?B]) (auto simp: DIR_DEPTH_def)
qed

theorem dir_insert_full_diverges_witness:
  "dir_insert sample_key sample_entry full_vol = None"
proof (rule dir_insert_full_diverges)
  show "0 < buckets full_vol" by (simp add: full_vol_def)
  have "key_segment sample_key full_vol = 0" by (simp add: key_segment_def full_vol_def)
  then show "seg_full full_vol (key_segment sample_key full_vol)" using full_vol_full by simp
qed

end
