(* ===== verification/RamCache.thy ===== *)
theory RamCache
  imports Links CacheDir
begin

text \<open>
  The RAM cache of iocore/cache/RamCacheLRU.cc: entries in a hash table of doubly linked chains
  and, through a second pair of links, in a queue in the order of their last use. Entries are
  addresses, their links two stores of the pointer operations of theory Links. The allocator is a
  parameter: \<open>ram_put\<close> is given the address it would return.
\<close>

section \<open>The code\<close>

record iobuf_data =
  buf_id :: nat
  block_size :: int

record ram_entry =
  rkey :: cache_key
  auxkey1 :: u32
  auxkey2 :: u32
  rdata :: iobuf_data

record ram =
  max_bytes :: int
  bytes :: int
  objects :: int
  seen :: "nat \<Rightarrow> u16"
  lru :: que
  lru_lk :: links
  bucket :: "nat \<Rightarrow> nat"
  hash_lk :: links
  nbuckets :: nat
  ibuckets :: nat
  ents :: "nat \<Rightarrow> ram_entry"

definition bucket_sizes :: "nat list" where
  "bucket_sizes = [127, 251, 509, 1021, 2039, 4093, 8191, 16381, 32749, 65521, 131071, 262139,
     524287, 1048573, 2097143, 4194301, 8388593, 16777213, 33554393, 67108859,
     134217689, 268435399, 536870909]"

definition hash_of :: "cache_key \<Rightarrow> nat \<Rightarrow> nat" where
  "hash_of k n = unat (key_word k 3) mod n"

text \<open>One chain of the old table moves to the new one, entry by entry.\<close>

partial_function (option) rehash_chain ::
    "ram \<Rightarrow> nat \<Rightarrow> links \<Rightarrow> nat \<Rightarrow> (nat \<Rightarrow> nat) \<Rightarrow> (links \<times> (nat \<Rightarrow> nat)) option" where
  "rehash_chain r an lk head nb =
     (case dll_pop lk head of (lk1, head', e) \<Rightarrow>
        (if e = 0 then Some (lk1, nb)
         else (case dll_push lk1 (nb (hash_of (rkey (ents r e)) an)) e of (lk2, h) \<Rightarrow>
                 rehash_chain r an lk2 head' (nb(hash_of (rkey (ents r e)) an := h)))))"

fun rehash_chains ::
    "ram \<Rightarrow> nat \<Rightarrow> nat list \<Rightarrow> links \<Rightarrow> (nat \<Rightarrow> nat) \<Rightarrow> (links \<times> (nat \<Rightarrow> nat)) option" where
  "rehash_chains r an [] lk nb = Some (lk, nb)"
| "rehash_chains r an (i # is) lk nb =
     (case rehash_chain r an lk (bucket r i) nb of
        None \<Rightarrow> None | Some (lk', nb') \<Rightarrow> rehash_chains r an is lk' nb')"

definition resize_hashtable :: "ram \<Rightarrow> ram option" where
  "resize_hashtable r =
     (case load bucket_sizes (ibuckets r) of
        None \<Rightarrow> None
      | Some an \<Rightarrow>
          (case rehash_chains r an [0..<nbuckets r] (hash_lk r) (\<lambda>_. 0) of
             None \<Rightarrow> None
           | Some (lk, nb) \<Rightarrow> Some (r\<lparr>hash_lk := lk, bucket := nb, nbuckets := an, seen := (\<lambda>_. 0)\<rparr>)))"

definition ram_new :: "(nat \<Rightarrow> ram_entry) \<Rightarrow> ram" where
  "ram_new en = \<lparr>max_bytes = 0, bytes = 0, objects = 0, seen = (\<lambda>_. 0), lru = que_clear,
     lru_lk = \<lparr>nxt = (\<lambda>_. 0), prv = (\<lambda>_. 0)\<rparr>, bucket = (\<lambda>_. 0),
     hash_lk = \<lparr>nxt = (\<lambda>_. 0), prv = (\<lambda>_. 0)\<rparr>, nbuckets = 0, ibuckets = 0, ents = en\<rparr>"

definition ram_init :: "int \<Rightarrow> ram \<Rightarrow> ram option" where
  "ram_init abytes r =
     (let r1 = r\<lparr>max_bytes := abytes\<rparr> in if abytes = 0 then Some r1 else resize_hashtable r1)"

definition entry_match :: "cache_key \<Rightarrow> u32 \<Rightarrow> u32 \<Rightarrow> ram_entry \<Rightarrow> bool" where
  "entry_match k a1 a2 x \<longleftrightarrow> rkey x = k \<and> auxkey1 x = a1 \<and> auxkey2 x = a2"

partial_function (option) ram_find :: "ram \<Rightarrow> cache_key \<Rightarrow> u32 \<Rightarrow> u32 \<Rightarrow> nat \<Rightarrow> nat option option" where
  "ram_find r k a1 a2 e =
     (if e = 0 then Some None
      else if entry_match k a1 a2 (ents r e) then Some (Some e)
      else ram_find r k a1 a2 (nxt (hash_lk r) e))"

text \<open>\<open>lru.remove(e); lru.enqueue(e)\<close>.\<close>

definition touch :: "nat \<Rightarrow> ram \<Rightarrow> ram" where
  "touch e r =
     (case que_remove (lru_lk r) (lru r) e of (l, q) \<Rightarrow>
      case que_enqueue l q e of (l', q') \<Rightarrow> r\<lparr>lru_lk := l', lru := q'\<rparr>)"

definition ram_get :: "cache_key \<Rightarrow> u32 \<Rightarrow> u32 \<Rightarrow> ram \<Rightarrow> (ram \<times> iobuf_data option) option" where
  "ram_get k a1 a2 r =
     (if max_bytes r = 0 then Some (r, None)
      else (case ram_find r k a1 a2 (bucket r (hash_of k (nbuckets r))) of
              None \<Rightarrow> None
            | Some None \<Rightarrow> Some (r, None)
            | Some (Some e) \<Rightarrow> Some (touch e r, Some (rdata (ents r e)))))"

definition ram_remove :: "nat \<Rightarrow> ram \<Rightarrow> ram \<times> nat" where
  "ram_remove e r =
     (let ret = nxt (hash_lk r) e;
          b = hash_of (rkey (ents r e)) (nbuckets r);
          (hl, h) = dll_remove (hash_lk r) (bucket r b) e;
          (l, q) = que_remove (lru_lk r) (lru r) e
      in (r\<lparr>hash_lk := hl, bucket := (bucket r)(b := h), lru_lk := l, lru := q,
            bytes := bytes r - block_size (rdata (ents r e)), objects := objects r - 1\<rparr>, ret))"

text \<open>The first loop of \<open>put\<close>; \<open>True\<close>: an entry with all three keys was there.\<close>

partial_function (option) put_scan :: "cache_key \<Rightarrow> u32 \<Rightarrow> u32 \<Rightarrow> nat \<Rightarrow> ram \<Rightarrow> (ram \<times> bool) option" where
  "put_scan k a1 a2 e r =
     (if e = 0 then Some (r, False)
      else if rkey (ents r e) = k
      then (if auxkey1 (ents r e) = a1 \<and> auxkey2 (ents r e) = a2 then Some (touch e r, True)
            else (case ram_remove e r of (r', e') \<Rightarrow> put_scan k a1 a2 e' r'))
      else put_scan k a1 a2 (nxt (hash_lk r) e) r)"

partial_function (option) evict :: "ram \<Rightarrow> ram option" where
  "evict r =
     (if bytes r > max_bytes r
      then (case que_dequeue (lru_lk r) (lru r) of (l, q, ee) \<Rightarrow>
              (if ee \<noteq> 0 then evict (fst (ram_remove ee (r\<lparr>lru_lk := l, lru := q\<rparr>)))
               else Some (r\<lparr>lru_lk := l, lru := q\<rparr>)))
      else Some r)"

definition ram_add :: "nat \<Rightarrow> ram_entry \<Rightarrow> ram \<Rightarrow> ram" where
  "ram_add a x r =
     (let i = hash_of (rkey x) (nbuckets r);
          (hl, h) = dll_push (hash_lk r) (bucket r i) a;
          (l, q) = que_enqueue (lru_lk r) (lru r) a
      in r\<lparr>ents := (ents r)(a := x), hash_lk := hl, bucket := (bucket r)(i := h), lru_lk := l, lru := q,
           bytes := bytes r + block_size (rdata x), objects := objects r + 1\<rparr>)"

text \<open>
  The filter of \<open>put\<close>: an object is taken only when its key was the last one that was put in
  its place of the table.
\<close>

definition seen_filter :: "bool \<Rightarrow> cache_key \<Rightarrow> ram \<Rightarrow> ram \<times> bool" where
  "seen_filter use_seen k r =
     (let i = hash_of k (nbuckets r); kw = (ucast (drop_bit 16 (key_word k 3)) :: u16)
      in if use_seen then (r\<lparr>seen := (seen r)(i := kw)\<rparr>, seen r i = kw) else (r, True))"

definition ram_put ::
    "bool \<Rightarrow> nat \<Rightarrow> cache_key \<Rightarrow> iobuf_data \<Rightarrow> u32 \<Rightarrow> u32 \<Rightarrow> ram \<Rightarrow> (ram \<times> bool) option" where
  "ram_put use_seen a k d a1 a2 r =
     (if max_bytes r = 0 then Some (r, False)
      else
        (case seen_filter use_seen k r of (r0, pass) \<Rightarrow>
          (if \<not> pass then Some (r0, False)
           else
             (case put_scan k a1 a2 (bucket r0 (hash_of k (nbuckets r0))) r0 of
                None \<Rightarrow> None
              | Some (r1, True) \<Rightarrow> Some (r1, True)
              | Some (r1, False) \<Rightarrow>
                  (case evict (ram_add a \<lparr>rkey = k, auxkey1 = a1, auxkey2 = a2, rdata = d\<rparr> r1) of
                     None \<Rightarrow> None
                   | Some r2 \<Rightarrow>
                       (if objects r2 > int (nbuckets r2)
                        then map_option (\<lambda>r3. (r3, True)) (resize_hashtable (r2\<lparr>ibuckets := Suc (ibuckets r2)\<rparr>))
                        else Some (r2, True)))))))"

definition ram_fixup :: "cache_key \<Rightarrow> u32 \<Rightarrow> u32 \<Rightarrow> u32 \<Rightarrow> u32 \<Rightarrow> ram \<Rightarrow> (ram \<times> bool) option" where
  "ram_fixup k o1 o2 n1 n2 r =
     (if max_bytes r = 0 then Some (r, False)
      else (case ram_find r k o1 o2 (bucket r (hash_of k (nbuckets r))) of
              None \<Rightarrow> None
            | Some None \<Rightarrow> Some (r, False)
            | Some (Some e) \<Rightarrow>
                Some (r\<lparr>ents := (ents r)(e := (ents r e)\<lparr>auxkey1 := n1, auxkey2 := n2\<rparr>)\<rparr>, True)))"

end
