(* ===== verification/RamCacheSpec.thy ===== *)
theory RamCacheSpec
  imports RamCache
begin

text \<open>
  The RAM cache as a client sees it: the entries in the order of their last use. The hash table
  holds exactly the entries of the queue, each in the chain of its key, the byte and object counts
  are those of the entries, and keys are distinct (\<open>ram_rep\<close>). Over that list \<open>get\<close> moves the
  entry it finds to the end and \<open>put\<close> drops the entries of the key, appends the new one and cuts
  the front off until the rest fits.
\<close>

section \<open>Chains of the hash table\<close>

lemma dll_push_frame: "dll_rep l h xs \<Longrightarrow> dll_push l h e = (l', h') \<Longrightarrow> agree_off (insert e (set xs)) l l'"
  by (cases xs) (auto simp: dll_push_def dll_rep_def agree_off_def)

lemma dll_pop_frame: "dll_rep l h xs \<Longrightarrow> dll_pop l h = (l', h', e) \<Longrightarrow> agree_off (set xs) l l'"
  by (cases xs rule: remdups_adj.cases) (auto simp: dll_pop_def dll_rep_def agree_off_def)

lemma dll_remove_frame:
  assumes "dll_rep l h (as @ e # bs)" "dll_remove l h e = (l', h')"
  shows "agree_off (set (as @ e # bs)) l l'"
proof -
  have p: "prv l e = last0 0 as" "nxt l e = hd0 bs 0" "e \<noteq> 0"
    using assms(1) by (auto simp: dll_rep_def linked_append)
  have "prv l e = 0 \<or> prv l e \<in> set as" "nxt l e = 0 \<or> nxt l e \<in> set bs"
    unfolding p by (auto simp: last0_def hd0_def)
  then show ?thesis
    using assms(2) p(3) by (auto simp: dll_remove_def Let_def agree_off_def split: if_splits)
qed

lemma agree_off_dll_rep: "agree_off S l l' \<Longrightarrow> S \<inter> set ys = {} \<Longrightarrow> dll_rep l r ys \<Longrightarrow> dll_rep l' r ys"
  by (simp add: dll_rep_def agree_off_linked)

lemma agree_off_trans: "agree_off S l l1 \<Longrightarrow> agree_off T l1 l2 \<Longrightarrow> agree_off (S \<union> T) l l2"
  by (simp add: agree_off_def)

lemma agree_off_mono: "agree_off S l l' \<Longrightarrow> S \<subseteq> T \<Longrightarrow> agree_off T l l'"
  by (auto simp: agree_off_def)

lemma dll_next: "dll_rep l h (as @ e # bs) \<Longrightarrow> nxt l e = hd0 bs 0 \<and> e \<noteq> 0"
  by (simp add: dll_rep_def linked_append)

lemma dll_head: "dll_rep l h xs \<Longrightarrow> h = hd0 xs 0"
  by (simp add: dll_rep_def)

lemma dll_distinct: "dll_rep l h xs \<Longrightarrow> distinct xs \<and> 0 \<notin> set xs"
  by (auto simp: dll_rep_def dest: linked_nonzero)

section \<open>What a cache stands for\<close>

definition hash_ok :: "ram \<Rightarrow> (nat \<Rightarrow> nat list) \<Rightarrow> nat set \<Rightarrow> bool" where
  "hash_ok r bk M \<longleftrightarrow> 0 < nbuckets r \<and>
     (\<forall>b < nbuckets r. dll_rep (hash_lk r) (bucket r b) (bk b) \<and>
        (\<forall>e \<in> set (bk b). hash_of (rkey (ents r e)) (nbuckets r) = b)) \<and>
     M = (\<Union>b < nbuckets r. set (bk b)) \<and> (\<forall>x. x \<noteq> 0 \<longrightarrow> x \<notin> M \<longrightarrow> detached (hash_lk r) x)"

definition lru_ok :: "ram \<Rightarrow> nat list \<Rightarrow> bool" where
  "lru_ok r L \<longleftrightarrow> que_rep (lru_lk r) (lru r) L \<and> (\<forall>x. x \<noteq> 0 \<longrightarrow> x \<notin> set L \<longrightarrow> detached (lru_lk r) x)"

definition held :: "ram_entry list \<Rightarrow> int" where
  "held V = sum_list (map (\<lambda>x. block_size (rdata x)) V)"

definition ram_view :: "ram \<Rightarrow> nat list \<Rightarrow> ram_entry list" where
  "ram_view r L = map (ents r) L"

definition ram_rep :: "ram \<Rightarrow> nat list \<Rightarrow> bool" where
  "ram_rep r L \<longleftrightarrow> (\<exists>bk. hash_ok r bk (set L)) \<and> lru_ok r L \<and>
     bytes r = held (ram_view r L) \<and> objects r = int (length L) \<and> distinct (map rkey (ram_view r L))"

text \<open>The fields that only \<open>ram_add\<close> and the resizing change.\<close>

definition same_table :: "ram \<Rightarrow> ram \<Rightarrow> bool" where
  "same_table r r' \<longleftrightarrow> ents r' = ents r \<and> nbuckets r' = nbuckets r \<and> ibuckets r' = ibuckets r \<and>
     max_bytes r' = max_bytes r \<and> seen r' = seen r"

lemma hash_okD:
  assumes "hash_ok r bk M"
  shows hash_size: "0 < nbuckets r"
    and hash_chain: "b < nbuckets r \<Longrightarrow> dll_rep (hash_lk r) (bucket r b) (bk b)"
    and hash_home: "b < nbuckets r \<Longrightarrow> e \<in> set (bk b) \<Longrightarrow> hash_of (rkey (ents r e)) (nbuckets r) = b"
    and hash_all: "M = (\<Union>b < nbuckets r. set (bk b))"
    and hash_det: "x \<noteq> 0 \<Longrightarrow> x \<notin> M \<Longrightarrow> detached (hash_lk r) x"
  using assms unfolding hash_ok_def by (blast, blast, blast, blast, blast)

lemma hash_of_less: "0 < n \<Longrightarrow> hash_of k n < n"
  by (simp add: hash_of_def)

lemma hash_ok_home:
  assumes "hash_ok r bk M" "e \<in> M"
  shows "e \<in> set (bk (hash_of (rkey (ents r e)) (nbuckets r)))" "hash_of (rkey (ents r e)) (nbuckets r) < nbuckets r"
proof -
  obtain b where b: "b < nbuckets r" "e \<in> set (bk b)" using hash_all [OF assms(1)] assms(2) by blast
  then show "e \<in> set (bk (hash_of (rkey (ents r e)) (nbuckets r)))" using hash_home [OF assms(1) b] by simp
  show "hash_of (rkey (ents r e)) (nbuckets r) < nbuckets r" by (rule hash_of_less [OF hash_size [OF assms(1)]])
qed

lemma hash_ok_unique:
  "hash_ok r bk M \<Longrightarrow> b < nbuckets r \<Longrightarrow> b' < nbuckets r \<Longrightarrow> e \<in> set (bk b) \<Longrightarrow> e \<in> set (bk b') \<Longrightarrow> b = b'"
  using hash_home [of r bk M b e] hash_home [of r bk M b' e] by simp

lemma hash_sub: "hash_ok r bk M \<Longrightarrow> b < nbuckets r \<Longrightarrow> set (bk b) \<subseteq> M"
  using hash_all [of r bk M] by blast

lemma hash_ok_cong:
  "hash_ok r bk M \<Longrightarrow> hash_lk r' = hash_lk r \<Longrightarrow> bucket r' = bucket r \<Longrightarrow> ents r' = ents r \<Longrightarrow>
   nbuckets r' = nbuckets r \<Longrightarrow> hash_ok r' bk M"
  by (simp add: hash_ok_def)

lemma lru_ok_cong: "lru_ok r L \<Longrightarrow> lru_lk r' = lru_lk r \<Longrightarrow> lru r' = lru r \<Longrightarrow> lru_ok r' L"
  by (simp add: lru_ok_def)

lemma hash_remove:
  assumes ok: "hash_ok r bk M" and e: "e \<in> M"
    and rm: "dll_remove (hash_lk r) (bucket r b) e = (hl, h)" and b: "b = hash_of (rkey (ents r e)) (nbuckets r)"
    and r': "hash_lk r' = hl" "bucket r' = (bucket r)(b := h)" "ents r' = ents r" "nbuckets r' = nbuckets r"
    and split: "bk b = cs @ e # ds"
  shows "hash_ok r' (bk(b := cs @ ds)) (M - {e})" "nxt (hash_lk r) e = hd0 ds 0"
proof -
  have bl: "b < nbuckets r" using hash_ok_home(2) [OF ok e] b by simp
  have d: "dll_rep (hash_lk r) (bucket r b) (cs @ e # ds)" using hash_chain [OF ok bl] split by simp
  show "nxt (hash_lk r) e = hd0 ds 0" using dll_next [OF d] by simp
  have d': "dll_rep hl h (cs @ ds)" "detached hl e" using dll_remove_rep [OF d] rm by auto
  have fr: "agree_off (set (bk b)) (hash_lk r) hl" using dll_remove_frame [OF d rm] split by simp
  have eq: "(\<Union>c < nbuckets r. set ((bk(b := cs @ ds)) c)) = M - {e}"
  proof -
    have "e \<notin> set (cs @ ds)" using dll_distinct [OF d] by simp
    moreover have "e \<notin> set (bk c)" if "c < nbuckets r" "c \<noteq> b" for c
      using hash_ok_unique [OF ok that(1) bl, of e] that(2) split by auto
    ultimately have "set ((bk(b := cs @ ds)) c) = set (bk c) - {e}" if "c < nbuckets r" for c
      using that split by auto
    then show ?thesis unfolding hash_all [OF ok] by blast
  qed
  have oth: "dll_rep hl (bucket r c) (bk c)" if "c < nbuckets r" "c \<noteq> b" for c
  proof (rule agree_off_dll_rep [OF fr])
    show "set (bk b) \<inter> set (bk c) = {}" using hash_ok_unique [OF ok that(1) bl] that(2) by blast
    show "dll_rep (hash_lk r) (bucket r c) (bk c)" by (rule hash_chain [OF ok that(1)])
  qed
  have det: "detached hl x" if "x \<noteq> 0" "x \<notin> M - {e}" for x
  proof (cases "x = e")
    case False
    then have "x \<notin> M" using that by simp
    moreover have "set (bk b) \<subseteq> M" by (rule hash_sub [OF ok bl])
    moreover have "detached (hash_lk r) x" by (rule hash_det [OF ok that(1) \<open>x \<notin> M\<close>])
    ultimately show ?thesis using agree_off_detached [OF fr] by blast
  qed (use d' in simp)
  show "hash_ok r' (bk(b := cs @ ds)) (M - {e})"
    unfolding hash_ok_def r' eq
  proof (intro conjI allI impI ballI refl det)
    show "0 < nbuckets r" by (rule hash_size [OF ok])
    fix c assume c: "c < nbuckets r"
    show "dll_rep hl (((bucket r)(b := h)) c) ((bk(b := cs @ ds)) c)"
      using d'(1) oth [OF c] by simp
    show "hash_of (rkey (ents r x)) (nbuckets r) = c" if "x \<in> set ((bk(b := cs @ ds)) c)" for x
      using that hash_home [OF ok c, of x] split by (auto split: if_splits)
  qed
qed

lemma lru_remove:
  assumes ok: "lru_ok r L" and e: "e \<noteq> 0" and rm: "que_remove (lru_lk r) (lru r) e = (l, q)"
    and r': "lru_lk r' = l" "lru r' = q"
  shows "lru_ok r' (remove1 e L)"
proof (cases "e \<in> set L")
  case True
  then obtain as bs where L: "L = as @ e # bs" by (meson split_list)
  have q: "que_rep (lru_lk r) (lru r) (as @ e # bs)" using ok L by (simp add: lru_ok_def)
  have nas: "e \<notin> set as" using que_rep_distinct [OF q] by auto
  have q': "que_rep l q (as @ bs)" "detached l e" using que_remove_rep [OF q] rm by auto
  have fr: "agree_off (set L) (lru_lk r) l" using que_remove_frame [OF q rm] L by simp
  have "detached l x" if "x \<noteq> 0" "x \<notin> set (as @ bs)" for x
    using that q'(2) agree_off_detached [OF fr, of x] ok L by (cases "x = e") (auto simp: lru_ok_def)
  then show ?thesis using q'(1) nas L by (simp add: lru_ok_def r' remove1_append)
next
  case False
  then have "que_remove (lru_lk r) (lru r) e = (lru_lk r, lru r)"
    using ok e by (intro que_remove_detached [of _ _ L]) (auto simp: lru_ok_def)
  then show ?thesis using ok rm False by (simp add: lru_ok_def r' remove1_idem)
qed

lemma ram_remove_ok:
  assumes hash: "hash_ok r bk M" and lru: "lru_ok r L" and e: "e \<in> M"
    and b: "b = hash_of (rkey (ents r e)) (nbuckets r)" "bk b = cs @ e # ds"
    and rm: "ram_remove e r = (r', ret)"
  shows "hash_ok r' (bk(b := cs @ ds)) (M - {e})" "lru_ok r' (remove1 e L)" "ret = hd0 ds 0"
    "same_table r r'" "bytes r' = bytes r - block_size (rdata (ents r e))" "objects r' = objects r - 1"
proof -
  obtain hl h where 1: "dll_remove (hash_lk r) (bucket r b) e = (hl, h)" by fastforce
  obtain l q where 2: "que_remove (lru_lk r) (lru r) e = (l, q)" by fastforce
  have r': "r' = r\<lparr>hash_lk := hl, bucket := (bucket r)(b := h), lru_lk := l, lru := q,
            bytes := bytes r - block_size (rdata (ents r e)), objects := objects r - 1\<rparr>"
    "ret = nxt (hash_lk r) e"
    using rm 1 2 b(1) by (simp_all add: ram_remove_def Let_def)
  note h = hash_remove [OF hash e 1 b(1) _ _ _ _ b(2), of r']
  show "hash_ok r' (bk(b := cs @ ds)) (M - {e})" by (rule h(1)) (simp_all add: r')
  show "ret = hd0 ds 0" using h(2) by (simp add: r')
  have "e \<noteq> 0"
  proof -
    have "dll_rep (hash_lk r) (bucket r b) (cs @ e # ds)"
      using hash_chain [OF hash] hash_ok_home(2) [OF hash e] b by metis
    then show ?thesis using dll_next by blast
  qed
  then show "lru_ok r' (remove1 e L)" using lru_remove [OF lru _ 2] by (simp add: r')
  show "same_table r r'" "bytes r' = bytes r - block_size (rdata (ents r e))" "objects r' = objects r - 1"
    by (simp_all add: r' same_table_def)
qed

lemma held_simps [simp]: "held [] = 0" "held (x # xs) = block_size (rdata x) + held xs"
  "held (xs @ ys) = held xs + held ys"
  by (simp_all add: held_def)

lemma held_remove1: "e \<in> set L \<Longrightarrow> held (map f (remove1 e L)) = held (map f L) - block_size (rdata (f e))"
  by (induction L) auto

lemma ram_rep_remove:
  assumes rep: "ram_rep r L" and hash: "hash_ok r bk (set L)" and e: "e \<in> set L"
    and rm: "ram_remove e r = (r', ret)" and b: "b = hash_of (rkey (ents r e)) (nbuckets r)" "bk b = cs @ e # ds"
  shows "ram_rep r' (remove1 e L)" "hash_ok r' (bk(b := cs @ ds)) (set (remove1 e L))" "ret = hd0 ds 0" "same_table r r'"
proof -
  have L: "lru_ok r L" "distinct L" using rep by (auto simp: ram_rep_def ram_view_def distinct_map)
  note x = ram_remove_ok [OF hash L(1) e b rm]
  have s: "set L - {e} = set (remove1 e L)" using L(2) by (simp add: set_remove1_eq)
  show h: "hash_ok r' (bk(b := cs @ ds)) (set (remove1 e L))" using x(1) s by simp
  show "ret = hd0 ds 0" "same_table r r'" by (rule x)+
  have en: "ents r' = ents r" using x(4) by (simp add: same_table_def)
  have "distinct (map rkey (ram_view r (remove1 e L)))"
    using rep by (auto simp: ram_rep_def ram_view_def distinct_map inj_on_def dest: notin_set_remove1)
  moreover have "objects r' = int (length (remove1 e L))"
  proof -
    have "length L = Suc (length (remove1 e L))"
      using e length_pos_if_in_set [OF e] by (simp add: length_remove1)
    then show ?thesis using x(6) rep by (simp add: ram_rep_def)
  qed
  ultimately show "ram_rep r' (remove1 e L)"
    using h x(2,5) rep held_remove1 [OF e, of "ents r"] by (auto simp: ram_rep_def ram_view_def en)
qed


section \<open>Use, removal, eviction\<close>

lemma ram_rep_lru: "ram_rep r L \<Longrightarrow> lru_ok r L"
  by (simp add: ram_rep_def)

lemma ram_rep_hash: "ram_rep r L \<Longrightarrow> \<exists>bk. hash_ok r bk (set L)"
  by (simp add: ram_rep_def)

lemma ram_rep_distinct: "ram_rep r L \<Longrightarrow> distinct L"
  by (auto simp: ram_rep_def ram_view_def distinct_map)

lemma ram_rep_keys: "ram_rep r L \<Longrightarrow> e \<in> set L \<Longrightarrow> e' \<in> set L \<Longrightarrow> rkey (ents r e) = rkey (ents r e') \<Longrightarrow> e = e'"
  by (auto simp: ram_rep_def ram_view_def distinct_map inj_on_def)

lemma move_last:
  assumes "e \<in> set L" "distinct (map f L)"
  shows "distinct (map f (remove1 e L @ [e]))" "length (remove1 e L @ [e]) = length L"
    "set (remove1 e L @ [e]) = set L"
proof -
  have d: "distinct L" using assms(2) by (simp add: distinct_map)
  show s: "set (remove1 e L @ [e]) = set L" using assms(1) d by (auto simp: set_remove1_eq)
  show "length (remove1 e L @ [e]) = length L"
    using assms(1) length_pos_if_in_set [OF assms(1)] by (simp add: length_remove1)
  have "distinct (remove1 e L @ [e])" using d by (simp add: set_remove1_eq)
  moreover have "inj_on f (set (remove1 e L @ [e]))" unfolding s using assms(2) by (simp add: distinct_map)
  ultimately show "distinct (map f (remove1 e L @ [e]))" unfolding distinct_map by (rule conjI)
qed

lemma touch_ok:
  assumes rep: "ram_rep r L" and hash: "hash_ok r bk (set L)" and e: "e \<in> set L"
  shows "ram_rep (touch e r) (remove1 e L @ [e])" "same_table r (touch e r)"
    "hash_lk (touch e r) = hash_lk r" "bucket (touch e r) = bucket r"
proof -
  have ok: "lru_ok r L" by (rule ram_rep_lru [OF rep])
  have d: "distinct L" by (rule ram_rep_distinct [OF rep])
  have "que_rep (lru_lk r) (lru r) L" using ok by (simp add: lru_ok_def)
  from que_rep_nonzero [OF this] have e0: "e \<noteq> 0" using e by metis
  obtain l q where 1: "que_remove (lru_lk r) (lru r) e = (l, q)" by fastforce
  have ok1: "lru_ok (r\<lparr>lru_lk := l, lru := q\<rparr>) (remove1 e L)"
    by (rule lru_remove [OF ok e0 1]) simp_all
  have st: "set (remove1 e L @ [e]) = set L" by (rule move_last(3) [OF e, of id]) (simp add: d)
  have n1: "e \<notin> set (remove1 e L)" using d by (simp add: set_remove1_eq)
  have q1: "que_rep l q (remove1 e L)" "detached l e"
    using ok1 e0 n1 by (simp_all add: lru_ok_def)
  obtain l' q' where 2: "que_enqueue l q e = (l', q')" by fastforce
  have q2: "que_rep l' q' (remove1 e L @ [e])" using lq.enq [OF q1(1,2) n1 2] .
  have "detached l' x" if x: "x \<noteq> 0" "x \<notin> set (remove1 e L @ [e])" for x
  proof (rule lq.enq_free [OF q1(1,2) 2])
    show "detached l x" using ok1 x by (simp add: lru_ok_def)
  qed (use x in simp_all)
  then have "lru_ok (touch e r) (remove1 e L @ [e])"
    using q2 by (simp add: lru_ok_def touch_def 1 2)
  moreover have "hash_ok (touch e r) bk (set (remove1 e L @ [e]))"
    unfolding st by (rule hash_ok_cong [OF hash]) (simp_all add: touch_def 1 2)
  moreover have "ents (touch e r) = ents r" "bytes (touch e r) = bytes r" "objects (touch e r) = objects r"
    by (simp_all add: touch_def 1 2)
  moreover have "distinct (map rkey (ram_view r (remove1 e L @ [e])))"
  proof -
    have "distinct (map (rkey \<circ> ents r) L)" using rep by (simp add: ram_rep_def ram_view_def)
    from move_last(1) [OF e this] show ?thesis by (simp add: ram_view_def)
  qed
  moreover have "length (remove1 e L @ [e]) = length L"
    by (rule move_last(2) [OF e, of id]) (simp add: d)
  moreover have "held (ram_view r (remove1 e L @ [e])) = held (ram_view r L)"
    using held_remove1 [OF e, of "ents r"] by (simp add: ram_view_def)
  moreover have "bytes r = held (ram_view r L)" "objects r = int (length L)" using rep by (simp_all add: ram_rep_def)
  ultimately show "ram_rep (touch e r) (remove1 e L @ [e])"
    unfolding ram_rep_def by (intro conjI exI [of _ bk]) (simp_all add: ram_view_def)
  show "same_table r (touch e r)" "hash_lk (touch e r) = hash_lk r" "bucket (touch e r) = bucket r"
    by (simp_all add: same_table_def touch_def 1 2)
qed

lemma ram_find_ok:
  assumes "dll_rep (hash_lk r) h (pre @ xs)"
  shows "ram_find r k a1 a2 (hd0 xs 0) = Some (find (\<lambda>e. entry_match k a1 a2 (ents r e)) xs)"
  using assms
proof (induction xs arbitrary: pre)
  case Nil
  then show ?case by (simp add: ram_find.simps)
next
  case (Cons x xs)
  have "dll_rep (hash_lk r) h ((pre @ [x]) @ xs)" using Cons.prems by simp
  from Cons.IH [OF this] show ?case
    using dll_next [OF Cons.prems] by (subst ram_find.simps) simp
qed

lemma ram_find_bucket:
  assumes rep: "ram_rep r L"
  shows "\<exists>m. ram_find r k a1 a2 (bucket r (hash_of k (nbuckets r))) = Some m \<and>
    (case m of None \<Rightarrow> \<forall>e \<in> set L. \<not> entry_match k a1 a2 (ents r e)
     | Some e \<Rightarrow> e \<in> set L \<and> entry_match k a1 a2 (ents r e))"
proof -
  from rep obtain bk where hash: "hash_ok r bk (set L)" by (auto simp: ram_rep_def)
  let ?b = "hash_of k (nbuckets r)"
  have bl: "?b < nbuckets r" by (rule hash_of_less [OF hash_size [OF hash]])
  have d: "dll_rep (hash_lk r) (bucket r ?b) ([] @ bk ?b)" using hash_chain [OF hash bl] by simp
  let ?m = "find (\<lambda>e. entry_match k a1 a2 (ents r e)) (bk ?b)"
  have f: "ram_find r k a1 a2 (bucket r ?b) = Some ?m"
    using ram_find_ok [OF d, of k a1 a2] dll_head [OF d] by simp
  show ?thesis
  proof (cases ?m)
    case None
    have "\<not> entry_match k a1 a2 (ents r e)" if "e \<in> set L" for e
    proof
      assume m: "entry_match k a1 a2 (ents r e)"
      then have "e \<in> set (bk ?b)" using hash_ok_home(1) [OF hash that] by (simp add: entry_match_def)
      then show False using None m by (simp add: find_None_iff)
    qed
    then show ?thesis using f None by auto
  next
    case (Some e)
    then have "e \<in> set (bk ?b)" "entry_match k a1 a2 (ents r e)"
      by (auto simp: find_Some_iff dest: nth_mem)
    then show ?thesis using f Some hash_sub [OF hash bl] by auto
  qed
qed

lemma same_table_trans: "same_table r r1 \<Longrightarrow> same_table r1 r2 \<Longrightarrow> same_table r r2"
  by (simp add: same_table_def)

lemma put_scan_ok:
  assumes "ram_rep r L" "hash_ok r bk (set L)" "b = hash_of k (nbuckets r)" "bk b = pre @ xs"
  shows "\<exists>r' L' f. put_scan k a1 a2 (hd0 xs 0) r = Some (r', f) \<and> ram_rep r' L' \<and> same_table r r' \<and>
    (f \<longrightarrow> (\<exists>e \<in> set xs. entry_match k a1 a2 (ents r e) \<and> L' = remove1 e L @ [e])) \<and>
    (\<not> f \<longrightarrow> (\<forall>e \<in> set xs. \<not> entry_match k a1 a2 (ents r e)) \<and>
        L' = filter (\<lambda>e. \<not> (e \<in> set xs \<and> rkey (ents r e) = k)) L)"
  using assms
proof (induction xs arbitrary: r L bk pre)
  case Nil
  then show ?case
    by (intro exI [of _ r] exI [of _ L] exI [of _ False])
      (simp add: put_scan.simps same_table_def)
next
  case (Cons x xs)
  note rep = Cons.prems(1) and hash = Cons.prems(2) and b = Cons.prems(3) and split = Cons.prems(4)
  have bl: "b < nbuckets r" unfolding b by (rule hash_of_less [OF hash_size [OF hash]])
  have d: "dll_rep (hash_lk r) (bucket r b) (pre @ x # xs)" using hash_chain [OF hash bl] split by simp
  have n: "nxt (hash_lk r) x = hd0 xs 0" "x \<noteq> 0" using dll_next [OF d] by auto
  have xL: "x \<in> set L" using hash_sub [OF hash bl] split by auto
  have xs: "x \<notin> set xs" "set xs \<subseteq> set L" using dll_distinct [OF d] hash_sub [OF hash bl] split by auto
  consider (exact) "entry_match k a1 a2 (ents r x)" | (key) "rkey (ents r x) = k" "\<not> entry_match k a1 a2 (ents r x)"
    | (other) "rkey (ents r x) \<noteq> k" by (auto simp: entry_match_def)
  then show ?case
  proof cases
    case exact
    then have "put_scan k a1 a2 (hd0 (x # xs) 0) r = Some (touch x r, True)"
      using n(2) by (subst put_scan.simps) (simp add: entry_match_def)
    then show ?thesis using touch_ok [OF rep hash xL] exact
      by (intro exI [of _ "touch x r"] exI [of _ "remove1 x L @ [x]"] exI [of _ True]) simp
  next
    case key
    obtain r1 ret where rm: "ram_remove x r = (r1, ret)" by fastforce
    have hb: "b = hash_of (rkey (ents r x)) (nbuckets r)" using key b by simp
    note r1 = ram_rep_remove [OF rep hash xL rm hb split]
    have u: "put_scan k a1 a2 (hd0 (x # xs) 0) r = put_scan k a1 a2 (hd0 xs 0) r1"
      using n(2) key rm r1(3) by (subst put_scan.simps) (auto simp: entry_match_def)
    have en: "ents r1 = ents r" "nbuckets r1 = nbuckets r" using r1(4) by (simp_all add: same_table_def)
    have b1: "b = hash_of k (nbuckets r1)" using b en by simp
    have split1: "(bk(b := pre @ xs)) b = pre @ xs" by simp
    have only: "\<forall>e \<in> set xs. rkey (ents r e) \<noteq> k"
      using ram_rep_keys [OF rep xL] xs key(1) by blast
    from Cons.IH [OF r1(1,2) b1 split1] obtain r' L' f where
      IH: "put_scan k a1 a2 (hd0 xs 0) r1 = Some (r', f)" "ram_rep r' L'" "same_table r1 r'"
      "f \<longrightarrow> (\<exists>e \<in> set xs. entry_match k a1 a2 (ents r e) \<and> L' = remove1 e (remove1 x L) @ [e])"
      "\<not> f \<longrightarrow> (\<forall>e \<in> set xs. \<not> entry_match k a1 a2 (ents r e)) \<and>
        L' = filter (\<lambda>e. \<not> (e \<in> set xs \<and> rkey (ents r e) = k)) (remove1 x L)"
      unfolding en by (elim exE conjE) (rule that)
    have nf: "\<not> f" using IH(4) only by (auto simp: entry_match_def)
    have "filter (\<lambda>e. \<not> (e \<in> set xs \<and> rkey (ents r e) = k)) (remove1 x L) =
        filter (\<lambda>e. \<not> (e \<in> set (x # xs) \<and> rkey (ents r e) = k)) L"
      using only key(1) ram_rep_distinct [OF rep]
      by (auto simp: distinct_remove1_removeAll removeAll_filter_not_eq intro!: filter_cong)
    then show ?thesis
      using u IH(1,2,3,5) nf key(2) same_table_trans [OF r1(4) IH(3)]
      by (intro exI [of _ r'] exI [of _ L'] exI [of _ False]) simp
  next
    case other
    have u: "put_scan k a1 a2 (hd0 (x # xs) 0) r = put_scan k a1 a2 (hd0 xs 0) r"
      using n other by (subst put_scan.simps) simp
    have split1: "bk b = (pre @ [x]) @ xs" using split by simp
    from Cons.IH [OF rep hash b split1] obtain r' L' f where
      IH: "put_scan k a1 a2 (hd0 xs 0) r = Some (r', f)" "ram_rep r' L'" "same_table r r'"
      "f \<longrightarrow> (\<exists>e \<in> set xs. entry_match k a1 a2 (ents r e) \<and> L' = remove1 e L @ [e])"
      "\<not> f \<longrightarrow> (\<forall>e \<in> set xs. \<not> entry_match k a1 a2 (ents r e)) \<and>
        L' = filter (\<lambda>e. \<not> (e \<in> set xs \<and> rkey (ents r e) = k)) L"
      by (elim exE conjE) (rule that)
    have "filter (\<lambda>e. \<not> (e \<in> set xs \<and> rkey (ents r e) = k)) L =
        filter (\<lambda>e. \<not> (e \<in> set (x # xs) \<and> rkey (ents r e) = k)) L"
      using other by (intro filter_cong) auto
    then show ?thesis
      using u IH other by (intro exI [of _ r'] exI [of _ L'] exI [of _ f]) (auto simp: entry_match_def)
  qed
qed


lemma hash_push:
  assumes ok: "hash_ok r bk M" and a: "a \<noteq> 0" "a \<notin> M"
    and i: "i = hash_of (rkey x) (nbuckets r)" and ps: "dll_push (hash_lk r) (bucket r i) a = (hl, h)"
    and r': "hash_lk r' = hl" "bucket r' = (bucket r)(i := h)" "ents r' = (ents r)(a := x)" "nbuckets r' = nbuckets r"
  shows "hash_ok r' (bk(i := a # bk i)) (insert a M)"
proof -
  have il: "i < nbuckets r" unfolding i by (rule hash_of_less [OF hash_size [OF ok]])
  have ab: "c < nbuckets r \<Longrightarrow> a \<notin> set (bk c)" for c using hash_sub [OF ok, of c] a by auto
  note d = hash_chain [OF ok il]
  have det: "detached (hash_lk r) a" by (rule hash_det [OF ok a])
  have d': "dll_rep hl h (a # bk i)" using dll_push_rep [OF d det ab [OF il]] ps by auto
  have fr: "agree_off (insert a (set (bk i))) (hash_lk r) hl" by (rule dll_push_frame [OF d ps])
  have sets: "set ((bk(i := a # bk i)) c) = (if c = i then insert a (set (bk c)) else set (bk c))" for c by simp
  show ?thesis
    unfolding hash_ok_def r'
  proof (intro conjI allI impI ballI)
    show "0 < nbuckets r" by (rule hash_size [OF ok])
    show "insert a M = (\<Union>c<nbuckets r. set ((bk(i := a # bk i)) c))"
      unfolding sets hash_all [OF ok] using il by auto
    show "detached hl y" if "y \<noteq> 0" "y \<notin> insert a M" for y
      using agree_off_detached [OF fr _ hash_det [OF ok that(1)]] that(2) hash_sub [OF ok il] by blast
    fix c assume c: "c < nbuckets r"
    show "dll_rep hl (((bucket r)(i := h)) c) ((bk(i := a # bk i)) c)"
    proof (cases "c = i")
      case False
      have "insert a (set (bk i)) \<inter> set (bk c) = {}"
        using hash_ok_unique [OF ok c il] False ab [OF c] by blast
      from agree_off_dll_rep [OF fr this hash_chain [OF ok c]] False show ?thesis by simp
    qed (use d' in simp)
    show "hash_of (rkey (((ents r)(a := x)) y)) (nbuckets r) = c" if "y \<in> set ((bk(i := a # bk i)) c)" for y
      using that hash_home [OF ok c, of y] ab [OF c] i unfolding sets by (cases "y = a") (auto split: if_splits)
  qed
qed

lemma ram_add_ok:
  assumes rep: "ram_rep r L" and a: "a \<noteq> 0" "a \<notin> set L" and x: "\<forall>e \<in> set L. rkey (ents r e) \<noteq> rkey x"
  shows "ram_rep (ram_add a x r) (L @ [a])" "ram_view (ram_add a x r) (L @ [a]) = ram_view r L @ [x]"
    "max_bytes (ram_add a x r) = max_bytes r" "nbuckets (ram_add a x r) = nbuckets r"
    "ibuckets (ram_add a x r) = ibuckets r"
proof -
  from rep obtain bk where hash: "hash_ok r bk (set L)" by (auto simp: ram_rep_def)
  have lok: "lru_ok r L" by (rule ram_rep_lru [OF rep])
  let ?i = "hash_of (rkey x) (nbuckets r)"
  obtain hl h where 1: "dll_push (hash_lk r) (bucket r ?i) a = (hl, h)" by fastforce
  obtain l q where 2: "que_enqueue (lru_lk r) (lru r) a = (l, q)" by fastforce
  have r': "ram_add a x r = r\<lparr>ents := (ents r)(a := x), hash_lk := hl, bucket := (bucket r)(?i := h), lru_lk := l, lru := q,
           bytes := bytes r + block_size (rdata x), objects := objects r + 1\<rparr>"
    using 1 2 by (simp add: ram_add_def Let_def)
  have h: "hash_ok (ram_add a x r) (bk(?i := a # bk ?i)) (set (L @ [a]))"
    using hash_push [OF hash a refl 1, of "ram_add a x r"] by (simp add: r')
  have det: "detached (lru_lk r) a" using lok a by (simp add: lru_ok_def)
  have qr: "que_rep (lru_lk r) (lru r) L" using lok by (simp add: lru_ok_def)
  have q: "que_rep l q (L @ [a])" using lq.enq [OF qr det a(2) 2] .
  have "detached l y" if "y \<noteq> 0" "y \<notin> set (L @ [a])" for y
    using that lok lq.enq_free [OF qr det 2, of y] by (simp add: lru_ok_def)
  then have "lru_ok (ram_add a x r) (L @ [a])" using q by (simp add: lru_ok_def r')
  moreover show v: "ram_view (ram_add a x r) (L @ [a]) = ram_view r L @ [x]"
    using a(2) by (auto simp: ram_view_def r')
  moreover have "distinct (map rkey (ram_view r L @ [x]))"
    using rep x by (auto simp: ram_rep_def ram_view_def)
  ultimately show "ram_rep (ram_add a x r) (L @ [a])"
    using h rep unfolding ram_rep_def v by (auto simp: r')
  show "max_bytes (ram_add a x r) = max_bytes r" "nbuckets (ram_add a x r) = nbuckets r"
    "ibuckets (ram_add a x r) = ibuckets r" by (simp_all add: r')
qed

text \<open>Eviction from the least recently used end until the rest fits.\<close>

fun lru_trim :: "int \<Rightarrow> ram_entry list \<Rightarrow> ram_entry list" where
  "lru_trim m [] = []"
| "lru_trim m (x # xs) = (if held (x # xs) > m then lru_trim m xs else x # xs)"

lemma lru_trim_suffix: "\<exists>ys. xs = ys @ lru_trim m xs"
proof (induction xs)
  case (Cons x xs)
  then obtain ys where "xs = ys @ lru_trim m xs" by blast
  then show ?case by (cases "held (x # xs) > m") (auto intro: exI [of _ "x # ys"] exI [of _ "[]"])
qed simp

lemma lru_trim_held: "0 \<le> m \<Longrightarrow> held (lru_trim m xs) \<le> m"
  by (induction xs) auto

lemma evict_ok:
  "ram_rep r L \<Longrightarrow> \<exists>r' L'. evict r = Some r' \<and> ram_rep r' L' \<and> same_table r r' \<and>
     ram_view r L' = lru_trim (max_bytes r) (ram_view r L)"
proof (induction L arbitrary: r)
  case Nil
  then have q: "que_rep (lru_lk r) (lru r) []" by (simp add: ram_rep_def lru_ok_def)
  obtain l q' ee where 1: "que_dequeue (lru_lk r) (lru r) = (l, q', ee)" by (cases "que_dequeue (lru_lk r) (lru r)")
  from lq.deq_empty [OF q 1] have e: "ee = 0" "l = lru_lk r" "que_rep l q' []" by auto
  show ?case
  proof (cases "bytes r > max_bytes r")
    case True
    then have u: "evict r = Some (r\<lparr>lru_lk := l, lru := q'\<rparr>)"
      using 1 e by (subst evict.simps) simp
    from Nil obtain bk where bk: "hash_ok r bk (set [])" by (auto simp: ram_rep_def)
    have "hash_ok (r\<lparr>lru_lk := l, lru := q'\<rparr>) bk (set [])" by (rule hash_ok_cong [OF bk]) simp_all
    then have "ram_rep (r\<lparr>lru_lk := l, lru := q'\<rparr>) []"
      using Nil e by (auto simp: ram_rep_def lru_ok_def ram_view_def)
    then show ?thesis using u
      by (intro exI [of _ "r\<lparr>lru_lk := l, lru := q'\<rparr>"] exI [of _ "[]"]) (simp add: same_table_def ram_view_def)
  next
    case False
    then show ?thesis using Nil
      by (intro exI [of _ r] exI [of _ "[]"]) (simp add: evict.simps same_table_def ram_view_def)
  qed
next
  case (Cons e L)
  note rep = Cons.prems
  have bts: "bytes r = held (ram_view r (e # L))" using rep by (simp add: ram_rep_def)
  show ?case
  proof (cases "bytes r > max_bytes r")
    case True
    from rep obtain bk where hash: "hash_ok r bk (set (e # L))" by (auto simp: ram_rep_def)
    have lok: "que_rep (lru_lk r) (lru r) (e # L)" "\<And>x. x \<noteq> 0 \<Longrightarrow> x \<notin> set (e # L) \<Longrightarrow> detached (lru_lk r) x"
      using rep by (simp_all add: ram_rep_def lru_ok_def)
    have d: "distinct (e # L)" by (rule ram_rep_distinct [OF rep])
    have e0: "e \<noteq> 0" using lq.rep_nonzero [OF lok(1)] by auto
    obtain l q ee where 1: "que_dequeue (lru_lk r) (lru r) = (l, q, ee)" by (cases "que_dequeue (lru_lk r) (lru r)")
    have dq: "ee = e" "que_rep l q L" "detached l e" using lq.deq [OF lok(1) 1] by auto
    let ?r = "r\<lparr>lru_lk := l, lru := q\<rparr>"
    have fr: "agree_off (set (e # L)) (lru_lk r) l"
      using que_pop_frame [OF lok(1)] 1 by (simp add: que_dequeue_def)
    have "detached l x" if "x \<noteq> 0" "x \<notin> set L" for x
      using that dq(3) agree_off_detached [OF fr _ lok(2)] by (cases "x = e") auto
    then have l1: "lru_ok ?r L" using dq(2) by (simp add: lru_ok_def)
    have h1: "hash_ok ?r bk (set (e # L))" by (rule hash_ok_cong [OF hash]) simp_all
    have eM: "e \<in> set (e # L)" by simp
    obtain cs ds where split: "bk (hash_of (rkey (ents ?r e)) (nbuckets ?r)) = cs @ e # ds"
      using hash_ok_home(1) [OF h1 eM] by (meson split_list)
    obtain r1 ret where rm: "ram_remove e ?r = (r1, ret)" by fastforce
    note x = ram_remove_ok [OF h1 l1 eM refl split rm]
    have s: "set (e # L) - {e} = set L" using d by auto
    have en: "ents r1 = ents r" using x(4) by (simp add: same_table_def)
    have rem: "remove1 e L = L" using d by (simp add: remove1_idem)
    have "ram_rep r1 L"
      using x(1,2,5,6) rep unfolding ram_rep_def rem s by (auto simp: ram_view_def en)
    from Cons.IH [OF this] obtain r' L' where
      IH: "evict r1 = Some r'" "ram_rep r' L'" "same_table r1 r'"
      "ram_view r1 L' = lru_trim (max_bytes r1) (ram_view r1 L)" by blast
    have "evict r = evict r1" using True 1 dq(1) e0 rm by (subst evict.simps) simp
    moreover have "same_table r r1" using x(4) by (simp add: same_table_def)
    ultimately show ?thesis
      using IH True bts same_table_trans [OF _ IH(3)]
      by (intro exI [of _ r'] exI [of _ L']) (simp add: ram_view_def same_table_def)
  next
    case False
    then show ?thesis using rep bts
      by (intro exI [of _ r] exI [of _ "e # L"]) (simp add: evict.simps same_table_def ram_view_def)
  qed
qed


section \<open>Resizing the table\<close>

definition nb_union :: "nat \<Rightarrow> (nat \<Rightarrow> nat list) \<Rightarrow> nat set" where
  "nb_union an nbk = (\<Union>b < an. set (nbk b))"

definition new_ok :: "ram \<Rightarrow> nat \<Rightarrow> links \<Rightarrow> (nat \<Rightarrow> nat) \<Rightarrow> (nat \<Rightarrow> nat list) \<Rightarrow> bool" where
  "new_ok r an lk nb nbk \<longleftrightarrow> (\<forall>b < an. dll_rep lk (nb b) (nbk b) \<and>
     (\<forall>e \<in> set (nbk b). hash_of (rkey (ents r e)) an = b))"

lemma new_ok_frame:
  assumes "new_ok r an lk nb nbk" "agree_off S lk lk'" "S \<inter> nb_union an nbk = {}"
  shows "new_ok r an lk' nb nbk"
  unfolding new_ok_def
proof (intro allI impI conjI)
  fix b assume b: "b < an"
  have "S \<inter> set (nbk b) = {}" using assms(3) b by (auto simp: nb_union_def)
  then show "dll_rep lk' (nb b) (nbk b)"
    using agree_off_dll_rep [OF assms(2)] assms(1) b by (simp add: new_ok_def)
  show "\<forall>e \<in> set (nbk b). hash_of (rkey (ents r e)) an = b" using assms(1) b by (simp add: new_ok_def)
qed

lemma new_ok_push:
  assumes ok: "new_ok r an lk nb nbk" and an: "0 < an" and e: "detached lk e" "e \<notin> nb_union an nbk"
    and c: "c = hash_of (rkey (ents r e)) an" and ps: "dll_push lk (nb c) e = (lk', h)"
  shows "new_ok r an lk' (nb(c := h)) (nbk(c := e # nbk c))" "agree_off (insert e (nb_union an nbk)) lk lk'"
    "nb_union an (nbk(c := e # nbk c)) = insert e (nb_union an nbk)"
proof -
  have cl: "c < an" unfolding c by (rule hash_of_less [OF an])
  have d: "dll_rep lk (nb c) (nbk c)" using ok cl by (simp add: new_ok_def)
  have ec: "b < an \<Longrightarrow> e \<notin> set (nbk b)" for b using e(2) by (auto simp: nb_union_def)
  have d': "dll_rep lk' h (e # nbk c)" using dll_push_rep [OF d e(1) ec [OF cl]] ps by auto
  have fr: "agree_off (insert e (set (nbk c))) lk lk'" by (rule dll_push_frame [OF d ps])
  show "agree_off (insert e (nb_union an nbk)) lk lk'"
    using cl by (intro agree_off_mono [OF fr]) (auto simp: nb_union_def)
  have sets: "set ((nbk(c := e # nbk c)) b) = (if b = c then insert e (set (nbk b)) else set (nbk b))" for b by simp
  show "nb_union an (nbk(c := e # nbk c)) = insert e (nb_union an nbk)"
    unfolding nb_union_def sets using cl by auto
  show "new_ok r an lk' (nb(c := h)) (nbk(c := e # nbk c))"
    unfolding new_ok_def
  proof (intro allI impI conjI ballI)
    fix b assume b: "b < an"
    show "dll_rep lk' ((nb(c := h)) b) ((nbk(c := e # nbk c)) b)"
    proof (cases "b = c")
      case False
      have "insert e (set (nbk c)) \<inter> set (nbk b) = {}"
      proof -
        have "b = c" if "x \<in> set (nbk c)" "x \<in> set (nbk b)" for x
          using ok b cl that unfolding new_ok_def by metis
        then show ?thesis using ec [OF b] False by blast
      qed
      from agree_off_dll_rep [OF fr this] show ?thesis using ok b False by (simp add: new_ok_def)
    qed (use d' in simp)
    show "hash_of (rkey (ents r x)) an = b" if "x \<in> set ((nbk(c := e # nbk c)) b)" for x
      using that ok b c unfolding sets new_ok_def by (auto split: if_splits)
  qed
qed

lemma rehash_chain_ok:
  "dll_rep lk head xs \<Longrightarrow> new_ok r an lk nb nbk \<Longrightarrow> 0 < an \<Longrightarrow> set xs \<inter> nb_union an nbk = {} \<Longrightarrow>
   \<exists>lk' nb' nbk'. rehash_chain r an lk head nb = Some (lk', nb') \<and> new_ok r an lk' nb' nbk' \<and>
     nb_union an nbk' = nb_union an nbk \<union> set xs \<and> agree_off (nb_union an nbk \<union> set xs) lk lk'"
proof (induction xs arbitrary: lk head nb nbk)
  case Nil
  then have "rehash_chain r an lk head nb = Some (lk, nb)"
    by (subst rehash_chain.simps) (simp add: dll_pop_empty)
  then show ?case using Nil by (intro exI [of _ lk] exI [of _ nb] exI [of _ nbk]) (simp add: agree_off_def)
next
  case (Cons e xs)
  note d = Cons.prems(1) and ok = Cons.prems(2) and an = Cons.prems(3) and dis = Cons.prems(4)
  obtain lk1 h1 where 1: "dll_pop lk head = (lk1, h1, e)" "dll_rep lk1 h1 xs" "detached lk1 e"
    using dll_pop_rep [OF d] by auto
  have fr1: "agree_off (set (e # xs)) lk lk1" by (rule dll_pop_frame [OF d 1(1)])
  have ok1: "new_ok r an lk1 nb nbk" by (rule new_ok_frame [OF ok fr1 dis])
  have e: "e \<notin> nb_union an nbk" "e \<noteq> 0" "e \<notin> set xs" using dis dll_distinct [OF d] by auto
  let ?c = "hash_of (rkey (ents r e)) an"
  obtain lk2 h where 2: "dll_push lk1 (nb ?c) e = (lk2, h)" by fastforce
  note p = new_ok_push [OF ok1 an 1(3) e(1) refl 2]
  have d2: "dll_rep lk2 h1 xs"
    using dis e(3) by (intro agree_off_dll_rep [OF p(2) _ 1(2)]) auto
  have dis2: "set xs \<inter> nb_union an (nbk(?c := e # nbk ?c)) = {}" unfolding p(3) using dis e(3) by auto
  from Cons.IH [OF d2 p(1) an dis2] obtain lk' nb' nbk' where
    IH: "rehash_chain r an lk2 h1 (nb(?c := h)) = Some (lk', nb')" "new_ok r an lk' nb' nbk'"
    "nb_union an nbk' = insert e (nb_union an nbk) \<union> set xs"
    "agree_off (insert e (nb_union an nbk) \<union> set xs) lk2 lk'" unfolding p(3) by blast
  have "rehash_chain r an lk head nb = Some (lk', nb')"
    using 1(1) 2 IH(1) e(2) by (subst rehash_chain.simps) simp
  moreover have "agree_off (nb_union an nbk \<union> set (e # xs)) lk lk'"
    by (rule agree_off_mono [OF agree_off_trans [OF agree_off_trans [OF fr1 p(2)] IH(4)]]) auto
  ultimately show ?case using IH(2,3) by (intro exI [of _ lk'] exI [of _ nb'] exI [of _ nbk']) auto
qed

lemma rehash_chains_ok:
  "(\<And>i. i \<in> set is \<Longrightarrow> dll_rep lk (bucket r i) (bk i) \<and> set (bk i) \<inter> nb_union an nbk = {}) \<Longrightarrow>
   (\<And>i j. i \<in> set is \<Longrightarrow> j \<in> set is \<Longrightarrow> i \<noteq> j \<Longrightarrow> set (bk i) \<inter> set (bk j) = {}) \<Longrightarrow> distinct is \<Longrightarrow>
   new_ok r an lk nb nbk \<Longrightarrow> 0 < an \<Longrightarrow>
   \<exists>lk' nb' nbk'. rehash_chains r an is lk nb = Some (lk', nb') \<and> new_ok r an lk' nb' nbk' \<and>
     nb_union an nbk' = nb_union an nbk \<union> (\<Union>i \<in> set is. set (bk i)) \<and>
     agree_off (nb_union an nbk \<union> (\<Union>i \<in> set is. set (bk i))) lk lk'"
proof (induction "is" arbitrary: lk nb nbk)
  case Nil
  then show ?case by (intro exI [of _ lk] exI [of _ nb] exI [of _ nbk]) (simp add: agree_off_def)
next
  case (Cons i js)
  have i: "dll_rep lk (bucket r i) (bk i)" "set (bk i) \<inter> nb_union an nbk = {}" using Cons.prems(1) by auto
  from rehash_chain_ok [OF i(1) Cons.prems(4,5) i(2)] obtain lk1 nb1 nbk1 where
    1: "rehash_chain r an lk (bucket r i) nb = Some (lk1, nb1)" "new_ok r an lk1 nb1 nbk1"
    "nb_union an nbk1 = nb_union an nbk \<union> set (bk i)" "agree_off (nb_union an nbk \<union> set (bk i)) lk lk1" by blast
  have "dll_rep lk1 (bucket r j) (bk j) \<and> set (bk j) \<inter> nb_union an nbk1 = {}" if j: "j \<in> set js" for j
  proof -
    have p: "dll_rep lk (bucket r j) (bk j)" "set (bk j) \<inter> nb_union an nbk = {}"
      using Cons.prems(1) j by auto
    have "set (bk i) \<inter> set (bk j) = {}" using Cons.prems(2) [of i j] Cons.prems(3) j by auto
    then have dis: "(nb_union an nbk \<union> set (bk i)) \<inter> set (bk j) = {}" using p(2) by auto
    from agree_off_dll_rep [OF 1(4) this p(1)] dis show ?thesis unfolding 1(3) by auto
  qed
  from Cons.IH [OF this _ _ 1(2) Cons.prems(5)] Cons.prems(2,3) obtain lk' nb' nbk' where
    2: "rehash_chains r an js lk1 nb1 = Some (lk', nb')" "new_ok r an lk' nb' nbk'"
    "nb_union an nbk' = nb_union an nbk1 \<union> (\<Union>i \<in> set js. set (bk i))"
    "agree_off (nb_union an nbk1 \<union> (\<Union>i \<in> set js. set (bk i))) lk1 lk'" by auto
  have "agree_off (nb_union an nbk \<union> (\<Union>i \<in> set (i # js). set (bk i))) lk lk'"
    by (rule agree_off_mono [OF agree_off_trans [OF 1(4) 2(4)]]) (auto simp: 1(3))
  then show ?case using 1(1) 2(1,2,3) 1(3)
    by (intro exI [of _ lk'] exI [of _ nb'] exI [of _ nbk']) auto
qed

lemma bucket_sizes_pos: "load bucket_sizes i = Some an \<Longrightarrow> 0 < an"
proof -
  assume "load bucket_sizes i = Some an"
  then have "an \<in> set bucket_sizes" by (auto dest!: load_SomeD)
  then show ?thesis by (auto simp: bucket_sizes_def)
qed

lemma resize_ok:
  assumes old: "\<forall>b < nbuckets r. dll_rep (hash_lk r) (bucket r b) (bk b)"
      "\<forall>b < nbuckets r. \<forall>b' < nbuckets r. b \<noteq> b' \<longrightarrow> set (bk b) \<inter> set (bk b') = {}"
      "(\<Union>b < nbuckets r. set (bk b)) = set L" "\<forall>x. x \<noteq> 0 \<longrightarrow> x \<notin> set L \<longrightarrow> detached (hash_lk r) x"
    and lru: "lru_ok r L" "bytes r = held (ram_view r L)" "objects r = int (length L)" "distinct (map rkey (ram_view r L))"
    and i: "ibuckets r < length bucket_sizes"
  shows "\<exists>r'. resize_hashtable r = Some r' \<and> ram_rep r' L \<and> ram_view r' L = ram_view r L \<and>
    max_bytes r' = max_bytes r \<and> ibuckets r' = ibuckets r"
proof -
  let ?an = "bucket_sizes ! ibuckets r"
  have an: "load bucket_sizes (ibuckets r) = Some ?an" using i by (rule load_Some)
  have an0: "0 < ?an" by (rule bucket_sizes_pos [OF an])
  have e0: "nb_union ?an (\<lambda>_. []) = {}" by (simp add: nb_union_def)
  have "new_ok r ?an (hash_lk r) (\<lambda>_. 0) (\<lambda>_. [])" by (simp add: new_ok_def)
  with rehash_chains_ok [of "[0..<nbuckets r]" "hash_lk r" r bk ?an "\<lambda>_. []" "\<lambda>_. 0"] old(1,2) an0 e0
  obtain lk nb nbk where 1: "rehash_chains r ?an [0..<nbuckets r] (hash_lk r) (\<lambda>_. 0) = Some (lk, nb)"
    "new_ok r ?an lk nb nbk" "nb_union ?an nbk = (\<Union>i \<in> {0..<nbuckets r}. set (bk i))"
    "agree_off (\<Union>i \<in> {0..<nbuckets r}. set (bk i)) (hash_lk r) lk" by auto
  have un: "(\<Union>i \<in> {0..<nbuckets r}. set (bk i)) = set L" using old(3) by (simp add: atLeast0LessThan)
  let ?r = "r\<lparr>hash_lk := lk, bucket := nb, nbuckets := ?an, seen := (\<lambda>_. 0)\<rparr>"
  have "hash_ok ?r nbk (set L)"
    using an0 1(2,3) old(4) agree_off_detached [OF 1(4)]
    by (auto simp: hash_ok_def new_ok_def nb_union_def un)
  then have "ram_rep ?r L"
    using lru by (auto simp: ram_rep_def lru_ok_def ram_view_def)
  then show ?thesis
    using an 1(1) by (intro exI [of _ ?r]) (simp add: resize_hashtable_def ram_view_def)
qed

lemma resize_rep:
  assumes rep: "ram_rep r L" and i: "ibuckets r < length bucket_sizes"
  shows "\<exists>r'. resize_hashtable r = Some r' \<and> ram_rep r' L \<and> ram_view r' L = ram_view r L \<and>
    max_bytes r' = max_bytes r \<and> ibuckets r' = ibuckets r"
proof -
  from rep obtain bk where hash: "hash_ok r bk (set L)" by (auto simp: ram_rep_def)
  have "\<forall>b < nbuckets r. \<forall>b' < nbuckets r. b \<noteq> b' \<longrightarrow> set (bk b) \<inter> set (bk b') = {}"
    using hash_ok_unique [OF hash] by blast
  from resize_ok [OF _ this _ _ _ _ _ _ i, of L] show ?thesis
    using hash_chain [OF hash] hash_all [OF hash] hash_det [OF hash] rep by (simp add: ram_rep_def)
qed

lemma ram_init_ok:
  assumes "0 < m"
  shows "\<exists>r. ram_init m (ram_new en) = Some r \<and> ram_rep r [] \<and> max_bytes r = m \<and> ibuckets r = 0"
proof -
  let ?r = "(ram_new en)\<lparr>max_bytes := m\<rparr>"
  have "lru_ok ?r []" "\<forall>x. x \<noteq> 0 \<longrightarrow> detached (hash_lk ?r) x"
    by (auto simp: lru_ok_def ram_new_def que_rep_clear detached_def)
  with resize_ok [of ?r "\<lambda>_. []" "[]"] assms show ?thesis
    by (auto simp: ram_init_def ram_new_def ram_view_def bucket_sizes_def)
qed

section \<open>Refinement of the operations\<close>

definition ram_holds :: "ram \<Rightarrow> ram_entry list \<Rightarrow> bool" where
  "ram_holds r V \<longleftrightarrow> (\<exists>L. ram_rep r L \<and> ram_view r L = V)"

definition lru_get :: "cache_key \<Rightarrow> u32 \<Rightarrow> u32 \<Rightarrow> ram_entry list \<Rightarrow> ram_entry list" where
  "lru_get k a1 a2 V = (case find (entry_match k a1 a2) V of None \<Rightarrow> V | Some x \<Rightarrow> remove1 x V @ [x])"

definition lru_put :: "int \<Rightarrow> ram_entry \<Rightarrow> ram_entry list \<Rightarrow> ram_entry list" where
  "lru_put m x V =
     (if find (entry_match (rkey x) (auxkey1 x) (auxkey2 x)) V = None
      then lru_trim m (filter (\<lambda>y. rkey y \<noteq> rkey x) V @ [x])
      else lru_get (rkey x) (auxkey1 x) (auxkey2 x) V)"

definition fresh :: "ram \<Rightarrow> nat \<Rightarrow> bool" where
  "fresh r a \<longleftrightarrow> a \<noteq> 0 \<and> (\<forall>L. ram_rep r L \<longrightarrow> a \<notin> set L)"

lemma find_map: "find P (map f xs) = map_option f (find (P \<circ> f) xs)"
  by (induction xs) auto

lemma find_only:
  "x \<in> set xs \<Longrightarrow> P x \<Longrightarrow> \<forall>y \<in> set xs. P y \<longrightarrow> y = x \<Longrightarrow> find P xs = Some x"
proof (induction xs)
  case (Cons y xs)
  show ?case
  proof (cases "P y")
    case True
    then have "y = x" using Cons.prems(3) by (metis list.set_intros(1))
    then show ?thesis using Cons.prems(2) by simp
  next
    case False
    then have "x \<in> set xs" using Cons.prems(1,2) by (metis set_ConsD)
    moreover have "\<forall>y \<in> set xs. P y \<longrightarrow> y = x" using Cons.prems(3) by (metis list.set_intros(2))
    ultimately have "find P xs = Some x" by (rule Cons.IH [OF _ Cons.prems(2)])
    then show ?thesis using False by simp
  qed
qed simp

lemma map_remove1_inj: "inj_on f (set xs) \<Longrightarrow> e \<in> set xs \<Longrightarrow> map f (remove1 e xs) = remove1 (f e) (map f xs)"
proof (induction xs)
  case (Cons x xs)
  show ?case
  proof (cases "x = e")
    case False
    then have "f x \<noteq> f e" "e \<in> set xs" using Cons.prems by (auto simp: inj_on_def)
    then show ?thesis using False Cons by (simp add: inj_on_def)
  qed simp
qed simp

lemma ram_rep_inj: "ram_rep r L \<Longrightarrow> inj_on (ents r) (set L)"
  by (auto simp: ram_rep_def ram_view_def distinct_map dest: inj_on_imageI2)

lemma view_find:
  assumes rep: "ram_rep r L"
  shows "e \<in> set L \<Longrightarrow> entry_match k a1 a2 (ents r e) \<Longrightarrow> find (entry_match k a1 a2) (ram_view r L) = Some (ents r e)"
    and "\<forall>e \<in> set L. \<not> entry_match k a1 a2 (ents r e) \<Longrightarrow> find (entry_match k a1 a2) (ram_view r L) = None"
proof -
  assume e: "e \<in> set L" "entry_match k a1 a2 (ents r e)"
  have "\<forall>y \<in> set L. (entry_match k a1 a2 \<circ> ents r) y \<longrightarrow> y = e"
    using ram_rep_keys [OF rep _ e(1)] e(2) unfolding entry_match_def comp_def by metis
  from find_only [OF e(1) _ this] e(2) have "find (entry_match k a1 a2 \<circ> ents r) L = Some e"
    unfolding comp_def by blast
  then show "find (entry_match k a1 a2) (ram_view r L) = Some (ents r e)" by (simp add: ram_view_def find_map)
next
  assume "\<forall>e \<in> set L. \<not> entry_match k a1 a2 (ents r e)"
  then show "find (entry_match k a1 a2) (ram_view r L) = None" by (simp add: ram_view_def find_None_iff)
qed

lemma touch_view:
  assumes rep: "ram_rep r L" and e: "e \<in> set L" "entry_match k a1 a2 (ents r e)"
  shows "ram_view r (remove1 e L @ [e]) = lru_get k a1 a2 (ram_view r L)"
  using view_find(1) [OF rep e] map_remove1_inj [OF ram_rep_inj [OF rep] e(1)]
  by (simp add: lru_get_def ram_view_def)

lemma ram_view_same: "same_table r r' \<Longrightarrow> ram_view r' L = ram_view r L"
  by (simp add: ram_view_def same_table_def)

lemma ram_get_holds:
  assumes "ram_holds r V" "max_bytes r \<noteq> 0"
  shows "\<exists>r'. ram_get k a1 a2 r = Some (r', map_option rdata (find (entry_match k a1 a2) V)) \<and>
    ram_holds r' (lru_get k a1 a2 V) \<and> same_table r r'"
proof -
  from assms(1) obtain L where rep: "ram_rep r L" and V: "V = ram_view r L" by (auto simp: ram_holds_def)
  from rep obtain bk where hash: "hash_ok r bk (set L)" by (auto simp: ram_rep_def)
  obtain m where m: "ram_find r k a1 a2 (bucket r (hash_of k (nbuckets r))) = Some m"
    "case m of None \<Rightarrow> \<forall>e \<in> set L. \<not> entry_match k a1 a2 (ents r e)
     | Some e \<Rightarrow> e \<in> set L \<and> entry_match k a1 a2 (ents r e)"
    using ram_find_bucket [OF rep] by blast
  show ?thesis
  proof (cases m)
    case None
    then have "find (entry_match k a1 a2) V = None" using m(2) view_find(2) [OF rep] V by simp
    then show ?thesis using m(1) None assms by (simp add: ram_get_def lru_get_def same_table_def)
  next
    case (Some e)
    then have e: "e \<in> set L" "entry_match k a1 a2 (ents r e)" using m(2) by simp_all
    note t = touch_ok [OF rep hash e(1)]
    have "ram_view (touch e r) (remove1 e L @ [e]) = lru_get k a1 a2 V"
      using touch_view [OF rep e] ram_view_same [OF t(2)] V by simp
    then have "ram_holds (touch e r) (lru_get k a1 a2 V)" using t(1) by (auto simp: ram_holds_def)
    then show ?thesis using m(1) Some assms(2) view_find(1) [OF rep e] V t(2) by (simp add: ram_get_def)
  qed
qed

lemma fresh_not_in: "fresh r a \<Longrightarrow> ram_rep r L \<Longrightarrow> a \<noteq> 0 \<and> a \<notin> set L"
  by (simp add: fresh_def)

lemma put_scan_bucket:
  assumes rep: "ram_rep r L"
  shows "\<exists>r' L' f. put_scan k a1 a2 (bucket r (hash_of k (nbuckets r))) r = Some (r', f) \<and> ram_rep r' L' \<and>
    same_table r r' \<and> set L' \<subseteq> set L \<and> f = (find (entry_match k a1 a2) (ram_view r L) \<noteq> None) \<and>
    ram_view r' L' = (if f then lru_get k a1 a2 (ram_view r L) else filter (\<lambda>y. rkey y \<noteq> k) (ram_view r L))"
proof -
  let ?b = "hash_of k (nbuckets r)"
  from rep obtain bk where hash: "hash_ok r bk (set L)" by (auto simp: ram_rep_def)
  have bl: "?b < nbuckets r" by (rule hash_of_less [OF hash_size [OF hash]])
  have hd: "bucket r ?b = hd0 (bk ?b) 0" by (rule dll_head [OF hash_chain [OF hash bl]])
  have inb: "e \<in> set (bk ?b)" if "e \<in> set L" "rkey (ents r e) = k" for e
    using hash_ok_home(1) [OF hash that(1)] that(2) by simp
  obtain r' L' f where 1: "put_scan k a1 a2 (hd0 (bk ?b) 0) r = Some (r', f)" "ram_rep r' L'" "same_table r r'"
    "f \<longrightarrow> (\<exists>e \<in> set (bk ?b). entry_match k a1 a2 (ents r e) \<and> L' = remove1 e L @ [e])"
    "\<not> f \<longrightarrow> (\<forall>e \<in> set (bk ?b). \<not> entry_match k a1 a2 (ents r e)) \<and>
        L' = filter (\<lambda>e. \<not> (e \<in> set (bk ?b) \<and> rkey (ents r e) = k)) L"
    using put_scan_ok [OF rep hash refl append_Nil [symmetric], of k a1 a2] by (elim exE conjE) (rule that)
  have "set L' \<subseteq> set L \<and> f = (find (entry_match k a1 a2) (ram_view r L) \<noteq> None) \<and>
    ram_view r' L' = (if f then lru_get k a1 a2 (ram_view r L) else filter (\<lambda>y. rkey y \<noteq> k) (ram_view r L))"
  proof (cases f)
    case True
    then obtain e where e: "e \<in> set (bk ?b)" "entry_match k a1 a2 (ents r e)" "L' = remove1 e L @ [e]"
      using 1(4) by blast
    have eL: "e \<in> set L" using hash_sub [OF hash bl] e(1) by blast
    have "set L' \<subseteq> set L" using e(3) eL set_remove1_subset [of e L] by simp
    then show ?thesis
      using True view_find(1) [OF rep eL e(2)] touch_view [OF rep eL e(2)] e(3) ram_view_same [OF 1(3)] by simp
  next
    case False
    then have n: "\<forall>e \<in> set (bk ?b). \<not> entry_match k a1 a2 (ents r e)"
      and L': "L' = filter (\<lambda>e. \<not> (e \<in> set (bk ?b) \<and> rkey (ents r e) = k)) L" using 1(5) by simp_all
    have nL: "\<forall>e \<in> set L. \<not> entry_match k a1 a2 (ents r e)"
      using n inb by (auto simp: entry_match_def)
    have "L' = filter (\<lambda>e. rkey (ents r e) \<noteq> k) L" unfolding L' using inb by (intro filter_cong) auto
    then have "ram_view r' L' = filter (\<lambda>y. rkey y \<noteq> k) (ram_view r L)"
      unfolding ram_view_same [OF 1(3)] by (simp add: ram_view_def filter_map comp_def)
    then show ?thesis using False view_find(2) [OF rep nL] L' by simp
  qed
  then show ?thesis using 1(1-3) unfolding hd by blast
qed

lemma ram_rep_seen: "ram_rep (r\<lparr>seen := s\<rparr>) L = ram_rep r L"
  by (simp add: ram_rep_def hash_ok_def lru_ok_def ram_view_def)

lemma seen_filter_frame:
  assumes "seen_filter u k r = (r', p)"
  shows "ram_rep r' L = ram_rep r L" "ram_view r' L = ram_view r L" "nbuckets r' = nbuckets r" "max_bytes r' = max_bytes r"
    "ibuckets r' = ibuckets r"
proof -
  have "r' = r \<or> (\<exists>s. r' = r\<lparr>seen := s\<rparr>)" using assms by (auto simp: seen_filter_def Let_def split: if_splits)
  then show "ram_rep r' L = ram_rep r L" "ram_view r' L = ram_view r L" "nbuckets r' = nbuckets r" "max_bytes r' = max_bytes r"
    "ibuckets r' = ibuckets r"
    by (elim disjE exE; simp add: ram_rep_seen ram_view_def)+
qed

definition passes :: "bool \<Rightarrow> cache_key \<Rightarrow> ram \<Rightarrow> bool" where
  "passes u k r \<longleftrightarrow> \<not> u \<or> seen r (hash_of k (nbuckets r)) = ucast (drop_bit 16 (key_word k 3))"

lemma ram_rep_ibuckets: "ram_rep (r\<lparr>ibuckets := i\<rparr>) L = ram_rep r L"
  by (simp add: ram_rep_def hash_ok_def lru_ok_def ram_view_def)

lemma ram_put_holds:
  assumes h: "ram_holds r V" and m: "max_bytes r \<noteq> 0" and a: "fresh r a"
    and i: "Suc (ibuckets r) < length bucket_sizes"
  shows "\<exists>r'. ram_put u a k d a1 a2 r = Some (r', passes u k r) \<and> max_bytes r' = max_bytes r \<and>
    ram_holds r' (if passes u k r
       then lru_put (max_bytes r) \<lparr>rkey = k, auxkey1 = a1, auxkey2 = a2, rdata = d\<rparr> V else V)"
proof -
  from h obtain L where rep: "ram_rep r L" and V: "V = ram_view r L" by (auto simp: ram_holds_def)
  obtain r0 p where s: "seen_filter u k r = (r0, p)" by fastforce
  have p: "p = passes u k r" using s by (auto simp: seen_filter_def passes_def Let_def split: if_splits)
  note f = seen_filter_frame [OF s]
  show ?thesis
  proof (cases p)
    case False
    then have "ram_put u a k d a1 a2 r = Some (r0, False)" using s m by (simp add: ram_put_def)
    moreover have "ram_holds r0 V" using rep f V unfolding ram_holds_def by blast
    ultimately show ?thesis using False p f by simp
  next
    case True
    let ?x = "\<lparr>rkey = k, auxkey1 = a1, auxkey2 = a2, rdata = d\<rparr>"
    have rep0: "ram_rep r0 L" using rep f by simp
    obtain r1 L1 g where 1: "put_scan k a1 a2 (bucket r0 (hash_of k (nbuckets r0))) r0 = Some (r1, g)"
      "ram_rep r1 L1" "same_table r0 r1" "set L1 \<subseteq> set L" "g = (find (entry_match k a1 a2) V \<noteq> None)"
      "ram_view r1 L1 = (if g then lru_get k a1 a2 V else filter (\<lambda>y. rkey y \<noteq> k) V)"
      using put_scan_bucket [OF rep0, of k a1 a2] unfolding f(2) V [symmetric] by (elim exE conjE) (rule that)
    have t1: "max_bytes r1 = max_bytes r" "ibuckets r1 = ibuckets r" using 1(3) f by (simp_all add: same_table_def)
    show ?thesis
    proof (cases g)
      case g: True
      then have "ram_put u a k d a1 a2 r = Some (r1, True)" using s m True 1(1) by (simp add: ram_put_def)
      moreover have "ram_holds r1 (lru_put (max_bytes r) ?x V)"
        using 1(2,5,6) g by (auto simp: ram_holds_def lru_put_def)
      ultimately show ?thesis using True p t1 by simp
    next
      case g: False
      have a': "a \<noteq> 0" "a \<notin> set L1" using fresh_not_in [OF a rep] 1(4) by auto
      have "\<forall>y \<in> set (ram_view r1 L1). rkey y \<noteq> k" using 1(6) g by simp
      then have nk: "\<forall>e \<in> set L1. rkey (ents r1 e) \<noteq> rkey ?x" by (simp add: ram_view_def)
      note 2 = ram_add_ok [OF 1(2) a' nk]
      obtain r2 L2 where 3: "evict (ram_add a ?x r1) = Some r2" "ram_rep r2 L2" "same_table (ram_add a ?x r1) r2"
        "ram_view (ram_add a ?x r1) L2 = lru_trim (max_bytes (ram_add a ?x r1)) (ram_view (ram_add a ?x r1) (L1 @ [a]))"
        using evict_ok [OF 2(1)] by (elim exE conjE) (rule that)
      have v2: "ram_view r2 L2 = lru_put (max_bytes r) ?x V"
        using 3(4) ram_view_same [OF 3(3)] 2(2,3) 1(5,6) g t1 by (simp add: lru_put_def)
      have t2: "max_bytes r2 = max_bytes r" "ibuckets r2 = ibuckets r"
        using 3(3) 2(3,5) t1 by (simp_all add: same_table_def)
      have put: "ram_put u a k d a1 a2 r =
        (if objects r2 > int (nbuckets r2)
         then map_option (\<lambda>r3. (r3, True)) (resize_hashtable (r2\<lparr>ibuckets := Suc (ibuckets r2)\<rparr>)) else Some (r2, True))"
        using s m True 1(1) g 3(1) by (simp add: ram_put_def)
      have rep2: "ram_rep (r2\<lparr>ibuckets := Suc (ibuckets r2)\<rparr>) L2" using 3(2) by (simp add: ram_rep_ibuckets)
      obtain r3 where 4: "resize_hashtable (r2\<lparr>ibuckets := Suc (ibuckets r2)\<rparr>) = Some r3" "ram_rep r3 L2"
        "ram_view r3 L2 = ram_view r2 L2" "max_bytes r3 = max_bytes r2"
        using resize_rep [OF rep2] i t2 by (auto simp: ram_view_def)
      have "ram_holds r2 (lru_put (max_bytes r) ?x V)" "ram_holds r3 (lru_put (max_bytes r) ?x V)"
        using v2 3(2) 4(2,3) by (auto simp: ram_holds_def)
      then show ?thesis using put 4(1,4) t2 True p by simp
    qed
  qed
qed

lemma ram_fixup_holds:
  assumes h: "ram_holds r V" and m: "max_bytes r \<noteq> 0"
  shows "\<exists>r'. ram_fixup k o1 o2 n1 n2 r = Some (r', find (entry_match k o1 o2) V \<noteq> None) \<and> max_bytes r' = max_bytes r \<and>
    ram_holds r' (map (\<lambda>y. if entry_match k o1 o2 y then y\<lparr>auxkey1 := n1, auxkey2 := n2\<rparr> else y) V)"
proof -
  from h obtain L where rep: "ram_rep r L" and V: "V = ram_view r L" by (auto simp: ram_holds_def)
  obtain w where w: "ram_find r k o1 o2 (bucket r (hash_of k (nbuckets r))) = Some w"
    "case w of None \<Rightarrow> \<forall>e \<in> set L. \<not> entry_match k o1 o2 (ents r e)
     | Some e \<Rightarrow> e \<in> set L \<and> entry_match k o1 o2 (ents r e)"
    using ram_find_bucket [OF rep] by blast
  show ?thesis
  proof (cases w)
    case None
    then have n: "\<forall>e \<in> set L. \<not> entry_match k o1 o2 (ents r e)" using w(2) by simp
    then have "map (\<lambda>y. if entry_match k o1 o2 y then y\<lparr>auxkey1 := n1, auxkey2 := n2\<rparr> else y) V = V"
      unfolding V ram_view_def by (simp add: map_idI)
    moreover have "find (entry_match k o1 o2) V = None" unfolding V by (rule view_find(2) [OF rep n])
    ultimately show ?thesis using None w(1) m h by (simp add: ram_fixup_def)
  next
    case (Some e)
    then have e: "e \<in> set L" "entry_match k o1 o2 (ents r e)" using w(2) by simp_all
    let ?x = "(ents r e)\<lparr>auxkey1 := n1, auxkey2 := n2\<rparr>"
    let ?r = "r\<lparr>ents := (ents r)(e := ?x)\<rparr>"
    have only: "entry_match k o1 o2 (ents r y) = (y = e)" if "y \<in> set L" for y
      using ram_rep_keys [OF rep that e(1)] e(2) unfolding entry_match_def by metis
    have same: "rkey (ents ?r y) = rkey (ents r y)" "rdata (ents ?r y) = rdata (ents r y)" for y by simp_all
    have view: "ram_view ?r L = map (\<lambda>y. if entry_match k o1 o2 y then y\<lparr>auxkey1 := n1, auxkey2 := n2\<rparr> else y) V"
      unfolding V ram_view_def using only by simp
    from rep obtain bk where hash: "hash_ok r bk (set L)" by (auto simp: ram_rep_def)
    have "hash_ok ?r bk (set L)" using hash unfolding hash_ok_def same by simp
    moreover have "lru_ok ?r L" using ram_rep_lru [OF rep] by (simp add: lru_ok_def)
    moreover have "map rkey (ram_view ?r L) = map rkey (ram_view r L)" "held (ram_view ?r L) = held (ram_view r L)"
      by (simp_all only: ram_view_def held_def map_map comp_def same)
    moreover have "bytes ?r = bytes r" "objects ?r = objects r" by simp_all
    ultimately have "ram_rep ?r L" using rep unfolding ram_rep_def by (auto simp only:)
    then have "ram_holds ?r (map (\<lambda>y. if entry_match k o1 o2 y then y\<lparr>auxkey1 := n1, auxkey2 := n2\<rparr> else y) V)"
      using view unfolding ram_holds_def by blast
    then show ?thesis using Some w(1) m view_find(1) [OF rep e] V by (simp add: ram_fixup_def)
  qed
qed



lemma lru_put_set: "set (lru_put m x V) \<subseteq> insert x (set V)"
proof (cases "find (entry_match (rkey x) (auxkey1 x) (auxkey2 x)) V")
  case None
  let ?W = "filter (\<lambda>y. rkey y \<noteq> rkey x) V @ [x]"
  obtain ys where "?W = ys @ lru_trim m ?W" using lru_trim_suffix by blast
  then have "set (lru_trim m ?W) \<subseteq> set ?W" by (metis Un_upper2 set_append)
  then show ?thesis using None by (auto simp: lru_put_def)
next
  case (Some y)
  then have "y \<in> set V" by (auto simp: find_Some_iff)
  then show ?thesis using Some set_remove1_subset [of y V] by (auto simp: lru_put_def lru_get_def)
qed

section \<open>The interface of a RAM cache\<close>

text \<open>
  What the cache relies on, whatever the replacement policy: entries come from \<open>put\<close>, \<open>fixup\<close>
  renames them, \<open>get\<close> returns the data of one that has all three keys. \<open>holds s E\<close>: the entries
  are among \<open>E\<close>.
\<close>

datatype ram_event =
    Got cache_key u32 u32 "iobuf_data option"
  | Stored cache_key u32 u32 iobuf_data
  | Fixed cache_key u32 u32 u32 u32

text \<open>Every entry that a client could have stored, the latest event first.\<close>

fun stored :: "ram_event list \<Rightarrow> ram_entry list" where
  "stored [] = []"
| "stored (Got k a1 a2 d # tr) = stored tr"
| "stored (Stored k a1 a2 d # tr) = \<lparr>rkey = k, auxkey1 = a1, auxkey2 = a2, rdata = d\<rparr> # stored tr"
| "stored (Fixed k o1 o2 n1 n2 # tr) =
     stored tr @ map (\<lambda>x. x\<lparr>auxkey1 := n1, auxkey2 := n2\<rparr>) (filter (entry_match k o1 o2) (stored tr))"

fun coherent :: "ram_event list \<Rightarrow> bool" where
  "coherent [] = True"
| "coherent (Got k a1 a2 (Some d) # tr) =
     (\<lparr>rkey = k, auxkey1 = a1, auxkey2 = a2, rdata = d\<rparr> \<in> set (stored tr) \<and> coherent tr)"
| "coherent (_ # tr) = coherent tr"

text \<open>The histories of a cache, the latest event first.\<close>

inductive cache_runs ::
    "(cache_key \<Rightarrow> u32 \<Rightarrow> u32 \<Rightarrow> 's \<Rightarrow> ('s \<times> iobuf_data option) option) \<Rightarrow>
     (nat \<Rightarrow> cache_key \<Rightarrow> iobuf_data \<Rightarrow> u32 \<Rightarrow> u32 \<Rightarrow> 's \<Rightarrow> ('s \<times> bool) option) \<Rightarrow>
     (cache_key \<Rightarrow> u32 \<Rightarrow> u32 \<Rightarrow> u32 \<Rightarrow> u32 \<Rightarrow> 's \<Rightarrow> ('s \<times> bool) option) \<Rightarrow>
     ('s \<Rightarrow> nat \<Rightarrow> bool) \<Rightarrow> 's \<Rightarrow> ram_event list \<Rightarrow> 's \<Rightarrow> bool"
  for get put fixup free s0 where
  start: "cache_runs get put fixup free s0 [] s0"
| got: "cache_runs get put fixup free s0 tr s \<Longrightarrow> get k a1 a2 s = Some (s', d) \<Longrightarrow>
    cache_runs get put fixup free s0 (Got k a1 a2 d # tr) s'"
| stored: "cache_runs get put fixup free s0 tr s \<Longrightarrow> free s a \<Longrightarrow> put a k x a1 a2 s = Some (s', f) \<Longrightarrow>
    cache_runs get put fixup free s0 (Stored k a1 a2 x # tr) s'"
| fixed: "cache_runs get put fixup free s0 tr s \<Longrightarrow> fixup k o1 o2 n1 n2 s = Some (s', f) \<Longrightarrow>
    cache_runs get put fixup free s0 (Fixed k o1 o2 n1 n2 # tr) s'"

locale ram_cache =
  fixes get :: "cache_key \<Rightarrow> u32 \<Rightarrow> u32 \<Rightarrow> 's \<Rightarrow> ('s \<times> iobuf_data option) option"
    and put :: "nat \<Rightarrow> cache_key \<Rightarrow> iobuf_data \<Rightarrow> u32 \<Rightarrow> u32 \<Rightarrow> 's \<Rightarrow> ('s \<times> bool) option"
    and fixup :: "cache_key \<Rightarrow> u32 \<Rightarrow> u32 \<Rightarrow> u32 \<Rightarrow> u32 \<Rightarrow> 's \<Rightarrow> ('s \<times> bool) option"
    and free :: "'s \<Rightarrow> nat \<Rightarrow> bool"
    and holds :: "'s \<Rightarrow> ram_entry set \<Rightarrow> bool"
  assumes get_ok: "holds s E \<Longrightarrow> get k a1 a2 s = Some (s', d) \<Longrightarrow>
        holds s' E \<and> (\<forall>x. d = Some x \<longrightarrow> \<lparr>rkey = k, auxkey1 = a1, auxkey2 = a2, rdata = x\<rparr> \<in> E)"
    and put_ok: "holds s E \<Longrightarrow> free s a \<Longrightarrow> put a k x a1 a2 s = Some (s', f) \<Longrightarrow>
        holds s' (insert \<lparr>rkey = k, auxkey1 = a1, auxkey2 = a2, rdata = x\<rparr> E)"
    and fixup_ok: "holds s E \<Longrightarrow> fixup k o1 o2 n1 n2 s = Some (s', f) \<Longrightarrow>
        holds s' (E \<union> (\<lambda>x. x\<lparr>auxkey1 := n1, auxkey2 := n2\<rparr>) ` {x \<in> E. entry_match k o1 o2 x})"
begin

lemma runs_coherent: "cache_runs get put fixup free s0 tr s \<Longrightarrow> holds s0 {} \<Longrightarrow> holds s (set (stored tr)) \<and> coherent tr"
proof (induction rule: cache_runs.induct)
  case (got tr s k a1 a2 s' d)
  then show ?case using get_ok [of s "set (stored tr)" k a1 a2 s' d] by (cases d) simp_all
next
  case (stored tr s a k x a1 a2 s' f)
  then show ?case using put_ok [of s "set (stored tr)" a k x a1 a2 s' f] by simp
next
  case (fixed tr s k o1 o2 n1 n2 s' f)
  then show ?case using fixup_ok [of s "set (stored tr)" k o1 o2 n1 n2 s' f] by simp
qed simp

end

text \<open>The laws, for the LRU cache.\<close>

definition ram_within :: "ram \<Rightarrow> ram_entry set \<Rightarrow> bool" where
  "ram_within r E \<longleftrightarrow> max_bytes r \<noteq> 0 \<and> (\<exists>V. ram_holds r V \<and> set V \<subseteq> E)"

lemma entry_eq: "entry_match k a1 a2 x \<Longrightarrow> \<lparr>rkey = k, auxkey1 = a1, auxkey2 = a2, rdata = rdata x\<rparr> = x"
  by (simp add: entry_match_def)

lemma lru_get_set: "set (lru_get k a1 a2 V) \<subseteq> set V"
proof (cases "find (entry_match k a1 a2) V")
  case (Some y)
  then have "y \<in> set V" by (auto simp: find_Some_iff)
  then show ?thesis using Some set_remove1_subset [of y V] by (simp add: lru_get_def)
qed (simp add: lru_get_def)

lemma ram_get_law:
  assumes "ram_within r E" "ram_get k a1 a2 r = Some (r', d)"
  shows "ram_within r' E \<and> (\<forall>x. d = Some x \<longrightarrow> \<lparr>rkey = k, auxkey1 = a1, auxkey2 = a2, rdata = x\<rparr> \<in> E)"
proof -
  from assms(1) obtain V where m: "max_bytes r \<noteq> 0" and V: "ram_holds r V" "set V \<subseteq> E" by (auto simp: ram_within_def)
  have r': "ram_holds r' (lru_get k a1 a2 V)" "same_table r r'" "d = map_option rdata (find (entry_match k a1 a2) V)"
    using ram_get_holds [OF V(1) m, of k a1 a2] assms(2) by auto
  have "set (lru_get k a1 a2 V) \<subseteq> E" using lru_get_set V(2) by (rule order_trans)
  then have "ram_within r' E" using r'(1,2) m unfolding ram_within_def same_table_def by auto
  moreover have "\<lparr>rkey = k, auxkey1 = a1, auxkey2 = a2, rdata = x\<rparr> \<in> E" if d: "d = Some x" for x
  proof -
    have "map_option rdata (find (entry_match k a1 a2) V) = Some x" using r'(3) d by simp
    then obtain y where y: "find (entry_match k a1 a2) V = Some y" "x = rdata y" by auto
    then have "y \<in> set V" "entry_match k a1 a2 y" by (auto simp: find_Some_iff)
    then show ?thesis using entry_eq [of k a1 a2 y] y(2) V(2) by auto
  qed
  ultimately show ?thesis by blast
qed

text \<open>With the table no larger than its last size but one.\<close>

definition ram_room :: "ram \<Rightarrow> nat \<Rightarrow> bool" where
  "ram_room r a \<longleftrightarrow> fresh r a \<and> Suc (ibuckets r) < length bucket_sizes"

lemma ram_put_law:
  assumes "ram_within r E" "ram_room r a" "ram_put u a k x a1 a2 r = Some (r', f)"
  shows "ram_within r' (insert \<lparr>rkey = k, auxkey1 = a1, auxkey2 = a2, rdata = x\<rparr> E)"
proof -
  from assms(1) obtain V where m: "max_bytes r \<noteq> 0" and V: "ram_holds r V" "set V \<subseteq> E" by (auto simp: ram_within_def)
  let ?x = "\<lparr>rkey = k, auxkey1 = a1, auxkey2 = a2, rdata = x\<rparr>"
  let ?V = "if passes u k r then lru_put (max_bytes r) ?x V else V"
  have r': "ram_holds r' ?V" "max_bytes r' = max_bytes r"
    using ram_put_holds [OF V(1) m, of a u k x a1 a2] assms(2,3) by (auto simp: ram_room_def)
  have "set ?V \<subseteq> insert ?x E" using lru_put_set [of "max_bytes r" ?x V] V(2) by auto
  then show ?thesis using r' m unfolding ram_within_def by auto
qed

lemma ram_fixup_law:
  assumes "ram_within r E" "ram_fixup k o1 o2 n1 n2 r = Some (r', f)"
  shows "ram_within r' (E \<union> (\<lambda>x. x\<lparr>auxkey1 := n1, auxkey2 := n2\<rparr>) ` {x \<in> E. entry_match k o1 o2 x})"
proof -
  from assms(1) obtain V where m: "max_bytes r \<noteq> 0" and V: "ram_holds r V" "set V \<subseteq> E" by (auto simp: ram_within_def)
  let ?V = "map (\<lambda>y. if entry_match k o1 o2 y then y\<lparr>auxkey1 := n1, auxkey2 := n2\<rparr> else y) V"
  have r': "ram_holds r' ?V" "max_bytes r' = max_bytes r"
    using ram_fixup_holds [OF V(1) m, of k o1 o2 n1 n2] assms(2) by auto
  have "set ?V \<subseteq> E \<union> (\<lambda>x. x\<lparr>auxkey1 := n1, auxkey2 := n2\<rparr>) ` {x \<in> E. entry_match k o1 o2 x}" using V(2) by auto
  moreover have "max_bytes r' \<noteq> 0" using r'(2) m by simp
  ultimately show ?thesis using r'(1) unfolding ram_within_def by (intro conjI exI [of _ ?V]) assumption+
qed

interpretation lru_cache: ram_cache ram_get "ram_put u" ram_fixup ram_room ram_within for u
  by unfold_locales (fact ram_get_law ram_put_law ram_fixup_law)+

section \<open>Properties\<close>

definition sample_data :: iobuf_data where
  "sample_data = \<lparr>buf_id = 7, block_size = 4096\<rparr>"

definition sample_rkey :: cache_key where
  "sample_rkey = CacheKey 7 3 9 5"

definition sample_ram_entry :: ram_entry where
  "sample_ram_entry = \<lparr>rkey = sample_rkey, auxkey1 = 1, auxkey2 = 2, rdata = sample_data\<rparr>"

lemma fresh_empty: "ram_rep r [] \<Longrightarrow> a \<noteq> 0 \<Longrightarrow> fresh r a"
  by (auto simp: fresh_def ram_rep_def)

text \<open>A new cache of 10000 bytes, and the same cache with one entry.\<close>

lemma sample_empty:
  "\<exists>r. ram_init 10000 (ram_new (\<lambda>_. sample_ram_entry)) = Some r \<and> ram_holds r [] \<and> max_bytes r = 10000 \<and>
     ram_room r 1"
proof -
  obtain r where r: "ram_init 10000 (ram_new (\<lambda>_. sample_ram_entry)) = Some r" "ram_rep r []"
    "max_bytes r = 10000" "ibuckets r = 0"
    using ram_init_ok [of 10000 "\<lambda>_. sample_ram_entry"] by auto
  then show ?thesis using fresh_empty [of r 1]
    by (intro exI [of _ r]) (auto simp: ram_holds_def ram_room_def ram_view_def bucket_sizes_def)
qed

lemma sample_one:
  "\<exists>r r1. ram_init 10000 (ram_new (\<lambda>_. sample_ram_entry)) = Some r \<and>
     ram_put False 1 sample_rkey sample_data 1 2 r = Some (r1, True) \<and> ram_room r 1 \<and>
     max_bytes r1 = 10000 \<and> ram_holds r1 [sample_ram_entry]"
proof -
  obtain r where r: "ram_init 10000 (ram_new (\<lambda>_. sample_ram_entry)) = Some r" "ram_holds r []"
    "max_bytes r = 10000" "ram_room r 1" using sample_empty by blast
  have "lru_put 10000 sample_ram_entry [] = [sample_ram_entry]"
    by (simp add: lru_put_def sample_ram_entry_def sample_data_def)
  with ram_put_holds [OF r(2), of 1 False sample_rkey sample_data 1 2] r show ?thesis
    by (auto simp: passes_def ram_room_def sample_ram_entry_def)
qed

text \<open>
  C13. A \<open>get\<close> of a RAM cache in use finishes, returns the data of the entry that has the key and
  both auxiliary keys if there is one and nothing otherwise, and makes that entry the most
  recently used one; nothing else changes.
\<close>

theorem ram_get_refines:
  assumes "ram_holds r V" "max_bytes r \<noteq> 0"
  shows "\<exists>r'. ram_get k a1 a2 r = Some (r', map_option rdata (find (entry_match k a1 a2) V)) \<and>
    ram_holds r' (case find (entry_match k a1 a2) V of None \<Rightarrow> V | Some x \<Rightarrow> remove1 x V @ [x])"
  using ram_get_holds [OF assms, of k a1 a2] unfolding lru_get_def by blast

theorem ram_get_refines_witness:
  "\<exists>r r'. max_bytes r \<noteq> 0 \<and> ram_holds r [sample_ram_entry] \<and>
     ram_get sample_rkey 1 2 r = Some (r', Some sample_data) \<and> ram_holds r' [sample_ram_entry]"
proof -
  obtain r1 where r1: "max_bytes r1 = 10000" "ram_holds r1 [sample_ram_entry]" using sample_one by blast
  then have "max_bytes r1 \<noteq> 0" by simp
  then obtain r' where "ram_get sample_rkey 1 2 r1 = Some (r', Some sample_data)" "ram_holds r' [sample_ram_entry]"
    using ram_get_refines [OF r1(2), of sample_rkey 1 2] by (auto simp: entry_match_def sample_ram_entry_def)
  then show ?thesis using r1 by (intro exI [of _ r1] exI [of _ r']) simp
qed

text \<open>
  C14. A \<open>put\<close> with a fresh entry finishes (as long as the table can still grow) and reports
  whether the seen filter let the object pass. If it did and no entry has all three keys, the
  entries of the key are dropped, the new one is the most recently used one, and the least
  recently used ones are evicted until at most \<open>max_bytes\<close> are held; if an entry with all three
  keys is there, it only becomes the most recently used one and its data stay.
\<close>

theorem ram_put_refines:
  assumes "ram_holds r V" "0 < max_bytes r" "fresh r a" "Suc (ibuckets r) < length bucket_sizes"
  shows "\<exists>r' V'. ram_put u a k d a1 a2 r = Some (r', passes u k r) \<and> ram_holds r' V' \<and>
    V' = (if \<not> passes u k r then V
          else case find (entry_match k a1 a2) V of
            Some x \<Rightarrow> remove1 x V @ [x]
          | None \<Rightarrow> lru_trim (max_bytes r)
              (filter (\<lambda>y. rkey y \<noteq> k) V @ [\<lparr>rkey = k, auxkey1 = a1, auxkey2 = a2, rdata = d\<rparr>])) \<and>
    (passes u k r \<and> find (entry_match k a1 a2) V = None \<longrightarrow> bytes r' \<le> max_bytes r)"
proof -
  have m: "max_bytes r \<noteq> 0" using assms(2) by simp
  let ?x = "\<lparr>rkey = k, auxkey1 = a1, auxkey2 = a2, rdata = d\<rparr>"
  obtain r' where r': "ram_put u a k d a1 a2 r = Some (r', passes u k r)"
    "ram_holds r' (if passes u k r then lru_put (max_bytes r) ?x V else V)"
    using ram_put_holds [OF assms(1) m assms(3,4), of u k d a1 a2] by blast
  have b: "bytes r' = held (if passes u k r then lru_put (max_bytes r) ?x V else V)"
    using r'(2) by (auto simp: ram_holds_def ram_rep_def)
  show ?thesis
    using r' b lru_trim_held [of "max_bytes r"] assms(2)
    by (intro exI [of _ r'] exI [of _ "if passes u k r then lru_put (max_bytes r) ?x V else V"])
      (auto simp: lru_put_def lru_get_def split: option.splits)
qed

theorem ram_put_refines_witness:
  "\<exists>r r' V'. ram_put False 1 sample_rkey sample_data 1 2 r = Some (r', True) \<and> ram_holds r' V' \<and>
     V' = [sample_ram_entry] \<and> bytes r' \<le> 10000"
proof -
  obtain r where r: "ram_holds r []" "max_bytes r = 10000" "ram_room r 1" using sample_empty by blast
  have a: "0 < max_bytes r" "fresh r 1" "Suc (ibuckets r) < length bucket_sizes" using r by (auto simp: ram_room_def)
  have "lru_trim 10000 [sample_ram_entry] = [sample_ram_entry]" by (simp add: sample_ram_entry_def sample_data_def)
  then obtain r' where "ram_put False 1 sample_rkey sample_data 1 2 r = Some (r', True)"
    "ram_holds r' [sample_ram_entry]" "bytes r' \<le> 10000"
    using ram_put_refines [OF r(1) a, of False sample_rkey sample_data 1 2] r(2)
    by (auto simp: passes_def sample_ram_entry_def)
  then show ?thesis by (intro exI [of _ r] exI [of _ r'] exI [of _ "[sample_ram_entry]"]) simp
qed

text \<open>
  C15. Whatever sequence of \<open>get\<close>, \<open>put\<close> and \<open>fixup\<close> a new cache goes through, every hit returns
  data that an earlier \<open>put\<close> stored under that key and those auxiliary keys (or under the ones an
  earlier \<open>fixup\<close> replaced by them).
\<close>

theorem ram_coherent:
  assumes "ram_init m (ram_new en) = Some r0" "0 < m"
    and "cache_runs ram_get (ram_put u) ram_fixup ram_room r0 tr r"
  shows "coherent tr"
proof -
  have "ram_within r0 {}"
    using ram_init_ok [OF assms(2), of en] assms(1,2)
    by (auto simp: ram_within_def ram_holds_def ram_view_def)
  from lru_cache.runs_coherent [OF assms(3) this] show ?thesis by blast
qed

theorem ram_coherent_witness:
  "\<exists>r0 r. cache_runs ram_get (ram_put False) ram_fixup ram_room r0
       [Got sample_rkey 1 2 (Some sample_data), Stored sample_rkey 1 2 sample_data] r \<and>
     coherent [Got sample_rkey 1 2 (Some sample_data), Stored sample_rkey 1 2 sample_data]"
proof -
  obtain r r1 where r: "ram_init 10000 (ram_new (\<lambda>_. sample_ram_entry)) = Some r"
    "ram_put False 1 sample_rkey sample_data 1 2 r = Some (r1, True)" "ram_room r 1"
    "max_bytes r1 = 10000" "ram_holds r1 [sample_ram_entry]" using sample_one by blast
  obtain r2 where r2: "ram_get sample_rkey 1 2 r1 = Some (r2, Some sample_data)"
    using ram_get_holds [OF r(5), of sample_rkey 1 2] r(4) by (auto simp: entry_match_def sample_ram_entry_def)
  have "cache_runs ram_get (ram_put False) ram_fixup ram_room r [Stored sample_rkey 1 2 sample_data] r1"
    using cache_runs.start r(3,2) by (rule cache_runs.stored)
  from cache_runs.got [OF this r2] ram_coherent [OF r(1) _ cache_runs.got [OF this r2]] show ?thesis by auto
qed



end
