(* ===== verification/ParseRules.thy ===== *)
theory ParseRules
  imports Prelude
begin

text \<open>
  The character classes of lib/ts/ParseRules.h, the table that CompileParseRules.cc computes from
  them and through which the rest of the program asks for a class, and the string functions and
  number parsers of ParseRules.h and ParseRules.cc. A C string is the memory from the pointer to
  the end of the buffer; reading past that end is \<open>None\<close>. The suffix \<open>_def0\<close> marks the
  definition of a class that only the table generator uses.
\<close>

section \<open>Character classes\<close>

definition chars :: "string \<Rightarrow> bytes" where
  "chars s = map of_char s"

definition CHAR_SP :: u8 where "CHAR_SP = 32"
definition CHAR_HT :: u8 where "CHAR_HT = 9"
definition CHAR_LF :: u8 where "CHAR_LF = 10"
definition CHAR_VT :: u8 where "CHAR_VT = 11"
definition CHAR_NP :: u8 where "CHAR_NP = 12"
definition CHAR_CR :: u8 where "CHAR_CR = 13"

definition is_char0 :: "u8 \<Rightarrow> bool" where
  "is_char0 c \<longleftrightarrow> c AND 0x80 = 0"

definition is_upalpha0 :: "u8 \<Rightarrow> bool" where
  "is_upalpha0 c \<longleftrightarrow> of_char (CHR ''A'') \<le> c \<and> c \<le> of_char (CHR ''Z'')"

definition is_loalpha0 :: "u8 \<Rightarrow> bool" where
  "is_loalpha0 c \<longleftrightarrow> of_char (CHR ''a'') \<le> c \<and> c \<le> of_char (CHR ''z'')"

definition is_alpha0 :: "u8 \<Rightarrow> bool" where
  "is_alpha0 c \<longleftrightarrow> is_upalpha0 c \<or> is_loalpha0 c"

definition is_digit0 :: "u8 \<Rightarrow> bool" where
  "is_digit0 c \<longleftrightarrow> of_char (CHR ''0'') \<le> c \<and> c \<le> of_char (CHR ''9'')"

definition is_alnum0 :: "u8 \<Rightarrow> bool" where
  "is_alnum0 c \<longleftrightarrow> is_alpha0 c \<or> is_digit0 c"

definition is_ctl0 :: "u8 \<Rightarrow> bool" where
  "is_ctl0 c \<longleftrightarrow> (c AND 0x80 = 0 \<and> c \<le> 31) \<or> c = 127"

definition is_ws0 :: "u8 \<Rightarrow> bool" where
  "is_ws0 c \<longleftrightarrow> c = CHAR_SP \<or> c = CHAR_HT"

definition is_hex0 :: "u8 \<Rightarrow> bool" where
  "is_hex0 c \<longleftrightarrow> (of_char (CHR ''A'') \<le> c \<and> c \<le> of_char (CHR ''F'')) \<or>
     (of_char (CHR ''a'') \<le> c \<and> c \<le> of_char (CHR ''f'')) \<or> (of_char (CHR ''0'') \<le> c \<and> c \<le> of_char (CHR ''9''))"

definition is_cr :: "u8 \<Rightarrow> bool" where
  "is_cr c \<longleftrightarrow> c = CHAR_CR"

definition is_lf :: "u8 \<Rightarrow> bool" where
  "is_lf c \<longleftrightarrow> c = CHAR_LF"

definition is_splf0 :: "u8 \<Rightarrow> bool" where
  "is_splf0 c \<longleftrightarrow> c = CHAR_SP \<or> c = CHAR_LF"

definition is_spcr0 :: "u8 \<Rightarrow> bool" where
  "is_spcr0 c \<longleftrightarrow> c = CHAR_SP \<or> c = CHAR_CR"

definition is_wslfcr0 :: "u8 \<Rightarrow> bool" where
  "is_wslfcr0 c \<longleftrightarrow> is_ws0 c \<or> is_splf0 c \<or> is_spcr0 c"

definition is_extra0 :: "u8 \<Rightarrow> bool" where
  "is_extra0 c \<longleftrightarrow> c \<in> set (39 # chars ''!*(),'')"

definition is_safe0 :: "u8 \<Rightarrow> bool" where
  "is_safe0 c \<longleftrightarrow> c \<in> set (chars ''$-_.+'')"

definition is_unsafe0 :: "u8 \<Rightarrow> bool" where
  "is_unsafe0 c \<longleftrightarrow> is_ctl0 c \<or> c \<in> set (34 # chars '' #%<>'')"

definition is_reserved0 :: "u8 \<Rightarrow> bool" where
  "is_reserved0 c \<longleftrightarrow> c \<in> set (chars '';/?:@&='')"

definition is_national0 :: "u8 \<Rightarrow> bool" where
  "is_national0 c \<longleftrightarrow> c \<in> set (92 # 96 # chars ''{}|^~[]'')"

definition is_unreserved0 :: "u8 \<Rightarrow> bool" where
  "is_unreserved0 c \<longleftrightarrow> is_alpha0 c \<or> is_digit0 c \<or> is_safe0 c \<or> is_extra0 c \<or> is_national0 c"

definition is_punct0 :: "u8 \<Rightarrow> bool" where
  "is_punct0 c \<longleftrightarrow> c \<in> set (34 # 39 # 92 # 96 # chars ''!#%&()*+,-./:;<=>?@[]^_{|}~'')"

definition is_end_of_url0 :: "u8 \<Rightarrow> bool" where
  "is_end_of_url0 c \<longleftrightarrow> c = 0 \<or> c = CHAR_LF \<or> c = CHAR_SP \<or> is_ctl0 c"

definition is_pchar0 :: "u8 \<Rightarrow> bool" where
  "is_pchar0 c \<longleftrightarrow> is_unreserved0 c \<or> c \<in> set (chars '':@&=+'')"

definition is_tspecials0 :: "u8 \<Rightarrow> bool" where
  "is_tspecials0 c \<longleftrightarrow> c \<in> set (92 # 34 # CHAR_SP # CHAR_HT # chars ''()<>@,;:/[]?={}'')"

definition is_token0 :: "u8 \<Rightarrow> bool" where
  "is_token0 c \<longleftrightarrow> is_char0 c \<and> \<not> (is_ctl0 c \<or> is_tspecials0 c)"

definition is_eow0 :: "u8 \<Rightarrow> bool" where
  "is_eow0 c \<longleftrightarrow> c = 0 \<or> c = CHAR_CR \<or> c = CHAR_LF"

definition is_wildmat0 :: "u8 \<Rightarrow> bool" where
  "is_wildmat0 c \<longleftrightarrow> c \<in> set (92 # chars ''*?['')"

definition is_sep0 :: "u8 \<Rightarrow> bool" where
  "is_sep0 c \<longleftrightarrow> c = 0 \<or> c \<in> set (chars '',:!'') \<or> is_wslfcr0 c"

definition is_empty0 :: "u8 \<Rightarrow> bool" where
  "is_empty0 c \<longleftrightarrow> c = of_char (CHR ''#'') \<or> is_wslfcr0 c"

definition is_space0 :: "u8 \<Rightarrow> bool" where
  "is_space0 c \<longleftrightarrow> c \<in> {CHAR_SP, CHAR_HT, CHAR_LF, CHAR_VT, CHAR_NP, CHAR_CR}"

definition is_control0 :: "u8 \<Rightarrow> bool" where
  "is_control0 c \<longleftrightarrow> c < 32 \<or> c = 127"

definition is_mime_sep0 :: "u8 \<Rightarrow> bool" where
  "is_mime_sep0 c \<longleftrightarrow> c \<in> set (92 # 34 # CHAR_HT # chars ''()<>@,;/[]?{} '')"

definition is_http_field_name0 :: "u8 \<Rightarrow> bool" where
  "is_http_field_name0 c \<longleftrightarrow> \<not> (c = of_char (CHR '':'') \<or> (is_mime_sep0 c \<and> c \<noteq> of_char (CHR ''@'')))"

definition is_http_field_value0 :: "u8 \<Rightarrow> bool" where
  "is_http_field_value0 c \<longleftrightarrow> c \<notin> {CHAR_CR, CHAR_LF, 34, 44}"

definition ink_toupper0 :: "u8 \<Rightarrow> u8" where
  "ink_toupper0 c = (if is_loalpha0 c then c - 32 else c)"

definition ink_tolower0 :: "u8 \<Rightarrow> u8" where
  "ink_tolower0 c = (if is_upalpha0 c then c + 32 else c)"

section \<open>The table\<close>

datatype cls = C_char | C_upalpha | C_loalpha | C_alpha | C_digit | C_ctl | C_ws | C_hex | C_pchar | C_extra |
  C_safe | C_unsafe | C_national | C_reserved | C_unreserved | C_punct | C_end_of_url | C_tspecials | C_spcr |
  C_splf | C_wslfcr | C_eow | C_token | C_wildmat | C_sep | C_empty | C_alnum | C_space | C_control |
  C_mime_sep | C_http_field_name | C_http_field_value

definition all_cls :: "cls list" where
  "all_cls = [C_char, C_upalpha, C_loalpha, C_alpha, C_digit, C_ctl, C_ws, C_hex, C_pchar, C_extra,
     C_safe, C_unsafe, C_national, C_reserved, C_unreserved, C_punct, C_end_of_url, C_tspecials, C_spcr,
     C_splf, C_wslfcr, C_eow, C_token, C_wildmat, C_sep, C_empty, C_alnum, C_space, C_control,
     C_mime_sep, C_http_field_name, C_http_field_value]"

text \<open>The \<open>is_*_BIT\<close> constants.\<close>

fun bit_no :: "cls \<Rightarrow> nat" where
  "bit_no C_char = 0" | "bit_no C_upalpha = 1" | "bit_no C_loalpha = 2" | "bit_no C_alpha = 3"
| "bit_no C_digit = 4" | "bit_no C_ctl = 5" | "bit_no C_ws = 6" | "bit_no C_hex = 7"
| "bit_no C_pchar = 8" | "bit_no C_extra = 9" | "bit_no C_safe = 10" | "bit_no C_unsafe = 11"
| "bit_no C_national = 12" | "bit_no C_reserved = 13" | "bit_no C_unreserved = 14" | "bit_no C_punct = 15"
| "bit_no C_end_of_url = 16" | "bit_no C_tspecials = 17" | "bit_no C_spcr = 18" | "bit_no C_splf = 19"
| "bit_no C_wslfcr = 20" | "bit_no C_eow = 21" | "bit_no C_token = 22" | "bit_no C_wildmat = 23"
| "bit_no C_sep = 24" | "bit_no C_empty = 25" | "bit_no C_alnum = 26" | "bit_no C_space = 27"
| "bit_no C_control = 28" | "bit_no C_mime_sep = 29" | "bit_no C_http_field_name = 30"
| "bit_no C_http_field_value = 31"

definition cls_bit :: "cls \<Rightarrow> u32" where
  "cls_bit k = push_bit (bit_no k) 1"

fun is_cls0 :: "cls \<Rightarrow> u8 \<Rightarrow> bool" where
  "is_cls0 C_char = is_char0" | "is_cls0 C_upalpha = is_upalpha0" | "is_cls0 C_loalpha = is_loalpha0"
| "is_cls0 C_alpha = is_alpha0" | "is_cls0 C_digit = is_digit0" | "is_cls0 C_ctl = is_ctl0"
| "is_cls0 C_ws = is_ws0" | "is_cls0 C_hex = is_hex0" | "is_cls0 C_pchar = is_pchar0"
| "is_cls0 C_extra = is_extra0" | "is_cls0 C_safe = is_safe0" | "is_cls0 C_unsafe = is_unsafe0"
| "is_cls0 C_national = is_national0" | "is_cls0 C_reserved = is_reserved0" | "is_cls0 C_unreserved = is_unreserved0"
| "is_cls0 C_punct = is_punct0" | "is_cls0 C_end_of_url = is_end_of_url0" | "is_cls0 C_tspecials = is_tspecials0"
| "is_cls0 C_spcr = is_spcr0" | "is_cls0 C_splf = is_splf0" | "is_cls0 C_wslfcr = is_wslfcr0"
| "is_cls0 C_eow = is_eow0" | "is_cls0 C_token = is_token0" | "is_cls0 C_wildmat = is_wildmat0"
| "is_cls0 C_sep = is_sep0" | "is_cls0 C_empty = is_empty0" | "is_cls0 C_alnum = is_alnum0"
| "is_cls0 C_space = is_space0" | "is_cls0 C_control = is_control0" | "is_cls0 C_mime_sep = is_mime_sep0"
| "is_cls0 C_http_field_name = is_http_field_name0" | "is_cls0 C_http_field_value = is_http_field_value0"

text \<open>One entry of the generator's table, and the tables.\<close>

definition ctype_entry :: "u8 \<Rightarrow> u32" where
  "ctype_entry c = fold (\<lambda>k t. if is_cls0 k c then t OR cls_bit k else t) all_cls 0"

definition parseRulesCType :: "u32 list" where
  "parseRulesCType = map (\<lambda>n. ctype_entry (of_nat n)) [0..<256]"

definition parseRulesCTypeToUpper :: bytes where
  "parseRulesCTypeToUpper = map (\<lambda>n. ink_toupper0 (of_nat n)) [0..<256]"

definition parseRulesCTypeToLower :: bytes where
  "parseRulesCTypeToLower = map (\<lambda>n. ink_tolower0 (of_nat n)) [0..<256]"

definition is_type :: "u8 \<Rightarrow> u32 \<Rightarrow> u32" where
  "is_type c bm = (parseRulesCType ! unat c) AND bm"

definition is_cls :: "cls \<Rightarrow> u8 \<Rightarrow> bool" where
  "is_cls k c \<longleftrightarrow> (parseRulesCType ! unat c) AND cls_bit k \<noteq> 0"

abbreviation "is_digit \<equiv> is_cls C_digit"
abbreviation "is_hex \<equiv> is_cls C_hex"
abbreviation "is_wslfcr \<equiv> is_cls C_wslfcr"
abbreviation "is_eow \<equiv> is_cls C_eow"
abbreviation "is_space \<equiv> is_cls C_space"
abbreviation "is_ws \<equiv> is_cls C_ws"

definition ink_toupper :: "u8 \<Rightarrow> u8" where
  "ink_toupper c = parseRulesCTypeToUpper ! unat c"

definition ink_tolower :: "u8 \<Rightarrow> u8" where
  "ink_tolower c = parseRulesCTypeToLower ! unat c"

section \<open>Strings\<close>

definition is_escape :: "bytes \<Rightarrow> bool option" where
  "is_escape s =
     (case load s 0 of
        None \<Rightarrow> None
      | Some a \<Rightarrow>
          if a \<noteq> of_char (CHR ''%'') then Some False
          else (case load s 1 of
                  None \<Rightarrow> None
                | Some b \<Rightarrow> if \<not> is_hex b then Some False else map_option is_hex (load s 2)))"

definition is_uchar :: "bytes \<Rightarrow> bool option" where
  "is_uchar s = (case load s 0 of None \<Rightarrow> None | Some a \<Rightarrow> if is_cls C_unreserved a then Some True else is_escape s)"

definition is_pchar :: "bytes \<Rightarrow> bool option" where
  "is_pchar s =
     (case load s 0 of
        None \<Rightarrow> None
      | Some a \<Rightarrow>
          if a \<noteq> of_char (CHR ''%'') then Some (is_cls C_pchar a)
          else (case load s 1 of
                  None \<Rightarrow> None
                | Some b \<Rightarrow> if \<not> is_hex b then Some False else map_option is_hex (load s 2)))"

fun strncasecmp_eow :: "bytes \<Rightarrow> bytes \<Rightarrow> nat \<Rightarrow> bool option" where
  "strncasecmp_eow s1 s2 0 = Some True"
| "strncasecmp_eow (a # s1) (b # s2) (Suc n) =
     (if ink_tolower a \<noteq> ink_tolower b then Some (is_eow a \<and> is_eow b) else strncasecmp_eow s1 s2 n)"
| "strncasecmp_eow s1 s2 (Suc n) = None"

fun strlen_eow :: "bytes \<Rightarrow> nat option" where
  "strlen_eow [] = None"
| "strlen_eow (c # s) = (if is_eow c then Some 0 else map_option Suc (strlen_eow s))"

text \<open>A match is the offset in \<open>s1\<close>.\<close>

fun strstr_from :: "bytes \<Rightarrow> bytes \<Rightarrow> nat \<Rightarrow> nat \<Rightarrow> nat option option" where
  "strstr_from [] s2 l2 i = None"
| "strstr_from (c # s1) s2 l2 i =
     (if is_eow c then Some None
      else (case load s2 0 of
              None \<Rightarrow> None
            | Some b \<Rightarrow>
                if ink_tolower c \<noteq> ink_tolower b then strstr_from s1 s2 l2 (Suc i)
                else (case strncasecmp_eow (c # s1) s2 l2 of
                        None \<Rightarrow> None
                      | Some True \<Rightarrow> Some (Some i)
                      | Some False \<Rightarrow> strstr_from s1 s2 l2 (Suc i))))"

definition strstr_eow :: "bytes \<Rightarrow> bytes \<Rightarrow> nat option option" where
  "strstr_eow s1 s2 = (case strlen_eow s2 of None \<Rightarrow> None | Some l2 \<Rightarrow> strstr_from s1 s2 l2 0)"

fun c_strlen :: "bytes \<Rightarrow> nat option" where
  "c_strlen [] = None"
| "c_strlen (c # s) = (if c = 0 then Some 0 else map_option Suc (c_strlen s))"

fun strcasestr_from :: "bytes \<Rightarrow> bytes \<Rightarrow> nat \<Rightarrow> nat \<Rightarrow> nat option option" where
  "strcasestr_from [] s2 l2 i = None"
| "strcasestr_from (c # s1) s2 l2 i =
     (if c = 0 then Some None
      else (case load s2 0 of
              None \<Rightarrow> None
            | Some b \<Rightarrow>
                if ink_tolower c \<noteq> ink_tolower b then strcasestr_from s1 s2 l2 (Suc i)
                else (case strncasecmp_eow (c # s1) s2 l2 of
                        None \<Rightarrow> None
                      | Some True \<Rightarrow> Some (Some i)
                      | Some False \<Rightarrow> strcasestr_from s1 s2 l2 (Suc i))))"

definition strcasestr :: "bytes \<Rightarrow> bytes \<Rightarrow> nat option option" where
  "strcasestr s1 s2 = (case c_strlen s2 of None \<Rightarrow> None | Some l2 \<Rightarrow> strcasestr_from s1 s2 l2 0)"

fun pr_memchr :: "bytes \<Rightarrow> u8 \<Rightarrow> nat \<Rightarrow> nat \<Rightarrow> nat option option" where
  "pr_memchr s c 0 i = Some None"
| "pr_memchr [] c (Suc n) i = None"
| "pr_memchr (x # s) c (Suc n) i = (if x = c then Some (Some i) else pr_memchr s c n (Suc i))"

fun pr_strchr :: "bytes \<Rightarrow> u8 \<Rightarrow> nat \<Rightarrow> nat option option" where
  "pr_strchr [] c i = None"
| "pr_strchr (x # s) c i = (if x = 0 then Some None else if x = c then Some (Some i) else pr_strchr s c (Suc i))"

section \<open>Scanning and lower-casing by words\<close>

text \<open>
  Memory is a list of bytes whose index is the address, so that the alignment of a pointer is its
  index modulo 4. The result of a scan is the address that is returned, \<open>Some None\<close> for NULL.
\<close>

fun scan_run :: "bytes \<Rightarrow> nat \<Rightarrow> nat \<Rightarrow> u32 \<Rightarrow> nat option option" where
  "scan_run mem p 0 bm = Some None"
| "scan_run mem p (Suc n) bm =
     (case load mem p of
        None \<Rightarrow> None
      | Some c \<Rightarrow> if is_type c bm = 0 then Some (Some p) else scan_run mem (Suc p) n bm)"

text \<open>The cases 1, 2, 3 of the first switch, which fall through.\<close>

fun scan_front :: "bytes \<Rightarrow> nat \<Rightarrow> nat \<Rightarrow> nat list \<Rightarrow> u32 \<Rightarrow> nat option option" where
  "scan_front mem al ptr [] bm = Some None"
| "scan_front mem al ptr (k # ks) bm =
     (case load mem (al + k) of
        None \<Rightarrow> None
      | Some c \<Rightarrow> if is_type c bm = 0 then Some (Some (ptr + k)) else scan_front mem al ptr ks bm)"

fun scan_words :: "bytes \<Rightarrow> nat \<Rightarrow> nat \<Rightarrow> u32 \<Rightarrow> nat option option" where
  "scan_words mem p 0 bm = Some None"
| "scan_words mem p (Suc n) bm =
     (case (load mem p, load mem (p + 1), load mem (p + 2), load mem (p + 3)) of
        (Some a, Some b, Some c, Some d) \<Rightarrow>
          (if is_type a bm AND is_type b bm AND is_type c bm AND is_type d bm = 0
           then Some (Some (if is_type a bm = 0 then p else if is_type b bm = 0 then p + 1
                            else if is_type c bm = 0 then p + 2 else p + 3))
           else scan_words mem (p + 4) n bm)
      | _ \<Rightarrow> None)"

definition scan_while :: "bytes \<Rightarrow> nat \<Rightarrow> nat \<Rightarrow> u32 \<Rightarrow> nat option option" where
  "scan_while mem ptr n bm =
     (let off = ptr mod 4;
          al = ptr - off;
          f = (if off \<noteq> 0 then 4 - off else 0);
          words = ((n + 2 ^ 64 - f) mod 2 ^ 64) div 4;
          wptr = al + (if off \<noteq> 0 then 4 else 0)
      in if words = 0 then scan_run mem ptr n bm
         else (case scan_front mem al ptr (if off = 0 then [] else [off..<4]) bm of
                 None \<Rightarrow> None
               | Some (Some q) \<Rightarrow> Some (Some q)
               | Some None \<Rightarrow>
                   (case scan_words mem wptr words bm of
                      None \<Rightarrow> None
                    | Some (Some q) \<Rightarrow> Some (Some q)
                    | Some None \<Rightarrow> scan_run mem (wptr + 4 * words) (n - (4 * words + f)) bm)))"

fun lower_run :: "bytes \<Rightarrow> nat \<Rightarrow> nat \<Rightarrow> bytes option" where
  "lower_run mem p 0 = Some mem"
| "lower_run mem p (Suc n) =
     (case load mem p of None \<Rightarrow> None | Some c \<Rightarrow> lower_run (mem[p := ink_tolower c]) (Suc p) n)"

definition ink_tolower_buffer :: "bytes \<Rightarrow> nat \<Rightarrow> nat \<Rightarrow> bytes option" where
  "ink_tolower_buffer mem ptr n =
     (if n < 8 then lower_run mem ptr n
      else
        (let fpad = 4 - ptr mod 4;
             words = (n - fpad) div 4;
             bpad = n - fpad - 4 * words;
             front = (if fpad = 4 then 0 else fpad)
         in (case lower_run mem ptr front of
               None \<Rightarrow> None
             | Some m1 \<Rightarrow>
                 (case lower_run m1 (ptr + front) (4 * words) of
                    None \<Rightarrow> None
                  | Some m2 \<Rightarrow> lower_run m2 (ptr + front + 4 * words) bpad))))"

section \<open>Numbers\<close>

definition ink_get_hex :: "u8 \<Rightarrow> int" where
  "ink_get_hex c =
     (if is_digit c then uint c - 48 else sint (ink_tolower c) - 97 + 10)"

fun skip_ws :: "bytes \<Rightarrow> bytes option" where
  "skip_ws [] = None"
| "skip_ws (c # s) = (if c \<noteq> 0 \<and> is_wslfcr c then skip_ws s else Some (c # s))"

fun hex_loop :: "64 word \<Rightarrow> bytes \<Rightarrow> (64 word) option" where
  "hex_loop num [] = None"
| "hex_loop num (c # s) =
     (if c \<noteq> 0 \<and> is_hex c then hex_loop (push_bit 4 num + word_of_int (ink_get_hex c)) s else Some num)"

text \<open>The digits are subtracted; the result is negated afterwards.\<close>

fun neg_loop :: "s64 \<Rightarrow> bytes \<Rightarrow> (s64 \<times> bytes) option" where
  "neg_loop num [] = None"
| "neg_loop num (c # s) =
     (if c \<noteq> 0 \<and> is_digit c then neg_loop (num * 10 - word_of_int (uint c - 48)) s else Some (num, c # s))"

fun pos_loop :: "u64 \<Rightarrow> bytes \<Rightarrow> (u64 \<times> bytes) option" where
  "pos_loop num [] = None"
| "pos_loop num (c # s) =
     (if c \<noteq> 0 \<and> is_digit c then pos_loop (num * 10 + word_of_int (uint c - 48)) s else Some (num, c # s))"

definition si_multiplier :: "u8 \<Rightarrow> 64 word" where
  "si_multiplier c =
     (if c = of_char (CHR ''K'') then push_bit 10 1 else if c = of_char (CHR ''M'') then push_bit 20 1
      else if c = of_char (CHR ''G'') then push_bit 30 1 else if c = of_char (CHR ''T'') then push_bit 40 1 else 1)"

definition is_0x :: "bytes \<Rightarrow> bool option" where
  "is_0x s = (case load s 0 of
       None \<Rightarrow> None
     | Some a \<Rightarrow> if a \<noteq> of_char (CHR ''0'') then Some False else map_option (\<lambda>b. b = of_char (CHR ''x'')) (load s 1))"

definition ink_atoi64 :: "bytes \<Rightarrow> s64 option" where
  "ink_atoi64 str =
     (case skip_ws str of
        None \<Rightarrow> None
      | Some s \<Rightarrow>
          (case is_0x s of
             None \<Rightarrow> None
           | Some True \<Rightarrow> hex_loop 0 (drop 2 s)
           | Some False \<Rightarrow>
               (let negative = (hd s = of_char (CHR ''-'')); s1 = (if negative then tl s else s)
                in case neg_loop 0 s1 of
                     None \<Rightarrow> None
                   | Some (num, rest) \<Rightarrow>
                       (case load rest 0 of
                          None \<Rightarrow> None
                        | Some c \<Rightarrow>
                            (let num1 = num * si_multiplier c in Some (if \<not> negative then - num1 else num1))))))"

definition ink_atoui64 :: "bytes \<Rightarrow> u64 option" where
  "ink_atoui64 str =
     (case skip_ws str of
        None \<Rightarrow> None
      | Some s \<Rightarrow>
          (case is_0x s of
             None \<Rightarrow> None
           | Some True \<Rightarrow> hex_loop 0 (drop 2 s)
           | Some False \<Rightarrow>
               (case pos_loop 0 s of
                  None \<Rightarrow> None
                | Some (num, rest) \<Rightarrow> map_option (\<lambda>c. num * si_multiplier c) (load rest 0))))"

text \<open>The parser with a length.\<close>

fun skip_ws_len :: "bytes \<Rightarrow> int \<Rightarrow> (bytes \<times> int) option" where
  "skip_ws_len s len =
     (if len \<le> 0 then Some (s, len)
      else (case s of
              [] \<Rightarrow> None
            | c # s' \<Rightarrow> if c \<noteq> 0 \<and> is_wslfcr c then skip_ws_len s' (len - 1) else Some (s, len)))"

fun hex_loop_len :: "64 word \<Rightarrow> bytes \<Rightarrow> int \<Rightarrow> (64 word) option" where
  "hex_loop_len num s len =
     (if len \<le> 0 then Some num
      else (case s of
              [] \<Rightarrow> None
            | c # s' \<Rightarrow>
                if c \<noteq> 0 \<and> is_hex c then hex_loop_len (push_bit 4 num + word_of_int (ink_get_hex c)) s' (len - 1)
                else Some num))"

fun neg_loop_len :: "s64 \<Rightarrow> bytes \<Rightarrow> int \<Rightarrow> (s64 \<times> bytes \<times> int) option" where
  "neg_loop_len num s len =
     (if len \<le> 0 then Some (num, s, len)
      else (case s of
              [] \<Rightarrow> None
            | c # s' \<Rightarrow>
                if c \<noteq> 0 \<and> is_digit c then neg_loop_len (num * 10 - word_of_int (uint c - 48)) s' (len - 1)
                else Some (num, s, len)))"

definition ink_atoi64_len :: "bytes \<Rightarrow> int \<Rightarrow> s64 option" where
  "ink_atoi64_len str len =
     (case skip_ws_len str len of
        None \<Rightarrow> None
      | Some (s, len1) \<Rightarrow>
          if len1 \<le> 1 then Some 0
          else
            (case is_0x s of
               None \<Rightarrow> None
             | Some True \<Rightarrow> hex_loop_len 0 (drop 2 s) len1
             | Some False \<Rightarrow>
                 (let negative = (hd s = of_char (CHR ''-'')); s1 = (if negative then tl s else s)
                  in case neg_loop_len 0 s1 len1 of
                       None \<Rightarrow> None
                     | Some (num, rest, len2) \<Rightarrow>
                         (case (if len2 > 0 then load rest 0 else Some 0) of
                            None \<Rightarrow> None
                          | Some c \<Rightarrow>
                              (let num1 = num * (if c = of_char (CHR ''T'') then 1 else si_multiplier c)
                               in Some (if \<not> negative then - num1 else num1))))))"

definition INT_MAX :: int where "INT_MAX = 2 ^ 31 - 1"
definition INT_MIN :: int where "INT_MIN = - (2 ^ 31)"

definition clamp_int :: "s64 \<Rightarrow> int" where
  "clamp_int v = (if sint v > INT_MAX then INT_MAX else if sint v < INT_MIN then INT_MIN else sint v)"

definition ink_atoi :: "bytes \<Rightarrow> int option" where
  "ink_atoi str = map_option clamp_int (ink_atoi64 str)"

definition ink_atoi_len :: "bytes \<Rightarrow> int \<Rightarrow> int option" where
  "ink_atoi_len str len = map_option clamp_int (ink_atoi64_len str len)"

definition ink_atoui :: "bytes \<Rightarrow> int option" where
  "ink_atoui str = map_option (\<lambda>v. if uint v > INT_MAX then INT_MAX else uint v) (ink_atoui64 str)"

end
