(* ===== verification/ParseRulesSpec.thy ===== *)
theory ParseRulesSpec
  imports ParseRules
begin

text \<open>
  The generated table answers every class as its definition does; the number parsers read back
  what was printed, except that the one with a length reads no single digit and loses count of a
  sign; the lower-casing of a buffer leaves out its last four bytes when it is aligned.
\<close>

declare skip_ws_len.simps [simp del] hex_loop_len.simps [simp del] neg_loop_len.simps [simp del]

section \<open>The table is the classes\<close>

lemma bit_no_inverse: "all_cls ! bit_no k = k"
  by (cases k) (simp_all add: all_cls_def)

lemma bit_no_eq: "bit_no k = bit_no j \<longleftrightarrow> k = j"
  by (metis bit_no_inverse)

lemma bit_no_less: "bit_no k < 32"
  by (cases k) simp_all

lemma in_all_cls: "k \<in> set all_cls"
  by (cases k) (simp_all add: all_cls_def)

lemma bit_cls_bit: "bit (cls_bit k) n \<longleftrightarrow> n = bit_no k"
  using bit_no_less [of k] by (auto simp: cls_bit_def bit_exp_iff possible_bit_word)

lemma bit_fold_classes:
  "bit (fold (\<lambda>k t. if P k then t OR cls_bit k else t) ks t) n \<longleftrightarrow> bit t n \<or> (\<exists>k \<in> set ks. P k \<and> n = bit_no k)"
  by (induction ks arbitrary: t) (auto simp: bit_or_iff bit_cls_bit)

lemma bit_ctype_entry: "bit (ctype_entry c) (bit_no k) \<longleftrightarrow> is_cls0 k c"
  by (auto simp: ctype_entry_def bit_fold_classes bit_no_eq in_all_cls)

lemma and_cls_bit: "w AND cls_bit k \<noteq> 0 \<longleftrightarrow> bit w (bit_no k)"
proof -
  have "w AND cls_bit k \<noteq> 0 \<longleftrightarrow> (\<exists>n. bit (w AND cls_bit k) n)" by (metis bit_0_eq bot_apply bit_eq_iff bot_bool_def)
  then show ?thesis by (simp add: bit_and_iff bit_cls_bit)
qed

lemma u8_less: "unat (c :: u8) < 256"
proof -
  have "unat c < 2 ^ LENGTH(8)" by (rule unsigned_less)
  then show ?thesis by simp
qed

lemma ctype_nth: "parseRulesCType ! unat c = ctype_entry c"
proof -
  show ?thesis using u8_less [of c] by (simp add: parseRulesCType_def)
qed

lemma is_cls_iff: "is_cls k c \<longleftrightarrow> is_cls0 k c"
  by (simp add: is_cls_def ctype_nth and_cls_bit bit_ctype_entry)

lemma ink_tolower_iff: "ink_tolower c = ink_tolower0 c"
proof -
  show ?thesis using u8_less [of c] by (simp add: ink_tolower_def parseRulesCTypeToLower_def)
qed

lemma ink_toupper_iff: "ink_toupper c = ink_toupper0 c"
proof -
  show ?thesis using u8_less [of c] by (simp add: ink_toupper_def parseRulesCTypeToUpper_def)
qed

section \<open>Decimal numbers\<close>

definition digit_char :: "nat \<Rightarrow> u8" where
  "digit_char d = of_nat (48 + d)"

fun decimal :: "nat \<Rightarrow> bytes" where
  "decimal n = (if n < 10 then [digit_char n] else decimal (n div 10) @ [digit_char (n mod 10)])"

declare decimal.simps [simp del]

lemma unat_digit_char: "d < 10 \<Longrightarrow> unat (digit_char d) = 48 + d"
  unfolding digit_char_def by (subst unsigned_of_nat) (simp add: take_bit_nat_eq_self)

lemma digit_char_props:
  assumes "d < 10"
  shows "is_digit (digit_char d)" "digit_char d \<noteq> 0" "\<not> is_wslfcr (digit_char d)" "uint (digit_char d) - 48 = int d"
proof -
  have u: "unat (digit_char d) = 48 + d" by (rule unat_digit_char [OF assms])
  show "is_digit (digit_char d)"
    using assms u by (simp add: is_cls_iff is_digit0_def word_le_nat_alt)
  show nz: "digit_char d \<noteq> 0" using u by (metis add_is_0 unat_0 zero_neq_numeral)
  show "uint (digit_char d) - 48 = int d" using u by (simp add: uint_nat)
  have "digit_char d \<noteq> k" if "unat k < 48" for k using that u by (metis add.commute less_add_same_cancel2 linorder_not_less trans_less_add2 zero_le)
  then show "\<not> is_wslfcr (digit_char d)"
    by (simp add: is_cls_iff is_wslfcr0_def is_ws0_def is_splf0_def is_spcr0_def CHAR_SP_def CHAR_HT_def CHAR_LF_def CHAR_CR_def)
qed

lemma neg_loop_append:
  assumes "\<forall>c \<in> set ds. c \<noteq> 0 \<and> is_digit c"
  shows "neg_loop num (ds @ s) = neg_loop (fold (\<lambda>c n. n * 10 - word_of_int (uint c - 48)) ds num) s"
  using assms by (induction ds arbitrary: num) auto

lemma decimal_digits: "\<forall>c \<in> set (decimal n). \<exists>d < 10. c = digit_char d"
proof (induction n rule: decimal.induct)
  case (1 n)
  show ?case
  proof (cases "n < 10")
    case True
    then show ?thesis by (subst decimal.simps) auto
  next
    case False
    have "\<exists>d < 10. digit_char (n mod 10) = digit_char d" by (rule exI [of _ "n mod 10"]) simp
    then show ?thesis using 1 [OF False] False by (subst decimal.simps) auto
  qed
qed

lemma digit_word: "d < 10 \<Longrightarrow> (word_of_int (uint (digit_char d) - 48) :: s64) = word_of_int (int d)"
  by (simp only: digit_char_props(4))

lemma fold_decimal:
  "fold (\<lambda>c n. n * 10 - word_of_int (uint c - 48)) (decimal k) 0 = (- word_of_int (int k) :: s64)"
proof (induction k rule: decimal.induct)
  case (1 k)
  show ?case
  proof (cases "k < 10")
    case True
    then have "decimal k = [digit_char k]" by (subst decimal.simps) simp
    then show ?thesis by (simp only: fold_simps comp_def id_apply digit_word [OF True] mult_zero_left diff_0)
  next
    case False
    have d: "(word_of_int (uint (digit_char (k mod 10)) - 48) :: s64) = word_of_int (int (k mod 10))"
      by (rule digit_word) simp
    have "int k = int (k div 10) * 10 + int (k mod 10)" by (simp add: of_nat_div of_nat_mod)
    then have e: "(word_of_int (int k) :: s64) = word_of_int (int (k div 10)) * 10 + word_of_int (int (k mod 10))"
      by (metis wi_hom_add wi_hom_mult word_of_int_numeral)
    have dk: "decimal k = decimal (k div 10) @ [digit_char (k mod 10)]" using False by (subst decimal.simps) simp
    have "fold (\<lambda>c n. n * 10 - word_of_int (uint c - 48)) (decimal k) 0 =
        (- word_of_int (int (k div 10)) * 10 - word_of_int (int (k mod 10)) :: s64)"
      by (simp only: dk fold_append comp_def fold_simps 1 [OF False] d)
    moreover have "(- word_of_int (int (k div 10)) * 10 - word_of_int (int (k mod 10)) :: s64) = - word_of_int (int k)"
      unfolding e by simp
    ultimately show ?thesis by (rule trans)
  qed
qed

text \<open>Reading back what was printed, behind white space, with or without a sign.\<close>

definition printed :: "bool \<Rightarrow> nat \<Rightarrow> bytes" where
  "printed neg k = (if neg then of_char (CHR ''-'') # decimal k else decimal k)"

lemma skip_ws_append: "\<forall>c \<in> set ws. c \<noteq> 0 \<and> is_wslfcr c \<Longrightarrow> \<not> is_wslfcr x \<Longrightarrow> skip_ws (ws @ x # s) = Some (x # s)"
  by (induction ws) auto

lemma decimal_nonempty: "decimal k \<noteq> []"
  by (cases k rule: decimal.cases) (subst decimal.simps, simp)

lemma is_0x_decimal: "is_0x (decimal k @ 0 # rest) = Some False"
proof -
  obtain c cs where c: "decimal k = c # cs" using decimal_nonempty [of k] by (cases "decimal k") auto
  have "hd (cs @ 0 # rest) \<noteq> of_char (CHR ''x'')"
  proof (cases cs)
    case (Cons e es)
    then obtain d where "d < 10" "e = digit_char d" using decimal_digits [of k] c by auto
    then have "unat e < 100" using unat_digit_char by simp
    then show ?thesis using Cons by auto
  qed simp
  then show ?thesis using c by (cases cs) (auto simp: is_0x_def load_def)
qed

lemma decimal_hd: "\<exists>d < 10. hd (decimal k) = digit_char d"
  using decimal_digits [of k] decimal_nonempty [of k] by (metis list.set_sel(1))

lemma digit_not_minus: "d < 10 \<Longrightarrow> digit_char d \<noteq> of_char (CHR ''-'')"
proof
  assume "d < 10" "digit_char d = of_char (CHR ''-'')"
  then have "48 + d = unat (of_char (CHR ''-'') :: u8)" using unat_digit_char by metis
  then show False by simp
qed

lemma ink_atoi64_printed:
  assumes "\<forall>c \<in> set ws. c \<noteq> 0 \<and> is_wslfcr c"
  shows "ink_atoi64 (ws @ printed neg k @ 0 # rest) = Some (word_of_int (if neg then - int k else int k))"
proof -
  obtain d cs where d: "d < 10" "decimal k = digit_char d # cs"
    using decimal_hd [of k] decimal_nonempty [of k] by (metis list.collapse)
  have ds: "\<forall>c \<in> set (decimal k). c \<noteq> 0 \<and> is_digit c"
  proof
    fix c assume "c \<in> set (decimal k)"
    then obtain e where "e < 10" "c = digit_char e" using decimal_digits [of k] by auto
    then show "c \<noteq> 0 \<and> is_digit c" using digit_char_props(1,2) by simp
  qed
  have nd: "\<not> is_digit 0" by (simp add: is_cls_iff is_digit0_def)
  have loop: "neg_loop 0 (decimal k @ 0 # rest) = Some (- word_of_int (int k), 0 # rest)"
    unfolding neg_loop_append [OF ds] fold_decimal using nd by simp
  have si: "si_multiplier 0 = 1" by (simp add: si_multiplier_def)
  have minus: "\<not> is_wslfcr (of_char (CHR ''-''))"
    by (simp add: is_cls_iff is_wslfcr0_def is_ws0_def is_splf0_def is_spcr0_def CHAR_SP_def CHAR_HT_def CHAR_LF_def CHAR_CR_def)
  show ?thesis
  proof (cases neg)
    case True
    have "skip_ws (ws @ of_char (CHR ''-'') # decimal k @ 0 # rest) = Some (of_char (CHR ''-'') # decimal k @ 0 # rest)"
      by (rule skip_ws_append [OF assms minus])
    moreover have "is_0x (of_char (CHR ''-'') # decimal k @ 0 # rest) = Some False" by (simp add: is_0x_def load_def)
    ultimately show ?thesis using True loop si by (simp add: ink_atoi64_def printed_def load_def)
  next
    case False
    have "skip_ws (ws @ decimal k @ 0 # rest) = Some (decimal k @ 0 # rest)"
      using skip_ws_append [OF assms digit_char_props(3) [OF d(1)]] d(2) by simp
    moreover have "hd (decimal k @ 0 # rest) \<noteq> of_char (CHR ''-'')" using d digit_not_minus by simp
    ultimately show ?thesis using False loop si is_0x_decimal [of k rest]
      by (simp add: ink_atoi64_def printed_def load_def)
  qed
qed

text \<open>The parser with a length.\<close>

lemma neg_loop_len_append:
  assumes "\<forall>c \<in> set ds. c \<noteq> 0 \<and> is_digit c"
  shows "neg_loop_len num (ds @ s) (int (length ds) + n) =
    neg_loop_len (fold (\<lambda>c n. n * 10 - word_of_int (uint c - 48)) ds num) s n \<or> n < 0"
proof (cases "n < 0")
  case False
  from assms have "neg_loop_len num (ds @ s) (int (length ds) + n) =
    neg_loop_len (fold (\<lambda>c n. n * 10 - word_of_int (uint c - 48)) ds num) s n"
  proof (induction ds arbitrary: num)
    case (Cons d ds)
    have "int (length (d # ds)) + n - 1 = int (length ds) + n" by simp
    then show ?case using Cons False by (subst neg_loop_len.simps) simp
  qed simp
  then show ?thesis by simp
qed simp

lemma decimal_all_digits: "\<forall>c \<in> set (decimal k). c \<noteq> 0 \<and> is_digit c"
proof
  fix c assume "c \<in> set (decimal k)"
  then obtain e where "e < 10" "c = digit_char e" using decimal_digits [of k] by auto
  then show "c \<noteq> 0 \<and> is_digit c" using digit_char_props(1,2) by simp
qed

lemma decimal_length: "length (decimal k) = 1 \<longleftrightarrow> k < 10"
proof (cases "k < 10")
  case True
  then show ?thesis by (subst decimal.simps) simp
next
  case False
  then show ?thesis using decimal_nonempty [of "k div 10"] by (subst decimal.simps) simp
qed

lemma is_0x_decimal_ext: "10 \<le> k \<Longrightarrow> is_0x (decimal k @ rest) = Some False"
proof -
  assume "10 \<le> k"
  then have "length (decimal k) \<noteq> 1" using decimal_length by simp
  then obtain c e es where c: "decimal k = c # e # es" using decimal_nonempty [of k]
    by (metis One_nat_def length_0_conv length_Cons list.exhaust)
  then obtain d where "d < 10" "e = digit_char d" using decimal_digits [of k] by auto
  then have "unat e < 100" using unat_digit_char by simp
  then have "e \<noteq> of_char (CHR ''x'')" by auto
  then show ?thesis using c by (simp add: is_0x_def load_def)
qed

lemma skip_ws_len_stop: "\<not> is_wslfcr c \<Longrightarrow> skip_ws_len (c # s) len = Some (c # s, len)"
  by (subst skip_ws_len.simps) simp

lemma skip_ws_len_decimal: "skip_ws_len (decimal k @ rest) len = Some (decimal k @ rest, len)"
proof -
  obtain d where d: "d < 10" "decimal k = digit_char d # tl (decimal k)"
    using decimal_hd [of k] decimal_nonempty [of k] by (metis list.collapse)
  then show ?thesis using skip_ws_len_stop [OF digit_char_props(3) [OF d(1)]] by (metis append_Cons)
qed

lemma ink_atoi64_len_number: "ink_atoi64_len (decimal k @ rest) (int (length (decimal k))) =
    Some (if k < 10 then 0 else word_of_int (int k))"
proof (cases "k < 10")
  case True
  then have "length (decimal k) = 1" using decimal_length by simp
  then show ?thesis using True skip_ws_len_decimal [of k rest] by (simp add: ink_atoi64_len_def)
next
  case False
  have len: "\<not> int (length (decimal k)) \<le> 1" using False decimal_length [of k] decimal_nonempty [of k]
    by (cases "decimal k") auto
  have "hd (decimal k @ rest) \<noteq> of_char (CHR ''-'')"
    using decimal_hd [of k] decimal_nonempty [of k] digit_not_minus by auto
  moreover have "neg_loop_len 0 (decimal k @ rest) (int (length (decimal k))) = Some (- word_of_int (int k), rest, 0)"
    using neg_loop_len_append [OF decimal_all_digits, of 0 k rest 0] fold_decimal [of k]
    by (simp add: neg_loop_len.simps)
  ultimately show ?thesis
    using False len skip_ws_len_decimal [of k rest] is_0x_decimal_ext [of k rest]
    by (simp add: ink_atoi64_len_def Let_def si_multiplier_def)
qed

lemma ink_atoi64_len_minus: "ink_atoi64_len (of_char (CHR ''-'') # decimal k) (int (length (decimal k)) + 1) = None"
proof -
  have minus: "\<not> is_wslfcr (of_char (CHR ''-''))"
    by (simp add: is_cls_iff is_wslfcr0_def is_ws0_def is_splf0_def is_spcr0_def CHAR_SP_def CHAR_HT_def CHAR_LF_def CHAR_CR_def)
  have len: "\<not> int (length (decimal k)) + 1 \<le> 1" using decimal_nonempty [of k] by simp
  have "is_0x (of_char (CHR ''-'') # decimal k) = Some False" by (simp add: is_0x_def load_def)
  moreover have "neg_loop_len 0 (decimal k) (int (length (decimal k)) + 1) = None"
    using neg_loop_len_append [OF decimal_all_digits, of 0 k "[]" 1] by (simp add: neg_loop_len.simps)
  ultimately show ?thesis
    using len skip_ws_len_stop [OF minus, of "decimal k"] by (simp add: ink_atoi64_len_def Let_def)
qed

section \<open>Lower-casing a buffer\<close>

lemma lower_run_ok:
  "p + n \<le> length mem \<Longrightarrow> lower_run mem p n = Some (take p mem @ map ink_tolower (take n (drop p mem)) @ drop (p + n) mem)"
proof (induction n arbitrary: mem p)
  case (Suc n)
  have "p < length mem" using Suc.prems by simp
  moreover have "Suc p + n \<le> length (mem[p := ink_tolower (mem ! p)])" using Suc.prems by simp
  ultimately show ?case using Suc.IH [of "Suc p" "mem[p := ink_tolower (mem ! p)]"]
    by (simp add: load_Some take_Suc_conv_app_nth take_hd_drop [symmetric] nth_append_drop)
qed simp

lemma lower_run_run:
  assumes "p + n + k \<le> length mem"
  shows "(case lower_run mem p n of None \<Rightarrow> None | Some m1 \<Rightarrow> lower_run m1 (p + n) k) = lower_run mem p (n + k)"
  using assms
proof (induction n arbitrary: mem p)
  case (Suc n)
  let ?m = "mem[p := ink_tolower (mem ! p)]"
  have p: "p < length mem" using Suc.prems by simp
  have "Suc p + n + k \<le> length ?m" using Suc.prems by simp
  from Suc.IH [OF this] have "(case lower_run ?m (Suc p) n of None \<Rightarrow> None | Some m1 \<Rightarrow> lower_run m1 (p + Suc n) k) =
    lower_run ?m (Suc p) (n + k)" unfolding add_Suc_shift .
  then show ?case using p by (simp only: lower_run.simps add_Suc load_Some option.case)
qed simp

text \<open>What is converted: everything, but of an aligned buffer of eight bytes or more only the first \<open>n - 4\<close>.\<close>

lemma ink_tolower_buffer_ok:
  assumes "ptr + n \<le> length mem"
  shows "ink_tolower_buffer mem ptr n = lower_run mem ptr (if 8 \<le> n \<and> ptr mod 4 = 0 then n - 4 else n)"
proof (cases "n < 8")
  case False
  define fpad where "fpad = 4 - ptr mod 4"
  define words where "words = (n - fpad) div 4"
  define bpad where "bpad = n - fpad - 4 * words"
  define front where "front = (if fpad = 4 then 0 else fpad)"
  have f: "0 < fpad" "fpad \<le> 4" "fpad = 4 \<longleftrightarrow> ptr mod 4 = 0" by (auto simp: fpad_def)
  have tot: "4 * words + bpad = n - fpad" unfolding bpad_def words_def by simp
  have le: "ptr + front + 4 * words + bpad \<le> length mem" using assms tot f False by (auto simp: front_def)
  have "ink_tolower_buffer mem ptr n =
    (case lower_run mem ptr front of None \<Rightarrow> None | Some m1 \<Rightarrow>
       (case lower_run m1 (ptr + front) (4 * words) of None \<Rightarrow> None | Some m2 \<Rightarrow> lower_run m2 (ptr + front + 4 * words) bpad))"
    using False by (simp only: ink_tolower_buffer_def Let_def fpad_def words_def bpad_def front_def if_False)
  also have "\<dots> = (case lower_run mem ptr front of None \<Rightarrow> None | Some m1 \<Rightarrow> lower_run m1 (ptr + front) (4 * words + bpad))"
    using lower_run_ok [of ptr front mem] le by (simp add: lower_run_run)
  also have "\<dots> = lower_run mem ptr (front + (4 * words + bpad))" using le by (intro lower_run_run) simp
  also have "front + (4 * words + bpad) = (if 8 \<le> n \<and> ptr mod 4 = 0 then n - 4 else n)"
    using tot f False by (auto simp: front_def)
  finally show ?thesis .
qed (simp add: ink_tolower_buffer_def)

section \<open>Scanning\<close>

text \<open>From an unaligned pointer the address of the first byte outside the class is reported too high.\<close>

lemma scan_while_unaligned:
  assumes "ptr mod 4 \<noteq> 0" "8 \<le> n" "n < 2 ^ 32" "ptr < length mem" "is_type (mem ! ptr) bm = 0"
  shows "scan_while mem ptr n bm = Some (Some (ptr + ptr mod 4))"
proof -
  let ?off = "ptr mod 4"
  have al: "ptr - ?off + ?off = ptr" by simp
  have o: "0 < ?off" "?off < 4" using assms(1) by auto
  have up: "[?off..<4] = ?off # [Suc ?off..<4]" using o by (simp add: upt_conv_Cons)
  have w: "((n + 2 ^ 64 - (4 - ?off)) mod 2 ^ 64) div 4 \<noteq> 0"
  proof -
    have "(n + 2 ^ 64 - (4 - ?off)) mod 2 ^ 64 = n - (4 - ?off)"
    proof -
      have "n + 2 ^ 64 - (4 - ?off) = (n - (4 - ?off)) + 2 ^ 64" using assms(2) by simp
      moreover have "n - (4 - ?off) < 2 ^ 64" using assms(3) by simp
      ultimately show ?thesis by (simp only: mod_add_self2 mod_less)
    qed
    moreover have "4 \<le> n - (4 - ?off)" using assms(2) o by simp
    ultimately show ?thesis by simp
  qed
  have "scan_front mem (ptr - ?off) ptr [?off..<4] bm = Some (Some (ptr + ?off))"
    unfolding up using assms(4,5) by (simp add: load_Some)
  then show ?thesis using w assms(1) unfolding scan_while_def Let_def by simp
qed

text \<open>A comparison does not stop at two equal terminators.\<close>

lemma strncasecmp_eow_goes_on:
  "strncasecmp_eow (chars ''a'' @ [0] @ chars ''b'') (chars ''a'' @ [0] @ chars ''c'') 3 = Some False"
  "strncasecmp_eow (chars ''a'' @ [0]) (chars ''a'' @ [0]) 3 = None"
  by (simp_all add: chars_def numeral_3_eq_3 ink_tolower_iff ink_tolower0_def is_upalpha0_def is_cls_iff is_eow0_def
      CHAR_CR_def CHAR_LF_def)

lemma sint_in_range: "i \<in> {- (2 ^ 63)..<2 ^ 63} \<Longrightarrow> sint (word_of_int i :: s64) = i"
  by (simp add: sint_sbintrunc' signed_take_bit_int_eq_self)

section \<open>Properties\<close>

text \<open>
  C17. Asking the generated table for any of the 32 classes, and for the case of a letter, gives
  for all 256 characters what the definition says from which the table was made.
\<close>

theorem parse_table_correct:
  "is_cls k c = is_cls0 k c \<and> ink_tolower c = ink_tolower0 c \<and> ink_toupper c = ink_toupper0 c"
  by (simp add: is_cls_iff ink_tolower_iff ink_toupper_iff)

text \<open>
  \<open>ink_atoi64\<close> reads a printed decimal number back, behind any white space and with or without
  a minus sign, and modulo \<open>2^64\<close> whatever its size: from the smallest to the largest 64-bit
  integer the result is the number.
\<close>

lemma ink_atoi64_roundtrip:
  assumes "\<forall>c \<in> set ws. c \<noteq> 0 \<and> is_wslfcr c" "(if neg then - int k else int k) \<in> {- (2 ^ 63)..<2 ^ 63}"
  shows "map_option sint (ink_atoi64 (ws @ printed neg k @ 0 # rest)) = Some (if neg then - int k else int k)"
  unfolding ink_atoi64_printed [OF assms(1)] option.map by (simp only: sint_in_range [OF assms(2)])

theorem ink_atoi64_roundtrip_witness:
  "map_option sint (ink_atoi64 (chars '' -42'' @ [0])) = Some (- 42)"
proof -
  have "printed True 42 = chars ''-42''"
    by (simp add: printed_def chars_def decimal.simps digit_char_def)
  moreover have "\<forall>c \<in> set [32 :: u8]. c \<noteq> 0 \<and> is_wslfcr c"
    by (simp add: is_cls_iff is_wslfcr0_def is_ws0_def CHAR_SP_def)
  note ink_atoi64_roundtrip [OF this, of True 42 "[]"]
  ultimately show ?thesis by (simp add: chars_def)
qed

text \<open>
  The parser with a length returns the number that fills the length, but 0 for a single digit;
  and of a negative number that ends with its buffer it reads one byte past the length.
\<close>

theorem ink_atoi64_len_short:
  "ink_atoi64_len (decimal k @ rest) (int (length (decimal k))) = Some (if k < 10 then 0 else word_of_int (int k)) \<and>
   ink_atoi64_len (of_char (CHR ''-'') # decimal k) (int (length (of_char (CHR ''-'') # decimal k))) = None"
  using ink_atoi64_len_number [of k rest] ink_atoi64_len_minus [of k] by (simp add: add.commute)

text \<open>
  \<open>ink_tolower_buffer\<close> lower-cases an unaligned buffer, and any buffer of less than eight bytes,
  as a whole; of an aligned buffer of eight bytes or more it leaves the last four as they are.
\<close>

theorem ink_tolower_buffer_tail:
  assumes "ptr + n \<le> length mem" "m = (if 8 \<le> n \<and> ptr mod 4 = 0 then n - 4 else n)"
  shows "ink_tolower_buffer mem ptr n =
    Some (take ptr mem @ map ink_tolower0 (take m (drop ptr mem)) @ drop (ptr + m) mem)"
proof -
  have "ptr + m \<le> length mem" using assms by auto
  moreover have "ink_tolower = ink_tolower0" using ink_tolower_iff by blast
  ultimately show ?thesis using ink_tolower_buffer_ok [OF assms(1)] lower_run_ok [of ptr m mem] assms(2) by simp
qed

theorem ink_tolower_buffer_tail_witness:
  "ink_tolower_buffer (chars ''ABCDEFGH'') 0 8 = Some (chars ''abcdEFGH'')"
proof -
  have "ink_tolower_buffer (chars ''ABCDEFGH'') 0 8 =
    Some (take 0 (chars ''ABCDEFGH'') @ map ink_tolower0 (take 4 (drop 0 (chars ''ABCDEFGH''))) @ drop (0 + 4) (chars ''ABCDEFGH''))"
    by (rule ink_tolower_buffer_tail) (simp_all add: chars_def)
  then show ?thesis by (simp add: chars_def ink_tolower0_def is_upalpha0_def)
qed

end
