(* ===== verification/IOBuffer.thy ===== *)
theory IOBuffer
  imports Prelude
begin

text \<open>
  The buffers of the event system (iocore/eventsystem/ioBuffer.h, P_IOBuffer.h, ioBuffer.cc): data
  areas shared by blocks, blocks linked into chains, one writer and up to five readers per
  \<open>MIOBuffer\<close>. Data areas and blocks are addresses in one heap (0 is NULL), so that several
  blocks may refer to the same bytes; an allocation takes the next unused address. A position in a
  data area is an offset from its start. A copy outside the area is the value \<open>None\<close>, a debug
  assertion is nothing, a release assertion is \<open>None\<close>.
\<close>

section \<open>The code\<close>

subsection \<open>Size indices\<close>

definition DEFAULT_BUFFER_SIZES :: int where
  "DEFAULT_BUFFER_SIZES = 15"

definition MAX_MIOBUFFER_READERS :: nat where
  "MAX_MIOBUFFER_READERS = 5"

definition INT64_MAX :: int where
  "INT64_MAX = 2 ^ 63 - 1"

definition BUFFER_SIZE_FOR_INDEX :: "int \<Rightarrow> int" where
  "BUFFER_SIZE_FOR_INDEX i = 128 * 2 ^ nat i"

definition BUFFER_SIZE_INDEX_IS_FAST_ALLOCATED :: "int \<Rightarrow> bool" where
  "BUFFER_SIZE_INDEX_IS_FAST_ALLOCATED i \<longleftrightarrow> 0 \<le> i \<and> i < DEFAULT_BUFFER_SIZES"

definition BUFFER_SIZE_INDEX_IS_XMALLOCED :: "int \<Rightarrow> bool" where
  "BUFFER_SIZE_INDEX_IS_XMALLOCED i \<longleftrightarrow> i < 0"

definition BUFFER_SIZE_INDEX_FOR_XMALLOC_SIZE :: "int \<Rightarrow> int" where
  "BUFFER_SIZE_INDEX_FOR_XMALLOC_SIZE sz = - sz"

definition BUFFER_SIZE_INDEX_FOR_CONSTANT_SIZE :: "int \<Rightarrow> int" where
  "BUFFER_SIZE_INDEX_FOR_CONSTANT_SIZE sz = sz + DEFAULT_BUFFER_SIZES"

function index_down :: "int \<Rightarrow> int \<Rightarrow> int" where
  "index_down sz r =
     (if 0 < r \<and> BUFFER_SIZE_FOR_INDEX (r - 1) \<ge> sz then index_down sz (r - 1) else r)"
  by pat_completeness auto
termination by (relation "measure (\<lambda>(s, r). nat r)") auto

definition buffer_size_to_index :: "int \<Rightarrow> int \<Rightarrow> int" where
  "buffer_size_to_index sz mx = index_down sz mx"

definition iobuffer_size_to_index :: "int \<Rightarrow> int \<Rightarrow> int" where
  "iobuffer_size_to_index sz mx =
     (if sz > BUFFER_SIZE_FOR_INDEX mx then BUFFER_SIZE_INDEX_FOR_XMALLOC_SIZE sz
      else buffer_size_to_index sz mx)"

definition index_to_buffer_size :: "int \<Rightarrow> int" where
  "index_to_buffer_size idx =
     (if BUFFER_SIZE_INDEX_IS_FAST_ALLOCATED idx then BUFFER_SIZE_FOR_INDEX idx
      else if BUFFER_SIZE_INDEX_IS_XMALLOCED idx then - idx
      else idx - DEFAULT_BUFFER_SIZES)"

subsection \<open>Blocks\<close>

record ioblock =
  bdata :: nat
  bstart :: nat
  bend :: nat
  bbend :: nat
  bnext :: nat

text \<open>\<open>dlen\<close> is the \<open>block_size\<close> that a data area records; its bytes are \<open>datas\<close>.\<close>

record ioheap =
  datas :: "nat \<Rightarrow> bytes"
  dlen :: "nat \<Rightarrow> nat"
  blks :: "nat \<Rightarrow> ioblock"
  dtop :: nat
  btop :: nat

definition heap_init :: ioheap where
  "heap_init = \<lparr>datas = (\<lambda>_. []), dlen = (\<lambda>_. 0), blks = (\<lambda>_. \<lparr>bdata = 0, bstart = 0, bend = 0, bbend = 0, bnext = 0\<rparr>),
     dtop = 1, btop = 1\<rparr>"

abbreviation upd_blk :: "nat \<Rightarrow> (ioblock \<Rightarrow> ioblock) \<Rightarrow> ioheap \<Rightarrow> ioheap" where
  "upd_blk b f h \<equiv> h\<lparr>blks := (blks h)(b := f (blks h b))\<rparr>"

abbreviation next_blk :: "ioheap \<Rightarrow> nat \<Rightarrow> nat" where
  "next_blk h b \<equiv> bnext (blks h b)"

definition read_avail :: "ioheap \<Rightarrow> nat \<Rightarrow> int" where
  "read_avail h b = int (bend (blks h b)) - int (bstart (blks h b))"

definition write_avail :: "ioheap \<Rightarrow> nat \<Rightarrow> int" where
  "write_avail h b = int (bbend (blks h b)) - int (bend (blks h b))"

definition new_data :: "nat \<Rightarrow> ioheap \<Rightarrow> ioheap \<times> nat" where
  "new_data n h = (h\<lparr>datas := (datas h)(dtop h := replicate n 0), dlen := (dlen h)(dtop h := n), dtop := Suc (dtop h)\<rparr>, dtop h)"

definition new_blk :: "ioheap \<Rightarrow> ioheap \<times> nat" where
  "new_blk h = (h\<lparr>blks := (blks h)(btop h := \<lparr>bdata = 0, bstart = 0, bend = 0, bbend = 0, bnext = 0\<rparr>), btop := Suc (btop h)\<rparr>, btop h)"

definition blk_consume :: "int \<Rightarrow> nat \<Rightarrow> ioheap \<Rightarrow> ioheap" where
  "blk_consume len b h = upd_blk b (\<lambda>x. x\<lparr>bstart := nat (int (bstart x) + len)\<rparr>) h"

definition blk_fill :: "int \<Rightarrow> nat \<Rightarrow> ioheap \<Rightarrow> ioheap" where
  "blk_fill len b h = upd_blk b (\<lambda>x. x\<lparr>bend := nat (int (bend x) + len)\<rparr>) h"

definition blk_reset :: "nat \<Rightarrow> ioheap \<Rightarrow> ioheap" where
  "blk_reset b h = upd_blk b (\<lambda>x. x\<lparr>bstart := 0, bend := 0, bbend := dlen h (bdata x)\<rparr>) h"

definition blk_alloc :: "int \<Rightarrow> nat \<Rightarrow> ioheap \<Rightarrow> ioheap" where
  "blk_alloc i b h =
     (case new_data (nat (index_to_buffer_size i)) h of (h1, d) \<Rightarrow>
        blk_reset b (upd_blk b (\<lambda>x. x\<lparr>bdata := d\<rparr>) h1))"

definition blk_clone :: "nat \<Rightarrow> ioheap \<Rightarrow> ioheap \<times> nat" where
  "blk_clone b h =
     (case new_blk h of (h1, c) \<Rightarrow>
        (upd_blk c (\<lambda>x. x\<lparr>bdata := bdata (blks h b), bstart := bstart (blks h b), bend := bend (blks h b),
                        bbend := bend (blks h b)\<rparr>) h1, c))"

definition blk_set :: "nat \<Rightarrow> int \<Rightarrow> int \<Rightarrow> nat \<Rightarrow> ioheap \<Rightarrow> ioheap" where
  "blk_set d len offset b h =
     (let s = nat offset
      in upd_blk b (\<lambda>x. x\<lparr>bdata := d, bstart := s, bend := nat (int s + len), bbend := s + dlen h d\<rparr>) h)"

text \<open>The memory \<open>b\<close> that is handed over is a new data area with these bytes.\<close>

definition blk_set_internal :: "bytes \<Rightarrow> int \<Rightarrow> int \<Rightarrow> nat \<Rightarrow> ioheap \<Rightarrow> ioheap" where
  "blk_set_internal mem len i b h =
     (let d = dtop h;
          h1 = h\<lparr>datas := (datas h)(d := mem), dlen := (dlen h)(d := nat (index_to_buffer_size i)), dtop := Suc d\<rparr>;
          h2 = blk_reset b (upd_blk b (\<lambda>x. x\<lparr>bdata := d\<rparr>) h1)
      in upd_blk b (\<lambda>x. x\<lparr>bend := nat (int (bstart x) + len)\<rparr>) h2)"

text \<open>\<open>memcpy\<close> into and out of a data area.\<close>

definition copy_in :: "nat \<Rightarrow> nat \<Rightarrow> bytes \<Rightarrow> ioheap \<Rightarrow> ioheap option" where
  "copy_in d pos xs h = map_option (\<lambda>m. h\<lparr>datas := (datas h)(d := m)\<rparr>) (store_all (datas h d) pos xs)"

definition copy_out :: "nat \<Rightarrow> int \<Rightarrow> int \<Rightarrow> ioheap \<Rightarrow> bytes option" where
  "copy_out d pos n h =
     (if 0 \<le> pos \<and> 0 \<le> n \<and> pos + n \<le> int (length (datas h d))
      then Some (take (nat n) (drop (nat pos) (datas h d))) else None)"

subsection \<open>Readers\<close>

record reader =
  rused :: bool
  rblock :: nat
  start_offset :: int
  size_limit :: int

definition reader_init :: reader where
  "reader_init = \<lparr>rused = False, rblock = 0, start_offset = 0, size_limit = INT64_MAX\<rparr>"

partial_function (option) skip_empty_blocks :: "ioheap \<Rightarrow> reader \<Rightarrow> reader option" where
  "skip_empty_blocks h r =
     (if next_blk h (rblock r) \<noteq> 0 \<and> read_avail h (next_blk h (rblock r)) \<noteq> 0 \<and>
         start_offset r \<ge> read_avail h (rblock r)
      then skip_empty_blocks h (r\<lparr>start_offset := start_offset r - read_avail h (rblock r),
                                   rblock := next_blk h (rblock r)\<rparr>)
      else Some r)"

text \<open>\<open>start\<close> as data area and position; NULL is \<open>(0, 0)\<close>.\<close>

definition reader_start :: "ioheap \<Rightarrow> reader \<Rightarrow> (reader \<times> nat \<times> int) option" where
  "reader_start h r =
     (if rblock r = 0 then Some (r, 0, 0)
      else map_option (\<lambda>r'. (r', bdata (blks h (rblock r')), int (bstart (blks h (rblock r'))) + start_offset r'))
             (skip_empty_blocks h r))"

definition reader_end :: "ioheap \<Rightarrow> reader \<Rightarrow> (reader \<times> nat \<times> int) option" where
  "reader_end h r =
     (if rblock r = 0 then Some (r, 0, 0)
      else map_option (\<lambda>r'. (r', bdata (blks h (rblock r')), int (bend (blks h (rblock r'))))) (skip_empty_blocks h r))"

definition block_read_avail :: "ioheap \<Rightarrow> reader \<Rightarrow> (reader \<times> int) option" where
  "block_read_avail h r =
     (if rblock r = 0 then Some (r, 0)
      else map_option (\<lambda>r'. (r', int (bend (blks h (rblock r'))) - (int (bstart (blks h (rblock r'))) + start_offset r')))
             (skip_empty_blocks h r))"

partial_function (option) count_from :: "ioheap \<Rightarrow> nat \<Rightarrow> nat \<Rightarrow> nat option" where
  "count_from h b c = (if b = 0 then Some c else count_from h (next_blk h b) (Suc c))"

definition block_count :: "ioheap \<Rightarrow> reader \<Rightarrow> nat option" where
  "block_count h r = count_from h (rblock r) 0"

partial_function (option) avail_from :: "ioheap \<Rightarrow> nat \<Rightarrow> int \<Rightarrow> int option" where
  "avail_from h b t = (if b = 0 then Some t else avail_from h (next_blk h b) (t + read_avail h b))"

definition reader_avail :: "ioheap \<Rightarrow> reader \<Rightarrow> int option" where
  "reader_avail h r =
     (case avail_from h (rblock r) 0 of
        None \<Rightarrow> None
      | Some a \<Rightarrow>
          (let t = a - start_offset r
           in Some (if size_limit r \<noteq> INT64_MAX \<and> t > size_limit r then size_limit r else t)))"

partial_function (option) more_than_from :: "ioheap \<Rightarrow> nat \<Rightarrow> int \<Rightarrow> int \<Rightarrow> bool option" where
  "more_than_from h b sz t =
     (if b = 0 then Some False
      else if t + read_avail h b > sz then Some True
      else more_than_from h (next_blk h b) sz (t + read_avail h b))"

definition is_read_avail_more_than :: "int \<Rightarrow> ioheap \<Rightarrow> reader \<Rightarrow> bool option" where
  "is_read_avail_more_than sz h r = more_than_from h (rblock r) sz (- start_offset r)"

partial_function (option) consume_loop :: "ioheap \<Rightarrow> reader \<Rightarrow> reader option" where
  "consume_loop h r =
     (if read_avail h (rblock r) \<le> start_offset r \<and> next_blk h (rblock r) \<noteq> 0 \<and>
         read_avail h (next_blk h (rblock r)) \<noteq> 0
      then consume_loop h (r\<lparr>start_offset := start_offset r - read_avail h (rblock r), rblock := next_blk h (rblock r)\<rparr>)
      else Some r)"

definition consume :: "int \<Rightarrow> ioheap \<Rightarrow> reader \<Rightarrow> reader option" where
  "consume n h r =
     (let r1 = r\<lparr>start_offset := start_offset r + n,
                 size_limit := (if size_limit r \<noteq> INT64_MAX then size_limit r - n else size_limit r)\<rparr>
      in if rblock r1 = 0 then Some r1 else consume_loop h r1)"

text \<open>\<open>operator[]\<close>; the error character out of range is a zero.\<close>

partial_function (option) char_at :: "ioheap \<Rightarrow> nat \<Rightarrow> int \<Rightarrow> u8 option" where
  "char_at h b i =
     (if b = 0 then Some 0
      else if read_avail h b > i
      then (if 0 \<le> int (bstart (blks h b)) + i then load (datas h (bdata (blks h b))) (nat (int (bstart (blks h b)) + i))
            else None)
      else char_at h (next_blk h b) (i - read_avail h b))"

definition reader_at :: "ioheap \<Rightarrow> reader \<Rightarrow> int \<Rightarrow> u8 option" where
  "reader_at h r i = char_at h (rblock r) (i + start_offset r)"

fun find_char :: "u8 \<Rightarrow> bytes \<Rightarrow> nat \<Rightarrow> nat option" where
  "find_char c [] i = None"
| "find_char c (x # xs) i = (if x = c then Some i else find_char c xs (Suc i))"

partial_function (option) memchr_loop :: "ioheap \<Rightarrow> u8 \<Rightarrow> int \<Rightarrow> nat \<Rightarrow> int \<Rightarrow> int \<Rightarrow> int \<Rightarrow> int option" where
  "memchr_loop h c so b len offset ps =
     (if b = 0 \<or> len = 0 then Some (- 1)
      else if read_avail h b - offset \<le> 0
      then memchr_loop h c so (next_blk h b) len (- (read_avail h b - offset)) ps
      else
        (case copy_out (bdata (blks h b)) (int (bstart (blks h b)) + offset)
               (if len < 0 \<or> len \<ge> read_avail h b - offset then read_avail h b - offset else len) h of
           None \<Rightarrow> None
         | Some xs \<Rightarrow>
             (case find_char c xs 0 of
                Some p \<Rightarrow> Some (ps - so + int p)
              | None \<Rightarrow> memchr_loop h c so (next_blk h b) (len - int (length xs)) 0 (ps + int (length xs)))))"

definition reader_memchr :: "u8 \<Rightarrow> int \<Rightarrow> int \<Rightarrow> ioheap \<Rightarrow> reader \<Rightarrow> int option" where
  "reader_memchr c len offset h r =
     (let o' = offset + start_offset r in memchr_loop h c (start_offset r) (rblock r) len o' o')"

text \<open>\<open>memcpy\<close>: the bytes that are written to the caller's buffer, in order.\<close>

partial_function (option) memcpy_loop :: "ioheap \<Rightarrow> nat \<Rightarrow> int \<Rightarrow> int \<Rightarrow> bytes \<Rightarrow> bytes option" where
  "memcpy_loop h b len offset acc =
     (if b = 0 \<or> len = 0 then Some acc
      else if read_avail h b - offset \<le> 0
      then memcpy_loop h (next_blk h b) len (- (read_avail h b - offset)) acc
      else
        (case copy_out (bdata (blks h b)) (int (bstart (blks h b)) + offset)
               (if len < 0 \<or> len \<ge> read_avail h b - offset then read_avail h b - offset else len) h of
           None \<Rightarrow> None
         | Some xs \<Rightarrow> memcpy_loop h (next_blk h b) (len - int (length xs)) 0 (acc @ xs)))"

definition reader_memcpy :: "int \<Rightarrow> int \<Rightarrow> ioheap \<Rightarrow> reader \<Rightarrow> bytes option" where
  "reader_memcpy len offset h r = memcpy_loop h (rblock r) len (offset + start_offset r) []"

partial_function (option) read_loop :: "ioheap \<Rightarrow> int \<Rightarrow> reader \<Rightarrow> bytes \<Rightarrow> (reader \<times> bytes) option" where
  "read_loop h n r acc =
     (if n = 0 then Some (r, acc)
      else
        (case block_read_avail h r of
           None \<Rightarrow> None
         | Some (r1, l) \<Rightarrow>
             (case reader_start h r1 of
                None \<Rightarrow> None
              | Some (r2, d, ps) \<Rightarrow>
                  (case copy_out d ps (if n < l then n else l) h of
                     None \<Rightarrow> None
                   | Some xs \<Rightarrow>
                       (case consume (int (length xs)) h r2 of
                          None \<Rightarrow> None
                        | Some r3 \<Rightarrow> read_loop h (n - int (length xs)) r3 (acc @ xs))))))"

definition reader_read :: "int \<Rightarrow> ioheap \<Rightarrow> reader \<Rightarrow> (reader \<times> bytes) option" where
  "reader_read len h r =
     (case reader_avail h r of
        None \<Rightarrow> None | Some mx \<Rightarrow> read_loop h (if len \<le> mx then len else mx) r [])"

subsection \<open>Buffers\<close>

record mio =
  writer :: nat
  readers :: "reader list"
  size_index :: int
  water_mark :: int

definition mio_clear :: mio where
  "mio_clear = \<lparr>writer = 0, readers = replicate MAX_MIOBUFFER_READERS reader_init,
     size_index = DEFAULT_BUFFER_SIZES, water_mark = 0\<rparr>"

fun free_slot :: "reader list \<Rightarrow> nat \<Rightarrow> nat option" where
  "free_slot [] i = None"
| "free_slot (r # rs) i = (if rused r then free_slot rs (Suc i) else Some i)"

definition alloc_reader :: "mio \<Rightarrow> (mio \<times> nat) option" where
  "alloc_reader m =
     map_option (\<lambda>i. (m\<lparr>readers := (readers m)[i := \<lparr>rused = True, rblock = writer m, start_offset = 0,
                                                    size_limit = INT64_MAX\<rparr>]\<rparr>, i))
       (free_slot (readers m) 0)"

definition clone_reader :: "reader \<Rightarrow> mio \<Rightarrow> (mio \<times> nat) option" where
  "clone_reader r m =
     map_option (\<lambda>i. (m\<lparr>readers := (readers m)[i := \<lparr>rused = True, rblock = rblock r, start_offset = start_offset r,
                                                    size_limit = size_limit r\<rparr>]\<rparr>, i))
       (free_slot (readers m) 0)"

definition dealloc_reader :: "nat \<Rightarrow> mio \<Rightarrow> mio" where
  "dealloc_reader i m = m\<lparr>readers := (readers m)[i := reader_init]\<rparr>"

definition dealloc_all_readers :: "mio \<Rightarrow> mio" where
  "dealloc_all_readers m = m\<lparr>readers := map (\<lambda>r. if rused r then reader_init else r) (readers m)\<rparr>"

definition init_readers :: "mio \<Rightarrow> mio" where
  "init_readers m =
     m\<lparr>readers := map (\<lambda>r. if rused r \<and> rblock r = 0 then r\<lparr>rblock := writer m\<rparr> else r) (readers m)\<rparr>"

definition mio_reset :: "mio \<Rightarrow> ioheap \<Rightarrow> ioheap \<times> mio" where
  "mio_reset m h =
     (if writer m \<noteq> 0 then blk_reset (writer m) h else h,
      m\<lparr>readers := map (\<lambda>r. if rused r then r\<lparr>rblock := writer m, start_offset := 0, size_limit := INT64_MAX\<rparr> else r)
                    (readers m)\<rparr>)"

definition mio_alloc :: "int \<Rightarrow> mio \<Rightarrow> ioheap \<Rightarrow> ioheap \<times> mio" where
  "mio_alloc i m h =
     (case new_blk h of (h1, b) \<Rightarrow> (blk_alloc i b h1, init_readers (m\<lparr>writer := b, size_index := i\<rparr>)))"

definition mio_set :: "bytes \<Rightarrow> int \<Rightarrow> mio \<Rightarrow> ioheap \<Rightarrow> ioheap \<times> mio" where
  "mio_set mem len m h =
     (case new_blk h of (h1, b) \<Rightarrow>
        (blk_set_internal mem len (BUFFER_SIZE_INDEX_FOR_CONSTANT_SIZE len) b h1, init_readers (m\<lparr>writer := b\<rparr>)))"

definition new_MIOBuffer :: "int \<Rightarrow> ioheap \<Rightarrow> ioheap \<times> mio" where
  "new_MIOBuffer i h = mio_alloc i mio_clear h"

definition first_write_block :: "ioheap \<Rightarrow> mio \<Rightarrow> nat" where
  "first_write_block h m =
     (if writer m \<noteq> 0
      then (if next_blk h (writer m) \<noteq> 0 \<and> write_avail h (writer m) = 0 then next_blk h (writer m) else writer m)
      else 0)"

definition block_write_avail :: "ioheap \<Rightarrow> mio \<Rightarrow> int" where
  "block_write_avail h m =
     (let b = first_write_block h m in if b \<noteq> 0 then write_avail h b else 0)"

text \<open>The two loops that move the writer after a block was linked.\<close>

partial_function (option) last_filled :: "ioheap \<Rightarrow> nat \<Rightarrow> nat \<Rightarrow> nat option" where
  "last_filled h w b =
     (if read_avail h b \<noteq> 0 then (if next_blk h b = 0 then Some b else last_filled h b (next_blk h b)) else Some w)"

partial_function (option) skip_full :: "ioheap \<Rightarrow> nat \<Rightarrow> nat option" where
  "skip_full h w =
     (if next_blk h w \<noteq> 0 \<and> write_avail h w = 0 \<and> read_avail h (next_blk h w) \<noteq> 0
      then skip_full h (next_blk h w) else Some w)"

definition append_block_internal :: "nat \<Rightarrow> ioheap \<Rightarrow> mio \<Rightarrow> (ioheap \<times> mio) option" where
  "append_block_internal b h m =
     (if writer m = 0
      then map_option (\<lambda>w. (h, (init_readers (m\<lparr>writer := b\<rparr>))\<lparr>writer := w\<rparr>)) (skip_full h b)
      else
        (let h1 = upd_blk (writer m) (\<lambda>x. x\<lparr>bnext := b\<rparr>) h
         in case last_filled h1 (writer m) b of
              None \<Rightarrow> None
            | Some w \<Rightarrow> map_option (\<lambda>w'. (h1, m\<lparr>writer := w'\<rparr>)) (skip_full h1 w)))"

definition append_block_index :: "int \<Rightarrow> ioheap \<Rightarrow> mio \<Rightarrow> (ioheap \<times> mio) option" where
  "append_block_index i h m = (case new_blk h of (h1, b) \<Rightarrow> append_block_internal b (blk_alloc i b h1) m)"

definition add_block :: "ioheap \<Rightarrow> mio \<Rightarrow> (ioheap \<times> mio) option" where
  "add_block h m = append_block_index (size_index m) h m"

definition append_xmalloced :: "bytes \<Rightarrow> int \<Rightarrow> ioheap \<Rightarrow> mio \<Rightarrow> (ioheap \<times> mio) option" where
  "append_xmalloced mem len h m =
     (case new_blk h of (h1, b) \<Rightarrow>
        append_block_internal b (blk_set_internal mem len (BUFFER_SIZE_INDEX_FOR_XMALLOC_SIZE len) b h1) m)"

partial_function (option) write_avail_from :: "ioheap \<Rightarrow> nat \<Rightarrow> int \<Rightarrow> int option" where
  "write_avail_from h b t = (if b = 0 then Some t else write_avail_from h (next_blk h b) (t + write_avail h b))"

definition current_write_avail :: "ioheap \<Rightarrow> mio \<Rightarrow> int option" where
  "current_write_avail h m = write_avail_from h (writer m) 0"

fun max_over :: "(reader \<Rightarrow> int option) \<Rightarrow> reader list \<Rightarrow> int \<Rightarrow> int option" where
  "max_over f [] s = Some s"
| "max_over f (r # rs) s =
     (if rused r then (case f r of None \<Rightarrow> None | Some ss \<Rightarrow> max_over f rs (if ss > s then ss else s))
      else max_over f rs s)"

definition max_block_count :: "ioheap \<Rightarrow> mio \<Rightarrow> int option" where
  "max_block_count h m = max_over (\<lambda>r. map_option int (block_count h r)) (readers m) 0"

definition max_read_avail :: "ioheap \<Rightarrow> mio \<Rightarrow> int option" where
  "max_read_avail h m =
     (if (\<forall>r \<in> set (readers m). \<not> rused r) \<and> writer m \<noteq> 0 then Some (read_avail h (writer m))
      else max_over (reader_avail h) (readers m) 0)"

definition high_water :: "ioheap \<Rightarrow> mio \<Rightarrow> bool option" where
  "high_water h m = map_option (\<lambda>a. a > water_mark m) (max_read_avail h m)"

definition current_low_water :: "ioheap \<Rightarrow> mio \<Rightarrow> bool option" where
  "current_low_water h m = map_option (\<lambda>a. a \<le> water_mark m) (current_write_avail h m)"

definition check_add_block :: "ioheap \<Rightarrow> mio \<Rightarrow> (ioheap \<times> mio) option" where
  "check_add_block h m =
     (case high_water h m of
        None \<Rightarrow> None
      | Some True \<Rightarrow> Some (h, m)
      | Some False \<Rightarrow>
          (case current_low_water h m of
             None \<Rightarrow> None | Some True \<Rightarrow> add_block h m | Some False \<Rightarrow> Some (h, m)))"

definition mio_write_avail :: "ioheap \<Rightarrow> mio \<Rightarrow> (ioheap \<times> mio \<times> int) option" where
  "mio_write_avail h m =
     (case check_add_block h m of
        None \<Rightarrow> None
      | Some (h1, m1) \<Rightarrow> map_option (\<lambda>a. (h1, m1, a)) (current_write_avail h1 m1))"

text \<open>The writer runs through NULL when the room is not enough.\<close>

partial_function (option) fill_loop :: "ioheap \<Rightarrow> nat \<Rightarrow> int \<Rightarrow> (ioheap \<times> nat) option" where
  "fill_loop h w len =
     (if w = 0 then None
      else if write_avail h w < len
      then fill_loop (blk_fill (write_avail h w) w h) (next_blk h w) (len - write_avail h w)
      else Some (blk_fill len w h, w))"

definition mio_fill :: "int \<Rightarrow> ioheap \<Rightarrow> mio \<Rightarrow> (ioheap \<times> mio) option" where
  "mio_fill len h m = map_option (\<lambda>(h', w). (h', m\<lparr>writer := w\<rparr>)) (fill_loop h (writer m) len)"

partial_function (option) mio_write :: "bytes \<Rightarrow> ioheap \<Rightarrow> mio \<Rightarrow> (ioheap \<times> mio) option" where
  "mio_write xs h m =
     (if xs = [] then Some (h, m)
      else
        (case (if writer m = 0 then add_block h m else Some (h, m)) of
           None \<Rightarrow> None
         | Some (h1, m1) \<Rightarrow>
             (case (if min (write_avail h1 (writer m1)) (int (length xs)) > 0
                    then map_option (blk_fill (min (write_avail h1 (writer m1)) (int (length xs))) (writer m1))
                           (copy_in (bdata (blks h1 (writer m1))) (bend (blks h1 (writer m1)))
                              (take (nat (min (write_avail h1 (writer m1)) (int (length xs)))) xs) h1)
                    else Some h1) of
                None \<Rightarrow> None
              | Some h2 \<Rightarrow>
                  (if drop (nat (min (write_avail h1 (writer m1)) (int (length xs)))) xs = [] then Some (h2, m1)
                   else
                     (case (if next_blk h2 (writer m1) = 0 then add_block h2 m1
                            else Some (h2, m1\<lparr>writer := next_blk h2 (writer m1)\<rparr>)) of
                        None \<Rightarrow> None
                      | Some (h3, m3) \<Rightarrow>
                          mio_write (drop (nat (min (write_avail h1 (writer m1)) (int (length xs)))) xs) h3 m3)))))"

text \<open>Writing by reference: a clone of every block of the reader that has bytes in the range.\<close>

partial_function (option) write_ref_loop ::
    "nat \<Rightarrow> int \<Rightarrow> int \<Rightarrow> ioheap \<Rightarrow> mio \<Rightarrow> (ioheap \<times> mio \<times> int) option" where
  "write_ref_loop b len offset h m =
     (if b = 0 \<or> len \<le> 0 then Some (h, m, len)
      else if read_avail h b - offset \<le> 0
      then write_ref_loop (next_blk h b) len (- (read_avail h b - offset)) h m
      else
        (case blk_clone b h of
           (h1, c) \<Rightarrow>
             (case append_block_internal c
                     (upd_blk c (\<lambda>x. x\<lparr>bstart := nat (int (bstart x) + offset),
                        bend := nat (int (bstart x) + offset + min len (read_avail h b - offset)),
                        bbend := nat (int (bstart x) + offset + min len (read_avail h b - offset))\<rparr>) h1) m of
                None \<Rightarrow> None
              | Some (h2, m2) \<Rightarrow>
                  write_ref_loop (next_blk h2 b) (len - min len (read_avail h b - offset)) 0 h2 m2)))"

definition mio_write_reader :: "reader \<Rightarrow> int \<Rightarrow> int \<Rightarrow> ioheap \<Rightarrow> mio \<Rightarrow> (ioheap \<times> mio \<times> int) option" where
  "mio_write_reader r alen offset h m =
     map_option (\<lambda>(h', m', len). (h', m', alen - len))
       (write_ref_loop (rblock r) alen (offset + start_offset r) h m)"

text \<open>
  Moving the blocks of a reader; the result is the reader's buffer without a writer, the reader,
  and the number of bytes.
\<close>

partial_function (option) remove_append_loop ::
    "ioheap \<Rightarrow> mio \<Rightarrow> reader \<Rightarrow> int \<Rightarrow> (ioheap \<times> mio \<times> reader \<times> int) option" where
  "remove_append_loop h m r l =
     (if rblock r = 0 then Some (h, m, r, l)
      else
        (let b = rblock r; r1 = r\<lparr>rblock := next_blk h b\<rparr>;
             h1 = blk_consume (start_offset r) b h
         in if bstart (blks h1 b) \<ge> bend (blks h1 b)
            then remove_append_loop h1 m (r1\<lparr>start_offset := - start_offset r\<rparr>) l
            else
              (case append_block_internal b h1 m of
                 None \<Rightarrow> None
               | Some (h2, m2) \<Rightarrow>
                   remove_append_loop h2 m2 (r1\<lparr>start_offset := 0\<rparr>) (l + read_avail h1 b))))"

definition remove_append :: "mio \<Rightarrow> reader \<Rightarrow> ioheap \<Rightarrow> mio \<Rightarrow> (ioheap \<times> mio \<times> mio \<times> reader \<times> int) option" where
  "remove_append src r h m =
     map_option (\<lambda>(h', m', r', l). (h', m', src\<lparr>writer := 0\<rparr>, r', l)) (remove_append_loop h m r 0)"

text \<open>
  \<open>puts\<close>: \<open>s\<close> is the caller's memory from the string on, \<open>len\<close> the limit; the scan ends at the
  room of the block (result 0), at the limit (\<open>- 1\<close>), or at the first NUL or newline.
\<close>

datatype puts_end = No_room | Too_long | Line nat

function puts_scan :: "bytes \<Rightarrow> int \<Rightarrow> int \<Rightarrow> nat \<Rightarrow> puts_end option" where
  "puts_scan s room len i =
     (if \<not> int i < room then Some No_room
      else if len \<le> int i then Some Too_long
      else (case load s i of
              None \<Rightarrow> None
            | Some c \<Rightarrow> if c = 0 \<or> c = 10 then Some (Line i) else puts_scan s room len (Suc i)))"
  by pat_completeness auto
termination by (relation "measure (\<lambda>(s, room, len, i). nat (room - int i))") auto

definition mio_puts :: "bytes \<Rightarrow> int \<Rightarrow> ioheap \<Rightarrow> mio \<Rightarrow> (ioheap \<times> mio \<times> int) option" where
  "mio_puts s len h m =
     (let b = first_write_block h m
      in if b = 0 then None
         else (case puts_scan s (int (bbend (blks h b)) - int (bend (blks h b))) len 0 of
                 None \<Rightarrow> None
               | Some No_room \<Rightarrow> Some (h, m, 0)
               | Some Too_long \<Rightarrow> Some (h, m, - 1)
               | Some (Line n) \<Rightarrow>
                   (case copy_in (bdata (blks h b)) (bend (blks h b)) (take (Suc n) s @ [0]) h of
                      None \<Rightarrow> None
                    | Some h1 \<Rightarrow>
                        map_option (\<lambda>(h2, m2). (h2, m2, int (Suc n))) (mio_fill (int (Suc n)) h1 m))))"

end
