(* ===== verification/IOBufferRead.thy ===== *)
theory IOBufferRead
  imports IOBuffer
begin

text \<open>
  What readers of the buffers see: a chain of blocks stands for the bytes of its blocks, a reader
  for those behind its offset. A heap is well formed when the room of a block overlaps no other
  block of its data area, a chain is solid when only its first block and a rest may be empty; then
  a reader with bytes left always finds some in its block, and every operation of a reader is the
  operation on the list of its bytes.
\<close>

section \<open>The bytes of blocks and chains\<close>

definition blk_bytes :: "ioheap \<Rightarrow> nat \<Rightarrow> bytes" where
  "blk_bytes h b = map (\<lambda>i. datas h (bdata (blks h b)) ! i) [bstart (blks h b)..<bend (blks h b)]"

definition chain_bytes :: "ioheap \<Rightarrow> nat list \<Rightarrow> bytes" where
  "chain_bytes h bs = concat (map (blk_bytes h) bs)"

definition blk_ok :: "ioheap \<Rightarrow> nat \<Rightarrow> bool" where
  "blk_ok h b \<longleftrightarrow> bstart (blks h b) \<le> bend (blks h b) \<and> bend (blks h b) \<le> bbend (blks h b) \<and>
     bbend (blks h b) \<le> length (datas h (bdata (blks h b))) \<and> bdata (blks h b) < dtop h"

text \<open>The room of a block overlaps no other block of the same data area.\<close>

definition apart :: "ioheap \<Rightarrow> nat \<Rightarrow> nat \<Rightarrow> bool" where
  "apart h a b \<longleftrightarrow> bdata (blks h a) = bdata (blks h b) \<longrightarrow>
     {bend (blks h a)..<bbend (blks h a)} \<inter> {bstart (blks h b)..<bbend (blks h b)} = {}"

definition heap_ok :: "ioheap \<Rightarrow> bool" where
  "heap_ok h \<longleftrightarrow> 0 < btop h \<and> (\<forall>b. 0 < b \<and> b < btop h \<longrightarrow> blk_ok h b \<and> next_blk h b < btop h) \<and>
     (\<forall>a b. 0 < a \<and> a < btop h \<and> 0 < b \<and> b < btop h \<and> a \<noteq> b \<longrightarrow> apart h a b)"

abbreviation bchain :: "ioheap \<Rightarrow> nat \<Rightarrow> nat list \<Rightarrow> bool" where
  "bchain h p bs \<equiv> chain (\<lambda>b. next_blk h b) p bs"

text \<open>All blocks of a chain after the first have bytes, up to a rest of empty ones.\<close>

definition solid :: "ioheap \<Rightarrow> nat list \<Rightarrow> bool" where
  "solid h bs \<longleftrightarrow> (\<exists>ne em. tl bs = ne @ em \<and> (\<forall>b \<in> set ne. blk_bytes h b \<noteq> []) \<and> (\<forall>b \<in> set em. blk_bytes h b = []))"

lemma chain_bytes_simps [simp]: "chain_bytes h [] = []" "chain_bytes h (b # bs) = blk_bytes h b @ chain_bytes h bs"
  "chain_bytes h (as @ bs) = chain_bytes h as @ chain_bytes h bs"
  by (simp_all add: chain_bytes_def)

lemma chain_bytes_empty: "\<forall>b \<in> set bs. blk_bytes h b = [] \<Longrightarrow> chain_bytes h bs = []"
  by (simp add: chain_bytes_def)

lemma chain_bytes_cong: "(\<And>b. b \<in> set bs \<Longrightarrow> blk_bytes h' b = blk_bytes h b) \<Longrightarrow> chain_bytes h' bs = chain_bytes h bs"
  by (simp add: chain_bytes_def cong: map_cong)

lemma length_blk_bytes: "blk_ok h b \<Longrightarrow> int (length (blk_bytes h b)) = read_avail h b"
  by (simp add: blk_bytes_def blk_ok_def read_avail_def)

lemma heap_okD:
  assumes "heap_ok h" "0 < b" "b < btop h"
  shows "blk_ok h b" "next_blk h b < btop h"
  using assms by (simp_all add: heap_ok_def)

lemma chain_in_heap:
  assumes h: "heap_ok h"
  shows "bchain h p bs \<Longrightarrow> p < btop h \<Longrightarrow> b \<in> set bs \<Longrightarrow> 0 < b \<and> b < btop h \<and> blk_ok h b"
proof (induction bs arbitrary: p)
  case (Cons x bs)
  have x: "0 < x" "x < btop h" using Cons.prems by auto
  show ?case
  proof (cases "b = x")
    case True
    then show ?thesis using x heap_okD [OF h x] by simp
  next
    case False
    then show ?thesis using Cons.IH [of "next_blk h x"] Cons.prems heap_okD [OF h x] by simp
  qed
qed simp

lemma solid_Cons: "solid h (b # c # bs) \<Longrightarrow> solid h (c # bs)"
proof -
  assume "solid h (b # c # bs)"
  then obtain ne em where s: "c # bs = ne @ em" "\<forall>b \<in> set ne. blk_bytes h b \<noteq> []" "\<forall>b \<in> set em. blk_bytes h b = []"
    by (auto simp: solid_def)
  show ?thesis
  proof (cases ne)
    case Nil
    then have "bs = [] @ bs" "\<forall>b \<in> set bs. blk_bytes h b = []" using s by auto
    then show ?thesis unfolding solid_def by (intro exI [of _ "[]"] exI [of _ bs]) simp
  next
    case (Cons x ne')
    then have "bs = ne' @ em" using s(1) by simp
    then show ?thesis using s Cons unfolding solid_def by (intro exI [of _ ne'] exI [of _ em]) simp
  qed
qed

text \<open>When the second block is empty, so is everything behind it.\<close>

lemma solid_stop: "solid h (b # c # bs) \<Longrightarrow> blk_bytes h c = [] \<Longrightarrow> chain_bytes h (c # bs) = []"
proof -
  assume "solid h (b # c # bs)" "blk_bytes h c = []"
  then obtain ne em where s: "c # bs = ne @ em" "\<forall>b \<in> set ne. blk_bytes h b \<noteq> []" "\<forall>b \<in> set em. blk_bytes h b = []"
    by (auto simp: solid_def)
  with \<open>blk_bytes h c = []\<close> have "ne = []" by (cases ne) auto
  with s show ?thesis using chain_bytes_empty [of "c # bs" h] by simp
qed

section \<open>Readers\<close>

definition reader_rep :: "ioheap \<Rightarrow> reader \<Rightarrow> nat list \<Rightarrow> bytes \<Rightarrow> bool" where
  "reader_rep h r bs xs \<longleftrightarrow> bchain h (rblock r) bs \<and> bs \<noteq> [] \<and> rblock r < btop h \<and> solid h bs \<and> 0 \<le> start_offset r \<and>
     start_offset r \<le> int (length (chain_bytes h bs)) \<and> xs = drop (nat (start_offset r)) (chain_bytes h bs) \<and>
     size_limit r = INT64_MAX"

text \<open>One step of the loops that leave a block.\<close>

lemma reader_leave:
  assumes h: "heap_ok h" and rep: "reader_rep h r bs xs"
    and go: "next_blk h (rblock r) \<noteq> 0" "read_avail h (next_blk h (rblock r)) \<noteq> 0" "read_avail h (rblock r) \<le> start_offset r"
  shows "reader_rep h (r\<lparr>start_offset := start_offset r - read_avail h (rblock r), rblock := next_blk h (rblock r)\<rparr>) (tl bs) xs"
proof -
  obtain b bs' where bs: "bs = b # bs'" "b = rblock r" using rep by (cases bs) (auto simp: reader_rep_def)
  have ch: "bchain h b (b # bs')" "b < btop h" using rep bs by (auto simp: reader_rep_def)
  then have b: "0 < b" "blk_ok h b" "next_blk h b < btop h" using heap_okD [OF h, of b] by auto
  have tl: "bchain h (next_blk h b) bs'" using ch by simp
  have ne: "bs' \<noteq> []" using tl go(1) bs(2) by (cases bs') auto
  have s: "solid h bs'" using rep bs ne solid_Cons by (cases bs') (auto simp: reader_rep_def)
  have len: "int (length (blk_bytes h b)) = read_avail h b" by (rule length_blk_bytes [OF b(2)])
  have so: "0 \<le> start_offset r" "start_offset r \<le> int (length (blk_bytes h b @ chain_bytes h bs'))"
    "xs = drop (nat (start_offset r)) (blk_bytes h b @ chain_bytes h bs')" using rep bs by (auto simp: reader_rep_def)
  have "nat (start_offset r) - length (blk_bytes h b) = nat (start_offset r - read_avail h b)"
    using len go(3) so(1) unfolding bs(2) by arith
  moreover have "length (blk_bytes h b) \<le> nat (start_offset r)" using len go(3) so(1) unfolding bs(2) by arith
  ultimately have "xs = drop (nat (start_offset r - read_avail h b)) (chain_bytes h bs')"
    using so(3) by simp
  then show ?thesis
    using tl ne b(3) s so len go(3) bs rep by (auto simp: reader_rep_def)
qed

text \<open>A reader moves on to blocks that have bytes only.\<close>

definition later :: "ioheap \<Rightarrow> nat list \<Rightarrow> nat list \<Rightarrow> bool" where
  "later h bs bs' \<longleftrightarrow> (\<exists>pre. bs = pre @ bs') \<and> (bs' = bs \<or> blk_bytes h (hd bs') \<noteq> [])"

lemma later_refl [simp]: "later h bs bs"
  by (simp add: later_def)

lemma later_trans: "later h bs bs1 \<Longrightarrow> later h bs1 bs2 \<Longrightarrow> later h bs bs2"
  unfolding later_def by (metis append.assoc)

lemma later_tl:
  assumes "heap_ok h" "reader_rep h r (b # bs) xs" "reader_rep h r' bs xs" "rblock r' = next_blk h (rblock r)"
    "read_avail h (next_blk h (rblock r)) \<noteq> 0"
  shows "later h (b # bs) bs"
proof -
  obtain c cs where bs: "bs = c # cs" "c = rblock r'" using assms(3) by (cases bs) (auto simp: reader_rep_def)
  have "bchain h (rblock r') (c # cs)" "rblock r' < btop h" using assms(3) bs by (auto simp: reader_rep_def)
  then have "blk_ok h c" using chain_in_heap [OF assms(1), of "rblock r'" "c # cs" c] by simp
  then have "blk_bytes h c \<noteq> []" using assms(4,5) bs by (auto simp: blk_bytes_def read_avail_def blk_ok_def)
  then show ?thesis using bs unfolding later_def by (intro conjI exI [of _ "[b]"]) simp_all
qed

lemma skip_empty_blocks_ok:
  assumes h: "heap_ok h"
  shows "reader_rep h r bs xs \<Longrightarrow>
    \<exists>r' bs'. skip_empty_blocks h r = Some r' \<and> reader_rep h r' bs' xs \<and> later h bs bs' \<and> rused r' = rused r \<and>
      \<not> (next_blk h (rblock r') \<noteq> 0 \<and> read_avail h (next_blk h (rblock r')) \<noteq> 0 \<and> start_offset r' \<ge> read_avail h (rblock r'))"
proof (induction bs arbitrary: r)
  case Nil
  then show ?case by (simp add: reader_rep_def)
next
  case (Cons b bs)
  show ?case
  proof (cases "next_blk h (rblock r) \<noteq> 0 \<and> read_avail h (next_blk h (rblock r)) \<noteq> 0 \<and> start_offset r \<ge> read_avail h (rblock r)")
    case True
    let ?r = "r\<lparr>start_offset := start_offset r - read_avail h (rblock r), rblock := next_blk h (rblock r)\<rparr>"
    have rr: "reader_rep h ?r bs xs" using reader_leave [OF h Cons.prems] True by auto
    have lt: "later h (b # bs) bs" using later_tl [OF h Cons.prems rr] True by simp
    from Cons.IH [OF rr] obtain r' bs' where 1: "skip_empty_blocks h ?r = Some r'" "reader_rep h r' bs' xs" "later h bs bs'"
      "rused r' = rused r"
      "\<not> (next_blk h (rblock r') \<noteq> 0 \<and> read_avail h (next_blk h (rblock r')) \<noteq> 0 \<and> start_offset r' \<ge> read_avail h (rblock r'))"
      by auto
    have "skip_empty_blocks h r = Some r'" using 1(1) True by (subst skip_empty_blocks.simps) simp
    then show ?thesis using 1 later_trans [OF lt] by (intro exI [of _ r'] exI [of _ bs']) auto
  next
    case False
    then have "skip_empty_blocks h r = Some r" by (subst skip_empty_blocks.simps) auto
    then show ?thesis using Cons.prems False by (intro exI [of _ r] exI [of _ "b # bs"]) auto
  qed
qed

lemma consume_loop_ok:
  assumes h: "heap_ok h"
  shows "reader_rep h r bs xs \<Longrightarrow>
    \<exists>r' bs'. consume_loop h r = Some r' \<and> reader_rep h r' bs' xs \<and> later h bs bs' \<and> rused r' = rused r"
proof (induction bs arbitrary: r)
  case Nil
  then show ?case by (simp add: reader_rep_def)
next
  case (Cons b bs)
  show ?case
  proof (cases "read_avail h (rblock r) \<le> start_offset r \<and> next_blk h (rblock r) \<noteq> 0 \<and> read_avail h (next_blk h (rblock r)) \<noteq> 0")
    case True
    let ?r = "r\<lparr>start_offset := start_offset r - read_avail h (rblock r), rblock := next_blk h (rblock r)\<rparr>"
    have rr: "reader_rep h ?r bs xs" using reader_leave [OF h Cons.prems] True by auto
    have lt: "later h (b # bs) bs" using later_tl [OF h Cons.prems rr] True by simp
    from Cons.IH [OF rr] obtain r' bs' where 1: "consume_loop h ?r = Some r'" "reader_rep h r' bs' xs" "later h bs bs'"
      "rused r' = rused r" by auto
    have "consume_loop h r = Some r'" using 1(1) True by (subst consume_loop.simps) simp
    then show ?thesis using 1 later_trans [OF lt] by (intro exI [of _ r'] exI [of _ bs']) auto
  next
    case False
    then have "consume_loop h r = Some r" by (subst consume_loop.simps) auto
    then show ?thesis using Cons.prems by (intro exI [of _ r] exI [of _ "b # bs"]) auto
  qed
qed

lemma consume_ok:
  assumes h: "heap_ok h" and rep: "reader_rep h r bs xs" and n: "0 \<le> n" "n \<le> int (length xs)"
  shows "\<exists>r' bs'. consume n h r = Some r' \<and> reader_rep h r' bs' (drop (nat n) xs) \<and> later h bs bs' \<and> rused r' = rused r"
proof -
  let ?r = "r\<lparr>start_offset := start_offset r + n\<rparr>"
  have x: "xs = drop (nat (start_offset r)) (chain_bytes h bs)" "0 \<le> start_offset r" using rep by (auto simp: reader_rep_def)
  have "drop (nat (start_offset r + n)) (chain_bytes h bs) = drop (nat n) xs"
    using x n by (simp add: nat_add_distrib add.commute)
  moreover have "start_offset r + n \<le> int (length (chain_bytes h bs))"
    using n(2) x rep by (auto simp: reader_rep_def)
  ultimately have "reader_rep h ?r bs (drop (nat n) xs)" using rep n by (auto simp: reader_rep_def)
  from consume_loop_ok [OF h this] obtain r' bs' where 1: "consume_loop h ?r = Some r'" "reader_rep h r' bs' (drop (nat n) xs)"
    "later h bs bs'" "rused r' = rused r" by auto
  have l: "size_limit r = INT64_MAX" "rblock r \<noteq> 0" using rep by (cases bs; auto simp: reader_rep_def)+
  have e: "r\<lparr>start_offset := start_offset r + n, size_limit := INT64_MAX\<rparr> = ?r" using l by (cases r) simp
  have "consume n h r = consume_loop h (r\<lparr>start_offset := start_offset r + n, size_limit := INT64_MAX\<rparr>)"
    using l by (simp add: consume_def)
  then have "consume n h r = consume_loop h ?r" unfolding e .
  then show ?thesis using 1 by auto
qed

lemma avail_from_ok: "bchain h b bs \<Longrightarrow> (\<forall>c \<in> set bs. blk_ok h c) \<Longrightarrow> avail_from h b t = Some (t + int (length (chain_bytes h bs)))"
proof (induction bs arbitrary: b t)
  case (Cons x bs)
  then show ?case by (subst avail_from.simps) (auto simp: length_blk_bytes [symmetric])
qed (simp add: avail_from.simps)

lemma reader_chain_ok: "heap_ok h \<Longrightarrow> reader_rep h r bs xs \<Longrightarrow> \<forall>c \<in> set bs. blk_ok h c"
  using chain_in_heap [of h "rblock r" bs] by (auto simp: reader_rep_def)

lemma reader_avail_ok:
  assumes "heap_ok h" "reader_rep h r bs xs"
  shows "reader_avail h r = Some (int (length xs))"
  using avail_from_ok [of h "rblock r" bs 0] reader_chain_ok [OF assms] assms(2)
  by (auto simp: reader_avail_def reader_rep_def Let_def)

lemma more_than_from_ok:
  "bchain h b bs \<Longrightarrow> (\<forall>c \<in> set bs. blk_ok h c) \<Longrightarrow> t \<le> sz \<Longrightarrow>
   more_than_from h b sz t = Some (t + int (length (chain_bytes h bs)) > sz)"
proof (induction bs arbitrary: b t)
  case (Cons x bs)
  then show ?case by (subst more_than_from.simps) (auto simp: length_blk_bytes [symmetric])
qed (simp add: more_than_from.simps)

lemma is_read_avail_more_than_ok:
  assumes "heap_ok h" "reader_rep h r bs xs" "0 \<le> sz"
  shows "is_read_avail_more_than sz h r = Some (int (length xs) > sz)"
proof -
  have "more_than_from h (rblock r) sz (- start_offset r) = Some (- start_offset r + int (length (chain_bytes h bs)) > sz)"
    using assms reader_chain_ok [OF assms(1,2)] by (intro more_than_from_ok) (auto simp: reader_rep_def)
  moreover have "int (length xs) = int (length (chain_bytes h bs)) - start_offset r"
    using assms(2) by (auto simp: reader_rep_def)
  ultimately show ?thesis by (simp add: is_read_avail_more_than_def)
qed

lemma take_drop_nth: "i + k \<le> length xs \<Longrightarrow> take k (drop i xs) = map (\<lambda>j. xs ! j) [i..<i + k]"
  by (rule nth_equalityI) simp_all

lemma read_avail_zero: "blk_ok h b \<Longrightarrow> read_avail h b = 0 \<longleftrightarrow> blk_bytes h b = []"
  by (auto simp: blk_bytes_def blk_ok_def read_avail_def)

text \<open>What a reader finds in its block.\<close>

lemma copy_out_block:
  assumes "blk_ok h b" "0 \<le> s" "0 \<le> k" "s + k \<le> read_avail h b"
  shows "copy_out (bdata (blks h b)) (int (bstart (blks h b)) + s) k h = Some (take (nat k) (drop (nat s) (blk_bytes h b)))"
proof -
  let ?x = "blks h b"
  have le: "bstart ?x + nat s + nat k \<le> bend ?x" "bend ?x \<le> length (datas h (bdata ?x))"
    using assms by (auto simp: blk_ok_def read_avail_def)
  have pos: "nat (int (bstart ?x) + s) = bstart ?x + nat s" using assms(2) by simp
  have "take (nat k) (drop (bstart ?x + nat s) (datas h (bdata ?x))) =
      map (\<lambda>j. datas h (bdata ?x) ! j) [bstart ?x + nat s..<bstart ?x + nat s + nat k]"
    using le by (intro take_drop_nth) simp
  also have "\<dots> = take (nat k) (drop (nat s) (blk_bytes h b))"
    using le by (simp add: blk_bytes_def drop_map take_map drop_upt take_upt)
  finally show ?thesis using assms le unfolding copy_out_def pos by (auto simp: nat_le_iff)
qed

lemma block_read_avail_ok:
  assumes h: "heap_ok h" and rep: "reader_rep h r bs xs"
  shows "\<exists>r' bs' n d ps. block_read_avail h r = Some (r', int n) \<and> reader_rep h r' bs' xs \<and> later h bs bs' \<and>
    rused r' = rused r \<and> n \<le> length xs \<and> (xs \<noteq> [] \<longrightarrow> 0 < n) \<and> reader_start h r = Some (r', d, ps) \<and>
    reader_start h r' = Some (r', d, ps) \<and> (\<forall>k. 0 \<le> k \<and> k \<le> int n \<longrightarrow> copy_out d ps k h = Some (take (nat k) xs))"
proof -
  obtain r' bs' where 1: "skip_empty_blocks h r = Some r'" "reader_rep h r' bs' xs" "later h bs bs'" "rused r' = rused r"
    "\<not> (next_blk h (rblock r') \<noteq> 0 \<and> read_avail h (next_blk h (rblock r')) \<noteq> 0 \<and> start_offset r' \<ge> read_avail h (rblock r'))"
    using skip_empty_blocks_ok [OF h rep] by (elim exE conjE) (rule that; blast)
  obtain b cs where bs': "bs' = b # cs" "b = rblock r'" using 1(2) by (cases bs') (auto simp: reader_rep_def)
  have r0: "rblock r \<noteq> 0" "rblock r' \<noteq> 0" using rep 1(2) by (cases bs; cases bs'; auto simp: reader_rep_def)+
  have okb: "blk_ok h b" using reader_chain_ok [OF h 1(2)] bs' by simp
  have len: "int (length (blk_bytes h b)) = read_avail h b" by (rule length_blk_bytes [OF okb])
  have so: "0 \<le> start_offset r'" "start_offset r' \<le> int (length (blk_bytes h b @ chain_bytes h cs))"
    "xs = drop (nat (start_offset r')) (blk_bytes h b @ chain_bytes h cs)" using 1(2) bs' by (auto simp: reader_rep_def)
  have rest: "chain_bytes h cs = []" if "start_offset r' \<ge> read_avail h b"
  proof (cases cs)
    case (Cons c cs')
    then have c: "c = next_blk h b" "c \<noteq> 0" using 1(2) bs' by (auto simp: reader_rep_def)
    have "blk_ok h c" using reader_chain_ok [OF h 1(2)] bs' Cons by simp
    moreover have "read_avail h c = 0" using 1(5) that c bs'(2) by auto
    ultimately have "blk_bytes h c = []" using read_avail_zero by blast
    then show ?thesis using solid_stop [of h b c cs'] 1(2) bs' Cons by (simp add: reader_rep_def)
  qed simp
  have so_le: "start_offset r' \<le> read_avail h b" using rest so(2) len by (cases "start_offset r' \<ge> read_avail h b") auto
  define n where "n = nat (read_avail h b - start_offset r')"
  have n: "int n = read_avail h b - start_offset r'" using so_le by (simp add: n_def)
  have xs: "xs = drop (nat (start_offset r')) (blk_bytes h b) @ chain_bytes h cs"
  proof -
    have "nat (start_offset r') \<le> length (blk_bytes h b)" using so_le len by simp
    then show ?thesis using so(3) by simp
  qed
  have nlen: "n = length (drop (nat (start_offset r')) (blk_bytes h b))" using n so(1) len by simp
  have cp: "copy_out (bdata (blks h b)) (int (bstart (blks h b)) + start_offset r') k h = Some (take (nat k) xs)"
    if k: "0 \<le> k" "k \<le> int n" for k
  proof -
    have "take (nat k) xs = take (nat k) (drop (nat (start_offset r')) (blk_bytes h b))"
      unfolding xs using k nlen by simp
    then show ?thesis using copy_out_block [OF okb so(1) k(1)] k(2) n by simp
  qed
  have sk: "skip_empty_blocks h r' = Some r'" using 1(5) by (subst skip_empty_blocks.simps) auto
  have ba: "block_read_avail h r = Some (r', int n)"
    using 1(1) r0(1) n bs'(2) by (simp add: block_read_avail_def read_avail_def)
  have st: "reader_start h r = Some (r', bdata (blks h b), int (bstart (blks h b)) + start_offset r')"
    "reader_start h r' = Some (r', bdata (blks h b), int (bstart (blks h b)) + start_offset r')"
    using 1(1) sk r0 bs'(2) by (simp_all add: reader_start_def)
  have nx: "n \<le> length xs" unfolding xs nlen by simp
  have "xs \<noteq> [] \<longrightarrow> 0 < n"
  proof (intro impI)
    assume ne: "xs \<noteq> []"
    show "0 < n"
    proof (rule ccontr)
      assume "\<not> 0 < n"
      then have "start_offset r' \<ge> read_avail h b" "drop (nat (start_offset r')) (blk_bytes h b) = []" using n nlen by simp_all
      with rest ne xs show False by simp
    qed
  qed
  then have all: "block_read_avail h r = Some (r', int n) \<and> reader_rep h r' bs' xs \<and> later h bs bs' \<and>
    rused r' = rused r \<and> n \<le> length xs \<and> (xs \<noteq> [] \<longrightarrow> 0 < n) \<and>
    reader_start h r = Some (r', bdata (blks h b), int (bstart (blks h b)) + start_offset r') \<and>
    reader_start h r' = Some (r', bdata (blks h b), int (bstart (blks h b)) + start_offset r') \<and>
    (\<forall>k. 0 \<le> k \<and> k \<le> int n \<longrightarrow> copy_out (bdata (blks h b)) (int (bstart (blks h b)) + start_offset r') k h = Some (take (nat k) xs))"
    using ba st cp 1(2,3,4) nx by simp
  show ?thesis by (intro exI) (rule all)
qed

lemma read_loop_ok:
  assumes h: "heap_ok h"
  shows "reader_rep h r bs xs \<Longrightarrow> n \<le> length xs \<Longrightarrow>
    \<exists>r' bs'. read_loop h (int n) r acc = Some (r', acc @ take n xs) \<and> reader_rep h r' bs' (drop n xs) \<and> later h bs bs' \<and> rused r' = rused r"
proof (induction n arbitrary: r bs xs acc rule: less_induct)
  case (less n)
  show ?case
  proof (cases "n = 0")
    case True
    then show ?thesis using less.prems by (subst read_loop.simps) (auto intro: exI [of _ bs])
  next
    case False
    then have ne: "xs \<noteq> []" using less.prems(2) by auto
    obtain r1 bs1 l d ps where 1: "block_read_avail h r = Some (r1, int l)" "reader_rep h r1 bs1 xs" "later h bs bs1" "rused r1 = rused r"
      "0 < l" "reader_start h r1 = Some (r1, d, ps)" "\<And>k. 0 \<le> k \<and> k \<le> int l \<Longrightarrow> copy_out d ps k h = Some (take (nat k) xs)"
      "l \<le> length xs"
      using block_read_avail_ok [OF h less.prems(1)] ne by (elim exE conjE) (rule that; blast)
    let ?k = "min n l"
    have k: "(if int n < int l then int n else int l) = int ?k" by simp
    have cp: "copy_out d ps (int ?k) h = Some (take ?k xs)" using 1(7) [of "int ?k"] by simp
    have len: "length (take ?k xs) = ?k" "0 < ?k" "?k \<le> n" using less.prems(2) 1(5) False by auto
    have kk: "int ?k \<le> int (length xs)" using less.prems(2) by simp
    obtain r3 bs3 where 3: "consume (int ?k) h r1 = Some r3" "reader_rep h r3 bs3 (drop ?k xs)" "later h bs1 bs3" "rused r3 = rused r1"
      using consume_ok [OF h 1(2) _ kk] by auto
    have "n - ?k < n" "n - ?k \<le> length (drop ?k xs)" using len less.prems(2) by auto
    from less.IH [OF this(1) 3(2) this(2), of "acc @ take ?k xs"] obtain r' bs' where
      4: "read_loop h (int (n - ?k)) r3 (acc @ take ?k xs) = Some (r', (acc @ take ?k xs) @ take (n - ?k) (drop ?k xs))"
      "reader_rep h r' bs' (drop (n - ?k) (drop ?k xs))" "later h bs3 bs'" "rused r' = rused r3" by auto
    have i: "int n - int ?k = int (n - ?k)" using len(3) by simp
    have "read_loop h (int n) r acc = read_loop h (int (n - ?k)) r3 (acc @ take ?k xs)"
      using False 1(1,6) cp 3(1) len(1) by (subst read_loop.simps) (simp only: k i option.case prod.case if_False, simp)
    moreover have "take n xs = take ?k xs @ take (n - ?k) (drop ?k xs)"
      using len(3) by (metis le_add_diff_inverse take_add)
    moreover have "drop (n - ?k) (drop ?k xs) = drop n xs" using len(3) by simp
    ultimately show ?thesis using 4 3(4) 1(4) later_trans [OF later_trans [OF 1(3) 3(3)] 4(3)] by auto
  qed
qed

lemma reader_read_ok:
  assumes h: "heap_ok h" and rep: "reader_rep h r bs xs" and n: "0 \<le> n"
  shows "\<exists>r' bs'. reader_read n h r = Some (r', take (nat n) xs) \<and> reader_rep h r' bs' (drop (nat n) xs) \<and> later h bs bs' \<and> rused r' = rused r"
proof -
  let ?k = "min (nat n) (length xs)"
  have k: "(if n \<le> int (length xs) then n else int (length xs)) = int ?k" using n by auto
  have "?k \<le> length xs" by simp
  moreover have "take ?k xs = take (nat n) xs" "drop ?k xs = drop (nat n) xs" by (simp_all add: min_def)
  ultimately show ?thesis using read_loop_ok [OF h rep, of ?k "[]"]
    unfolding reader_read_def reader_avail_ok [OF h rep] option.case k by auto
qed

text \<open>The part of a range that lies in the first block.\<close>

lemma range_Cons:
  assumes "blk_ok h x" "0 \<le> offset" "0 \<le> len"
  shows "read_avail h x - offset \<le> 0 \<Longrightarrow>
      take (nat len) (drop (nat offset) (chain_bytes h (x # bs))) =
      take (nat len) (drop (nat (- (read_avail h x - offset))) (chain_bytes h bs))"
    and "0 < read_avail h x - offset \<Longrightarrow> xs = take (nat (min len (read_avail h x - offset))) (drop (nat offset) (blk_bytes h x)) \<Longrightarrow>
      take (nat len) (drop (nat offset) (chain_bytes h (x # bs))) =
        xs @ take (nat (len - int (length xs))) (chain_bytes h bs) \<and> int (length xs) = min len (read_avail h x - offset)"
proof -
  have len: "int (length (blk_bytes h x)) = read_avail h x" by (rule length_blk_bytes [OF assms(1)])
  assume le: "read_avail h x - offset \<le> 0"
  have "length (blk_bytes h x) \<le> nat offset" "nat offset - length (blk_bytes h x) = nat (- (read_avail h x - offset))"
    using le len assms(2) by arith+
  then show "take (nat len) (drop (nat offset) (chain_bytes h (x # bs))) =
      take (nat len) (drop (nat (- (read_avail h x - offset))) (chain_bytes h bs))" by simp
next
  have len: "int (length (blk_bytes h x)) = read_avail h x" by (rule length_blk_bytes [OF assms(1)])
  assume le: "0 < read_avail h x - offset"
    and xs: "xs = take (nat (min len (read_avail h x - offset))) (drop (nat offset) (blk_bytes h x))"
  have ld: "length (drop (nat offset) (blk_bytes h x)) = nat (read_avail h x - offset)" using len assms(2) by simp
  have nle: "nat offset - length (blk_bytes h x) = 0" using len le assms(2) by arith
  have lx: "int (length xs) = min len (read_avail h x - offset)" unfolding xs using ld le assms(3) by simp
  have "take (nat len) (drop (nat offset) (blk_bytes h x)) = xs"
    unfolding xs using ld le by (cases "len \<le> read_avail h x - offset") (simp_all add: min_def)
  moreover have "nat len - length (drop (nat offset) (blk_bytes h x)) = nat (len - int (length xs))"
    unfolding ld lx using le assms(3) by (simp add: min_def) arith
  ultimately show "take (nat len) (drop (nat offset) (chain_bytes h (x # bs))) =
        xs @ take (nat (len - int (length xs))) (chain_bytes h bs) \<and> int (length xs) = min len (read_avail h x - offset)"
    using lx nle by simp
qed

lemma memcpy_loop_ok:
  "bchain h b bs \<Longrightarrow> (\<forall>c \<in> set bs. blk_ok h c) \<Longrightarrow> 0 \<le> offset \<Longrightarrow> 0 \<le> len \<Longrightarrow>
   memcpy_loop h b len offset acc = Some (acc @ take (nat len) (drop (nat offset) (chain_bytes h bs)))"
proof (induction bs arbitrary: b len offset acc)
  case Nil
  then show ?case by (simp add: memcpy_loop.simps)
next
  case (Cons x bs)
  have x: "b = x" "x \<noteq> 0" "blk_ok h x" "bchain h (next_blk h x) bs" "\<forall>c \<in> set bs. blk_ok h c" using Cons.prems by auto
  show ?case
  proof (cases "len = 0")
    case True
    then show ?thesis by (simp add: memcpy_loop.simps)
  next
    case l: False
    show ?thesis
    proof (cases "read_avail h x - offset \<le> 0")
      case True
      have "0 \<le> - (read_avail h x - offset)" using True by simp
      from Cons.IH [OF x(4,5) this Cons.prems(4), of acc]
      show ?thesis unfolding range_Cons(1) [OF x(3) Cons.prems(3,4) True]
        using x(1,2) l True by (subst memcpy_loop.simps) simp
    next
      case False
      let ?k = "if len < 0 \<or> len \<ge> read_avail h x - offset then read_avail h x - offset else len"
      have k: "?k = min len (read_avail h x - offset)" using Cons.prems(4) False by auto
      define xs where "xs = take (nat (min len (read_avail h x - offset))) (drop (nat offset) (blk_bytes h x))"
      have cp: "copy_out (bdata (blks h x)) (int (bstart (blks h x)) + offset) ?k h = Some xs"
        unfolding k xs_def using Cons.prems(4) False by (intro copy_out_block [OF x(3) Cons.prems(3)]) auto
      note rg = range_Cons(2) [OF x(3) Cons.prems(3,4) _ xs_def, of bs]
      have pos: "0 < read_avail h x - offset" using False by simp
      have "0 \<le> len - int (length xs)" using rg [OF pos] Cons.prems(4) by simp
      from Cons.IH [OF x(4,5) _ this, of 0 "acc @ xs"]
      have "memcpy_loop h (next_blk h x) (len - int (length xs)) 0 (acc @ xs) =
        Some ((acc @ xs) @ take (nat (len - int (length xs))) (chain_bytes h bs))" by simp
      then show ?thesis unfolding conjunct1 [OF rg [OF pos]]
        using x(2) l False by (subst memcpy_loop.simps) (simp only: x(1) cp option.case, simp)
    qed
  qed
qed

lemma reader_memcpy_ok:
  assumes "heap_ok h" "reader_rep h r bs xs" "0 \<le> len" "0 \<le> offset"
  shows "reader_memcpy len offset h r = Some (take (nat len) (drop (nat offset) xs))"
  using memcpy_loop_ok [of h "rblock r" bs "offset + start_offset r" len "[]"] reader_chain_ok [OF assms(1,2)] assms(2-4)
  by (simp add: reader_memcpy_def reader_rep_def nat_add_distrib)

lemma find_char_shift: "find_char c xs i = map_option (\<lambda>p. p + i) (find_char c xs 0)"
proof (induction xs arbitrary: i)
  case (Cons x xs)
  show ?case using Cons [of "Suc i"] Cons [of "Suc 0"] by (auto simp: option.map_comp comp_def)
qed simp

lemma find_char_append:
  "find_char c (xs @ ys) 0 = (case find_char c xs 0 of Some p \<Rightarrow> Some p | None \<Rightarrow> map_option (\<lambda>p. length xs + p) (find_char c ys 0))"
proof (induction xs)
  case Nil
  then show ?case by (cases "find_char c ys 0") auto
next
  case (Cons x xs)
  then show ?case
    using find_char_shift [of c "xs @ ys" "Suc 0"] find_char_shift [of c xs "Suc 0"]
    by (cases "find_char c ys 0") (auto split: option.splits)
qed

definition char_pos :: "u8 \<Rightarrow> bytes \<Rightarrow> int \<Rightarrow> int" where
  "char_pos c xs from = (case find_char c xs 0 of Some p \<Rightarrow> from + int p | None \<Rightarrow> - 1)"

lemma memchr_loop_ok:
  "bchain h b bs \<Longrightarrow> (\<forall>c \<in> set bs. blk_ok h c) \<Longrightarrow> 0 \<le> offset \<Longrightarrow> 0 \<le> len \<Longrightarrow>
   memchr_loop h c so b len offset ps = Some (char_pos c (take (nat len) (drop (nat offset) (chain_bytes h bs))) (ps - so))"
proof (induction bs arbitrary: b len offset ps)
  case Nil
  then show ?case by (simp add: memchr_loop.simps char_pos_def)
next
  case (Cons x bs)
  have x: "b = x" "x \<noteq> 0" "blk_ok h x" "bchain h (next_blk h x) bs" "\<forall>c \<in> set bs. blk_ok h c" using Cons.prems by auto
  show ?case
  proof (cases "len = 0")
    case True
    then show ?thesis by (simp add: memchr_loop.simps char_pos_def)
  next
    case l: False
    show ?thesis
    proof (cases "read_avail h x - offset \<le> 0")
      case True
      have "0 \<le> - (read_avail h x - offset)" using True by simp
      from Cons.IH [OF x(4,5) this Cons.prems(4), of ps]
      show ?thesis unfolding range_Cons(1) [OF x(3) Cons.prems(3,4) True]
        using x(1,2) l True by (subst memchr_loop.simps) simp
    next
      case False
      let ?k = "if len < 0 \<or> len \<ge> read_avail h x - offset then read_avail h x - offset else len"
      have k: "?k = min len (read_avail h x - offset)" using Cons.prems(4) False by auto
      define xs where "xs = take (nat (min len (read_avail h x - offset))) (drop (nat offset) (blk_bytes h x))"
      have cp: "copy_out (bdata (blks h x)) (int (bstart (blks h x)) + offset) ?k h = Some xs"
        unfolding k xs_def using Cons.prems(4) False by (intro copy_out_block [OF x(3) Cons.prems(3)]) auto
      note rg = range_Cons(2) [OF x(3) Cons.prems(3,4) _ xs_def, of bs]
      have pos: "0 < read_avail h x - offset" using False by simp
      have "0 \<le> len - int (length xs)" using rg [OF pos] Cons.prems(4) by simp
      from Cons.IH [OF x(4,5) _ this, of 0 "ps + int (length xs)"]
      have ih: "memchr_loop h c so (next_blk h x) (len - int (length xs)) 0 (ps + int (length xs)) =
        Some (char_pos c (take (nat (len - int (length xs))) (chain_bytes h bs)) (ps + int (length xs) - so))" by simp
      show ?thesis unfolding conjunct1 [OF rg [OF pos]]
      proof (cases "find_char c xs 0")
        case None
        then have "memchr_loop h c so b len offset ps =
            memchr_loop h c so (next_blk h x) (len - int (length xs)) 0 (ps + int (length xs))"
          using x(2) l False by (subst memchr_loop.simps) (simp only: x(1) cp option.case, simp)
        then show "memchr_loop h c so b len offset ps =
            Some (char_pos c (xs @ take (nat (len - int (length xs))) (chain_bytes h bs)) (ps - so))"
          using ih None by (simp add: char_pos_def find_char_append split: option.splits)
      next
        case (Some p)
        then show "memchr_loop h c so b len offset ps =
            Some (char_pos c (xs @ take (nat (len - int (length xs))) (chain_bytes h bs)) (ps - so))"
          using x(2) l False
          by (subst memchr_loop.simps) (simp only: x(1) cp option.case, simp add: char_pos_def find_char_append)
      qed
    qed
  qed
qed

lemma reader_memchr_ok:
  assumes "heap_ok h" "reader_rep h r bs xs" "0 \<le> len" "0 \<le> offset"
  shows "reader_memchr c len offset h r = Some (char_pos c (take (nat len) (drop (nat offset) xs)) offset)"
  using memchr_loop_ok [of h "rblock r" bs "offset + start_offset r" len c "start_offset r"] reader_chain_ok [OF assms(1,2)] assms(2-4)
  by (simp add: reader_memchr_def reader_rep_def nat_add_distrib Let_def)

end
