(* ===== verification/IOBufferWrite.thy ===== *)
theory IOBufferWrite
  imports IOBufferRead
begin

text \<open>
  Writing into the buffers, by copy and by reference: the bytes are appended to what every reader
  of the buffer sees, blocks outside the rest of the writer's chain keep their bytes (though data
  areas are shared), and the heap stays well formed.
\<close>

section \<open>Writing\<close>

definition same_off :: "nat set \<Rightarrow> ioheap \<Rightarrow> ioheap \<Rightarrow> bool" where
  "same_off S h h' \<longleftrightarrow> btop h \<le> btop h' \<and>
     (\<forall>b. b \<notin> S \<and> 0 < b \<and> b < btop h \<longrightarrow> blks h' b = blks h b \<and> blk_bytes h' b = blk_bytes h b)"

lemma same_offD: "same_off S h h' \<Longrightarrow> b \<notin> S \<Longrightarrow> 0 < b \<Longrightarrow> b < btop h \<Longrightarrow> blks h' b = blks h b \<and> blk_bytes h' b = blk_bytes h b"
  by (simp add: same_off_def)

lemma same_off_trans:
  assumes "same_off S h h1" "same_off T h1 h2" "T \<inter> {0<..<btop h} \<subseteq> S"
  shows "same_off S h h2"
  unfolding same_off_def
proof (intro conjI allI impI)
  show "btop h \<le> btop h2" using assms by (simp add: same_off_def)
  fix b assume b: "b \<notin> S \<and> 0 < b \<and> b < btop h"
  then have "b \<notin> T" "b < btop h1" using assms by (auto simp: same_off_def)
  then show "blks h2 b = blks h b" "blk_bytes h2 b = blk_bytes h b"
    using same_offD [OF assms(1)] same_offD [OF assms(2)] b by simp_all
qed

lemma same_off_mono: "same_off S h h' \<Longrightarrow> S \<subseteq> T \<Longrightarrow> same_off T h h'"
  by (auto simp: same_off_def)

lemma same_off_refl: "same_off S h h"
  by (simp add: same_off_def)

lemma same_off_chain:
  assumes "same_off S h h'" "set bs \<inter> S = {}" "\<forall>b \<in> set bs. 0 < b \<and> b < btop h"
  shows "bchain h' p bs = bchain h p bs" "chain_bytes h' bs = chain_bytes h bs" "solid h' bs = solid h bs"
proof -
  have b: "blks h' b = blks h b" "blk_bytes h' b = blk_bytes h b" if "b \<in> set bs" for b
    using same_offD [OF assms(1)] assms(2,3) that by (auto simp: disjoint_iff)
  show "bchain h' p bs = bchain h p bs" by (rule chain_cong) (simp add: b)
  show "chain_bytes h' bs = chain_bytes h bs" by (rule chain_bytes_cong) (simp add: b)
  have "\<And>x. x \<in> set (tl bs) \<Longrightarrow> x \<in> set bs" by (cases bs) auto
  then show "solid h' bs = solid h bs" using b(2) unfolding solid_def
    by (metis (no_types, opaque_lifting) UnCI set_append)
qed

text \<open>Filling the room of a block.\<close>

lemma fill_step:
  assumes h: "heap_ok h" and w: "0 < w" "w < btop h" and xs: "int (length xs) \<le> write_avail h w"
  shows "\<exists>h1. copy_in (bdata (blks h w)) (bend (blks h w)) xs h = Some h1 \<and> heap_ok (blk_fill (int (length xs)) w h1) \<and>
    same_off {w} h (blk_fill (int (length xs)) w h1) \<and> btop h1 = btop h \<and>
    blk_bytes (blk_fill (int (length xs)) w h1) w = blk_bytes h w @ xs \<and>
    blks (blk_fill (int (length xs)) w h1) w = (blks h w)\<lparr>bend := bend (blks h w) + length xs\<rparr>"
proof -
  let ?x = "blks h w" and ?d = "bdata (blks h w)"
  have okw: "blk_ok h w" by (rule heap_okD [OF h w])
  have room: "bend ?x + length xs \<le> bbend ?x" "bbend ?x \<le> length (datas h ?d)" "bstart ?x \<le> bend ?x"
    using xs okw by (auto simp: write_avail_def blk_ok_def)
  let ?m = "take (bend ?x) (datas h ?d) @ xs @ drop (bend ?x + length xs) (datas h ?d)"
  let ?h1 = "h\<lparr>datas := (datas h)(?d := ?m)\<rparr>"
  let ?h2 = "blk_fill (int (length xs)) w ?h1"
  have cp: "copy_in ?d (bend ?x) xs h = Some ?h1"
    using room store_all_fits [of "bend ?x" xs "datas h ?d"] by (simp add: copy_in_def)
  have lm: "length ?m = length (datas h ?d)" using room by simp
  have blks2: "blks ?h2 = (blks h)(w := ?x\<lparr>bend := bend ?x + length xs\<rparr>)"
    by (simp add: blk_fill_def nat_int_add)
  have d2: "datas ?h2 = (datas h)(?d := ?m)" "btop ?h2 = btop h" "dtop ?h2 = dtop h" by (simp_all add: blk_fill_def)
  have old: "?m ! i = datas h ?d ! i" if "i < bend ?x \<or> bbend ?x \<le> i" "i < length (datas h ?d)" for i
    using that room by (auto simp: nth_append)
  have new: "?m ! (bend ?x + i) = xs ! i" if "i < length xs" for i
    using that room by (auto simp: nth_append)
  have oth: "blk_bytes ?h2 b = blk_bytes h b" if b: "0 < b" "b < btop h" "b \<noteq> w" for b
  proof (cases "bdata (blks h b) = ?d")
    case True
    have okb: "blk_ok h b" by (rule heap_okD [OF h b(1,2)])
    have "apart h w b" using h w b by (simp add: heap_ok_def)
    then have ap: "{bend ?x..<bbend ?x} \<inter> {bstart (blks h b)..<bbend (blks h b)} = {}" using True by (simp add: apart_def)
    have "?m ! i = datas h ?d ! i" if i: "i \<in> {bstart (blks h b)..<bend (blks h b)}" for i
    proof (rule old)
      have "i \<in> {bstart (blks h b)..<bbend (blks h b)}" using i okb by (auto simp: blk_ok_def)
      then show "i < bend ?x \<or> bbend ?x \<le> i" using ap by (meson atLeastLessThan_iff disjoint_iff not_le)
      show "i < length (datas h ?d)" using i okb True by (auto simp: blk_ok_def)
    qed
    then show ?thesis using b(3) True unfolding blk_bytes_def blks2 d2 by simp
  next
    case False
    then show ?thesis using b(3) unfolding blk_bytes_def blks2 d2 by simp
  qed
  have bw: "blk_bytes ?h2 w = blk_bytes h w @ xs"
  proof -
    have "map (\<lambda>i. ?m ! i) [bstart ?x..<bend ?x] = map (\<lambda>i. datas h ?d ! i) [bstart ?x..<bend ?x]"
      using old room by (intro map_cong refl) auto
    moreover have "map (\<lambda>i. ?m ! i) [bend ?x..<bend ?x + length xs] = xs"
      by (rule nth_equalityI) (use new in auto)
    moreover have "[bstart ?x..<bend ?x + length xs] = [bstart ?x..<bend ?x] @ [bend ?x..<bend ?x + length xs]"
      using room(3) by (rule upt_add_eq_append)
    ultimately show ?thesis unfolding blk_bytes_def blks2 d2 by simp
  qed
  have "heap_ok ?h2"
    unfolding heap_ok_def
  proof (intro conjI allI impI)
    show "0 < btop ?h2" using h d2 by (simp add: heap_ok_def)
    fix b assume b: "0 < b \<and> b < btop ?h2"
    then have b': "0 < b" "b < btop h" using d2 by simp_all
    show "blk_ok ?h2 b"
      using heap_okD(1) [OF h b'] room lm unfolding blk_ok_def blks2 d2 by auto
    show "next_blk ?h2 b < btop ?h2"
      using heap_okD(2) [OF h b'] unfolding blks2 d2 by auto
  next
    fix a b assume ab: "0 < a \<and> a < btop ?h2 \<and> 0 < b \<and> b < btop ?h2 \<and> a \<noteq> b"
    then have "apart h a b" using h d2 by (simp add: heap_ok_def)
    then show "apart ?h2 a b" using ab unfolding apart_def blks2 by auto
  qed
  moreover have "same_off {w} h ?h2" using oth d2 blks2 by (simp add: same_off_def)
  ultimately show ?thesis using cp bw blks2 by (intro exI [of _ ?h1]) simp
qed

lemma blk_alloc_new:
  assumes h: "heap_ok h" and n: "0 \<le> index_to_buffer_size i"
  defines "b \<equiv> btop h"
  shows "\<exists>h'. blk_alloc i b (fst (new_blk h)) = h' \<and> snd (new_blk h) = b \<and> heap_ok h' \<and> same_off {} h h' \<and>
    btop h' = Suc (btop h) \<and>
    blks h' b = \<lparr>bdata = dtop h, bstart = 0, bend = 0, bbend = nat (index_to_buffer_size i), bnext = 0\<rparr>"
proof -
  let ?n = "nat (index_to_buffer_size i)"
  let ?B = "\<lparr>bdata = dtop h, bstart = 0, bend = 0, bbend = ?n, bnext = 0\<rparr>"
  let ?h = "blk_alloc i b (fst (new_blk h))"
  have f: "blks ?h = (blks h)(b := ?B)" "datas ?h = (datas h)(dtop h := replicate ?n 0)" "dtop ?h = Suc (dtop h)"
    "btop ?h = Suc (btop h)"
    by (simp_all add: blk_alloc_def new_blk_def new_data_def blk_reset_def b_def fun_upd_def cong: if_cong)
  have d: "bdata (blks h c) < dtop h" if "0 < c" "c < btop h" for c
    using heap_okD(1) [OF h that] by (simp add: blk_ok_def)
  have cases_b: "c = b \<or> c < btop h" if "c < btop ?h" for c using that f(4) by (auto simp: b_def)
  have old: "blks ?h c = blks h c" "datas ?h (bdata (blks h c)) = datas h (bdata (blks h c))" if "0 < c" "c < btop h" for c
    using that d [OF that] f by (auto simp: b_def)
  have bB: "blks ?h b = ?B" using f by simp
  have "heap_ok ?h"
    unfolding heap_ok_def
  proof (intro conjI allI impI)
    show "0 < btop ?h" using f by simp
    fix c assume c: "0 < c \<and> c < btop ?h"
    then consider "c = b" | "0 < c" "c < btop h" using cases_b by blast
    then have "blk_ok ?h c \<and> next_blk ?h c < btop ?h"
    proof cases
      case 1
      then show ?thesis unfolding blk_ok_def 1 bB f(2,3,4) by simp
    next
      case 2
      then show ?thesis using heap_okD [OF h 2] f(3,4) unfolding blk_ok_def old [OF 2] by simp
    qed
    then show "blk_ok ?h c" "next_blk ?h c < btop ?h" by simp_all
  next
    fix a c assume ac: "0 < a \<and> a < btop ?h \<and> 0 < c \<and> c < btop ?h \<and> a \<noteq> c"
    then consider "a = b" "0 < c" "c < btop h" | "c = b" "0 < a" "a < btop h" | "0 < a" "a < btop h" "0 < c" "c < btop h"
      using cases_b by blast
    then show "apart ?h a c"
    proof cases
      case 1
      then show ?thesis using d [OF 1(2,3)] old(1) [OF 1(2,3)] unfolding apart_def 1(1) bB by simp
    next
      case 2
      then show ?thesis using d [OF 2(2,3)] old(1) [OF 2(2,3)] unfolding apart_def 2(1) bB by simp
    next
      case 3
      then have "apart h a c" using h ac by (simp add: heap_ok_def)
      then show ?thesis unfolding apart_def old(1) [OF 3(1,2)] old(1) [OF 3(3,4)] .
    qed
  qed
  moreover have "same_off {} h ?h" using old f(4) by (simp add: same_off_def blk_bytes_def)
  ultimately show ?thesis using f by (simp add: new_blk_def b_def)
qed

lemma link_step:
  assumes h: "heap_ok h" and w: "0 < w" "w < btop h" and b: "b < btop h"
  shows "heap_ok (upd_blk w (\<lambda>x. x\<lparr>bnext := b\<rparr>) h)" "same_off {w} h (upd_blk w (\<lambda>x. x\<lparr>bnext := b\<rparr>) h)"
    "blk_bytes (upd_blk w (\<lambda>x. x\<lparr>bnext := b\<rparr>) h) c = blk_bytes h c"
    "read_avail (upd_blk w (\<lambda>x. x\<lparr>bnext := b\<rparr>) h) c = read_avail h c"
    "write_avail (upd_blk w (\<lambda>x. x\<lparr>bnext := b\<rparr>) h) c = write_avail h c"
proof -
  let ?h = "upd_blk w (\<lambda>x. x\<lparr>bnext := b\<rparr>) h"
  have f: "bdata (blks ?h c) = bdata (blks h c)" "bstart (blks ?h c) = bstart (blks h c)" "bend (blks ?h c) = bend (blks h c)"
    "bbend (blks ?h c) = bbend (blks h c)" for c by simp_all
  have n: "next_blk ?h c = (if c = w then b else next_blk h c)" for c by simp
  have t: "btop ?h = btop h" "dtop ?h = dtop h" "datas ?h = datas h" by simp_all
  show "heap_ok ?h"
    using h b unfolding heap_ok_def blk_ok_def apart_def f n t by (auto split: if_splits)
  show bb: "blk_bytes ?h c = blk_bytes h c" for c unfolding blk_bytes_def f t by simp
  show "same_off {w} h ?h" unfolding same_off_def using bb by simp
  show "read_avail ?h c = read_avail h c" "write_avail ?h c = write_avail h c"
    unfolding read_avail_def write_avail_def f by simp_all
qed

lemma add_block_ok:
  assumes h: "heap_ok h" and w: "0 < writer m" "writer m < btop h" and n: "0 < index_to_buffer_size (size_index m)"
  shows "\<exists>h'. add_block h m = Some (h', m) \<and> heap_ok h' \<and> same_off {writer m} h h' \<and> btop h' = Suc (btop h) \<and>
    blks h' (writer m) = (blks h (writer m))\<lparr>bnext := btop h\<rparr> \<and> blk_bytes h' (writer m) = blk_bytes h (writer m) \<and>
    next_blk h' (btop h) = 0 \<and> blk_bytes h' (btop h) = [] \<and> 0 < write_avail h' (btop h)"
proof -
  let ?b = "btop h"
  obtain h1 where 1: "blk_alloc (size_index m) ?b (fst (new_blk h)) = h1" "heap_ok h1" "same_off {} h h1" "btop h1 = Suc ?b"
    "blks h1 ?b = \<lparr>bdata = dtop h, bstart = 0, bend = 0, bbend = nat (index_to_buffer_size (size_index m)), bnext = 0\<rparr>"
    using blk_alloc_new [OF h, of "size_index m"] n by auto
  let ?h = "upd_blk (writer m) (\<lambda>x. x\<lparr>bnext := ?b\<rparr>) h1"
  have w1: "writer m < btop h1" "?b < btop h1" using w 1(4) by simp_all
  note l = link_step [OF 1(2) w(1) w1]
  have old: "blks h1 (writer m) = blks h (writer m)" "blk_bytes h1 (writer m) = blk_bytes h (writer m)"
    using same_offD [OF 1(3) _ w] by simp_all
  have nb: "?b \<noteq> writer m" using w by simp
  have ra: "read_avail ?h ?b = 0" using 1(5) nb by (simp add: read_avail_def)
  have "last_filled ?h (writer m) ?b = Some (writer m)" using ra by (subst last_filled.simps) simp
  moreover have "skip_full ?h (writer m) = Some (writer m)" using ra by (subst skip_full.simps) simp
  ultimately have "append_block_internal ?b h1 m = Some (?h, m)"
    using w(1) by (simp add: append_block_internal_def Let_def)
  then have "add_block h m = Some (?h, m)"
    using 1(1) by (simp add: add_block_def append_block_index_def new_blk_def)
  moreover have "same_off {writer m} h ?h" by (rule same_off_trans [OF same_off_mono [OF 1(3)] l(2)]) auto
  moreover have "blks ?h ?b = blks h1 ?b" using nb by simp
  ultimately show ?thesis using l(1,3) 1(4,5) old n by (intro exI [of _ ?h]) (simp add: blk_bytes_def write_avail_def)
qed

definition tail_ok :: "ioheap \<Rightarrow> mio \<Rightarrow> nat list \<Rightarrow> bool" where
  "tail_ok h m em \<longleftrightarrow> 0 < writer m \<and> writer m < btop h \<and> bchain h (writer m) (writer m # em) \<and>
     (\<forall>e \<in> set em. blk_bytes h e = [] \<and> 0 < write_avail h e)"

text \<open>\<open>xs\<close> was appended behind the block \<open>w\<close>; the writer is \<open>w'\<close> now.\<close>

definition grown :: "ioheap \<Rightarrow> nat \<Rightarrow> nat list \<Rightarrow> bytes \<Rightarrow> ioheap \<Rightarrow> nat \<Rightarrow> nat list \<Rightarrow> bool" where
  "grown h w em xs h' w' em' \<longleftrightarrow> same_off (set (w # em)) h h' \<and>
     (\<exists>zs. bchain h' w (zs @ w' # em') \<and> set (zs @ w' # em') \<subseteq> set (w # em) \<union> {btop h..<btop h'} \<and>
        chain_bytes h' (zs @ w' # em') = blk_bytes h w @ xs \<and> (\<forall>z \<in> set (tl (zs @ [w'])). blk_bytes h' z \<noteq> []) \<and>
        (\<exists>ys. blk_bytes h' w = blk_bytes h w @ ys \<and> (xs \<noteq> [] \<longrightarrow> 0 < write_avail h w \<longrightarrow> ys \<noteq> [])))"

lemma tail_in_heap: "heap_ok h \<Longrightarrow> tail_ok h m em \<Longrightarrow> b \<in> set (writer m # em) \<Longrightarrow> 0 < b \<and> b < btop h \<and> blk_ok h b"
  unfolding tail_ok_def using chain_in_heap by blast

text \<open>Going on with the next block.\<close>

lemma grown_next:
  assumes h: "heap_ok h" and t: "tail_ok h m (e # em)" and g: "grown h e em xs h' w' em'" and xs: "xs \<noteq> []"
    and full: "write_avail h (writer m) = 0"
  shows "grown h (writer m) (e # em) xs h' w' em'"
proof -
  let ?w = "writer m"
  have ch: "bchain h ?w (?w # e # em)" and e: "blk_bytes h e = []" "0 < write_avail h e" using t by (simp_all add: tail_ok_def)
  have d: "?w \<notin> set (e # em)" using chain_distinct [OF ch] by simp
  obtain zs where z: "bchain h' e (zs @ w' # em')" "set (zs @ w' # em') \<subseteq> set (e # em) \<union> {btop h..<btop h'}"
    "chain_bytes h' (zs @ w' # em') = blk_bytes h e @ xs" "\<forall>z \<in> set (tl (zs @ [w'])). blk_bytes h' z \<noteq> []"
    "blk_bytes h' e \<noteq> []" using g xs e by (auto simp: grown_def)
  have so: "same_off (set (e # em)) h h'" using g by (simp add: grown_def)
  have w: "0 < ?w" "?w < btop h" using t by (simp_all add: tail_ok_def)
  have old: "blks h' ?w = blks h ?w" "blk_bytes h' ?w = blk_bytes h ?w" using same_offD [OF so d w] by simp_all
  have nx: "next_blk h ?w = e" using ch by simp
  have hd: "\<forall>z \<in> set (zs @ [w']). blk_bytes h' z \<noteq> []"
  proof (cases zs)
    case Nil
    then show ?thesis using z(1,5) by simp
  next
    case (Cons y ys)
    then have "y = e" using z(1) by simp
    then show ?thesis using z(4,5) Cons by simp
  qed
  have "bchain h' ?w ((?w # zs) @ w' # em')" using z(1) w old(1) nx by simp
  moreover have "set ((?w # zs) @ w' # em') \<subseteq> set (?w # e # em) \<union> {btop h..<btop h'}" using z(2) by auto
  moreover have "chain_bytes h' ((?w # zs) @ w' # em') = blk_bytes h ?w @ xs" using z(3) old(2) e(1) by simp
  moreover have "\<forall>z \<in> set (tl ((?w # zs) @ [w'])). blk_bytes h' z \<noteq> []" using hd by simp
  moreover have "same_off (set (?w # e # em)) h h'" using so by (rule same_off_mono) auto
  ultimately show ?thesis unfolding grown_def using full old(2)
    by (intro conjI exI [of _ "?w # zs"]) simp_all
qed

text \<open>A step on the writer's block (more bytes, another rest of the chain) before the others.\<close>

lemma grown_after:
  assumes so: "same_off {w} h h1" and b: "blk_bytes h1 w = blk_bytes h w @ ys" "ys = [] \<longrightarrow> write_avail h w = 0"
    and em1: "set em1 \<subseteq> set em \<union> {btop h..<btop h1}"
    and g: "grown h1 w em1 xs h' w' em'"
  shows "grown h w em (ys @ xs) h' w' em'"
proof -
  obtain zs vs where z: "bchain h' w (zs @ w' # em')" "set (zs @ w' # em') \<subseteq> set (w # em1) \<union> {btop h1..<btop h'}"
    "chain_bytes h' (zs @ w' # em') = blk_bytes h1 w @ xs" "\<forall>z \<in> set (tl (zs @ [w'])). blk_bytes h' z \<noteq> []"
    "blk_bytes h' w = blk_bytes h1 w @ vs" and so': "same_off (set (w # em1)) h1 h'" using g by (auto simp: grown_def)
  have top: "btop h \<le> btop h1" "btop h1 \<le> btop h'" using so so' by (simp_all add: same_off_def)
  have "same_off (set (w # em)) h h1" using so by (rule same_off_mono) simp
  moreover have "set (w # em1) \<inter> {0<..<btop h} \<subseteq> set (w # em)" using em1 by auto
  ultimately have "same_off (set (w # em)) h h'" using so' same_off_trans by blast
  moreover have "set (zs @ w' # em') \<subseteq> set (w # em) \<union> {btop h..<btop h'}" using z(2) em1 top by fastforce
  ultimately show ?thesis unfolding grown_def using z(1,3,4,5) b
    by (intro conjI exI [of _ zs] exI [of _ "ys @ vs"]) auto
qed

text \<open>The two cases of an iteration of \<open>write\<close>.\<close>

lemma mio_write_full:
  assumes "xs \<noteq> []" "writer m \<noteq> 0" "write_avail h (writer m) = 0"
  shows "mio_write xs h m =
    (case (if next_blk h (writer m) = 0 then add_block h m else Some (h, m\<lparr>writer := next_blk h (writer m)\<rparr>)) of
       None \<Rightarrow> None | Some (h3, m3) \<Rightarrow> mio_write xs h3 m3)"
  using assms by (subst mio_write.simps) (simp split: option.split)

lemma mio_write_room:
  assumes h: "heap_ok h" and w: "0 < writer m" "writer m < btop h" and r: "0 < write_avail h (writer m)" and xs: "xs \<noteq> []"
    and f: "f = min (nat (write_avail h (writer m))) (length xs)"
  shows "\<exists>h2. mio_write xs h m = mio_write (drop f xs) h2 m \<and> heap_ok h2 \<and> same_off {writer m} h h2 \<and> btop h2 = btop h \<and>
    blk_bytes h2 (writer m) = blk_bytes h (writer m) @ take f xs \<and>
    blks h2 (writer m) = (blks h (writer m))\<lparr>bend := bend (blks h (writer m)) + f\<rparr>"
proof -
  let ?w = "writer m"
  have k: "min (write_avail h ?w) (int (length xs)) = int f" using f r by auto
  have f0: "0 < f" using f r xs by simp
  have lt: "length (take f xs) = f" using f by simp
  have fr: "int f \<le> write_avail h ?w" using f r by auto
  obtain h1 where 1: "copy_in (bdata (blks h ?w)) (bend (blks h ?w)) (take f xs) h = Some h1" "heap_ok (blk_fill (int f) ?w h1)"
    "same_off {?w} h (blk_fill (int f) ?w h1)" "btop h1 = btop h"
    "blk_bytes (blk_fill (int f) ?w h1) ?w = blk_bytes h ?w @ take f xs"
    "blks (blk_fill (int f) ?w h1) ?w = (blks h ?w)\<lparr>bend := bend (blks h ?w) + f\<rparr>"
    using fill_step [OF h w, of "take f xs", unfolded lt, OF fr] by (elim exE conjE) (rule that)
  let ?h2 = "blk_fill (int f) ?w h1"
  have step: "mio_write xs h m =
    (if drop f xs = [] then Some (?h2, m)
     else (case (if next_blk ?h2 ?w = 0 then add_block ?h2 m else Some (?h2, m\<lparr>writer := next_blk ?h2 ?w\<rparr>)) of
             None \<Rightarrow> None | Some (h3, m3) \<Rightarrow> mio_write (drop f xs) h3 m3))"
    using w xs f0 r 1(1) by (subst mio_write.simps) (simp add: k del: drop_eq_Nil cong: option.case_cong)
  have "mio_write xs h m = mio_write (drop f xs) ?h2 m"
  proof (cases "drop f xs = []")
    case True
    then show ?thesis using step by (simp add: mio_write.simps)
  next
    case False
    then have "f < length xs" by simp
    then have "f = nat (write_avail h ?w)" using f by simp
    then have "write_avail ?h2 ?w = 0" using 1(6) r unfolding write_avail_def by simp
    from mio_write_full [OF False _ this] show ?thesis using step False w by simp
  qed
  moreover have "btop ?h2 = btop h" using 1(4) by (simp add: blk_fill_def)
  ultimately show ?thesis using 1 by blast
qed

text \<open>Writing finishes, and appends the bytes.\<close>

definition room_class :: "ioheap \<Rightarrow> mio \<Rightarrow> nat list \<Rightarrow> nat" where
  "room_class h m em = (if 0 < write_avail h (writer m) then 0 else if em \<noteq> [] then 1 else 2)"

lemma write_avail_nonneg: "blk_ok h b \<Longrightarrow> 0 \<le> write_avail h b"
  by (simp add: blk_ok_def write_avail_def)

lemma mio_write_grown:
  assumes n: "0 < index_to_buffer_size (size_index m0)"
  shows "heap_ok h \<Longrightarrow> tail_ok h m em \<Longrightarrow> size_index m = size_index m0 \<Longrightarrow> readers m = readers m0 \<Longrightarrow>
    \<exists>h' m' em'. mio_write xs h m = Some (h', m') \<and> heap_ok h' \<and> tail_ok h' m' em' \<and> size_index m' = size_index m0 \<and>
      readers m' = readers m0 \<and> water_mark m' = water_mark m \<and> grown h (writer m) em xs h' (writer m') em'"
proof (induction "3 * length xs + room_class h m em" arbitrary: xs h m em rule: less_induct)
  case less
  note h = less.prems(1) and t = less.prems(2) and sz = less.prems(3) and rd = less.prems(4)
  let ?w = "writer m"
  have w: "0 < ?w" "?w < btop h" using t by (simp_all add: tail_ok_def)
  have ch: "bchain h ?w (?w # em)" and em: "\<And>e. e \<in> set em \<Longrightarrow> blk_bytes h e = [] \<and> 0 < write_avail h e"
    using t by (simp_all add: tail_ok_def)
  show ?case
  proof (cases "xs = []")
    case True
    have "chain_bytes h em = []" using em by (simp add: chain_bytes_empty)
    then have "grown h ?w em [] h ?w em" unfolding grown_def using ch
      by (intro conjI exI [of _ "[]"] same_off_refl) auto
    then show ?thesis using True h t sz rd by (intro exI [of _ h] exI [of _ m] exI [of _ em]) (simp add: mio_write.simps)
  next
    case ne: False
    show ?thesis
    proof (cases "0 < write_avail h ?w")
      case room: True
      define f where "f = min (nat (write_avail h ?w)) (length xs)"
      have f0: "0 < f" "f \<le> length xs" using room ne by (auto simp: f_def)
      obtain h2 where 2: "mio_write xs h m = mio_write (drop f xs) h2 m" "heap_ok h2" "same_off {?w} h h2" "btop h2 = btop h"
        "blk_bytes h2 ?w = blk_bytes h ?w @ take f xs" "blks h2 ?w = (blks h ?w)\<lparr>bend := bend (blks h ?w) + f\<rparr>"
        using mio_write_room [OF h w room ne f_def] by (elim exE conjE) (rule that)
      have nw: "?w \<notin> set em" using chain_distinct [OF ch] by simp
      have eq: "blks h2 e = blks h e" "blk_bytes h2 e = blk_bytes h e" if "e \<in> set em" for e
        using same_offD [OF 2(3), of e] tail_in_heap [OF h t, of e] that nw by auto
      have "bchain h2 ?w (?w # em) = bchain h ?w (?w # em)" by (rule chain_cong) (use eq 2(6) in auto)
      then have t2: "tail_ok h2 m em" using ch w em eq 2(4) by (simp add: tail_ok_def write_avail_def)
      have "3 * length (drop f xs) + room_class h2 m em < 3 * length xs + room_class h m em"
        using f0 room by (auto simp: room_class_def)
      from less.hyps [OF this 2(2) t2 sz rd] obtain h' m' em' where
        3: "mio_write (drop f xs) h2 m = Some (h', m')" "heap_ok h'" "tail_ok h' m' em'" "size_index m' = size_index m0"
          "readers m' = readers m0" "water_mark m' = water_mark m" "grown h2 ?w em (drop f xs) h' (writer m') em'"
        by (elim exE conjE) (rule that)
      have "grown h ?w em (take f xs @ drop f xs) h' (writer m') em'"
        using f0 ne by (intro grown_after [OF 2(3,5) _ _ 3(7)]) auto
      then show ?thesis using 2(1) 3 by auto
    next
      case full: False
      then have av: "write_avail h ?w = 0" using write_avail_nonneg tail_in_heap [OF h t, of ?w] by force
      note step = mio_write_full [OF ne _ av]
      show ?thesis
      proof (cases em)
        case (Cons e em2)
        have nx: "next_blk h ?w = e" "e \<noteq> 0" "e < btop h" using ch Cons tail_in_heap [OF h t, of e] by auto
        let ?m = "m\<lparr>writer := e\<rparr>"
        have t2: "tail_ok h ?m em2" using ch em nx Cons by (simp add: tail_ok_def)
        have "3 * length xs + room_class h ?m em2 < 3 * length xs + room_class h m em"
          using av Cons em [of e] by (simp add: room_class_def)
        from less.hyps [OF this h t2] sz rd obtain h' m' em' where
          3: "mio_write xs h ?m = Some (h', m')" "heap_ok h'" "tail_ok h' m' em'" "size_index m' = size_index m0"
            "readers m' = readers m0" "water_mark m' = water_mark m" "grown h e em2 xs h' (writer m') em'" by auto
        have "grown h ?w em xs h' (writer m') em'"
          using grown_next [OF h _ 3(7) ne av] t Cons by simp
        then show ?thesis using step w nx 3 by auto
      next
        case Nil
        then have nx: "next_blk h ?w = 0" using ch by simp
        have "0 < index_to_buffer_size (size_index m)" using n sz by simp
        from add_block_ok [OF h w this] obtain h2 where
          2: "add_block h m = Some (h2, m)" "heap_ok h2" "same_off {?w} h h2" "btop h2 = Suc (btop h)"
            "blks h2 ?w = (blks h ?w)\<lparr>bnext := btop h\<rparr>" "blk_bytes h2 ?w = blk_bytes h ?w"
            "next_blk h2 (btop h) = 0" "blk_bytes h2 (btop h) = []" "0 < write_avail h2 (btop h)"
          by (elim exE conjE) (rule that)
        have t2: "tail_ok h2 m [btop h]" using 2 w by (simp add: tail_ok_def)
        have "write_avail h2 ?w = 0" using av 2(5) by (simp add: write_avail_def)
        then have "3 * length xs + room_class h2 m [btop h] < 3 * length xs + room_class h m em"
          using av Nil by (simp add: room_class_def)
        from less.hyps [OF this 2(2) t2 sz rd] obtain h' m' em' where
          3: "mio_write xs h2 m = Some (h', m')" "heap_ok h'" "tail_ok h' m' em'" "size_index m' = size_index m0"
            "readers m' = readers m0" "water_mark m' = water_mark m" "grown h2 ?w [btop h] xs h' (writer m') em'"
          by (elim exE conjE) (rule that)
        have "grown h ?w em ([] @ xs) h' (writer m') em'"
          using 2(4,6) av by (intro grown_after [OF 2(3) _ _ _ 3(7)]) auto
        then show ?thesis using step w nx 2(1) 3 by auto
      qed
    qed
  qed
qed

section \<open>Writing by reference\<close>

text \<open>A clone of a part of a block shares its bytes and has no room.\<close>

definition ref_blk :: "nat \<Rightarrow> int \<Rightarrow> int \<Rightarrow> ioheap \<Rightarrow> ioheap" where
  "ref_blk b offset k h =
     upd_blk (btop h) (\<lambda>x. x\<lparr>bstart := nat (int (bstart x) + offset), bend := nat (int (bstart x) + offset + k),
        bbend := nat (int (bstart x) + offset + k)\<rparr>) (fst (blk_clone b h))"

lemma ref_blk_ok:
  assumes h: "heap_ok h" and b: "0 < b" "b < btop h" and o: "0 \<le> offset" "0 \<le> k" "offset + k \<le> read_avail h b"
  shows "heap_ok (ref_blk b offset k h)" "same_off {} h (ref_blk b offset k h)" "btop (ref_blk b offset k h) = Suc (btop h)"
    "next_blk (ref_blk b offset k h) (btop h) = 0"
    "blk_bytes (ref_blk b offset k h) (btop h) = take (nat k) (drop (nat offset) (blk_bytes h b))"
proof -
  let ?c = "btop h" and ?h = "ref_blk b offset k h" and ?x = "blks h b"
  let ?C = "\<lparr>bdata = bdata ?x, bstart = bstart ?x + nat offset, bend = bstart ?x + nat offset + nat k,
             bbend = bstart ?x + nat offset + nat k, bnext = 0\<rparr>"
  have okb: "blk_ok h b" by (rule heap_okD [OF h b])
  have le: "bstart ?x + nat offset + nat k \<le> bend ?x" "bend ?x \<le> bbend ?x" "bbend ?x \<le> length (datas h (bdata ?x))" "bdata ?x < dtop h"
    using okb o by (auto simp: blk_ok_def read_avail_def)
  have nb: "b \<noteq> ?c" using b by simp
  have e: "nat (int (bstart ?x) + offset) = bstart ?x + nat offset"
    "nat (int (bstart ?x) + offset + k) = bstart ?x + nat offset + nat k" using o by auto
  have f: "blks ?h = (blks h)(?c := ?C)" "datas ?h = datas h" "dtop ?h = dtop h" "btop ?h = Suc ?c"
    using nb e by (simp_all add: ref_blk_def blk_clone_def new_blk_def)
  show "btop ?h = Suc (btop h)" "next_blk ?h (btop h) = 0" using f by simp_all
  have old: "blks ?h a = blks h a" if "a < btop h" for a using that f(1) by simp
  have new: "blks ?h ?c = ?C" using f(1) by simp
  have cs: "a = ?c \<or> a < btop h" if "a < btop ?h" for a using that f(4) by auto
  show "same_off {} h ?h" using f by (simp add: same_off_def blk_bytes_def)
  show "heap_ok ?h"
    unfolding heap_ok_def
  proof (intro conjI allI impI)
    show "0 < btop ?h" using f by simp
    fix a assume a: "0 < a \<and> a < btop ?h"
    have "blk_ok ?h a \<and> next_blk ?h a < btop ?h"
    proof (cases "a = ?c")
      case True
      then show ?thesis using le f(2,3,4) new unfolding blk_ok_def by simp
    next
      case False
      then have a': "0 < a" "a < btop h" using a cs by blast+
      then show ?thesis using heap_okD [OF h a'] f(2,3,4) unfolding blk_ok_def old [OF a'(2)] by simp
    qed
    then show "blk_ok ?h a" "next_blk ?h a < btop ?h" by simp_all
  next
    fix a d assume ad: "0 < a \<and> a < btop ?h \<and> 0 < d \<and> d < btop ?h \<and> a \<noteq> d"
    show "apart ?h a d"
    proof (cases "a = ?c")
      case True
      then show ?thesis unfolding apart_def True new by simp
    next
      case False
      then have a': "0 < a" "a < btop h" using ad cs by blast+
      show ?thesis
      proof (cases "d = ?c")
        case d: True
        have "bdata (blks h a) = bdata ?x \<longrightarrow>
          {bend (blks h a)..<bbend (blks h a)} \<inter> {bstart ?x + nat offset..<bstart ?x + nat offset + nat k} = {}"
        proof (cases "a = b")
          case True
          then show ?thesis using le by auto
        next
          case False
          then have "apart h a b" using h a' b by (simp add: heap_ok_def)
          moreover have "{bstart ?x + nat offset..<bstart ?x + nat offset + nat k} \<subseteq> {bstart ?x..<bbend ?x}" using le by auto
          ultimately show ?thesis unfolding apart_def by blast
        qed
        then show ?thesis unfolding apart_def d new old [OF a'(2)] by simp
      next
        case d: False
        then have d': "0 < d" "d < btop h" using ad cs by blast+
        have "apart h a d" using h a' d' ad by (simp add: heap_ok_def)
        then show ?thesis unfolding apart_def old [OF a'(2)] old [OF d'(2)] .
      qed
    qed
  qed
  have "[bstart ?x + nat offset..<bstart ?x + nat offset + nat k] = take (nat k) (drop (nat offset) [bstart ?x..<bend ?x])"
    using le by (simp add: drop_upt take_upt)
  then show "blk_bytes ?h (btop h) = take (nat k) (drop (nat offset) (blk_bytes h b))"
    unfolding blk_bytes_def new f(2) by (simp add: take_map drop_map)
qed

definition extended :: "ioheap \<Rightarrow> nat \<Rightarrow> nat list \<Rightarrow> bytes \<Rightarrow> ioheap \<Rightarrow> nat \<Rightarrow> nat list \<Rightarrow> bool" where
  "extended h w em xs h' w' em' \<longleftrightarrow> same_off (set (w # em)) h h' \<and>
     (\<exists>zs. bchain h' w (zs @ w' # em') \<and> set (zs @ w' # em') \<subseteq> set (w # em) \<union> {btop h..<btop h'} \<and>
        chain_bytes h' (zs @ w' # em') = blk_bytes h w @ xs \<and> (\<forall>z \<in> set (tl (zs @ [w'])). blk_bytes h' z \<noteq> []) \<and>
        (\<exists>ys. blk_bytes h' w = blk_bytes h w @ ys))"

lemma grown_extended: "grown h w em xs h' w' em' \<Longrightarrow> extended h w em xs h' w' em'"
  unfolding grown_def extended_def by blast

lemma chain_replace:
  "chain nx p (pre @ w # em) \<Longrightarrow> (\<And>b. b \<in> set pre \<Longrightarrow> nx' b = nx b) \<Longrightarrow> chain nx' w (w # em') \<Longrightarrow>
   chain nx' p (pre @ w # em')"
  by (induction pre arbitrary: p) auto

lemma chain_start: "chain nx p (zs @ w # em) \<Longrightarrow> chain nx w (w # em)"
  by (rule chain_suffix)

lemma extended_trans:
  assumes t: "\<And>b. b \<in> set (w # em) \<Longrightarrow> 0 < b \<and> b < btop h" and g1: "extended h w em xs h1 w1 em1"
    and g2: "extended h1 w1 em1 ys h2 w2 em2" and em1: "\<forall>e \<in> set em1. blk_bytes h1 e = []"
  shows "extended h w em (xs @ ys) h2 w2 em2"
proof -
  obtain zs us where z: "bchain h1 w (zs @ w1 # em1)" "set (zs @ w1 # em1) \<subseteq> set (w # em) \<union> {btop h..<btop h1}"
    "chain_bytes h1 (zs @ w1 # em1) = blk_bytes h w @ xs" "\<forall>z \<in> set (tl (zs @ [w1])). blk_bytes h1 z \<noteq> []"
    "blk_bytes h1 w = blk_bytes h w @ us" and so: "same_off (set (w # em)) h h1" using g1 by (auto simp: extended_def)
  obtain vs us' where v: "bchain h2 w1 (vs @ w2 # em2)" "set (vs @ w2 # em2) \<subseteq> set (w1 # em1) \<union> {btop h1..<btop h2}"
    "chain_bytes h2 (vs @ w2 # em2) = blk_bytes h1 w1 @ ys" "\<forall>z \<in> set (tl (vs @ [w2])). blk_bytes h2 z \<noteq> []"
    "blk_bytes h2 w1 = blk_bytes h1 w1 @ us'" and so': "same_off (set (w1 # em1)) h1 h2" using g2 by (auto simp: extended_def)
  have top: "btop h \<le> btop h1" "btop h1 \<le> btop h2" using so so' by (simp_all add: same_off_def)
  have dis: "set zs \<inter> set (w1 # em1) = {}" using chain_distinct [OF z(1)] by auto
  have inh: "0 < b \<and> b < btop h1" if "b \<in> set zs" for b
  proof -
    have "b \<in> set (w # em) \<union> {btop h..<btop h1}" using z(2) that by auto
    moreover have "b \<noteq> 0" using chain_nonzero [OF z(1)] that by (metis UnI1 set_append)
    ultimately show ?thesis using t [of b] top(1) by (cases "b \<in> set (w # em)") auto
  qed
  have keep: "blks h2 b = blks h1 b" "blk_bytes h2 b = blk_bytes h1 b" if "b \<in> set zs" for b
  proof -
    have "b \<notin> set (w1 # em1)" using dis that by (metis disjoint_iff)
    from same_offD [OF so' this] inh [OF that] show "blks h2 b = blks h1 b" "blk_bytes h2 b = blk_bytes h1 b" by simp_all
  qed
  have "set (w1 # em1) \<inter> {0<..<btop h} \<subseteq> set (w # em)" using z(2) by auto
  then have S: "same_off (set (w # em)) h h2" by (rule same_off_trans [OF so so'])
  obtain T where v1: "vs @ w2 # em2 = w1 # T" using v(1) by (cases vs) auto
  have C: "bchain h2 w ((zs @ vs) @ w2 # em2)"
  proof -
    have "bchain h2 w1 (w1 # T)" using v(1) unfolding v1 .
    then have "bchain h2 w (zs @ w1 # T)"
      using keep(1) by (intro chain_replace [OF z(1)]) simp_all
    then show ?thesis unfolding append_assoc v1 .
  qed
  have Sub: "set ((zs @ vs) @ w2 # em2) \<subseteq> set (w # em) \<union> {btop h..<btop h2}"
    using z(2) v(2) top by fastforce
  have "chain_bytes h1 em1 = []" using em1 by (rule chain_bytes_empty)
  moreover have "chain_bytes h2 zs = chain_bytes h1 zs" using keep(2) by (rule chain_bytes_cong)
  ultimately have B: "chain_bytes h2 ((zs @ vs) @ w2 # em2) = blk_bytes h w @ xs @ ys"
    using z(3) v(3) by simp
  have N: "\<forall>b \<in> set (tl ((zs @ vs) @ [w2])). blk_bytes h2 b \<noteq> []"
  proof (cases zs)
    case Nil
    then show ?thesis using v(4) by simp
  next
    case (Cons y zs')
    have "blk_bytes h1 w1 \<noteq> []" using z(4) Cons by simp
    then have "blk_bytes h2 w1 \<noteq> []" using v(5) by simp
    then have "\<forall>b \<in> set (vs @ [w2]). blk_bytes h2 b \<noteq> []"
    proof (cases vs)
      case Nil
      then have "w2 = w1" using v1 by simp
      then show ?thesis using Nil \<open>blk_bytes h2 w1 \<noteq> []\<close> by simp
    next
      case (Cons u us)
      then have "u = w1" using v1 by simp
      then show ?thesis using Cons v(4) \<open>blk_bytes h2 w1 \<noteq> []\<close> by simp
    qed
    moreover have "\<forall>b \<in> set zs'. blk_bytes h2 b \<noteq> []" using z(4) keep(2) Cons by simp
    ultimately show ?thesis using Cons by auto
  qed
  have P: "\<exists>us. blk_bytes h2 w = blk_bytes h w @ us"
  proof (cases zs)
    case Nil
    then have "w1 = w" using z(1) by simp
    then show ?thesis using v(5) z(5) by simp
  next
    case (Cons y zs')
    then have "y = w" using z(1) by simp
    then show ?thesis using keep(2) [of w] z(5) Cons by simp
  qed
  show ?thesis unfolding extended_def using S C Sub B N P by blast
qed

lemma extended_refl:
  assumes "tail_ok h m em"
  shows "extended h (writer m) em [] h (writer m) em"
proof -
  have "chain_bytes h em = []" using assms by (simp add: tail_ok_def chain_bytes_empty)
  then show ?thesis unfolding extended_def using assms
    by (intro conjI exI [of _ "[]"] same_off_refl) (auto simp: tail_ok_def)
qed

text \<open>Appending a block that has bytes.\<close>

lemma append_ref_ok:
  assumes h: "heap_ok h" and t: "tail_ok h m em" and b: "0 < b" "b < btop h" "b \<notin> set (writer m # em)"
    and o: "0 \<le> offset" "0 < k" "offset + k \<le> read_avail h b"
  shows "\<exists>h'. append_block_internal (btop h) (ref_blk b offset k h) m = Some (h', m\<lparr>writer := btop h\<rparr>) \<and> heap_ok h' \<and>
    tail_ok h' (m\<lparr>writer := btop h\<rparr>) [] \<and>
    extended h (writer m) em (take (nat k) (drop (nat offset) (blk_bytes h b))) h' (btop h) []"
proof -
  let ?c = "btop h" and ?w = "writer m" and ?h1 = "ref_blk b offset k h"
  have k0: "0 \<le> k" using o by simp
  note r = ref_blk_ok [OF h b(1,2) o(1) k0 o(3)]
  have w: "0 < ?w" "?w < btop h" using t by (simp_all add: tail_ok_def)
  have w1: "?w < btop ?h1" "?c < btop ?h1" using w r(3) by simp_all
  let ?h2 = "upd_blk ?w (\<lambda>x. x\<lparr>bnext := ?c\<rparr>) ?h1"
  note l = link_step [OF r(1) w(1) w1]
  have ne: "blk_bytes ?h2 ?c \<noteq> []"
  proof -
    have "int (length (blk_bytes h b)) = read_avail h b" by (rule length_blk_bytes [OF heap_okD(1) [OF h b(1,2)]])
    then have "length (take (nat k) (drop (nat offset) (blk_bytes h b))) \<noteq> 0" using o by simp
    then show ?thesis unfolding l(3) r(5) by (metis list.size(3))
  qed
  have nw: "?c \<noteq> ?w" using w by simp
  have nx: "next_blk ?h2 ?c = 0" "next_blk ?h2 ?w = ?c" using r(4) nw by simp_all
  have c0: "0 < ?c" "?c < btop ?h2" using h r(3) by (simp_all add: heap_ok_def)
  have "read_avail ?h2 ?c \<noteq> 0" using ne read_avail_zero [OF heap_okD(1) [OF l(1) c0]] by simp
  then have "last_filled ?h2 ?w ?c = Some ?c" using nx(1) by (subst last_filled.simps) simp
  moreover have "skip_full ?h2 ?c = Some ?c" using nx(1) by (subst skip_full.simps) simp
  ultimately have ap: "append_block_internal ?c ?h1 m = Some (?h2, m\<lparr>writer := ?c\<rparr>)"
    using w(1) by (simp add: append_block_internal_def Let_def)
  have so: "same_off {?w} h ?h2" by (rule same_off_trans [OF same_off_mono [OF r(2)] l(2)]) auto
  have bw: "blk_bytes ?h2 ?w = blk_bytes h ?w" using l(3) same_offD [OF r(2) _ w] by simp
  have ch: "bchain ?h2 ?w ([?w] @ ?c # [])" using w(1) c0(1) nx by simp
  have "extended h ?w em (take (nat k) (drop (nat offset) (blk_bytes h b))) ?h2 ?c []"
    unfolding extended_def
  proof (intro conjI exI [of _ "[?w]"])
    show "same_off (set (?w # em)) h ?h2" using so by (rule same_off_mono) simp
    show "bchain ?h2 ?w ([?w] @ ?c # [])" by (rule ch)
    show "set ([?w] @ [?c]) \<subseteq> set (?w # em) \<union> {btop h..<btop ?h2}" using c0 by auto
    show "chain_bytes ?h2 ([?w] @ [?c]) = blk_bytes h ?w @ take (nat k) (drop (nat offset) (blk_bytes h b))"
      using bw l(3) r(5) by simp
    show "\<forall>z \<in> set (tl ([?w] @ [?c])). blk_bytes ?h2 z \<noteq> []" using ne by simp
    show "\<exists>ys. blk_bytes ?h2 ?w = blk_bytes h ?w @ ys" using bw by simp
  qed
  moreover have "tail_ok ?h2 (m\<lparr>writer := ?c\<rparr>) []" using c0 nx(1) by (simp add: tail_ok_def)
  ultimately show ?thesis using ap l(1) by blast
qed

lemma write_ref_loop_step:
  assumes "b \<noteq> 0" "0 < len" "0 < read_avail h b - offset"
  shows "write_ref_loop b len offset h m =
    (case append_block_internal (btop h) (ref_blk b offset (min len (read_avail h b - offset)) h) m of
       None \<Rightarrow> None
     | Some (h2, m2) \<Rightarrow> write_ref_loop (next_blk h2 b) (len - min len (read_avail h b - offset)) 0 h2 m2)"
proof -
  obtain h1 where "blk_clone b h = (h1, btop h)" by (simp add: blk_clone_def new_blk_def)
  then show ?thesis using assms by (subst write_ref_loop.simps) (simp add: ref_blk_def)
qed

lemma write_ref_loop_ok:
  "heap_ok h \<Longrightarrow> tail_ok h m em \<Longrightarrow> bchain h b bs \<Longrightarrow> (\<forall>c \<in> set bs. 0 < c \<and> c < btop h) \<Longrightarrow>
   set bs \<inter> set (writer m # em) = {} \<Longrightarrow> 0 \<le> offset \<Longrightarrow> 0 \<le> len \<Longrightarrow>
   out = take (nat len) (drop (nat offset) (chain_bytes h bs)) \<Longrightarrow>
   \<exists>h' w' em'. write_ref_loop b len offset h m = Some (h', m\<lparr>writer := w'\<rparr>, len - int (length out)) \<and> heap_ok h' \<and>
     tail_ok h' (m\<lparr>writer := w'\<rparr>) em' \<and> extended h (writer m) em out h' w' em'"
proof (induction bs arbitrary: b h m em offset len out)
  case Nil
  then have "out = []" by simp
  then show ?case using Nil extended_refl [OF Nil(2)]
    by (intro exI [of _ h] exI [of _ "writer m"] exI [of _ em]) (simp add: write_ref_loop.simps)
next
  case (Cons x bs)
  note h = Cons.prems(1) and t = Cons.prems(2) and ch = Cons.prems(3) and inh = Cons.prems(4) and dis = Cons.prems(5)
    and off = Cons.prems(6) and len = Cons.prems(7) and out = Cons.prems(8)
  have x: "b = x" "0 < x" "x < btop h" "bchain h (next_blk h x) bs" using ch inh by auto
  have okx: "blk_ok h x" by (rule heap_okD [OF h x(2,3)])
  have inh': "\<forall>c \<in> set bs. 0 < c \<and> c < btop h" and dis': "set bs \<inter> set (writer m # em) = {}" using inh dis by auto
  show ?case
  proof (cases "len = 0")
    case True
    then have "out = []" using out by simp
    then show ?thesis using True h t extended_refl [OF t]
      by (intro exI [of _ h] exI [of _ "writer m"] exI [of _ em]) (simp add: write_ref_loop.simps)
  next
    case l: False
    show ?thesis
    proof (cases "read_avail h x - offset \<le> 0")
      case True
      have "0 \<le> - (read_avail h x - offset)" using True by simp
      note IH = Cons.IH [OF h t x(4) inh' dis' this len]
      have "out = take (nat len) (drop (nat (- (read_avail h x - offset))) (chain_bytes h bs))"
        unfolding out by (rule range_Cons(1) [OF okx off len True])
      from IH [OF this] obtain h' w' em' where
        1: "write_ref_loop (next_blk h x) len (- (read_avail h x - offset)) h m = Some (h', m\<lparr>writer := w'\<rparr>, len - int (length out))"
          "heap_ok h'" "tail_ok h' (m\<lparr>writer := w'\<rparr>) em'" "extended h (writer m) em out h' w' em'"
        by (elim exE conjE) (rule that)
      have "write_ref_loop b len offset h m = write_ref_loop (next_blk h x) len (- (read_avail h x - offset)) h m"
        using x(1,2) l len True by (subst write_ref_loop.simps) simp
      then show ?thesis using 1 by auto
    next
      case False
      let ?k = "min len (read_avail h x - offset)"
      define xs where "xs = take (nat ?k) (drop (nat offset) (blk_bytes h x))"
      have pos: "0 < read_avail h x - offset" using False by simp
      note rg = range_Cons(2) [OF okx off len pos xs_def, of bs]
      have k: "0 < ?k" "offset + ?k \<le> read_avail h x" "int (length xs) = ?k" using pos l len rg by auto
      have xd: "x \<notin> set (writer m # em)" using dis by auto
      obtain h1 where 1: "append_block_internal (btop h) (ref_blk x offset ?k h) m = Some (h1, m\<lparr>writer := btop h\<rparr>)" "heap_ok h1"
        "tail_ok h1 (m\<lparr>writer := btop h\<rparr>) []" "extended h (writer m) em xs h1 (btop h) []"
        using append_ref_ok [OF h t x(2,3) xd off k(1,2)] unfolding xs_def [symmetric] by (elim exE conjE) (rule that)
      have so: "same_off (set (writer m # em)) h h1" using 1(4) by (simp add: extended_def)
      have c: "bchain h1 p bs = bchain h p bs" "chain_bytes h1 bs = chain_bytes h bs" for p
        using same_off_chain [OF so dis' inh'] by auto
      have nx: "next_blk h1 x = next_blk h x" using same_offD [OF so xd x(2,3)] by simp
      have ch1: "bchain h1 (next_blk h1 x) bs" using x(4) nx c(1) by simp
      have inh1: "\<forall>c \<in> set bs. 0 < c \<and> c < btop h1" using inh' so by (force simp: same_off_def)
      have dis1: "set bs \<inter> set (writer (m\<lparr>writer := btop h\<rparr>) # []) = {}" using inh' by force
      have len1: "0 \<le> len - ?k" using len by simp
      note IH = Cons.IH [OF 1(2,3) ch1 inh1 dis1 order_refl len1]
      from IH [OF refl] obtain h' w' em' where
        2: "write_ref_loop (next_blk h1 x) (len - ?k) 0 h1 (m\<lparr>writer := btop h\<rparr>) =
             Some (h', m\<lparr>writer := btop h, writer := w'\<rparr>, len - ?k - int (length (take (nat (len - ?k)) (drop (nat 0) (chain_bytes h1 bs)))))"
          "heap_ok h'" "tail_ok h' (m\<lparr>writer := btop h, writer := w'\<rparr>) em'"
          "extended h1 (writer (m\<lparr>writer := btop h\<rparr>)) [] (take (nat (len - ?k)) (drop (nat 0) (chain_bytes h1 bs))) h' w' em'"
        by (elim exE conjE) (rule that)
      have out': "out = xs @ take (nat (len - ?k)) (drop (nat 0) (chain_bytes h1 bs))"
        using conjunct1 [OF rg] c(2) k(3) unfolding out by simp
      have "write_ref_loop b len offset h m = Some (h', m\<lparr>writer := w'\<rparr>, len - int (length out))"
        unfolding x(1) using write_ref_loop_step [of x len h offset m] x(2) l len pos 1(1) 2(1) k(3) out' by simp
      moreover have "extended h (writer m) em out h' w' em'"
        unfolding out' by (rule extended_trans [OF _ 1(4)]) (use 2(4) tail_in_heap [OF h t] in auto)
      ultimately show ?thesis using 2(2,3) by auto
    qed
  qed
qed

lemma mio_write_reader_ok:
  assumes h: "heap_ok h" and t: "tail_ok h m em" and rep: "reader_rep h r bs xs" and dis: "set bs \<inter> set (writer m # em) = {}"
    and n: "0 \<le> len" "0 \<le> offset"
  shows "\<exists>h' w' em'. mio_write_reader r len offset h m =
      Some (h', m\<lparr>writer := w'\<rparr>, int (length (take (nat len) (drop (nat offset) xs)))) \<and> heap_ok h' \<and>
    tail_ok h' (m\<lparr>writer := w'\<rparr>) em' \<and> extended h (writer m) em (take (nat len) (drop (nat offset) xs)) h' w' em'"
proof -
  have r: "bchain h (rblock r) bs" "0 \<le> start_offset r" "xs = drop (nat (start_offset r)) (chain_bytes h bs)" "rblock r < btop h"
    using rep by (simp_all add: reader_rep_def)
  have inh: "\<forall>c \<in> set bs. 0 < c \<and> c < btop h" using chain_in_heap [OF h r(1,4)] by blast
  have o: "0 \<le> offset + start_offset r" using n r(2) by simp
  have out: "take (nat len) (drop (nat offset) xs) = take (nat len) (drop (nat (offset + start_offset r)) (chain_bytes h bs))"
    using n r(2,3) by (simp add: nat_add_distrib)
  from write_ref_loop_ok [OF h t r(1) inh dis o n(1) out] obtain h' w' em' where
    "write_ref_loop (rblock r) len (offset + start_offset r) h m =
       Some (h', m\<lparr>writer := w'\<rparr>, len - int (length (take (nat len) (drop (nat offset) xs))))"
    "heap_ok h'" "tail_ok h' (m\<lparr>writer := w'\<rparr>) em'"
    "extended h (writer m) em (take (nat len) (drop (nat offset) xs)) h' w' em'" by (elim exE conjE) (rule that)
  then show ?thesis by (intro exI [of _ h'] exI [of _ w'] exI [of _ em']) (simp add: mio_write_reader_def)
qed

section \<open>A buffer and one of its readers\<close>

text \<open>The reader \<open>r\<close> of the buffer \<open>m\<close> sees \<open>xs\<close>; its chain runs through the writer's block.\<close>

definition rd_rep :: "ioheap \<Rightarrow> mio \<Rightarrow> nat list \<Rightarrow> reader \<Rightarrow> nat list \<Rightarrow> bytes \<Rightarrow> bool" where
  "rd_rep h m em r pre xs \<longleftrightarrow> tail_ok h m em \<and> reader_rep h r (pre @ writer m # em) xs \<and>
     (\<forall>z \<in> set (tl (pre @ [writer m])). blk_bytes h z \<noteq> [])"

lemma rd_later:
  assumes rep: "rd_rep h m em r pre xs" and l: "later h (pre @ writer m # em) bs" and r': "reader_rep h r' bs ys"
  shows "\<exists>pre'. rd_rep h m em r' pre' ys \<and> set pre' \<subseteq> set pre"
proof -
  have em: "\<forall>e \<in> set em. blk_bytes h e = []" and t: "tail_ok h m em" using rep by (simp_all add: rd_rep_def tail_ok_def)
  have ne: "\<forall>z \<in> set (tl (pre @ [writer m])). blk_bytes h z \<noteq> []" using rep by (simp add: rd_rep_def)
  obtain p where p: "pre @ writer m # em = p @ bs" using l by (auto simp: later_def)
  have "bs \<noteq> []" using r' by (simp add: reader_rep_def)
  have "\<exists>pre'. bs = pre' @ writer m # em \<and> pre = p @ pre'"
  proof (cases "length p \<le> length pre")
    case True
    then obtain q where "pre = p @ q" using p by (metis append_eq_append_conv_if append_take_drop_id)
    then show ?thesis using p by auto
  next
    case False
    then obtain q where q: "p = (pre @ [writer m]) @ q" "em = q @ bs"
      using p by (auto simp: append_eq_append_conv2 Cons_eq_append_conv)
    then have "hd bs \<in> set em" using \<open>bs \<noteq> []\<close> by simp
    then have "bs = pre @ writer m # em" using l em by (auto simp: later_def)
    then show ?thesis using p by auto
  qed
  then obtain pre' where pre': "bs = pre' @ writer m # em" "pre = p @ pre'" by blast
  have "set (tl (pre' @ [writer m])) \<subseteq> set (tl (pre @ [writer m]))"
    using pre'(2) by (cases p; cases pre') auto
  then show ?thesis using t r' pre' ne by (auto simp: rd_rep_def)
qed

lemma rd_extended:
  assumes h: "heap_ok h" and rep: "rd_rep h m em r pre xs" and g: "extended h (writer m) em ys h' w' em'"
    and t': "tail_ok h' m' em'" "writer m' = w'"
  shows "\<exists>pre'. rd_rep h' m' em' r pre' (xs @ ys) \<and> set pre' \<subseteq> set pre \<union> set (writer m # em) \<union> {btop h..<btop h'}"
proof -
  let ?w = "writer m"
  have t: "tail_ok h m em" and rr: "reader_rep h r (pre @ ?w # em) xs" and ne: "\<forall>z \<in> set (tl (pre @ [?w])). blk_bytes h z \<noteq> []"
    using rep by (simp_all add: rd_rep_def)
  obtain zs us where z: "bchain h' ?w (zs @ w' # em')" "set (zs @ w' # em') \<subseteq> set (?w # em) \<union> {btop h..<btop h'}"
    "chain_bytes h' (zs @ w' # em') = blk_bytes h ?w @ ys" "\<forall>z \<in> set (tl (zs @ [w'])). blk_bytes h' z \<noteq> []"
    "blk_bytes h' ?w = blk_bytes h ?w @ us" and so: "same_off (set (?w # em)) h h'" using g by (auto simp: extended_def)
  have ch: "bchain h (rblock r) (pre @ ?w # em)" "rblock r < btop h" using rr by (simp_all add: reader_rep_def)
  have dis: "set pre \<inter> set (?w # em) = {}" using chain_distinct [OF ch(1)] by auto
  have keep: "blks h' b = blks h b" "blk_bytes h' b = blk_bytes h b" if "b \<in> set pre" for b
  proof -
    have "0 < b \<and> b < btop h" using chain_in_heap [OF h ch, of b] that by simp
    moreover have "b \<notin> set (?w # em)" using dis that by (metis disjoint_iff)
    ultimately show "blks h' b = blks h b" "blk_bytes h' b = blk_bytes h b" using same_offD [OF so] by simp_all
  qed
  obtain T where T: "zs @ w' # em' = ?w # T" using z(1) by (cases zs) auto
  have C: "bchain h' (rblock r) (pre @ ?w # T)"
    using keep(1) z(1) unfolding T by (intro chain_replace [OF ch(1)]) simp_all
  have em0: "chain_bytes h em = []" using t by (simp add: tail_ok_def chain_bytes_empty)
  have pb: "chain_bytes h' pre = chain_bytes h pre" using keep(2) by (rule chain_bytes_cong)
  have B: "chain_bytes h' (pre @ ?w # T) = chain_bytes h (pre @ ?w # em) @ ys"
    using z(3) pb em0 unfolding T [symmetric] by (simp del: append_assoc)
  have hw: "z \<in> set (zs @ [w']) \<Longrightarrow> pre \<noteq> [] \<Longrightarrow> blk_bytes h' z \<noteq> []" for z
  proof -
    assume z': "z \<in> set (zs @ [w'])" and "pre \<noteq> []"
    then have "blk_bytes h ?w \<noteq> []" using ne by (cases pre) auto
    then have "blk_bytes h' ?w \<noteq> []" using z(5) by simp
    moreover have "zs @ [w'] = ?w # tl (zs @ [w'])" using T by (cases zs) auto
    then have "z = ?w \<or> z \<in> set (tl (zs @ [w']))" using z' by (metis set_ConsD)
    ultimately show ?thesis using z(4) by blast
  qed
  have N: "\<forall>b \<in> set (tl ((pre @ zs) @ [w'])). blk_bytes h' b \<noteq> []"
  proof (cases pre)
    case Nil
    then show ?thesis using z(4) by simp
  next
    case (Cons p ps)
    then show ?thesis using hw ne keep(2) by auto
  qed
  have em': "\<forall>e \<in> set em'. blk_bytes h' e = []" using t' by (simp add: tail_ok_def)
  have form: "pre @ ?w # T = (pre @ zs) @ w' # em'" using T by simp
  have "tl (pre @ ?w # T) = tl ((pre @ zs) @ [w']) @ em'" unfolding form by (cases "pre @ zs") auto
  then have S: "solid h' (pre @ ?w # T)" unfolding solid_def using N em' by blast
  have "btop h \<le> btop h'" using so by (simp add: same_off_def)
  moreover define X where "X = chain_bytes h (pre @ ?w # em)"
  have X: "xs = drop (nat (start_offset r)) X" "start_offset r \<le> int (length X)" "0 \<le> start_offset r" "rblock r < btop h"
    "size_limit r = INT64_MAX" using rr by (simp_all add: reader_rep_def X_def)
  have "xs @ ys = drop (nat (start_offset r)) (X @ ys)" using X by simp
  moreover have "start_offset r \<le> int (length (X @ ys))" using X by simp
  ultimately have "reader_rep h' r (pre @ ?w # T) (xs @ ys)"
    using X(3,4,5) C S unfolding reader_rep_def B X_def [symmetric] by simp
  then have "rd_rep h' m' em' r (pre @ zs) (xs @ ys)"
    using t' N unfolding rd_rep_def form by simp
  moreover have "set (pre @ zs) \<subseteq> set pre \<union> set (?w # em) \<union> {btop h..<btop h'}" using z(2) by auto
  ultimately show ?thesis by blast
qed

text \<open>A reader of another buffer.\<close>

lemma rd_other:
  assumes h: "heap_ok h" and rep: "rd_rep h m em r pre xs" and so: "same_off S h h'"
    and dis: "S \<inter> set (pre @ writer m # em) = {}"
  shows "rd_rep h' m em r pre xs"
proof -
  have t: "tail_ok h m em" and rr: "reader_rep h r (pre @ writer m # em) xs" and
    ne: "\<forall>z \<in> set (tl (pre @ [writer m])). blk_bytes h z \<noteq> []" using rep by (simp_all add: rd_rep_def)
  have ch: "bchain h (rblock r) (pre @ writer m # em)" "rblock r < btop h" using rr by (simp_all add: reader_rep_def)
  have inh: "\<forall>b \<in> set (pre @ writer m # em). 0 < b \<and> b < btop h" using chain_in_heap [OF h ch] by blast
  have d: "set (pre @ writer m # em) \<inter> S = {}" using dis by blast
  note c = same_off_chain [OF so d inh]
  have keep: "blks h' b = blks h b" "blk_bytes h' b = blk_bytes h b" if "b \<in> set (pre @ writer m # em)" for b
  proof -
    have "b \<notin> S" using d that by (metis disjoint_iff)
    from same_offD [OF so this] inh that show "blks h' b = blks h b" "blk_bytes h' b = blk_bytes h b" by blast+
  qed
  have top: "btop h \<le> btop h'" using so by (simp add: same_off_def)
  have "reader_rep h' r (pre @ writer m # em) xs" using rr top unfolding reader_rep_def c by simp
  moreover have "bchain h' (writer m) (writer m # em)" using chain_start c(1) ch(1) by metis
  then have "tail_ok h' m em"
    using t keep top unfolding tail_ok_def write_avail_def by simp
  moreover have "set (tl (pre @ [writer m])) \<subseteq> set (pre @ writer m # em)" by (cases pre) auto
  then have "\<forall>z \<in> set (tl (pre @ [writer m])). blk_bytes h' z \<noteq> []" using ne keep(2) by (metis subsetD)
  ultimately show ?thesis by (simp add: rd_rep_def)
qed

end
