(* ===== verification/IOBufferSpec.thy ===== *)
theory IOBufferSpec
  imports IOBufferWrite
begin

text \<open>
  What the clients of the buffers rely on, as interfaces: a source of bytes whose reader hands out
  its bytes block by block, and a pipe that moves bytes from a source into another buffer. The
  readers and writers of the buffers are one; the properties of the buffers follow.
\<close>

section \<open>A source of bytes\<close>

text \<open>
  A scan as the clients of readers write it: block after block is passed to a step function until
  it is done or nothing is left, and what it looked at is consumed.
\<close>

fun scan_block :: "('c \<Rightarrow> u8 \<Rightarrow> 'c \<times> bool) \<Rightarrow> 'c \<Rightarrow> bytes \<Rightarrow> 'c \<times> nat \<times> bool" where
  "scan_block f c [] = (c, 0, False)"
| "scan_block f c (x # xs) =
     (case f c x of (c', done) \<Rightarrow>
        if done then (c', 1, True) else (case scan_block f c' xs of (c'', n, d) \<Rightarrow> (c'', Suc n, d)))"

partial_function (option) scan_blocks ::
    "('r \<Rightarrow> bool option) \<Rightarrow> ('r \<Rightarrow> ('r \<times> bytes) option) \<Rightarrow> (int \<Rightarrow> 'r \<Rightarrow> 'r option) \<Rightarrow>
     ('c \<Rightarrow> u8 \<Rightarrow> 'c \<times> bool) \<Rightarrow> bool \<Rightarrow> 'r \<Rightarrow> 'c \<Rightarrow> ('r \<times> 'c) option" where
  "scan_blocks left block adv f fin r c =
     (case left r of
        None \<Rightarrow> None
      | Some b \<Rightarrow>
          if b \<and> \<not> fin
          then (case block r of
                  None \<Rightarrow> None
                | Some (r1, xs) \<Rightarrow>
                    (case scan_block f c xs of (c', n, d) \<Rightarrow>
                       (case adv (int n) r1 of
                          None \<Rightarrow> None | Some r2 \<Rightarrow> scan_blocks left block adv f d r2 c')))
          else Some (r, c))"

lemma scan_block_le: "scan_block f c xs = (c', n, d) \<Longrightarrow> n \<le> length xs \<and> (\<not> d \<longrightarrow> n = length xs) \<and> (xs \<noteq> [] \<longrightarrow> 0 < n)"
proof (induction xs arbitrary: c c' n d)
  case (Cons x xs)
  then show ?case by (auto split: prod.splits if_splits)
qed simp

lemma scan_block_append:
  "scan_block f c (xs @ ys) =
     (case scan_block f c xs of (c', n, d) \<Rightarrow>
        if d then (c', n, True) else (case scan_block f c' ys of (c'', k, e) \<Rightarrow> (c'', n + k, e)))"
  by (induction xs arbitrary: c) (auto split: prod.splits if_splits)

locale byte_source =
  fixes rep :: "'r \<Rightarrow> bytes \<Rightarrow> bool"
    and left :: "'r \<Rightarrow> bool option"
    and block :: "'r \<Rightarrow> ('r \<times> bytes) option"
    and adv :: "int \<Rightarrow> 'r \<Rightarrow> 'r option"
  assumes left_rep: "rep r xs \<Longrightarrow> left r = Some (xs \<noteq> [])"
    and block_rep: "rep r xs \<Longrightarrow> xs \<noteq> [] \<Longrightarrow> \<exists>r' ys zs. block r = Some (r', ys) \<and> ys \<noteq> [] \<and> xs = ys @ zs \<and> rep r' xs"
    and adv_rep: "rep r xs \<Longrightarrow> n \<le> length xs \<Longrightarrow> \<exists>r'. adv (int n) r = Some r' \<and> rep r' (drop n xs)"
begin

text \<open>The blocks do not matter: the scan is the scan over all bytes.\<close>

lemma scan_all:
  "rep r xs \<Longrightarrow> scan_block f c xs = (c', n, d) \<Longrightarrow>
   \<exists>r'. scan_blocks left block adv f False r c = Some (r', c') \<and> rep r' (drop n xs)"
proof (induction "length xs" arbitrary: r xs c n rule: less_induct)
  case less
  show ?case
  proof (cases "xs = []")
    case True
    then show ?thesis using less.prems left_rep [OF less.prems(1)]
      by (intro exI [of _ r]) (simp add: scan_blocks.simps)
  next
    case False
    obtain r1 ys zs where b: "block r = Some (r1, ys)" "ys \<noteq> []" "xs = ys @ zs" "rep r1 xs"
      using block_rep [OF less.prems(1) False] by (elim exE conjE) (rule that)
    obtain c1 k e where s: "scan_block f c ys = (c1, k, e)" by (metis prod_cases3)
    note k = scan_block_le [OF s]
    obtain r2 where r2: "adv (int k) r1 = Some r2" "rep r2 (drop k xs)"
      using adv_rep [OF b(4), of k] k b(3) by auto
    have mr: "left r = Some True" using left_rep [OF less.prems(1)] False by simp
    have step: "scan_blocks left block adv f False r c = scan_blocks left block adv f e r2 c1"
      by (subst scan_blocks.simps) (simp add: mr b(1) s r2(1))
    show ?thesis
    proof (cases e)
      case True
      then have "c' = c1" "n = k" using less.prems(2) s b(3) by (simp_all add: scan_block_append)
      moreover have "left r2 = Some (drop k xs \<noteq> [])" by (rule left_rep [OF r2(2)])
      then have "scan_blocks left block adv f e r2 c1 = Some (r2, c1)"
        using True by (subst scan_blocks.simps) simp
      ultimately show ?thesis using step r2(2) by auto
    next
      case False
      then have k': "k = length ys" "drop k xs = zs" using k b(3) by auto
      obtain c2 j d2 where t: "scan_block f c1 zs = (c2, j, d2)" by (metis prod_cases3)
      then have e: "c' = c2" "n = k + j" "d = d2" using less.prems(2) s b(3) False by (simp_all add: scan_block_append)
      have "length zs < length xs" using b(2,3) by simp
      moreover have "rep r2 zs" using r2(2) k'(2) by simp
      ultimately obtain r' where "scan_blocks left block adv f False r2 c1 = Some (r', c2)" "rep r' (drop j zs)"
        using less.hyps [of zs r2 c1 j] t unfolding e(1,3) by blast
      then show ?thesis using step False e k' b(3) by auto
    qed
  qed
qed

end

section \<open>Moving bytes between buffers\<close>

text \<open>The state \<open>'h\<close>, the source \<open>'r\<close> and the destination \<open>'d\<close> of a pipe.\<close>

locale byte_pipe =
  fixes rep :: "'h \<Rightarrow> 'r \<Rightarrow> 'd \<Rightarrow> bytes \<Rightarrow> bytes \<Rightarrow> bool"
    and adv :: "int \<Rightarrow> 'h \<Rightarrow> 'r \<Rightarrow> 'r option"
    and put :: "bytes \<Rightarrow> 'h \<Rightarrow> 'd \<Rightarrow> ('h \<times> 'd) option"
    and ref :: "'r \<Rightarrow> int \<Rightarrow> 'h \<Rightarrow> 'd \<Rightarrow> ('h \<times> 'd \<times> int) option"
  assumes pipe_adv: "rep h r d xs ys \<Longrightarrow> n \<le> length xs \<Longrightarrow> \<exists>r'. adv (int n) h r = Some r' \<and> rep h r' d (drop n xs) ys"
    and pipe_put: "rep h r d xs ys \<Longrightarrow> \<exists>h' d'. put zs h d = Some (h', d') \<and> rep h' r d' xs (ys @ zs)"
    and pipe_ref: "rep h r d xs ys \<Longrightarrow>
      \<exists>h' d'. ref r (int n) h d = Some (h', d', int (length (take n xs))) \<and> rep h' r d' xs (ys @ take n xs)"
begin

text \<open>Bytes that are written by reference or by copy and then consumed have moved.\<close>

lemma move_ref:
  assumes "rep h r d xs ys"
  shows "\<exists>h' d' r'. ref r (int n) h d = Some (h', d', int (min n (length xs))) \<and>
    adv (int (min n (length xs))) h' r = Some r' \<and> rep h' r' d' (drop n xs) (ys @ take n xs)"
proof -
  obtain h' d' where 1: "ref r (int n) h d = Some (h', d', int (length (take n xs)))" "rep h' r d' xs (ys @ take n xs)"
    using pipe_ref [OF assms] by blast
  have "min n (length xs) \<le> length xs" by simp
  from pipe_adv [OF 1(2) this] obtain r' where
    "adv (int (min n (length xs))) h' r = Some r'" "rep h' r' d' (drop (min n (length xs)) xs) (ys @ take n xs)" by blast
  moreover have "drop (min n (length xs)) xs = drop n xs" by (simp add: min_def)
  ultimately show ?thesis using 1(1) by (auto simp: min.commute)
qed

lemma move_copy:
  assumes "rep h r d xs ys" "n \<le> length xs"
  shows "\<exists>h' d' r'. put (take n xs) h d = Some (h', d') \<and> adv (int n) h' r = Some r' \<and> rep h' r' d' (drop n xs) (ys @ take n xs)"
proof -
  obtain h' d' where 1: "put (take n xs) h d = Some (h', d')" "rep h' r d' xs (ys @ take n xs)"
    using pipe_put [OF assms(1)] by blast
  then show ?thesis using pipe_adv [OF 1(2) assms(2)] by blast
qed

end

section \<open>The buffers as a pipe\<close>

text \<open>
  The source is the reader \<open>r\<close> of the buffer \<open>s\<close>, which sees \<open>xs\<close>; the destination is the buffer \<open>d\<close>,
  whose reader \<open>q\<close> (any of them) sees \<open>ys\<close>. The two chains have no block in common, but may share data.
\<close>

definition pipe_rep :: "mio \<Rightarrow> reader \<Rightarrow> ioheap \<Rightarrow> reader \<Rightarrow> mio \<Rightarrow> bytes \<Rightarrow> bytes \<Rightarrow> bool" where
  "pipe_rep s q h r d xs ys \<longleftrightarrow> heap_ok h \<and> 0 < index_to_buffer_size (size_index s) \<and>
     0 < index_to_buffer_size (size_index d) \<and>
     (\<exists>em pre em' pre'. rd_rep h s em r pre xs \<and> rd_rep h d em' q pre' ys \<and>
        set (pre @ writer s # em) \<inter> set (pre' @ writer d # em') = {})"

text \<open>The bytes between \<open>start\<close> and the end of the reader's block.\<close>

definition block_bytes :: "ioheap \<Rightarrow> reader \<Rightarrow> (reader \<times> bytes) option" where
  "block_bytes h r =
     (case reader_start h r of
        None \<Rightarrow> None
      | Some (r1, d, p) \<Rightarrow>
          (case block_read_avail h r1 of
             None \<Rightarrow> None | Some (r2, n) \<Rightarrow> map_option (Pair r2) (copy_out d p n h)))"

lemma block_bytes_ok:
  assumes h: "heap_ok h" and rep: "reader_rep h r bs xs" and ne: "xs \<noteq> []"
  shows "\<exists>r' bs' ys zs. block_bytes h r = Some (r', ys) \<and> ys \<noteq> [] \<and> xs = ys @ zs \<and> reader_rep h r' bs' xs \<and> later h bs bs'"
proof -
  obtain r1 bs1 n d p where 1: "reader_rep h r1 bs1 xs" "later h bs bs1" "reader_start h r = Some (r1, d, p)"
    using block_read_avail_ok [OF h rep] by (elim exE conjE) (rule that)
  obtain r2 bs2 k d' p' where 2: "block_read_avail h r1 = Some (r2, int k)" "reader_rep h r2 bs2 xs" "later h bs1 bs2"
    "k \<le> length xs" "xs \<noteq> [] \<longrightarrow> 0 < k" "reader_start h r1 = Some (r2, d', p')" "reader_start h r2 = Some (r2, d', p')"
    "\<forall>j. 0 \<le> j \<and> j \<le> int k \<longrightarrow> copy_out d' p' j h = Some (take (nat j) xs)"
    using block_read_avail_ok [OF h 1(1)] by (elim exE conjE) (rule that)
  have "(r2, d', p') = (r1, d, p)"
  proof -
    obtain r3 bs3 m e q where 3: "reader_start h r = Some (r3, e, q)" "reader_start h r3 = Some (r3, e, q)"
      using block_read_avail_ok [OF h rep] by (elim exE conjE) (rule that)
    then show ?thesis using 1(3) 2(6) by simp
  qed
  moreover have "copy_out d' p' (int k) h = Some (take k xs)" using 2(8) by simp
  ultimately have "block_bytes h r = Some (r2, take k xs)" using 1(3) 2(1) by (simp add: block_bytes_def)
  moreover have "take k xs \<noteq> []" "xs = take k xs @ drop k xs" using 2(5) ne by simp_all
  ultimately show ?thesis using 2(2) later_trans [OF 1(2) 2(3)] by blast
qed

text \<open>A step of the source's reader.\<close>

lemma pipe_reader:
  assumes p: "pipe_rep s q h r d xs ys"
    and step: "\<And>bs. reader_rep h r bs xs \<Longrightarrow> \<exists>r' bs'. P r' \<and> reader_rep h r' bs' zs \<and> later h bs bs'"
  shows "\<exists>r'. P r' \<and> pipe_rep s q h r' d zs ys"
proof -
  obtain em pre em' pre' where 1: "rd_rep h s em r pre xs" "rd_rep h d em' q pre' ys"
    "set (pre @ writer s # em) \<inter> set (pre' @ writer d # em') = {}" using p by (auto simp: pipe_rep_def)
  obtain r' bs' where 2: "P r'" "reader_rep h r' bs' zs" "later h (pre @ writer s # em) bs'"
    using step [of "pre @ writer s # em"] 1(1) by (auto simp: rd_rep_def)
  obtain pre2 where 3: "rd_rep h s em r' pre2 zs" "set pre2 \<subseteq> set pre" using rd_later [OF 1(1) 2(3,2)] by blast
  have "set (pre2 @ writer s # em) \<inter> set (pre' @ writer d # em') = {}" using 1(3) 3(2) by auto
  then have "pipe_rep s q h r' d zs ys" using p 1(2) 3(1) unfolding pipe_rep_def by blast
  then show ?thesis using 2(1) by blast
qed

text \<open>The writer of the destination goes on by \<open>zs\<close>.\<close>

lemma pipe_extend:
  assumes h: "heap_ok h" "heap_ok h'" and r: "rd_rep h s em r pre xs" and q: "rd_rep h d em' q pre' ys"
    and dis: "set (pre @ writer s # em) \<inter> set (pre' @ writer d # em') = {}"
    and sz: "0 < index_to_buffer_size (size_index s)" "0 < index_to_buffer_size (size_index d')"
    and e: "extended h (writer d) em' zs h' (writer d') em2" "tail_ok h' d' em2"
  shows "pipe_rep s q h' r d' xs (ys @ zs)"
proof -
  obtain pre2 where 1: "rd_rep h' d' em2 q pre2 (ys @ zs)"
    "set pre2 \<subseteq> set pre' \<union> set (writer d # em') \<union> {btop h..<btop h'}"
    using rd_extended [OF h(1) q e(1,2) refl] by blast
  have so: "same_off (set (writer d # em')) h h'" using e(1) by (simp add: extended_def)
  have "set (writer d # em') \<inter> set (pre @ writer s # em) = {}" using dis by auto
  note 2 = rd_other [OF h(1) r so this]
  have ch: "bchain h (rblock r) (pre @ writer s # em)" "rblock r < btop h"
    using r by (simp_all add: rd_rep_def reader_rep_def)
  have old: "b < btop h" if "b \<in> set (pre @ writer s # em)" for b using chain_in_heap [OF h(1) ch that] by simp
  have new: "set (writer d' # em2) \<subseteq> set (writer d # em') \<union> {btop h..<btop h'}" using e(1) by (auto simp: extended_def)
  have "set (pre2 @ writer d' # em2) \<subseteq> set (pre' @ writer d # em') \<union> {btop h..<btop h'}" using 1(2) new by auto
  then have "set (pre @ writer s # em) \<inter> set (pre2 @ writer d' # em2) = {}" using dis old by fastforce
  then show ?thesis unfolding pipe_rep_def using h(2) sz 1(1) 2 by blast
qed

lemma pipe_write:
  assumes p: "pipe_rep s q h r d xs ys"
  shows "\<exists>h' d'. mio_write zs h d = Some (h', d') \<and> pipe_rep s q h' r d' xs (ys @ zs)"
proof -
  obtain em pre em' pre' where 1: "rd_rep h s em r pre xs" "rd_rep h d em' q pre' ys"
    "set (pre @ writer s # em) \<inter> set (pre' @ writer d # em') = {}" "heap_ok h"
    "0 < index_to_buffer_size (size_index s)" "0 < index_to_buffer_size (size_index d)" using p by (auto simp: pipe_rep_def)
  have "tail_ok h d em'" using 1(2) by (simp add: rd_rep_def)
  from mio_write_grown [OF 1(6) 1(4) this refl refl, of zs] obtain h' d' em2 where
    2: "mio_write zs h d = Some (h', d')" "heap_ok h'" "tail_ok h' d' em2" "size_index d' = size_index d"
    "grown h (writer d) em' zs h' (writer d') em2" by (elim exE conjE) (rule that)
  have "0 < index_to_buffer_size (size_index d')" using 1(6) 2(4) by simp
  from pipe_extend [OF 1(4) 2(2) 1(1,2,3,5) this grown_extended [OF 2(5)] 2(3)] show ?thesis using 2(1) by blast
qed

lemma pipe_write_reader:
  assumes p: "pipe_rep s q h r d xs ys"
  shows "\<exists>h' d'. mio_write_reader r (int n) 0 h d = Some (h', d', int (length (take n xs))) \<and>
    pipe_rep s q h' r d' xs (ys @ take n xs)"
proof -
  obtain em pre em' pre' where 1: "rd_rep h s em r pre xs" "rd_rep h d em' q pre' ys"
    "set (pre @ writer s # em) \<inter> set (pre' @ writer d # em') = {}" "heap_ok h"
    "0 < index_to_buffer_size (size_index s)" "0 < index_to_buffer_size (size_index d)" using p by (auto simp: pipe_rep_def)
  have t: "tail_ok h d em'" and r: "reader_rep h r (pre @ writer s # em) xs" using 1(1,2) by (simp_all add: rd_rep_def)
  have dis: "set (pre @ writer s # em) \<inter> set (writer d # em') = {}" using 1(3) by auto
  note w = mio_write_reader_ok [OF 1(4) t r dis, of "int n" 0, unfolded nat_int nat_0 drop_0]
  obtain h' w' em2 where
    2: "mio_write_reader r (int n) 0 h d = Some (h', d\<lparr>writer := w'\<rparr>, int (length (take n xs)))" "heap_ok h'"
    "tail_ok h' (d\<lparr>writer := w'\<rparr>) em2" "extended h (writer d) em' (take n xs) h' w' em2"
    using w [OF of_nat_0_le_iff order_refl] by (elim exE conjE) (rule that)
  have "0 < index_to_buffer_size (size_index (d\<lparr>writer := w'\<rparr>))" using 1(6) by simp
  moreover have "extended h (writer d) em' (take n xs) h' (writer (d\<lparr>writer := w'\<rparr>)) em2" using 2(4) by simp
  ultimately have "pipe_rep s q h' r (d\<lparr>writer := w'\<rparr>) xs (ys @ take n xs)"
    using pipe_extend [OF 1(4) 2(2) 1(1,2,3,5)] 2(3) by blast
  then show ?thesis using 2(1) by blast
qed

interpretation io: byte_source "\<lambda>r xs. pipe_rep s q h r d xs ys" "is_read_avail_more_than 0 h" "block_bytes h" "\<lambda>n. consume n h"
proof unfold_locales
  fix r xs assume p: "pipe_rep s q h r d xs ys"
  then obtain bs where hb: "heap_ok h" "reader_rep h r bs xs" by (auto simp: pipe_rep_def rd_rep_def)
  show "is_read_avail_more_than 0 h r = Some (xs \<noteq> [])" using is_read_avail_more_than_ok [OF hb, of 0] by simp
  show "\<exists>r' zs us. block_bytes h r = Some (r', zs) \<and> zs \<noteq> [] \<and> xs = zs @ us \<and> pipe_rep s q h r' d xs ys" if "xs \<noteq> []"
  proof -
    have "\<exists>r'. (\<exists>zs us. block_bytes h r = Some (r', zs) \<and> zs \<noteq> [] \<and> xs = zs @ us) \<and> pipe_rep s q h r' d xs ys"
      by (rule pipe_reader [OF p]) (use block_bytes_ok [OF hb(1) _ that] in blast)
    then show ?thesis by blast
  qed
  show "\<exists>r'. consume (int n) h r = Some r' \<and> pipe_rep s q h r' d (drop n xs) ys" if "n \<le> length xs" for n
  proof (rule pipe_reader [OF p])
    fix bs assume "reader_rep h r bs xs"
    from consume_ok [OF hb(1) this, of "int n"] that
    show "\<exists>r' bs'. consume (int n) h r = Some r' \<and> reader_rep h r' bs' (drop n xs) \<and> later h bs bs'" by auto
  qed
qed

interpretation pipe: byte_pipe "pipe_rep s q" consume mio_write "\<lambda>r n. mio_write_reader r n 0"
  using io.adv_rep pipe_write pipe_write_reader by unfold_locales blast+

lemma pipe_swap: "pipe_rep s q h r d xs ys \<Longrightarrow> pipe_rep d r h q s ys xs"
  unfolding pipe_rep_def by (metis (no_types, lifting) inf_commute)

text \<open>What is seen through a pipe.\<close>

lemma pipe_views:
  assumes "pipe_rep s q h r d xs ys"
  shows "reader_avail h r = Some (int (length xs))"
    and "0 \<le> n \<Longrightarrow> 0 \<le> i \<Longrightarrow> reader_memcpy n i h r = Some (take (nat n) (drop (nat i) xs))"
    and "0 \<le> n \<Longrightarrow> 0 \<le> i \<Longrightarrow> reader_memchr c n i h r = Some (char_pos c (take (nat n) (drop (nat i) xs)) i)"
  using assms reader_avail_ok reader_memcpy_ok reader_memchr_ok by (auto simp: pipe_rep_def rd_rep_def)

lemma pipe_read_all: "pipe_rep s q h r d xs ys \<Longrightarrow> reader_memcpy (int (length xs)) 0 h r = Some xs"
  using pipe_views(2) [of s q h r d xs ys "int (length xs)" 0] by simp

section \<open>New buffers\<close>

lemma heap_ok_init: "heap_ok heap_init"
  by (simp add: heap_ok_def heap_init_def)

lemma new_MIOBuffer_ok:
  assumes h: "heap_ok h" and i: "0 < index_to_buffer_size i" and n: "new_MIOBuffer i h = (h', m)"
  shows "heap_ok h'" "same_off {} h h'" "writer m = btop h" "btop h' = Suc (btop h)" "size_index m = i" "tail_ok h' m []"
    "blk_bytes h' (btop h) = []" "readers m = readers mio_clear"
proof -
  obtain h1 where 1: "blk_alloc i (btop h) (fst (new_blk h)) = h1" "snd (new_blk h) = btop h" "heap_ok h1" "same_off {} h h1"
    "btop h1 = Suc (btop h)"
    "blks h1 (btop h) = \<lparr>bdata = dtop h, bstart = 0, bend = 0, bbend = nat (index_to_buffer_size i), bnext = 0\<rparr>"
    using blk_alloc_new [OF h, of i] i by auto
  have e: "h' = h1" "writer m = btop h" "size_index m = i" "readers m = readers mio_clear"
    using n 1(1,2) by (auto simp: new_MIOBuffer_def mio_alloc_def init_readers_def mio_clear_def reader_init_def split: prod.splits)
  then show "heap_ok h'" "same_off {} h h'" "writer m = btop h" "btop h' = Suc (btop h)" "size_index m = i"
    "blk_bytes h' (btop h) = []" "readers m = readers mio_clear" using 1 by (simp_all add: blk_bytes_def)
  show "tail_ok h' m []" using 1 e h by (simp add: tail_ok_def heap_ok_def)
qed

lemma alloc_reader_new:
  assumes "readers m = readers mio_clear"
  shows "\<exists>m'. alloc_reader m = Some (m', 0) \<and> writer m' = writer m \<and> size_index m' = size_index m \<and>
    readers m' ! 0 = \<lparr>rused = True, rblock = writer m, start_offset = 0, size_limit = INT64_MAX\<rparr>"
  using assms by (simp add: alloc_reader_def mio_clear_def reader_init_def MAX_MIOBUFFER_READERS_def eval_nat_numeral)

lemma rd_rep_new:
  assumes h: "heap_ok h" and t: "tail_ok h m []" and b: "blk_bytes h (writer m) = []"
    and r: "r = \<lparr>rused = True, rblock = writer m, start_offset = 0, size_limit = INT64_MAX\<rparr>" and m: "writer m' = writer m"
  shows "rd_rep h m' [] r [] []"
  using t b r m by (simp add: rd_rep_def reader_rep_def tail_ok_def solid_def)

lemma pipe_new:
  assumes h: "heap_ok h" and i: "0 < index_to_buffer_size i" "0 < index_to_buffer_size j"
    and n: "new_MIOBuffer i h = (h1, s)" "new_MIOBuffer j h1 = (h2, d)"
    and a: "alloc_reader s = Some (s', k)" "alloc_reader d = Some (d', l)"
  shows "pipe_rep s' (readers d' ! l) h2 (readers s' ! k) d' [] []"
proof -
  note 1 = new_MIOBuffer_ok [OF h i(1) n(1)]
  note 2 = new_MIOBuffer_ok [OF 1(1) i(2) n(2)]
  have s: "writer s' = writer s" "size_index s' = i"
    "readers s' ! k = \<lparr>rused = True, rblock = writer s, start_offset = 0, size_limit = INT64_MAX\<rparr>"
    using alloc_reader_new [OF 1(8)] a(1) 1(5) by auto
  have d: "writer d' = writer d" "size_index d' = j"
    "readers d' ! l = \<lparr>rused = True, rblock = writer d, start_offset = 0, size_limit = INT64_MAX\<rparr>"
    using alloc_reader_new [OF 2(8)] a(2) 2(5) by auto
  have "rd_rep h1 s' [] (readers s' ! k) [] []" using rd_rep_new [OF 1(1,6) _ s(3,1)] 1(3,7) by simp
  from rd_other [OF 1(1) this 2(2)] have r: "rd_rep h2 s' [] (readers s' ! k) [] []" by simp
  have q: "rd_rep h2 d' [] (readers d' ! l) [] []" using rd_rep_new [OF 2(1,6) _ d(3,1)] 2(3,7) by simp
  have "set ([] @ writer s' # []) \<inter> set ([] @ writer d' # []) = {}" using s(1) d(1) 1(3,4) 2(3) by simp
  then show ?thesis unfolding pipe_rep_def using 2(1) i s(2) d(2) r q by blast
qed

text \<open>Two buffers of the smallest size with a reader each, after the first writes.\<close>

definition pipe_sample :: "bytes \<Rightarrow> bytes \<Rightarrow> (mio \<times> reader \<times> ioheap \<times> reader \<times> mio) option" where
  "pipe_sample xs ys =
     (case new_MIOBuffer 0 heap_init of (h1, s) \<Rightarrow>
        (case new_MIOBuffer 0 h1 of (h2, d) \<Rightarrow>
           do { (s1, k) \<leftarrow> alloc_reader s;
                (d1, l) \<leftarrow> alloc_reader d;
                (h3, s2) \<leftarrow> mio_write xs h2 s1;
                (h4, d2) \<leftarrow> mio_write ys h3 d1;
                Some (s2, readers d1 ! l, h4, readers s1 ! k, d2) }))"

lemma pipe_sample_ok: "\<exists>s q h r d. pipe_sample xs ys = Some (s, q, h, r, d) \<and> pipe_rep s q h r d xs ys"
proof -
  obtain h1 s where 1: "new_MIOBuffer 0 heap_init = (h1, s)" by fastforce
  obtain h2 d where 2: "new_MIOBuffer 0 h1 = (h2, d)" by fastforce
  have sz: "0 < index_to_buffer_size 0"
    by (simp add: index_to_buffer_size_def BUFFER_SIZE_INDEX_IS_FAST_ALLOCATED_def DEFAULT_BUFFER_SIZES_def
        BUFFER_SIZE_FOR_INDEX_def)
  note n1 = new_MIOBuffer_ok [OF heap_ok_init sz 1]
  note n2 = new_MIOBuffer_ok [OF n1(1) sz 2]
  obtain s1 d1 where a: "alloc_reader s = Some (s1, 0)" "alloc_reader d = Some (d1, 0)"
    using alloc_reader_new [OF n1(8)] alloc_reader_new [OF n2(8)] by blast
  have p: "pipe_rep s1 (readers d1 ! 0) h2 (readers s1 ! 0) d1 [] []"
    by (rule pipe_new [OF heap_ok_init sz sz 1 2 a])
  obtain h3 s2 where 3: "mio_write xs h2 s1 = Some (h3, s2)" "pipe_rep d1 (readers s1 ! 0) h3 (readers d1 ! 0) s2 [] xs"
    using pipe_write [OF pipe_swap [OF p], of xs] by auto
  obtain h4 d2 where 4: "mio_write ys h3 d1 = Some (h4, d2)" "pipe_rep s2 (readers d1 ! 0) h4 (readers s1 ! 0) d2 xs ys"
    using pipe_write [OF pipe_swap [OF 3(2)], of ys] by auto
  show ?thesis using 1 2 a 3(1) 4 by (simp add: pipe_sample_def)
qed

section \<open>Properties\<close>

text \<open>
  C18. Writing bytes into a buffer always succeeds; afterwards each of its readers reads what it saw
  before followed by these bytes, and the readers of the other buffers read what they did, also
  when the buffers share data.
\<close>

theorem mio_write_appends:
  assumes "pipe_rep s q h r d xs ys"
  shows "\<exists>h' d'. mio_write zs h d = Some (h', d') \<and> pipe_rep s q h' r d' xs (ys @ zs) \<and>
    reader_memcpy (int (length (ys @ zs))) 0 h' q = Some (ys @ zs) \<and> reader_memcpy (int (length xs)) 0 h' r = Some xs"
  using pipe.pipe_put [OF assms, of zs] pipe_read_all pipe_read_all [OF pipe_swap] by blast

lemma mio_write_appends_witness:
  "\<exists>s q h r d h' d'. pipe_sample [1, 2] [7] = Some (s, q, h, r, d) \<and> mio_write [8, 9] h d = Some (h', d') \<and>
     reader_memcpy 3 0 h' q = Some [7, 8, 9] \<and> reader_memcpy 2 0 h' r = Some [1, 2]"
proof -
  obtain s q h r d where p: "pipe_sample [1, 2] [7] = Some (s, q, h, r, d)" "pipe_rep s q h r d [1, 2] [7]"
    using pipe_sample_ok by blast
  show ?thesis using mio_write_appends [OF p(2), of "[8, 9]"] p(1) by auto
qed

text \<open>
  C19. Writing from another buffer's reader by reference appends the reader's next bytes (all of them
  if it has fewer) without copying and reports their number; consuming them then leaves the rest,
  so no byte is lost, doubled or reordered.
\<close>

theorem mio_write_reader_moves:
  assumes "pipe_rep s q h r d xs ys"
  shows "\<exists>h' d' r'. mio_write_reader r (int n) 0 h d = Some (h', d', int (min n (length xs))) \<and>
    consume (int (min n (length xs))) h' r = Some r' \<and> pipe_rep s q h' r' d' (drop n xs) (ys @ take n xs) \<and>
    reader_memcpy (int (length (ys @ take n xs))) 0 h' q = Some (ys @ take n xs) \<and>
    reader_memcpy (int (length (drop n xs))) 0 h' r' = Some (drop n xs)"
  using pipe.move_ref [OF assms, of n] pipe_read_all pipe_read_all [OF pipe_swap] by metis

lemma mio_write_reader_moves_witness:
  "\<exists>s q h r d h' d' r'. pipe_sample [1, 2, 3] [7] = Some (s, q, h, r, d) \<and>
     mio_write_reader r 2 0 h d = Some (h', d', 2) \<and> consume 2 h' r = Some r' \<and>
     reader_memcpy 3 0 h' q = Some [7, 1, 2] \<and> reader_memcpy 1 0 h' r' = Some [3]"
proof -
  obtain s q h r d where p: "pipe_sample [1, 2, 3] [7] = Some (s, q, h, r, d)" "pipe_rep s q h r d [1, 2, 3] [7]"
    using pipe_sample_ok by blast
  show ?thesis using mio_write_reader_moves [OF p(2), of 2] p(1) by auto
qed

text \<open>
  C20. A reader behaves as the list of its bytes: \<open>read\<close> takes the next bytes, as many as there are,
  \<open>memcpy\<close> copies a range and \<open>memchr\<close> finds the first occurrence of a character in a range (- 1 if
  there is none), wherever the blocks begin and end.
\<close>

theorem reader_is_fifo:
  assumes "pipe_rep s q h r d xs ys" "0 \<le> n" "0 \<le> i"
  shows "(\<exists>r'. reader_read n h r = Some (r', take (nat n) xs) \<and> pipe_rep s q h r' d (drop (nat n) xs) ys) \<and>
    reader_avail h r = Some (int (length xs)) \<and>
    reader_memcpy n i h r = Some (take (nat n) (drop (nat i) xs)) \<and>
    reader_memchr c n i h r = Some (char_pos c (take (nat n) (drop (nat i) xs)) i)"
proof -
  have h: "heap_ok h" using assms(1) by (simp add: pipe_rep_def)
  have "\<exists>r'. reader_read n h r = Some (r', take (nat n) xs) \<and> pipe_rep s q h r' d (drop (nat n) xs) ys"
    by (rule pipe_reader [OF assms(1)]) (use reader_read_ok [OF h _ assms(2)] in blast)
  then show ?thesis using pipe_views [OF assms(1)] assms(2,3) by simp
qed

lemma reader_is_fifo_witness:
  "\<exists>s q h r d r'. pipe_sample [1, 2, 3, 2] [] = Some (s, q, h, r, d) \<and> reader_read 3 h r = Some (r', [1, 2, 3]) \<and>
     reader_memcpy 2 1 h r = Some [2, 3] \<and> reader_memchr 2 9 2 h r = Some 3"
proof -
  obtain s q h r d where p: "pipe_sample [1, 2, 3, 2] [] = Some (s, q, h, r, d)" "pipe_rep s q h r d [1, 2, 3, 2] []"
    using pipe_sample_ok by blast
  show ?thesis
    using reader_is_fifo [OF p(2), of 3 0] reader_is_fifo [OF p(2), of 2 1] reader_is_fifo [OF p(2), of 9 2 2] p(1)
    by (auto simp: char_pos_def)
qed

text \<open>
  A block that \<open>set\<close> attaches to a data area at an offset claims room up to the offset plus the
  size of the area: filling the room that it reports runs past the end of the area.
\<close>

lemma blk_set_claims_too_much:
  assumes "0 < offset" "0 \<le> len" "offset + len \<le> int (length (datas h d))" "dlen h d = length (datas h d)"
    and xs: "int (length xs) = write_avail (blk_set d len offset b h) b"
  shows "write_avail (blk_set d len offset b h) b = int (length (datas h d)) - len \<and>
    copy_in d (bend (blks (blk_set d len offset b h) b)) xs (blk_set d len offset b h) = None"
proof -
  have f: "write_avail (blk_set d len offset b h) b = int (length (datas h d)) - len"
    "bend (blks (blk_set d len offset b h) b) = nat (offset + len)" "datas (blk_set d len offset b h) = datas h"
    using assms(1-4) by (simp_all add: blk_set_def write_avail_def Let_def)
  have "length (datas h d) < nat (offset + len) + length xs" "nat (offset + len) \<le> length (datas h d)"
    using assms(1-3) xs f(1) by arith+
  then show ?thesis using f by (simp add: copy_in_def store_all_overrun)
qed

lemma blk_set_claims_too_much_witness:
  "write_avail (blk_set 1 1 2 1 (fst (new_data 4 heap_init))) 1 = 3 \<and>
   copy_in 1 3 [7, 7, 7] (blk_set 1 1 2 1 (fst (new_data 4 heap_init))) = None"
proof -
  let ?h = "fst (new_data 4 heap_init)"
  have "dlen ?h 1 = length (datas ?h 1)" "length (datas ?h 1) = 4" by (simp_all add: new_data_def heap_init_def)
  moreover have "write_avail (blk_set 1 1 2 1 ?h) 1 = 3" "bend (blks (blk_set 1 1 2 1 ?h) 1) = 3"
    by (simp_all add: blk_set_def write_avail_def new_data_def heap_init_def)
  ultimately show ?thesis using blk_set_claims_too_much [of 2 1 ?h 1 "[7, 7, 7]" 1] by simp
qed

end
