(* ===== verification/Chunked.thy ===== *)
theory Chunked
  imports ParseRulesSpec IOBufferSpec
begin

text \<open>
  The chunked transfer coding of the HTTP tunnel (proxy/http/HttpTunnel.cc, \<open>ChunkedHandler\<close>, and the
  producer handlers that call it): decoding a chunked body out of one buffer into another (or passing
  it through), and producing one. The running sum of a chunk size and the digit count are 32-bit
  words, as the code's \<open>int\<close>; the 64-bit byte counts are integers.
\<close>

datatype chunked_state = CHUNK_READ_CHUNK | CHUNK_READ_SIZE_START | CHUNK_READ_SIZE | CHUNK_READ_SIZE_CRLF
  | CHUNK_READ_TRAILER_BLANK | CHUNK_READ_TRAILER_CR | CHUNK_READ_TRAILER_LINE | CHUNK_READ_ERROR | CHUNK_READ_DONE
  | CHUNK_WRITE_CHUNK | CHUNK_WRITE_DONE | CHUNK_FLOW_CONTROL

datatype tunnel_event = VC_EVENT_NONE | VC_EVENT_READ_READY | VC_EVENT_READ_COMPLETE | VC_EVENT_EOS
  | HTTP_TUNNEL_EVENT_PRECOMPLETE | Other_event int

datatype chunking_action = TCA_CHUNK_CONTENT | TCA_DECHUNK_CONTENT | TCA_PASSTHRU_CHUNKED_CONTENT
  | TCA_PASSTHRU_DECHUNKED_CONTENT

definition DEFAULT_MAX_CHUNK_SIZE :: int where
  "DEFAULT_MAX_CHUNK_SIZE = 4096"

definition min_block_transfer_bytes :: int where
  "min_block_transfer_bytes = 256"

definition CHUNK_IOBUFFER_SIZE_INDEX :: int where
  "CHUNK_IOBUFFER_SIZE_INDEX = 0"

text \<open>A buffer pointer that may be NULL is an option.\<close>

record chunked =
  chunked_reader :: reader
  dechunked_buffer :: "mio option"
  dechunked_size :: int
  dechunked_reader :: reader
  chunked_buffer :: mio
  chunked_size :: int
  truncation :: bool
  skip_bytes :: int
  cstate :: chunked_state
  cur_chunk_size :: int
  bytes_left :: int
  last_server_event :: tunnel_event
  running_sum :: s32
  num_digits :: s32
  max_chunk_size :: int
  max_chunk_header :: bytes
  max_chunk_header_len :: int

definition chunked_new :: chunked where
  "chunked_new = \<lparr>chunked_reader = reader_init, dechunked_buffer = None, dechunked_size = 0, dechunked_reader = reader_init,
     chunked_buffer = mio_clear, chunked_size = 0, truncation = False, skip_bytes = 0, cstate = CHUNK_READ_CHUNK,
     cur_chunk_size = 0, bytes_left = 0, last_server_event = VC_EVENT_NONE, running_sum = 0, num_digits = 0,
     max_chunk_size = DEFAULT_MAX_CHUNK_SIZE, max_chunk_header = replicate 16 0, max_chunk_header_len = 0\<rparr>"

section \<open>The header of a chunk\<close>

definition hex_char :: "nat \<Rightarrow> u8" where
  "hex_char d = (if d < 10 then of_nat (48 + d) else of_nat (87 + d))"

fun hex_digits :: "nat \<Rightarrow> bytes" where
  "hex_digits n = (if n < 16 then [hex_char n] else hex_digits (n div 16) @ [hex_char (n mod 16)])"

declare hex_digits.simps [simp del]

definition CHUNK_HEADER :: "int \<Rightarrow> bytes" where
  "CHUNK_HEADER n = hex_digits (unat (word_of_int n :: u64)) @ [CHAR_CR, CHAR_LF]"

text \<open>\<open>snprintf\<close> into 16 bytes: what the array holds, and the length that would have been written.\<close>

definition snprintf16 :: "bytes \<Rightarrow> bytes \<times> int" where
  "snprintf16 s = (take 15 s @ replicate (16 - length (take 15 s)) 0, int (length s))"

text \<open>The first \<open>len\<close> bytes of an array of 16 bytes; \<open>None\<close> is a read outside it.\<close>

definition array16 :: "bytes \<Rightarrow> int \<Rightarrow> bytes option" where
  "array16 a len = (if 0 \<le> len \<and> len \<le> 16 then Some (take (nat len) a) else None)"

definition set_max_chunk_size :: "int \<Rightarrow> chunked \<Rightarrow> chunked" where
  "set_max_chunk_size sz c =
     (let n = if sz \<noteq> 0 then sz else DEFAULT_MAX_CHUNK_SIZE
      in case snprintf16 (CHUNK_HEADER n) of
           (a, len) \<Rightarrow> c\<lparr>max_chunk_size := n, max_chunk_header := a, max_chunk_header_len := len\<rparr>)"

section \<open>Starting\<close>

text \<open>
  \<open>m\<close> is the buffer of the reader \<open>buffer_in\<close>; the three flags are those of the producer. The clone
  is one of the readers of \<open>m\<close>.
\<close>

definition chunked_init ::
    "reader \<Rightarrow> mio \<Rightarrow> bool \<Rightarrow> bool \<Rightarrow> ioheap \<Rightarrow> chunked \<Rightarrow> (ioheap \<times> mio \<times> chunked) option" where
  "chunked_init buffer_in m do_chunking do_dechunking h c =
     (case clone_reader buffer_in m of
        None \<Rightarrow> None
      | Some (m1, i) \<Rightarrow>
          (let c1 = c\<lparr>running_sum := 0, num_digits := 0, cur_chunk_size := 0, bytes_left := 0, truncation := False\<rparr>
           in Some (if do_chunking
                    then (case new_MIOBuffer CHUNK_IOBUFFER_SIZE_INDEX h of
                            (h1, d) \<Rightarrow> (h1, m1\<lparr>water_mark := min_block_transfer_bytes\<rparr>,
                                       c1\<lparr>dechunked_reader := readers m1 ! i, chunked_buffer := d, chunked_size := 0\<rparr>))
                    else if do_dechunking
                    then (case new_MIOBuffer 1 h of
                            (h1, d) \<Rightarrow> (h1, m1, c1\<lparr>chunked_reader := readers m1 ! i, dechunked_buffer := Some d,
                                                  dechunked_size := 0\<rparr>))
                    else (h, m1, c1\<lparr>chunked_reader := readers m1 ! i\<rparr>))))"

definition set_producer_chunking_action :: "int \<Rightarrow> chunking_action \<Rightarrow> chunked \<Rightarrow> chunked" where
  "set_producer_chunking_action skip action c =
     (let c1 = c\<lparr>skip_bytes := skip\<rparr>
      in case action of
           TCA_CHUNK_CONTENT \<Rightarrow> c1\<lparr>cstate := CHUNK_WRITE_CHUNK\<rparr>
         | TCA_DECHUNK_CONTENT \<Rightarrow> c1\<lparr>cstate := CHUNK_READ_SIZE\<rparr>
         | TCA_PASSTHRU_CHUNKED_CONTENT \<Rightarrow> c1\<lparr>cstate := CHUNK_READ_SIZE\<rparr>
         | _ \<Rightarrow> c1)"

section \<open>Decoding\<close>

text \<open>One character of \<open>read_size\<close>; the flag is \<open>done\<close>.\<close>

definition size_char :: "chunked \<Rightarrow> u8 \<Rightarrow> chunked \<times> bool" where
  "size_char c x =
     (case cstate c of
        CHUNK_READ_SIZE \<Rightarrow>
          if is_hex x
          then (c\<lparr>num_digits := num_digits c + 1,
                  running_sum := running_sum c * 16 +
                    (if is_digit x then ucast x - 48 else ucast (ink_tolower x) - 97 + 10)\<rparr>, False)
          else if num_digits c = 0 \<or> sint (running_sum c) < 0 then (c\<lparr>cstate := CHUNK_READ_ERROR\<rparr>, True)
          else (c\<lparr>cstate := CHUNK_READ_SIZE_CRLF\<rparr>, False)
      | CHUNK_READ_SIZE_CRLF \<Rightarrow>
          if is_lf x
          then (c\<lparr>cur_chunk_size := sint (running_sum c), bytes_left := sint (running_sum c),
                  cstate := (if running_sum c = 0 then CHUNK_READ_TRAILER_BLANK else CHUNK_READ_CHUNK)\<rparr>, True)
          else (c, False)
      | CHUNK_READ_SIZE_START \<Rightarrow>
          if is_lf x then (c\<lparr>running_sum := 0, num_digits := 0, cstate := CHUNK_READ_SIZE\<rparr>, False) else (c, False)
      | _ \<Rightarrow> (c, False))"

definition read_size :: "ioheap \<Rightarrow> chunked \<Rightarrow> chunked option" where
  "read_size h c =
     map_option (\<lambda>(r, c'). c'\<lparr>chunked_reader := r\<rparr>)
       (scan_blocks (\<lambda>r. map_option (\<lambda>a. a > 0) (reader_avail h r)) (block_bytes h) (\<lambda>n. consume n h)
          size_char False (chunked_reader c) c)"

definition trailer_char :: "chunked \<Rightarrow> u8 \<Rightarrow> chunked \<times> bool" where
  "trailer_char c x =
     (if is_cr x
      then (c\<lparr>cstate := (if cstate c = CHUNK_READ_TRAILER_BLANK then CHUNK_READ_TRAILER_CR else CHUNK_READ_TRAILER_LINE)\<rparr>,
            False)
      else if is_lf x
      then (if cstate c = CHUNK_READ_TRAILER_CR \<or> cstate c = CHUNK_READ_TRAILER_BLANK
            then (c\<lparr>cstate := CHUNK_READ_DONE\<rparr>, True) else (c\<lparr>cstate := CHUNK_READ_TRAILER_BLANK\<rparr>, False))
      else (c\<lparr>cstate := CHUNK_READ_TRAILER_LINE\<rparr>, False))"

definition read_trailer :: "ioheap \<Rightarrow> chunked \<Rightarrow> chunked option" where
  "read_trailer h c =
     map_option (\<lambda>(r, c'). c'\<lparr>chunked_reader := r\<rparr>)
       (scan_blocks (is_read_avail_more_than 0 h) (block_bytes h) (\<lambda>n. consume n h)
          trailer_char False (chunked_reader c) c)"

text \<open>
  Moving the bytes of a chunk: the heap, the reader, the destination, the bytes left and those moved.
\<close>

definition move_some :: "ioheap \<Rightarrow> reader \<Rightarrow> mio \<Rightarrow> int \<Rightarrow> int \<Rightarrow> (ioheap \<times> mio \<times> reader \<times> int) option" where
  "move_some h r d left to_move =
     (if to_move \<ge> min_block_transfer_bytes
      then map_option (\<lambda>(h', d', n). (h', d', r, n)) (mio_write_reader r left 0 h d)
      else (case reader_start h r of
              None \<Rightarrow> None
            | Some (r1, a, p) \<Rightarrow>
                (case copy_out a p to_move h of
                   None \<Rightarrow> None
                 | Some xs \<Rightarrow> map_option (\<lambda>(h', d'). (h', d', r1, to_move)) (mio_write xs h d))))"

partial_function (option) transfer_loop ::
    "ioheap \<Rightarrow> reader \<Rightarrow> mio \<Rightarrow> int \<Rightarrow> int \<Rightarrow> (ioheap \<times> reader \<times> mio \<times> int \<times> int) option" where
  "transfer_loop h r d left tot =
     (if left > 0
      then (case block_read_avail h r of
              None \<Rightarrow> None
            | Some (r1, avail) \<Rightarrow>
                if min left avail \<le> 0 then Some (h, r1, d, left, tot)
                else (case move_some h r1 d left (min left avail) of
                        None \<Rightarrow> None
                      | Some (h2, d2, r2, moved) \<Rightarrow>
                          if moved > 0
                          then (case consume moved h2 r2 of
                                  None \<Rightarrow> None
                                | Some r3 \<Rightarrow> transfer_loop h2 r3 d2 (left - moved) (tot + moved))
                          else Some (h2, r2, d2, left, tot)))
      else Some (h, r, d, left, tot))"

definition transfer_bytes :: "ioheap \<Rightarrow> chunked \<Rightarrow> (ioheap \<times> chunked \<times> int) option" where
  "transfer_bytes h c =
     (case dechunked_buffer c of
        None \<Rightarrow>
          (case reader_avail h (chunked_reader c) of
             None \<Rightarrow> None
           | Some a \<Rightarrow>
               (let moved = min (bytes_left c) a
                in map_option (\<lambda>r. (h, c\<lparr>chunked_reader := r, bytes_left := bytes_left c - moved\<rparr>, moved))
                     (consume moved h (chunked_reader c))))
      | Some d \<Rightarrow>
          map_option (\<lambda>(h', r, d', left, tot).
              (h', c\<lparr>chunked_reader := r, dechunked_buffer := Some d', bytes_left := left,
                     dechunked_size := dechunked_size c + tot\<rparr>, tot))
            (transfer_loop h (chunked_reader c) d (bytes_left c) 0))"

definition read_chunk :: "ioheap \<Rightarrow> chunked \<Rightarrow> (ioheap \<times> chunked) option" where
  "read_chunk h c =
     map_option (\<lambda>(h', c', b). (h', if bytes_left c' = 0 then c'\<lparr>cstate := CHUNK_READ_SIZE_START\<rparr> else c'))
       (transfer_bytes h c)"

text \<open>The states that \<open>process_chunked_content\<close> has no case for end in a release assertion.\<close>

partial_function (option) process_chunked_content :: "ioheap \<Rightarrow> chunked \<Rightarrow> (ioheap \<times> chunked \<times> bool) option" where
  "process_chunked_content h c =
     (case is_read_avail_more_than 0 h (chunked_reader c) of
        None \<Rightarrow> None
      | Some b \<Rightarrow>
          if b \<and> cstate c \<noteq> CHUNK_READ_DONE \<and> cstate c \<noteq> CHUNK_READ_ERROR
          then (if cstate c \<in> {CHUNK_READ_SIZE, CHUNK_READ_SIZE_CRLF, CHUNK_READ_SIZE_START}
                then Option.bind (read_size h c) (process_chunked_content h)
                else if cstate c = CHUNK_READ_CHUNK
                then Option.bind (read_chunk h c) (\<lambda>hc. process_chunked_content (fst hc) (snd hc))
                else if cstate c \<in> {CHUNK_READ_TRAILER_BLANK, CHUNK_READ_TRAILER_CR, CHUNK_READ_TRAILER_LINE}
                then Option.bind (read_trailer h c) (process_chunked_content h)
                else if cstate c = CHUNK_FLOW_CONTROL then Some (h, c, False)
                else None)
          else Some (h, c, cstate c = CHUNK_READ_DONE \<or> cstate c = CHUNK_READ_ERROR))"

section \<open>Producing\<close>

text \<open>\<open>chunked_buffer->write\<close> with the count of bytes.\<close>

definition emit :: "bytes \<Rightarrow> ioheap \<Rightarrow> chunked \<Rightarrow> (ioheap \<times> chunked) option" where
  "emit xs h c =
     map_option (\<lambda>(h', d). (h', c\<lparr>chunked_buffer := d, chunked_size := chunked_size c + int (length xs)\<rparr>))
       (mio_write xs h (chunked_buffer c))"

definition chunk_size_line :: "int \<Rightarrow> chunked \<Rightarrow> bytes option" where
  "chunk_size_line n c =
     (if n \<noteq> max_chunk_size c then (case snprintf16 (CHUNK_HEADER n) of (a, len) \<Rightarrow> array16 a len)
      else array16 (max_chunk_header c) (max_chunk_header_len c))"

text \<open>One chunk of \<open>n\<close> bytes.\<close>

definition generate_chunk :: "int \<Rightarrow> ioheap \<Rightarrow> chunked \<Rightarrow> (ioheap \<times> chunked) option" where
  "generate_chunk n h c =
     (case chunk_size_line n c of
        None \<Rightarrow> None
      | Some line \<Rightarrow>
          (case emit line h (c\<lparr>cstate := CHUNK_WRITE_CHUNK\<rparr>) of
             None \<Rightarrow> None
           | Some (h1, c1) \<Rightarrow>
               (case mio_write_reader (dechunked_reader c1) n 0 h1 (chunked_buffer c1) of
                  None \<Rightarrow> None
                | Some (h2, d2, w) \<Rightarrow>
                    (case consume n h2 (dechunked_reader c1) of
                       None \<Rightarrow> None
                     | Some r \<Rightarrow>
                         emit [CHAR_CR, CHAR_LF] h2
                           (c1\<lparr>chunked_buffer := d2, chunked_size := chunked_size c1 + n, dechunked_reader := r\<rparr>)))))"

partial_function (option) generate_loop :: "ioheap \<Rightarrow> chunked \<Rightarrow> (ioheap \<times> chunked) option" where
  "generate_loop h c =
     (case reader_avail h (dechunked_reader c) of
        None \<Rightarrow> None
      | Some a \<Rightarrow>
          if a > 0 \<and> cstate c \<noteq> CHUNK_WRITE_DONE
          then Option.bind (generate_chunk (min (max_chunk_size c) a) h c) (\<lambda>hc. generate_loop (fst hc) (snd hc))
          else Some (h, c))"

definition server_done :: "tunnel_event \<Rightarrow> bool" where
  "server_done e \<longleftrightarrow> e = VC_EVENT_EOS \<or> e = VC_EVENT_READ_COMPLETE \<or> e = HTTP_TUNNEL_EVENT_PRECOMPLETE"

definition LAST_CHUNK :: bytes where
  "LAST_CHUNK = [48, CHAR_CR, CHAR_LF, CHAR_CR, CHAR_LF]"

definition generate_chunked_content :: "ioheap \<Rightarrow> chunked \<Rightarrow> (ioheap \<times> chunked \<times> bool) option" where
  "generate_chunked_content h c =
     (case generate_loop h c of
        None \<Rightarrow> None
      | Some (h1, c1) \<Rightarrow>
          if server_done (last_server_event c)
          then map_option (\<lambda>(h2, c2). (h2, c2, True)) (emit LAST_CHUNK h1 (c1\<lparr>cstate := CHUNK_WRITE_DONE\<rparr>))
          else Some (h1, c1, False))"

section \<open>The handlers of a producer\<close>

text \<open>The event that goes on to the state machine; \<open>last_event\<close> of the producer is the event itself.\<close>

definition chunk_event :: "tunnel_event \<Rightarrow> bool" where
  "chunk_event e \<longleftrightarrow> e = VC_EVENT_READ_READY \<or> e = VC_EVENT_READ_COMPLETE \<or> e = HTTP_TUNNEL_EVENT_PRECOMPLETE \<or> e = VC_EVENT_EOS"

definition producer_handler_dechunked :: "tunnel_event \<Rightarrow> ioheap \<Rightarrow> chunked \<Rightarrow> (ioheap \<times> chunked \<times> tunnel_event) option" where
  "producer_handler_dechunked e h c =
     (if chunk_event e
      then map_option (\<lambda>(h', c', b). (h', c', e)) (generate_chunked_content h (c\<lparr>last_server_event := e\<rparr>))
      else Some (h, c, e))"

definition producer_handler_chunked :: "tunnel_event \<Rightarrow> ioheap \<Rightarrow> chunked \<Rightarrow> (ioheap \<times> chunked \<times> tunnel_event) option" where
  "producer_handler_chunked e h c =
     (if \<not> chunk_event e then Some (h, c, e)
      else (case process_chunked_content h (c\<lparr>last_server_event := e\<rparr>) of
              None \<Rightarrow> None
            | Some (h1, c1, done) \<Rightarrow>
                Some (if cstate c1 = CHUNK_READ_ERROR then (h1, c1\<lparr>truncation := True\<rparr>, VC_EVENT_EOS)
                      else if e = VC_EVENT_READ_READY
                      then (h1, c1, if done then VC_EVENT_READ_COMPLETE else e)
                      else (h1, if done then c1 else c1\<lparr>truncation := True\<rparr>, e))))"

end
