(* ===== verification/ChunkedSpec.thy ===== *)
theory ChunkedSpec
  imports Chunked
begin

text \<open>
  The chunked decoder as an automaton over single bytes: what \<open>process_chunked_content\<close> does with the
  blocks of a buffer is what the automaton does with the bytes, however they are split into blocks
  and whenever they arrive. The producer writes the coding of the bytes, and what it writes decodes
  to the same bytes.
\<close>

section \<open>The automaton\<close>

definition finished :: "chunked \<Rightarrow> bool" where
  "finished c \<longleftrightarrow> cstate c = CHUNK_READ_DONE \<or> cstate c = CHUNK_READ_ERROR"

text \<open>What the decoder keeps between bytes.\<close>

definition decoding :: "chunked \<Rightarrow> bool" where
  "decoding c \<longleftrightarrow> finished c \<or>
     cstate c \<in> {CHUNK_READ_SIZE, CHUNK_READ_SIZE_START, CHUNK_READ_TRAILER_BLANK, CHUNK_READ_TRAILER_CR, CHUNK_READ_TRAILER_LINE} \<or>
     (cstate c = CHUNK_READ_SIZE_CRLF \<and> 0 \<le> sint (running_sum c)) \<or> (cstate c = CHUNK_READ_CHUNK \<and> 0 < bytes_left c)"

definition chunk_data :: "nat \<Rightarrow> chunked \<Rightarrow> chunked" where
  "chunk_data n c =
     c\<lparr>bytes_left := bytes_left c - int n,
       dechunked_size := dechunked_size c + (if dechunked_buffer c = None then 0 else int n),
       cstate := (if bytes_left c = int n then CHUNK_READ_SIZE_START else cstate c)\<rparr>"

abbreviation kept :: "chunked \<Rightarrow> bytes \<Rightarrow> bytes" where
  "kept c xs \<equiv> (if dechunked_buffer c = None then [] else xs)"

definition chunk_byte :: "chunked \<Rightarrow> u8 \<Rightarrow> chunked \<times> bytes" where
  "chunk_byte c x =
     (if cstate c = CHUNK_READ_CHUNK then (chunk_data 1 c, kept c [x])
      else if cstate c \<in> {CHUNK_READ_TRAILER_BLANK, CHUNK_READ_TRAILER_CR, CHUNK_READ_TRAILER_LINE}
      then (fst (trailer_char c x), [])
      else (fst (size_char c x), []))"

text \<open>The state after the bytes, what they decode to, and the bytes after the end of the body.\<close>

fun chunk_run :: "chunked \<Rightarrow> bytes \<Rightarrow> chunked \<times> bytes \<times> bytes" where
  "chunk_run c [] = (c, [], [])"
| "chunk_run c (x # xs) =
     (if finished c then (c, [], x # xs)
      else (case chunk_byte c x of
              (c1, out1) \<Rightarrow> (case chunk_run c1 xs of (c2, out2, rest) \<Rightarrow> (c2, out1 @ out2, rest))))"

lemma chunk_run_finished: "finished c \<Longrightarrow> chunk_run c xs = (c, [], xs)"
  by (cases xs) simp_all

lemma chunk_run_append:
  "chunk_run c (xs @ ys) =
     (case chunk_run c xs of (c1, out1, r1) \<Rightarrow> (case chunk_run c1 (r1 @ ys) of (c2, out2, r2) \<Rightarrow> (c2, out1 @ out2, r2)))"
proof (induction xs arbitrary: c)
  case Nil
  then show ?case by (simp split: prod.split)
next
  case (Cons x xs)
  show ?case
  proof (cases "finished c")
    case True
    then show ?thesis by (simp split: prod.split)
  next
    case False
    obtain c1 o1 where 1: "chunk_byte c x = (c1, o1)" by fastforce
    obtain c2 o2 r2 where 2: "chunk_run c1 xs = (c2, o2, r2)" by (metis prod_cases3)
    obtain c3 o3 r3 where 3: "chunk_run c2 (r2 @ ys) = (c3, o3, r3)" by (metis prod_cases3)
    show ?thesis using False 1 2 3 Cons [of c1] by simp
  qed
qed

text \<open>The handler without its reader and buffer.\<close>

definition core :: "chunked \<Rightarrow> chunked" where
  "core c = c\<lparr>chunked_reader := reader_init, dechunked_buffer := map_option (\<lambda>_. mio_clear) (dechunked_buffer c)\<rparr>"

lemma core_simps [simp]:
  "cstate (core c) = cstate c" "running_sum (core c) = running_sum c" "num_digits (core c) = num_digits c"
  "bytes_left (core c) = bytes_left c" "finished (core c) = finished c" "decoding (core c) = decoding c"
  "dechunked_buffer (core c) = None \<longleftrightarrow> dechunked_buffer c = None" "dechunked_size (core c) = dechunked_size c"
  "core (c\<lparr>chunked_reader := r\<rparr>) = core c"
  "dechunked_buffer c = Some d \<Longrightarrow> core (c\<lparr>dechunked_buffer := Some d'\<rparr>) = core c"
  by (simp_all add: core_def finished_def decoding_def)

lemma core_upd:
  "core c\<lparr>cstate := s\<rparr> = core (c\<lparr>cstate := s\<rparr>)" "core c\<lparr>running_sum := w\<rparr> = core (c\<lparr>running_sum := w\<rparr>)"
  "core c\<lparr>num_digits := w\<rparr> = core (c\<lparr>num_digits := w\<rparr>)" "core c\<lparr>bytes_left := i\<rparr> = core (c\<lparr>bytes_left := i\<rparr>)"
  "core c\<lparr>cur_chunk_size := i\<rparr> = core (c\<lparr>cur_chunk_size := i\<rparr>)" "core c\<lparr>dechunked_size := i\<rparr> = core (c\<lparr>dechunked_size := i\<rparr>)"
  by (simp_all add: core_def)

lemma core_size_char: "size_char (core c) x = (core (fst (size_char c x)), snd (size_char c x))"
  by (simp add: size_char_def core_upd split: chunked_state.split)

lemma core_trailer_char: "trailer_char (core c) x = (core (fst (trailer_char c x)), snd (trailer_char c x))"
  by (simp add: trailer_char_def core_upd)

lemma core_chunk_data: "chunk_data n (core c) = core (chunk_data n c)"
  by (simp add: chunk_data_def core_def)

section \<open>Scanning sizes and trailers\<close>

abbreviation in_size :: "chunked \<Rightarrow> bool" where
  "in_size c \<equiv> cstate c \<in> {CHUNK_READ_SIZE, CHUNK_READ_SIZE_CRLF, CHUNK_READ_SIZE_START}"

abbreviation in_trailer :: "chunked \<Rightarrow> bool" where
  "in_trailer c \<equiv> cstate c \<in> {CHUNK_READ_TRAILER_BLANK, CHUNK_READ_TRAILER_CR, CHUNK_READ_TRAILER_LINE}"

lemma size_char_step:
  assumes "decoding c" "in_size c" "size_char c x = (c1, d)"
  shows "decoding c1 \<and> (\<not> d \<longrightarrow> in_size c1) \<and> dechunked_buffer c1 = dechunked_buffer c \<and> chunked_reader c1 = chunked_reader c"
proof -
  have p: "0 < sint (running_sum c)" if "running_sum c \<noteq> 0" "0 \<le> sint (running_sum c)"
    using that by (simp add: order.order_iff_strict signed_eq_0_iff)
  consider "cstate c = CHUNK_READ_SIZE" | "cstate c = CHUNK_READ_SIZE_CRLF" | "cstate c = CHUNK_READ_SIZE_START"
    using assms(2) by auto
  then show ?thesis
  proof cases
    case 1
    then show ?thesis using assms(3) by (auto simp: size_char_def decoding_def finished_def split: if_splits)
  next
    case 2
    then have "0 \<le> sint (running_sum c)" using assms(1) by (simp add: decoding_def finished_def)
    then show ?thesis using 2 assms(3) p by (auto simp: size_char_def decoding_def finished_def split: if_splits)
  next
    case 3
    then show ?thesis using assms(3) by (auto simp: size_char_def decoding_def finished_def split: if_splits)
  qed
qed

lemma trailer_char_step:
  assumes "in_trailer c" "trailer_char c x = (c1, d)"
  shows "decoding c1 \<and> (\<not> d \<longrightarrow> in_trailer c1) \<and> dechunked_buffer c1 = dechunked_buffer c \<and> chunked_reader c1 = chunked_reader c"
  using assms by (auto simp: trailer_char_def decoding_def finished_def split: if_splits)

lemma chunk_run_byte:
  "in_size c \<Longrightarrow> chunk_run c (x # xs) = chunk_run (fst (size_char c x)) xs"
  "in_trailer c \<Longrightarrow> chunk_run c (x # xs) = chunk_run (fst (trailer_char c x)) xs"
  by (auto simp: chunk_byte_def finished_def split: prod.split)

text \<open>A scan by a step function that the automaton follows.\<close>

lemma scan_run:
  assumes step: "\<And>c x xs. S c \<Longrightarrow> chunk_run (core c) (x # xs) = chunk_run (core (fst (f c x))) xs"
    and stay: "\<And>c x c1 d. S c \<Longrightarrow> f c x = (c1, d) \<Longrightarrow>
      decoding c1 \<and> (\<not> d \<longrightarrow> S c1) \<and> dechunked_buffer c1 = dechunked_buffer c \<and> chunked_reader c1 = chunked_reader c"
    and dec: "\<And>c. S c \<Longrightarrow> decoding c"
  shows "S c \<Longrightarrow> scan_block f c xs = (c', n, d) \<Longrightarrow>
    chunk_run (core c) xs = chunk_run (core c') (drop n xs) \<and> decoding c' \<and> dechunked_buffer c' = dechunked_buffer c \<and>
    chunked_reader c' = chunked_reader c"
proof (induction xs arbitrary: c n)
  case Nil
  then show ?case using dec by simp
next
  case (Cons x xs)
  obtain c1 d1 where 1: "f c x = (c1, d1)" by fastforce
  note s = stay [OF Cons.prems(1) 1]
  show ?case
  proof (cases d1)
    case True
    then have "c' = c1" "n = 1" using Cons.prems(2) 1 by simp_all
    then show ?thesis using step [OF Cons.prems(1), of x xs] 1 s by simp
  next
    case False
    obtain c2 k e where 2: "scan_block f c1 xs = (c2, k, e)" by (metis prod_cases3)
    then have e: "c' = c2" "n = Suc k" "d = e" using Cons.prems(2) 1 False by simp_all
    have "S c1" using s False by simp
    from Cons.IH [OF this, of k] 2 e have "chunk_run (core c1) xs = chunk_run (core c') (drop k xs) \<and> decoding c' \<and>
      dechunked_buffer c' = dechunked_buffer c1 \<and> chunked_reader c' = chunked_reader c1" by simp
    then show ?thesis using step [OF Cons.prems(1), of x xs] 1 s e(2) by simp
  qed
qed

lemma size_run:
  assumes "decoding c" "in_size c" "scan_block size_char c xs = (c', n, d)"
  shows "chunk_run (core c) xs = chunk_run (core c') (drop n xs) \<and> decoding c' \<and> dechunked_buffer c' = dechunked_buffer c \<and>
    chunked_reader c' = chunked_reader c"
proof (rule scan_run [where S = "\<lambda>c. decoding c \<and> in_size c"])
  show "chunk_run (core c) (x # xs) = chunk_run (core (fst (size_char c x))) xs" if "decoding c \<and> in_size c" for c x xs
    using that chunk_run_byte(1) [of "core c"] by (simp add: core_size_char)
  show "scan_block size_char c xs = (c', n, d)" by (rule assms(3))
  show "decoding c \<and> in_size c" using assms(1,2) by blast
  show "decoding c1 \<and> (\<not> d \<longrightarrow> decoding c1 \<and> in_size c1) \<and> dechunked_buffer c1 = dechunked_buffer c \<and>
    chunked_reader c1 = chunked_reader c" if "decoding c \<and> in_size c" "size_char c x = (c1, d)" for c x c1 d
    using size_char_step [OF _ _ that(2)] that(1) by blast
qed blast

lemma trailer_run:
  assumes "in_trailer c" "scan_block trailer_char c xs = (c', n, d)"
  shows "chunk_run (core c) xs = chunk_run (core c') (drop n xs) \<and> decoding c' \<and> dechunked_buffer c' = dechunked_buffer c \<and>
    chunked_reader c' = chunked_reader c"
proof (rule scan_run [where S = in_trailer])
  show "chunk_run (core c) (x # xs) = chunk_run (core (fst (trailer_char c x))) xs" if "in_trailer c" for c x xs
    using that chunk_run_byte(2) [of "core c"] by (simp add: core_trailer_char)
  show "scan_block trailer_char c xs = (c', n, d)" by (rule assms(2))
  show "decoding c" if "in_trailer c" for c using that by (auto simp: decoding_def)
  show "in_trailer c" by (rule assms(1))
qed (rule trailer_char_step)

text \<open>The bytes of a chunk.\<close>

lemma chunk_data_add: "cstate c = CHUNK_READ_CHUNK \<Longrightarrow> bytes_left c \<noteq> int m \<Longrightarrow>
  chunk_data n (chunk_data m c) = chunk_data (m + n) c"
  by (auto simp: chunk_data_def)

lemma chunk_data_run:
  "cstate c = CHUNK_READ_CHUNK \<Longrightarrow> int (length xs) \<le> bytes_left c \<Longrightarrow> xs \<noteq> [] \<Longrightarrow>
   chunk_run c xs = (chunk_data (length xs) c, kept c xs, [])"
proof (induction xs arbitrary: c)
  case (Cons x xs)
  have f: "\<not> finished c" "chunk_byte c x = (chunk_data 1 c, kept c [x])" using Cons.prems by (simp_all add: finished_def chunk_byte_def)
  show ?case
  proof (cases "xs = []")
    case True
    then show ?thesis using f by simp
  next
    case False
    then have lt: "bytes_left c \<noteq> int 1" using Cons.prems(2) by (cases xs) simp_all
    define c1 where "c1 = chunk_data 1 c"
    have c1: "cstate c1 = CHUNK_READ_CHUNK" "bytes_left c1 = bytes_left c - 1"
      "dechunked_buffer c1 = dechunked_buffer c" using Cons.prems(1) lt by (simp_all add: chunk_data_def c1_def)
    have "int (length xs) \<le> bytes_left c1" using Cons.prems(2) c1(2) by simp
    from Cons.IH [OF c1(1) this False]
    have "chunk_run c1 xs = (chunk_data (length xs) c1, kept c xs, [])" unfolding c1(3) .
    moreover have "chunk_data (length xs) c1 = chunk_data (length (x # xs)) c"
      unfolding c1_def using chunk_data_add [OF Cons.prems(1) lt, of "length xs"] by simp
    ultimately show ?thesis using f unfolding c1_def [symmetric] by simp
  qed
qed simp

section \<open>The decoder on buffers\<close>

interpretation io_avail: byte_source "\<lambda>r xs. pipe_rep s q h r d xs ys" "\<lambda>r. map_option (\<lambda>a. a > 0) (reader_avail h r)"
  "block_bytes h" "\<lambda>n. consume n h"
  using io.block_rep io.adv_rep by unfold_locales (auto simp: pipe_views(1))

text \<open>
  The handler \<open>c\<close> decodes from a reader of the buffer \<open>s\<close> that sees \<open>xs\<close> into \<open>d\<close>, whose reader \<open>q\<close>
  sees \<open>ys\<close>, or passes the bytes through; then \<open>d\<close> is any buffer that it leaves alone.
\<close>

definition chunk_rep :: "mio \<Rightarrow> reader \<Rightarrow> ioheap \<Rightarrow> chunked \<Rightarrow> mio \<Rightarrow> bytes \<Rightarrow> bytes \<Rightarrow> bool" where
  "chunk_rep s q h c d xs ys \<longleftrightarrow> pipe_rep s q h (chunked_reader c) d xs ys \<and> decoding c \<and>
     (\<forall>e. dechunked_buffer c = Some e \<longrightarrow> e = d)"

lemma read_size_ok:
  assumes "chunk_rep s q h c d xs ys" "in_size c" "xs \<noteq> []"
  shows "\<exists>c' n. read_size h c = Some c' \<and> chunk_rep s q h c' d (drop n xs) ys \<and> 0 < n \<and>
    chunk_run (core c) xs = chunk_run (core c') (drop n xs) \<and> (dechunked_buffer c' = None \<longleftrightarrow> dechunked_buffer c = None)"
proof -
  have p: "pipe_rep s q h (chunked_reader c) d xs ys" "decoding c" using assms(1) by (simp_all add: chunk_rep_def)
  obtain c1 n e where 1: "scan_block size_char c xs = (c1, n, e)" by (metis prod_cases3)
  note r = size_run [OF p(2) assms(2) 1]
  obtain r' where 2: "scan_blocks (\<lambda>r. map_option (\<lambda>a. a > 0) (reader_avail h r)) (block_bytes h) (\<lambda>n. consume n h)
      size_char False (chunked_reader c) c = Some (r', c1)" "pipe_rep s q h r' d (drop n xs) ys"
    using io_avail.scan_all [OF p(1) 1] by blast
  have "0 < n" using scan_block_le [OF 1] assms(3) by simp
  then show ?thesis using 2 r assms(1)
    by (intro exI [of _ "c1\<lparr>chunked_reader := r'\<rparr>"] exI [of _ n])
      (simp add: read_size_def chunk_rep_def decoding_def finished_def)
qed

lemma read_trailer_ok:
  assumes "chunk_rep s q h c d xs ys" "in_trailer c" "xs \<noteq> []"
  shows "\<exists>c' n. read_trailer h c = Some c' \<and> chunk_rep s q h c' d (drop n xs) ys \<and> 0 < n \<and>
    chunk_run (core c) xs = chunk_run (core c') (drop n xs) \<and> (dechunked_buffer c' = None \<longleftrightarrow> dechunked_buffer c = None)"
proof -
  have p: "pipe_rep s q h (chunked_reader c) d xs ys" "decoding c" using assms(1) by (simp_all add: chunk_rep_def)
  obtain c1 n e where 1: "scan_block trailer_char c xs = (c1, n, e)" by (metis prod_cases3)
  note r = trailer_run [OF assms(2) 1]
  obtain r' where 2: "scan_blocks (is_read_avail_more_than 0 h) (block_bytes h) (\<lambda>n. consume n h)
      trailer_char False (chunked_reader c) c = Some (r', c1)" "pipe_rep s q h r' d (drop n xs) ys"
    using io.scan_all [OF p(1) 1] by blast
  have "0 < n" using scan_block_le [OF 1] assms(3) by simp
  then show ?thesis using 2 r assms(1)
    by (intro exI [of _ "c1\<lparr>chunked_reader := r'\<rparr>"] exI [of _ n])
      (simp add: read_trailer_def chunk_rep_def decoding_def finished_def)
qed

text \<open>The first block of a reader.\<close>

lemma pipe_block:
  assumes "pipe_rep s q h r d xs ys"
  shows "\<exists>r1 n a p. block_read_avail h r = Some (r1, int n) \<and> pipe_rep s q h r1 d xs ys \<and> n \<le> length xs \<and>
    (xs \<noteq> [] \<longrightarrow> 0 < n) \<and> reader_start h r1 = Some (r1, a, p) \<and>
    (\<forall>k. 0 \<le> k \<and> k \<le> int n \<longrightarrow> copy_out a p k h = Some (take (nat k) xs))"
proof -
  let ?P = "\<lambda>r1. \<exists>n a p. block_read_avail h r = Some (r1, int n) \<and> n \<le> length xs \<and> (xs \<noteq> [] \<longrightarrow> 0 < n) \<and>
    reader_start h r1 = Some (r1, a, p) \<and> (\<forall>k. 0 \<le> k \<and> k \<le> int n \<longrightarrow> copy_out a p k h = Some (take (nat k) xs))"
  have h: "heap_ok h" using assms by (simp add: pipe_rep_def)
  have "\<exists>r1. ?P r1 \<and> pipe_rep s q h r1 d xs ys"
    by (rule pipe_reader [OF assms]) (use block_read_avail_ok [OF h] in blast)
  then show ?thesis by blast
qed

lemma transfer_loop_ok:
  "pipe_rep s q h r d xs ys \<Longrightarrow>
   \<exists>h' r' d'. transfer_loop h r d (int left) tot =
       Some (h', r', d', int (left - min left (length xs)), tot + int (min left (length xs))) \<and>
     pipe_rep s q h' r' d' (drop left xs) (ys @ take left xs)"
proof (induction left arbitrary: h r d xs ys tot rule: less_induct)
  case (less left)
  show ?case
  proof (cases "left = 0")
    case True
    then show ?thesis using less.prems by (subst transfer_loop.simps) auto
  next
    case l: False
    obtain r1 n a p where 1: "block_read_avail h r = Some (r1, int n)" "pipe_rep s q h r1 d xs ys" "n \<le> length xs"
      "xs \<noteq> [] \<longrightarrow> 0 < n" "reader_start h r1 = Some (r1, a, p)"
      "\<forall>k. 0 \<le> k \<and> k \<le> int n \<longrightarrow> copy_out a p k h = Some (take (nat k) xs)"
      using pipe_block [OF less.prems] by (elim exE conjE) (rule that)
    show ?thesis
    proof (cases "xs = []")
      case True
      then have "n = 0" using 1(3) by simp
      then show ?thesis using l 1(1,2) True by (subst transfer_loop.simps) simp
    next
      case False
      define m where "m = (if int (min left n) \<ge> min_block_transfer_bytes then min left (length xs) else min left n)"
      have n: "0 < n" "\<not> min (int left) (int n) \<le> 0" "min (int left) (int n) = int (min left n)" using 1(4) False l by auto
      have m: "0 < m" "m \<le> left" "m \<le> length xs" using n(1) l 1(3) False by (auto simp: m_def)
      have "\<exists>h2 d2 r3. move_some h r1 d (int left) (min (int left) (int n)) = Some (h2, d2, r1, int m) \<and>
        consume (int m) h2 r1 = Some r3 \<and> pipe_rep s q h2 r3 d2 (drop m xs) (ys @ take m xs)"
      proof (cases "int (min left n) \<ge> min_block_transfer_bytes")
        case True
        then have mm: "m = min left (length xs)" by (simp add: m_def)
        have "drop m xs = drop left xs" "take m xs = take left xs" unfolding mm by (simp_all add: min_def)
        then show ?thesis using pipe.move_ref [OF 1(2), of left] True unfolding move_some_def n(3) mm by auto
      next
        case False
        then have mm: "m = min left n" by (simp add: m_def)
        have c: "copy_out a p (int (min left n)) h = Some (take m xs)" using 1(6) by (simp add: mm)
        show ?thesis using pipe.move_copy [OF 1(2) m(3)] False c 1(5) unfolding move_some_def n(3) mm [symmetric] by auto
      qed
      then obtain h2 d2 r3 where 2: "move_some h r1 d (int left) (min (int left) (int n)) = Some (h2, d2, r1, int m)"
        "consume (int m) h2 r1 = Some r3" "pipe_rep s q h2 r3 d2 (drop m xs) (ys @ take m xs)" by blast
      have step: "transfer_loop h r d (int left) tot = transfer_loop h2 r3 d2 (int (left - m)) (tot + int m)"
        using l 1(1) n(2) 2(1,2) m(1,2) by (subst transfer_loop.simps) (simp add: of_nat_diff)
      have "left - m < left" using m by simp
      from less.IH [OF this 2(3), of "tot + int m"] obtain h' r' d' where
        3: "transfer_loop h2 r3 d2 (int (left - m)) (tot + int m) =
          Some (h', r', d', int (left - m - min (left - m) (length (drop m xs))), tot + int m + int (min (left - m) (length (drop m xs))))"
          "pipe_rep s q h' r' d' (drop (left - m) (drop m xs)) ((ys @ take m xs) @ take (left - m) (drop m xs))" by blast
      have e: "left - m - min (left - m) (length (drop m xs)) = left - min left (length xs)"
        "tot + int m + int (min (left - m) (length (drop m xs))) = tot + int (min left (length xs))"
        using m by (auto simp: min_def)
      have "take m xs @ take (left - m) (drop m xs) = take left xs" using m(2) by (metis le_add_diff_inverse take_add)
      then show ?thesis using step 3 m(2) unfolding e by auto
    qed
  qed
qed

lemma read_chunk_ok:
  assumes "chunk_rep s q h c d xs ys" "cstate c = CHUNK_READ_CHUNK" "xs \<noteq> []"
  shows "\<exists>h' c' d' n. read_chunk h c = Some (h', c') \<and> chunk_rep s q h' c' d' (drop n xs) (ys @ kept c (take n xs)) \<and> 0 < n \<and>
    chunk_run (core c) (take n xs) = (core c', kept c (take n xs), []) \<and>
    (dechunked_buffer c' = None \<longleftrightarrow> dechunked_buffer c = None)"
proof -
  have p: "pipe_rep s q h (chunked_reader c) d xs ys" "0 < bytes_left c" "\<And>e. dechunked_buffer c = Some e \<Longrightarrow> e = d"
    using assms(1,2) by (auto simp: chunk_rep_def decoding_def finished_def)
  define L where "L = nat (bytes_left c)"
  define k where "k = min L (length xs)"
  have L: "bytes_left c = int L" "0 < L" using p(2) by (simp_all add: L_def)
  have k: "0 < k" "k \<le> L" "k \<le> length xs" using L(2) assms(3) by (simp_all add: k_def)
  have kk: "drop L xs = drop k xs" "take L xs = take k xs" by (simp_all add: k_def min_def)
  let ?cs = "if L = k then CHUNK_READ_SIZE_START else cstate c"
  have run: "chunk_run (core c) (take k xs) = (core (chunk_data k c), kept c (take k xs), [])"
    using chunk_data_run [of "core c" "take k xs"] assms(2,3) k L by (simp add: core_chunk_data)
  show ?thesis
  proof (cases "dechunked_buffer c")
    case None
    have a: "reader_avail h (chunked_reader c) = Some (int (length xs))" by (rule pipe_views(1) [OF p(1)])
    obtain r' where r': "consume (int k) h (chunked_reader c) = Some r'" "pipe_rep s q h r' d (drop k xs) ys"
      using io.adv_rep [OF p(1) k(3)] by blast
    have mn: "min (int L) (int (length xs)) = int k" by (simp add: k_def)
    let ?c = "c\<lparr>chunked_reader := r', bytes_left := int L - int k, cstate := ?cs\<rparr>"
    have "read_chunk h c = Some (h, ?c)"
      using None a r'(1) L(1) by (simp add: read_chunk_def transfer_bytes_def Let_def mn)
    moreover have "core ?c = core (chunk_data k c)" using None L(1) by (simp add: core_def chunk_data_def)
    moreover have "decoding ?c" using k(2) by (auto simp: decoding_def finished_def assms(2))
    ultimately show ?thesis using run r'(2) k(1) None
      by (intro exI [of _ h] exI [of _ ?c] exI [of _ d] exI [of _ k]) (simp add: chunk_rep_def)
  next
    case (Some e)
    then have e: "dechunked_buffer c = Some d" using p(3) by simp
    obtain h' r' d' where t: "transfer_loop h (chunked_reader c) d (int L) 0 = Some (h', r', d', int (L - k), 0 + int k)"
      "pipe_rep s q h' r' d' (drop k xs) (ys @ take k xs)"
      using transfer_loop_ok [OF p(1), of L 0] unfolding kk k_def [symmetric] by blast
    let ?c = "c\<lparr>chunked_reader := r', dechunked_buffer := Some d', bytes_left := int (L - k),
      dechunked_size := dechunked_size c + int k, cstate := ?cs\<rparr>"
    have "read_chunk h c = Some (h', ?c)"
      using e t(1) L(1) k(2) by (auto simp: read_chunk_def transfer_bytes_def)
    moreover have "core ?c = core (chunk_data k c)" using e L(1) k(2) by (simp add: core_def chunk_data_def of_nat_diff)
    moreover have "decoding ?c" using k(2) by (auto simp: decoding_def finished_def assms(2))
    ultimately show ?thesis using run t(2) k(1) e
      by (intro exI [of _ h'] exI [of _ ?c] exI [of _ d'] exI [of _ k]) (simp add: chunk_rep_def)
  qed
qed

lemma process_step:
  assumes "is_read_avail_more_than 0 h (chunked_reader c) = Some True" "\<not> finished c"
  shows "in_size c \<Longrightarrow> process_chunked_content h c = Option.bind (read_size h c) (process_chunked_content h)"
    and "cstate c = CHUNK_READ_CHUNK \<Longrightarrow>
      process_chunked_content h c = Option.bind (read_chunk h c) (\<lambda>hc. process_chunked_content (fst hc) (snd hc))"
    and "in_trailer c \<Longrightarrow> process_chunked_content h c = Option.bind (read_trailer h c) (process_chunked_content h)"
proof -
  note s = process_chunked_content.simps [of h c] assms(1)
  have f: "cstate c \<noteq> CHUNK_READ_DONE" "cstate c \<noteq> CHUNK_READ_ERROR" using assms(2) by (simp_all add: finished_def)
  show "process_chunked_content h c = Option.bind (read_size h c) (process_chunked_content h)" if "in_size c"
    by (subst s(1)) (simp only: s(2) option.case f simp_thms that if_True not_False_eq_True)
  show "process_chunked_content h c = Option.bind (read_chunk h c) (\<lambda>hc. process_chunked_content (fst hc) (snd hc))"
    if "cstate c = CHUNK_READ_CHUNK" by (subst s(1)) (simp add: s(2) that)
  show "process_chunked_content h c = Option.bind (read_trailer h c) (process_chunked_content h)" if t: "in_trailer c"
  proof -
    have "\<not> in_size c" "cstate c \<noteq> CHUNK_READ_CHUNK" using t by auto
    then show ?thesis by (subst s(1)) (simp only: s(2) option.case f simp_thms t if_True if_False)
  qed
qed

lemma process_ok:
  "chunk_rep s q h c d xs ys \<Longrightarrow> chunk_run (core c) xs = (k, out, rest) \<Longrightarrow>
   \<exists>h' c' d'. process_chunked_content h c = Some (h', c', finished k) \<and> core c' = k \<and>
     chunk_rep s q h' c' d' rest (ys @ out)"
proof (induction "length xs" arbitrary: h c d xs ys out rule: less_induct)
  case less
  have p: "pipe_rep s q h (chunked_reader c) d xs ys" "decoding c" using less.prems(1) by (simp_all add: chunk_rep_def)
  have more: "is_read_avail_more_than 0 h (chunked_reader c) = Some (xs \<noteq> [])" by (rule io.left_rep [OF p(1)])
  show ?case
  proof (cases "xs = [] \<or> finished c")
    case True
    then have "k = core c" "out = []" "rest = xs" using less.prems(2) chunk_run_finished [of "core c" xs] by auto
    moreover have "process_chunked_content h c = Some (h, c, finished c)"
      using True more by (subst process_chunked_content.simps) (auto simp: finished_def)
    ultimately show ?thesis using less.prems(1) by (intro exI [of _ h] exI [of _ c] exI [of _ d]) simp
  next
    case False
    then have ne: "xs \<noteq> []" and nf: "cstate c \<noteq> CHUNK_READ_DONE" "cstate c \<noteq> CHUNK_READ_ERROR" "\<not> finished c"
      by (simp_all add: finished_def)
    have mt: "is_read_avail_more_than 0 h (chunked_reader c) = Some True" using more ne by simp
    have shorter: "length (drop n xs) < length xs" if "0 < n" for n using ne that by (simp add: Suc_le_eq)
    consider "in_size c" | "cstate c = CHUNK_READ_CHUNK" | "in_trailer c"
      using p(2) nf(3) by (auto simp: decoding_def)
    then show ?thesis
    proof cases
      case 1
      obtain c1 n where 2: "read_size h c = Some c1" "chunk_rep s q h c1 d (drop n xs) ys" "0 < n"
        "chunk_run (core c) xs = chunk_run (core c1) (drop n xs)"
        using read_size_ok [OF less.prems(1) 1 ne] by blast
      have "chunk_run (core c1) (drop n xs) = (k, out, rest)" using less.prems(2) 2(4) by simp
      note IH = less.hyps [OF shorter [OF 2(3)] 2(2) this]
      have "process_chunked_content h c = process_chunked_content h c1"
        using process_step(1) [OF mt nf(3) 1] 2(1) by simp
      then show ?thesis using IH by simp
    next
      case 3
      obtain c1 n where 2: "read_trailer h c = Some c1" "chunk_rep s q h c1 d (drop n xs) ys" "0 < n"
        "chunk_run (core c) xs = chunk_run (core c1) (drop n xs)"
        using read_trailer_ok [OF less.prems(1) 3 ne] by blast
      have "chunk_run (core c1) (drop n xs) = (k, out, rest)" using less.prems(2) 2(4) by simp
      note IH = less.hyps [OF shorter [OF 2(3)] 2(2) this]
      have "process_chunked_content h c = process_chunked_content h c1"
        using process_step(3) [OF mt nf(3) 3] 2(1) by simp
      then show ?thesis using IH by simp
    next
      case 2
      obtain h1 c1 d1 n where 3: "read_chunk h c = Some (h1, c1)" "chunk_rep s q h1 c1 d1 (drop n xs) (ys @ kept c (take n xs))"
        "0 < n" "chunk_run (core c) (take n xs) = (core c1, kept c (take n xs), [])"
        using read_chunk_ok [OF less.prems(1) 2 ne] by blast
      obtain k2 o2 r2 where 4: "chunk_run (core c1) (drop n xs) = (k2, o2, r2)" by (metis prod_cases3)
      have "chunk_run (core c) (take n xs @ drop n xs) = (k2, kept c (take n xs) @ o2, r2)"
        using 4 by (subst chunk_run_append) (simp add: 3(4))
      then have e: "k = k2" "out = kept c (take n xs) @ o2" "rest = r2" using less.prems(2) by simp_all
      note IH = less.hyps [OF shorter [OF 3(3)] 3(2) 4 [folded e(1,3)]]
      have "process_chunked_content h c = process_chunked_content h1 c1"
        using process_step(2) [OF mt nf(3) 2] 3(1) by simp
      then show ?thesis using IH unfolding e(2) append_assoc by simp
    qed
  qed
qed

section \<open>Sizes in hexadecimal\<close>

lemma hex_digits_length: "n < 16 ^ k \<Longrightarrow> 0 < k \<Longrightarrow> length (hex_digits n) \<le> k"
proof (induction k arbitrary: n)
  case (Suc k)
  show ?case
  proof (cases "n < 16")
    case True
    then show ?thesis by (simp add: hex_digits.simps [of n])
  next
    case False
    then have "0 < k" using Suc.prems(1) by (cases k) auto
    moreover have "n div 16 < 16 ^ k" using Suc.prems(1) by (simp add: less_mult_imp_div_less mult.commute)
    ultimately show ?thesis using Suc.IH False by (simp add: hex_digits.simps [of n])
  qed
qed simp

lemma hex_digits_nonempty: "hex_digits n \<noteq> []"
  by (simp add: hex_digits.simps [of n])

lemma hex_char_size:
  assumes "d < 16"
  shows "is_hex (hex_char d) \<and>
    (if is_digit (hex_char d) then ucast (hex_char d) - 48 else ucast (ink_tolower (hex_char d)) - 97 + 10) = (of_nat d :: s32)"
proof -
  have "d \<in> {0, 1, 2, 3, 4, 5, 6, 7, 8, 9, 10, 11, 12, 13, 14, 15}" using assms unfolding insert_iff empty_iff by presburger
  then show ?thesis
    unfolding is_cls_iff ink_tolower_iff
    by (elim insertE emptyE)
      (simp_all add: hex_char_def is_hex0_def is_digit0_def ink_tolower0_def is_upalpha0_def of_char_def word_le_nat_alt)
qed

text \<open>Reading a size.\<close>

definition sized :: "nat \<Rightarrow> nat \<Rightarrow> chunked \<Rightarrow> chunked" where
  "sized n k c = c\<lparr>num_digits := num_digits c + of_nat k, running_sum := running_sum c * 16 ^ k + of_nat n\<rparr>"

lemma run_hex_char:
  assumes "cstate c = CHUNK_READ_SIZE" "d < 16"
  shows "chunk_run c (hex_char d # xs) = chunk_run (sized d 1 c) xs"
  using hex_char_size [OF assms(2)] assms(1) chunk_run_byte(1) [of c "hex_char d" xs]
  by (simp add: size_char_def sized_def)

lemma run_hex_digits:
  "cstate c = CHUNK_READ_SIZE \<Longrightarrow> chunk_run c (hex_digits n @ xs) = chunk_run (sized n (length (hex_digits n)) c) xs"
proof (induction n arbitrary: c xs rule: hex_digits.induct)
  case (1 n)
  show ?case
  proof (cases "n < 16")
    case True
    then show ?thesis using run_hex_char [OF 1(2)] by (simp add: hex_digits.simps [of n])
  next
    case False
    let ?k = "length (hex_digits (n div 16))"
    have "chunk_run c (hex_digits n @ xs) = chunk_run c (hex_digits (n div 16) @ hex_char (n mod 16) # xs)"
      using False by (simp add: hex_digits.simps [of n])
    also have "\<dots> = chunk_run (sized (n div 16) ?k c) (hex_char (n mod 16) # xs)" by (rule 1(1) [OF False 1(2)])
    also have "\<dots> = chunk_run (sized (n mod 16) 1 (sized (n div 16) ?k c)) xs"
      using 1(2) by (intro run_hex_char) (simp_all add: sized_def)
    also have "sized (n mod 16) 1 (sized (n div 16) ?k c) = sized n (Suc ?k) c"
    proof -
      have "(of_nat n :: s32) = of_nat (16 * (n div 16) + n mod 16)" by simp
      also have "\<dots> = 16 * of_nat (n div 16) + of_nat (n mod 16)" by (simp only: of_nat_add of_nat_mult of_nat_numeral)
      finally show ?thesis by (simp add: sized_def algebra_simps)
    qed
    finally show ?thesis using False by (simp add: hex_digits.simps [of n])
  qed
qed

lemma char_end: "is_hex CHAR_CR = False" "is_hex CHAR_LF = False" "is_lf CHAR_LF" "\<not> is_lf CHAR_CR" "is_cr CHAR_CR" "is_cr CHAR_LF = False"
  by (simp_all add: is_cls_iff is_hex0_def is_lf_def is_cr_def CHAR_CR_def CHAR_LF_def of_char_def word_le_nat_alt)

abbreviation at_size :: "chunked \<Rightarrow> bool" where
  "at_size c \<equiv> cstate c = CHUNK_READ_SIZE \<and> running_sum c = 0 \<and> num_digits c = 0"

lemma sint_small: "j < 2 ^ 31 \<Longrightarrow> sint (of_nat j :: s32) = int j"
proof -
  assume "j < 2 ^ 31"
  then have "int j < 2 ^ 31" by simp
  moreover have "sint (of_nat j :: s32) = sint (word_of_int (int j) :: s32)" by (simp only: of_int_of_nat_eq)
  ultimately show ?thesis by (simp only: sint_sbintrunc') (simp add: signed_take_bit_int_eq_self)
qed

lemma run_size_line:
  assumes "at_size c" "running_sum (sized n k c) = of_nat j" "0 < k" "k < 2 ^ 32" "j < 2 ^ 31"
  shows "chunk_run (sized n k c) (CHAR_CR # CHAR_LF # xs) =
    chunk_run ((sized n k c)\<lparr>cur_chunk_size := int j, bytes_left := int j,
      cstate := (if j = 0 then CHUNK_READ_TRAILER_BLANK else CHUNK_READ_CHUNK)\<rparr>) xs"
proof -
  let ?c = "sized n k c"
  have sj: "sint (of_nat j :: s32) = int j" using assms(5) by (simp add: sint_small)
  have z: "(of_nat j :: s32) = 0 \<longleftrightarrow> j = 0" using assms(5) by (auto simp: word_of_nat_eq_0_iff dest: dvd_imp_le)
  have nd: "num_digits ?c = of_nat k" using assms(1) by (simp add: sized_def)
  have nz: "(of_nat k :: s32) \<noteq> 0" using assms(3,4) by (simp add: word_of_nat_eq_0_iff nat_dvd_not_less)
  have st: "cstate ?c = CHUNK_READ_SIZE" using assms(1) by (simp add: sized_def)
  have "size_char ?c CHAR_CR = (?c\<lparr>cstate := CHUNK_READ_SIZE_CRLF\<rparr>, False)"
    unfolding size_char_def st chunked_state.case char_end nd assms(2) sj using nz by simp
  then have "chunk_run ?c (CHAR_CR # CHAR_LF # xs) = chunk_run (?c\<lparr>cstate := CHUNK_READ_SIZE_CRLF\<rparr>) (CHAR_LF # xs)"
    using chunk_run_byte(1) [of ?c CHAR_CR "CHAR_LF # xs"] st by simp
  also have "\<dots> = chunk_run (?c\<lparr>cur_chunk_size := int j, bytes_left := int j,
      cstate := (if j = 0 then CHUNK_READ_TRAILER_BLANK else CHUNK_READ_CHUNK)\<rparr>) xs"
    using chunk_run_byte(1) [of "?c\<lparr>cstate := CHUNK_READ_SIZE_CRLF\<rparr>" CHAR_LF xs]
    by (simp add: size_char_def char_end assms(2) sj z)
  finally show ?thesis .
qed

section \<open>The coding of a body\<close>

function encode_chunks :: "nat \<Rightarrow> bytes \<Rightarrow> bytes" where
  "encode_chunks mx xs =
     (if xs = [] \<or> mx = 0 then []
      else CHUNK_HEADER (int (min mx (length xs))) @ take mx xs @ [CHAR_CR, CHAR_LF] @ encode_chunks mx (drop mx xs))"
  by pat_completeness auto
termination by (relation "measure (\<lambda>(mx, xs). length xs)") auto

declare encode_chunks.simps [simp del]

lemma chunk_header_small: "n < 2 ^ 31 \<Longrightarrow> CHUNK_HEADER (int n) = hex_digits n @ [CHAR_CR, CHAR_LF]"
  by (simp add: CHUNK_HEADER_def unat_of_nat take_bit_nat_eq_self)

lemma hex_digits_short: "n < 2 ^ 31 \<Longrightarrow> length (hex_digits n) \<le> 8"
  by (rule hex_digits_length) simp_all

text \<open>The state between two chunks.\<close>

lemma run_chunk:
  assumes "at_size c" "0 < length xs" "length xs < 2 ^ 31"
  shows "\<exists>c'. chunk_run c (CHUNK_HEADER (int (length xs)) @ xs @ [CHAR_CR, CHAR_LF] @ rest) =
      (case chunk_run c' rest of (c2, out, r) \<Rightarrow> (c2, kept c xs @ out, r)) \<and> at_size c' \<and>
    dechunked_buffer c' = dechunked_buffer c \<and> dechunked_size c' = dechunked_size c + int (length (kept c xs))"
proof -
  let ?n = "length xs" and ?k = "length (hex_digits (length xs))"
  let ?s = "sized ?n ?k c"
  define cc where "cc = ?s\<lparr>cur_chunk_size := int ?n, bytes_left := int ?n, cstate := CHUNK_READ_CHUNK\<rparr>"
  define c1 where "c1 = chunk_data ?n cc"
  define c' where "c' = c1\<lparr>running_sum := 0, num_digits := 0, cstate := CHUNK_READ_SIZE\<rparr>"
  have rs: "running_sum ?s = of_nat ?n" using assms(1) by (simp add: sized_def)
  have k: "0 < ?k" "?k < 2 ^ 32" using hex_digits_nonempty [of ?n] hex_digits_short [OF assms(3)] by auto
  have "chunk_run c (CHUNK_HEADER (int ?n) @ xs @ [CHAR_CR, CHAR_LF] @ rest) =
      chunk_run c (hex_digits ?n @ CHAR_CR # CHAR_LF # xs @ CHAR_CR # CHAR_LF # rest)"
    by (simp add: chunk_header_small [OF assms(3)])
  also have "\<dots> = chunk_run ?s (CHAR_CR # CHAR_LF # xs @ CHAR_CR # CHAR_LF # rest)"
    by (rule run_hex_digits) (use assms(1) in simp)
  also have "\<dots> = chunk_run cc (xs @ CHAR_CR # CHAR_LF # rest)"
    unfolding run_size_line [OF assms(1) rs k assms(3)] cc_def using assms(2) by simp
  finally have 1: "chunk_run c (CHUNK_HEADER (int ?n) @ xs @ [CHAR_CR, CHAR_LF] @ rest) =
      chunk_run cc (xs @ CHAR_CR # CHAR_LF # rest)" .
  have kc: "dechunked_buffer cc = dechunked_buffer c" "cstate cc = CHUNK_READ_CHUNK" "bytes_left cc = int ?n"
    "dechunked_size cc = dechunked_size c" by (simp_all add: cc_def sized_def)
  have "chunk_run cc xs = (c1, kept c xs, [])"
    using chunk_data_run [OF kc(2), of xs] kc(1,3) assms(2) by (simp add: c1_def)
  then have 2: "chunk_run cc (xs @ CHAR_CR # CHAR_LF # rest) =
      (case chunk_run c1 (CHAR_CR # CHAR_LF # rest) of (c2, out, r) \<Rightarrow> (c2, kept c xs @ out, r))"
    by (subst chunk_run_append) simp
  have s1: "cstate c1 = CHUNK_READ_SIZE_START" using kc(3) by (simp add: c1_def chunk_data_def)
  then have "chunk_run c1 (CHAR_CR # CHAR_LF # rest) = chunk_run c1 (CHAR_LF # rest)"
    using chunk_run_byte(1) [of c1 CHAR_CR "CHAR_LF # rest"] by (simp add: size_char_def char_end)
  also have "\<dots> = chunk_run c' rest"
    using chunk_run_byte(1) [of c1 CHAR_LF rest] s1 by (simp add: size_char_def char_end c'_def)
  finally have 3: "chunk_run c1 (CHAR_CR # CHAR_LF # rest) = chunk_run c' rest" .
  have "at_size c'" "dechunked_buffer c' = dechunked_buffer c" "dechunked_size c' = dechunked_size c + int (length (kept c xs))"
    using kc by (simp_all add: c'_def c1_def chunk_data_def)
  then show ?thesis using 1 2 3 by auto
qed

lemma run_last_chunk:
  assumes "at_size c"
  shows "\<exists>c'. chunk_run c (LAST_CHUNK @ rest) = (c', [], rest) \<and> cstate c' = CHUNK_READ_DONE \<and>
    dechunked_buffer c' = dechunked_buffer c \<and> dechunked_size c' = dechunked_size c"
proof -
  let ?s = "sized 0 1 c"
  define c1 where "c1 = ?s\<lparr>cur_chunk_size := int 0, bytes_left := int 0, cstate := CHUNK_READ_TRAILER_BLANK\<rparr>"
  have "hex_digits 0 = [48]" by (simp add: hex_digits.simps [of 0] hex_char_def)
  then have "LAST_CHUNK @ rest = hex_digits 0 @ CHAR_CR # CHAR_LF # CHAR_CR # CHAR_LF # rest" by (simp add: LAST_CHUNK_def)
  then have "chunk_run c (LAST_CHUNK @ rest) =
      chunk_run (sized 0 (length (hex_digits 0)) c) (CHAR_CR # CHAR_LF # CHAR_CR # CHAR_LF # rest)"
    using run_hex_digits assms by metis
  also have "sized 0 (length (hex_digits 0)) c = ?s" unfolding \<open>hex_digits 0 = [48]\<close> by simp
  finally have "chunk_run c (LAST_CHUNK @ rest) = chunk_run ?s (CHAR_CR # CHAR_LF # CHAR_CR # CHAR_LF # rest)" .
  also have "\<dots> = chunk_run c1 (CHAR_CR # CHAR_LF # rest)"
    using run_size_line [OF assms, of 0 1 0] assms by (simp add: c1_def sized_def)
  also have "\<dots> = chunk_run (c1\<lparr>cstate := CHUNK_READ_TRAILER_CR\<rparr>) (CHAR_LF # rest)"
    using chunk_run_byte(2) [of c1 CHAR_CR "CHAR_LF # rest"] by (simp add: trailer_char_def char_end c1_def)
  also have "\<dots> = chunk_run (c1\<lparr>cstate := CHUNK_READ_DONE\<rparr>) rest"
    using chunk_run_byte(2) [of "c1\<lparr>cstate := CHUNK_READ_TRAILER_CR\<rparr>" CHAR_LF rest]
    by (simp add: trailer_char_def char_end)
  also have "\<dots> = (c1\<lparr>cstate := CHUNK_READ_DONE\<rparr>, [], rest)"
    by (rule chunk_run_finished) (simp add: finished_def)
  finally show ?thesis by (intro exI [of _ "c1\<lparr>cstate := CHUNK_READ_DONE\<rparr>"]) (simp add: c1_def sized_def)
qed

lemma run_encoded:
  "at_size c \<Longrightarrow> 0 < mx \<Longrightarrow> mx < 2 ^ 31 \<Longrightarrow>
   \<exists>c'. chunk_run c (encode_chunks mx xs @ LAST_CHUNK @ rest) = (c', kept c xs, rest) \<and> cstate c' = CHUNK_READ_DONE \<and>
     dechunked_buffer c' = dechunked_buffer c \<and> dechunked_size c' = dechunked_size c + int (length (kept c xs))"
proof (induction "length xs" arbitrary: c xs rule: less_induct)
  case less
  show ?case
  proof (cases "xs = []")
    case True
    obtain c' where "chunk_run c (LAST_CHUNK @ rest) = (c', [], rest)" "cstate c' = CHUNK_READ_DONE"
      "dechunked_buffer c' = dechunked_buffer c" "dechunked_size c' = dechunked_size c"
      using run_last_chunk [OF less.prems(1), of rest] by blast
    then show ?thesis unfolding True by (intro exI [of _ c']) (simp add: encode_chunks.simps [of mx "[]"])
  next
    case False
    let ?t = "take mx xs"
    have t: "length ?t = min mx (length xs)" "0 < length ?t" "length ?t < 2 ^ 31" using False less.prems(2,3) by auto
    from run_chunk [OF less.prems(1) t(2,3), of "encode_chunks mx (drop mx xs) @ LAST_CHUNK @ rest"]
    obtain c1 where 1: "chunk_run c (CHUNK_HEADER (int (length ?t)) @ ?t @ [CHAR_CR, CHAR_LF] @
          encode_chunks mx (drop mx xs) @ LAST_CHUNK @ rest) =
        (case chunk_run c1 (encode_chunks mx (drop mx xs) @ LAST_CHUNK @ rest) of (c2, out, r) \<Rightarrow> (c2, kept c ?t @ out, r))"
      "at_size c1" "dechunked_buffer c1 = dechunked_buffer c" "dechunked_size c1 = dechunked_size c + int (length (kept c ?t))"
      by (elim exE conjE) (rule that; simp)
    have "length (drop mx xs) < length xs" using False less.prems(2) by (simp add: Suc_le_eq)
    from less.hyps [OF this 1(2) less.prems(2,3)] obtain c2 where
      2: "chunk_run c1 (encode_chunks mx (drop mx xs) @ LAST_CHUNK @ rest) = (c2, kept c1 (drop mx xs), rest)"
      "cstate c2 = CHUNK_READ_DONE" "dechunked_buffer c2 = dechunked_buffer c1"
      "dechunked_size c2 = dechunked_size c1 + int (length (kept c1 (drop mx xs)))" by (elim exE conjE) (rule that)
    have "encode_chunks mx xs @ LAST_CHUNK @ rest = CHUNK_HEADER (int (length ?t)) @ ?t @ [CHAR_CR, CHAR_LF] @
          encode_chunks mx (drop mx xs) @ LAST_CHUNK @ rest"
      using False less.prems(2) t(1) by (subst encode_chunks.simps) simp
    moreover have "int (length ?t) + int (length (drop mx xs)) = int (length xs)" by auto
    ultimately show ?thesis using 1 2 by (intro exI [of _ c2]) simp
  qed
qed

section \<open>The producer on buffers\<close>

definition header_ok :: "chunked \<Rightarrow> bool" where
  "header_ok c \<longleftrightarrow> 0 < max_chunk_size c \<and> max_chunk_size c < 2 ^ 31 \<and>
     snprintf16 (CHUNK_HEADER (max_chunk_size c)) = (max_chunk_header c, max_chunk_header_len c)"

lemma header_ok_set: "0 \<le> n \<Longrightarrow> n < 2 ^ 31 \<Longrightarrow> header_ok (set_max_chunk_size n c)"
  by (simp add: header_ok_def set_max_chunk_size_def Let_def DEFAULT_MAX_CHUNK_SIZE_def split: prod.split)

lemma array16_snprintf: "length s \<le> 15 \<Longrightarrow> snprintf16 s = (a, len) \<Longrightarrow> array16 a len = Some s"
  by (auto simp: snprintf16_def array16_def)

lemma chunk_size_line_ok:
  assumes "header_ok c" "n < 2 ^ 31"
  shows "chunk_size_line (int n) c = Some (CHUNK_HEADER (int n))"
proof -
  have l: "length (CHUNK_HEADER (int k)) \<le> 15" if "k < 2 ^ 31" for k
    using hex_digits_short [OF that] by (simp add: chunk_header_small [OF that])
  show ?thesis
  proof (cases "int n = max_chunk_size c")
    case True
    then show ?thesis using assms l [OF assms(2)] array16_snprintf by (auto simp: chunk_size_line_def header_ok_def)
  next
    case False
    then show ?thesis using array16_snprintf [OF l [OF assms(2)]]
      by (auto simp: chunk_size_line_def split: prod.split)
  qed
qed

abbreviation gen_rep :: "mio \<Rightarrow> reader \<Rightarrow> ioheap \<Rightarrow> chunked \<Rightarrow> bytes \<Rightarrow> bytes \<Rightarrow> bool" where
  "gen_rep s q h c xs ys \<equiv> pipe_rep s q h (dechunked_reader c) (chunked_buffer c) xs ys"

lemma emit_ok:
  assumes "gen_rep s q h c xs ys"
  shows "\<exists>h' d. emit zs h c = Some (h', c\<lparr>chunked_buffer := d, chunked_size := chunked_size c + int (length zs)\<rparr>) \<and>
    gen_rep s q h' (c\<lparr>chunked_buffer := d, chunked_size := chunked_size c + int (length zs)\<rparr>) xs (ys @ zs)"
  using pipe.pipe_put [OF assms, of zs] by (auto simp: emit_def)

text \<open>The handler after it produced \<open>n\<close> bytes.\<close>

definition produced :: "chunked \<Rightarrow> chunked \<Rightarrow> nat \<Rightarrow> bool" where
  "produced c c' n \<longleftrightarrow> chunked_size c' = chunked_size c + int n \<and> max_chunk_size c' = max_chunk_size c \<and>
     max_chunk_header c' = max_chunk_header c \<and> max_chunk_header_len c' = max_chunk_header_len c \<and>
     last_server_event c' = last_server_event c"

lemma produced_header: "produced c c' n \<Longrightarrow> header_ok c' = header_ok c"
  by (simp add: produced_def header_ok_def)

lemma produced_trans: "produced c c1 m \<Longrightarrow> produced c1 c2 n \<Longrightarrow> produced c c2 (m + n)"
  by (simp add: produced_def)

lemma generate_chunk_ok:
  assumes g: "gen_rep s q h c xs ys" and ok: "header_ok c" and n: "n \<le> length xs" "n < 2 ^ 31"
  shows "\<exists>h' c'. generate_chunk (int n) h c = Some (h', c') \<and>
    gen_rep s q h' c' (drop n xs) (ys @ CHUNK_HEADER (int n) @ take n xs @ [CHAR_CR, CHAR_LF]) \<and>
    produced c c' (length (CHUNK_HEADER (int n)) + n + 2) \<and> cstate c' = CHUNK_WRITE_CHUNK"
proof -
  let ?line = "CHUNK_HEADER (int n)" and ?c = "c\<lparr>cstate := CHUNK_WRITE_CHUNK\<rparr>"
  have l: "chunk_size_line (int n) c = Some ?line" by (rule chunk_size_line_ok [OF ok n(2)])
  have g0: "gen_rep s q h ?c xs ys" using g by simp
  obtain h1 d1 where 1: "emit ?line h ?c = Some (h1, ?c\<lparr>chunked_buffer := d1, chunked_size := chunked_size c + int (length ?line)\<rparr>)"
    "pipe_rep s q h1 (dechunked_reader c) d1 xs (ys @ ?line)" using emit_ok [OF g0, of ?line] by auto
  let ?c1 = "?c\<lparr>chunked_buffer := d1, chunked_size := chunked_size c + int (length ?line)\<rparr>"
  have mn: "min n (length xs) = n" using n(1) by simp
  obtain h2 d2 r2 where 2: "mio_write_reader (dechunked_reader c) (int n) 0 h1 d1 = Some (h2, d2, int n)"
    "consume (int n) h2 (dechunked_reader c) = Some r2" "pipe_rep s q h2 r2 d2 (drop n xs) ((ys @ ?line) @ take n xs)"
    using pipe.move_ref [OF 1(2), of n] unfolding mn by (elim exE conjE) (rule that)
  let ?c2 = "?c1\<lparr>chunked_buffer := d2, chunked_size := chunked_size ?c1 + int n, dechunked_reader := r2\<rparr>"
  have g2: "gen_rep s q h2 ?c2 (drop n xs) ((ys @ ?line) @ take n xs)" using 2(3) by simp
  obtain h3 d3 where 3: "emit [CHAR_CR, CHAR_LF] h2 ?c2 =
      Some (h3, ?c2\<lparr>chunked_buffer := d3, chunked_size := chunked_size ?c2 + int (length [CHAR_CR, CHAR_LF])\<rparr>)"
    "gen_rep s q h3 (?c2\<lparr>chunked_buffer := d3, chunked_size := chunked_size ?c2 + int (length [CHAR_CR, CHAR_LF])\<rparr>)
      (drop n xs) (((ys @ ?line) @ take n xs) @ [CHAR_CR, CHAR_LF])" using emit_ok [OF g2, of "[CHAR_CR, CHAR_LF]"] by blast
  let ?c3 = "?c2\<lparr>chunked_buffer := d3, chunked_size := chunked_size ?c2 + int (length [CHAR_CR, CHAR_LF])\<rparr>"
  have "generate_chunk (int n) h c = Some (h3, ?c3)" using l 1(1) 2(1,2) 3(1) by (simp add: generate_chunk_def)
  then show ?thesis using 3(2) by (intro exI [of _ h3] exI [of _ ?c3]) (simp add: produced_def)
qed

lemma generate_loop_ok:
  "gen_rep s q h c xs ys \<Longrightarrow> header_ok c \<Longrightarrow> cstate c \<noteq> CHUNK_WRITE_DONE \<Longrightarrow>
   \<exists>h' c'. generate_loop h c = Some (h', c') \<and> gen_rep s q h' c' [] (ys @ encode_chunks (nat (max_chunk_size c)) xs) \<and>
     produced c c' (length (encode_chunks (nat (max_chunk_size c)) xs))"
proof (induction "length xs" arbitrary: h c xs ys rule: less_induct)
  case less
  let ?m = "nat (max_chunk_size c)"
  have a: "reader_avail h (dechunked_reader c) = Some (int (length xs))" by (rule pipe_views(1) [OF less.prems(1)])
  have m: "0 < ?m" "int ?m = max_chunk_size c" "?m < 2 ^ 31" using less.prems(2) by (auto simp: header_ok_def nat_less_iff)
  show ?case
  proof (cases "xs = []")
    case True
    then have "generate_loop h c = Some (h, c)" using a by (subst generate_loop.simps) simp
    then show ?thesis using True less.prems(1)
      by (intro exI [of _ h] exI [of _ c]) (simp add: encode_chunks.simps [of ?m "[]"] produced_def)
  next
    case False
    define n where "n = min ?m (length xs)"
    have n: "n \<le> length xs" "n < 2 ^ 31" "min (max_chunk_size c) (int (length xs)) = int n" "0 < n"
      using m False by (auto simp: n_def)
    obtain h1 c1 where 1: "generate_chunk (int n) h c = Some (h1, c1)"
      "gen_rep s q h1 c1 (drop n xs) (ys @ CHUNK_HEADER (int n) @ take n xs @ [CHAR_CR, CHAR_LF])"
      "produced c c1 (length (CHUNK_HEADER (int n)) + n + 2)" "cstate c1 = CHUNK_WRITE_CHUNK"
      using generate_chunk_ok [OF less.prems(1,2) n(1,2)] by blast
    have step: "generate_loop h c = generate_loop h1 c1"
      using a False less.prems(3) 1(1) n(3) by (subst generate_loop.simps) simp
    have "length (drop n xs) < length xs" using n(4) False by (simp add: Suc_le_eq)
    moreover have "header_ok c1" using less.prems(2) produced_header [OF 1(3)] by simp
    moreover have "cstate c1 \<noteq> CHUNK_WRITE_DONE" using 1(4) by simp
    ultimately obtain h2 c2 where 2: "generate_loop h1 c1 = Some (h2, c2)"
      "gen_rep s q h2 c2 [] ((ys @ CHUNK_HEADER (int n) @ take n xs @ [CHAR_CR, CHAR_LF]) @
        encode_chunks (nat (max_chunk_size c1)) (drop n xs))"
      "produced c1 c2 (length (encode_chunks (nat (max_chunk_size c1)) (drop n xs)))"
      using less.hyps 1(2) by blast
    have mc: "max_chunk_size c1 = max_chunk_size c" using 1(3) by (simp add: produced_def)
    have e: "encode_chunks ?m xs = CHUNK_HEADER (int n) @ take n xs @ [CHAR_CR, CHAR_LF] @ encode_chunks ?m (drop n xs)"
    proof -
      have "take ?m xs = take n xs" "drop ?m xs = drop n xs" by (simp_all add: n_def min_def)
      then show ?thesis using False m(1) by (subst encode_chunks.simps) (simp add: n_def)
    qed
    have "length (CHUNK_HEADER (int n)) + n + 2 + length (encode_chunks ?m (drop n xs)) = length (encode_chunks ?m xs)"
      unfolding e using n(1) by simp
    then have "produced c c2 (length (encode_chunks ?m xs))" using produced_trans [OF 1(3) 2(3)] mc by simp
    then show ?thesis using step 2(1,2) unfolding mc e by auto
  qed
qed

lemma generate_ok:
  assumes "gen_rep s q h c xs ys" "header_ok c" "cstate c \<noteq> CHUNK_WRITE_DONE"
  shows "\<exists>h' c'. generate_chunked_content h c = Some (h', c', server_done (last_server_event c)) \<and>
    gen_rep s q h' c' [] (ys @ encode_chunks (nat (max_chunk_size c)) xs @
      (if server_done (last_server_event c) then LAST_CHUNK else [])) \<and>
    produced c c' (length (encode_chunks (nat (max_chunk_size c)) xs @
      (if server_done (last_server_event c) then LAST_CHUNK else [])))"
proof -
  obtain h1 c1 where 1: "generate_loop h c = Some (h1, c1)" "gen_rep s q h1 c1 [] (ys @ encode_chunks (nat (max_chunk_size c)) xs)"
    "produced c c1 (length (encode_chunks (nat (max_chunk_size c)) xs))" using generate_loop_ok [OF assms] by blast
  show ?thesis
  proof (cases "server_done (last_server_event c)")
    case True
    have "gen_rep s q h1 (c1\<lparr>cstate := CHUNK_WRITE_DONE\<rparr>) [] (ys @ encode_chunks (nat (max_chunk_size c)) xs)" using 1(2) by simp
    from emit_ok [OF this, of LAST_CHUNK] show ?thesis using 1 True
      by (auto simp: generate_chunked_content_def produced_def)
  next
    case False
    then show ?thesis using 1 by (simp add: generate_chunked_content_def)
  qed
qed

text \<open>A new buffer with a reader as the destination of the reader \<open>q\<close>.\<close>

lemma pipe_onto:
  assumes p: "pipe_rep s q h r d xs ys" and i: "0 < index_to_buffer_size i"
    and n: "new_MIOBuffer i h = (h', e)" "alloc_reader e = Some (e', l)"
  shows "pipe_rep d (readers e' ! l) h' q e' ys []"
proof -
  obtain em pre where 1: "rd_rep h d em q pre ys" "heap_ok h" "0 < index_to_buffer_size (size_index d)"
    using p by (auto simp: pipe_rep_def)
  note e = new_MIOBuffer_ok [OF 1(2) i n(1)]
  have f: "writer e' = writer e" "size_index e' = i"
    "readers e' ! l = \<lparr>rused = True, rblock = writer e, start_offset = 0, size_limit = INT64_MAX\<rparr>"
    using alloc_reader_new [OF e(8)] n(2) e(5) by auto
  have "rd_rep h' d em q pre ys" by (rule rd_other [OF 1(2,1) e(2)]) simp
  moreover have "rd_rep h' e' [] (readers e' ! l) [] []" using rd_rep_new [OF e(1,6) _ f(3,1)] e(3,7) by simp
  moreover have "set (pre @ writer d # em) \<inter> set ([] @ writer e' # []) = {}"
  proof -
    have "bchain h (rblock q) (pre @ writer d # em)" "rblock q < btop h" using 1(1) by (simp_all add: rd_rep_def reader_rep_def)
    from chain_in_heap [OF 1(2) this] have "btop h \<notin> set (pre @ writer d # em)" by blast
    then show ?thesis using f(1) e(3) by simp
  qed
  ultimately show ?thesis unfolding pipe_rep_def using e(1) 1(3) i f(2) by blast
qed

section \<open>Properties\<close>

text \<open>A decoder and a producer as \<open>init\<close> and \<open>set_producer_chunking_action\<close> leave them.\<close>

definition decoder :: "reader \<Rightarrow> mio \<Rightarrow> chunked" where
  "decoder r d = set_producer_chunking_action 0 TCA_DECHUNK_CONTENT (chunked_new\<lparr>chunked_reader := r, dechunked_buffer := Some d\<rparr>)"

definition encoder :: "int \<Rightarrow> reader \<Rightarrow> mio \<Rightarrow> chunked" where
  "encoder n r d = set_max_chunk_size n (set_producer_chunking_action 0 TCA_CHUNK_CONTENT
     (chunked_new\<lparr>dechunked_reader := r, chunked_buffer := d\<rparr>))"

lemma decoder_simps [simp]:
  "cstate (decoder r d) = CHUNK_READ_SIZE" "running_sum (decoder r d) = 0" "num_digits (decoder r d) = 0"
  "chunked_reader (decoder r d) = r" "dechunked_buffer (decoder r d) = Some d" "dechunked_size (decoder r d) = 0"
  by (simp_all add: decoder_def set_producer_chunking_action_def chunked_new_def Let_def)

lemma decoder_rep: "pipe_rep s q h r d xs ys \<Longrightarrow> chunk_rep s q h (decoder r d) d xs ys"
  by (simp add: chunk_rep_def decoding_def)

lemma encoder_simps [simp]:
  "cstate (encoder n r d) = CHUNK_WRITE_CHUNK" "dechunked_reader (encoder n r d) = r" "chunked_buffer (encoder n r d) = d"
  by (simp_all add: encoder_def set_max_chunk_size_def set_producer_chunking_action_def Let_def split: prod.split)

lemma run_sample: "\<exists>c'. chunk_run (core (decoder r d)) (encode_chunks 2 [1, 2, 3] @ LAST_CHUNK @ [7]) = (c', [1, 2, 3], [7]) \<and>
    cstate c' = CHUNK_READ_DONE"
proof -
  obtain c' where "chunk_run (core (decoder r d)) (encode_chunks 2 [1, 2, 3] @ LAST_CHUNK @ [7]) =
    (c', kept (core (decoder r d)) [1, 2, 3], [7])" "cstate c' = CHUNK_READ_DONE"
    using run_encoded [of "core (decoder r d)" 2 "[1, 2, 3]" "[7]"] by auto
  then show ?thesis by simp
qed

text \<open>
  C21. The chunked decoder returns and does what the automaton does byte by byte: the decoded bytes are
  appended to what the readers of its buffer see (nothing is written when it passes the body through),
  it stops at the end of the body or at an error and leaves the bytes after it unread, and reports
  whether it came to an end. How the bytes are split into blocks does not matter.
\<close>

theorem process_chunked_refines:
  assumes "chunk_rep s q h c d xs ys" "chunk_run (core c) xs = (k, out, rest)"
  shows "\<exists>h' c' d'. process_chunked_content h c = Some (h', c', finished k) \<and> core c' = k \<and>
    chunk_rep s q h' c' d' rest (ys @ out) \<and> reader_memcpy (int (length (ys @ out))) 0 h' q = Some (ys @ out) \<and>
    reader_memcpy (int (length rest)) 0 h' (chunked_reader c') = Some rest"
proof -
  obtain h' c' d' where 1: "process_chunked_content h c = Some (h', c', finished k)" "core c' = k"
    "chunk_rep s q h' c' d' rest (ys @ out)" using process_ok [OF assms] by blast
  have "pipe_rep s q h' (chunked_reader c') d' rest (ys @ out)" using 1(3) by (simp add: chunk_rep_def)
  then show ?thesis using 1 pipe_read_all pipe_read_all [OF pipe_swap] by blast
qed

lemma process_chunked_refines_witness:
  "\<exists>s q h r d h' c'. pipe_sample (encode_chunks 2 [1, 2, 3] @ LAST_CHUNK @ [7]) [] = Some (s, q, h, r, d) \<and>
     process_chunked_content h (decoder r d) = Some (h', c', True) \<and> reader_memcpy 3 0 h' q = Some [1, 2, 3] \<and>
     reader_memcpy 1 0 h' (chunked_reader c') = Some [7]"
proof -
  let ?xs = "encode_chunks 2 [1, 2, 3] @ LAST_CHUNK @ [7]"
  obtain s q h r d where p: "pipe_sample ?xs [] = Some (s, q, h, r, d)" "pipe_rep s q h r d ?xs []"
    using pipe_sample_ok by blast
  obtain k where k: "chunk_run (core (decoder r d)) ?xs = (k, [1, 2, 3], [7])" "cstate k = CHUNK_READ_DONE"
    using run_sample by blast
  have "finished k" using k(2) by (simp add: finished_def)
  then show ?thesis using process_chunked_refines [OF decoder_rep [OF p(2)] k(1)] p(1) by auto
qed

text \<open>
  C22. When a body arrives in pieces, with the decoder called after each, the result is that of the
  whole body at once: the same decoded bytes, the same unread rest and the same state.
\<close>

theorem chunks_in_pieces:
  assumes "chunk_rep s q h c d xs ys" "chunk_run (core c) (xs @ zs) = (k, out, rest)"
  shows "\<exists>h1 c1 b h2 s2 h3 c2 d2. process_chunked_content h c = Some (h1, c1, b) \<and> mio_write zs h1 s = Some (h2, s2) \<and>
    process_chunked_content h2 c1 = Some (h3, c2, finished k) \<and> core c2 = k \<and> chunk_rep s2 q h3 c2 d2 rest (ys @ out)"
proof -
  obtain k1 o1 r1 where 1: "chunk_run (core c) xs = (k1, o1, r1)" by (metis prod_cases3)
  obtain k2 o2 r2 where 2: "chunk_run k1 (r1 @ zs) = (k2, o2, r2)" by (metis prod_cases3)
  have "chunk_run (core c) (xs @ zs) = (k2, o1 @ o2, r2)" using 1 2 by (subst chunk_run_append) simp
  then have e: "k = k2" "out = o1 @ o2" "rest = r2" using assms(2) by simp_all
  obtain h1 c1 d1 where 3: "process_chunked_content h c = Some (h1, c1, finished k1)" "core c1 = k1"
    "chunk_rep s q h1 c1 d1 r1 (ys @ o1)" using process_ok [OF assms(1) 1] by blast
  have p: "pipe_rep s q h1 (chunked_reader c1) d1 r1 (ys @ o1)" using 3(3) by (simp add: chunk_rep_def)
  obtain h2 s2 where 4: "mio_write zs h1 s = Some (h2, s2)" "pipe_rep s2 q h2 (chunked_reader c1) d1 (r1 @ zs) (ys @ o1)"
    using pipe.pipe_put [OF pipe_swap [OF p], of zs] pipe_swap by blast
  have "chunk_rep s2 q h2 c1 d1 (r1 @ zs) (ys @ o1)" using 4(2) 3(3) by (simp add: chunk_rep_def)
  from process_ok [OF this 2 [folded 3(2)]] obtain h3 c2 d2 where
    "process_chunked_content h2 c1 = Some (h3, c2, finished k2)" "core c2 = k2"
    "chunk_rep s2 q h3 c2 d2 r2 ((ys @ o1) @ o2)" by blast
  then show ?thesis using 3(1) 4(1) unfolding e append_assoc by blast
qed

lemma chunks_in_pieces_witness:
  "\<exists>s q h r d h1 c1 b h2 s2 h3 c2. pipe_sample (encode_chunks 2 [1, 2, 3]) [] = Some (s, q, h, r, d) \<and>
     process_chunked_content h (decoder r d) = Some (h1, c1, b) \<and> mio_write (LAST_CHUNK @ [7]) h1 s = Some (h2, s2) \<and>
     process_chunked_content h2 c1 = Some (h3, c2, True)"
proof -
  let ?xs = "encode_chunks 2 [1, 2, 3]"
  obtain s q h r d where p: "pipe_sample ?xs [] = Some (s, q, h, r, d)" "pipe_rep s q h r d ?xs []"
    using pipe_sample_ok by blast
  obtain k where k: "chunk_run (core (decoder r d)) (?xs @ LAST_CHUNK @ [7]) = (k, [1, 2, 3], [7])" "cstate k = CHUNK_READ_DONE"
    using run_sample by blast
  have "finished k" using k(2) by (simp add: finished_def)
  then show ?thesis using chunks_in_pieces [OF decoder_rep [OF p(2)] k(1)] p(1) by auto
qed

text \<open>
  C23. What the chunked producer writes is the coding of the bytes in chunks of the set size, closed
  when the server is done; decoding its buffer into a new one gives the same bytes back, ends
  there, and counts them.
\<close>

theorem chunked_roundtrip:
  assumes "pipe_rep s q h r d xs []" "0 \<le> n" "n < 2 ^ 31" "server_done e"
  shows "\<exists>h1 c1 h2 b0 b l h3 c2.
    generate_chunked_content h ((encoder n r d)\<lparr>last_server_event := e\<rparr>) = Some (h1, c1, True) \<and>
    reader_memcpy (chunked_size c1) 0 h1 q = Some (encode_chunks (nat (max_chunk_size (encoder n r d))) xs @ LAST_CHUNK) \<and>
    new_MIOBuffer 1 h1 = (h2, b0) \<and> alloc_reader b0 = Some (b, l) \<and>
    process_chunked_content h2 (decoder q b) = Some (h3, c2, True) \<and> cstate c2 = CHUNK_READ_DONE \<and>
    dechunked_size c2 = int (length xs) \<and> reader_memcpy (int (length xs)) 0 h3 (readers b ! l) = Some xs"
proof -
  let ?c = "(encoder n r d)\<lparr>last_server_event := e\<rparr>" and ?m = "nat (max_chunk_size (encoder n r d))"
  have hd: "header_ok ?c" using header_ok_set [OF assms(2,3)] by (simp add: encoder_def header_ok_def)
  then have m: "0 < ?m" "?m < 2 ^ 31" by (auto simp: header_ok_def nat_less_iff)
  have g: "gen_rep s q h ?c xs []" using assms(1) by simp
  have "cstate ?c \<noteq> CHUNK_WRITE_DONE" by simp
  from generate_ok [OF g hd this] assms(4) obtain h1 c1 where 1: "generate_chunked_content h ?c = Some (h1, c1, True)"
    "gen_rep s q h1 c1 [] (encode_chunks ?m xs @ LAST_CHUNK)"
    "produced ?c c1 (length (encode_chunks ?m xs @ LAST_CHUNK))" by auto
  have sz: "chunked_size c1 = int (length (encode_chunks ?m xs @ LAST_CHUNK))"
    using 1(3) by (simp add: produced_def encoder_def set_max_chunk_size_def set_producer_chunking_action_def
        chunked_new_def Let_def split: prod.split)
  obtain h2 b0 where 2: "new_MIOBuffer 1 h1 = (h2, b0)" by fastforce
  have i: "0 < index_to_buffer_size 1"
    by (simp add: index_to_buffer_size_def BUFFER_SIZE_INDEX_IS_FAST_ALLOCATED_def DEFAULT_BUFFER_SIZES_def
        BUFFER_SIZE_FOR_INDEX_def)
  have "heap_ok h1" using 1(2) by (simp add: pipe_rep_def)
  from alloc_reader_new [OF new_MIOBuffer_ok(8) [OF this i 2]] obtain b where 3: "alloc_reader b0 = Some (b, 0)" by blast
  have p: "pipe_rep (chunked_buffer c1) (readers b ! 0) h2 q b (encode_chunks ?m xs @ LAST_CHUNK) []"
    by (rule pipe_onto [OF 1(2) i 2 3])
  obtain k where k: "chunk_run (core (decoder q b)) (encode_chunks ?m xs @ LAST_CHUNK) = (k, xs, [])"
    "cstate k = CHUNK_READ_DONE" "dechunked_size k = int (length xs)"
    using run_encoded [of "core (decoder q b)" ?m xs "[]"] m by auto
  from process_ok [OF decoder_rep [OF p] k(1)] obtain h3 c2 d3 where
    4: "process_chunked_content h2 (decoder q b) = Some (h3, c2, finished k)" "core c2 = k"
    "chunk_rep (chunked_buffer c1) (readers b ! 0) h3 c2 d3 [] xs" by auto
  have f: "finished k" using k(2) by (simp add: finished_def)
  have "cstate c2 = CHUNK_READ_DONE" "dechunked_size c2 = int (length xs)" using 4(2) k(2,3) core_simps(1,8) by metis+
  moreover have "reader_memcpy (int (length xs)) 0 h3 (readers b ! 0) = Some xs"
    using 4(3) pipe_read_all [OF pipe_swap] by (auto simp: chunk_rep_def)
  moreover have "reader_memcpy (chunked_size c1) 0 h1 q = Some (encode_chunks ?m xs @ LAST_CHUNK)"
    unfolding sz by (rule pipe_read_all [OF pipe_swap [OF 1(2)]])
  ultimately show ?thesis using 1(1) 2 3 4(1) f by auto
qed

lemma chunked_roundtrip_witness:
  "\<exists>s q h r d h1 c1 h2 b0 b l h3 c2. pipe_sample [5, 6, 7] [] = Some (s, q, h, r, d) \<and>
     generate_chunked_content h ((encoder 2 r d)\<lparr>last_server_event := VC_EVENT_EOS\<rparr>) = Some (h1, c1, True) \<and>
     new_MIOBuffer 1 h1 = (h2, b0) \<and> alloc_reader b0 = Some (b, l) \<and>
     process_chunked_content h2 (decoder q b) = Some (h3, c2, True) \<and> reader_memcpy 3 0 h3 (readers b ! l) = Some [5, 6, 7]"
proof -
  obtain s q h r d where p: "pipe_sample [5, 6, 7] [] = Some (s, q, h, r, d)" "pipe_rep s q h r d [5, 6, 7] []"
    using pipe_sample_ok by blast
  have "server_done VC_EVENT_EOS" by (simp add: server_done_def)
  from chunked_roundtrip [OF p(2) _ _ this, of 2] p(1) show ?thesis by auto
qed

text \<open>
  A chunk size is read modulo \<open>2 ^ 32\<close>: a chunk that announces \<open>2 ^ 32 * m + n\<close> bytes is taken as
  one of \<open>n\<close> bytes without an error, and what follows those \<open>n\<close> bytes is read as the next chunk.
\<close>

theorem chunk_size_wraps:
  assumes "chunk_rep s q h c d (hex_digits (2 ^ 32 * m + n) @ [CHAR_CR, CHAR_LF]) ys" "at_size c"
    "0 < n" "n < 2 ^ 31" "2 ^ 32 * m + n < 2 ^ 64"
  shows "\<exists>h' c'. process_chunked_content h c = Some (h', c', False) \<and> cstate c' = CHUNK_READ_CHUNK \<and> bytes_left c' = int n"
proof -
  let ?N = "2 ^ 32 * m + n" and ?k = "length (hex_digits (2 ^ 32 * m + n))"
  have at: "at_size (core c)" using assms(2) by simp
  have "?k \<le> 16" using assms(5) by (intro hex_digits_length) simp_all
  then have k: "0 < ?k" "?k < 2 ^ 32" using hex_digits_nonempty [of ?N] by auto
  have "(of_nat (2 ^ 32) :: s32) = 0" by simp
  then have "(of_nat ?N :: s32) = of_nat n" by (simp only: of_nat_add of_nat_mult) simp
  then have rs: "running_sum (sized ?N ?k (core c)) = of_nat n" using assms(2) by (simp add: sized_def)
  have "chunk_run (core c) (hex_digits ?N @ [CHAR_CR, CHAR_LF]) = chunk_run (sized ?N ?k (core c)) [CHAR_CR, CHAR_LF]"
    by (rule run_hex_digits) (use assms(2) in simp)
  also have "\<dots> = chunk_run ((sized ?N ?k (core c))\<lparr>cur_chunk_size := int n, bytes_left := int n, cstate := CHUNK_READ_CHUNK\<rparr>) []"
    unfolding run_size_line [OF at rs k assms(4)] using assms(3) by simp
  finally obtain k' where r: "chunk_run (core c) (hex_digits ?N @ [CHAR_CR, CHAR_LF]) = (k', [], [])"
    "cstate k' = CHUNK_READ_CHUNK" "bytes_left k' = int n" by simp
  have "\<not> finished k'" using r(2) by (simp add: finished_def)
  then show ?thesis using process_ok [OF assms(1) r(1)] r(2,3) core_simps(1,4) by metis
qed

lemma chunk_size_wraps_witness:
  "\<exists>s q h r d h' c'. pipe_sample (hex_digits (2 ^ 32 * 1 + 5) @ [CHAR_CR, CHAR_LF]) [] = Some (s, q, h, r, d) \<and>
     process_chunked_content h (decoder r d) = Some (h', c', False) \<and> cstate c' = CHUNK_READ_CHUNK \<and> bytes_left c' = 5"
proof -
  let ?xs = "hex_digits (2 ^ 32 * 1 + 5) @ [CHAR_CR, CHAR_LF]"
  obtain s q h r d where p: "pipe_sample ?xs [] = Some (s, q, h, r, d)" "pipe_rep s q h r d ?xs []"
    using pipe_sample_ok by blast
  have "at_size (decoder r d)" by simp
  from chunk_size_wraps [OF decoder_rep [OF p(2)] this] p(1) show ?thesis by auto
qed

end
