(* ===== verification/MimeDate.thy ===== *)
theory MimeDate
  imports ParseRulesSpec
begin

text \<open>
  Numbers and dates of MIME headers (proxy/hdrs/MIME.cc, lib/ts/ink_string.h): printing and parsing
  of integers, the conversion of days into month, day and year with its lookup table, printing of
  dates and the parsers of the four date formats. The regular expressions of the day and month
  names are matched by the PCRE library: \<open>re\<close> says whether a pattern matches a text. A \<open>time_t\<close> is an
  integer, an \<open>int\<close> is an integer that is wrapped to 32 bits where the code's arithmetic may overflow.
\<close>

definition int32 :: "int \<Rightarrow> int" where
  "int32 i = sint (word_of_int i :: s32)"

definition uint32 :: "int \<Rightarrow> int" where
  "uint32 i = uint (word_of_int i :: u32)"

section \<open>Integers\<close>

text \<open>\<open>'0' + val % 10\<close>.\<close>

definition last_digit :: "int \<Rightarrow> u8" where
  "last_digit v = word_of_int (48 + c_mod v 10)"

definition ink_small_itoa :: "int \<Rightarrow> bytes" where
  "ink_small_itoa v =
     (if v < 10 then [word_of_int (48 + v)]
      else if v < 100 then [last_digit (c_div v 10), last_digit v]
      else if v < 1000 then [last_digit (c_div (c_div v 10) 10), last_digit (c_div v 10), last_digit v]
      else if v < 10000
      then [last_digit (c_div (c_div (c_div v 10) 10) 10), last_digit (c_div (c_div v 10) 10), last_digit (c_div v 10),
            last_digit v]
      else [last_digit (c_div (c_div (c_div (c_div v 10) 10) 10) 10), last_digit (c_div (c_div (c_div v 10) 10) 10),
            last_digit (c_div (c_div v 10) 10), last_digit (c_div v 10), last_digit v])"

text \<open>\<open>snprintf\<close> of a number into \<open>n\<close> bytes: what is written before the NUL, and the result.\<close>

definition print_decimal :: "int \<Rightarrow> bytes" where
  "print_decimal v = (if v < 0 then of_char (CHR ''-'') # decimal (nat (- v)) else decimal (nat v))"

definition snprintf_int :: "int \<Rightarrow> nat \<Rightarrow> bytes \<times> int" where
  "snprintf_int v n = (take (n - 1) (print_decimal v), int (length (print_decimal v)))"

text \<open>The bytes in the buffer and the length that is returned.\<close>

definition ink_fast_itoa :: "int \<Rightarrow> nat \<Rightarrow> bytes \<times> int" where
  "ink_fast_itoa v n =
     (if v < 0 \<or> v > 99999 then snprintf_int v n else (ink_small_itoa v, int (length (ink_small_itoa v))))"

definition ink_fast_uitoa :: "int \<Rightarrow> nat \<Rightarrow> bytes \<times> int" where
  "ink_fast_uitoa v n =
     (if v > 99999 then snprintf_int v n else (ink_small_itoa v, int (length (ink_small_itoa v))))"

definition ink_fast_ltoa :: "int \<Rightarrow> nat \<Rightarrow> bytes \<times> int" where
  "ink_fast_ltoa v n =
     (if v < 0 \<or> v > 99999 then snprintf_int v n else (ink_small_itoa v, int (length (ink_small_itoa v))))"

definition mime_format_int :: "s32 \<Rightarrow> nat \<Rightarrow> bytes \<times> int" where
  "mime_format_int v n = ink_fast_itoa (sint v) n"

definition mime_format_uint :: "u32 \<Rightarrow> nat \<Rightarrow> bytes \<times> int" where
  "mime_format_uint v n = ink_fast_uitoa (uint v) n"

definition mime_format_int64 :: "s64 \<Rightarrow> nat \<Rightarrow> bytes \<times> int" where
  "mime_format_int64 v n = ink_fast_ltoa (sint v) n"

definition mime_is_digit :: "u8 \<Rightarrow> bool" where
  "mime_is_digit c \<longleftrightarrow> c \<le> of_char (CHR ''9'') \<and> of_char (CHR ''0'') \<le> c"

definition mime_is_ws :: "u8 \<Rightarrow> bool" where
  "mime_is_ws c \<longleftrightarrow> c = CHAR_SP \<or> c = CHAR_HT"

text \<open>The text between \<open>buf\<close> and \<open>end\<close> is a list.\<close>

fun plus_loop :: "'a::len word \<Rightarrow> bytes \<Rightarrow> 'a word" where
  "plus_loop n [] = n"
| "plus_loop n (c # s) = (if mime_is_digit c then plus_loop (n * 10 + (ucast c - 48)) s else n)"

fun minus_loop :: "'a::len word \<Rightarrow> bytes \<Rightarrow> 'a word" where
  "minus_loop n [] = n"
| "minus_loop n (c # s) = (if mime_is_digit c then minus_loop (n * 10 - (ucast c - 48)) s else n)"

definition parse_signed :: "bytes \<Rightarrow> 'a::len word" where
  "parse_signed s =
     (case s of
        [] \<Rightarrow> 0
      | c # s' \<Rightarrow>
          if mime_is_digit c then plus_loop (ucast c - 48) s'
          else (let t = dropWhile is_space s
                in if t \<noteq> [] \<and> hd t = of_char (CHR ''-'') then minus_loop 0 (tl t) else - minus_loop 0 t))"

definition mime_parse_int :: "bytes \<Rightarrow> s32" where
  "mime_parse_int s = parse_signed s"

definition mime_parse_int64 :: "bytes \<Rightarrow> s64" where
  "mime_parse_int64 s = parse_signed s"

definition mime_parse_uint :: "bytes \<Rightarrow> u32" where
  "mime_parse_uint s =
     (case s of
        [] \<Rightarrow> 0
      | c # s' \<Rightarrow> if mime_is_digit c then plus_loop (ucast c - 48) s' else plus_loop 0 (dropWhile is_space s))"

section \<open>Days\<close>

text \<open>Month, day and year; the table of months by the day from March on, in runs.\<close>

type_synonym mdy = "int \<times> int \<times> int"

definition months_table :: "int list" where
  "months_table = replicate 32 2 @ replicate 30 3 @ replicate 31 4 @ replicate 30 5 @ replicate 31 6 @ replicate 31 7 @
     replicate 30 8 @ replicate 31 9 @ replicate 30 10 @ replicate 31 11 @ replicate 31 0 @ replicate 29 1"

definition days_table :: "int list" where
  "days_table = [305, 336, - 1, 30, 60, 91, 121, 152, 183, 213, 244, 274]"

definition DAYS_OFFSET :: int where
  "DAYS_OFFSET = 25508"

text \<open>The last day before March of a year, in days since 1970.\<close>

definition year_start :: "int \<Rightarrow> int" where
  "year_start y = y * 365 + c_div y 4 - c_div y 100 + c_div (c_div y 100 + 3) 4 - DAYS_OFFSET - 1"

text \<open>The loop as year, \<open>d\<close> and \<open>dp\<close>; every step adds at least 365 days.\<close>

partial_function (option) year_loop :: "int \<Rightarrow> int \<Rightarrow> int \<Rightarrow> int \<Rightarrow> (int \<times> int) option" where
  "year_loop mday year d dp =
     (if dp < mday then year_loop mday (year + 1) dp (year_start (year + 1)) else Some (year, d))"

declare year_loop.simps [code]

text \<open>\<open>None\<close> inside is the debug assertion: the results are not written.\<close>

definition mime_days_since_epoch_to_mdy_slowcase :: "int \<Rightarrow> mdy option option" where
  "mime_days_since_epoch_to_mdy_slowcase days =
     (let mday = int32 days; y0 = c_div mday 365 + 69
      in case year_loop mday y0 (year_start y0) (year_start y0) of
           None \<Rightarrow> None
         | Some (year, d0) \<Rightarrow>
             (let d = mday - d0
              in if d < 0 \<or> d > 366 then Some None
                 else (let month = months_table ! nat d
                       in Some (Some (month, d - days_table ! nat month - 1, (if month > 1 then year - 1 else year) + 1900)))))"

text \<open>
  The lookup table: first and last day, and the entries, stored in 8 and 16 bits; where nothing is
  returned the previous entry's values are stored again.
\<close>

record mdy_table =
  first_day :: int
  last_day :: int
  entries :: "mdy list"

definition mdy_entry :: "mdy \<Rightarrow> mdy" where
  "mdy_entry x = (case x of (m, d, y) \<Rightarrow> (m mod 2 ^ 8, d mod 2 ^ 8, y mod 2 ^ 16))"

fun fill_table :: "int \<Rightarrow> nat \<Rightarrow> mdy \<Rightarrow> mdy list option" where
  "fill_table day 0 old = Some []"
| "fill_table day (Suc n) old =
     (case mime_days_since_epoch_to_mdy_slowcase day of
        None \<Rightarrow> None
      | Some r \<Rightarrow>
          (let x = (case r of None \<Rightarrow> old | Some x \<Rightarrow> x)
           in map_option (\<lambda>t. mdy_entry x # t) (fill_table (day + 1) n x)))"

definition mime_init_date_format_table :: "int \<Rightarrow> mdy_table option" where
  "mime_init_date_format_table now =
     (let now_days = int32 (c_div now (60 * 60 * 24)); first = now_days - 366; last = now_days + 366
      in map_option (\<lambda>t. \<lparr>first_day = uint32 first, last_day = uint32 last, entries = t\<rparr>)
           (fill_table first (nat (last - first + 1)) (0, 0, 0)))"

definition mime_days_since_epoch_to_mdy :: "mdy_table \<Rightarrow> int \<Rightarrow> mdy option option" where
  "mime_days_since_epoch_to_mdy tab days =
     (if uint32 days \<ge> first_day tab \<and> uint32 days \<le> last_day tab
      then map_option Some (load (entries tab) (nat (uint32 days - first_day tab)))
      else mime_days_since_epoch_to_mdy_slowcase days)"

section \<open>Printing a date\<close>

definition day_names :: "string list" where
  "day_names = [''Sun'', ''Mon'', ''Tue'', ''Wed'', ''Thu'', ''Fri'', ''Sat'']"

definition month_names :: "string list" where
  "month_names = [''Jan'', ''Feb'', ''Mar'', ''Apr'', ''May'', ''Jun'', ''Jul'', ''Aug'', ''Sep'', ''Oct'', ''Nov'', ''Dec'']"

text \<open>An access to a table of the code; outside it is \<open>None\<close>.\<close>

definition at_index :: "'a list \<Rightarrow> int \<Rightarrow> 'a option" where
  "at_index xs i = (if i < 0 then None else load xs (nat i))"

definition digitstr :: "int \<Rightarrow> bytes option" where
  "digitstr n = (if 0 \<le> n \<and> n \<le> 99 then Some [word_of_int (48 + n div 10), word_of_int (48 + n mod 10)] else None)"

definition year_digits :: "int \<Rightarrow> bytes" where
  "year_digits y =
     (if y \<ge> 2000 \<and> y \<le> 2009 then chars ''200'' @ [word_of_int (y - 2000 + 48)]
      else if y \<ge> 1990 \<and> y \<le> 1999 then chars ''199'' @ [word_of_int (y - 1990 + 48)]
      else [last_digit (c_div (c_div (c_div y 10) 10) 10), last_digit (c_div (c_div y 10) 10), last_digit (c_div y 10),
            last_digit y])"

text \<open>The 29 characters; a NUL follows them.\<close>

definition mime_format_date :: "mdy_table \<Rightarrow> int \<Rightarrow> bytes option" where
  "mime_format_date tab v =
     (let sec = int32 (c_mod v 60); v1 = c_div v 60;
          min = int32 (c_mod v1 60); v2 = c_div v1 60;
          hour = int32 (c_mod v2 24); v3 = c_div v2 24;
          wday = int32 (c_mod (4 + v3) 7)
      in do { r \<leftarrow> mime_days_since_epoch_to_mdy tab v3;
              let (month, mday, year) = (case r of None \<Rightarrow> (0, 0, 0) | Some x \<Rightarrow> x);
              dn \<leftarrow> at_index day_names wday;
              dd \<leftarrow> digitstr mday;
              mn \<leftarrow> at_index month_names month;
              hh \<leftarrow> digitstr hour;
              mm \<leftarrow> digitstr min;
              ss \<leftarrow> digitstr sec;
              Some (chars dn @ chars '', '' @ dd @ chars '' '' @ chars mn @ chars '' '' @ year_digits year @ chars '' '' @
                    hh @ chars '':'' @ mm @ chars '':'' @ ss @ chars '' GMT'') })"

section \<open>Parsing a date\<close>

record tm =
  tm_sec :: int
  tm_min :: int
  tm_hour :: int
  tm_mday :: int
  tm_mon :: int
  tm_year :: int

fun dfa_match :: "(string \<Rightarrow> bytes \<Rightarrow> bool) \<Rightarrow> string list \<Rightarrow> int \<Rightarrow> bytes \<Rightarrow> int" where
  "dfa_match re [] i s = - 1"
| "dfa_match re (p # ps) i s = (if re p s then i else dfa_match re ps (i + 1) s)"

abbreviation day_match :: "(string \<Rightarrow> bytes \<Rightarrow> bool) \<Rightarrow> bytes \<Rightarrow> int" where
  "day_match re s \<equiv> dfa_match re day_names 0 s"

abbreviation month_match :: "(string \<Rightarrow> bytes \<Rightarrow> bool) \<Rightarrow> bytes \<Rightarrow> int" where
  "month_match re s \<equiv> dfa_match re month_names 0 s"

text \<open>Three characters as a number; a \<open>char\<close> is signed.\<close>

definition three_char :: "u8 \<Rightarrow> u8 \<Rightarrow> u8 \<Rightarrow> u32" where
  "three_char a b c = push_bit 16 (scast a) OR push_bit 8 (scast b) OR scast c"

definition three_char_day :: "u32 \<Rightarrow> int" where
  "three_char_day w =
     (if w \<le> 0x53756E
      then (if w = 0x467269 then 5 else if w = 0x4D6F6E then 1 else if w = 0x536174 then 6
            else if w = 0x53756E then 0 else - 1)
      else (if w = 0x546875 then 4 else if w = 0x547565 then 2 else if w = 0x576564 then 3 else - 1))"

definition three_char_month :: "u32 \<Rightarrow> int" where
  "three_char_month w =
     (if w \<le> 0x4A756C
      then (if w \<le> 0x446563
            then (if w = 0x417072 then 3 else if w = 0x417567 then 7 else if w = 0x446563 then 11 else - 1)
            else (if w = 0x466562 then 1 else if w = 0x4A616E then 0 else if w = 0x4A756C then 6 else - 1))
      else (if w \<le> 0x4D6179
            then (if w = 0x4A756E then 5 else if w = 0x4D6172 then 2 else if w = 0x4D6179 then 4 else - 1)
            else (if w = 0x4E6F76 then 10 else if w = 0x4F6374 then 9 else if w = 0x536570 then 8 else - 1)))"

text \<open>\<open>buf[i] - '0'\<close>.\<close>

definition dval :: "bytes \<Rightarrow> nat \<Rightarrow> int" where
  "dval s i = sint (s ! i) - 48"

text \<open>\<open>s\<close> has at least 29 characters.\<close>

definition mime_parse_rfc822_date_fastcase :: "(string \<Rightarrow> bytes \<Rightarrow> bool) \<Rightarrow> bytes \<Rightarrow> tm option" where
  "mime_parse_rfc822_date_fastcase re s =
     (let wd = three_char_day (three_char (s ! 0) (s ! 1) (s ! 2));
          wday = (if wd < 0 then day_match re s else wd)
      in if wday < 0 then None
         else (let mo = three_char_month (three_char (s ! 8) (s ! 9) (s ! 10));
                   mon = (if mo < 0 then month_match re s else mo)
               in if mon < 0 then None
                  else if s ! 19 \<noteq> of_char (CHR '':'') \<or> s ! 22 \<noteq> of_char (CHR '':'') then None
                  else Some \<lparr>tm_sec = dval s 23 * 10 + dval s 24, tm_min = dval s 20 * 10 + dval s 21,
                             tm_hour = dval s 17 * 10 + dval s 18, tm_mday = dval s 5 * 10 + dval s 6, tm_mon = mon,
                             tm_year = dval s 12 * 1000 + dval s 13 * 100 + dval s 14 * 10 + dval s 15 - 1900\<rparr>))"

text \<open>The parts of the other formats: the rest of the text and the value, or \<open>None\<close> for failure.\<close>

definition parse_name :: "(bytes \<Rightarrow> int) \<Rightarrow> bytes \<Rightarrow> (bytes \<times> int) option" where
  "parse_name mt s =
     (let t = dropWhile (\<lambda>c. c \<noteq> 0 \<and> \<not> is_cls C_alpha c) s;
          w = takeWhile (\<lambda>c. c \<noteq> 0 \<and> is_cls C_alpha c) t
      in if mt w < 0 then None else Some (drop (length w) t, mt w))"

definition mime_parse_day :: "(string \<Rightarrow> bytes \<Rightarrow> bool) \<Rightarrow> bytes \<Rightarrow> (bytes \<times> int) option" where
  "mime_parse_day re s = parse_name (day_match re) s"

definition mime_parse_month :: "(string \<Rightarrow> bytes \<Rightarrow> bool) \<Rightarrow> bytes \<Rightarrow> (bytes \<times> int) option" where
  "mime_parse_month re s = parse_name (month_match re) s"

text \<open>The digits of a number; the value wraps at 32 bits.\<close>

fun digit_loop :: "s32 \<Rightarrow> bytes \<Rightarrow> bytes \<times> s32" where
  "digit_loop v [] = ([], v)"
| "digit_loop v (c # s) = (if mime_is_digit c then digit_loop (v * 10 + (ucast c - 48)) s else (c # s, v))"

definition mime_parse_integer :: "bytes \<Rightarrow> (bytes \<times> int) option" where
  "mime_parse_integer s =
     (let t = dropWhile (\<lambda>c. c \<noteq> 0 \<and> \<not> mime_is_digit c \<and> c \<noteq> of_char (CHR ''-'')) s
      in case t of
           [] \<Rightarrow> None
         | c # u \<Rightarrow>
             if c = 0 then None
             else if c = of_char (CHR ''-'') then (case digit_loop 0 u of (r, v) \<Rightarrow> Some (r, sint (- v)))
             else (case digit_loop 0 t of (r, v) \<Rightarrow> Some (r, sint v)))"

definition mime_parse_mday :: "bytes \<Rightarrow> (bytes \<times> int) option" where
  "mime_parse_mday s = mime_parse_integer s"

definition mime_parse_year :: "bytes \<Rightarrow> (bytes \<times> int) option" where
  "mime_parse_year s =
     (let t = dropWhile (\<lambda>c. c \<noteq> 0 \<and> \<not> mime_is_digit c) s
      in case t of
           [] \<Rightarrow> None
         | c # u \<Rightarrow>
             if c = 0 then None
             else (case digit_loop 0 t of
                     (r, w) \<Rightarrow> (let v = sint w in Some (r, if v \<ge> 1900 then v - 1900 else if v < 70 then v + 100 else v))))"

definition mime_parse_time :: "bytes \<Rightarrow> (bytes \<times> int \<times> int \<times> int) option" where
  "mime_parse_time s =
     do { (s1, h) \<leftarrow> mime_parse_integer s;
          (s2, m) \<leftarrow> mime_parse_integer s1;
          (s3, c) \<leftarrow> mime_parse_integer s2;
          Some (s3, h, m, c) }"

definition parse_mdyt :: "(string \<Rightarrow> bytes \<Rightarrow> bool) \<Rightarrow> bytes \<Rightarrow> tm option" where
  "parse_mdyt re s =
     do { (s1, d) \<leftarrow> mime_parse_mday s;
          (s2, m) \<leftarrow> mime_parse_month re s1;
          (s3, y) \<leftarrow> mime_parse_year s2;
          (s4, h, mi, c) \<leftarrow> mime_parse_time s3;
          Some \<lparr>tm_sec = c, tm_min = mi, tm_hour = h, tm_mday = d, tm_mon = m, tm_year = y\<rparr> }"

definition parse_asctime :: "(string \<Rightarrow> bytes \<Rightarrow> bool) \<Rightarrow> bytes \<Rightarrow> tm option" where
  "parse_asctime re s =
     do { (s1, m) \<leftarrow> mime_parse_month re s;
          (s2, d) \<leftarrow> mime_parse_mday s1;
          (s3, h, mi, c) \<leftarrow> mime_parse_time s2;
          (s4, y) \<leftarrow> mime_parse_year s3;
          Some \<lparr>tm_sec = c, tm_min = mi, tm_hour = h, tm_mday = d, tm_mon = m, tm_year = y\<rparr> }"

text \<open>The seconds since 1970 of a broken-down time, in 32 bits.\<close>

definition tm_seconds :: "tm \<Rightarrow> int option" where
  "tm_seconds tp =
     (if tm_year tp > 137 then Some (2 ^ 31 - 1)
      else if tm_year tp < 70 then Some 0
      else map_option (\<lambda>dm.
             (let y = (if tm_mon tp < 2 then tm_year tp - 1 else tm_year tp);
                  mday = tm_mday tp + dm + y * 365 + c_div y 4 - c_div y 100 + c_div (c_div y 100 + 3) 4 - DAYS_OFFSET
              in int32 (((mday * 24 + tm_hour tp) * 60 + tm_min tp) * 60 + tm_sec tp)))
             (at_index days_table (tm_mon tp)))"

definition parse_fields :: "(string \<Rightarrow> bytes \<Rightarrow> bool) \<Rightarrow> bytes \<Rightarrow> tm option" where
  "parse_fields re s =
     (let t = dropWhile mime_is_ws s
      in if t \<noteq> [] \<and> mime_is_digit (hd t) then parse_mdyt re t
         else if length t \<ge> 29 \<and> t ! 3 = of_char (CHR '','') then mime_parse_rfc822_date_fastcase re t
         else (case mime_parse_day re t of
                 None \<Rightarrow> None
               | Some (u, d) \<Rightarrow>
                   (let v = dropWhile mime_is_ws u
                    in if v \<noteq> [] \<and> (hd v = of_char (CHR '','') \<or> mime_is_digit (hd v)) then parse_mdyt re v
                       else parse_asctime re v)))"

text \<open>Every failure is the time 0.\<close>

definition mime_parse_date :: "(string \<Rightarrow> bytes \<Rightarrow> bool) \<Rightarrow> bytes \<Rightarrow> int option" where
  "mime_parse_date re s = (case parse_fields re s of None \<Rightarrow> Some 0 | Some tp \<Rightarrow> tm_seconds tp)"

end
