(* ===== verification/MimeDateSpec.thy ===== *)
theory MimeDateSpec
  imports MimeDate
begin

text \<open>
  The day conversion is the Gregorian calendar, counted day by day from 1 January 1970, with and
  without the lookup table, up to the year 3201; a printed date parses to the same time through the
  year 2037; months that are not in the fast path's table are refused there.
\<close>

section \<open>Years\<close>

definition leap :: "nat \<Rightarrow> bool" where
  "leap y \<longleftrightarrow> 4 dvd y \<and> (\<not> 100 dvd y \<or> 400 dvd y)"

lemma year_start_nat:
  "year_start (int y) = 365 * int y + int (y div 4) - int (y div 100) + int ((y div 100 + 3) div 4) - 25509"
  by (simp add: year_start_def c_div_nonneg DAYS_OFFSET_def zdiv_int)

lemma year_start_Suc: "year_start (int (Suc y)) = year_start (int y) + (if leap (Suc y + 1900) then 366 else 365)"
proof -
  have four: "4 dvd Suc y + 1900 \<longleftrightarrow> 4 dvd Suc y" by presburger
  have hun: "100 dvd Suc y + 1900 \<longleftrightarrow> 100 dvd Suc y" by (rule dvd_add_left_iff) simp
  have both: "4 dvd Suc y" if "100 dvd Suc y" using that by (rule dvd_trans [rotated]) simp
  have fh: "4 dvd Suc (y div 100 + 3) \<longleftrightarrow> 400 dvd Suc y + 1900" if h: "100 dvd Suc y"
  proof -
    obtain q where q: "Suc y = 100 * q" using h unfolding dvd_def by blast
    then obtain p where p: "q = Suc p" by (cases q) auto
    then have e: "y div 100 = p" using q by simp
    have "4 dvd Suc (y div 100 + 3) \<longleftrightarrow> 4 dvd q + 19" unfolding e p by presburger
    also have "\<dots> \<longleftrightarrow> 100 * 4 dvd 100 * (q + 19)" by (subst nat_mult_dvd_cancel_disj) simp
    also have "100 * (q + 19) = Suc y + 1900" unfolding q by simp
    finally show ?thesis by simp
  qed
  show ?thesis
  proof (cases "100 dvd Suc y")
    case True
    then have sy: "Suc y div 100 = Suc (y div 100)" by (simp add: div_Suc)
    have "(Suc y div 100 + 3) div 4 = Suc (y div 100 + 3) div 4" unfolding sy by simp
    also have "\<dots> = (y div 100 + 3) div 4 + (if 4 dvd Suc (y div 100 + 3) then 1 else 0)"
      by (simp only: div_Suc dvd_eq_mod_eq_0) simp
    finally have "(Suc y div 100 + 3) div 4 = (y div 100 + 3) div 4 + (if 400 dvd Suc y + 1900 then 1 else 0)"
      unfolding fh [OF True] .
    then show ?thesis using True both hun four sy
      unfolding year_start_nat leap_def by (simp add: div_Suc [of y 4] dvd_eq_mod_eq_0 [of 4 "Suc y"])
  next
    case False
    then have "Suc y div 100 = y div 100" by (simp add: div_Suc dvd_eq_mod_eq_0)
    then show ?thesis using False hun four unfolding year_start_nat leap_def by (simp add: div_Suc [of y 4] dvd_eq_mod_eq_0 [of 4 "Suc y"])
  qed
qed

lemma year_start_mono: "y \<le> z \<Longrightarrow> year_start (int y) + 365 * int (z - y) \<le> year_start (int z)"
proof (induction z)
  case (Suc z)
  show ?case
  proof (cases "y = Suc z")
    case False
    then have "y \<le> z" using Suc.prems by simp
    then have "year_start (int y) + 365 * int (z - y) \<le> year_start (int z)" by (rule Suc.IH)
    moreover have "year_start (int z) + 365 \<le> year_start (int (Suc z))" unfolding year_start_Suc by simp
    moreover have "int (Suc z - y) = int (z - y) + 1" using \<open>y \<le> z\<close> by simp
    ultimately show ?thesis by simp
  qed simp
qed simp

text \<open>The day \<open>n\<close> lies in the year from 1 March of \<open>y\<close> on.\<close>

definition in_year :: "int \<Rightarrow> nat \<Rightarrow> bool" where
  "in_year n y \<longleftrightarrow> year_start (int y) < n \<and> n \<le> year_start (int (Suc y))"

lemma in_year_unique:
  assumes "in_year n y" "in_year n z"
  shows "y = z"
proof (rule ccontr)
  assume "y \<noteq> z"
  then consider "Suc y \<le> z" | "Suc z \<le> y" by linarith
  then show False
  proof cases
    case 1
    from year_start_mono [OF this] assms show False by (simp add: in_year_def)
  next
    case 2
    from year_start_mono [OF this] assms show False by (simp add: in_year_def)
  qed
qed

lemma year_loop_ok:
  "year_start (int y) < n \<Longrightarrow> \<exists>z. year_loop n (int y) d (year_start (int y)) = Some (int (Suc z), year_start (int z)) \<and> in_year n z"
proof (induction "nat (n - year_start (int y))" arbitrary: y d rule: less_induct)
  case less
  have step: "year_loop n (int y) d (year_start (int y)) =
      year_loop n (int (Suc y)) (year_start (int y)) (year_start (int (Suc y)))"
    using less.prems by (subst year_loop.simps) (simp add: add.commute)
  show ?case
  proof (cases "year_start (int (Suc y)) < n")
    case True
    have "year_start (int y) < year_start (int (Suc y))" unfolding year_start_Suc by simp
    then have "nat (n - year_start (int (Suc y))) < nat (n - year_start (int y))" using less.prems by simp
    from less.hyps [OF this True] show ?thesis unfolding step by blast
  next
    case False
    then have "year_loop n (int (Suc y)) (year_start (int y)) (year_start (int (Suc y))) = Some (int (Suc y), year_start (int y))"
      by (subst year_loop.simps) simp
    then show ?thesis unfolding step using False less.prems by (intro exI [of _ y]) (simp add: in_year_def)
  qed
qed

text \<open>The first guess of the year is not too late.\<close>

lemma first_guess:
  assumes "n < 450000"
  shows "year_start (int (n div 365 + 69)) < int n"
proof -
  define y where "y = n div 365 + 69"
  have "365 * (n div 365) \<le> n" by simp
  then have y: "365 * y \<le> n + 25185" "y \<le> 1301" using assms by (simp_all add: y_def)
  define c where "c = y div 100"
  have "4 * (y div 4) \<le> y" "4 * ((c + 3) div 4) \<le> c + 3" by simp_all
  moreover have "y = 100 * c + y mod 100" "y mod 100 < 100" by (simp_all add: c_def)
  ultimately show ?thesis using y unfolding y_def [symmetric] year_start_nat c_def [symmetric] by linarith
qed

section \<open>Days of a year\<close>

lemma months_table_nth:
  assumes "d \<le> 366"
  shows "months_table ! d = (if d < 32 then 2 else if d < 62 then 3 else if d < 93 then 4 else if d < 123 then 5
    else if d < 154 then 6 else if d < 185 then 7 else if d < 215 then 8 else if d < 246 then 9 else if d < 276 then 10
    else if d < 307 then 11 else if d < 338 then 0 else 1)"
proof -
  consider "d < 32" | "32 \<le> d" "d < 62" | "62 \<le> d" "d < 93" | "93 \<le> d" "d < 123" | "123 \<le> d" "d < 154" |
    "154 \<le> d" "d < 185" | "185 \<le> d" "d < 215" | "215 \<le> d" "d < 246" | "246 \<le> d" "d < 276" |
    "276 \<le> d" "d < 307" | "307 \<le> d" "d < 338" | "338 \<le> d" using assms by linarith
  then show ?thesis using assms by cases (simp_all add: months_table_def nth_append less_diff_conv2)
qed

definition form :: "nat \<Rightarrow> int \<Rightarrow> mdy" where
  "form y d = (let month = months_table ! nat d
     in (month, d - days_table ! nat month - 1, (if month > 1 then int y else int (Suc y)) + 1900))"

lemma int32_small: "0 \<le> n \<Longrightarrow> n < 2 ^ 31 \<Longrightarrow> int32 n = n"
  unfolding int32_def by (simp only: sint_sbintrunc') (simp add: signed_take_bit_int_eq_self)

lemma year_length: "in_year n y \<Longrightarrow> n - year_start (int y) \<le> (if leap (Suc y + 1900) then 366 else 365)"
  unfolding in_year_def year_start_Suc by simp

lemma slowcase_form:
  assumes "n < 450000" "in_year (int n) y"
  shows "mime_days_since_epoch_to_mdy_slowcase (int n) = Some (Some (form y (int n - year_start (int y))))"
proof -
  have n: "int32 (int n) = int n" by (rule int32_small) (use assms(1) in simp_all)
  have g: "c_div (int n) 365 + 69 = int (n div 365 + 69)" by (simp add: c_div_nonneg zdiv_int)
  obtain z where z: "year_loop (int n) (int (n div 365 + 69)) (year_start (int (n div 365 + 69)))
      (year_start (int (n div 365 + 69))) = Some (int (Suc z), year_start (int z))" "in_year (int n) z"
    using year_loop_ok [OF first_guess [OF assms(1)]] by blast
  then have "z = y" using in_year_unique assms(2) by blast
  moreover have "\<not> (int n - year_start (int y) < 0 \<or> int n - year_start (int y) > 366)"
    using assms(2) year_length [OF assms(2)] by (auto simp: in_year_def split: if_splits)
  ultimately show ?thesis
    using z(1) by (simp add: mime_days_since_epoch_to_mdy_slowcase_def n g form_def Let_def)
qed

section \<open>The calendar\<close>

text \<open>Months are counted from 0.\<close>

definition days_in_month :: "int \<Rightarrow> int \<Rightarrow> int" where
  "days_in_month m y =
     (if m = 1 then (if leap (nat y) then 29 else 28) else if m \<in> {3, 5, 8, 10} then 30 else 31)"

definition next_day :: "mdy \<Rightarrow> mdy" where
  "next_day x = (case x of (m, d, y) \<Rightarrow>
     if d < days_in_month m y then (m, d + 1, y) else if m < 11 then (m + 1, 1, y) else (0, 1, y + 1))"

fun gregorian :: "nat \<Rightarrow> mdy" where
  "gregorian 0 = (0, 1, 1970)"
| "gregorian (Suc n) = next_day (gregorian n)"

lemma form_cases:
  assumes "1 \<le> d" "d \<le> 366"
  shows "form y d =
    (if d < 32 then (2, d, int y + 1900) else if d < 62 then (3, d - 31, int y + 1900)
     else if d < 93 then (4, d - 61, int y + 1900) else if d < 123 then (5, d - 92, int y + 1900)
     else if d < 154 then (6, d - 122, int y + 1900) else if d < 185 then (7, d - 153, int y + 1900)
     else if d < 215 then (8, d - 184, int y + 1900) else if d < 246 then (9, d - 214, int y + 1900)
     else if d < 276 then (10, d - 245, int y + 1900) else if d < 307 then (11, d - 275, int y + 1900)
     else if d < 338 then (0, d - 306, int (Suc y) + 1900) else (1, d - 337, int (Suc y) + 1900))"
proof -
  have "nat d \<le> 366" using assms by simp
  note t = months_table_nth [OF this]
  show ?thesis unfolding form_def t days_table_def using assms by (simp add: Let_def nat_less_iff)
qed

lemma form_next:
  assumes "1 \<le> d" "d < (if leap (Suc y + 1900) then 366 else 365)"
  shows "form y (d + 1) = next_day (form y d)"
proof -
  have d: "1 \<le> d" "d \<le> 366" "1 \<le> d + 1" "d + 1 \<le> 366" using assms by (auto split: if_splits)
  have l: "d = 365 \<Longrightarrow> leap (Suc y + 1900)" using assms(2) by (simp split: if_splits)
  have n: "nat (1901 + int y) = 1901 + y" "nat (1900 + int y) = 1900 + y" by simp_all
  show ?thesis
    unfolding form_cases [OF d(1,2)] form_cases [OF d(3,4)] next_day_def days_in_month_def
    using l d by (auto simp: n)
qed

lemma form_last:
  assumes "d = (if leap (Suc y + 1900) then 366 else 365)"
  shows "form (Suc y) 1 = next_day (form y d)"
proof -
  have d: "1 \<le> d" "d \<le> 366" using assms by (auto split: if_splits)
  have n: "nat (1901 + int y) = 1901 + y" by simp
  show ?thesis
    unfolding form_cases [OF d] form_cases [of 1, simplified] next_day_def days_in_month_def
    using assms by (auto simp: n split: if_splits)
qed

lemma year_start_1970: "year_start 69 = - 307" "year_start 70 = 58"
  using year_start_nat [of 69] year_start_nat [of 70] by simp_all

lemma gregorian_form: "in_year (int n) y \<Longrightarrow> 69 \<le> y \<Longrightarrow> gregorian n = form y (int n - year_start (int y))"
proof (induction n arbitrary: y)
  case 0
  have "in_year 0 69" by (simp add: in_year_def year_start_1970)
  then have "y = 69" using 0 in_year_unique by auto
  then show ?case by (simp add: year_start_1970 form_cases)
next
  case (Suc n)
  show ?case
  proof (cases "in_year (int n) y")
    case True
    have "int n - year_start (int y) < (if leap (Suc y + 1900) then 366 else 365)" using year_length [OF Suc.prems(1)] by simp
    moreover have "1 \<le> int n - year_start (int y)" using True by (simp add: in_year_def)
    ultimately have "form y (int n - year_start (int y) + 1) = next_day (form y (int n - year_start (int y)))"
      by (intro form_next)
    moreover have "int (Suc n) - year_start (int y) = int n - year_start (int y) + 1" by simp
    ultimately show ?thesis using Suc.IH [OF True Suc.prems(2)] by (simp only: gregorian.simps)
  next
    case False
    then have e: "int n = year_start (int y)" using Suc.prems(1) by (simp add: in_year_def)
    have "y \<noteq> 69" using e by (auto simp: year_start_1970)
    then obtain z where z: "y = Suc z" "69 \<le> z" using Suc.prems(2) by (cases y) auto
    have len: "int n - year_start (int z) = (if leap (Suc z + 1900) then 366 else 365)" unfolding e z(1) year_start_Suc by simp
    then have "in_year (int n) z" unfolding in_year_def e z(1) by (auto split: if_splits)
    from Suc.IH [OF this z(2)] have "gregorian n = form z (int n - year_start (int z))" .
    then show ?thesis using form_last [OF len] e z(1) by simp
  qed
qed

lemma in_some_year: "\<exists>y. in_year (int n) y \<and> 69 \<le> y"
proof -
  have "year_start (int 69) < int n" by (simp add: year_start_1970)
  from year_loop_ok [OF this] obtain z where z: "in_year (int n) z" by blast
  have "69 \<le> z"
  proof (rule ccontr)
    assume "\<not> 69 \<le> z"
    then have "Suc z \<le> 69" by simp
    from year_start_mono [OF this] have "year_start (int (Suc z)) \<le> year_start (int 69)" by simp
    then show False using z by (simp add: in_year_def year_start_1970)
  qed
  then show ?thesis using z by blast
qed

lemma slowcase_gregorian: "n < 450000 \<Longrightarrow> mime_days_since_epoch_to_mdy_slowcase (int n) = Some (Some (gregorian n))"
  using in_some_year [of n] slowcase_form gregorian_form by auto

lemma gregorian_bounds:
  assumes n: "n < 450000"
  obtains m d y where "gregorian n = (m, d, y)" "0 \<le> m" "m < 12" "1 \<le> d" "d \<le> 31" "1970 \<le> y" "y < 3300"
proof -
  obtain z where z: "in_year (int n) z" "69 \<le> z" using in_some_year by blast
  define e where "e = int n - year_start (int z)"
  have e: "1 \<le> e" "e \<le> 366" using year_length [OF z(1)] z(1) by (auto simp: e_def in_year_def split: if_splits)
  have g: "gregorian n = form z e" unfolding e_def by (rule gregorian_form [OF z])
  have "z = 69 \<Longrightarrow> 307 \<le> e" by (simp add: e_def year_start_1970)
  moreover have "int z < 1305"
  proof -
    have "365 * int z - 25509 \<le> year_start (int z)"
    proof -
      have "z div 100 \<le> z div 4" by (rule div_le_mono2) simp_all
      then show ?thesis unfolding year_start_nat by linarith
    qed
    then show ?thesis using z(1) n by (simp add: in_year_def)
  qed
  ultimately have z': "int z < 1305" "69 \<le> int z" "e < 307 \<longrightarrow> 70 \<le> int z"
    using z(2) by (auto simp: order.order_iff_strict)
  show thesis
    by (intro that [of "fst (form z e)" "fst (snd (form z e))" "snd (snd (form z e))"])
      (use e z' in \<open>auto simp: g form_cases [OF e]\<close>)
qed

section \<open>The lookup table\<close>

lemma fill_table_ok:
  "k + n < 450000 \<Longrightarrow> fill_table (int k) n old = Some (map gregorian [k..<k + n])"
proof (induction n arbitrary: k old)
  case (Suc n)
  have k: "k < 450000" using Suc.prems by simp
  obtain m d y where g: "gregorian k = (m, d, y)" "0 \<le> m" "m < 12" "1 \<le> d" "d \<le> 31" "1970 \<le> y" "y < 3300"
    by (rule gregorian_bounds [OF k])
  have e: "mdy_entry (gregorian k) = gregorian k" unfolding mdy_entry_def g(1) using g(2-7) by simp
  have "fill_table (int (Suc k)) n (gregorian k) = Some (map gregorian [Suc k..<Suc k + n])"
    by (rule Suc.IH) (use Suc.prems in simp)
  then have "fill_table (int k + 1) n (gregorian k) = Some (map gregorian [Suc k..<Suc k + n])" by (simp add: add.commute)
  moreover have "[k..<k + Suc n] = k # [Suc k..<Suc k + n]" by (simp add: upt_conv_Cons del: upt_Suc)
  ultimately show ?case using slowcase_gregorian [OF k] e by (simp add: Let_def del: upt_Suc of_nat_Suc)
qed simp

lemma uint32_small: "0 \<le> n \<Longrightarrow> n < 2 ^ 32 \<Longrightarrow> uint32 n = n"
  by (simp add: uint32_def unsigned_of_int take_bit_int_eq_self)

lemma table_ok:
  assumes "366 \<le> k" "k < 400000"
  shows "mime_init_date_format_table (int k * 86400 + r mod 86400) =
    Some \<lparr>first_day = int (k - 366), last_day = int (k + 366), entries = map gregorian [k - 366..<k + 367]\<rparr>"
proof -
  have "0 \<le> r mod 86400" "r mod 86400 < 86400" by simp_all
  then have "c_div (int k * 86400 + r mod 86400) 86400 = int k" by (subst c_div_nonneg) auto
  then have now: "int32 (c_div (int k * 86400 + r mod 86400) (60 * 60 * 24)) = int k" using int32_small [of "int k"] assms by simp
  have f: "int k - 366 = int (k - 366)" using assms by simp
  have "fill_table (int (k - 366)) 733 (0, 0, 0) = Some (map gregorian [k - 366..<k - 366 + 733])"
    by (rule fill_table_ok) (use assms in simp)
  moreover have "k - 366 + 733 = k + 367" using assms by simp
  moreover have "uint32 (int (k - 366)) = int (k - 366)" "uint32 (int k + 366) = int (k + 366)"
    using uint32_small [of "int (k - 366)"] uint32_small [of "int k + 366"] assms by simp_all
  ultimately show ?thesis
    unfolding mime_init_date_format_table_def now Let_def f by (simp add: f [symmetric])
qed

definition table_at :: "nat \<Rightarrow> mdy_table" where
  "table_at k = \<lparr>first_day = int (k - 366), last_day = int (k + 366), entries = map gregorian [k - 366..<k + 367]\<rparr>"

lemma mdy_gregorian:
  assumes "n < 450000" "366 \<le> k"
  shows "mime_days_since_epoch_to_mdy (table_at k) (int n) = Some (Some (gregorian n))"
proof (cases "k - 366 \<le> n \<and> n \<le> k + 366")
  case True
  have u: "uint32 (int n) = int n" by (rule uint32_small) (use assms(1) in simp_all)
  have "nat (int n - int (k - 366)) = n - (k - 366)" using True by simp
  then have "load (entries (table_at k)) (nat (int n - int (k - 366))) = Some (gregorian n)"
  proof -
    have l: "n - (k - 366) < length [k - 366..<k + 367]" using True assms(2) by simp linarith
    have i: "k - 366 + (n - (k - 366)) = n" using True by simp
    have "[k - 366..<k + 367] ! (n - (k - 366)) = n" using i True by (subst nth_upt) simp_all
    then show ?thesis unfolding \<open>nat (int n - int (k - 366)) = n - (k - 366)\<close>
      using l by (simp add: table_at_def load_def del: length_upt)
  qed
  then show ?thesis using True by (simp add: mime_days_since_epoch_to_mdy_def u table_at_def)
next
  case False
  have u: "uint32 (int n) = int n" by (rule uint32_small) (use assms(1) in simp_all)
  show ?thesis using False slowcase_gregorian [OF assms(1)]
    by (auto simp: mime_days_since_epoch_to_mdy_def u table_at_def)
qed

section \<open>Dates\<close>

definition dig :: "int \<Rightarrow> u8" where
  "dig k = word_of_int (48 + k)"

lemma dig_range: "0 \<le> k \<Longrightarrow> k < 10 \<Longrightarrow> (k :: int) \<in> {0, 1, 2, 3, 4, 5, 6, 7, 8, 9}"
  unfolding insert_iff empty_iff by presburger

lemma dig_value: "0 \<le> k \<Longrightarrow> k < 10 \<Longrightarrow> sint (dig k) - 48 = k"
  using dig_range [of k] by (auto simp: dig_def)

lemma last_digit_dig: "0 \<le> v \<Longrightarrow> last_digit v = dig (v mod 10)"
  by (simp add: last_digit_def dig_def c_mod_nonneg)

lemma year_digits_dig:
  assumes "1000 \<le> y" "y < 10000"
  shows "year_digits y = [dig (y div 1000), dig (y div 100 mod 10), dig (y div 10 mod 10), dig (y mod 10)]"
proof -
  have chs: "chars ''200'' = [50, 48, 48]" "chars ''199'' = [49, 57, 57]" by code_simp+
  have digs: "(word_of_int (48 + 0) :: u8) = 48" "(word_of_int (48 + 1) :: u8) = 49" "(word_of_int (48 + 2) :: u8) = 50"
    "(word_of_int (48 + 9) :: u8) = 57" by simp_all
  have ten: "(2000 + k) div 10 = 200 + k div 10" "(2000 + k) mod 10 = k mod 10" "(1990 + k) div 10 = 199 + k div 10"
    "(1990 + k) mod 10 = k mod 10" "(200 + 0 :: int) = 200" "(199 + 0 :: int) = 199" for k :: int
    using div_mult_self1 [of 10 k 200] mod_mult_self1 [of k 200 10] div_mult_self1 [of 10 k 199] mod_mult_self1 [of k 199 10]
    by (simp_all add: add.commute)
  consider "2000 \<le> y \<and> y \<le> 2009" | "1990 \<le> y \<and> y \<le> 1999" | "\<not> (2000 \<le> y \<and> y \<le> 2009)" "\<not> (1990 \<le> y \<and> y \<le> 1999)" by blast
  then show ?thesis
  proof cases
    case 1
    define k where "k = y - 2000"
    have k: "0 \<le> k" "k < 10" "y = 2000 + k" using 1 by (auto simp: k_def)
    have "y div 10 = 200" "y mod 10 = k" unfolding k(3) using div_pos_pos_trivial [OF k(1,2)] mod_pos_pos_trivial [OF k(1,2)]
      by (simp_all only: ten)
    then have "y div 1000 = 2" "y div 100 mod 10 = 0" "y div 10 mod 10 = 0" "y mod 10 = k"
      using zdiv_zmult2_eq [of 100 y 10] zdiv_zmult2_eq [of 10 y 10] by simp_all
    moreover have "y \<ge> 2000 \<and> y \<le> 2009" "y - 2000 + 48 = 48 + k" using 1 k(3) by simp_all
    ultimately show ?thesis unfolding year_digits_def chs by (simp only: if_True simp_thms dig_def digs append.simps)
  next
    case 2
    define k where "k = y - 1990"
    have k: "0 \<le> k" "k < 10" "y = 1990 + k" using 2 by (auto simp: k_def)
    have "y div 10 = 199" "y mod 10 = k" unfolding k(3) using div_pos_pos_trivial [OF k(1,2)] mod_pos_pos_trivial [OF k(1,2)]
      by (simp_all only: ten)
    then have "y div 1000 = 1" "y div 100 mod 10 = 9" "y div 10 mod 10 = 9" "y mod 10 = k"
      using zdiv_zmult2_eq [of 100 y 10] zdiv_zmult2_eq [of 10 y 10] by simp_all
    moreover have "\<not> (y \<ge> 2000 \<and> y \<le> 2009)" "y \<ge> 1990 \<and> y \<le> 1999" "y - 1990 + 48 = 48 + k" using 2 k(3) by simp_all
    ultimately show ?thesis unfolding year_digits_def chs by (simp only: if_True if_False simp_thms dig_def digs append.simps)
  next
    case 3
    have thousand: "y div 1000 mod 10 = y div 1000" using assms by simp
    have pos: "0 \<le> y" "0 \<le> y div 10" "0 \<le> y div 10 div 10" "0 \<le> y div 10 div 10 div 10" using assms by simp_all
    have div: "c_div y 10 = y div 10" "c_div (y div 10) 10 = y div 10 div 10"
      "c_div (y div 10 div 10) 10 = y div 10 div 10 div 10"
      by (simp_all only: c_div_nonneg [OF pos(1)] c_div_nonneg [OF pos(2)] c_div_nonneg [OF pos(3)])
    have dd: "y div 10 div 10 = y div 100" "y div 100 div 10 = y div 1000" by (simp_all add: zdiv_zmult2_eq [symmetric])
    have "year_digits y = [dig (y div 10 div 10 div 10 mod 10), dig (y div 10 div 10 mod 10), dig (y div 10 mod 10), dig (y mod 10)]"
      unfolding year_digits_def div last_digit_dig [OF pos(1)] last_digit_dig [OF pos(2)] last_digit_dig [OF pos(3)]
        last_digit_dig [OF pos(4)]
      by (simp only: 3 if_False simp_thms)
    then show ?thesis by (simp only: dd thousand)
  qed
qed

lemma day_name_code:
  "list_all (\<lambda>w. case chars (day_names ! w) of
     [a, b, c] \<Rightarrow> three_char_day (three_char a b c) = int w \<and> \<not> mime_is_ws a \<and> \<not> mime_is_digit a | _ \<Rightarrow> False) [0..<7]"
  by code_simp

lemma month_name_code:
  "list_all (\<lambda>m. case chars (month_names ! m) of
     [a, b, c] \<Rightarrow> three_char_month (three_char a b c) = int m | _ \<Rightarrow> False) [0..<12]"
  by code_simp

lemma day_name:
  assumes "0 \<le> w" "w < 7"
  obtains a b c where "map_option chars (at_index day_names w) = Some [a, b, c]" "three_char_day (three_char a b c) = w"
    "\<not> mime_is_ws a" "\<not> mime_is_digit a"
proof -
  have "nat w \<in> set [0..<7]" using assms by simp
  with day_name_code have "case chars (day_names ! nat w) of
     [a, b, c] \<Rightarrow> three_char_day (three_char a b c) = int (nat w) \<and> \<not> mime_is_ws a \<and> \<not> mime_is_digit a | _ \<Rightarrow> False"
    unfolding list_all_iff by blast
  moreover have "at_index day_names w = Some (day_names ! nat w)"
    using assms by (simp add: at_index_def load_def day_names_def)
  ultimately show thesis using that assms by (auto split: list.splits)
qed

lemma month_name:
  assumes "0 \<le> m" "m < 12"
  obtains a b c where "map_option chars (at_index month_names m) = Some [a, b, c]" "three_char_month (three_char a b c) = m"
proof -
  have "nat m \<in> set [0..<12]" using assms by simp
  with month_name_code have "case chars (month_names ! nat m) of
     [a, b, c] \<Rightarrow> three_char_month (three_char a b c) = int (nat m) | _ \<Rightarrow> False"
    unfolding list_all_iff by blast
  moreover have "at_index month_names m = Some (month_names ! nat m)"
    using assms by (simp add: at_index_def load_def month_names_def)
  ultimately show thesis using that assms by (auto split: list.splits)
qed

lemma digitstr_dig: "0 \<le> n \<Longrightarrow> n < 100 \<Longrightarrow> digitstr n = Some [dig (n div 10), dig (n mod 10)]"
  by (simp add: digitstr_def dig_def)

text \<open>The 29 characters of a date.\<close>

definition stamp :: "u8 \<Rightarrow> u8 \<Rightarrow> u8 \<Rightarrow> int \<Rightarrow> u8 \<Rightarrow> u8 \<Rightarrow> u8 \<Rightarrow> int \<Rightarrow> int \<Rightarrow> int \<Rightarrow> int \<Rightarrow> bytes" where
  "stamp a b c d p q r y h mi se =
     [a, b, c, 44, 32, dig (d div 10), dig (d mod 10), 32, p, q, r, 32, dig (y div 1000), dig (y div 100 mod 10),
      dig (y div 10 mod 10), dig (y mod 10), 32, dig (h div 10), dig (h mod 10), 58, dig (mi div 10), dig (mi mod 10), 58,
      dig (se div 10), dig (se mod 10), 32, 71, 77, 84]"

lemma format_date_stamp:
  assumes t: "0 \<le> t" "t div 86400 < 450000" and k: "366 \<le> k" and g: "gregorian (nat (t div 86400)) = (m, d, y)"
    and dn: "map_option chars (at_index day_names ((4 + t div 86400) mod 7)) = Some [a, b, c]"
    and mn: "map_option chars (at_index month_names m) = Some [p, q, r]"
  shows "mime_format_date (table_at k) t = Some (stamp a b c d p q r y (t div 3600 mod 24) (t div 60 mod 60) (t mod 60))"
proof -
  have n: "nat (t div 86400) < 450000" using t by simp
  obtain m' d' y' where b: "gregorian (nat (t div 86400)) = (m', d', y')" "0 \<le> m'" "m' < 12" "1 \<le> d'" "d' \<le> 31"
    "1970 \<le> y'" "y' < 3300" by (rule gregorian_bounds [OF n])
  have div: "c_div t 60 = t div 60" "c_div (t div 60) 60 = t div 3600" "c_div (t div 3600) 24 = t div 86400"
    "c_mod t 60 = t mod 60" "c_mod (t div 60) 60 = t div 60 mod 60" "c_mod (t div 3600) 24 = t div 3600 mod 24"
    "c_mod (4 + t div 86400) 7 = (4 + t div 86400) mod 7"
    using t(1) by (simp_all add: c_div_nonneg c_mod_nonneg zdiv_zmult2_eq [symmetric] pos_imp_zdiv_nonneg_iff)
  have small: "int32 (x mod k) = x mod k" if "0 < k" "k < 100" for x k :: int
  proof (rule int32_small)
    show "0 \<le> x mod k" using that by simp
    have "x mod k < k" using that by (intro pos_mod_bound)
    then have "x mod k < 100" using that(2) by linarith
    then show "x mod k < 2 ^ 31" by simp
  qed
  have md: "mime_days_since_epoch_to_mdy (table_at k) (t div 86400) = Some (Some (m, d, y))"
    using mdy_gregorian [OF n k] g pos_imp_zdiv_nonneg_iff [of 86400 t] t by simp
  have ds: "digitstr d = Some [dig (d div 10), dig (d mod 10)]"
    "digitstr (t div 3600 mod 24) = Some [dig (t div 3600 mod 24 div 10), dig (t div 3600 mod 24 mod 10)]"
    "digitstr (t div 60 mod 60) = Some [dig (t div 60 mod 60 div 10), dig (t div 60 mod 60 mod 10)]"
    "digitstr (t mod 60) = Some [dig (t mod 60 div 10), dig (t mod 60 mod 10)]"
  proof -
    have "t div 3600 mod 24 < 24" "t div 60 mod 60 < 60" "t mod 60 < 60" by simp_all
    then show "digitstr d = Some [dig (d div 10), dig (d mod 10)]"
      "digitstr (t div 3600 mod 24) = Some [dig (t div 3600 mod 24 div 10), dig (t div 3600 mod 24 mod 10)]"
      "digitstr (t div 60 mod 60) = Some [dig (t div 60 mod 60 div 10), dig (t div 60 mod 60 mod 10)]"
      "digitstr (t mod 60) = Some [dig (t mod 60 div 10), dig (t mod 60 mod 10)]"
      using b g by (simp_all add: digitstr_dig)
  qed
  have yd: "year_digits y = [dig (y div 1000), dig (y div 100 mod 10), dig (y div 10 mod 10), dig (y mod 10)]"
    by (rule year_digits_dig) (use b g in simp_all)
  obtain dn' where dn': "at_index day_names ((4 + t div 86400) mod 7) = Some dn'" "chars dn' = [a, b, c]" using dn by auto
  obtain mn' where mn': "at_index month_names m = Some mn'" "chars mn' = [p, q, r]" using mn by auto
  have ch: "chars '', '' = [44, 32]" "chars '' '' = [32]" "chars '':'' = [58]" "chars '' GMT'' = [32, 71, 77, 84]"
    by (simp_all add: chars_def of_char_def)
  show ?thesis
    unfolding mime_format_date_def Let_def div
    by (simp add: small md ds yd dn' mn' ch stamp_def)
qed

lemma stamp_nth:
  "stamp a b c d p q r y h mi se ! 0 = a" "stamp a b c d p q r y h mi se ! 1 = b" "stamp a b c d p q r y h mi se ! 2 = c"
  "stamp a b c d p q r y h mi se ! 3 = 44" "stamp a b c d p q r y h mi se ! 5 = dig (d div 10)"
  "stamp a b c d p q r y h mi se ! 6 = dig (d mod 10)" "stamp a b c d p q r y h mi se ! 8 = p"
  "stamp a b c d p q r y h mi se ! 9 = q" "stamp a b c d p q r y h mi se ! 10 = r"
  "stamp a b c d p q r y h mi se ! 12 = dig (y div 1000)" "stamp a b c d p q r y h mi se ! 13 = dig (y div 100 mod 10)"
  "stamp a b c d p q r y h mi se ! 14 = dig (y div 10 mod 10)" "stamp a b c d p q r y h mi se ! 15 = dig (y mod 10)"
  "stamp a b c d p q r y h mi se ! 17 = dig (h div 10)" "stamp a b c d p q r y h mi se ! 18 = dig (h mod 10)"
  "stamp a b c d p q r y h mi se ! 19 = 58" "stamp a b c d p q r y h mi se ! 20 = dig (mi div 10)"
  "stamp a b c d p q r y h mi se ! 21 = dig (mi mod 10)" "stamp a b c d p q r y h mi se ! 22 = 58"
  "stamp a b c d p q r y h mi se ! 23 = dig (se div 10)" "stamp a b c d p q r y h mi se ! 24 = dig (se mod 10)"
  "length (stamp a b c d p q r y h mi se) = 29" "hd (stamp a b c d p q r y h mi se) = a"
  by (simp_all add: stamp_def)

lemma stamp_fields:
  assumes w: "three_char_day (three_char a b c) = w" "0 \<le> w" "\<not> mime_is_ws a" "\<not> mime_is_digit a"
    and m: "three_char_month (three_char p q r) = m" "0 \<le> m"
    and r: "1 \<le> d" "d \<le> 31" "1000 \<le> y" "y < 10000" "0 \<le> h" "h < 24" "0 \<le> mi" "mi < 60" "0 \<le> se" "se < 60"
  shows "parse_fields re (stamp a b c d p q r y h mi se) =
    Some \<lparr>tm_sec = se, tm_min = mi, tm_hour = h, tm_mday = d, tm_mon = m, tm_year = y - 1900\<rparr>"
proof -
  let ?s = "stamp a b c d p q r y h mi se"
  have two: "(sint (dig (v div 10)) - 48) * 10 + (sint (dig (v mod 10)) - 48) = v" if "0 \<le> v" "v < 100" for v
    using that by (simp add: dig_value)
  have y10: "y div 1000 < 10" "y div 100 mod 10 < 10" "y div 10 mod 10 < 10" "y mod 10 < 10"
    "0 \<le> y div 1000" "0 \<le> y div 100 mod 10" "0 \<le> y div 10 mod 10" "0 \<le> y mod 10" using r(3,4) by simp_all
  have yd: "y div 1000 * 1000 + y div 100 mod 10 * 100 + y div 10 mod 10 * 10 + y mod 10 = y"
  proof -
    have "y div 10 div 10 = y div 100" "y div 100 div 10 = y div 1000" by (simp_all add: zdiv_zmult2_eq [symmetric])
    then show ?thesis using div_mult_mod_eq [of y 10] div_mult_mod_eq [of "y div 10" 10] div_mult_mod_eq [of "y div 100" 10]
      by linarith
  qed
  have dvs: "dval ?s 5 = sint (dig (d div 10)) - 48" "dval ?s 6 = sint (dig (d mod 10)) - 48"
    "dval ?s 17 = sint (dig (h div 10)) - 48" "dval ?s 18 = sint (dig (h mod 10)) - 48"
    "dval ?s 20 = sint (dig (mi div 10)) - 48" "dval ?s 21 = sint (dig (mi mod 10)) - 48"
    "dval ?s 23 = sint (dig (se div 10)) - 48" "dval ?s 24 = sint (dig (se mod 10)) - 48"
    unfolding dval_def by (simp_all only: stamp_nth)
  have dd: "dval ?s 5 * 10 + dval ?s 6 = d"
    unfolding dvs by (rule two) (use r in linarith)+
  have dh: "dval ?s 17 * 10 + dval ?s 18 = h"
    unfolding dvs by (rule two) (use r in linarith)+
  have dm: "dval ?s 20 * 10 + dval ?s 21 = mi"
    unfolding dvs by (rule two) (use r in linarith)+
  have ds: "dval ?s 23 * 10 + dval ?s 24 = se"
    unfolding dvs by (rule two) (use r in linarith)+
  have yvs: "dval ?s 12 = y div 1000" "dval ?s 13 = y div 100 mod 10" "dval ?s 14 = y div 10 mod 10" "dval ?s 15 = y mod 10"
    unfolding dval_def by (simp_all only: stamp_nth dig_value [OF y10(5,1)] dig_value [OF y10(6,2)] dig_value [OF y10(7,3)]
      dig_value [OF y10(8,4)])
  have yv: "dval ?s 12 * 1000 + dval ?s 13 * 100 + dval ?s 14 * 10 + dval ?s 15 = y"
    unfolding yvs by (rule yd)
  have dw: "dropWhile mime_is_ws ?s = ?s" using w(3) by (simp add: stamp_def)
  have colon: "(of_char (CHR '':'') :: u8) = 58" "(of_char (CHR '','') :: u8) = 44" by (simp_all add: of_char_def)
  show ?thesis
    unfolding parse_fields_def dw Let_def mime_parse_rfc822_date_fastcase_def stamp_nth dd dh dm ds yv colon w(1) m(1)
    using w(2,4) m(2) by simp
qed

text \<open>The inverse of the calendar that the parser computes.\<close>

lemma tm_days:
  assumes "in_year (int n) z" "69 \<le> z" "gregorian n = (m, d, y)" "n < 24837"
  shows "y - 1900 \<le> 137" "70 \<le> y - 1900"
    "at_index days_table m = Some (days_table ! nat m)"
    "d + days_table ! nat m + (if m < 2 then y - 1900 - 1 else y - 1900) * 365 + c_div (if m < 2 then y - 1900 - 1 else y - 1900) 4
      - c_div (if m < 2 then y - 1900 - 1 else y - 1900) 100
      + c_div (c_div (if m < 2 then y - 1900 - 1 else y - 1900) 100 + 3) 4 - DAYS_OFFSET = int n"
proof -
  define e where "e = int n - year_start (int z)"
  have e: "1 \<le> e" "e \<le> 366" using year_length [OF assms(1)] assms(1) by (auto simp: e_def in_year_def split: if_splits)
  have g: "form z e = (m, d, y)" using gregorian_form [OF assms(1,2)] assms(3) by (simp add: e_def)
  have fm: "m = months_table ! nat e" "d = e - days_table ! nat m - 1" "y = (if m > 1 then int z else int (Suc z)) + 1900"
    using g unfolding form_def Let_def by auto
  have n': "n < 450000" using assms(4) by simp
  obtain m' d' y' where b: "gregorian n = (m', d', y')" "0 \<le> m'" "m' < 12" "1 \<le> d'" "d' \<le> 31" "1970 \<le> y'" "y' < 3300"
    by (rule gregorian_bounds [OF n'])
  have bm: "0 \<le> m" "m < 12" "1970 \<le> y" using b assms(3) by simp_all
  have zy: "(if m < 2 then y - 1900 - 1 else y - 1900) = int z" using fm(3) by simp
  show "at_index days_table m = Some (days_table ! nat m)"
    using bm by (simp add: at_index_def load_def days_table_def)
  show "70 \<le> y - 1900" using bm by simp
  show "d + days_table ! nat m + (if m < 2 then y - 1900 - 1 else y - 1900) * 365 + c_div (if m < 2 then y - 1900 - 1 else y - 1900) 4
      - c_div (if m < 2 then y - 1900 - 1 else y - 1900) 100
      + c_div (c_div (if m < 2 then y - 1900 - 1 else y - 1900) 100 + 3) 4 - DAYS_OFFSET = int n"
    unfolding zy using fm(2) by (simp add: e_def year_start_def)
  have z137: "year_start 137 = 24530" "year_start 138 = 24895" using year_start_nat [of 137] year_start_nat [of 138] by simp_all
  have "z \<le> 137"
  proof (rule ccontr)
    assume "\<not> z \<le> 137"
    then have "year_start (int 138) \<le> year_start (int z)" using year_start_mono [of 138 z] by simp
    then show False using assms(1,4) z137 by (simp add: in_year_def)
  qed
  show "y - 1900 \<le> 137"
  proof (cases "z = 137")
    case True
    then have "e < 307" using assms(4) z137 by (simp add: e_def)
    then have "m \<noteq> 0 \<and> m \<noteq> 1" using g e by (auto simp: form_cases [OF e] split: if_splits)
    then show ?thesis using fm(3) True bm by (auto split: if_splits)
  next
    case False
    then show ?thesis using fm(3) \<open>z \<le> 137\<close> by (auto split: if_splits)
  qed
qed

section \<open>Properties\<close>

lemma table_now:
  assumes "366 * 86400 \<le> now" "now < 400000 * 86400"
  obtains k where "mime_init_date_format_table now = Some (table_at k)" "366 \<le> k"
proof -
  define k where "k = nat (now div 86400)"
  have "366 \<le> now div 86400" "now div 86400 < 400000" using assms by linarith+
  then have k: "366 \<le> k" "k < 400000" "int k = now div 86400" by (simp_all add: k_def)
  have "int k * 86400 + now mod 86400 = now" unfolding k(3) by (rule div_mult_mod_eq)
  then have "mime_init_date_format_table now = Some (table_at k)"
    using table_ok [OF k(1,2), of now] by (simp add: table_at_def)
  then show thesis using k(1) by (rule that)
qed

text \<open>
  C25. The day conversion of \<open>mime_days_since_epoch_to_mdy\<close>, whether the lookup table of some current
  time or the arithmetic with its year loop answers, is the calendar obtained by counting days from
  1 January 1970 with the Gregorian leap years; the loop ends and no debug assertion fails.
\<close>

theorem mime_calendar:
  assumes "366 * 86400 \<le> now" "now < 400000 * 86400" "n < 450000"
  shows "\<exists>tab. mime_init_date_format_table now = Some tab \<and>
    mime_days_since_epoch_to_mdy tab (int n) = Some (Some (gregorian n)) \<and>
    mime_days_since_epoch_to_mdy_slowcase (int n) = Some (Some (gregorian n))"
proof -
  obtain k where "mime_init_date_format_table now = Some (table_at k)" "366 \<le> k" by (rule table_now [OF assms(1,2)])
  then show ?thesis using mdy_gregorian [OF assms(3)] slowcase_gregorian [OF assms(3)] by blast
qed

lemma mime_calendar_witness:
  "\<exists>tab. mime_init_date_format_table 1300000000 = Some tab \<and>
    mime_days_since_epoch_to_mdy tab (int 400) = Some (Some (gregorian 400)) \<and>
    mime_days_since_epoch_to_mdy_slowcase (int 400) = Some (Some (gregorian 400))"
  by (rule mime_calendar) simp_all

lemma tm_seconds_days:
  assumes t: "0 \<le> t" "t < 2145916800" and g: "gregorian (nat (t div 86400)) = (m, d, y)"
  shows "tm_seconds \<lparr>tm_sec = t mod 60, tm_min = t div 60 mod 60, tm_hour = t div 3600 mod 24, tm_mday = d, tm_mon = m,
    tm_year = y - 1900\<rparr> = Some t"
proof -
  define n where "n = nat (t div 86400)"
  have n: "n < 24837" "int n = t div 86400" using t by (simp_all add: n_def pos_imp_zdiv_nonneg_iff)
  obtain z where z: "in_year (int n) z" "69 \<le> z" using in_some_year by blast
  note days = tm_days [OF z g [folded n_def] n(1)]
  have total: "(((t div 86400) * 24 + t div 3600 mod 24) * 60 + t div 60 mod 60) * 60 + t mod 60 = t"
  proof -
    have "t div 60 div 60 = t div 3600" "t div 3600 div 24 = t div 86400" using t(1) by (simp_all add: zdiv_zmult2_eq [symmetric])
    then have "t div 86400 * 24 + t div 3600 mod 24 = t div 3600" "t div 3600 * 60 + t div 60 mod 60 = t div 60"
      using div_mult_mod_eq [of "t div 60" 60] div_mult_mod_eq [of "t div 3600" 24] by (simp_all only:)
    then show ?thesis by (simp only: div_mult_mod_eq)
  qed
  have small: "int32 t = t" by (rule int32_small) (use t in simp_all)
  have year: "(137 < y - 1900) = False" "(y - 1900 < 70) = False" using days(1,2) by auto
  show ?thesis
    unfolding tm_seconds_def tm.simps Let_def days(3) option.map days(4) n(2) by (simp only: total small year if_False)
qed

text \<open>
  C24. What \<open>mime_format_date\<close> prints for a time from 1970 to the end of 2037 has 29 characters and is read
  back by \<open>mime_parse_date\<close> (on its fast path) as the same time, whatever lookup table was built.
\<close>

theorem mime_date_roundtrip:
  assumes "366 * 86400 \<le> now" "now < 400000 * 86400" "0 \<le> t" "t < 2145916800"
  shows "\<exists>tab s. mime_init_date_format_table now = Some tab \<and> mime_format_date tab t = Some s \<and> length s = 29 \<and>
    mime_parse_date re s = Some t"
proof -
  obtain k where k: "mime_init_date_format_table now = Some (table_at k)" "366 \<le> k" by (rule table_now [OF assms(1,2)])
  obtain m d y where g: "gregorian (nat (t div 86400)) = (m, d, y)" by (metis prod_cases3)
  have n: "nat (t div 86400) < 450000" using assms by simp
  obtain m' d' y' where "gregorian (nat (t div 86400)) = (m', d', y')" "0 \<le> m'" "m' < 12" "1 \<le> d'" "d' \<le> 31" "1970 \<le> y'"
    "y' < 3300" by (rule gregorian_bounds [OF n])
  then have b: "0 \<le> m" "m < 12" "1 \<le> d" "d \<le> 31" "1000 \<le> y" "y < 10000" using g by simp_all
  have w: "0 \<le> (4 + t div 86400) mod 7" "(4 + t div 86400) mod 7 < 7" by simp_all
  obtain a b' c where dn: "map_option chars (at_index day_names ((4 + t div 86400) mod 7)) = Some [a, b', c]"
    "three_char_day (three_char a b' c) = (4 + t div 86400) mod 7" "\<not> mime_is_ws a" "\<not> mime_is_digit a"
    by (rule day_name [OF w])
  obtain p q r where mn: "map_option chars (at_index month_names m) = Some [p, q, r]" "three_char_month (three_char p q r) = m"
    by (rule month_name [OF b(1,2)])
  let ?s = "stamp a b' c d p q r y (t div 3600 mod 24) (t div 60 mod 60) (t mod 60)"
  have "t div 86400 < 450000" using assms by linarith
  then have f: "mime_format_date (table_at k) t = Some ?s"
    by (rule format_date_stamp [OF assms(3) _ k(2) g dn(1) mn(1)])
  have "parse_fields re ?s = Some \<lparr>tm_sec = t mod 60, tm_min = t div 60 mod 60, tm_hour = t div 3600 mod 24, tm_mday = d,
      tm_mon = m, tm_year = y - 1900\<rparr>"
    by (rule stamp_fields [OF dn(2) w(1) dn(3,4) mn(2) b(1) b(3-6)]) simp_all
  then have "mime_parse_date re ?s = Some t"
    by (simp add: mime_parse_date_def tm_seconds_days [OF assms(3,4) g])
  then show ?thesis using k(1) f stamp_nth(22) by blast
qed

lemma mime_date_roundtrip_witness:
  "\<exists>tab s. mime_init_date_format_table 1300000000 = Some tab \<and> mime_format_date tab 784111777 = Some s \<and> length s = 29 \<and>
    mime_parse_date (\<lambda>p s. False) s = Some 784111777"
  by (rule mime_date_roundtrip) simp_all

section \<open>Months outside the table of the fast path\<close>

text \<open>The first three letters of \<open>s\<close> are those of a name, in any case.\<close>

definition lower :: "u8 \<Rightarrow> u8" where
  "lower c = (if 65 \<le> c \<and> c \<le> 90 then c + 32 else c)"

definition begins_with :: "bytes \<Rightarrow> string \<Rightarrow> bool" where
  "begins_with s p \<longleftrightarrow> map lower (take (length p) s) = map lower (chars p)"

lemma three_char_bytes:
  assumes "three_char a b c = w" "\<not> bit w 31" "\<not> bit w 15" "\<not> bit w 7"
  shows "c = ucast w" "b = ucast (drop_bit 8 w)" "a = ucast (drop_bit 16 w)"
proof -
  have bits: "bit w n \<longleftrightarrow> n < 32 \<and> (16 \<le> n \<and> bit a (min 7 (n - 16)) \<or> 8 \<le> n \<and> bit b (min 7 (n - 8)) \<or> bit c (min 7 n))" for n
    unfolding assms(1) [symmetric] three_char_def by (auto simp: bit_simps)
  have c: "\<not> bit c 7" using bits [of 7] assms(4) by simp
  have b: "\<not> bit b 7" using bits [of 15] assms(3) by simp
  have m7: "min 7 n = n" if "n < 8" for n :: nat using that by simp
  have bc: "bit w n \<longleftrightarrow> bit c n" if "n < 8" for n using bits [of n] that by (simp add: m7)
  have bb: "bit w (n + 8) \<longleftrightarrow> bit b n" if "n < 8" for n using bits [of "n + 8"] that c by (simp add: m7)
  have ba: "bit w (n + 16) \<longleftrightarrow> bit a n" if "n < 8" for n using bits [of "n + 16"] that c b by (simp add: m7)
  show "c = ucast w" by (rule bit_word_eqI) (simp add: bit_simps bc)
  show "b = ucast (drop_bit 8 w)" by (rule bit_word_eqI) (simp add: bit_simps bb add.commute)
  show "a = ucast (drop_bit 16 w)" by (rule bit_word_eqI) (simp add: bit_simps ba add.commute)
qed

lemma three_char_day_exact:
  assumes "0 \<le> three_char_day (three_char a b c)"
  shows "[a, b, c] \<in> set (map chars day_names)"
proof -
  have w: "three_char a b c \<in> {0x53756E, 0x4D6F6E, 0x547565, 0x576564, 0x546875, 0x467269, 0x536174}"
    using assms by (auto simp: three_char_day_def split: if_splits)
  have all: "list_all (\<lambda>w :: u32. [ucast (drop_bit 16 w), ucast (drop_bit 8 w), ucast w] \<in> set (map chars day_names) \<and>
      \<not> bit w 31 \<and> \<not> bit w 15 \<and> \<not> bit w 7) [0x53756E, 0x4D6F6E, 0x547565, 0x576564, 0x546875, 0x467269, 0x536174]"
    by code_simp
  have "three_char a b c \<in> set [0x53756E, 0x4D6F6E, 0x547565, 0x576564, 0x546875, 0x467269, 0x536174]"
    using w by (simp only: list.set)
  with all have "[ucast (drop_bit 16 (three_char a b c)), ucast (drop_bit 8 (three_char a b c)), ucast (three_char a b c)]
      \<in> set (map chars day_names) \<and> \<not> bit (three_char a b c) 31 \<and> \<not> bit (three_char a b c) 15 \<and> \<not> bit (three_char a b c) 7"
    unfolding list_all_iff by (rule bspec)
  then show ?thesis using three_char_bytes [OF refl, of a b c] by metis
qed

lemma day_no_month: "p \<in> set day_names \<Longrightarrow> q \<in> set month_names \<Longrightarrow> map lower (chars p) \<noteq> map lower (chars q)"
proof -
  have "list_all (\<lambda>p. list_all (\<lambda>q. map lower (chars p) \<noteq> map lower (chars q)) month_names) day_names" by code_simp
  then show "p \<in> set day_names \<Longrightarrow> q \<in> set month_names \<Longrightarrow> map lower (chars p) \<noteq> map lower (chars q)"
    unfolding list_all_iff by blast
qed

lemma name_length: "p \<in> set day_names \<or> p \<in> set month_names \<Longrightarrow> length p = 3"
  by (auto simp: day_names_def month_names_def)

lemma dfa_match_found: "0 \<le> i \<Longrightarrow> 0 \<le> dfa_match re ps i s \<Longrightarrow> \<exists>p \<in> set ps. re p s"
proof (induction ps arbitrary: i)
  case (Cons a ps)
  then show ?case using Cons.IH [of "i + 1"] by (auto split: if_splits)
qed simp

text \<open>
  On the fast path of 29-character dates the pattern of the months is matched against the beginning of
  the text, where the weekday stands, and not against the month: with patterns that are anchored, as
  the code compiles them, every date whose month is not spelled exactly as in the table (\<open>NOV\<close>) is
  refused and becomes the time 0, although the patterns ignore case.
\<close>

lemma fastcase_month_rejected:
  assumes re: "\<forall>p t. re p t \<longrightarrow> begins_with t p"
    and s: "29 \<le> length s" "\<not> mime_is_ws (s ! 0)" "\<not> mime_is_digit (s ! 0)" "s ! 3 = 44"
    and m: "three_char_month (three_char (s ! 8) (s ! 9) (s ! 10)) < 0"
  shows "mime_parse_date re s = Some 0"
proof -
  have begins: "begins_with s p" if "re p s" for p using re that by blast
  have t3: "take 3 s = [s ! 0, s ! 1, s ! 2]" 
    using s(1) by (intro nth_equalityI) (auto simp: less_Suc_eq eval_nat_numeral)
  have "mime_parse_rfc822_date_fastcase re s = None"
  proof (cases "month_match re s < 0")
    case True
    then show ?thesis using m by (simp add: mime_parse_rfc822_date_fastcase_def Let_def)
  next
    case False
    then obtain q where q: "q \<in> set month_names" "re q s" using dfa_match_found [of 0 re month_names s] by auto
    then have mq: "map lower (take 3 s) = map lower (chars q)" using name_length [of q] begins [OF q(2)] by (simp add: begins_with_def)
    have no: "map lower (take 3 s) \<noteq> map lower (chars p)" if "p \<in> set day_names" for p
      using day_no_month [OF that q(1)] mq by simp
    have "\<not> 0 \<le> three_char_day (three_char (s ! 0) (s ! 1) (s ! 2))"
    proof
      assume "0 \<le> three_char_day (three_char (s ! 0) (s ! 1) (s ! 2))"
      from three_char_day_exact [OF this] obtain p where "p \<in> set day_names" "take 3 s = chars p" unfolding t3 by auto
      then show False using no by auto
    qed
    moreover have "\<not> 0 \<le> day_match re s"
    proof
      assume "0 \<le> day_match re s"
      then obtain p where p: "p \<in> set day_names" "re p s" using dfa_match_found [of 0 re day_names s] by auto
      then show False using no [OF p(1)] name_length [of p] begins [OF p(2)] by (simp add: begins_with_def)
    qed
    ultimately show ?thesis by (simp add: mime_parse_rfc822_date_fastcase_def Let_def)
  qed
  moreover have "dropWhile mime_is_ws s = s" "hd s = s ! 0" using s(1,2) by (cases s; simp)+
  ultimately show ?thesis using s by (simp add: mime_parse_date_def parse_fields_def Let_def of_char_def)
qed

lemma fastcase_month_rejected_witness:
  "mime_parse_date (\<lambda>p t. begins_with t p) (chars ''Sun, 06 NOV 1994 08:49:37 GMT'') = Some 0"
proof (rule fastcase_month_rejected)
  show "three_char_month (three_char (chars ''Sun, 06 NOV 1994 08:49:37 GMT'' ! 8) (chars ''Sun, 06 NOV 1994 08:49:37 GMT'' ! 9)
    (chars ''Sun, 06 NOV 1994 08:49:37 GMT'' ! 10)) < 0" by code_simp
qed (simp_all add: chars_def of_char_def mime_is_ws_def mime_is_digit_def CHAR_SP_def CHAR_HT_def)

end
