(* ===== verification/MimeIntSpec.thy ===== *)
theory MimeIntSpec
  imports MimeDate
begin

text \<open>
  Printed numbers: the hand-unrolled printing of small numbers agrees with decimal notation, and the
  parsers of signed and unsigned numbers read every printed number back, the least one included.
\<close>

section \<open>Printing\<close>

lemma last_digit_char: "last_digit (int k) = digit_char (k mod 10)"
proof -
  have "c_mod (int k) 10 = int (k mod 10)" using zmod_int [of k 10] by (simp add: c_mod_nonneg)
  then have "48 + c_mod (int k) 10 = int (48 + k mod 10)" by simp
  then show ?thesis by (simp add: last_digit_def digit_char_def)
qed

lemma decimal_step: "10 \<le> k \<Longrightarrow> decimal k = decimal (k div 10) @ [digit_char (k mod 10)]"
  by (subst decimal.simps) simp

lemma decimal_digit: "k < 10 \<Longrightarrow> decimal k = [digit_char k]"
  by (subst decimal.simps) simp

lemma ink_small_itoa_decimal:
  assumes "k < 100000"
  shows "ink_small_itoa (int k) = decimal k"
proof -
  have c10: "c_div (int j) 10 = int (j div 10)" for j using zdiv_int [of j 10] by (simp add: c_div_nonneg)
  have one: "[word_of_int (48 + int k)] = decimal k" if "k < 10"
    using that by (simp add: decimal_digit digit_char_def)
  have sd: "j div 10 div 10 = j div 100" "j div 100 div 10 = j div 1000" "j div 1000 div 10 = j div 10000" for j :: nat
    by (simp_all add: div_mult2_eq [symmetric])
  consider "k < 10" | "10 \<le> k" "k < 100" | "100 \<le> k" "k < 1000" | "1000 \<le> k" "k < 10000" | "10000 \<le> k" by linarith
  then show ?thesis
  proof cases
    case 1
    then show ?thesis using one by (simp add: ink_small_itoa_def)
  next
    case 2
    then have "k div 10 < 10" by simp
    then show ?thesis using 2
      by (simp add: ink_small_itoa_def c10 last_digit_char decimal_step [of k] decimal_digit)
  next
    case 3
    then have "10 \<le> k div 10" "k div 100 < 10" by simp_all
    then show ?thesis using 3
      by (simp add: ink_small_itoa_def c10 last_digit_char decimal_step [of k] decimal_step [of "k div 10"] decimal_digit sd)
  next
    case 4
    then have "10 \<le> k div 10" "10 \<le> k div 100" "k div 1000 < 10" by simp_all
    then show ?thesis using 4
      by (simp add: ink_small_itoa_def c10 last_digit_char decimal_step [of k] decimal_step [of "k div 10"]
        decimal_step [of "k div 100"] decimal_digit sd)
  next
    case 5
    then have "10 \<le> k div 10" "10 \<le> k div 100" "10 \<le> k div 1000" "k div 10000 < 10" using assms by simp_all
    then show ?thesis using 5
      by (simp add: ink_small_itoa_def c10 last_digit_char decimal_step [of k] decimal_step [of "k div 10"]
        decimal_step [of "k div 100"] decimal_step [of "k div 1000"] decimal_digit sd)
  qed
qed

lemma decimal_short: "k < 10 ^ n \<Longrightarrow> 0 < n \<Longrightarrow> length (decimal k) \<le> n"
proof (induction n arbitrary: k)
  case (Suc n)
  show ?case
  proof (cases "k < 10")
    case False
    then have "0 < n" using Suc.prems by (cases n) auto
    moreover have "k div 10 < 10 ^ n" using Suc.prems(1) by (simp add: less_mult_imp_div_less)
    ultimately have "length (decimal (k div 10)) \<le> n" by (rule Suc.IH [rotated])
    then show ?thesis using False by (simp add: decimal_step)
  qed (simp add: decimal_digit)
qed simp

lemma print_decimal_short: "\<bar>v\<bar> < 10 ^ n \<Longrightarrow> 0 < n \<Longrightarrow> length (print_decimal v) \<le> Suc n"
  using decimal_short [of "nat \<bar>v\<bar>" n] by (auto simp: print_decimal_def nat_less_iff)

lemma snprintf_int_fits:
  assumes "\<bar>v\<bar> < 10 ^ k" "0 < k" "k + 2 \<le> n"
  shows "snprintf_int v n = (print_decimal v, int (length (print_decimal v)))"
proof -
  have "length (print_decimal v) \<le> Suc k" by (rule print_decimal_short [OF assms(1,2)])
  then have "length (print_decimal v) \<le> n - 1" using assms(3) by linarith
  then show ?thesis by (simp add: snprintf_int_def)
qed

lemma itoa_print:
  assumes "\<bar>v\<bar> < 10 ^ k" "0 < k" "k + 2 \<le> n"
  shows "ink_fast_itoa v n = (print_decimal v, int (length (print_decimal v)))"
    "ink_fast_ltoa v n = (print_decimal v, int (length (print_decimal v)))"
    "0 \<le> v \<Longrightarrow> ink_fast_uitoa v n = (print_decimal v, int (length (print_decimal v)))"
proof -
  have small: "ink_small_itoa v = print_decimal v" if "0 \<le> v" "v \<le> 99999"
  proof -
    have "nat v < 100000" using that by simp
    from ink_small_itoa_decimal [OF this] show ?thesis using that by (simp add: print_decimal_def)
  qed
  show "ink_fast_itoa v n = (print_decimal v, int (length (print_decimal v)))"
    "ink_fast_ltoa v n = (print_decimal v, int (length (print_decimal v)))"
    "0 \<le> v \<Longrightarrow> ink_fast_uitoa v n = (print_decimal v, int (length (print_decimal v)))"
    using small by (auto simp: ink_fast_itoa_def ink_fast_ltoa_def ink_fast_uitoa_def snprintf_int_fits [OF assms])
qed

section \<open>Parsing\<close>

lemma mime_digit_char:
  assumes "d < 10"
  shows "mime_is_digit (digit_char d)" "(ucast (digit_char d) - 48 :: 'a::len word) = of_nat d"
proof -
  have u: "unat (digit_char d) = 48 + d" by (rule unat_digit_char [OF assms])
  show "mime_is_digit (digit_char d)"
    using assms u by (simp add: mime_is_digit_def word_le_nat_alt of_char_def)
  have "(ucast (digit_char d) :: 'a word) = of_nat (unat (digit_char d))" by simp
  also have "\<dots> = of_nat d + 48" unfolding u by simp
  finally show "(ucast (digit_char d) - 48 :: 'a word) = of_nat d" by simp
qed

lemma plus_loop_append: "\<forall>c \<in> set a. mime_is_digit c \<Longrightarrow> plus_loop n (a @ b) = plus_loop (plus_loop n a) b"
  by (induction a arbitrary: n) auto

lemma minus_loop_append: "\<forall>c \<in> set a. mime_is_digit c \<Longrightarrow> minus_loop n (a @ b) = minus_loop (minus_loop n a) b"
  by (induction a arbitrary: n) auto

lemma decimal_mime_digits: "\<forall>c \<in> set (decimal k). mime_is_digit c"
  using decimal_digits [of k] mime_digit_char(1) by auto

lemma of_nat_split: "(of_nat k :: 'a::len word) = of_nat (k div 10) * 10 + of_nat (k mod 10)"
proof -
  have "of_nat k = (of_nat (k div 10 * 10 + k mod 10) :: 'a word)" by (simp only: div_mult_mod_eq)
  then show ?thesis by (simp only: of_nat_add of_nat_mult of_nat_numeral)
qed

lemma plus_loop_decimal: "plus_loop 0 (decimal k) = (of_nat k :: 'a::len word)"
proof (induction k rule: decimal.induct)
  case (1 k)
  show ?case
  proof (cases "k < 10")
    case True
    then show ?thesis by (simp add: decimal_digit mime_digit_char)
  next
    case False
    then have "plus_loop 0 (decimal k) = plus_loop (of_nat (k div 10) :: 'a word) [digit_char (k mod 10)]"
      using 1 [OF False] by (simp only: decimal_step not_less plus_loop_append [OF decimal_mime_digits])
    also have "\<dots> = of_nat (k div 10) * 10 + of_nat (k mod 10)" by (simp add: mime_digit_char)
    finally show ?thesis by (simp only: of_nat_split [symmetric])
  qed
qed

lemma minus_loop_decimal: "minus_loop 0 (decimal k) = (- of_nat k :: 'a::len word)"
proof (induction k rule: decimal.induct)
  case (1 k)
  show ?case
  proof (cases "k < 10")
    case True
    then show ?thesis by (simp add: decimal_digit mime_digit_char)
  next
    case False
    then have "minus_loop 0 (decimal k) = minus_loop (- of_nat (k div 10) :: 'a word) [digit_char (k mod 10)]"
      using 1 [OF False] by (simp only: decimal_step not_less minus_loop_append [OF decimal_mime_digits])
    also have "\<dots> = - (of_nat (k div 10) * 10 + of_nat (k mod 10))" by (simp add: mime_digit_char)
    finally show ?thesis by (simp only: of_nat_split [symmetric])
  qed
qed

lemma plus_first: "mime_is_digit c \<Longrightarrow> plus_loop (ucast c - 48) s = plus_loop 0 (c # s)"
  by simp

lemma decimal_cons: obtains c s where "decimal k = c # s" "mime_is_digit c"
  using decimal_nonempty [of k] decimal_mime_digits [of k] by (cases "decimal k") auto

lemma parse_signed_print: "parse_signed (print_decimal v) = (word_of_int v :: 'a::len word)"
proof (cases "v < 0")
  case True
  have minus: "mime_is_digit (of_char (CHR ''-'')) = False" "is_space (of_char (CHR ''-'')) = False"
    by (simp_all add: mime_is_digit_def is_cls_iff is_space0_def of_char_def CHAR_SP_def CHAR_HT_def CHAR_LF_def CHAR_VT_def
      CHAR_NP_def CHAR_CR_def)
  have "parse_signed (print_decimal v) = (minus_loop 0 (decimal (nat (- v))) :: 'a word)"
    using True minus by (simp add: parse_signed_def print_decimal_def Let_def)
  also have "\<dots> = word_of_int v" using True by (simp add: minus_loop_decimal)
  finally show ?thesis .
next
  case False
  obtain c s where c: "decimal (nat v) = c # s" "mime_is_digit c" by (rule decimal_cons)
  have "parse_signed (print_decimal v) = (plus_loop 0 (c # s) :: 'a word)"
    using False c(2) by (simp add: parse_signed_def print_decimal_def c(1))
  also have "\<dots> = word_of_int v" using False by (simp add: c(1) [symmetric] plus_loop_decimal)
  finally show ?thesis .
qed

lemma parse_uint_decimal: "mime_parse_uint (decimal k) = of_nat k"
proof -
  obtain c s where c: "decimal k = c # s" "mime_is_digit c" by (rule decimal_cons)
  then have "mime_parse_uint (decimal k) = plus_loop 0 (c # s)" by (simp add: mime_parse_uint_def)
  also have "\<dots> = of_nat k" unfolding c(1) [symmetric] by (rule plus_loop_decimal)
  finally show ?thesis .
qed

section \<open>Property\<close>

text \<open>
  C26. Printing a 32-bit signed or unsigned or a 64-bit signed number and parsing the result gives the same
  number, for every value (the least one too, which the signed parser reads by counting down), when
  the buffer has room for 12 or 21 characters; the length returned is the number of bytes printed.
\<close>

theorem mime_int_roundtrip:
  assumes "12 \<le> n" "21 \<le> m"
  shows "mime_parse_int (fst (mime_format_int i n)) = i \<and> mime_parse_uint (fst (mime_format_uint u n)) = u \<and>
    mime_parse_int64 (fst (mime_format_int64 l m)) = l \<and>
    snd (mime_format_int i n) = int (length (fst (mime_format_int i n))) \<and>
    snd (mime_format_uint u n) = int (length (fst (mime_format_uint u n))) \<and>
    snd (mime_format_int64 l m) = int (length (fst (mime_format_int64 l m)))"
proof -
  have "sint i < 2 ^ 31" "- (2 ^ 31) \<le> sint i" using sint_lt [of i] sint_ge [of i] by simp_all
  then have bi: "\<bar>sint i\<bar> < 10 ^ 10" by (simp add: abs_less_iff)
  have bu: "\<bar>uint u\<bar> < 10 ^ 10" using uint_bounded [of u] by simp
  have "sint l < 2 ^ 63" "- (2 ^ 63) \<le> sint l" using sint_lt [of l] sint_ge [of l] by simp_all
  then have bl: "\<bar>sint l\<bar> < 10 ^ 19" by (simp add: abs_less_iff)
  have fi: "mime_format_int i n = (print_decimal (sint i), int (length (print_decimal (sint i))))"
    unfolding mime_format_int_def by (rule itoa_print(1) [OF bi]) (use assms in simp_all)
  have fu: "mime_format_uint u n = (print_decimal (uint u), int (length (print_decimal (uint u))))"
    unfolding mime_format_uint_def by (rule itoa_print(3) [OF bu]) (use assms in simp_all)
  have fl: "mime_format_int64 l m = (print_decimal (sint l), int (length (print_decimal (sint l))))"
    unfolding mime_format_int64_def by (rule itoa_print(2) [OF bl]) (use assms in simp_all)
  have pu: "mime_parse_uint (print_decimal (uint u)) = u"
    unfolding print_decimal_def by (simp add: parse_uint_decimal del: unat_eq_nat_uint)
  show ?thesis
    unfolding fi fu fl mime_parse_int_def mime_parse_int64_def by (simp add: parse_signed_print pu)
qed

lemma mime_int_roundtrip_witness:
  "mime_parse_int (fst (mime_format_int (- 2147483648) 12)) = - 2147483648 \<and>
    mime_parse_uint (fst (mime_format_uint 4294967295 12)) = 4294967295 \<and>
    mime_parse_int64 (fst (mime_format_int64 (- 9223372036854775808) 21)) = - 9223372036854775808 \<and>
    snd (mime_format_int (- 2147483648) 12) = int (length (fst (mime_format_int (- 2147483648) 12))) \<and>
    snd (mime_format_uint 4294967295 12) = int (length (fst (mime_format_uint 4294967295 12))) \<and>
    snd (mime_format_int64 (- 9223372036854775808) 21) =
      int (length (fst (mime_format_int64 (- 9223372036854775808) 21)))"
  by (rule mime_int_roundtrip) simp_all

end
