(* ===== verification/HdrToken.thy ===== *)
theory HdrToken
  imports MimeDate
begin

unbundle bit_operations_syntax

text \<open>
  The well-known strings of headers (proxy/hdrs/HdrToken.cc, HdrToken.h): the tables of strings, types
  and field names with their slots and presence bits, the initialisation that resolves the names with a
  regular expression matcher (\<open>re\<close>, a library) and builds the hash table, and the lookup of a string by its
  hash. The heap of the well-known strings is the list of their wks_prefixes, in the order of the strings; a
  name that a caller holds is a pointer to a well-known string or any other text.
\<close>

section \<open>Tables\<close>

datatype hdr_token_type =
  HDRTOKEN_TYPE_OTHER
| HDRTOKEN_TYPE_FIELD
| HDRTOKEN_TYPE_METHOD
| HDRTOKEN_TYPE_SCHEME
| HDRTOKEN_TYPE_CACHE_CONTROL

abbreviation (input) "HTIF_NONE \<equiv> 0 :: u32"
abbreviation (input) "HTIF_COMMAS \<equiv> 1 :: u32"
abbreviation (input) "HTIF_MULTVALS \<equiv> 2 :: u32"
abbreviation (input) "HTIF_HOPBYHOP \<equiv> 4 :: u32"
abbreviation (input) "HTIF_PROXYAUTH \<equiv> 8 :: u32"

text \<open>The slots and the presence bits of frequent fields.\<close>

abbreviation (input) "MIME_SLOTID_ACCEPT \<equiv> 0 :: int"
abbreviation (input) "MIME_SLOTID_ACCEPT_CHARSET \<equiv> 1 :: int"
abbreviation (input) "MIME_SLOTID_ACCEPT_ENCODING \<equiv> 2 :: int"
abbreviation (input) "MIME_SLOTID_ACCEPT_LANGUAGE \<equiv> 3 :: int"
abbreviation (input) "MIME_SLOTID_AGE \<equiv> 4 :: int"
abbreviation (input) "MIME_SLOTID_AUTHORIZATION \<equiv> 5 :: int"
abbreviation (input) "MIME_SLOTID_CACHE_CONTROL \<equiv> 6 :: int"
abbreviation (input) "MIME_SLOTID_CLIENT_IP \<equiv> 7 :: int"
abbreviation (input) "MIME_SLOTID_CONNECTION \<equiv> 8 :: int"
abbreviation (input) "MIME_SLOTID_CONTENT_ENCODING \<equiv> 9 :: int"
abbreviation (input) "MIME_SLOTID_CONTENT_LANGUAGE \<equiv> 10 :: int"
abbreviation (input) "MIME_SLOTID_CONTENT_LENGTH \<equiv> 11 :: int"
abbreviation (input) "MIME_SLOTID_CONTENT_TYPE \<equiv> 12 :: int"
abbreviation (input) "MIME_SLOTID_COOKIE \<equiv> 13 :: int"
abbreviation (input) "MIME_SLOTID_DATE \<equiv> 14 :: int"
abbreviation (input) "MIME_SLOTID_EXPIRES \<equiv> 15 :: int"
abbreviation (input) "MIME_SLOTID_IF_MATCH \<equiv> 16 :: int"
abbreviation (input) "MIME_SLOTID_IF_MODIFIED_SINCE \<equiv> 17 :: int"
abbreviation (input) "MIME_SLOTID_IF_NONE_MATCH \<equiv> 18 :: int"
abbreviation (input) "MIME_SLOTID_IF_RANGE \<equiv> 19 :: int"
abbreviation (input) "MIME_SLOTID_IF_UNMODIFIED_SINCE \<equiv> 20 :: int"
abbreviation (input) "MIME_SLOTID_LAST_MODIFIED \<equiv> 21 :: int"
abbreviation (input) "MIME_SLOTID_PRAGMA \<equiv> 22 :: int"
abbreviation (input) "MIME_SLOTID_PROXY_CONNECTION \<equiv> 23 :: int"
abbreviation (input) "MIME_SLOTID_RANGE \<equiv> 24 :: int"
abbreviation (input) "MIME_SLOTID_SET_COOKIE \<equiv> 25 :: int"
abbreviation (input) "MIME_SLOTID_TE \<equiv> 26 :: int"
abbreviation (input) "MIME_SLOTID_TRANSFER_ENCODING \<equiv> 27 :: int"
abbreviation (input) "MIME_SLOTID_USER_AGENT \<equiv> 28 :: int"
abbreviation (input) "MIME_SLOTID_VARY \<equiv> 29 :: int"
abbreviation (input) "MIME_SLOTID_VIA \<equiv> 30 :: int"
abbreviation (input) "MIME_SLOTID_WWW_AUTHENTICATE \<equiv> 31 :: int"
abbreviation (input) "MIME_SLOTID_NONE \<equiv> - 1 :: int"
abbreviation (input) "MIME_PRESENCE_ACCEPT \<equiv> push_bit 0 1 :: u64"
abbreviation (input) "MIME_PRESENCE_ACCEPT_CHARSET \<equiv> push_bit 1 1 :: u64"
abbreviation (input) "MIME_PRESENCE_ACCEPT_ENCODING \<equiv> push_bit 2 1 :: u64"
abbreviation (input) "MIME_PRESENCE_ACCEPT_LANGUAGE \<equiv> push_bit 3 1 :: u64"
abbreviation (input) "MIME_PRESENCE_ACCEPT_RANGES \<equiv> push_bit 4 1 :: u64"
abbreviation (input) "MIME_PRESENCE_AGE \<equiv> push_bit 5 1 :: u64"
abbreviation (input) "MIME_PRESENCE_ALLOW \<equiv> push_bit 6 1 :: u64"
abbreviation (input) "MIME_PRESENCE_AUTHORIZATION \<equiv> push_bit 7 1 :: u64"
abbreviation (input) "MIME_PRESENCE_BYTES \<equiv> push_bit 8 1 :: u64"
abbreviation (input) "MIME_PRESENCE_CACHE_CONTROL \<equiv> push_bit 9 1 :: u64"
abbreviation (input) "MIME_PRESENCE_CLIENT_IP \<equiv> push_bit 10 1 :: u64"
abbreviation (input) "MIME_PRESENCE_CONNECTION \<equiv> push_bit 11 1 :: u64"
abbreviation (input) "MIME_PRESENCE_CONTENT_ENCODING \<equiv> push_bit 12 1 :: u64"
abbreviation (input) "MIME_PRESENCE_CONTENT_LANGUAGE \<equiv> push_bit 13 1 :: u64"
abbreviation (input) "MIME_PRESENCE_CONTENT_LENGTH \<equiv> push_bit 14 1 :: u64"
abbreviation (input) "MIME_PRESENCE_CONTENT_LOCATION \<equiv> push_bit 15 1 :: u64"
abbreviation (input) "MIME_PRESENCE_CONTENT_MD5 \<equiv> push_bit 16 1 :: u64"
abbreviation (input) "MIME_PRESENCE_CONTENT_RANGE \<equiv> push_bit 17 1 :: u64"
abbreviation (input) "MIME_PRESENCE_CONTENT_TYPE \<equiv> push_bit 18 1 :: u64"
abbreviation (input) "MIME_PRESENCE_COOKIE \<equiv> push_bit 19 1 :: u64"
abbreviation (input) "MIME_PRESENCE_DATE \<equiv> push_bit 20 1 :: u64"
abbreviation (input) "MIME_PRESENCE_ETAG \<equiv> push_bit 21 1 :: u64"
abbreviation (input) "MIME_PRESENCE_EXPIRES \<equiv> push_bit 22 1 :: u64"
abbreviation (input) "MIME_PRESENCE_FROM \<equiv> push_bit 23 1 :: u64"
abbreviation (input) "MIME_PRESENCE_HOST \<equiv> push_bit 24 1 :: u64"
abbreviation (input) "MIME_PRESENCE_IF_MATCH \<equiv> push_bit 25 1 :: u64"
abbreviation (input) "MIME_PRESENCE_IF_MODIFIED_SINCE \<equiv> push_bit 26 1 :: u64"
abbreviation (input) "MIME_PRESENCE_IF_NONE_MATCH \<equiv> push_bit 27 1 :: u64"
abbreviation (input) "MIME_PRESENCE_IF_RANGE \<equiv> push_bit 28 1 :: u64"
abbreviation (input) "MIME_PRESENCE_IF_UNMODIFIED_SINCE \<equiv> push_bit 29 1 :: u64"
abbreviation (input) "MIME_PRESENCE_KEEP_ALIVE \<equiv> push_bit 30 1 :: u64"
abbreviation (input) "MIME_PRESENCE_KEYWORDS \<equiv> push_bit 31 1 :: u64"
abbreviation (input) "MIME_PRESENCE_LAST_MODIFIED \<equiv> push_bit 32 1 :: u64"
abbreviation (input) "MIME_PRESENCE_LINES \<equiv> push_bit 33 1 :: u64"
abbreviation (input) "MIME_PRESENCE_LOCATION \<equiv> push_bit 34 1 :: u64"
abbreviation (input) "MIME_PRESENCE_MAX_FORWARDS \<equiv> push_bit 35 1 :: u64"
abbreviation (input) "MIME_PRESENCE_PATH \<equiv> push_bit 36 1 :: u64"
abbreviation (input) "MIME_PRESENCE_PRAGMA \<equiv> push_bit 37 1 :: u64"
abbreviation (input) "MIME_PRESENCE_PROXY_AUTHENTICATE \<equiv> push_bit 38 1 :: u64"
abbreviation (input) "MIME_PRESENCE_PROXY_AUTHORIZATION \<equiv> push_bit 39 1 :: u64"
abbreviation (input) "MIME_PRESENCE_PROXY_CONNECTION \<equiv> push_bit 40 1 :: u64"
abbreviation (input) "MIME_PRESENCE_PUBLIC \<equiv> push_bit 41 1 :: u64"
abbreviation (input) "MIME_PRESENCE_RANGE \<equiv> push_bit 42 1 :: u64"
abbreviation (input) "MIME_PRESENCE_REFERER \<equiv> push_bit 43 1 :: u64"
abbreviation (input) "MIME_PRESENCE_SERVER \<equiv> push_bit 44 1 :: u64"
abbreviation (input) "MIME_PRESENCE_SET_COOKIE \<equiv> push_bit 45 1 :: u64"
abbreviation (input) "MIME_PRESENCE_SUBJECT \<equiv> push_bit 46 1 :: u64"
abbreviation (input) "MIME_PRESENCE_SUMMARY \<equiv> push_bit 47 1 :: u64"
abbreviation (input) "MIME_PRESENCE_TE \<equiv> push_bit 48 1 :: u64"
abbreviation (input) "MIME_PRESENCE_TRANSFER_ENCODING \<equiv> push_bit 49 1 :: u64"
abbreviation (input) "MIME_PRESENCE_UPGRADE \<equiv> push_bit 50 1 :: u64"
abbreviation (input) "MIME_PRESENCE_USER_AGENT \<equiv> push_bit 51 1 :: u64"
abbreviation (input) "MIME_PRESENCE_VARY \<equiv> push_bit 52 1 :: u64"
abbreviation (input) "MIME_PRESENCE_VIA \<equiv> push_bit 53 1 :: u64"
abbreviation (input) "MIME_PRESENCE_WARNING \<equiv> push_bit 54 1 :: u64"
abbreviation (input) "MIME_PRESENCE_WWW_AUTHENTICATE \<equiv> push_bit 55 1 :: u64"
abbreviation (input) "MIME_PRESENCE_XREF \<equiv> push_bit 61 1 :: u64"
abbreviation (input) "MIME_PRESENCE_INT_DATA_INFO \<equiv> push_bit 62 1 :: u64"
abbreviation (input) "MIME_PRESENCE_NONE \<equiv> 0 :: u64"

definition hdrtoken_strs :: "string list" where
  "hdrtoken_strs =
    [''Accept-Charset'', ''Accept-Encoding'', ''Accept-Language'', ''Accept-Ranges'', ''Accept'', ''Age'', ''Allow'',
     ''Approved'', ''Authorization'', ''Bytes'', ''Cache-Control'', ''Client-ip'', ''Connection'', ''Content-Base'',
     ''Content-Encoding'', ''Content-Language'', ''Content-Length'', ''Content-Location'', ''Content-MD5'',
     ''Content-Range'', ''Content-Type'', ''Control'', ''Cookie'', ''Date'', ''Distribution'', ''Etag'', ''Expect'',
     ''Expires'', ''Followup-To'', ''From'', ''Host'', ''If-Match'', ''If-Modified-Since'', ''If-None-Match'',
     ''If-Range'', ''If-Unmodified-Since'', ''Keep-Alive'', ''Keywords'', ''Last-Modified'', ''Lines'', ''Location'',
     ''Max-Forwards'', ''Message-ID'', ''MIME-Version'', ''Newsgroups'', ''Organization'', ''Path'', ''Pragma'',
     ''Proxy-Authenticate'', ''Proxy-Authorization'', ''Proxy-Connection'', ''Public'', ''Range'', ''References'',
     ''Referer'', ''Reply-To'', ''Retry-After'', ''Sender'', ''Server'', ''Set-Cookie'', ''Subject'', ''Summary'',
     ''Transfer-Encoding'', ''Upgrade'', ''User-Agent'', ''Vary'', ''Via'', ''Warning'', ''Www-Authenticate'',
     ''Xref'', ''@DataInfo'', ''compress'', ''deflate'', ''gzip'', ''identity'', ''max-age'', ''max-stale'',
     ''min-fresh'', ''must-revalidate'', ''no-cache'', ''no-store'', ''no-transform'', ''only-if-cached'',
     ''private'', ''proxy-revalidate'', ''s-maxage'', ''need-revalidate-once'', ''none'', ''chunked'', ''close'',
     ''websocket'', ''Sec-WebSocket-Key'', ''Sec-WebSocket-Version'', ''file'', ''ftp'', ''gopher'', ''https'',
     ''http'', ''mailto'', ''news'', ''nntp'', ''prospero'', ''telnet'', ''tunnel'', ''wais'', ''pnm'', ''rtspu'',
     ''rtsp'', ''mmsu'', ''mmst'', ''mms'', ''wss'', ''ws'', ''CONNECT'', ''DELETE'', ''GET'', ''POST'', ''HEAD'',
     ''ICP_QUERY'', ''OPTIONS'', ''PURGE'', ''PUT'', ''TRACE'', ''PUSH'', ''X-ID'', ''X-Forwarded-For'', ''TE'',
     ''Strict-Transport-Security'']"

definition type_initializers :: "(string \<times> hdr_token_type) list" where
  "type_initializers =
    [(''file'', HDRTOKEN_TYPE_SCHEME), (''ftp'', HDRTOKEN_TYPE_SCHEME), (''gopher'', HDRTOKEN_TYPE_SCHEME),
     (''http'', HDRTOKEN_TYPE_SCHEME), (''https'', HDRTOKEN_TYPE_SCHEME), (''mailto'', HDRTOKEN_TYPE_SCHEME),
     (''news'', HDRTOKEN_TYPE_SCHEME), (''nntp'', HDRTOKEN_TYPE_SCHEME), (''prospero'', HDRTOKEN_TYPE_SCHEME),
     (''telnet'', HDRTOKEN_TYPE_SCHEME), (''tunnel'', HDRTOKEN_TYPE_SCHEME), (''wais'', HDRTOKEN_TYPE_SCHEME),
     (''pnm'', HDRTOKEN_TYPE_SCHEME), (''rtsp'', HDRTOKEN_TYPE_SCHEME), (''rtspu'', HDRTOKEN_TYPE_SCHEME),
     (''mms'', HDRTOKEN_TYPE_SCHEME), (''mmsu'', HDRTOKEN_TYPE_SCHEME), (''mmst'', HDRTOKEN_TYPE_SCHEME),
     (''wss'', HDRTOKEN_TYPE_SCHEME), (''ws'', HDRTOKEN_TYPE_SCHEME), (''CONNECT'', HDRTOKEN_TYPE_METHOD),
     (''DELETE'', HDRTOKEN_TYPE_METHOD), (''GET'', HDRTOKEN_TYPE_METHOD), (''HEAD'', HDRTOKEN_TYPE_METHOD),
     (''ICP_QUERY'', HDRTOKEN_TYPE_METHOD), (''OPTIONS'', HDRTOKEN_TYPE_METHOD), (''POST'', HDRTOKEN_TYPE_METHOD),
     (''PURGE'', HDRTOKEN_TYPE_METHOD), (''PUT'', HDRTOKEN_TYPE_METHOD), (''TRACE'', HDRTOKEN_TYPE_METHOD),
     (''PUSH'', HDRTOKEN_TYPE_METHOD), (''max-age'', HDRTOKEN_TYPE_CACHE_CONTROL),
     (''max-stale'', HDRTOKEN_TYPE_CACHE_CONTROL), (''min-fresh'', HDRTOKEN_TYPE_CACHE_CONTROL),
     (''must-revalidate'', HDRTOKEN_TYPE_CACHE_CONTROL), (''no-cache'', HDRTOKEN_TYPE_CACHE_CONTROL),
     (''no-store'', HDRTOKEN_TYPE_CACHE_CONTROL), (''no-transform'', HDRTOKEN_TYPE_CACHE_CONTROL),
     (''only-if-cached'', HDRTOKEN_TYPE_CACHE_CONTROL), (''private'', HDRTOKEN_TYPE_CACHE_CONTROL),
     (''proxy-revalidate'', HDRTOKEN_TYPE_CACHE_CONTROL), (''public'', HDRTOKEN_TYPE_CACHE_CONTROL),
     (''s-maxage'', HDRTOKEN_TYPE_CACHE_CONTROL), (''need-revalidate-once'', HDRTOKEN_TYPE_CACHE_CONTROL)]"

definition field_initializers :: "(string \<times> int \<times> u64 \<times> u32) list" where
  "field_initializers =
    [(''Accept'', MIME_SLOTID_ACCEPT, MIME_PRESENCE_ACCEPT, HTIF_COMMAS OR HTIF_MULTVALS),
     (''Accept-Charset'', MIME_SLOTID_ACCEPT_CHARSET, MIME_PRESENCE_ACCEPT_CHARSET, HTIF_COMMAS OR HTIF_MULTVALS),
     (''Accept-Encoding'', MIME_SLOTID_ACCEPT_ENCODING, MIME_PRESENCE_ACCEPT_ENCODING, HTIF_COMMAS OR HTIF_MULTVALS),
     (''Accept-Language'', MIME_SLOTID_ACCEPT_LANGUAGE, MIME_PRESENCE_ACCEPT_LANGUAGE, HTIF_COMMAS OR HTIF_MULTVALS),
     (''Accept-Ranges'', MIME_SLOTID_NONE, MIME_PRESENCE_ACCEPT_RANGES, HTIF_COMMAS OR HTIF_MULTVALS),
     (''Age'', MIME_SLOTID_AGE, MIME_PRESENCE_AGE, HTIF_NONE),
     (''Allow'', MIME_SLOTID_NONE, MIME_PRESENCE_ALLOW, HTIF_COMMAS OR HTIF_MULTVALS),
     (''Approved'', MIME_SLOTID_NONE, MIME_PRESENCE_NONE, HTIF_NONE),
     (''Authorization'', MIME_SLOTID_AUTHORIZATION, MIME_PRESENCE_AUTHORIZATION, HTIF_NONE),
     (''Bytes'', MIME_SLOTID_NONE, MIME_PRESENCE_BYTES, HTIF_NONE),
     (''Cache-Control'', MIME_SLOTID_CACHE_CONTROL, MIME_PRESENCE_CACHE_CONTROL, HTIF_COMMAS OR HTIF_MULTVALS),
     (''Client-ip'', MIME_SLOTID_CLIENT_IP, MIME_PRESENCE_CLIENT_IP, HTIF_NONE),
     (''Connection'', MIME_SLOTID_CONNECTION, MIME_PRESENCE_CONNECTION, HTIF_COMMAS OR HTIF_MULTVALS OR HTIF_HOPBYHOP),
     (''Content-Base'', MIME_SLOTID_NONE, MIME_PRESENCE_NONE, HTIF_NONE),
     (''Content-Encoding'', MIME_SLOTID_CONTENT_ENCODING, MIME_PRESENCE_CONTENT_ENCODING, HTIF_COMMAS OR HTIF_MULTVALS),
     (''Content-Language'', MIME_SLOTID_CONTENT_LANGUAGE, MIME_PRESENCE_CONTENT_LANGUAGE, HTIF_COMMAS OR HTIF_MULTVALS),
     (''Content-Length'', MIME_SLOTID_CONTENT_LENGTH, MIME_PRESENCE_CONTENT_LENGTH, HTIF_NONE),
     (''Content-Location'', MIME_SLOTID_NONE, MIME_PRESENCE_CONTENT_LOCATION, HTIF_NONE),
     (''Content-MD5'', MIME_SLOTID_NONE, MIME_PRESENCE_CONTENT_MD5, HTIF_NONE),
     (''Content-Range'', MIME_SLOTID_NONE, MIME_PRESENCE_CONTENT_RANGE, HTIF_NONE),
     (''Content-Type'', MIME_SLOTID_CONTENT_TYPE, MIME_PRESENCE_CONTENT_TYPE, HTIF_NONE),
     (''Control'', MIME_SLOTID_NONE, MIME_PRESENCE_NONE, HTIF_NONE),
     (''Cookie'', MIME_SLOTID_COOKIE, MIME_PRESENCE_COOKIE, HTIF_MULTVALS),
     (''Date'', MIME_SLOTID_DATE, MIME_PRESENCE_DATE, HTIF_NONE),
     (''Distribution'', MIME_SLOTID_NONE, MIME_PRESENCE_NONE, HTIF_NONE),
     (''Etag'', MIME_SLOTID_NONE, MIME_PRESENCE_ETAG, HTIF_NONE),
     (''Expires'', MIME_SLOTID_EXPIRES, MIME_PRESENCE_EXPIRES, HTIF_NONE),
     (''Followup-To'', MIME_SLOTID_NONE, MIME_PRESENCE_NONE, HTIF_NONE),
     (''From'', MIME_SLOTID_NONE, MIME_PRESENCE_FROM, HTIF_NONE),
     (''Host'', MIME_SLOTID_NONE, MIME_PRESENCE_HOST, HTIF_NONE),
     (''If-Match'', MIME_SLOTID_IF_MATCH, MIME_PRESENCE_IF_MATCH, HTIF_COMMAS OR HTIF_MULTVALS),
     (''If-Modified-Since'', MIME_SLOTID_IF_MODIFIED_SINCE, MIME_PRESENCE_IF_MODIFIED_SINCE, HTIF_NONE),
     (''If-None-Match'', MIME_SLOTID_IF_NONE_MATCH, MIME_PRESENCE_IF_NONE_MATCH, HTIF_COMMAS OR HTIF_MULTVALS),
     (''If-Range'', MIME_SLOTID_IF_RANGE, MIME_PRESENCE_IF_RANGE, HTIF_NONE),
     (''If-Unmodified-Since'', MIME_SLOTID_IF_UNMODIFIED_SINCE, MIME_PRESENCE_IF_UNMODIFIED_SINCE, HTIF_NONE),
     (''Keep-Alive'', MIME_SLOTID_NONE, MIME_PRESENCE_KEEP_ALIVE, HTIF_HOPBYHOP),
     (''Keywords'', MIME_SLOTID_NONE, MIME_PRESENCE_KEYWORDS, HTIF_NONE),
     (''Last-Modified'', MIME_SLOTID_LAST_MODIFIED, MIME_PRESENCE_LAST_MODIFIED, HTIF_NONE),
     (''Lines'', MIME_SLOTID_NONE, MIME_PRESENCE_LINES, HTIF_NONE),
     (''Location'', MIME_SLOTID_NONE, MIME_PRESENCE_LOCATION, HTIF_MULTVALS),
     (''Max-Forwards'', MIME_SLOTID_NONE, MIME_PRESENCE_MAX_FORWARDS, HTIF_NONE),
     (''Message-ID'', MIME_SLOTID_NONE, MIME_PRESENCE_NONE, HTIF_NONE),
     (''Newsgroups'', MIME_SLOTID_NONE, MIME_PRESENCE_NONE, HTIF_NONE),
     (''Organization'', MIME_SLOTID_NONE, MIME_PRESENCE_NONE, HTIF_NONE),
     (''Path'', MIME_SLOTID_NONE, MIME_PRESENCE_PATH, HTIF_NONE),
     (''Pragma'', MIME_SLOTID_PRAGMA, MIME_PRESENCE_PRAGMA, HTIF_COMMAS OR HTIF_MULTVALS),
     (''Proxy-Authenticate'', MIME_SLOTID_NONE, MIME_PRESENCE_PROXY_AUTHENTICATE, HTIF_HOPBYHOP OR HTIF_PROXYAUTH),
     (''Proxy-Authorization'', MIME_SLOTID_NONE, MIME_PRESENCE_PROXY_AUTHORIZATION, HTIF_HOPBYHOP OR HTIF_PROXYAUTH),
     (''Proxy-Connection'', MIME_SLOTID_PROXY_CONNECTION, MIME_PRESENCE_PROXY_CONNECTION, HTIF_COMMAS OR HTIF_MULTVALS OR HTIF_HOPBYHOP),
     (''Public'', MIME_SLOTID_NONE, MIME_PRESENCE_PUBLIC, HTIF_COMMAS OR HTIF_MULTVALS),
     (''Range'', MIME_SLOTID_RANGE, MIME_PRESENCE_RANGE, HTIF_COMMAS OR HTIF_MULTVALS),
     (''References'', MIME_SLOTID_NONE, MIME_PRESENCE_NONE, HTIF_NONE),
     (''Referer'', MIME_SLOTID_NONE, MIME_PRESENCE_REFERER, HTIF_NONE),
     (''Reply-To'', MIME_SLOTID_NONE, MIME_PRESENCE_NONE, HTIF_NONE),
     (''Retry-After'', MIME_SLOTID_NONE, MIME_PRESENCE_NONE, HTIF_NONE),
     (''Sender'', MIME_SLOTID_NONE, MIME_PRESENCE_NONE, HTIF_NONE),
     (''Server'', MIME_SLOTID_NONE, MIME_PRESENCE_SERVER, HTIF_NONE),
     (''Set-Cookie'', MIME_SLOTID_SET_COOKIE, MIME_PRESENCE_SET_COOKIE, HTIF_MULTVALS),
     (''Strict-Transport-Security'', MIME_SLOTID_NONE, MIME_PRESENCE_NONE, HTIF_MULTVALS),
     (''Subject'', MIME_SLOTID_NONE, MIME_PRESENCE_SUBJECT, HTIF_NONE),
     (''Summary'', MIME_SLOTID_NONE, MIME_PRESENCE_SUMMARY, HTIF_NONE),
     (''TE'', MIME_SLOTID_TE, MIME_PRESENCE_TE, HTIF_COMMAS OR HTIF_MULTVALS OR HTIF_HOPBYHOP),
     (''Transfer-Encoding'', MIME_SLOTID_TRANSFER_ENCODING, MIME_PRESENCE_TRANSFER_ENCODING, HTIF_COMMAS OR HTIF_MULTVALS),
     (''Upgrade'', MIME_SLOTID_NONE, MIME_PRESENCE_UPGRADE, HTIF_COMMAS OR HTIF_MULTVALS OR HTIF_HOPBYHOP),
     (''User-Agent'', MIME_SLOTID_USER_AGENT, MIME_PRESENCE_USER_AGENT, HTIF_NONE),
     (''Vary'', MIME_SLOTID_VARY, MIME_PRESENCE_VARY, HTIF_COMMAS OR HTIF_MULTVALS),
     (''Via'', MIME_SLOTID_VIA, MIME_PRESENCE_VIA, HTIF_COMMAS OR HTIF_MULTVALS),
     (''Warning'', MIME_SLOTID_NONE, MIME_PRESENCE_WARNING, HTIF_COMMAS OR HTIF_MULTVALS),
     (''Www-Authenticate'', MIME_SLOTID_WWW_AUTHENTICATE, MIME_PRESENCE_WWW_AUTHENTICATE, HTIF_NONE),
     (''Xref'', MIME_SLOTID_NONE, MIME_PRESENCE_XREF, HTIF_NONE),
     (''@DataInfo'', MIME_SLOTID_NONE, MIME_PRESENCE_INT_DATA_INFO, HTIF_NONE),
     (''X-ID'', MIME_SLOTID_NONE, MIME_PRESENCE_NONE, HTIF_COMMAS OR HTIF_MULTVALS OR HTIF_HOPBYHOP),
     (''X-Forwarded-For'', MIME_SLOTID_NONE, MIME_PRESENCE_NONE, HTIF_COMMAS OR HTIF_MULTVALS),
     (''Sec-WebSocket-Key'', MIME_SLOTID_NONE, MIME_PRESENCE_NONE, HTIF_NONE),
     (''Sec-WebSocket-Version'', MIME_SLOTID_NONE, MIME_PRESENCE_NONE, HTIF_NONE)]"

definition commonly_tokenized_strs :: "string list" where
  "commonly_tokenized_strs =
    [''Accept-Charset'', ''Accept-Encoding'', ''Accept-Language'', ''Accept-Ranges'', ''Accept'', ''Age'', ''Allow'',
     ''Approved'', ''Authorization'', ''Bytes'', ''Cache-Control'', ''Client-ip'', ''Connection'', ''Content-Base'',
     ''Content-Encoding'', ''Content-Language'', ''Content-Length'', ''Content-Location'', ''Content-MD5'',
     ''Content-Range'', ''Content-Type'', ''Control'', ''Cookie'', ''Date'', ''Distribution'', ''Etag'', ''Expect'',
     ''Expires'', ''Followup-To'', ''From'', ''Host'', ''If-Match'', ''If-Modified-Since'', ''If-None-Match'',
     ''If-Range'', ''If-Unmodified-Since'', ''Keep-Alive'', ''Keywords'', ''Last-Modified'', ''Lines'', ''Location'',
     ''Max-Forwards'', ''Message-ID'', ''MIME-Version'', ''Newsgroups'', ''Organization'', ''Path'', ''Pragma'',
     ''Proxy-Authenticate'', ''Proxy-Authorization'', ''Proxy-Connection'', ''Public'', ''Range'', ''References'',
     ''Referer'', ''Reply-To'', ''Retry-After'', ''Sender'', ''Server'', ''Set-Cookie'', ''Subject'', ''Summary'',
     ''Transfer-Encoding'', ''Upgrade'', ''User-Agent'', ''Vary'', ''Via'', ''Warning'', ''Www-Authenticate'',
     ''Xref'', ''@DataInfo'', ''compress'', ''deflate'', ''gzip'', ''identity'', ''max-age'', ''max-stale'',
     ''min-fresh'', ''must-revalidate'', ''no-cache'', ''no-store'', ''no-transform'', ''only-if-cached'',
     ''private'', ''proxy-revalidate'', ''s-maxage'', ''need-revalidate-once'', ''none'', ''chunked'', ''close'',
     ''websocket'', ''Sec-WebSocket-Key'', ''Sec-WebSocket-Version'', ''file'', ''ftp'', ''gopher'', ''https'',
     ''http'', ''mailto'', ''news'', ''nntp'', ''prospero'', ''telnet'', ''tunnel'', ''wais'', ''pnm'', ''rtspu'',
     ''rtsp'', ''mmsu'', ''mmst'', ''mms'', ''wss'', ''ws'', ''CONNECT'', ''DELETE'', ''GET'', ''POST'', ''HEAD'',
     ''ICP_QUERY'', ''OPTIONS'', ''PURGE'', ''PUT'', ''TRACE'', ''PUSH'', ''X-ID'', ''X-Forwarded-For'', ''TE'',
     ''Strict-Transport-Security'']"

section \<open>Prefixes\<close>

text \<open>What is stored in front of a well-known string.\<close>

record hdr_prefix =
  wks_idx :: int
  wks_length :: nat
  wks_token_type :: hdr_token_type
  wks_slotid :: int
  wks_mask :: u64
  wks_flags :: u32
  cc_mask :: u32

definition new_prefix :: "nat \<Rightarrow> hdr_prefix" where
  "new_prefix i = \<lparr>wks_idx = int i, wks_length = length (hdrtoken_strs ! i), wks_token_type = HDRTOKEN_TYPE_OTHER,
     wks_slotid = MIME_SLOTID_NONE, wks_mask = MIME_PRESENCE_NONE, wks_flags = HTIF_MULTVALS, cc_mask = 0\<rparr>"

definition hdrtoken_tokenize_dfa :: "(string \<Rightarrow> bytes \<Rightarrow> bool) \<Rightarrow> bytes \<Rightarrow> int" where
  "hdrtoken_tokenize_dfa re s = dfa_match re hdrtoken_strs 0 s"

text \<open>A name that is not found is an index outside the array: \<open>None\<close>.\<close>

fun set_types :: "(string \<Rightarrow> bytes \<Rightarrow> bool) \<Rightarrow> (string \<times> hdr_token_type) list \<Rightarrow> hdr_prefix list \<Rightarrow> hdr_prefix list option" where
  "set_types re [] ps = Some ps"
| "set_types re ((n, t) # xs) ps =
     (let i = hdrtoken_tokenize_dfa re (chars n)
      in if 0 \<le> i \<and> i < int (length ps) then set_types re xs (ps[nat i := (ps ! nat i)\<lparr>wks_token_type := t\<rparr>]) else None)"

fun set_fields :: "(string \<Rightarrow> bytes \<Rightarrow> bool) \<Rightarrow> (string \<times> int \<times> u64 \<times> u32) list \<Rightarrow> hdr_prefix list \<Rightarrow> hdr_prefix list option" where
  "set_fields re [] ps = Some ps"
| "set_fields re ((n, s, m, f) # xs) ps =
     (let i = hdrtoken_tokenize_dfa re (chars n)
      in if 0 \<le> i \<and> i < int (length ps)
         then set_fields re xs (ps[nat i := (ps ! nat i)\<lparr>wks_slotid := s, wks_mask := m, wks_flags := f\<rparr>]) else None)"

section \<open>Hash table\<close>

text \<open>\<open>toupper\<close> in the C locale.\<close>

definition toupper :: "u8 \<Rightarrow> u8" where
  "toupper c = (if of_char (CHR ''a'') \<le> c \<and> c \<le> of_char (CHR ''z'') then c - 32 else c)"

definition hash_to_slot :: "u32 \<Rightarrow> u32" where
  "hash_to_slot h = (drop_bit 15 h XOR h) AND (push_bit 15 1 - 1)"

definition InitialFNV :: u32 where
  "InitialFNV = 2166136261"

definition FNVMultiple :: u32 where
  "FNVMultiple = 16777619"

fun hash_loop :: "u32 \<Rightarrow> bytes \<Rightarrow> u32" where
  "hash_loop h [] = h"
| "hash_loop h (c # s) = hash_loop ((h XOR ucast (toupper c)) * FNVMultiple) s"

definition hdrtoken_hash :: "bytes \<Rightarrow> u32" where
  "hdrtoken_hash s = hash_loop InitialFNV s"

text \<open>A bucket: the index of the string and its hash.\<close>

type_synonym hash_table = "u32 \<Rightarrow> (int \<times> u32) option"

fun hash_init :: "(string \<Rightarrow> bytes \<Rightarrow> bool) \<Rightarrow> string list \<Rightarrow> hash_table \<Rightarrow> nat \<Rightarrow> (hash_table \<times> nat) option" where
  "hash_init re [] tab collisions = Some (tab, collisions)"
| "hash_init re (n # xs) tab collisions =
     (let i = hdrtoken_tokenize_dfa re (chars n)
      in if i < 0 then None
         else (let hash = hdrtoken_hash (chars (hdrtoken_strs ! nat i)); slot = hash_to_slot hash
               in hash_init re xs (tab(slot \<mapsto> (i, hash))) (if tab slot = None then collisions else collisions + 1)))"

text \<open>\<open>None\<close>: the release assertion or, after a collision, \<open>abort\<close>.\<close>

definition hdrtoken_hash_init :: "(string \<Rightarrow> bytes \<Rightarrow> bool) \<Rightarrow> hash_table option" where
  "hdrtoken_hash_init re =
     (case hash_init re commonly_tokenized_strs Map.empty 0 of
        None \<Rightarrow> None
      | Some (tab, collisions) \<Rightarrow> if collisions > 0 then None else Some tab)"

record hdr_tokens =
  wks_prefixes :: "hdr_prefix list"
  hash_tab :: hash_table

definition hdrtoken_init :: "(string \<Rightarrow> bytes \<Rightarrow> bool) \<Rightarrow> hdr_tokens option" where
  "hdrtoken_init re =
     do { ps \<leftarrow> set_types re type_initializers (map new_prefix [0..<length hdrtoken_strs]);
          qs \<leftarrow> set_fields re field_initializers ps;
          tab \<leftarrow> hdrtoken_hash_init re;
          Some \<lparr>wks_prefixes = qs, hash_tab = tab\<rparr> }"

section \<open>Lookup\<close>

datatype hname = Wks nat | Text bytes

abbreviation hdrtoken_is_wks :: "hname \<Rightarrow> bool" where
  "hdrtoken_is_wks n \<equiv> (case n of Wks i \<Rightarrow> True | Text s \<Rightarrow> False)"

text \<open>The characters and the length that a caller passes.\<close>

definition name_text :: "hname \<Rightarrow> bytes" where
  "name_text n = (case n of Wks i \<Rightarrow> chars (hdrtoken_strs ! i) | Text s \<Rightarrow> s)"

definition hdrtoken_is_valid_wks_idx :: "int \<Rightarrow> bool" where
  "hdrtoken_is_valid_wks_idx i \<longleftrightarrow> i \<ge> 0 \<and> i < int (length hdrtoken_strs)"

definition hdrtoken_index_to_prefix :: "hdr_tokens \<Rightarrow> int \<Rightarrow> hdr_prefix" where
  "hdrtoken_index_to_prefix T i = wks_prefixes T ! nat i"

definition hdrtoken_index_to_slotid :: "hdr_tokens \<Rightarrow> int \<Rightarrow> int" where
  "hdrtoken_index_to_slotid T i = wks_slotid (hdrtoken_index_to_prefix T i)"

definition hdrtoken_index_to_mask :: "hdr_tokens \<Rightarrow> int \<Rightarrow> u64" where
  "hdrtoken_index_to_mask T i = wks_mask (hdrtoken_index_to_prefix T i)"

definition hdrtoken_index_to_flags :: "hdr_tokens \<Rightarrow> int \<Rightarrow> u32" where
  "hdrtoken_index_to_flags T i = wks_flags (hdrtoken_index_to_prefix T i)"

definition hdrtoken_tokenize :: "hdr_tokens \<Rightarrow> hname \<Rightarrow> int" where
  "hdrtoken_tokenize T n =
     (case n of
        Wks i \<Rightarrow> wks_idx (wks_prefixes T ! i)
      | Text s \<Rightarrow>
          (let hash = hdrtoken_hash s
           in case hash_tab T (hash_to_slot hash) of
                Some (i, h) \<Rightarrow> if h = hash \<and> wks_length (hdrtoken_index_to_prefix T i) = length s then i else - 1
              | None \<Rightarrow> - 1))"

text \<open>The pointer to the well-known string, or \<open>None\<close>.\<close>

definition hdrtoken_string_to_wks :: "hdr_tokens \<Rightarrow> bytes \<Rightarrow> hname option" where
  "hdrtoken_string_to_wks T s = (let i = hdrtoken_tokenize T (Text s) in if i \<ge> 0 then Some (Wks (nat i)) else None)"

section \<open>Cache-Control tokens\<close>

abbreviation (input) "MIME_COOKED_MASK_CC_MAX_AGE \<equiv> push_bit 0 1 :: u32"
abbreviation (input) "MIME_COOKED_MASK_CC_NO_CACHE \<equiv> push_bit 1 1 :: u32"
abbreviation (input) "MIME_COOKED_MASK_CC_NO_STORE \<equiv> push_bit 2 1 :: u32"
abbreviation (input) "MIME_COOKED_MASK_CC_NO_TRANSFORM \<equiv> push_bit 3 1 :: u32"
abbreviation (input) "MIME_COOKED_MASK_CC_MAX_STALE \<equiv> push_bit 4 1 :: u32"
abbreviation (input) "MIME_COOKED_MASK_CC_MIN_FRESH \<equiv> push_bit 5 1 :: u32"
abbreviation (input) "MIME_COOKED_MASK_CC_ONLY_IF_CACHED \<equiv> push_bit 6 1 :: u32"
abbreviation (input) "MIME_COOKED_MASK_CC_PUBLIC \<equiv> push_bit 7 1 :: u32"
abbreviation (input) "MIME_COOKED_MASK_CC_PRIVATE \<equiv> push_bit 8 1 :: u32"
abbreviation (input) "MIME_COOKED_MASK_CC_MUST_REVALIDATE \<equiv> push_bit 9 1 :: u32"
abbreviation (input) "MIME_COOKED_MASK_CC_PROXY_REVALIDATE \<equiv> push_bit 10 1 :: u32"
abbreviation (input) "MIME_COOKED_MASK_CC_S_MAXAGE \<equiv> push_bit 11 1 :: u32"
abbreviation (input) "MIME_COOKED_MASK_CC_NEED_REVALIDATE_ONCE \<equiv> push_bit 12 1 :: u32"

definition cc_mask_table :: "(string \<times> u32) list" where
  "cc_mask_table =
    [(''max-age'', MIME_COOKED_MASK_CC_MAX_AGE), (''no-cache'', MIME_COOKED_MASK_CC_NO_CACHE),
     (''no-store'', MIME_COOKED_MASK_CC_NO_STORE), (''no-transform'', MIME_COOKED_MASK_CC_NO_TRANSFORM),
     (''max-stale'', MIME_COOKED_MASK_CC_MAX_STALE), (''min-fresh'', MIME_COOKED_MASK_CC_MIN_FRESH),
     (''only-if-cached'', MIME_COOKED_MASK_CC_ONLY_IF_CACHED), (''public'', MIME_COOKED_MASK_CC_PUBLIC),
     (''private'', MIME_COOKED_MASK_CC_PRIVATE), (''must-revalidate'', MIME_COOKED_MASK_CC_MUST_REVALIDATE),
     (''proxy-revalidate'', MIME_COOKED_MASK_CC_PROXY_REVALIDATE), (''s-maxage'', MIME_COOKED_MASK_CC_S_MAXAGE),
     (''need-revalidate-once'', MIME_COOKED_MASK_CC_NEED_REVALIDATE_ONCE)]"

text \<open>A name without a well-known string would be a null pointer: \<open>None\<close>.\<close>

fun set_cc_masks :: "(string \<times> u32) list \<Rightarrow> hdr_tokens \<Rightarrow> hdr_tokens option" where
  "set_cc_masks [] T = Some T"
| "set_cc_masks ((n, m) # xs) T =
     (case hdrtoken_string_to_wks T (chars n) of
        Some (Wks i) \<Rightarrow> set_cc_masks xs (T\<lparr>wks_prefixes := (wks_prefixes T)[i := (wks_prefixes T ! i)\<lparr>cc_mask := m\<rparr>]\<rparr>)
      | _ \<Rightarrow> None)"

definition mime_init_cache_control_cooking_masks :: "hdr_tokens \<Rightarrow> hdr_tokens option" where
  "mime_init_cache_control_cooking_masks T = set_cc_masks cc_mask_table T"

section \<open>Initialisation of the headers\<close>

text \<open>The strings of the constants \<open>MIME_FIELD_...\<close> and \<open>MIME_VALUE_...\<close>.\<close>

definition mime_field_strings :: "string list" where
  "mime_field_strings =
    [''Accept'', ''Accept-Charset'', ''Accept-Encoding'', ''Accept-Language'', ''Accept-Ranges'', ''Age'', ''Allow'',
     ''Approved'', ''Authorization'', ''Bytes'', ''Cache-Control'', ''Client-ip'', ''Connection'', ''Content-Base'',
     ''Content-Encoding'', ''Content-Language'', ''Content-Length'', ''Content-Location'', ''Content-MD5'',
     ''Content-Range'', ''Content-Type'', ''Control'', ''Cookie'', ''Date'', ''Distribution'', ''Etag'', ''Expect'',
     ''Expires'', ''Followup-To'', ''From'', ''Host'', ''If-Match'', ''If-Modified-Since'', ''If-None-Match'',
     ''If-Range'', ''If-Unmodified-Since'', ''Keep-Alive'', ''Keywords'', ''Last-Modified'', ''Lines'', ''Location'',
     ''Max-Forwards'', ''Message-ID'', ''Newsgroups'', ''Organization'', ''Path'', ''Pragma'',
     ''Proxy-Authenticate'', ''Proxy-Authorization'', ''Proxy-Connection'', ''Public'', ''Range'', ''References'',
     ''Referer'', ''Reply-To'', ''Retry-After'', ''Sender'', ''Server'', ''Set-Cookie'',
     ''Strict-Transport-Security'', ''Subject'', ''Summary'', ''TE'', ''Transfer-Encoding'', ''Upgrade'',
     ''User-Agent'', ''Vary'', ''Via'', ''Warning'', ''Www-Authenticate'', ''Xref'', ''@DataInfo'', ''X-ID'',
     ''X-Forwarded-For'', ''Sec-WebSocket-Key'', ''Sec-WebSocket-Version'']"

definition mime_value_strings :: "string list" where
  "mime_value_strings =
    [''bytes'', ''chunked'', ''close'', ''compress'', ''deflate'', ''gzip'', ''identity'', ''keep-alive'',
     ''max-age'', ''max-stale'', ''min-fresh'', ''must-revalidate'', ''none'', ''no-cache'', ''no-store'',
     ''no-transform'', ''only-if-cached'', ''private'', ''proxy-revalidate'', ''public'', ''s-maxage'',
     ''need-revalidate-once'', ''websocket'']"

text \<open>
  The pointer, the length (\<open>MIME_LEN_...\<close>) and the index (\<open>MIME_WKSIDX_...\<close>) of a well-known string; \<open>None\<close> is
  the access through a null pointer.
\<close>

definition wks_constant :: "hdr_tokens \<Rightarrow> string \<Rightarrow> (hname \<times> nat \<times> int) option" where
  "wks_constant T n =
     (case hdrtoken_string_to_wks T (chars n) of
        Some (Wks i) \<Rightarrow> Some (Wks i, wks_length (wks_prefixes T ! i), wks_idx (wks_prefixes T ! i))
      | _ \<Rightarrow> None)"

definition mime_init :: "(string \<Rightarrow> bytes \<Rightarrow> bool) \<Rightarrow> int \<Rightarrow> (hdr_tokens \<times> (hname \<times> nat \<times> int) list \<times> mdy_table) option" where
  "mime_init re now =
     do { T \<leftarrow> hdrtoken_init re;
          cs \<leftarrow> those (map (wks_constant T) (mime_field_strings @ mime_value_strings));
          days \<leftarrow> mime_init_date_format_table now;
          T' \<leftarrow> mime_init_cache_control_cooking_masks T;
          Some (T', cs, days) }"

end
