(* ===== verification/HdrTokenSpec.thy ===== *)
theory HdrTokenSpec
  imports HdrToken MimeDateSpec
begin

unbundle bit_operations_syntax

text \<open>
  The initialisation of the well-known strings resolves every name to its own entry and builds a hash
  table without collisions, so that every well-known string is found in any case. The lookup trusts the
  hash: other strings with the hash and length of a well-known string are taken for it.
\<close>

section \<open>Strings regardless of case\<close>

definition lowi :: "int \<Rightarrow> int" where
  "lowi n = (if 65 \<le> n \<and> n \<le> 90 then n + 32 else n)"

definition low :: "string \<Rightarrow> int list" where
  "low s = map (\<lambda>c. lowi (of_char c)) s"

definition lowb :: "bytes \<Rightarrow> int list" where
  "lowb s = map (\<lambda>c. lowi (uint c)) s"

lemma uint_of_char: "uint (of_char c :: u8) = of_char c"
proof -
  have "(of_char c :: u8) = of_nat (of_char c)" by (simp only: of_nat_of_char)
  then have "uint (of_char c :: u8) = int (of_char c)" by (simp add: unsigned_of_nat take_bit_nat_eq_self)
  then show ?thesis by (simp only: of_nat_of_char)
qed

fun starts :: "'a list \<Rightarrow> 'a list \<Rightarrow> bool" where
  "starts [] s = True"
| "starts (x # p) [] = False"
| "starts (x # p) (y # s) = (if x = y then starts p s else False)"

fun first_prefix :: "'a list list \<Rightarrow> int \<Rightarrow> 'a list \<Rightarrow> int" where
  "first_prefix [] i s = - 1"
| "first_prefix (p # ps) i s = (if starts p s then i else first_prefix ps (i + 1) s)"

text \<open>The texts from number \<open>i\<close> on have their own number as the first prefix in the table.\<close>

fun all_first :: "int list list \<Rightarrow> int \<Rightarrow> int list list \<Rightarrow> bool" where
  "all_first t i [] = True"
| "all_first t i (s # ss) = (if first_prefix t 0 s = i then all_first t (i + 1) ss else False)"

definition first_ok :: "nat \<Rightarrow> nat \<Rightarrow> int list list \<Rightarrow> bool" where
  "first_ok a b t \<longleftrightarrow> all_first t (int a) (take (b - a) (drop a t))"

lemma first_ok0: "first_ok 0 44 (map low hdrtoken_strs)"
  by code_simp

lemma first_ok1: "first_ok 44 84 (map low hdrtoken_strs)"
  by code_simp

lemma first_ok2: "first_ok 84 108 (map low hdrtoken_strs)"
  by code_simp

lemma first_ok3: "first_ok 108 128 (map low hdrtoken_strs)"
  by code_simp

section \<open>Hashes\<close>

lemma hashes0:
  "map (\<lambda>s. hdrtoken_hash (chars s)) (take 22 (drop 0 hdrtoken_strs)) =
    [3107960968, 3161469017, 648286550, 2404564518, 547231721, 1853619452, 1084331474, 3723046842, 4194732382,
     4237250084, 987353997, 4146693744, 707182617, 4084258864, 4106027624, 1167503283, 2630822013, 2246872206,
     3544835403, 2090207370, 3945365109, 3725453694]"
  by code_simp

lemma hashes1:
  "map (\<lambda>s. hdrtoken_hash (chars s)) (take 22 (drop 22 hdrtoken_strs)) =
    [453382463, 3221746841, 1588638315, 3002887936, 40228184, 1922461731, 4092043993, 2478748789, 3991944751,
     4110033290, 247469449, 1929613911, 2986103070, 743147306, 1679160352, 633019157, 3239887275, 2351484124,
     697559654, 813576502, 1396931398, 2462664700]"
  by code_simp

lemma hashes2:
  "map (\<lambda>s. hdrtoken_hash (chars s)) (take 22 (drop 44 hdrtoken_strs)) =
    [2414167262, 1016241130, 1839435638, 2979670501, 645626959, 2982521275, 169929350, 883529856, 1696719282,
     1415727179, 3118819654, 905391459, 3631052982, 1411505060, 3820123666, 1170440408, 1418384879, 2792873523,
     2976646412, 988952599, 635591758, 1050481221]"
  by code_simp

lemma hashes3:
  "map (\<lambda>s. hdrtoken_hash (chars s)) (take 22 (drop 66 hdrtoken_strs)) =
    [3958155251, 4009907663, 4075666274, 1804108616, 930468579, 242371213, 2190204448, 406211381, 435401371,
     105472799, 2634903625, 997757114, 507751592, 1254351829, 2452356606, 2307137163, 943520726, 3303075500,
     1104490129, 1179446944, 1883280235, 1932136219]"
  by code_simp

lemma hashes4:
  "map (\<lambda>s. hdrtoken_hash (chars s)) (take 22 (drop 88 hdrtoken_strs)) =
    [2503076403, 2409015043, 1496571600, 1412562118, 1436129089, 2822617731, 4223133509, 1522436520, 2269661762,
     112623013, 3120201171, 1322157126, 3489614673, 324708205, 570659453, 198341079, 2511308965, 3068849850,
     3421507807, 2981720912, 3364195027, 3347417408]"
  by code_simp

lemma hashes5:
  "map (\<lambda>s. hdrtoken_hash (chars s)) (take 18 (drop 110 hdrtoken_strs)) =
    [693049748, 1760690660, 771208543, 2016099545, 4168191690, 2531704439, 1929554311, 811237315, 1666942356,
     827600069, 395378596, 3995708942, 746199118, 866391837, 3608584515, 45663592, 469064306, 1516005313]"
  by code_simp

section \<open>The matcher\<close>

text \<open>
  The patterns are plain words: anchored and without regard to case, they match the texts that begin with
  them.
\<close>

definition literal_re :: "(string \<Rightarrow> bytes \<Rightarrow> bool) \<Rightarrow> bool" where
  "literal_re re \<longleftrightarrow> (\<forall>p \<in> set hdrtoken_strs. \<forall>s. re p s = begins_with s p)"

lemma lowi_uint: "lowi (uint c) = uint (lower c)"
proof (cases "65 \<le> c \<and> c \<le> 90")
  case True
  then have "uint c \<le> 90" "65 \<le> uint c" by (simp_all add: word_le_def)
  then have "uint (c + 32) = uint c + 32" by (simp add: uint_plus_if')
  then show ?thesis using True \<open>uint c \<le> 90\<close> \<open>65 \<le> uint c\<close> by (simp add: lowi_def lower_def)
next
  case False
  then have "(65 \<le> uint c \<and> uint c \<le> 90) = False" by (simp add: word_le_def)
  then show ?thesis unfolding lowi_def lower_def using False by (simp only: if_False)
qed

lemma lowb_lower: "lowb s = map uint (map lower s)"
  by (simp add: lowb_def lowi_uint)

lemma lowb_eq: "lowb s = lowb t \<longleftrightarrow> map lower s = map lower t"
  unfolding lowb_lower by (rule inj_map_eq_map) (simp add: inj_def word_uint_eq_iff)

lemma lowb_chars: "lowb (chars p) = low p"
  by (simp add: lowb_def low_def chars_def uint_of_char)

lemma starts_take: "starts p s \<longleftrightarrow> take (length p) s = p"
  by (induction p s rule: starts.induct) auto

lemma begins_with_starts: "begins_with s p \<longleftrightarrow> starts (low p) (lowb s)"
proof -
  have "begins_with s p \<longleftrightarrow> lowb (take (length p) s) = lowb (chars p)" unfolding begins_with_def lowb_eq ..
  also have "\<dots> \<longleftrightarrow> take (length (low p)) (lowb s) = low p" by (simp add: lowb_chars) (simp add: lowb_def low_def take_map)
  finally show ?thesis unfolding starts_take .
qed

lemma dfa_first:
  assumes "literal_re re" "set ps \<subseteq> set hdrtoken_strs"
  shows "dfa_match re ps i s = first_prefix (map low ps) i (lowb s)"
  using assms(2)
proof (induction ps arbitrary: i)
  case (Cons p ps)
  then have "re p s = starts (low p) (lowb s)" using assms(1) by (simp add: literal_re_def begins_with_starts)
  then show ?case using Cons by simp
qed simp

lemma all_firstD: "all_first t i ss \<Longrightarrow> k < length ss \<Longrightarrow> first_prefix t 0 (ss ! k) = i + int k"
proof (induction ss arbitrary: i k)
  case (Cons s ss)
  show ?case
  proof (cases k)
    case (Suc j)
    then show ?thesis using Cons.IH [of "i + 1" j] Cons.prems by (simp split: if_splits)
  qed (use Cons.prems in \<open>simp split: if_splits\<close>)
qed simp

lemma first_okD: "first_ok a b t \<Longrightarrow> a \<le> k \<Longrightarrow> k < b \<Longrightarrow> b \<le> length t \<Longrightarrow> first_prefix t 0 (t ! k) = int k"
  using all_firstD [of t "int a" "take (b - a) (drop a t)" "k - a"] by (simp add: first_ok_def)

lemma hdrtoken_strs_length [simp]: "length hdrtoken_strs = 128"
  by (simp add: hdrtoken_strs_def)

lemma first_strs: "k < 128 \<Longrightarrow> first_prefix (map low hdrtoken_strs) 0 (low (hdrtoken_strs ! k)) = int k"
proof -
  assume k: "k < 128"
  have "first_prefix (map low hdrtoken_strs) 0 (map low hdrtoken_strs ! k) = int k"
  proof -
    consider "k < 44" | "44 \<le> k" "k < 84" | "84 \<le> k" "k < 108" | "108 \<le> k" by linarith
    then show ?thesis
      by cases (rule first_okD [OF first_ok0] first_okD [OF first_ok1] first_okD [OF first_ok2] first_okD [OF first_ok3];
        use k in simp)+
  qed
  then show ?thesis using k by simp
qed

lemma tokenize_dfa_strs:
  assumes "literal_re re" "k < 128" "lowb s = low (hdrtoken_strs ! k)"
  shows "hdrtoken_tokenize_dfa re s = int k"
  unfolding hdrtoken_tokenize_dfa_def
  by (subst dfa_first [OF assms(1)]) (use assms first_strs in simp_all)

section \<open>The prefixes\<close>

text \<open>The numbers of the strings that the initialisers name.\<close>

definition type_index :: "nat list" where
  "type_index =
    [93, 94, 95, 97, 96, 98, 99, 100, 101, 102, 103, 104, 105, 107, 106, 110, 108, 109, 111, 112, 113, 114, 115, 117,
     118, 119, 116, 120, 121, 122, 123, 75, 76, 77, 78, 79, 80, 81, 82, 83, 84, 51, 85, 86]"

definition field_index :: "nat list" where
  "field_index =
    [4, 0, 1, 2, 3, 5, 6, 7, 8, 9, 10, 11, 12, 13, 14, 15, 16, 17, 18, 19, 20, 21, 22, 23, 24, 25, 27, 28, 29, 30,
     31, 32, 33, 34, 35, 36, 37, 38, 39, 40, 41, 42, 44, 45, 46, 47, 48, 49, 50, 51, 52, 53, 54, 55, 56, 57, 58, 59,
     127, 60, 61, 126, 62, 63, 64, 65, 66, 67, 68, 69, 70, 124, 125, 91, 92]"

definition cc_index :: "nat list" where
  "cc_index =
    [75, 79, 80, 81, 76, 77, 82, 51, 83, 78, 84, 85, 86]"

lemma init_names:
  "map (\<lambda>x. low (fst x)) type_initializers = map (\<lambda>i. low (hdrtoken_strs ! i)) type_index"
  "map (\<lambda>x. low (fst x)) field_initializers = map (\<lambda>i. low (hdrtoken_strs ! i)) field_index"
  "map (\<lambda>x. low (fst x)) cc_mask_table = map (\<lambda>i. low (hdrtoken_strs ! i)) cc_index"
  by code_simp+

lemma init_index: "\<forall>i \<in> set type_index. i < 128" "\<forall>i \<in> set field_index. i < 128" "\<forall>i \<in> set cc_index. i < 128"
  by (simp_all add: type_index_def field_index_def cc_index_def)

fun put_types :: "nat list \<Rightarrow> (string \<times> hdr_token_type) list \<Rightarrow> hdr_prefix list \<Rightarrow> hdr_prefix list" where
  "put_types (i # is) ((n, t) # xs) ps = put_types is xs (ps[i := (ps ! i)\<lparr>wks_token_type := t\<rparr>])"
| "put_types is xs ps = ps"

fun put_fields :: "nat list \<Rightarrow> (string \<times> int \<times> u64 \<times> u32) list \<Rightarrow> hdr_prefix list \<Rightarrow> hdr_prefix list" where
  "put_fields (i # is) ((n, s, m, f) # xs) ps = put_fields is xs (ps[i := (ps ! i)\<lparr>wks_slotid := s, wks_mask := m, wks_flags := f\<rparr>])"
| "put_fields is xs ps = ps"

lemma set_types_put:
  assumes "literal_re re" "length ps = 128" "map (\<lambda>x. low (fst x)) xs = map (\<lambda>i. low (hdrtoken_strs ! i)) is" "\<forall>i \<in> set is. i < 128"
  shows "set_types re xs ps = Some (put_types is xs ps)"
  using assms(2-4)
proof (induction "is" xs ps rule: put_types.induct)
  case (1 i "is" n t xs ps)
  then have "hdrtoken_tokenize_dfa re (chars n) = int i" by (intro tokenize_dfa_strs [OF assms(1)]) (simp_all add: lowb_chars)
  then show ?case using 1 by simp
qed auto

lemma set_fields_put:
  assumes "literal_re re" "length ps = 128" "map (\<lambda>x. low (fst x)) xs = map (\<lambda>i. low (hdrtoken_strs ! i)) is" "\<forall>i \<in> set is. i < 128"
  shows "set_fields re xs ps = Some (put_fields is xs ps)"
  using assms(2-4)
proof (induction "is" xs ps rule: put_fields.induct)
  case (1 i "is" n s m f xs ps)
  then have "hdrtoken_tokenize_dfa re (chars n) = int i" by (intro tokenize_dfa_strs [OF assms(1)]) (simp_all add: lowb_chars)
  then show ?case using 1 by simp
qed auto

text \<open>The prefixes after the initialisation, and what they hold.\<close>

definition new_prefixes :: "hdr_prefix list" where
  "new_prefixes = map new_prefix [0..<length hdrtoken_strs]"

definition init_prefixes :: "hdr_prefix list" where
  "init_prefixes = put_fields field_index field_initializers (put_types type_index type_initializers new_prefixes)"

fun put :: "nat list \<Rightarrow> 'a list \<Rightarrow> 'a list \<Rightarrow> 'a list" where
  "put (i # is) (x # xs) ps = put is xs (ps[i := x])"
| "put is xs ps = ps"

lemma map_same_update: "f y = f (xs ! i) \<Longrightarrow> map f (xs[i := y]) = map f xs"
  by (cases "i < length xs") (simp_all add: map_update list_update_same_conv list_update_beyond)

lemma put_types_frame:
  "map wks_idx (put_types is xs ps) = map wks_idx ps" "map wks_length (put_types is xs ps) = map wks_length ps"
  "map wks_slotid (put_types is xs ps) = map wks_slotid ps" "map wks_mask (put_types is xs ps) = map wks_mask ps"
  "length (put_types is xs ps) = length ps"
proof (induction "is" xs ps rule: put_types.induct)
  case (1 i "is" n t xs ps)
  {
    case 1 then show ?case using "1.IH"(1) by (simp add: map_same_update)
  next
    case 2 then show ?case using "1.IH"(2) by (simp add: map_same_update)
  next
    case 3 then show ?case using "1.IH"(3) by (simp add: map_same_update)
  next
    case 4 then show ?case using "1.IH"(4) by (simp add: map_same_update)
  next
    case 5 then show ?case using "1.IH"(5) by simp
  }
qed simp_all

lemma put_fields_frame:
  "map wks_idx (put_fields is xs ps) = map wks_idx ps" "map wks_length (put_fields is xs ps) = map wks_length ps"
  "map wks_slotid (put_fields is xs ps) = put is (map (\<lambda>(n, s, m, f). s) xs) (map wks_slotid ps)"
  "map wks_mask (put_fields is xs ps) = put is (map (\<lambda>(n, s, m, f). m) xs) (map wks_mask ps)"
  "length (put_fields is xs ps) = length ps"
proof (induction "is" xs ps rule: put_fields.induct)
  case (1 i "is" n s m f xs ps)
  {
    case 1 then show ?case using "1.IH"(1) by (simp add: map_same_update)
  next
    case 2 then show ?case using "1.IH"(2) by (simp add: map_same_update)
  next
    case 3 then show ?case using "1.IH"(3) by (simp add: map_update)
  next
    case 4 then show ?case using "1.IH"(4) by (simp add: map_update)
  next
    case 5 then show ?case using "1.IH"(5) by simp
  }
qed simp_all

lemma new_prefixes_fields:
  "length new_prefixes = 128" "map wks_idx new_prefixes = map int [0..<128]"
  "map wks_length new_prefixes = map (\<lambda>i. length (hdrtoken_strs ! i)) [0..<128]"
  "map wks_slotid new_prefixes = replicate 128 (- 1)" "map wks_mask new_prefixes = replicate 128 0"
  by (simp_all add: new_prefixes_def new_prefix_def comp_def map_replicate_const)

definition slot_table :: "int list" where
  "slot_table =
    [1, 2, 3, - 1, 0, 4, - 1, - 1, 5, - 1, 6, 7, 8, - 1, 9, 10, 11, - 1, - 1, - 1, 12, - 1, 13, 14, - 1, - 1, - 1,
     15, - 1, - 1, - 1, 16, 17, 18, 19, 20, - 1, - 1, 21, - 1, - 1, - 1, - 1, - 1, - 1, - 1, - 1, 22, - 1, - 1, 23,
     - 1, 24, - 1, - 1, - 1, - 1, - 1, - 1, 25, - 1, - 1, 27, - 1, 28, 29, 30, - 1, 31, - 1, - 1, - 1, - 1, - 1, - 1,
     - 1, - 1, - 1, - 1, - 1, - 1, - 1, - 1, - 1, - 1, - 1, - 1, - 1, - 1, - 1, - 1, - 1, - 1, - 1, - 1, - 1, - 1,
     - 1, - 1, - 1, - 1, - 1, - 1, - 1, - 1, - 1, - 1, - 1, - 1, - 1, - 1, - 1, - 1, - 1, - 1, - 1, - 1, - 1, - 1,
     - 1, - 1, - 1, - 1, - 1, - 1, - 1, 26, - 1]"

text \<open>The number of the presence bit, or \<open>- 1\<close>.\<close>

definition presence_table :: "int list" where
  "presence_table =
    [1, 2, 3, 4, 0, 5, 6, - 1, 7, 8, 9, 10, 11, - 1, 12, 13, 14, 15, 16, 17, 18, - 1, 19, 20, - 1, 21, - 1, 22, - 1,
     23, 24, 25, 26, 27, 28, 29, 30, 31, 32, 33, 34, 35, - 1, - 1, - 1, - 1, 36, 37, 38, 39, 40, 41, 42, - 1, 43,
     - 1, - 1, - 1, 44, 45, 46, 47, 49, 50, 51, 52, 53, 54, 55, 61, 62, - 1, - 1, - 1, - 1, - 1, - 1, - 1, - 1, - 1,
     - 1, - 1, - 1, - 1, - 1, - 1, - 1, - 1, - 1, - 1, - 1, - 1, - 1, - 1, - 1, - 1, - 1, - 1, - 1, - 1, - 1, - 1,
     - 1, - 1, - 1, - 1, - 1, - 1, - 1, - 1, - 1, - 1, - 1, - 1, - 1, - 1, - 1, - 1, - 1, - 1, - 1, - 1, - 1, - 1,
     - 1, - 1, 48, - 1]"

definition presence_mask :: "int \<Rightarrow> u64" where
  "presence_mask b = (if b < 0 then 0 else push_bit (nat b) 1)"

lemma slot_table: "put field_index (map (\<lambda>(n, s, m, f). s) field_initializers) (replicate 128 (- 1)) = slot_table"
  by code_simp

text \<open>The bits of the fields in the order of the initialisers.\<close>

definition field_bits :: "int list" where
  "field_bits =
    [0, 1, 2, 3, 4, 5, 6, - 1, 7, 8, 9, 10, 11, - 1, 12, 13, 14, 15, 16, 17, 18, - 1, 19, 20, - 1, 21, 22, - 1, 23,
     24, 25, 26, 27, 28, 29, 30, 31, 32, 33, 34, 35, - 1, - 1, - 1, 36, 37, 38, 39, 40, 41, 42, - 1, 43, - 1, - 1,
     - 1, 44, 45, - 1, 46, 47, 48, 49, 50, 51, 52, 53, 54, 55, 61, 62, - 1, - 1, - 1, - 1]"

lemma field_masks: "map (\<lambda>(n, s, m, f). m) field_initializers = map presence_mask field_bits"
  by (simp add: field_initializers_def field_bits_def presence_mask_def)

lemma put_map: "put is (map g xs) (map g ps) = map g (put is xs ps)"
  by (induction "is" xs ps rule: put.induct) (simp_all add: map_update [symmetric])

lemma presence_bits: "put field_index field_bits (replicate 128 (- 1)) = presence_table"
  by code_simp

lemma presence_table:
  "put field_index (map (\<lambda>(n, s, m, f). m) field_initializers) (replicate 128 0) = map presence_mask presence_table"
proof -
  have "replicate 128 0 = map presence_mask (replicate 128 (- 1))" by (simp add: presence_mask_def)
  then show ?thesis by (simp only: field_masks put_map presence_bits)
qed

lemma slot_ranges: "list_all (\<lambda>s. s = - 1 \<or> 0 \<le> s \<and> s < 32) slot_table" "distinct (filter (\<lambda>s. s \<noteq> - 1) slot_table)"
  "list_all2 (\<lambda>s b. s \<noteq> - 1 \<longrightarrow> 0 \<le> b) slot_table presence_table" "length slot_table = 128"
  by (simp_all add: slot_table_def presence_table_def)

lemma presence_ranges: "list_all (\<lambda>b. b < 64) presence_table" "distinct (filter (\<lambda>b. 0 \<le> b) presence_table)"
  "length presence_table = 128"
  by (simp_all add: presence_table_def)

definition wks_hashes :: "u32 list" where
  "wks_hashes =
    [3107960968, 3161469017, 648286550, 2404564518, 547231721, 1853619452, 1084331474, 3723046842, 4194732382,
     4237250084, 987353997, 4146693744, 707182617, 4084258864, 4106027624, 1167503283, 2630822013, 2246872206,
     3544835403, 2090207370, 3945365109, 3725453694, 453382463, 3221746841, 1588638315, 3002887936, 40228184,
     1922461731, 4092043993, 2478748789, 3991944751, 4110033290, 247469449, 1929613911, 2986103070, 743147306,
     1679160352, 633019157, 3239887275, 2351484124, 697559654, 813576502, 1396931398, 2462664700, 2414167262,
     1016241130, 1839435638, 2979670501, 645626959, 2982521275, 169929350, 883529856, 1696719282, 1415727179,
     3118819654, 905391459, 3631052982, 1411505060, 3820123666, 1170440408, 1418384879, 2792873523, 2976646412,
     988952599, 635591758, 1050481221, 3958155251, 4009907663, 4075666274, 1804108616, 930468579, 242371213,
     2190204448, 406211381, 435401371, 105472799, 2634903625, 997757114, 507751592, 1254351829, 2452356606,
     2307137163, 943520726, 3303075500, 1104490129, 1179446944, 1883280235, 1932136219, 2503076403, 2409015043,
     1496571600, 1412562118, 1436129089, 2822617731, 4223133509, 1522436520, 2269661762, 112623013, 3120201171,
     1322157126, 3489614673, 324708205, 570659453, 198341079, 2511308965, 3068849850, 3421507807, 2981720912,
     3364195027, 3347417408, 693049748, 1760690660, 771208543, 2016099545, 4168191690, 2531704439, 1929554311,
     811237315, 1666942356, 827600069, 395378596, 3995708942, 746199118, 866391837, 3608584515, 45663592, 469064306,
     1516005313]"


lemma slots_distinct: "distinct (map uint (map hash_to_slot (wks_hashes)))"
  by code_simp

section \<open>The hash table\<close>

definition wks_hash :: "nat \<Rightarrow> u32" where
  "wks_hash i = hdrtoken_hash (chars (hdrtoken_strs ! i))"

lemma strs_chunks: "hdrtoken_strs = take 22 (drop 0 hdrtoken_strs) @ take 22 (drop 22 hdrtoken_strs) @ take 22 (drop 44 hdrtoken_strs) @
    take 22 (drop 66 hdrtoken_strs) @ take 22 (drop 88 hdrtoken_strs) @ take 18 (drop 110 hdrtoken_strs)"
  by (simp add: hdrtoken_strs_def)

lemma strs_hashes: "map (\<lambda>s. hdrtoken_hash (chars s)) hdrtoken_strs = wks_hashes"
  by (subst strs_chunks)
    (simp only: map_append hashes0 hashes1 hashes2 hashes3 hashes4 hashes5 append.simps wks_hashes_def)

lemma wks_hash_slots: "inj_on (\<lambda>i. hash_to_slot (wks_hash i)) {..<128}"
proof (rule inj_onI)
  fix i j assume ij: "i \<in> {..<128::nat}" "j \<in> {..<128}" and eq: "hash_to_slot (wks_hash i) = hash_to_slot (wks_hash j)"
  have len: "length wks_hashes = 128" unfolding strs_hashes [symmetric] by simp
  have nth: "map uint (map hash_to_slot wks_hashes) ! k = uint (hash_to_slot (wks_hash k))" if "k < 128" for k
    using that unfolding strs_hashes [symmetric] by (simp add: wks_hash_def)
  show "i = j" using nth_eq_iff_index_eq [OF slots_distinct, of i j] nth [of i] nth [of j] ij eq len by simp
qed

definition tab_ok :: "nat \<Rightarrow> hash_table \<Rightarrow> bool" where
  "tab_ok k tab \<longleftrightarrow>
     (\<forall>s p. tab s = Some p \<longleftrightarrow> (\<exists>i < k. s = hash_to_slot (wks_hash i) \<and> p = (int i, wks_hash i)))"

lemma tab_ok_step:
  assumes "tab_ok k tab" "k < 128"
  shows "tab (hash_to_slot (wks_hash k)) = None" "tab_ok (Suc k) (tab(hash_to_slot (wks_hash k) \<mapsto> (int k, wks_hash k)))"
proof -
  have new: "hash_to_slot (wks_hash i) \<noteq> hash_to_slot (wks_hash k)" if "i < k" for i
    using inj_onD [OF wks_hash_slots, of i k] that assms(2) by auto
  show "tab (hash_to_slot (wks_hash k)) = None"
  proof (cases "tab (hash_to_slot (wks_hash k))")
    case (Some p)
    then obtain i where "i < k" "hash_to_slot (wks_hash k) = hash_to_slot (wks_hash i)"
      using assms(1) unfolding tab_ok_def by blast
    then show ?thesis using new [of i] by simp
  qed simp
  show "tab_ok (Suc k) (tab(hash_to_slot (wks_hash k) \<mapsto> (int k, wks_hash k)))"
    unfolding tab_ok_def
  proof (intro allI)
    fix s p
    show "(tab(hash_to_slot (wks_hash k) \<mapsto> (int k, wks_hash k))) s = Some p \<longleftrightarrow>
        (\<exists>i < Suc k. s = hash_to_slot (wks_hash i) \<and> p = (int i, wks_hash i))"
    proof (cases "s = hash_to_slot (wks_hash k)")
      case True
      have "(\<exists>i < Suc k. s = hash_to_slot (wks_hash i) \<and> p = (int i, wks_hash i)) \<longleftrightarrow> p = (int k, wks_hash k)"
        unfolding True less_Suc_eq using new by metis
      then show ?thesis using True by auto
    next
      case False
      then have "(\<exists>i < Suc k. s = hash_to_slot (wks_hash i) \<and> p = (int i, wks_hash i)) \<longleftrightarrow>
          (\<exists>i < k. s = hash_to_slot (wks_hash i) \<and> p = (int i, wks_hash i))"
        by (auto simp: less_Suc_eq)
      moreover have "tab s = Some p \<longleftrightarrow> (\<exists>i < k. s = hash_to_slot (wks_hash i) \<and> p = (int i, wks_hash i))"
        using assms(1) unfolding tab_ok_def by blast
      ultimately show ?thesis using False by (simp only: fun_upd_apply if_False)
    qed
  qed
qed

lemma hash_init_ok:
  assumes "literal_re re"
  shows "k \<le> 128 \<Longrightarrow> tab_ok k tab \<Longrightarrow> \<exists>tab'. hash_init re (drop k hdrtoken_strs) tab n = Some (tab', n) \<and> tab_ok 128 tab'"
proof (induction "128 - k" arbitrary: k tab)
  case 0
  then show ?case by simp
next
  case (Suc j)
  then have k: "k < 128" "j = 128 - Suc k" "Suc k \<le> 128" by linarith+
  have t: "hdrtoken_tokenize_dfa re (chars (hdrtoken_strs ! k)) = int k"
    by (rule tokenize_dfa_strs [OF assms k(1)]) (rule lowb_chars)
  note step = tab_ok_step [OF Suc.prems(2) k(1)]
  have d: "drop k hdrtoken_strs = (hdrtoken_strs ! k) # drop (Suc k) hdrtoken_strs"
    using k(1) by (simp add: Cons_nth_drop_Suc)
  have "hash_init re (drop k hdrtoken_strs) tab n =
      hash_init re (drop (Suc k) hdrtoken_strs) (tab(hash_to_slot (wks_hash k) \<mapsto> (int k, wks_hash k))) n"
    using step(1) by (simp add: d t wks_hash_def Let_def)
  then show ?case using Suc.hyps(1) [OF k(2) k(3) step(2)] by simp
qed

lemma common_strs: "commonly_tokenized_strs = hdrtoken_strs"
  by (simp add: commonly_tokenized_strs_def hdrtoken_strs_def)

lemma hdrtoken_hash_init_ok:
  assumes "literal_re re"
  obtains tab where "hdrtoken_hash_init re = Some tab" "tab_ok 128 tab"
proof -
  have "tab_ok 0 Map.empty" by (simp add: tab_ok_def)
  from hash_init_ok [OF assms _ this, of 0] obtain tab where
    "hash_init re hdrtoken_strs Map.empty 0 = Some (tab, 0)" "tab_ok 128 tab" by auto
  then show thesis using that by (simp add: hdrtoken_hash_init_def common_strs)
qed

section \<open>Lookup\<close>

definition tokens_ok :: "hdr_tokens \<Rightarrow> bool" where
  "tokens_ok T \<longleftrightarrow>
     length (wks_prefixes T) = 128 \<and> map wks_idx (wks_prefixes T) = map int [0..<128] \<and>
     map wks_length (wks_prefixes T) = map (\<lambda>i. length (hdrtoken_strs ! i)) [0..<128] \<and>
     map wks_slotid (wks_prefixes T) = slot_table \<and> map wks_mask (wks_prefixes T) = map presence_mask presence_table \<and>
     tab_ok 128 (hash_tab T)"

lemma toupper_lower: "toupper (lower c) = toupper c"
proof -
  have "list_all (\<lambda>n. toupper (lower (word_of_int n)) = toupper (word_of_int n)) [0..255]" by code_simp
  moreover have "uint c \<in> set [0..255]" using uint_bounded [of c] by simp
  ultimately have "toupper (lower (word_of_int (uint c))) = toupper (word_of_int (uint c))"
    unfolding list_all_iff by blast
  then show ?thesis by simp
qed

lemma hash_loop_lower: "map lower s = map lower t \<Longrightarrow> hash_loop h s = hash_loop h t"
proof (induction s arbitrary: h t)
  case (Cons c s)
  then obtain d u where t: "t = d # u" "lower c = lower d" "map lower s = map lower u" by (cases t) auto
  have "toupper c = toupper d" by (metis t(2) toupper_lower)
  then show ?case using Cons.IH [OF t(3)] by (simp add: t(1))
qed simp

lemma wks_lookup:
  assumes "tokens_ok T" "k < 128"
  shows "wks_idx (wks_prefixes T ! k) = int k" "wks_length (wks_prefixes T ! k) = length (hdrtoken_strs ! k)"
    "wks_slotid (wks_prefixes T ! k) = slot_table ! k" "wks_mask (wks_prefixes T ! k) = presence_mask (presence_table ! k)"
proof -
  have len: "k < length (wks_prefixes T)" using assms unfolding tokens_ok_def by simp
  have maps: "map wks_idx (wks_prefixes T) ! k = map int [0..<128] ! k"
    "map wks_length (wks_prefixes T) ! k = map (\<lambda>i. length (hdrtoken_strs ! i)) [0..<128] ! k"
    "map wks_slotid (wks_prefixes T) ! k = slot_table ! k"
    "map wks_mask (wks_prefixes T) ! k = map presence_mask presence_table ! k"
    using assms(1) unfolding tokens_ok_def by simp_all
  show "wks_idx (wks_prefixes T ! k) = int k" "wks_length (wks_prefixes T ! k) = length (hdrtoken_strs ! k)"
    "wks_slotid (wks_prefixes T ! k) = slot_table ! k" "wks_mask (wks_prefixes T ! k) = presence_mask (presence_table ! k)"
    using maps len assms(2) presence_ranges(3) by simp_all
qed

lemma tokenize_wks:
  assumes "tokens_ok T" "k < 128" "lowb s = low (hdrtoken_strs ! k)"
  shows "hdrtoken_tokenize T (Text s) = int k"
proof -
  have m: "map lower s = map lower (chars (hdrtoken_strs ! k))" using assms(3) unfolding lowb_chars [symmetric] lowb_eq .
  then have h: "hdrtoken_hash s = wks_hash k" unfolding wks_hash_def hdrtoken_hash_def by (rule hash_loop_lower)
  have l: "length s = length (hdrtoken_strs ! k)" using arg_cong [OF m, of length] by (simp add: chars_def)
  have "hash_tab T (hash_to_slot (wks_hash k)) = Some (int k, wks_hash k)"
    using assms(1,2) unfolding tokens_ok_def tab_ok_def by blast
  then show ?thesis using wks_lookup(2) [OF assms(1,2)] l
    by (simp add: hdrtoken_tokenize_def h hdrtoken_index_to_prefix_def Let_def)
qed

lemma tokenize_cases:
  assumes "tokens_ok T"
  obtains "hdrtoken_tokenize T (Text s) = - 1"
  | k where "k < 128" "hdrtoken_tokenize T (Text s) = int k" "hdrtoken_hash s = wks_hash k" "length s = length (hdrtoken_strs ! k)"
proof (cases "hash_tab T (hash_to_slot (hdrtoken_hash s))")
  case None
  then have "hdrtoken_tokenize T (Text s) = - 1" by (simp add: hdrtoken_tokenize_def Let_def)
  then show thesis by (rule that(1))
next
  case (Some p)
  then obtain k where k: "k < 128" "p = (int k, wks_hash k)" using assms unfolding tokens_ok_def tab_ok_def by blast
  show thesis
  proof (cases "hdrtoken_hash s = wks_hash k \<and> length s = length (hdrtoken_strs ! k)")
    case True
    then have "hdrtoken_tokenize T (Text s) = int k"
      using Some k wks_lookup(2) [OF assms k(1)] by (simp add: hdrtoken_tokenize_def hdrtoken_index_to_prefix_def Let_def)
    then show thesis using that(2) k(1) True by blast
  next
    case False
    then have "hdrtoken_tokenize T (Text s) = - 1"
      using Some k wks_lookup(2) [OF assms k(1)] by (auto simp: hdrtoken_tokenize_def hdrtoken_index_to_prefix_def Let_def)
    then show thesis by (rule that(1))
  qed
qed

section \<open>The initialisation\<close>

lemma hdrtoken_init_ok:
  assumes "literal_re re"
  obtains T where "hdrtoken_init re = Some T" "tokens_ok T"
proof -
  obtain tab where tab: "hdrtoken_hash_init re = Some tab" "tab_ok 128 tab" by (rule hdrtoken_hash_init_ok [OF assms])
  have len: "length (put_types type_index type_initializers new_prefixes) = 128"
    by (simp add: put_types_frame new_prefixes_fields)
  have types: "set_types re type_initializers new_prefixes = Some (put_types type_index type_initializers new_prefixes)"
    by (rule set_types_put [OF assms new_prefixes_fields(1) init_names(1) init_index(1)])
  have fields: "set_fields re field_initializers (put_types type_index type_initializers new_prefixes) = Some init_prefixes"
    unfolding init_prefixes_def by (rule set_fields_put [OF assms len init_names(2) init_index(2)])
  have "hdrtoken_init re = Some \<lparr>wks_prefixes = init_prefixes, hash_tab = tab\<rparr>"
    using types fields tab(1) unfolding new_prefixes_def by (simp add: hdrtoken_init_def)
  moreover have "tokens_ok \<lparr>wks_prefixes = init_prefixes, hash_tab = tab\<rparr>"
    unfolding tokens_ok_def init_prefixes_def using tab(2)
    by (simp add: put_types_frame put_fields_frame new_prefixes_fields slot_table presence_table)
  ultimately show thesis by (rule that)
qed

lemma tokens_ok_cc:
  assumes "tokens_ok T"
  shows "tokens_ok (T\<lparr>wks_prefixes := (wks_prefixes T)[i := (wks_prefixes T ! i)\<lparr>cc_mask := m\<rparr>]\<rparr>)"
  using assms unfolding tokens_ok_def by (simp add: map_same_update)

lemma set_cc_masks_ok:
  "tokens_ok T \<Longrightarrow> map (\<lambda>x. low (fst x)) xs = map (\<lambda>i. low (hdrtoken_strs ! i)) is \<Longrightarrow> \<forall>i \<in> set is. i < 128 \<Longrightarrow>
    \<exists>T'. set_cc_masks xs T = Some T' \<and> tokens_ok T' \<and>
      (\<forall>k < 128. cc_mask (wks_prefixes T' ! k) = (case map_of (rev (zip is (map snd xs))) k of None \<Rightarrow> cc_mask (wks_prefixes T ! k) | Some m \<Rightarrow> m))"
proof (induction xs arbitrary: T "is")
  case (Cons x xs)
  obtain n m where x: "x = (n, m)" by (cases x)
  obtain i js where "is": "is = i # js" using Cons.prems(2) by (cases "is") auto
  have i: "i < 128" "hdrtoken_tokenize T (Text (chars n)) = int i"
    using Cons.prems tokenize_wks [OF Cons.prems(1), of i "chars n"] by (simp_all add: x "is" lowb_chars)
  let ?T = "T\<lparr>wks_prefixes := (wks_prefixes T)[i := (wks_prefixes T ! i)\<lparr>cc_mask := m\<rparr>]\<rparr>"
  have len: "i < length (wks_prefixes T)" using Cons.prems(1) i(1) by (simp add: tokens_ok_def)
  have "map (\<lambda>x. low (fst x)) xs = map (\<lambda>i. low (hdrtoken_strs ! i)) js" "\<forall>i \<in> set js. i < 128" using Cons.prems by (simp_all add: x "is")
  from Cons.IH [OF tokens_ok_cc [OF Cons.prems(1), of i m] this] obtain T' where
    T': "set_cc_masks xs ?T = Some T'" "tokens_ok T'" "\<forall>k < 128. cc_mask (wks_prefixes T' ! k) =
      (case map_of (rev (zip js (map snd xs))) k of None \<Rightarrow> cc_mask (wks_prefixes ?T ! k) | Some m \<Rightarrow> m)" by blast
  have "set_cc_masks (x # xs) T = Some T'" using T'(1) i(2) by (simp add: x hdrtoken_string_to_wks_def Let_def)
  moreover have "cc_mask (wks_prefixes T' ! k) = (case map_of (rev (zip is (map snd (x # xs)))) k of
      None \<Rightarrow> cc_mask (wks_prefixes T ! k) | Some m \<Rightarrow> m)" if "k < 128" for k
    using T'(3) that len by (auto simp: x "is" map_add_def nth_list_update split: option.split)
  ultimately show ?case using T'(2) by blast
qed simp

definition constant_index :: "nat list" where
  "constant_index =
    [4, 0, 1, 2, 3, 5, 6, 7, 8, 9, 10, 11, 12, 13, 14, 15, 16, 17, 18, 19, 20, 21, 22, 23, 24, 25, 26, 27, 28, 29,
     30, 31, 32, 33, 34, 35, 36, 37, 38, 39, 40, 41, 42, 44, 45, 46, 47, 48, 49, 50, 51, 52, 53, 54, 55, 56, 57, 58,
     59, 127, 60, 61, 126, 62, 63, 64, 65, 66, 67, 68, 69, 70, 124, 125, 91, 92, 9, 88, 89, 71, 72, 73, 74, 36, 75,
     76, 77, 78, 87, 79, 80, 81, 82, 83, 84, 51, 85, 86, 90]"

lemma constant_names:
  "map low (mime_field_strings @ mime_value_strings) = map (\<lambda>i. low (hdrtoken_strs ! i)) constant_index"
  by code_simp

lemma constant_indices: "\<forall>i \<in> set constant_index. i < 128"
  by (simp add: constant_index_def)

lemma wks_constants:
  assumes "tokens_ok T"
  shows "map low xs = map (\<lambda>i. low (hdrtoken_strs ! i)) is \<Longrightarrow> \<forall>i \<in> set is. i < 128 \<Longrightarrow>
    those (map (wks_constant T) xs) = Some (map (\<lambda>i. (Wks i, length (hdrtoken_strs ! i), int i)) is)"
proof (induction xs arbitrary: "is")
  case (Cons x xs)
  then obtain i js where "is": "is = i # js" "i < 128" "low x = low (hdrtoken_strs ! i)" by (cases "is") auto
  then have "hdrtoken_tokenize T (Text (chars x)) = int i" by (intro tokenize_wks [OF assms]) (simp_all add: lowb_chars)
  then have "wks_constant T x = Some (Wks i, length (hdrtoken_strs ! i), int i)"
    using wks_lookup [OF assms "is"(2)] by (simp add: wks_constant_def hdrtoken_string_to_wks_def Let_def)
  then show ?case using Cons "is" by simp
qed simp

lemma mime_init_ok:
  assumes "literal_re re" "366 * 86400 \<le> now" "now < 400000 * 86400"
  obtains T days where "tokens_ok T"
    "mime_init re now = Some (T, map (\<lambda>i. (Wks i, length (hdrtoken_strs ! i), int i)) constant_index, days)"
proof -
  obtain T where T: "hdrtoken_init re = Some T" "tokens_ok T" by (rule hdrtoken_init_ok [OF assms(1)])
  obtain k where k: "mime_init_date_format_table now = Some (table_at k)" by (rule table_now [OF assms(2,3)])
  obtain T' where T': "set_cc_masks cc_mask_table T = Some T'" "tokens_ok T'"
    using set_cc_masks_ok [OF T(2) init_names(3) init_index(3)] by blast
  have "mime_init re now = Some (T', map (\<lambda>i. (Wks i, length (hdrtoken_strs ! i), int i)) constant_index, table_at k)"
    using wks_constants [OF T(2) constant_names constant_indices] T(1) k T'(1)
    by (simp add: mime_init_def mime_init_cache_control_cooking_masks_def)
  with T'(2) show thesis by (rule that)
qed

section \<open>Properties\<close>

text \<open>
  C27. The initialisation of the header tokens succeeds: every name of its tables and every constant of
  \<open>mime_init\<close> is resolved to its own string, the hash table is built without a collision, and then every
  well-known string, spelled in any case, is found under its index; nothing is found that differs from it
  in length or in the hash.
\<close>

theorem hdrtoken_tokenize_complete:
  assumes "literal_re re" "366 * 86400 \<le> now" "now < 400000 * 86400"
  shows "\<exists>T cs days. mime_init re now = Some (T, cs, days) \<and> length cs = 99 \<and>
    (\<forall>i < 128. \<forall>s. map lower s = map lower (chars (hdrtoken_strs ! i)) \<longrightarrow> hdrtoken_tokenize T (Text s) = int i) \<and>
    (\<forall>s. hdrtoken_tokenize T (Text s) = - 1 \<or>
      (\<exists>i < 128. hdrtoken_tokenize T (Text s) = int i \<and> length s = length (hdrtoken_strs ! i) \<and>
        hdrtoken_hash s = hdrtoken_hash (chars (hdrtoken_strs ! i))))"
proof -
  obtain T days where T: "tokens_ok T"
    "mime_init re now = Some (T, map (\<lambda>i. (Wks i, length (hdrtoken_strs ! i), int i)) constant_index, days)"
    by (rule mime_init_ok [OF assms])
  have "hdrtoken_tokenize T (Text s) = int i" if "i < 128" "map lower s = map lower (chars (hdrtoken_strs ! i))" for i s
    by (rule tokenize_wks [OF T(1) that(1)]) (use that(2) in \<open>simp add: lowb_chars [symmetric] lowb_eq\<close>)
  moreover have "hdrtoken_tokenize T (Text s) = - 1 \<or> (\<exists>i < 128. hdrtoken_tokenize T (Text s) = int i \<and>
      length s = length (hdrtoken_strs ! i) \<and> hdrtoken_hash s = hdrtoken_hash (chars (hdrtoken_strs ! i)))" for s
    using tokenize_cases [OF T(1), of s] unfolding wks_hash_def by metis
  moreover have "length constant_index = 99" by (simp add: constant_index_def)
  ultimately show ?thesis using T(2) by (intro exI [of _ T]) auto
qed

lemma literal_begins: "literal_re (\<lambda>p s. begins_with s p)"
  by (simp add: literal_re_def)

lemma hdrtoken_tokenize_complete_witness:
  "\<exists>T cs days. mime_init (\<lambda>p s. begins_with s p) 1300000000 = Some (T, cs, days) \<and> length cs = 99 \<and>
    (\<forall>i < 128. \<forall>s. map lower s = map lower (chars (hdrtoken_strs ! i)) \<longrightarrow> hdrtoken_tokenize T (Text s) = int i) \<and>
    (\<forall>s. hdrtoken_tokenize T (Text s) = - 1 \<or>
      (\<exists>i < 128. hdrtoken_tokenize T (Text s) = int i \<and> length s = length (hdrtoken_strs ! i) \<and>
        hdrtoken_hash s = hdrtoken_hash (chars (hdrtoken_strs ! i))))"
  by (rule hdrtoken_tokenize_complete [OF literal_begins]) simp_all

lemma collision: "hdrtoken_hash (chars ''X-AWJIDEGGFOCA'') = hdrtoken_hash (chars (hdrtoken_strs ! 16))"
    "length (chars ''X-AWJIDEGGFOCA'') = length (hdrtoken_strs ! 16)"
    "map lower (chars ''X-AWJIDEGGFOCA'') \<noteq> map lower (chars (hdrtoken_strs ! 16))" "hdrtoken_strs ! 16 = ''Content-Length''"
  by code_simp+

text \<open>
  The lookup compares the hash and the length, but not the text: every text with the hash and the length
  of a well-known string is taken for this string. One of them is \<open>X-AWJIDEGGFOCA\<close>, which becomes the field
  \<open>Content-Length\<close>.
\<close>

theorem hdrtoken_trusts_hash:
  assumes "literal_re re" "366 * 86400 \<le> now" "now < 400000 * 86400"
  shows "\<exists>T cs days. mime_init re now = Some (T, cs, days) \<and>
    (\<forall>i < 128. \<forall>s. length s = length (hdrtoken_strs ! i) \<and> hdrtoken_hash s = hdrtoken_hash (chars (hdrtoken_strs ! i)) \<longrightarrow>
      hdrtoken_tokenize T (Text s) = int i) \<and>
    hdrtoken_tokenize T (Text (chars ''X-AWJIDEGGFOCA'')) = hdrtoken_tokenize T (Text (chars ''Content-Length'')) \<and>
    hdrtoken_tokenize T (Text (chars ''Content-Length'')) = 16 \<and>
    map lower (chars ''X-AWJIDEGGFOCA'') \<noteq> map lower (chars ''Content-Length'')"
proof -
  obtain T days where T: "tokens_ok T"
    "mime_init re now = Some (T, map (\<lambda>i. (Wks i, length (hdrtoken_strs ! i), int i)) constant_index, days)"
    by (rule mime_init_ok [OF assms])
  have all: "hdrtoken_tokenize T (Text s) = int i"
    if "i < 128" "length s = length (hdrtoken_strs ! i)" "hdrtoken_hash s = hdrtoken_hash (chars (hdrtoken_strs ! i))" for i s
  proof -
    have "hash_tab T (hash_to_slot (wks_hash i)) = Some (int i, wks_hash i)"
      using T(1) that(1) unfolding tokens_ok_def tab_ok_def by blast
    then show ?thesis using wks_lookup(2) [OF T(1) that(1)] that(2,3)
      by (simp add: hdrtoken_tokenize_def hdrtoken_index_to_prefix_def wks_hash_def Let_def)
  qed
  have "hdrtoken_tokenize T (Text (chars ''X-AWJIDEGGFOCA'')) = int 16"
    "hdrtoken_tokenize T (Text (chars ''Content-Length'')) = int 16"
    by (rule all; use collision in \<open>simp add: chars_def\<close>)+
  then show ?thesis using T(2) all collision(3,4) by (intro exI [of _ T]) auto
qed

lemma hdrtoken_trusts_hash_witness:
  "\<exists>T cs days. mime_init (\<lambda>p s. begins_with s p) 1300000000 = Some (T, cs, days) \<and>
    (\<forall>i < 128. \<forall>s. length s = length (hdrtoken_strs ! i) \<and> hdrtoken_hash s = hdrtoken_hash (chars (hdrtoken_strs ! i)) \<longrightarrow>
      hdrtoken_tokenize T (Text s) = int i) \<and>
    hdrtoken_tokenize T (Text (chars ''X-AWJIDEGGFOCA'')) = hdrtoken_tokenize T (Text (chars ''Content-Length'')) \<and>
    hdrtoken_tokenize T (Text (chars ''Content-Length'')) = 16 \<and>
    map lower (chars ''X-AWJIDEGGFOCA'') \<noteq> map lower (chars ''Content-Length'')"
  by (rule hdrtoken_trusts_hash [OF literal_begins]) simp_all

end
