(* ===== verification/MimeHdr.thy ===== *)
theory MimeHdr
  imports HdrToken
begin

unbundle bit_operations_syntax

text \<open>
  MIME headers (proxy/hdrs/MIME.cc, MIME.h, HdrUtils.cc, HdrUtils.h): the field slots in blocks of 16, the
  presence bits and slot accelerators, finding, creating, attaching, detaching and deleting fields, the
  iterator over comma separated values and the values cooked from Cache-Control and Pragma. A field is
  named by its slot number: block \<open>n div 16\<close>, slot \<open>n mod 16\<close>. The strings of the fields are their bytes: the
  string heap, its space accounting and the copying of strings are not modelled. \<open>T\<close> are the tables of
  the well-known strings. Functions return \<open>None\<close> where the code would run forever or through a null pointer.
\<close>

section \<open>Fields and headers\<close>

datatype readiness = EMPTY | DETACHED | LIVE | DELETED

abbreviation (input) MIME_FIELD_BLOCK_SLOTS :: nat where
  "MIME_FIELD_BLOCK_SLOTS \<equiv> 16"

abbreviation (input) MIME_FIELD_SLOTNUM_MASK :: u32 where
  "MIME_FIELD_SLOTNUM_MASK \<equiv> 15"

abbreviation (input) MIME_FIELD_SLOTNUM_MAX :: u32 where
  "MIME_FIELD_SLOTNUM_MAX \<equiv> 14"

abbreviation (input) MIME_FIELD_SLOTNUM_UNKNOWN :: u32 where
  "MIME_FIELD_SLOTNUM_UNKNOWN \<equiv> 14"

text \<open>
  The two flags of a field are separate components. \<open>m_raw\<close> are the bytes in memory from \<open>m_ptr_name\<close> on, as far
  as a raw printable field is printed from there.
\<close>

record mime_field =
  m_name :: bytes
  m_value :: "bytes option"
  m_next_dup :: "nat option"
  m_wks_idx :: int
  m_raw_printable :: bool
  m_raw_pad :: nat
  m_raw :: bytes
  m_readiness :: readiness
  m_dup_head :: bool
  m_cooked :: bool

record cooked_cc =
  m_mask :: u32
  m_secs_max_age :: int
  m_secs_s_maxage :: int
  m_secs_max_stale :: int
  m_secs_min_fresh :: int

record mime_hdr =
  m_presence :: u64
  m_accelerators :: "u32 list"
  m_cache_control :: cooked_cc
  m_pragma_no_cache :: bool
  m_blocks :: "mime_field list list"

abbreviation is_live :: "mime_field \<Rightarrow> bool" where
  "is_live f \<equiv> m_readiness f = LIVE"

definition fld :: "mime_hdr \<Rightarrow> nat \<Rightarrow> mime_field" where
  "fld mh n = m_blocks mh ! (n div MIME_FIELD_BLOCK_SLOTS) ! (n mod MIME_FIELD_BLOCK_SLOTS)"

definition upd_fld :: "nat \<Rightarrow> (mime_field \<Rightarrow> mime_field) \<Rightarrow> mime_hdr \<Rightarrow> mime_hdr" where
  "upd_fld n g mh =
     (let b = n div MIME_FIELD_BLOCK_SLOTS; i = n mod MIME_FIELD_BLOCK_SLOTS
      in mh\<lparr>m_blocks := (m_blocks mh)[b := (m_blocks mh ! b)[i := g (fld mh n)]]\<rparr>)"

section \<open>Presence bits and slot accelerators\<close>

definition mime_field_presence_get :: "hdr_tokens \<Rightarrow> mime_hdr \<Rightarrow> int \<Rightarrow> bool" where
  "mime_field_presence_get T mh i =
     (let mask = hdrtoken_index_to_mask T i in if mask = 0 then True else m_presence mh AND mask \<noteq> 0)"

definition mime_hdr_presence_set :: "hdr_tokens \<Rightarrow> int \<Rightarrow> mime_hdr \<Rightarrow> mime_hdr" where
  "mime_hdr_presence_set T i mh =
     (let mask = hdrtoken_index_to_mask T i in if mask \<noteq> 0 then mh\<lparr>m_presence := m_presence mh OR mask\<rparr> else mh)"

definition mime_hdr_presence_unset :: "hdr_tokens \<Rightarrow> int \<Rightarrow> mime_hdr \<Rightarrow> mime_hdr" where
  "mime_hdr_presence_unset T i mh =
     (let mask = hdrtoken_index_to_mask T i in if mask \<noteq> 0 then mh\<lparr>m_presence := m_presence mh AND NOT mask\<rparr> else mh)"

definition init_accelerators_and_presence_bits :: "mime_hdr \<Rightarrow> mime_hdr" where
  "init_accelerators_and_presence_bits mh = mh\<lparr>m_presence := 0, m_accelerators := replicate 4 0xFFFFFFFF\<rparr>"

text \<open>Four words of eight slots of four bits.\<close>

definition get_accelerator :: "mime_hdr \<Rightarrow> int \<Rightarrow> u32" where
  "get_accelerator mh slot_id =
     (let word = m_accelerators mh ! (nat slot_id div 8); nybble = nat slot_id mod 8
      in drop_bit (nybble * 4) word AND 15)"

definition set_accelerator :: "int \<Rightarrow> u32 \<Rightarrow> mime_hdr \<Rightarrow> mime_hdr" where
  "set_accelerator slot_id slot_num mh =
     (let index = nat slot_id div 8; word = m_accelerators mh ! index; shift = nat slot_id mod 8 * 4;
          mask = NOT (push_bit shift MIME_FIELD_SLOTNUM_MASK); graft = push_bit shift slot_num
      in mh\<lparr>m_accelerators := (m_accelerators mh)[index := (word AND mask) OR graft]\<rparr>)"

text \<open>Only the slots of the first block are within its array.\<close>

definition set_accelerators_and_presence_bits :: "hdr_tokens \<Rightarrow> nat \<Rightarrow> mime_hdr \<Rightarrow> mime_hdr" where
  "set_accelerators_and_presence_bits T n mh =
     (let w = m_wks_idx (fld mh n)
      in if w < 0 then mh
         else (let mh1 = mime_hdr_presence_set T w mh; slot_id = hdrtoken_index_to_slotid T w
               in if slot_id \<noteq> MIME_SLOTID_NONE
                  then (if n < 14 then set_accelerator slot_id (of_nat n) mh1
                        else set_accelerator slot_id MIME_FIELD_SLOTNUM_UNKNOWN mh1)
                  else mh1))"

definition unset_accelerators_and_presence_bits :: "hdr_tokens \<Rightarrow> nat \<Rightarrow> mime_hdr \<Rightarrow> mime_hdr" where
  "unset_accelerators_and_presence_bits T n mh =
     (let w = m_wks_idx (fld mh n)
      in if w < 0 then mh
         else (let mh1 = mime_hdr_presence_unset T w mh; slot_id = hdrtoken_index_to_slotid T w
               in if slot_id \<noteq> MIME_SLOTID_NONE then set_accelerator slot_id MIME_FIELD_SLOTNUM_MAX mh1 else mh1))"

section \<open>Creation\<close>

definition no_cooked :: cooked_cc where
  "no_cooked = \<lparr>m_mask = 0, m_secs_max_age = 0, m_secs_s_maxage = 0, m_secs_max_stale = 0, m_secs_min_fresh = 0\<rparr>"

definition MIME_WKSIDX_CACHE_CONTROL :: "hdr_tokens \<Rightarrow> int" where
  "MIME_WKSIDX_CACHE_CONTROL T = hdrtoken_tokenize T (Text (chars ''Cache-Control''))"

definition MIME_WKSIDX_PRAGMA :: "hdr_tokens \<Rightarrow> int" where
  "MIME_WKSIDX_PRAGMA T = hdrtoken_tokenize T (Text (chars ''Pragma''))"

definition mime_hdr_cooked_stuff_init :: "hdr_tokens \<Rightarrow> int option \<Rightarrow> mime_hdr \<Rightarrow> mime_hdr" where
  "mime_hdr_cooked_stuff_init T changing mh =
     (let mh1 = (if changing \<noteq> Some (MIME_WKSIDX_PRAGMA T) then mh\<lparr>m_cache_control := no_cooked\<rparr> else mh)
      in if changing \<noteq> Some (MIME_WKSIDX_CACHE_CONTROL T) then mh1\<lparr>m_pragma_no_cache := False\<rparr> else mh1)"

text \<open>The header as it is after \<open>mime_hdr_init\<close>, whatever was stored before.\<close>

definition mime_hdr_init :: mime_hdr where
  "mime_hdr_init = \<lparr>m_presence = 0, m_accelerators = replicate 4 0xFFFFFFFF, m_cache_control = no_cooked,
     m_pragma_no_cache = False, m_blocks = [[]]\<rparr>"

definition mime_hdr_fields_clear :: "mime_hdr \<Rightarrow> mime_hdr" where
  "mime_hdr_fields_clear mh = mime_hdr_init"

definition mime_field_init :: mime_field where
  "mime_field_init = \<lparr>m_name = [], m_value = None, m_next_dup = None, m_wks_idx = - 1, m_raw_printable = False, m_raw_pad = 0, m_raw = [],
     m_readiness = DETACHED, m_dup_head = False, m_cooked = False\<rparr>"

text \<open>A new block is begun when the last one is full.\<close>

definition mime_field_create :: "mime_hdr \<Rightarrow> mime_hdr \<times> nat" where
  "mime_field_create mh =
     (let bs = (if length (last (m_blocks mh)) \<ge> MIME_FIELD_BLOCK_SLOTS then m_blocks mh @ [[]] else m_blocks mh);
          n = (length bs - 1) * MIME_FIELD_BLOCK_SLOTS + length (last bs)
      in (mh\<lparr>m_blocks := butlast bs @ [last bs @ [mime_field_init]]\<rparr>, n))"

text \<open>The length of a name is stored in 16 bits.\<close>

definition mime_field_name_set :: "hdr_tokens \<Rightarrow> nat \<Rightarrow> int \<Rightarrow> bytes \<Rightarrow> mime_hdr \<Rightarrow> mime_hdr" where
  "mime_field_name_set T n w name mh =
     upd_fld n (\<lambda>f. f\<lparr>m_wks_idx := w, m_name := take (length name mod 2 ^ 16) name,
       m_cooked := (m_cooked f \<or> w = MIME_WKSIDX_CACHE_CONTROL T \<or> w = MIME_WKSIDX_PRAGMA T)\<rparr>) mh"

definition mime_field_create_named :: "hdr_tokens \<Rightarrow> hname \<Rightarrow> mime_hdr \<Rightarrow> mime_hdr \<times> nat" where
  "mime_field_create_named T name mh =
     (let (mh1, n) = mime_field_create mh
      in (mime_field_name_set T n (hdrtoken_tokenize T name) (name_text name) mh1, n))"

section \<open>Search\<close>

text \<open>The first field of the blocks from slot number \<open>n\<close> on with a property.\<close>

fun search_block :: "(mime_field \<Rightarrow> bool) \<Rightarrow> nat \<Rightarrow> mime_field list \<Rightarrow> nat option" where
  "search_block P n [] = None"
| "search_block P n (f # fs) = (if P f then Some n else search_block P (n + 1) fs)"

fun search_blocks :: "(mime_field \<Rightarrow> bool) \<Rightarrow> nat \<Rightarrow> mime_field list list \<Rightarrow> nat option" where
  "search_blocks P b [] = None"
| "search_blocks P b (fs # bs) =
     (case search_block P (b * MIME_FIELD_BLOCK_SLOTS) fs of Some n \<Rightarrow> Some n | None \<Rightarrow> search_blocks P (b + 1) bs)"

definition search_by_wks :: "mime_hdr \<Rightarrow> int \<Rightarrow> nat option" where
  "search_by_wks mh w = search_blocks (\<lambda>f. is_live f \<and> m_wks_idx f = w) 0 (m_blocks mh)"

text \<open>\<open>strncasecmp\<close> of two texts of the same length: the comparison ends at a common NUL.\<close>

fun strncase_eq :: "bytes \<Rightarrow> bytes \<Rightarrow> bool" where
  "strncase_eq (a # s) (b # t) \<longleftrightarrow> toupper a = toupper b \<and> (a = 0 \<or> strncase_eq s t)"
| "strncase_eq s t \<longleftrightarrow> True"

definition search_by_string :: "mime_hdr \<Rightarrow> bytes \<Rightarrow> nat option" where
  "search_by_string mh s =
     search_blocks (\<lambda>f. is_live f \<and> length s = length (m_name f) \<and> strncase_eq (m_name f) s) 0 (m_blocks mh)"

definition search_by_slotnum :: "mime_hdr \<Rightarrow> nat \<Rightarrow> nat option" where
  "search_by_slotnum mh n =
     (let b = n div MIME_FIELD_BLOCK_SLOTS; i = n mod MIME_FIELD_BLOCK_SLOTS
      in if b \<ge> length (m_blocks mh) \<or> i \<ge> length (m_blocks mh ! b) then None else Some n)"

definition mime_hdr_field_find :: "hdr_tokens \<Rightarrow> mime_hdr \<Rightarrow> hname \<Rightarrow> nat option" where
  "mime_hdr_field_find T mh name =
     (case name of
        Wks i \<Rightarrow>
          (let p = wks_prefixes T ! i; slot_id = wks_slotid p; slotnum = get_accelerator mh slot_id
           in if wks_mask p \<noteq> 0 \<and> m_presence mh AND wks_mask p = 0 then None
              else if slot_id \<noteq> MIME_SLOTID_NONE \<and> slotnum \<noteq> MIME_FIELD_SLOTNUM_UNKNOWN
              then search_by_slotnum mh (unat slotnum)
              else search_by_wks mh (wks_idx p))
      | Text s \<Rightarrow> search_by_string mh s)"

text \<open>The name that \<open>mime_field_name_get\<close> returns.\<close>

definition mime_field_name_get :: "mime_field \<Rightarrow> hname" where
  "mime_field_name_get f = (if m_wks_idx f \<ge> 0 then Wks (nat (m_wks_idx f)) else Text (m_name f))"

fun count_live :: "mime_field list \<Rightarrow> nat" where
  "count_live [] = 0"
| "count_live (f # fs) = (if is_live f then count_live fs + 1 else count_live fs)"

definition mime_hdr_fields_count :: "mime_hdr \<Rightarrow> nat" where
  "mime_hdr_fields_count mh = sum_list (map count_live (m_blocks mh))"

section \<open>Comma separated values\<close>

text \<open>
  \<open>find_csv\<close> walks over a value in three states, \<open>skip_leading_whitespace\<close>, \<open>parse_value\<close> and
  \<open>parse_value_quote\<close>. The results are \<open>csv_start\<close>, \<open>last_data\<close> and \<open>cur\<close>.
\<close>

datatype csv_state = Skip_ws | Parse_value | Parse_quote

function csv_scan :: "bytes \<Rightarrow> u8 \<Rightarrow> csv_state \<Rightarrow> nat \<Rightarrow> nat option \<Rightarrow> nat option \<Rightarrow> nat option \<times> nat option \<times> nat" where
  "csv_scan v sep st cur start ld =
     (if cur \<ge> length v then (start, ld, cur)
      else (let c = v ! cur
            in case st of
                 Skip_ws \<Rightarrow>
                   if is_cls C_ws c then csv_scan v sep Skip_ws (cur + 1) start ld
                   else csv_scan v sep Parse_value cur (Some cur) ld
               | Parse_value \<Rightarrow>
                   if sep = of_char (CHR '','') \<and> cur < length v - 1 \<and> sint c > 44
                   then csv_scan v sep Parse_value (cur + 1) start (Some cur)
                   else if c = sep then (start, ld, cur)
                   else if c = of_char (CHR ''\"'')
                   then csv_scan v sep Parse_quote (cur + 1) (if start = Some cur then Some (cur + 1) else start) ld
                   else csv_scan v sep Parse_value (cur + 1) start (if is_cls C_ws c then ld else Some cur)
               | Parse_quote \<Rightarrow>
                   if c = of_char (CHR ''\"'') \<and> v ! (cur - 1) \<noteq> of_char (CHR 0x5C)
                   then csv_scan v sep Parse_value (cur + 1) start ld
                   else csv_scan v sep Parse_quote (cur + 1) start (Some cur)))"
  by pat_completeness auto
termination
  by (relation "measure (\<lambda>(v, sep, st, cur, _). 2 * (length v - cur) + (if st = Skip_ws then 1 else 0))") auto

declare csv_scan.simps [simp del]

text \<open>The iterator: the field, \<open>m_csv_start\<close>, \<open>m_csv_len\<close> and \<open>m_csv_end\<close>, as offsets into the value.\<close>

record csv_iter =
  m_cur_field :: nat
  m_csv_start :: "nat option"
  m_csv_len :: int
  m_csv_end :: nat

definition value_bytes :: "mime_field \<Rightarrow> bytes" where
  "value_bytes f = (case m_value f of None \<Rightarrow> [] | Some v \<Rightarrow> v)"

partial_function (option) find_csv :: "mime_hdr \<Rightarrow> u8 \<Rightarrow> bool \<Rightarrow> nat \<Rightarrow> nat \<Rightarrow> csv_iter option" where
  "find_csv mh sep follow_dups f cur =
     (let (start, lst, e) = csv_scan (value_bytes (fld mh f)) sep Skip_ws cur None None
      in case lst of
           Some l \<Rightarrow> Some \<lparr>m_cur_field = f, m_csv_start = start, m_csv_len = int l - int (the start) + 1, m_csv_end = e\<rparr>
         | None \<Rightarrow>
             (case m_next_dup (fld mh f) of
                Some d \<Rightarrow>
                  if follow_dups then find_csv mh sep follow_dups d 0
                  else Some \<lparr>m_cur_field = f, m_csv_start = start, m_csv_len = 0, m_csv_end = e\<rparr>
              | None \<Rightarrow> Some \<lparr>m_cur_field = f, m_csv_start = start, m_csv_len = 0, m_csv_end = e\<rparr>))"

definition csv_get_first :: "mime_hdr \<Rightarrow> u8 \<Rightarrow> bool \<Rightarrow> nat \<Rightarrow> csv_iter option" where
  "csv_get_first mh sep follow_dups f =
     (if m_value (fld mh f) \<noteq> None then find_csv mh sep follow_dups f 0
      else Some \<lparr>m_cur_field = f, m_csv_start = None, m_csv_len = 0, m_csv_end = 0\<rparr>)"

definition csv_get_next :: "mime_hdr \<Rightarrow> u8 \<Rightarrow> bool \<Rightarrow> csv_iter \<Rightarrow> csv_iter option" where
  "csv_get_next mh sep follow_dups it =
     (if m_csv_start it \<noteq> None then find_csv mh sep follow_dups (m_cur_field it) (m_csv_end it + 1) else Some it)"

definition csv_text :: "mime_hdr \<Rightarrow> csv_iter \<Rightarrow> bytes" where
  "csv_text mh it = take (nat (m_csv_len it)) (drop (the (m_csv_start it)) (value_bytes (fld mh (m_cur_field it))))"

text \<open>The values that \<open>for (s = get_first(field, &len); s != NULL; s = get_next(&len))\<close> visits.\<close>

partial_function (option) csv_rest :: "mime_hdr \<Rightarrow> u8 \<Rightarrow> csv_iter \<Rightarrow> bytes list option" where
  "csv_rest mh sep it =
     (if m_csv_start it = None then Some []
      else do { it' \<leftarrow> csv_get_next mh sep True it;
                vs \<leftarrow> csv_rest mh sep it';
                Some (csv_text mh it # vs) })"

definition csv_values :: "mime_hdr \<Rightarrow> u8 \<Rightarrow> nat \<Rightarrow> bytes list option" where
  "csv_values mh sep f = Option.bind (csv_get_first mh sep True f) (csv_rest mh sep)"

section \<open>Cooked values\<close>

text \<open>\<open>ptr_len_casecmp\<close> of two texts with lengths.\<close>

fun casecmp_loop :: "bytes \<Rightarrow> bytes \<Rightarrow> bool" where
  "casecmp_loop (a # s) (b # t) \<longleftrightarrow> ink_tolower a = ink_tolower b \<and> casecmp_loop s t"
| "casecmp_loop s t \<longleftrightarrow> True"

definition ptr_len_caseeq :: "bytes \<Rightarrow> bytes \<Rightarrow> bool" where
  "ptr_len_caseeq s t \<longleftrightarrow> length s = length t \<and> casecmp_loop s t"

definition wks_is :: "hdr_tokens \<Rightarrow> int \<Rightarrow> string \<Rightarrow> bool" where
  "wks_is T i n \<longleftrightarrow> i = hdrtoken_tokenize T (Text (chars n))"

text \<open>One value of Cache-Control.\<close>

definition cook_value :: "hdr_tokens \<Rightarrow> bytes \<Rightarrow> cooked_cc \<Rightarrow> cooked_cc" where
  "cook_value T s cc =
     (let tok = takeWhile (is_cls C_token) s; rest = dropWhile (is_cls C_token) s; i = hdrtoken_tokenize T (Text tok)
      in if i < 0 then cc
         else (let mask = cc_mask (wks_prefixes T ! nat i); cc1 = cc\<lparr>m_mask := m_mask cc OR mask\<rparr>
               in if mask AND (MIME_COOKED_MASK_CC_MAX_AGE OR MIME_COOKED_MASK_CC_S_MAXAGE OR
                     MIME_COOKED_MASK_CC_MAX_STALE OR MIME_COOKED_MASK_CC_MIN_FRESH) \<noteq> 0
                  then (case mime_parse_integer rest of
                          Some (_, v) \<Rightarrow>
                            if wks_is T i ''max-age'' then cc1\<lparr>m_secs_max_age := v\<rparr>
                            else if wks_is T i ''min-fresh'' then cc1\<lparr>m_secs_min_fresh := v\<rparr>
                            else if wks_is T i ''max-stale'' then cc1\<lparr>m_secs_max_stale := v\<rparr>
                            else if wks_is T i ''s-maxage'' then cc1\<lparr>m_secs_s_maxage := v\<rparr>
                            else cc1
                        | None \<Rightarrow> if wks_is T i ''max-stale'' then cc1\<lparr>m_secs_max_stale := 2 ^ 31 - 1\<rparr> else cc1)
                  else cc1))"

definition cook_cache_control :: "hdr_tokens \<Rightarrow> mime_hdr \<Rightarrow> mime_hdr option" where
  "cook_cache_control T mh =
     (case mime_hdr_field_find T mh (Wks (nat (MIME_WKSIDX_CACHE_CONTROL T))) of
        None \<Rightarrow> Some mh
      | Some f \<Rightarrow>
          (let cc = m_cache_control mh; s = value_bytes (fld mh f)
           in if m_next_dup (fld mh f) = None \<and> ptr_len_caseeq s (chars ''public'')
              then Some (mh\<lparr>m_cache_control := cc\<lparr>m_mask := m_mask cc OR MIME_COOKED_MASK_CC_PUBLIC\<rparr>\<rparr>)
              else if m_next_dup (fld mh f) = None \<and> ptr_len_caseeq s (chars ''private,no-cache'')
              then Some (mh\<lparr>m_cache_control :=
                     cc\<lparr>m_mask := m_mask cc OR (MIME_COOKED_MASK_CC_PRIVATE OR MIME_COOKED_MASK_CC_NO_CACHE)\<rparr>\<rparr>)
              else map_option (\<lambda>vs. mh\<lparr>m_cache_control := fold (cook_value T) vs cc\<rparr>)
                     (csv_values mh (of_char (CHR '','')) f)))"

definition cook_pragma :: "hdr_tokens \<Rightarrow> mime_hdr \<Rightarrow> mime_hdr option" where
  "cook_pragma T mh =
     (case mime_hdr_field_find T mh (Wks (nat (MIME_WKSIDX_PRAGMA T))) of
        None \<Rightarrow> Some mh
      | Some f \<Rightarrow>
          (if m_next_dup (fld mh f) = None \<and> ptr_len_caseeq (value_bytes (fld mh f)) (chars ''no-cache'')
           then Some (mh\<lparr>m_pragma_no_cache := True\<rparr>)
           else map_option
                  (\<lambda>vs. if \<exists>s \<in> set vs. hdrtoken_tokenize T (Text (takeWhile (is_cls C_token) s)) \<ge> 0 \<and>
                              wks_is T (hdrtoken_tokenize T (Text (takeWhile (is_cls C_token) s))) ''no-cache''
                        then mh\<lparr>m_pragma_no_cache := True\<rparr> else mh)
                  (csv_values mh (of_char (CHR '','')) f)))"

definition recompute_cooked_stuff :: "hdr_tokens \<Rightarrow> int option \<Rightarrow> mime_hdr \<Rightarrow> mime_hdr option" where
  "recompute_cooked_stuff T changing mh =
     (let mh1 = mime_hdr_cooked_stuff_init T changing mh
      in do { mh2 \<leftarrow> (if changing \<noteq> Some (MIME_WKSIDX_PRAGMA T) then cook_cache_control T mh1 else Some mh1);
              if changing \<noteq> Some (MIME_WKSIDX_CACHE_CONTROL T) then cook_pragma T mh2 else Some mh2 })"

section \<open>Attaching and detaching\<close>

definition mime_hdr_field_slotnum :: "mime_hdr \<Rightarrow> nat \<Rightarrow> int" where
  "mime_hdr_field_slotnum mh n = (if n div MIME_FIELD_BLOCK_SLOTS < length (m_blocks mh) then int n else - 1)"

text \<open>The walk along the dup list to the place of the field in slot \<open>fs\<close>; \<open>next_slotnum\<close> is not updated.\<close>

partial_function (option) attach_walk ::
  "mime_hdr \<Rightarrow> int \<Rightarrow> nat \<Rightarrow> int \<Rightarrow> nat option \<Rightarrow> int \<Rightarrow> (nat \<times> int \<times> nat option) option" where
  "attach_walk mh field_slotnum prev_dup prev_slotnum next_dup next_slotnum =
     (if prev_slotnum < field_slotnum
      then (case next_dup of
              None \<Rightarrow> Some (prev_dup, prev_slotnum, next_dup)
            | Some d \<Rightarrow>
                if next_slotnum > field_slotnum then Some (prev_dup, prev_slotnum, next_dup)
                else attach_walk mh field_slotnum d next_slotnum (m_next_dup (fld mh d)) next_slotnum)
      else Some (prev_dup, prev_slotnum, next_dup))"

definition link_dup :: "hdr_tokens \<Rightarrow> nat \<Rightarrow> nat \<Rightarrow> mime_hdr \<Rightarrow> mime_hdr option" where
  "link_dup T n q mh =
     (let fs = mime_hdr_field_slotnum mh n; nd = m_next_dup (fld mh q);
          ns = (case nd of Some d \<Rightarrow> mime_hdr_field_slotnum mh d | None \<Rightarrow> - 1)
      in map_option
           (\<lambda>(prev_dup, prev_slotnum, next_dup).
              if prev_slotnum > fs
              then set_accelerators_and_presence_bits T n
                     (upd_fld prev_dup (\<lambda>g. g\<lparr>m_dup_head := False\<rparr>)
                       (upd_fld n (\<lambda>g. g\<lparr>m_dup_head := True, m_next_dup := Some prev_dup\<rparr>) mh))
              else upd_fld n (\<lambda>g. g\<lparr>m_next_dup := next_dup\<rparr>)
                     (upd_fld prev_dup (\<lambda>g. g\<lparr>m_next_dup := Some n\<rparr>)
                       (upd_fld n (\<lambda>g. g\<lparr>m_dup_head := False\<rparr>) mh)))
           (attach_walk mh fs q (mime_hdr_field_slotnum mh q) nd ns))"

definition mime_hdr_field_attach :: "hdr_tokens \<Rightarrow> nat \<Rightarrow> bool \<Rightarrow> nat option \<Rightarrow> mime_hdr \<Rightarrow> mime_hdr option" where
  "mime_hdr_field_attach T n check_for_dups prev mh =
     (if m_readiness (fld mh n) \<noteq> DETACHED then Some mh
      else (let prev_dup = (if check_for_dups \<or> (case prev of Some q \<Rightarrow> \<not> m_dup_head (fld mh q) | None \<Rightarrow> False)
                            then mime_hdr_field_find T mh (mime_field_name_get (fld mh n)) else prev);
                mh1 = upd_fld n (\<lambda>g. g\<lparr>m_readiness := LIVE\<rparr>) mh
            in do { mh2 \<leftarrow> (case prev_dup of
                             Some q \<Rightarrow> link_dup T n q mh1
                           | None \<Rightarrow> Some (set_accelerators_and_presence_bits T n (upd_fld n (\<lambda>g. g\<lparr>m_dup_head := True\<rparr>) mh1)));
                    let f = fld mh2 n;
                    if m_value f \<noteq> None \<and> m_cooked f then recompute_cooked_stuff T (Some (m_wks_idx f)) mh2 else Some mh2 }))"

text \<open>The predecessor in the dup list; \<open>None\<close> at its end is a null pointer.\<close>

partial_function (option) find_prev :: "mime_hdr \<Rightarrow> nat \<Rightarrow> nat option \<Rightarrow> nat option" where
  "find_prev mh n q =
     (case q of None \<Rightarrow> None | Some p \<Rightarrow> if m_next_dup (fld mh p) \<noteq> Some n then find_prev mh n (m_next_dup (fld mh p)) else Some p)"

definition unlink_dup :: "hdr_tokens \<Rightarrow> nat \<Rightarrow> mime_hdr \<Rightarrow> mime_hdr option" where
  "unlink_dup T n mh =
     (let f = fld mh n; next_dup = m_next_dup f
      in if m_dup_head f
         then (case next_dup of
                 None \<Rightarrow> Some (unset_accelerators_and_presence_bits T n mh)
               | Some d \<Rightarrow> Some (set_accelerators_and_presence_bits T d (upd_fld d (\<lambda>g. g\<lparr>m_dup_head := True\<rparr>) mh)))
         else map_option (\<lambda>p. upd_fld p (\<lambda>g. g\<lparr>m_next_dup := next_dup\<rparr>) mh)
                (find_prev mh n (mime_hdr_field_find T mh (mime_field_name_get f))))"

definition detach_field :: "hdr_tokens \<Rightarrow> nat \<Rightarrow> mime_hdr \<Rightarrow> mime_hdr option" where
  "detach_field T n mh =
     do { mh1 \<leftarrow> unlink_dup T n mh;
          let mh2 = upd_fld n (\<lambda>g. g\<lparr>m_readiness := DETACHED, m_next_dup := None\<rparr>) mh1;
          let f = fld mh2 n;
          if m_cooked f then recompute_cooked_stuff T (Some (m_wks_idx f)) mh2 else Some mh2 }"

partial_function (option) mime_hdr_field_detach :: "hdr_tokens \<Rightarrow> nat \<Rightarrow> bool \<Rightarrow> mime_hdr \<Rightarrow> mime_hdr option" where
  "mime_hdr_field_detach T n detach_all_dups mh =
     Option.bind (detach_field T n mh) (\<lambda>mh1.
       case m_next_dup (fld mh n) of
         Some d \<Rightarrow> if detach_all_dups then mime_hdr_field_detach T d detach_all_dups mh1 else Some mh1
       | None \<Rightarrow> Some mh1)"

definition mime_field_destroy :: "nat \<Rightarrow> mime_hdr \<Rightarrow> mime_hdr" where
  "mime_field_destroy n mh = upd_fld n (\<lambda>g. g\<lparr>m_readiness := DELETED\<rparr>) mh"

partial_function (option) delete_dups :: "hdr_tokens \<Rightarrow> nat option \<Rightarrow> mime_hdr \<Rightarrow> mime_hdr option" where
  "delete_dups T q mh =
     (case q of
        None \<Rightarrow> Some mh
      | Some n \<Rightarrow>
          Option.bind (mime_hdr_field_detach T n False mh) (\<lambda>mh1.
            delete_dups T (m_next_dup (fld mh n)) (mime_field_destroy n mh1)))"

definition mime_hdr_field_delete :: "hdr_tokens \<Rightarrow> nat \<Rightarrow> bool \<Rightarrow> mime_hdr \<Rightarrow> mime_hdr option" where
  "mime_hdr_field_delete T n delete_all_dups mh =
     (if delete_all_dups then delete_dups T (Some n) mh
      else map_option (mime_field_destroy n) (mime_hdr_field_detach T n False mh))"

section \<open>Values\<close>

text \<open>The length of a value is stored in 24 bits.\<close>

definition mime_field_value_set :: "hdr_tokens \<Rightarrow> nat \<Rightarrow> bytes \<Rightarrow> mime_hdr \<Rightarrow> mime_hdr option" where
  "mime_field_value_set T n v mh =
     (let mh1 = upd_fld n (\<lambda>g. g\<lparr>m_value := Some (take (length v mod 2 ^ 24) v), m_raw_printable := False\<rparr>) mh; f = fld mh1 n
      in if is_live f \<and> m_cooked f then recompute_cooked_stuff T (Some (m_wks_idx f)) mh1 else Some mh1)"

text \<open>A field whose strings are used in place, as the parser sets it: \<open>raw\<close> are the \<open>n_v_raw_length\<close> bytes from the name on.\<close>

definition mime_field_name_value_set ::
  "hdr_tokens \<Rightarrow> nat \<Rightarrow> int \<Rightarrow> bytes \<Rightarrow> bytes \<Rightarrow> bool \<Rightarrow> bytes \<Rightarrow> mime_hdr \<Rightarrow> mime_hdr option" where
  "mime_field_name_value_set T n w name v printable raw mh =
     (let pad = length raw - (length name + length v);
          ok = (printable \<and> length name + length v \<le> length raw \<and> pad \<le> 7);
          mh1 = upd_fld n (\<lambda>g. g\<lparr>m_wks_idx := w, m_name := take (length name mod 2 ^ 16) name,
                  m_value := Some (take (length v mod 2 ^ 24) v),
                  m_raw_printable := ok, m_raw_pad := (if ok then pad else m_raw_pad g), m_raw := raw,
                  m_cooked := (m_cooked g \<or> w = MIME_WKSIDX_CACHE_CONTROL T \<or> w = MIME_WKSIDX_PRAGMA T)\<rparr>) mh;
          f = fld mh1 n
      in if is_live f \<and> m_cooked f then recompute_cooked_stuff T (Some (m_wks_idx f)) mh1 else Some mh1)"

definition mime_hdr_prepare_for_value_set :: "hdr_tokens \<Rightarrow> hname \<Rightarrow> mime_hdr \<Rightarrow> (mime_hdr \<times> nat) option" where
  "mime_hdr_prepare_for_value_set T name mh =
     (case mime_hdr_field_find T mh name of
        None \<Rightarrow>
          (let (mh1, n) = mime_field_create mh;
               mh2 = mime_field_name_set T n (hdrtoken_tokenize T name) (name_text name) mh1
           in map_option (\<lambda>mh3. (mh3, n)) (mime_hdr_field_attach T n False None mh2))
      | Some f \<Rightarrow>
          (if m_next_dup (fld mh f) \<noteq> None
           then do { mh1 \<leftarrow> mime_hdr_field_delete T f True mh;
                     let (mh2, n) = mime_field_create mh1;
                     let mh3 = mime_field_name_set T n (m_wks_idx (fld mh f)) (name_text name) mh2;
                     mh4 \<leftarrow> mime_hdr_field_attach T n False None mh3;
                     Some (mh4, n) }
           else Some (mh, f)))"

text \<open>The length of the printed header.\<close>

definition mime_field_length_get :: "mime_field \<Rightarrow> nat" where
  "mime_field_length_get f =
     (if m_raw_printable f then length (m_name f) + length (value_bytes f) + m_raw_pad f
      else length (m_name f) + length (value_bytes f) + 4)"

definition mime_hdr_length_get :: "mime_hdr \<Rightarrow> nat" where
  "mime_hdr_length_get mh =
     2 + sum_list (map (\<lambda>fs. sum_list (map (\<lambda>f. if is_live f then mime_field_length_get f else 0) fs)) (m_blocks mh))"

declare find_csv.simps [code] csv_rest.simps [code] attach_walk.simps [code] find_prev.simps [code]
  mime_hdr_field_detach.simps [code] delete_dups.simps [code]

end
