(* ===== verification/MimeHdrInv.thy ===== *)
theory MimeHdrInv
  imports MimeHdr HdrTokenSpec
begin

unbundle bit_operations_syntax

text \<open>
  The invariant of a header: its slots are a list of fields (blocks of 16), every live field is linked to the next
  live field of the same name, the first of them is marked, presence bits and accelerators agree with the slots.
  Finding a field is the linear search, the iterator over values and the cooking of values return.
\<close>

section \<open>Slots\<close>

definition slots :: "mime_hdr \<Rightarrow> mime_field list" where
  "slots mh = concat (m_blocks mh)"

definition blocks_ok :: "'a list list \<Rightarrow> bool" where
  "blocks_ok bs \<longleftrightarrow> bs \<noteq> [] \<and> (\<forall>b \<in> set (butlast bs). length b = 16) \<and> length (last bs) \<le> 16"

lemma blocks_ok_Cons: "blocks_ok (b # bs) \<longleftrightarrow> (if bs = [] then length b \<le> 16 else length b = 16 \<and> blocks_ok bs)"
  by (auto simp: blocks_ok_def)

lemma blocks_nth:
  "blocks_ok bs \<Longrightarrow> n < length (concat bs) \<Longrightarrow>
    n div 16 < length bs \<and> n mod 16 < length (bs ! (n div 16)) \<and> bs ! (n div 16) ! (n mod 16) = concat bs ! n"
proof (induction bs arbitrary: n)
  case (Cons b bs)
  show ?case
  proof (cases "n < length b")
    case True
    then have "n < 16" using Cons.prems(1) by (auto simp: blocks_ok_Cons split: if_splits)
    then show ?thesis using True by (simp add: nth_append)
  next
    case False
    then have b: "length b = 16" "blocks_ok bs" "bs \<noteq> []" using Cons.prems by (auto simp: blocks_ok_Cons split: if_splits)
    define m where "m = n - 16"
    have n: "n = m + 16" using False b(1) by (simp add: m_def)
    have "m < length (concat bs)" using Cons.prems(2) b(1) by (simp add: n)
    moreover have "n div 16 = Suc (m div 16)" "n mod 16 = m mod 16" by (simp_all add: n)
    ultimately show ?thesis using Cons.IH [OF b(2), of m] b(1) by (simp add: nth_append) (simp add: n)
  qed
qed simp

lemma concat_update:
  "i < length bs \<Longrightarrow> j < length (bs ! i) \<Longrightarrow>
    concat (bs[i := (bs ! i)[j := x]]) = (concat bs)[length (concat (take i bs)) + j := x]"
proof (induction bs arbitrary: i)
  case (Cons b bs)
  then show ?case by (cases i) (simp_all add: list_update_append)
qed simp

lemma blocks_before: "blocks_ok bs \<Longrightarrow> i < length bs \<Longrightarrow> length (concat (take i bs)) = 16 * i"
proof (induction bs arbitrary: i)
  case (Cons b bs)
  show ?case
  proof (cases i)
    case (Suc j)
    then have "bs \<noteq> []" using Cons.prems(2) by auto
    then show ?thesis using Cons Suc by (simp add: blocks_ok_Cons)
  qed simp
qed simp

lemma blocks_update:
  assumes "blocks_ok bs" "n < length (concat bs)"
  shows "concat (bs[n div 16 := (bs ! (n div 16))[n mod 16 := x]]) = (concat bs)[n := x]"
    "blocks_ok (bs[n div 16 := (bs ! (n div 16))[n mod 16 := x]])"
proof -
  have n: "n div 16 < length bs" "n mod 16 < length (bs ! (n div 16))" using blocks_nth [OF assms] by simp_all
  show "concat (bs[n div 16 := (bs ! (n div 16))[n mod 16 := x]]) = (concat bs)[n := x]"
    using concat_update [OF n, of x] blocks_before [OF assms(1) n(1)] by simp
  have len: "map length (bs[n div 16 := (bs ! (n div 16))[n mod 16 := x]]) = map length bs"
    by (rule map_same_update) simp
  have lens: "blocks_ok cs \<longleftrightarrow> map length cs \<noteq> [] \<and> (\<forall>l \<in> set (butlast (map length cs)). l = 16) \<and> last (map length cs) \<le> 16"
    for cs :: "'a list list"
    by (auto simp: blocks_ok_def map_butlast [symmetric] last_map)
  show "blocks_ok (bs[n div 16 := (bs ! (n div 16))[n mod 16 := x]])"
    using assms(1) unfolding lens [of bs] lens [of "bs[n div 16 := (bs ! (n div 16))[n mod 16 := x]]"] len .
qed

definition shape :: "mime_hdr \<Rightarrow> bool" where
  "shape mh \<longleftrightarrow> blocks_ok (m_blocks mh) \<and> length (m_accelerators mh) = 4"

lemma fld_slots: "shape mh \<Longrightarrow> n < length (slots mh) \<Longrightarrow> fld mh n = slots mh ! n"
  using blocks_nth [of "m_blocks mh" n] by (simp add: shape_def slots_def fld_def)

lemma slots_upd [simp]:
  "shape mh \<Longrightarrow> n < length (slots mh) \<Longrightarrow> slots (upd_fld n g mh) = (slots mh)[n := g (slots mh ! n)]"
  "shape mh \<Longrightarrow> n < length (slots mh) \<Longrightarrow> shape (upd_fld n g mh)"
  "m_presence (upd_fld n g mh) = m_presence mh" "m_accelerators (upd_fld n g mh) = m_accelerators mh"
  using blocks_update [of "m_blocks mh" n "g (slots mh ! n)"]
  by (simp_all add: shape_def slots_def upd_fld_def Let_def fld_slots [unfolded slots_def shape_def])

lemma length_concat_16: "\<forall>b \<in> set bs. length b = 16 \<Longrightarrow> length (concat bs) = 16 * length bs"
  by (induction bs) auto

lemma create_slots:
  assumes "shape mh" "mime_field_create mh = (mh', n)"
  shows "n = length (slots mh)" "slots mh' = slots mh @ [mime_field_init]" "shape mh'"
    "m_presence mh' = m_presence mh" "m_accelerators mh' = m_accelerators mh"
proof -
  let ?bs = "m_blocks mh"
  define cs where "cs = (if length (last ?bs) \<ge> 16 then ?bs @ [[]] else ?bs)"
  have ok: "blocks_ok ?bs" using assms(1) by (simp add: shape_def)
  have cs: "blocks_ok cs" "length (last cs) < 16" "concat cs = concat ?bs"
  proof -
    have last: "length (last ?bs) = 16 \<Longrightarrow> \<forall>b \<in> set ?bs. length b = 16"
      using ok unfolding blocks_ok_def by (metis append_butlast_last_id in_set_butlastD rotate1.simps(2) set_ConsD set_rotate1)
    then show "blocks_ok cs" "length (last cs) < 16" "concat cs = concat ?bs"
      using ok by (auto simp: cs_def blocks_ok_def)
  qed
  have mh': "mh' = mh\<lparr>m_blocks := butlast cs @ [last cs @ [mime_field_init]]\<rparr>" "n = (length cs - 1) * 16 + length (last cs)"
    using assms(2) by (simp_all add: mime_field_create_def cs_def Let_def)
  have cat: "concat cs = concat (butlast cs) @ last cs"
    using cs(1) unfolding blocks_ok_def by (metis append_butlast_last_id concat.simps concat_append append_Nil2)
  have len: "length (concat cs) = (length cs - 1) * 16 + length (last cs)"
    using cs(1) by (simp add: cat length_concat_16 blocks_ok_def)
  show "n = length (slots mh)" using len cs(3) by (simp add: mh' slots_def)
  have "concat (butlast cs @ [last cs @ [mime_field_init]]) = concat cs @ [mime_field_init]" by (simp add: cat)
  then show "slots mh' = slots mh @ [mime_field_init]" by (simp add: mh' slots_def cs(3))
  show "shape mh'" using assms(1) cs by (auto simp: mh' shape_def blocks_ok_def)
  show "m_presence mh' = m_presence mh" "m_accelerators mh' = m_accelerators mh" by (simp_all add: mh')
qed

section \<open>Search\<close>

lemma search_block_append:
  "search_block P n (xs @ ys) = (case search_block P n xs of Some k \<Rightarrow> Some k | None \<Rightarrow> search_block P (n + length xs) ys)"
  by (induction xs arbitrary: n) (auto split: option.split)

lemma search_blocks_concat: "blocks_ok bs \<Longrightarrow> search_blocks P b bs = search_block P (b * 16) (concat bs)"
proof (induction bs arbitrary: b)
  case (Cons c bs)
  show ?case
  proof (cases "bs = []")
    case True
    then show ?thesis by (auto split: option.split)
  next
    case False
    then have "length c = 16" "blocks_ok bs" using Cons.prems by (simp_all add: blocks_ok_Cons)
    then show ?thesis using Cons.IH by (auto simp: search_block_append add.commute split: option.split)
  qed
qed simp

text \<open>The first slot from \<open>k\<close> on with a property.\<close>

definition first_from :: "nat \<Rightarrow> (mime_field \<Rightarrow> bool) \<Rightarrow> mime_field list \<Rightarrow> nat option" where
  "first_from k P xs = search_block P k (drop k xs)"

lemma search_block_Some: "search_block P n xs = Some k \<Longrightarrow> n \<le> k \<and> k < n + length xs \<and> P (xs ! (k - n)) \<and> (\<forall>j < k - n. \<not> P (xs ! j))"
proof (induction xs arbitrary: n)
  case (Cons x xs)
  show ?case
  proof (cases "P x")
    case False
    then have "search_block P (n + 1) xs = Some k" using Cons.prems by simp
    from Cons.IH [OF this] have k: "Suc n \<le> k" "k < Suc n + length xs" "P (xs ! (k - Suc n))" "\<forall>j < k - Suc n. \<not> P (xs ! j)"
      by simp_all
    then have "k - n = Suc (k - Suc n)" by simp
    then show ?thesis using k False by (auto simp: less_Suc_eq_0_disj)
  qed (use Cons.prems in auto)
qed simp

lemma search_block_None: "search_block P n xs = None \<longleftrightarrow> (\<forall>x \<in> set xs. \<not> P x)"
  by (induction xs arbitrary: n) auto

lemma in_set_drop: "x \<in> set (drop k xs) \<longleftrightarrow> (\<exists>j. k \<le> j \<and> j < length xs \<and> xs ! j = x)"
proof
  assume "x \<in> set (drop k xs)"
  then obtain i where "i < length (drop k xs)" "drop k xs ! i = x" by (auto simp: in_set_conv_nth)
  then show "\<exists>j. k \<le> j \<and> j < length xs \<and> xs ! j = x" by (intro exI [of _ "k + i"]) auto
next
  assume "\<exists>j. k \<le> j \<and> j < length xs \<and> xs ! j = x"
  then obtain j where "k \<le> j" "j < length xs" "xs ! j = x" by blast
  then have "j - k < length (drop k xs)" "drop k xs ! (j - k) = x" by auto
  then show "x \<in> set (drop k xs)" by (metis nth_mem)
qed

lemma first_from_Some:
  "first_from k P xs = Some n \<longleftrightarrow> k \<le> n \<and> n < length xs \<and> P (xs ! n) \<and> (\<forall>j. k \<le> j \<and> j < n \<longrightarrow> \<not> P (xs ! j))"
proof -
  have dir: "k \<le> n \<and> n < length xs \<and> P (xs ! n) \<and> (\<forall>j. k \<le> j \<and> j < n \<longrightarrow> \<not> P (xs ! j))" if "first_from k P xs = Some n" for n
  proof -
    have s: "k \<le> n" "n < k + length (drop k xs)" "P (drop k xs ! (n - k))" "\<forall>j < n - k. \<not> P (drop k xs ! j)"
      using search_block_Some [of P k "drop k xs" n] that by (simp_all add: first_from_def)
    have "\<not> P (xs ! j)" if "k \<le> j" "j < n" for j
      using s(4) [rule_format, of "j - k"] that s(2) by simp
    then show ?thesis using s by auto
  qed
  have "first_from k P xs = Some n" if n: "k \<le> n" "n < length xs" "P (xs ! n)" "\<forall>j. k \<le> j \<and> j < n \<longrightarrow> \<not> P (xs ! j)"
  proof (cases "first_from k P xs")
    case None
    then have "\<forall>x \<in> set (drop k xs). \<not> P x" by (simp add: first_from_def search_block_None)
    moreover have "xs ! n \<in> set (drop k xs)" using n(1,2) unfolding in_set_drop by blast
    ultimately show ?thesis using n(3) by blast
  next
    case (Some m)
    with dir [OF this] n show ?thesis by (metis linorder_neqE_nat)
  qed
  then show ?thesis using dir by blast
qed

lemma first_from_None: "first_from k P xs = None \<longleftrightarrow> (\<forall>j. k \<le> j \<and> j < length xs \<longrightarrow> \<not> P (xs ! j))"
  unfolding first_from_def search_block_None Ball_def in_set_drop by blast

lemma first_from_cong:
  "length xs = length ys \<Longrightarrow> (\<And>j. k \<le> j \<Longrightarrow> j < length xs \<Longrightarrow> P (xs ! j) = Q (ys ! j)) \<Longrightarrow> first_from k P xs = first_from k Q ys"
proof (cases "first_from k Q ys")
  case None
  assume "length xs = length ys" "\<And>j. k \<le> j \<Longrightarrow> j < length xs \<Longrightarrow> P (xs ! j) = Q (ys ! j)"
  then have "first_from k P xs = None" using None unfolding first_from_None by simp
  then show ?thesis using None by simp
next
  case (Some n)
  assume "length xs = length ys" "\<And>j. k \<le> j \<Longrightarrow> j < length xs \<Longrightarrow> P (xs ! j) = Q (ys ! j)"
  then have "first_from k P xs = Some n" using Some unfolding first_from_Some by auto
  then show ?thesis using Some by simp
qed

section \<open>Slot accelerators and presence bits\<close>

lemma fifteen: "(15 :: u32) = mask 4"
  by (simp add: mask_eq_exp_minus_1)

lemma nybble_same:
  fixes w v :: u32
  assumes "take_bit 4 v = v" "sh \<le> 28"
  shows "take_bit 4 (drop_bit sh ((w AND NOT (push_bit sh (mask 4))) OR push_bit sh v)) = v"
proof (rule bit_word_eqI)
  fix i assume "i < LENGTH(32)"
  have "bit v i \<Longrightarrow> i < 4" using assms(1) by (metis bit_take_bit_iff)
  then show "bit (take_bit 4 (drop_bit sh ((w AND NOT (push_bit sh (mask 4))) OR push_bit sh v))) i = bit v i"
    using assms(2) by (auto simp: bit_simps)
qed

lemma nybble_other:
  fixes w v :: u32
  assumes "take_bit 4 v = v" "a \<noteq> b" "a < 8" "b < 8"
  shows "take_bit 4 (drop_bit (b * 4) ((w AND NOT (push_bit (a * 4) (mask 4))) OR push_bit (a * 4) v)) = take_bit 4 (drop_bit (b * 4) w)"
proof (rule bit_word_eqI)
  fix i assume "i < LENGTH(32)"
  have v: "bit v k \<Longrightarrow> k < 4" for k using assms(1) by (metis bit_take_bit_iff)
  have "\<not> (a * 4 \<le> b * 4 + i \<and> b * 4 + i - a * 4 < 4)" if "i < 4" using assms(2) that by linarith
  then show "bit (take_bit 4 (drop_bit (b * 4) ((w AND NOT (push_bit (a * 4) (mask 4))) OR push_bit (a * 4) v))) i =
      bit (take_bit 4 (drop_bit (b * 4) w)) i"
    using v [of "b * 4 + i - a * 4"] assms(4) by (auto simp: bit_simps)
qed

lemma accelerator_set:
  assumes "length (m_accelerators mh) = 4" "0 \<le> s" "s < 32" "0 \<le> s'" "s' < 32" "take_bit 4 v = v"
  shows "get_accelerator (set_accelerator s v mh) s' = (if s' = s then v else get_accelerator mh s')"
proof -
  have ix: "nat s div 8 < 4" "nat s' div 8 < 4" "nat s mod 8 < 8" "nat s' mod 8 < 8" using assms(2-5) by auto
  show ?thesis
  proof (cases "s' = s")
    case True
    have "nat s mod 8 * 4 \<le> 28" using ix(3) by linarith
    from nybble_same [OF assms(6) this, of "m_accelerators mh ! (nat s div 8)"] show ?thesis
      using True ix assms(1) by (simp add: get_accelerator_def set_accelerator_def Let_def fifteen take_bit_eq_mask [symmetric])
  next
    case False
    show ?thesis
    proof (cases "nat s' div 8 = nat s div 8")
      case True
      have "nat s mod 8 \<noteq> nat s' mod 8"
      proof
        assume "nat s mod 8 = nat s' mod 8"
        then have "nat s = nat s'" using True by (metis div_mult_mod_eq)
        then show False using False assms(2,4) by simp
      qed
      from nybble_other [OF assms(6) this ix(3,4), of "m_accelerators mh ! (nat s div 8)"] show ?thesis
        using True False ix assms(1) by (simp add: get_accelerator_def set_accelerator_def Let_def fifteen take_bit_eq_mask [symmetric])
    next
      case other: False
      then show ?thesis using False by (simp add: get_accelerator_def set_accelerator_def Let_def)
    qed
  qed
qed

lemma set_accelerator_frame [simp]:
  "m_blocks (set_accelerator s v mh) = m_blocks mh" "slots (set_accelerator s v mh) = slots mh"
  "m_presence (set_accelerator s v mh) = m_presence mh" "shape (set_accelerator s v mh) = shape mh"
  "fld (set_accelerator s v mh) = fld mh"
  by (simp_all add: set_accelerator_def Let_def slots_def shape_def fld_def fun_eq_iff)

lemma presence_frame [simp]:
  "slots (mime_hdr_presence_set T i mh) = slots mh" "m_accelerators (mime_hdr_presence_set T i mh) = m_accelerators mh"
  "shape (mime_hdr_presence_set T i mh) = shape mh"
  "slots (mime_hdr_presence_unset T i mh) = slots mh" "m_accelerators (mime_hdr_presence_unset T i mh) = m_accelerators mh"
  "shape (mime_hdr_presence_unset T i mh) = shape mh"
  by (simp_all add: mime_hdr_presence_set_def mime_hdr_presence_unset_def Let_def slots_def shape_def)

lemma distinct_filter_nth:
  assumes "distinct (filter P xs)" "i < length xs" "j < length xs" "xs ! i = xs ! j" "P (xs ! i)"
  shows "i = j"
proof (rule ccontr)
  assume "i \<noteq> j"
  then consider "i < j" | "j < i" by linarith
  then show False
  proof cases
    case 1
    have "xs = take (Suc i) xs @ drop (Suc i) xs" by simp
    then have f: "filter P xs = filter P (take (Suc i) xs) @ filter P (drop (Suc i) xs)" by (metis filter_append)
    have "xs ! i \<in> set (take (Suc i) xs)" using assms(2) by (simp add: take_Suc_conv_app_nth)
    moreover have "xs ! j \<in> set (drop (Suc i) xs)" unfolding in_set_drop by (rule exI [of _ j]) (use 1 assms(3) in simp)
    ultimately show False using assms(1,4,5) unfolding f by auto
  next
    case 2
    have "xs = take (Suc j) xs @ drop (Suc j) xs" by simp
    then have f: "filter P xs = filter P (take (Suc j) xs) @ filter P (drop (Suc j) xs)" by (metis filter_append)
    have "xs ! j \<in> set (take (Suc j) xs)" using assms(3) by (simp add: take_Suc_conv_app_nth)
    moreover have "xs ! i \<in> set (drop (Suc j) xs)" unfolding in_set_drop by (rule exI [of _ i]) (use 2 assms(2) in simp)
    ultimately show False using assms(1,4,5) unfolding f by auto
  qed
qed

text \<open>The slot and the presence bit of a well-known string.\<close>

lemma slot_of:
  assumes "tokens_ok T" "k < 128"
  shows "hdrtoken_index_to_slotid T (int k) = slot_table ! k"
    "slot_table ! k = - 1 \<or> 0 \<le> slot_table ! k \<and> slot_table ! k < 32"
    "slot_table ! k \<noteq> - 1 \<Longrightarrow> 0 \<le> presence_table ! k"
    "hdrtoken_index_to_mask T (int k) = presence_mask (presence_table ! k)" "presence_table ! k < 64"
proof -
  show "hdrtoken_index_to_slotid T (int k) = slot_table ! k" "hdrtoken_index_to_mask T (int k) = presence_mask (presence_table ! k)"
    using wks_lookup [OF assms] by (simp_all add: hdrtoken_index_to_slotid_def hdrtoken_index_to_mask_def hdrtoken_index_to_prefix_def)
  show "slot_table ! k = - 1 \<or> 0 \<le> slot_table ! k \<and> slot_table ! k < 32"
    using slot_ranges(1,4) assms(2) by (simp add: list_all_length)
  show "slot_table ! k \<noteq> - 1 \<Longrightarrow> 0 \<le> presence_table ! k"
    using slot_ranges(3,4) assms(2) by (simp add: list_all2_conv_all_nth)
  show "presence_table ! k < 64" using presence_ranges(1,3) assms(2) by (simp add: list_all_length)
qed

lemma slot_unique: "i < 128 \<Longrightarrow> j < 128 \<Longrightarrow> slot_table ! i = slot_table ! j \<Longrightarrow> slot_table ! i \<noteq> - 1 \<Longrightarrow> i = j"
  by (rule distinct_filter_nth [OF slot_ranges(2)]) (simp_all add: slot_ranges(4))

lemma presence_unique: "i < 128 \<Longrightarrow> j < 128 \<Longrightarrow> presence_table ! i = presence_table ! j \<Longrightarrow> 0 \<le> presence_table ! i \<Longrightarrow> i = j"
  by (rule distinct_filter_nth [OF presence_ranges(2)]) (simp_all add: presence_ranges(3))

text \<open>The presence bit of string \<open>k\<close> is set.\<close>

definition present :: "u64 \<Rightarrow> nat \<Rightarrow> bool" where
  "present p k \<longleftrightarrow> bit p (nat (presence_table ! k))"

lemma mask_nonzero: "b < 64 \<Longrightarrow> presence_mask b = 0 \<longleftrightarrow> b < 0"
proof -
  assume b: "b < 64"
  have "push_bit (nat b) 1 \<noteq> (0 :: u64)" if "0 \<le> b"
  proof
    assume "push_bit (nat b) 1 = (0 :: u64)"
    moreover have "bit (push_bit (nat b) 1 :: u64) (nat b)" unfolding bit_push_bit_iff using b that by simp
    ultimately have "bit (0 :: u64) (nat b)" by (simp only:)
    then show False by simp
  qed
  then show ?thesis by (simp add: presence_mask_def)
qed

lemma mask_present:
  assumes "0 \<le> b" "b < 64"
  shows "p AND presence_mask b \<noteq> 0 \<longleftrightarrow> bit p (nat b)"
proof -
  have "bit (p AND presence_mask b) i \<longleftrightarrow> i = nat b \<and> bit p (nat b)" for i
    using assms by (auto simp: presence_mask_def bit_simps)
  then show ?thesis by (metis bit_eqI bit_0_eq bot_apply bot_bool_def)
qed

lemma presence_set:
  assumes "tokens_ok T" "k < 128" "j < 128" "0 \<le> presence_table ! j"
  shows "present (m_presence (mime_hdr_presence_set T (int k) mh)) j \<longleftrightarrow> j = k \<or> present (m_presence mh) j"
    "present (m_presence (mime_hdr_presence_unset T (int k) mh)) j \<longleftrightarrow> j \<noteq> k \<and> present (m_presence mh) j"
proof -
  note t = slot_of [OF assms(1,2)] and tj = slot_of [OF assms(1,3)]
  have eq: "nat (presence_table ! j) = nat (presence_table ! k) \<longleftrightarrow> j = k" if "0 \<le> presence_table ! k"
    using presence_unique [OF assms(3,2)] assms(4) that by auto
  show "present (m_presence (mime_hdr_presence_set T (int k) mh)) j \<longleftrightarrow> j = k \<or> present (m_presence mh) j"
    "present (m_presence (mime_hdr_presence_unset T (int k) mh)) j \<longleftrightarrow> j \<noteq> k \<and> present (m_presence mh) j"
    using eq t(5) tj(5) assms(4) mask_nonzero [OF t(5)]
    by (auto simp: mime_hdr_presence_set_def mime_hdr_presence_unset_def Let_def t(4) present_def presence_mask_def bit_simps)
qed

section \<open>Names\<close>

text \<open>
  Two names are the same field if they are the same well-known string or, otherwise, equal regardless of case.
  A name is honest if it has no NUL and is not taken for a well-known string that it does not spell.
\<close>

type_synonym name_id = "int + int list"

definition key :: "mime_field \<Rightarrow> name_id" where
  "key f = (if m_wks_idx f \<ge> 0 then Inl (m_wks_idx f) else Inr (lowb (m_name f)))"

definition text_key :: "hdr_tokens \<Rightarrow> bytes \<Rightarrow> name_id" where
  "text_key T s = (if hdrtoken_tokenize T (Text s) \<ge> 0 then Inl (hdrtoken_tokenize T (Text s)) else Inr (lowb s))"

definition name_key :: "hdr_tokens \<Rightarrow> hname \<Rightarrow> name_id" where
  "name_key T n = (case n of Wks i \<Rightarrow> Inl (int i) | Text s \<Rightarrow> text_key T s)"

definition honest :: "hdr_tokens \<Rightarrow> bytes \<Rightarrow> bool" where
  "honest T s \<longleftrightarrow> 0 \<notin> set s \<and> (\<forall>k < 128. hdrtoken_tokenize T (Text s) = int k \<longrightarrow> lowb s = low (hdrtoken_strs ! k))"

definition honest_name :: "hdr_tokens \<Rightarrow> hname \<Rightarrow> bool" where
  "honest_name T n \<longleftrightarrow> (case n of Wks i \<Rightarrow> i < 128 | Text s \<Rightarrow> honest T s)"

definition known :: "hdr_tokens \<Rightarrow> mime_field \<Rightarrow> bool" where
  "known T f \<longleftrightarrow> m_wks_idx f = hdrtoken_tokenize T (Text (m_name f)) \<and> honest T (m_name f)"

lemma known_key: "known T f \<Longrightarrow> key f = text_key T (m_name f)"
  by (simp add: known_def key_def text_key_def)

lemma tokenize_lowb: "lowb s = lowb t \<Longrightarrow> hdrtoken_tokenize T (Text s) = hdrtoken_tokenize T (Text t)"
proof -
  assume "lowb s = lowb t"
  then have m: "map lower s = map lower t" by (simp add: lowb_eq)
  then have "hdrtoken_hash s = hdrtoken_hash t" unfolding hdrtoken_hash_def by (rule hash_loop_lower)
  moreover have "length s = length t" using m by (metis length_map)
  ultimately show ?thesis unfolding hdrtoken_tokenize_def hname.case by (simp only:)
qed

lemma tokenize_range:
  assumes "tokens_ok T"
  shows "hdrtoken_tokenize T (Text s) = - 1 \<or> (\<exists>k < 128. hdrtoken_tokenize T (Text s) = int k)"
  using tokenize_cases [OF assms, of s] by metis

lemma text_key_eq:
  assumes "tokens_ok T" "honest T s" "honest T t"
  shows "text_key T s = text_key T t \<longleftrightarrow> lowb s = lowb t"
proof
  assume eq: "text_key T s = text_key T t"
  show "lowb s = lowb t"
  proof (cases "hdrtoken_tokenize T (Text s) \<ge> 0")
    case True
    then obtain k where k: "k < 128" "hdrtoken_tokenize T (Text s) = int k" using tokenize_range [OF assms(1), of s] by auto
    then have "hdrtoken_tokenize T (Text t) = int k" using eq by (auto simp: text_key_def split: if_splits)
    then show ?thesis using k assms(2,3) unfolding honest_def by metis
  next
    case False
    then show ?thesis using eq by (auto simp: text_key_def split: if_splits)
  qed
next
  assume "lowb s = lowb t"
  then show "text_key T s = text_key T t" using tokenize_lowb [of s t T] by (simp add: text_key_def)
qed

lemma toupper_eq: "toupper a = toupper b \<longleftrightarrow> lower a = lower b"
proof -
  have "list_all (\<lambda>n. lower (toupper (word_of_int n)) = lower (word_of_int n)) [0..255]" by code_simp
  then have "lower (toupper c) = lower c" for c :: u8
  proof -
    have "uint c \<in> set [0..255]" using uint_bounded [of c] by simp
    with \<open>list_all _ _\<close> have "lower (toupper (word_of_int (uint c))) = lower (word_of_int (uint c))"
      unfolding list_all_iff by blast
    then show ?thesis by simp
  qed
  then show ?thesis using toupper_lower by metis
qed

lemma strncase_lowb: "0 \<notin> set s \<Longrightarrow> length s = length t \<Longrightarrow> strncase_eq s t \<longleftrightarrow> lowb s = lowb t"
proof (induction s t rule: strncase_eq.induct)
  case (1 a s b t)
  then show ?case by (auto simp: toupper_eq lowb_eq)
qed auto

section \<open>The invariant\<close>

definition same :: "name_id \<Rightarrow> mime_field \<Rightarrow> bool" where
  "same c f \<longleftrightarrow> is_live f \<and> key f = c"

definition head_of :: "mime_field list \<Rightarrow> name_id \<Rightarrow> nat option" where
  "head_of xs c = first_from 0 (same c) xs"

definition next_same :: "mime_field list \<Rightarrow> nat \<Rightarrow> nat option" where
  "next_same xs n = first_from (Suc n) (same (key (xs ! n))) xs"

definition fields_ok :: "hdr_tokens \<Rightarrow> mime_field list \<Rightarrow> bool" where
  "fields_ok T xs \<longleftrightarrow> (\<forall>n < length xs.
     (is_live (xs ! n) \<longrightarrow> known T (xs ! n) \<and> m_next_dup (xs ! n) = next_same xs n \<and>
        (m_dup_head (xs ! n) \<longleftrightarrow> head_of xs (key (xs ! n)) = Some n)) \<and>
     (\<not> is_live (xs ! n) \<longrightarrow> m_next_dup (xs ! n) = None))"

definition index_ok :: "mime_field list \<Rightarrow> mime_hdr \<Rightarrow> bool" where
  "index_ok xs mh \<longleftrightarrow> (\<forall>k < 128.
     (0 \<le> presence_table ! k \<longrightarrow> (present (m_presence mh) k \<longleftrightarrow> head_of xs (Inl (int k)) \<noteq> None)) \<and>
     (slot_table ! k \<noteq> - 1 \<longrightarrow> (\<forall>n. head_of xs (Inl (int k)) = Some n \<longrightarrow>
        get_accelerator mh (slot_table ! k) = (if n < 14 then of_nat n else MIME_FIELD_SLOTNUM_UNKNOWN))))"

definition hdr_ok :: "hdr_tokens \<Rightarrow> mime_hdr \<Rightarrow> bool" where
  "hdr_ok T mh \<longleftrightarrow> shape mh \<and> fields_ok T (slots mh) \<and> index_ok (slots mh) mh"

lemma fields_okD:
  assumes "fields_ok T xs" "n < length xs"
  shows "is_live (xs ! n) \<Longrightarrow> known T (xs ! n)" "is_live (xs ! n) \<Longrightarrow> m_next_dup (xs ! n) = next_same xs n"
    "is_live (xs ! n) \<Longrightarrow> m_dup_head (xs ! n) \<longleftrightarrow> head_of xs (key (xs ! n)) = Some n"
    "\<not> is_live (xs ! n) \<Longrightarrow> m_next_dup (xs ! n) = None"
  using assms by (simp_all add: fields_ok_def)

lemma search_slots: "shape mh \<Longrightarrow> search_blocks P 0 (m_blocks mh) = first_from 0 P (slots mh)"
  by (simp add: shape_def slots_def search_blocks_concat first_from_def)

lemma search_slotnum: "shape mh \<Longrightarrow> n < length (slots mh) \<Longrightarrow> search_by_slotnum mh n = Some n"
  using blocks_nth [of "m_blocks mh" n] by (simp add: shape_def slots_def search_by_slotnum_def Let_def)

lemma unat_small: "n < 16 \<Longrightarrow> unat (of_nat n :: u32) = n"
  by (simp add: unsigned_of_nat take_bit_nat_eq_self)

text \<open>Finding is the linear search for the first live field of the name.\<close>

lemma find_head:
  assumes T: "tokens_ok T" and ok: "hdr_ok T mh" and name: "honest_name T name"
  shows "mime_hdr_field_find T mh name = head_of (slots mh) (name_key T name)"
proof -
  have sh: "shape mh" and f: "fields_ok T (slots mh)" and ix: "index_ok (slots mh) mh" using ok by (simp_all add: hdr_ok_def)
  show ?thesis
  proof (cases name)
    case (Text s)
    then have s: "honest T s" using name by (simp add: honest_name_def)
    have "mime_hdr_field_find T mh name =
        first_from 0 (\<lambda>f. is_live f \<and> length s = length (m_name f) \<and> strncase_eq (m_name f) s) (slots mh)"
      by (simp add: mime_hdr_field_find_def Text search_by_string_def search_slots [OF sh])
    also have "\<dots> = first_from 0 (same (text_key T s)) (slots mh)"
    proof (rule first_from_cong [OF refl])
      fix j assume j: "j < length (slots mh)"
      let ?f = "slots mh ! j"
      show "(is_live ?f \<and> length s = length (m_name ?f) \<and> strncase_eq (m_name ?f) s) = same (text_key T s) ?f"
      proof (cases "is_live ?f")
        case True
        then have k: "known T ?f" by (rule fields_okD(1) [OF f j])
        then have h: "honest T (m_name ?f)" by (simp add: known_def)
        have "length s = length (m_name ?f) \<and> strncase_eq (m_name ?f) s \<longleftrightarrow> lowb (m_name ?f) = lowb s"
        proof -
          have "lowb (m_name ?f) = lowb s \<Longrightarrow> length s = length (m_name ?f)"
            by (drule arg_cong [of _ _ length]) (simp add: lowb_def)
          then show ?thesis using strncase_lowb [of "m_name ?f" s] h by (auto simp: honest_def)
        qed
        also have "\<dots> \<longleftrightarrow> key ?f = text_key T s" unfolding known_key [OF k] text_key_eq [OF T h s] ..
        finally show ?thesis using True by (simp add: same_def)
      qed (simp add: same_def)
    qed
    finally show ?thesis by (simp add: Text name_key_def head_of_def)
  next
    case (Wks i)
    then have i: "i < 128" using name by (simp add: honest_name_def)
    note lk = wks_lookup [OF T i] and sl = slot_of [OF T i]
    have search: "search_by_wks mh (int i) = head_of (slots mh) (Inl (int i))"
      unfolding search_by_wks_def search_slots [OF sh] head_of_def
      by (rule first_from_cong [OF refl]) (auto simp: same_def key_def)
    have pres: "0 \<le> presence_table ! i \<Longrightarrow> present (m_presence mh) i \<longleftrightarrow> head_of (slots mh) (Inl (int i)) \<noteq> None"
      and acc: "slot_table ! i \<noteq> - 1 \<Longrightarrow> head_of (slots mh) (Inl (int i)) = Some n \<Longrightarrow>
        get_accelerator mh (slot_table ! i) = (if n < 14 then of_nat n else 14)" for n
      using ix i by (simp_all add: index_ok_def)
    have mask: "wks_mask (wks_prefixes T ! i) \<noteq> 0 \<longleftrightarrow> 0 \<le> presence_table ! i"
      unfolding lk(4) using mask_nonzero [OF sl(5)] by linarith
    have miss: "m_presence mh AND wks_mask (wks_prefixes T ! i) = 0 \<longleftrightarrow> \<not> present (m_presence mh) i" if "0 \<le> presence_table ! i"
      unfolding lk(4) present_def using mask_present [OF that sl(5), of "m_presence mh"] by blast
    show ?thesis
    proof (cases "0 \<le> presence_table ! i \<and> \<not> present (m_presence mh) i")
      case True
      then have "head_of (slots mh) (Inl (int i)) = None" using pres by simp
      then show ?thesis using True mask miss by (simp add: mime_hdr_field_find_def Wks name_key_def Let_def)
    next
      case False
      have "mime_hdr_field_find T mh name = (if slot_table ! i \<noteq> - 1 \<and> get_accelerator mh (slot_table ! i) \<noteq> 14
          then search_by_slotnum mh (unat (get_accelerator mh (slot_table ! i))) else head_of (slots mh) (Inl (int i)))"
        using False mask miss unfolding search [symmetric]
        by (auto simp: mime_hdr_field_find_def Wks Let_def lk)
      moreover have "search_by_slotnum mh (unat (get_accelerator mh (slot_table ! i))) = head_of (slots mh) (Inl (int i))"
        if s: "slot_table ! i \<noteq> - 1" "get_accelerator mh (slot_table ! i) \<noteq> 14"
      proof -
        have "head_of (slots mh) (Inl (int i)) \<noteq> None" using False sl(3) [OF s(1)] pres by simp
        then obtain n where n: "head_of (slots mh) (Inl (int i)) = Some n" by blast
        then have "n < length (slots mh)" by (simp add: head_of_def first_from_Some)
        moreover have "n < 14" using acc [OF s(1) n] s(2) by (simp split: if_splits)
        ultimately show ?thesis using acc [OF s(1) n] n search_slotnum [OF sh, of n]
          by (simp add: unat_small)
      qed
      ultimately show ?thesis by (simp add: Wks name_key_def)
    qed
  qed
qed

section \<open>The values of a list of fields\<close>

lemma csv_scan_bounds:
  "csv_scan v sep st cur start ld = (start', ld', cur') \<Longrightarrow> cur \<le> cur' \<and> (cur \<le> length v \<longrightarrow> cur' \<le> length v) \<and>
    (length v \<le> cur \<longrightarrow> start' = start)"
proof (induction v sep st cur start ld arbitrary: start' ld' cur' rule: csv_scan.induct)
  case (1 v sep st cur start ld)
  show ?case
  proof (cases "length v \<le> cur")
    case True
    then show ?thesis using "1.prems" by (subst (asm) csv_scan.simps) auto
  next
    case False
    note step = "1.prems" [unfolded csv_scan.simps [of v sep st cur] Let_def if_not_P [OF False]]
    show ?thesis
    proof (cases st)
      case Skip_ws
      show ?thesis
      proof (cases "is_cls C_ws (v ! cur)")
        case True
        from "1.IH"(1) [OF False refl Skip_ws True step [unfolded Skip_ws csv_state.case if_P [OF True]]] False
        show ?thesis by auto
      next
        case nws: False
        from "1.IH"(2) [OF False refl Skip_ws nws step [unfolded Skip_ws csv_state.case if_not_P [OF nws]]] False
        show ?thesis by auto
      qed
    next
      case Parse_value
      show ?thesis
      proof (cases "sep = of_char (CHR '','') \<and> cur < length v - 1 \<and> sint (v ! cur) > 44")
        case True
        from "1.IH"(3) [OF False refl Parse_value True step [unfolded Parse_value csv_state.case if_P [OF True]]] False
        show ?thesis by auto
      next
        case a: False
        show ?thesis
        proof (cases "v ! cur = sep")
          case True
          from step [unfolded Parse_value csv_state.case if_not_P [OF a] if_P [OF True]] show ?thesis using False by simp
        next
          case b: False
          note step2 = step [unfolded Parse_value csv_state.case if_not_P [OF a] if_not_P [OF b]]
          show ?thesis
          proof (cases "v ! cur = of_char (CHR ''\"'')")
            case True
            from "1.IH"(4) [OF False refl Parse_value a b True step2 [unfolded if_P [OF True]]] False
            show ?thesis by auto
          next
            case c: False
            from "1.IH"(5) [OF False refl Parse_value a b c step2 [unfolded if_not_P [OF c]]] False
            show ?thesis by auto
          qed
        qed
      qed
    next
      case Parse_quote
      show ?thesis
      proof (cases "v ! cur = of_char (CHR ''\"'') \<and> v ! (cur - 1) \<noteq> of_char (CHR 0x5C)")
        case True
        from "1.IH"(6) [OF False refl Parse_quote True step [unfolded Parse_quote csv_state.case if_P [OF True]]] False
        show ?thesis by auto
      next
        case nq: False
        from "1.IH"(7) [OF False refl Parse_quote nq step [unfolded Parse_quote csv_state.case if_not_P [OF nq]]] False
        show ?thesis by auto
      qed
    qed
  qed
qed

text \<open>The dup links lead to later slots.\<close>

definition links_up :: "mime_field list \<Rightarrow> bool" where
  "links_up xs \<longleftrightarrow> (\<forall>n < length xs. \<forall>d. m_next_dup (xs ! n) = Some d \<longrightarrow> n < d \<and> d < length xs)"

lemma fields_ok_links: "fields_ok T xs \<Longrightarrow> links_up xs"
  unfolding links_up_def
proof (intro allI impI)
  fix n d assume f: "fields_ok T xs" and n: "n < length xs" and d: "m_next_dup (xs ! n) = Some d"
  then have "next_same xs n = Some d" using fields_okD(2,4) [OF f n] by (cases "is_live (xs ! n)") auto
  then show "n < d \<and> d < length xs" by (simp add: next_same_def first_from_Some)
qed

lemma find_csv_total:
  assumes "shape mh" "links_up (slots mh)"
  shows "f < length (slots mh) \<Longrightarrow> \<exists>it. find_csv mh sep follow f cur = Some it \<and> f \<le> m_cur_field it \<and> m_cur_field it < length (slots mh) \<and>
    (m_csv_start it \<noteq> None \<longrightarrow> m_csv_end it \<le> length (value_bytes (fld mh (m_cur_field it))) \<and> (m_cur_field it = f \<longrightarrow> cur \<le> m_csv_end it))"
proof (induction "length (slots mh) - f" arbitrary: f cur rule: less_induct)
  case less
  obtain start l e where scan: "csv_scan (value_bytes (fld mh f)) sep Skip_ws cur None None = (start, l, e)" by (metis prod_cases3)
  note b = csv_scan_bounds [OF scan]
  have here: "start \<noteq> None \<longrightarrow> e \<le> length (value_bytes (fld mh f)) \<and> cur \<le> e"
  proof (cases "length (value_bytes (fld mh f)) \<le> cur")
    case True
    then show ?thesis using b by simp
  next
    case False
    then show ?thesis using b by simp
  qed
  show ?case
  proof (cases "l = None \<and> m_next_dup (fld mh f) \<noteq> None \<and> follow")
    case True
    then obtain d where d: "m_next_dup (fld mh f) = Some d" by blast
    then have "m_next_dup (slots mh ! f) = Some d" using fld_slots [OF assms(1) less.prems] by simp
    then have "f < d" "d < length (slots mh)" using assms(2) less.prems unfolding links_up_def by blast+
    moreover from this have "length (slots mh) - d < length (slots mh) - f" by simp
    ultimately obtain it where it: "find_csv mh sep follow d 0 = Some it" "d \<le> m_cur_field it" "m_cur_field it < length (slots mh)"
      "m_csv_start it \<noteq> None \<longrightarrow> m_csv_end it \<le> length (value_bytes (fld mh (m_cur_field it)))"
      using less.hyps [of d 0] by blast
    have "find_csv mh sep follow f cur = Some it" using it(1) scan True d by (subst find_csv.simps) simp
    then show ?thesis using it \<open>f < d\<close> by (intro exI [of _ it]) auto
  next
    case False
    have "\<exists>it. find_csv mh sep follow f cur = Some it \<and> m_cur_field it = f \<and> m_csv_start it = start \<and> m_csv_end it = e"
      using scan False by (subst find_csv.simps) (auto split: option.split)
    then show ?thesis using here less.prems by auto
  qed
qed


text \<open>The measure of a state of the iterator.\<close>

definition csv_left :: "mime_hdr \<Rightarrow> csv_iter \<Rightarrow> nat \<times> nat" where
  "csv_left mh it = (length (slots mh) - m_cur_field it, length (value_bytes (fld mh (m_cur_field it))) + 1 - m_csv_end it)"

lemma csv_step:
  assumes "shape mh" "links_up (slots mh)" "m_cur_field it < length (slots mh)"
  shows "\<exists>it'. find_csv mh sep True (m_cur_field it) (m_csv_end it + 1) = Some it' \<and> m_cur_field it' < length (slots mh) \<and>
    (m_csv_start it' \<noteq> None \<longrightarrow> (csv_left mh it', csv_left mh it) \<in> less_than <*lex*> less_than)"
proof -
  obtain it' where it': "find_csv mh sep True (m_cur_field it) (m_csv_end it + 1) = Some it'" "m_cur_field it \<le> m_cur_field it'"
    "m_cur_field it' < length (slots mh)"
    "m_csv_start it' \<noteq> None \<longrightarrow> m_csv_end it' \<le> length (value_bytes (fld mh (m_cur_field it'))) \<and>
      (m_cur_field it' = m_cur_field it \<longrightarrow> m_csv_end it + 1 \<le> m_csv_end it')"
    using find_csv_total [OF assms] by blast
  have "(csv_left mh it', csv_left mh it) \<in> less_than <*lex*> less_than" if start: "m_csv_start it' \<noteq> None"
  proof (cases "m_cur_field it' = m_cur_field it")
    case True
    then have "m_csv_end it < m_csv_end it'" "m_csv_end it' \<le> length (value_bytes (fld mh (m_cur_field it)))"
      using it'(4) start by simp_all
    then show ?thesis by (simp add: csv_left_def True)
  next
    case False
    then have "length (slots mh) - m_cur_field it' < length (slots mh) - m_cur_field it" using it'(2,3) by simp
    then show ?thesis by (simp add: csv_left_def)
  qed
  then show ?thesis using it'(1,3) by blast
qed

lemma csv_rest_end: "m_csv_start it = None \<Longrightarrow> csv_rest mh sep it = Some []"
  by (subst csv_rest.simps) simp

lemma csv_rest_next:
  "m_csv_start it \<noteq> None \<Longrightarrow> find_csv mh sep True (m_cur_field it) (m_csv_end it + 1) = Some it' \<Longrightarrow>
    csv_rest mh sep it' = Some vs \<Longrightarrow> csv_rest mh sep it = Some (csv_text mh it # vs)"
  by (subst csv_rest.simps) (simp add: csv_get_next_def)

lemma wf_csv_left: "wf (inv_image (less_than <*lex*> less_than) (csv_left mh))"
  by (intro wf_inv_image wf_lex_prod wf_less_than)

lemma csv_rest_total:
  assumes "shape mh" "links_up (slots mh)"
  shows "m_cur_field it < length (slots mh) \<Longrightarrow> \<exists>vs. csv_rest mh sep it = Some vs"
proof (induction it rule: wf_induct_rule [OF wf_csv_left [of mh]])
  case (1 it)
  show ?case
  proof (cases "m_csv_start it = None")
    case True
    then show ?thesis using csv_rest_end by blast
  next
    case False
    obtain it' where it': "find_csv mh sep True (m_cur_field it) (m_csv_end it + 1) = Some it'" "m_cur_field it' < length (slots mh)"
      "m_csv_start it' \<noteq> None \<longrightarrow> (csv_left mh it', csv_left mh it) \<in> less_than <*lex*> less_than"
      using csv_step [OF assms 1(2), of sep] by blast
    have "\<exists>vs. csv_rest mh sep it' = Some vs"
    proof (cases "m_csv_start it' = None")
      case True
      then show ?thesis using csv_rest_end by blast
    next
      case start: False
      then have "(it', it) \<in> inv_image (less_than <*lex*> less_than) (csv_left mh)"
        using it'(3) unfolding in_inv_image by blast
      then show ?thesis using 1(1) it'(2) by blast
    qed
    then show ?thesis using csv_rest_next [OF False it'(1)] by blast
  qed
qed
lemma csv_values_total:
  assumes "shape mh" "links_up (slots mh)" "f < length (slots mh)"
  shows "\<exists>vs. csv_values mh sep f = Some vs"
proof (cases "m_value (fld mh f) = None")
  case True
  then show ?thesis by (simp add: csv_values_def csv_get_first_def csv_rest.simps)
next
  case False
  obtain it where "find_csv mh sep True f 0 = Some it" "m_cur_field it < length (slots mh)"
    using find_csv_total [OF assms] by blast
  then show ?thesis using csv_rest_total [OF assms(1,2)] False by (simp add: csv_values_def csv_get_first_def)
qed

text \<open>Cooking returns and changes nothing but the cooked values.\<close>

definition same_index :: "mime_hdr \<Rightarrow> mime_hdr \<Rightarrow> bool" where
  "same_index mh mh' \<longleftrightarrow> m_blocks mh' = m_blocks mh \<and> m_presence mh' = m_presence mh \<and> m_accelerators mh' = m_accelerators mh"

lemma same_index_ok:
  assumes "same_index mh mh'"
  shows "slots mh' = slots mh" "shape mh' = shape mh" "fld mh' n = fld mh n" "hdr_ok T mh' = hdr_ok T mh"
proof -
  show s: "slots mh' = slots mh" "shape mh' = shape mh" "fld mh' n = fld mh n"
    using assms by (simp_all add: same_index_def slots_def shape_def fld_def)
  have "get_accelerator mh' k = get_accelerator mh k" for k using assms by (simp add: same_index_def get_accelerator_def)
  then show "hdr_ok T mh' = hdr_ok T mh" using s assms by (simp add: hdr_ok_def index_ok_def same_index_def)
qed

lemma same_index_trans: "same_index a b \<Longrightarrow> same_index b c \<Longrightarrow> same_index a c"
  by (simp add: same_index_def)

lemma find_less: "tokens_ok T \<Longrightarrow> hdr_ok T mh \<Longrightarrow> honest_name T name \<Longrightarrow> mime_hdr_field_find T mh name = Some n \<Longrightarrow> n < length (slots mh)"
  by (simp add: find_head head_of_def first_from_Some)

lemma wksidx:
  assumes "tokens_ok T"
  shows "MIME_WKSIDX_CACHE_CONTROL T = 10" "MIME_WKSIDX_PRAGMA T = 47"
proof -
  have "lowb (chars ''Cache-Control'') = low (hdrtoken_strs ! 10)" "lowb (chars ''Pragma'') = low (hdrtoken_strs ! 47)"
    by (simp_all add: lowb_chars hdrtoken_strs_def)
  then show "MIME_WKSIDX_CACHE_CONTROL T = 10" "MIME_WKSIDX_PRAGMA T = 47"
    using tokenize_wks [OF assms, of 10] tokenize_wks [OF assms, of 47]
    by (simp_all add: MIME_WKSIDX_CACHE_CONTROL_def MIME_WKSIDX_PRAGMA_def)
qed

lemma cook_cache_control_total:
  assumes "tokens_ok T" "hdr_ok T mh"
  shows "\<exists>mh'. cook_cache_control T mh = Some mh' \<and> same_index mh mh'"
proof (cases "mime_hdr_field_find T mh (Wks (nat (MIME_WKSIDX_CACHE_CONTROL T)))")
  case (Some f)
  have "f < length (slots mh)" by (rule find_less [OF assms _ Some]) (simp add: honest_name_def wksidx [OF assms(1)])
  then obtain vs where "csv_values mh (of_char (CHR '','')) f = Some vs"
    using csv_values_total fields_ok_links assms(2) unfolding hdr_ok_def by blast
  then show ?thesis using Some by (simp add: cook_cache_control_def Let_def same_index_def)
qed (simp add: cook_cache_control_def same_index_def)

lemma cook_pragma_total:
  assumes "tokens_ok T" "hdr_ok T mh"
  shows "\<exists>mh'. cook_pragma T mh = Some mh' \<and> same_index mh mh'"
proof (cases "mime_hdr_field_find T mh (Wks (nat (MIME_WKSIDX_PRAGMA T)))")
  case (Some f)
  have "f < length (slots mh)" by (rule find_less [OF assms _ Some]) (simp add: honest_name_def wksidx [OF assms(1)])
  then obtain vs where "csv_values mh (of_char (CHR '','')) f = Some vs"
    using csv_values_total fields_ok_links assms(2) unfolding hdr_ok_def by blast
  then show ?thesis using Some by (simp add: cook_pragma_def Let_def same_index_def)
qed (simp add: cook_pragma_def same_index_def)

lemma recompute_total:
  assumes "tokens_ok T" "hdr_ok T mh"
  shows "\<exists>mh'. recompute_cooked_stuff T changing mh = Some mh' \<and> same_index mh mh'"
proof -
  let ?mh1 = "mime_hdr_cooked_stuff_init T changing mh"
  have i1: "same_index mh ?mh1" by (simp add: mime_hdr_cooked_stuff_init_def same_index_def Let_def)
  then have ok1: "hdr_ok T ?mh1" using same_index_ok(4) assms(2) by blast
  obtain mh2 where mh2: "(if changing \<noteq> Some (MIME_WKSIDX_PRAGMA T) then cook_cache_control T ?mh1 else Some ?mh1) = Some mh2"
    "same_index ?mh1 mh2"
    using cook_cache_control_total [OF assms(1) ok1] by (cases "changing \<noteq> Some (MIME_WKSIDX_PRAGMA T)") (auto simp: same_index_def)
  then have ok2: "hdr_ok T mh2" using same_index_ok(4) ok1 by blast
  obtain mh3 where mh3: "(if changing \<noteq> Some (MIME_WKSIDX_CACHE_CONTROL T) then cook_pragma T mh2 else Some mh2) = Some mh3"
    "same_index mh2 mh3"
    using cook_pragma_total [OF assms(1) ok2] by (cases "changing \<noteq> Some (MIME_WKSIDX_CACHE_CONTROL T)") (auto simp: same_index_def)
  have "recompute_cooked_stuff T changing mh = Some mh3"
    using mh2(1) mh3(1) by (simp add: recompute_cooked_stuff_def Let_def)
  then show ?thesis using same_index_trans [OF same_index_trans [OF i1 mh2(2)] mh3(2)] by blast
qed

end
