(* ===== verification/MimeHdrOps.thy ===== *)
theory MimeHdrOps
  imports MimeHdrInv
begin

unbundle bit_operations_syntax

text \<open>
  The operations of a header keep its invariant: what happens to the links, heads and marks when a field becomes
  live (\<open>join\<close>) or stops being live (\<open>leave\<close>), first on the list of slots and then for the code that attaches,
  detaches, deletes, creates and sets fields. \<open>skel\<close> says that two lists of slots differ in links and marks only.
\<close>

section \<open>Updates of the slots\<close>

text \<open>What linking and unlinking leave alone.\<close>

definition content :: "mime_field \<Rightarrow> bytes \<times> int \<times> bytes option \<times> bool \<times> nat \<times> bytes \<times> bool" where
  "content f = (m_name f, m_wks_idx f, m_value f, m_raw_printable f, m_raw_pad f, m_raw f, m_cooked f)"

definition skel :: "mime_field list \<Rightarrow> mime_field list \<Rightarrow> bool" where
  "skel xs ys \<longleftrightarrow> length ys = length xs \<and>
     (\<forall>j < length xs. content (ys ! j) = content (xs ! j) \<and> m_readiness (ys ! j) = m_readiness (xs ! j))"

lemma skel_refl [simp]: "skel xs xs"
  by (simp add: skel_def)

lemma skel_trans: "skel xs ys \<Longrightarrow> skel ys zs \<Longrightarrow> skel xs zs"
  by (simp add: skel_def)

lemma skel_upd:
  assumes "skel xs ys" "content (g (ys ! j)) = content (ys ! j)" "m_readiness (g (ys ! j)) = m_readiness (ys ! j)"
  shows "skel xs (ys[j := g (ys ! j)])"
  unfolding skel_def
proof (intro conjI allI impI)
  show "length (ys[j := g (ys ! j)]) = length xs" using assms(1) by (simp add: skel_def)
  fix i assume i: "i < length xs"
  then show "content (ys[j := g (ys ! j)] ! i) = content (xs ! i)" "m_readiness (ys[j := g (ys ! j)] ! i) = m_readiness (xs ! i)"
    using assms by (cases "i = j"; simp add: skel_def)+
qed

lemma content_key: "content f = content g \<Longrightarrow> key f = key g" "content f = content g \<Longrightarrow> known T f = known T g"
  by (simp_all add: content_def key_def known_def)

lemma content_upd [simp]:
  "content (f\<lparr>m_readiness := r\<rparr>) = content f" "content (f\<lparr>m_next_dup := d\<rparr>) = content f"
  "content (f\<lparr>m_dup_head := h\<rparr>) = content f" "content (f\<lparr>m_dup_head := h, m_next_dup := d\<rparr>) = content f"
  "content (f\<lparr>m_readiness := r, m_next_dup := d\<rparr>) = content f"
  by (simp_all add: content_def)

lemma key_upd [simp]:
  "key (f\<lparr>m_readiness := r\<rparr>) = key f" "key (f\<lparr>m_next_dup := d\<rparr>) = key f" "key (f\<lparr>m_dup_head := h\<rparr>) = key f"
  by (simp_all add: key_def)

lemma skel_same: "skel xs ys \<Longrightarrow> j < length xs \<Longrightarrow> same c (ys ! j) \<longleftrightarrow> same c (xs ! j)"
  using content_key(1) [of "ys ! j" "xs ! j"] by (simp add: skel_def same_def)

lemma skel_key: "skel xs ys \<Longrightarrow> j < length xs \<Longrightarrow> key (ys ! j) = key (xs ! j)"
  using content_key(1) [of "ys ! j" "xs ! j"] by (simp add: skel_def)

lemma skel_known: "skel xs ys \<Longrightarrow> j < length xs \<Longrightarrow> known T (ys ! j) = known T (xs ! j)"
  using content_key(2) [of "ys ! j" "xs ! j"] by (simp add: skel_def)

lemma skel_live: "skel xs ys \<Longrightarrow> j < length xs \<Longrightarrow> is_live (ys ! j) = is_live (xs ! j)"
  by (simp add: skel_def)

lemma skel_length: "skel xs ys \<Longrightarrow> length ys = length xs"
  by (simp add: skel_def)

lemma skel_first: "skel xs ys \<Longrightarrow> first_from k (same c) ys = first_from k (same c) xs"
  by (rule first_from_cong) (simp_all add: skel_length skel_same)

lemma skel_head: "skel xs ys \<Longrightarrow> head_of ys c = head_of xs c"
  by (simp add: head_of_def skel_first)

lemma skel_next: "skel xs ys \<Longrightarrow> n < length xs \<Longrightarrow> next_same ys n = next_same xs n"
  by (simp add: next_same_def skel_first skel_key)

lemma first_from_insert:
  assumes "n < length xs" "\<not> P (xs ! n)" "P y"
  shows "first_from k P (xs[n := y]) =
    (case first_from k P xs of
       Some m \<Rightarrow> if m < n \<or> n < k then Some m else Some n
     | None \<Rightarrow> if k \<le> n then Some n else None)"
proof (cases "first_from k P xs")
  case None
  then have none: "\<forall>j. k \<le> j \<and> j < length xs \<longrightarrow> \<not> P (xs ! j)" by (simp add: first_from_None)
  show ?thesis
  proof (cases "k \<le> n")
    case True
    then have "first_from k P (xs[n := y]) = Some n" using assms none by (simp add: first_from_Some)
    then show ?thesis using True None by simp
  next
    case False
    then have "first_from k P (xs[n := y]) = None" using none by (simp add: first_from_None)
    then show ?thesis using False None by simp
  qed
next
  case (Some m)
  then have m: "k \<le> m" "m < length xs" "P (xs ! m)" "\<forall>j. k \<le> j \<and> j < m \<longrightarrow> \<not> P (xs ! j)" by (simp_all add: first_from_Some)
  then have "m \<noteq> n" using assms(2) by auto
  show ?thesis
  proof (cases "m < n \<or> n < k")
    case True
    then have "first_from k P (xs[n := y]) = Some m" using m by (auto simp: first_from_Some nth_list_update)
    then show ?thesis using Some True by simp
  next
    case False
    then have "first_from k P (xs[n := y]) = Some n" using m assms by (auto simp: first_from_Some nth_list_update)
    then show ?thesis using Some False by simp
  qed
qed

lemma first_from_other:
  assumes "\<not> P (xs ! n)" "\<not> P y"
  shows "first_from k P (xs[n := y]) = first_from k P xs"
proof (rule first_from_cong)
  fix j assume "j < length (xs[n := y])"
  then show "P (xs[n := y] ! j) = P (xs ! j)" using assms by (cases "j = n") auto
qed simp

lemma first_from_delete:
  assumes "n < length xs" "P (xs ! n)" "\<not> P y"
  shows "first_from k P (xs[n := y]) = (if first_from k P xs = Some n then first_from (Suc n) P xs else first_from k P xs)"
proof (cases "first_from k P xs = Some n")
  case True
  then have n: "k \<le> n" "\<forall>j. k \<le> j \<and> j < n \<longrightarrow> \<not> P (xs ! j)" by (simp_all add: first_from_Some)
  have "first_from k P (xs[n := y]) = first_from (Suc n) P xs"
  proof (cases "first_from (Suc n) P xs")
    case None
    then have later: "\<forall>j. Suc n \<le> j \<and> j < length xs \<longrightarrow> \<not> P (xs ! j)" by (simp add: first_from_None)
    have "\<not> P (xs[n := y] ! j)" if "k \<le> j" "j < length xs" for j
    proof (cases "j = n")
      case True
      then show ?thesis using assms(1,3) by simp
    next
      case False
      then have "j < n \<or> Suc n \<le> j" by linarith
      then show ?thesis using n(2) later that False by auto
    qed
    then show ?thesis unfolding None first_from_None by simp
  next
    case (Some m)
    then have m: "Suc n \<le> m" "m < length xs" "P (xs ! m)" "\<forall>j. Suc n \<le> j \<and> j < m \<longrightarrow> \<not> P (xs ! j)" by (simp_all add: first_from_Some)
    have "\<not> P (xs[n := y] ! j)" if "k \<le> j" "j < m" for j
    proof (cases "j = n")
      case True
      then show ?thesis using assms(1,3) by simp
    next
      case False
      then have "j < n \<or> Suc n \<le> j" by linarith
      then show ?thesis using n(2) m(4) that False by auto
    qed
    then show ?thesis unfolding Some first_from_Some using m n(1) by auto
  qed
  then show ?thesis using True by simp
next
  case False
  then show ?thesis
  proof (cases "first_from k P xs")
    case None
    then have "\<forall>j. k \<le> j \<and> j < length xs \<longrightarrow> \<not> P (xs ! j)" by (simp add: first_from_None)
    then have "first_from k P (xs[n := y]) = None" using assms(1,3) by (auto simp: first_from_None nth_list_update)
    then show ?thesis using None by simp
  next
    case (Some m)
    then have "m \<noteq> n" using False by auto
    have m: "k \<le> m" "m < length xs" "P (xs ! m)" "\<forall>j. k \<le> j \<and> j < m \<longrightarrow> \<not> P (xs ! j)"
      using Some by (simp_all add: first_from_Some)
    then have "first_from k P (xs[n := y]) = Some m" using \<open>m \<noteq> n\<close> assms(1,3) by (auto simp: first_from_Some nth_list_update)
    then show ?thesis using Some False by simp
  qed
qed

lemma head_live: "head_of xs c = Some n \<Longrightarrow> n < length xs \<and> is_live (xs ! n) \<and> key (xs ! n) = c"
  by (simp add: head_of_def first_from_Some same_def)

lemma next_live: "next_same xs n = Some d \<Longrightarrow> n < d \<and> d < length xs \<and> is_live (xs ! d) \<and> key (xs ! d) = key (xs ! n)"
  by (simp add: next_same_def first_from_Some same_def)

section \<open>Updates of the index\<close>

definition index_at :: "mime_field list \<Rightarrow> mime_hdr \<Rightarrow> nat \<Rightarrow> bool" where
  "index_at xs mh k \<longleftrightarrow>
     (0 \<le> presence_table ! k \<longrightarrow> (present (m_presence mh) k \<longleftrightarrow> head_of xs (Inl (int k)) \<noteq> None)) \<and>
     (slot_table ! k \<noteq> - 1 \<longrightarrow> (\<forall>n. head_of xs (Inl (int k)) = Some n \<longrightarrow>
        get_accelerator mh (slot_table ! k) = (if n < 14 then of_nat n else MIME_FIELD_SLOTNUM_UNKNOWN)))"

lemma index_ok_at: "index_ok xs mh \<longleftrightarrow> (\<forall>k < 128. index_at xs mh k)"
  by (simp add: index_ok_def index_at_def)

lemma index_at_cong:
  "head_of ys (Inl (int k)) = head_of xs (Inl (int k)) \<Longrightarrow> present (m_presence mh') k = present (m_presence mh) k \<Longrightarrow>
    (slot_table ! k \<noteq> - 1 \<Longrightarrow> get_accelerator mh' (slot_table ! k) = get_accelerator mh (slot_table ! k)) \<Longrightarrow>
    index_at xs mh k \<Longrightarrow> index_at ys mh' k"
  by (simp add: index_at_def)

lemma same_presence: "m_presence mh' = m_presence mh \<Longrightarrow> m_accelerators mh' = m_accelerators mh \<Longrightarrow> index_at xs mh' k = index_at xs mh k"
  by (simp add: index_at_def get_accelerator_def)

lemma wks_of_key: "tokens_ok T \<Longrightarrow> known T f \<Longrightarrow> m_wks_idx f \<ge> 0 \<Longrightarrow> \<exists>k < 128. m_wks_idx f = int k \<and> key f = Inl (int k)"
  using tokenize_range [of T "m_name f"] by (auto simp: known_def key_def)

lemma slot_num_small: "take_bit 4 (if n < 14 then of_nat n else 14 :: u32) = (if n < (14 :: nat) then of_nat n else 14)"
proof (cases "n < 14")
  case True
  then have "take_bit 4 n = n" by (simp add: take_bit_nat_eq_self)
  then have "take_bit 4 (of_nat n :: u32) = of_nat n" by (simp only: take_bit_of_nat)
  then show ?thesis using True by simp
qed simp

lemma set_index:
  assumes T: "tokens_ok T" and sh: "shape mh" and n: "n < length (slots mh)" and kn: "known T (slots mh ! n)"
    and others: "\<And>k. k < 128 \<Longrightarrow> key (slots mh ! n) \<noteq> Inl (int k) \<Longrightarrow> index_at xs mh k"
    and head: "head_of xs (key (slots mh ! n)) = Some n"
  shows "slots (set_accelerators_and_presence_bits T n mh) = slots mh" "shape (set_accelerators_and_presence_bits T n mh)"
    "index_ok xs (set_accelerators_and_presence_bits T n mh)"
proof -
  let ?f = "slots mh ! n" and ?mh = "set_accelerators_and_presence_bits T n mh"
  have f: "fld mh n = ?f" by (rule fld_slots [OF sh n])
  show "slots ?mh = slots mh" "shape ?mh" using sh by (simp_all add: set_accelerators_and_presence_bits_def Let_def)
  show "index_ok xs ?mh"
  proof (cases "m_wks_idx ?f < 0")
    case True
    then have "key ?f \<noteq> Inl (int k)" for k by (simp add: key_def)
    moreover have "?mh = mh" using True by (simp add: set_accelerators_and_presence_bits_def f Let_def)
    ultimately show ?thesis using others by (simp add: index_ok_at)
  next
    case False
    then obtain w where w: "w < 128" "m_wks_idx ?f = int w" "key ?f = Inl (int w)" using wks_of_key [OF T kn] by auto
    note sw = slot_of [OF T w(1)]
    let ?mh1 = "mime_hdr_presence_set T (int w) mh"
    have mh': "?mh = (if slot_table ! w \<noteq> - 1 then set_accelerator (slot_table ! w) (if n < 14 then of_nat n else 14) ?mh1 else ?mh1)"
      using False by (simp add: set_accelerators_and_presence_bits_def f w(2) sw(1) Let_def)
    have pres: "m_presence ?mh = m_presence ?mh1" by (simp add: mh')
    have acc: "get_accelerator ?mh (slot_table ! k) = (if k = w then (if n < 14 then of_nat n else 14) else get_accelerator mh (slot_table ! k))"
      if k: "k < 128" "slot_table ! k \<noteq> - 1" for k
    proof -
      have rk: "0 \<le> slot_table ! k" "slot_table ! k < 32" using slot_of(2) [OF T k(1)] k(2) by auto
      have base: "get_accelerator ?mh1 (slot_table ! k) = get_accelerator mh (slot_table ! k)"
        by (simp add: get_accelerator_def)
      show ?thesis
      proof (cases "slot_table ! w = - 1")
        case True
        then show ?thesis using k(2) base by (auto simp: mh')
      next
        case False
        then have rw: "0 \<le> slot_table ! w" "slot_table ! w < 32" using sw(2) by auto
        have "length (m_accelerators ?mh1) = 4" using sh by (simp add: shape_def)
        from accelerator_set [OF this rw rk slot_num_small, of n]
        show ?thesis using slot_unique [OF k(1) w(1) _ k(2)] base False by (auto simp: mh')
      qed
    qed
    show ?thesis unfolding index_ok_at
    proof (intro allI impI)
      fix k :: nat assume k: "k < 128"
      show "index_at xs ?mh k"
      proof (cases "k = w")
        case True
        then show ?thesis
          using head presence_set(1) [OF T w(1) w(1)] acc [OF w(1)] by (simp add: index_at_def pres w(3))
      next
        case False
        have "index_at xs mh k" using others [OF k] False w(3) by simp
        then show ?thesis using False presence_set(1) [OF T w(1) k] acc [OF k] by (simp add: index_at_def pres)
      qed
    qed
  qed
qed

lemma unset_index:
  assumes T: "tokens_ok T" and sh: "shape mh" and n: "n < length (slots mh)" and kn: "known T (slots mh ! n)"
    and others: "\<And>k. k < 128 \<Longrightarrow> key (slots mh ! n) \<noteq> Inl (int k) \<Longrightarrow> index_at xs mh k"
    and head: "head_of xs (key (slots mh ! n)) = None"
  shows "slots (unset_accelerators_and_presence_bits T n mh) = slots mh" "shape (unset_accelerators_and_presence_bits T n mh)"
    "index_ok xs (unset_accelerators_and_presence_bits T n mh)"
proof -
  let ?f = "slots mh ! n" and ?mh = "unset_accelerators_and_presence_bits T n mh"
  have f: "fld mh n = ?f" by (rule fld_slots [OF sh n])
  show "slots ?mh = slots mh" "shape ?mh" using sh by (simp_all add: unset_accelerators_and_presence_bits_def Let_def)
  show "index_ok xs ?mh"
  proof (cases "m_wks_idx ?f < 0")
    case True
    then have "key ?f \<noteq> Inl (int k)" for k by (simp add: key_def)
    moreover have "?mh = mh" using True by (simp add: unset_accelerators_and_presence_bits_def f Let_def)
    ultimately show ?thesis using others by (simp add: index_ok_at)
  next
    case False
    then obtain w where w: "w < 128" "m_wks_idx ?f = int w" "key ?f = Inl (int w)" using wks_of_key [OF T kn] by auto
    note sw = slot_of [OF T w(1)]
    let ?mh1 = "mime_hdr_presence_unset T (int w) mh"
    have mh': "?mh = (if slot_table ! w \<noteq> - 1 then set_accelerator (slot_table ! w) 14 ?mh1 else ?mh1)"
      using False by (simp add: unset_accelerators_and_presence_bits_def f w(2) sw(1) Let_def)
    have pres: "m_presence ?mh = m_presence ?mh1" by (simp add: mh')
    have acc: "get_accelerator ?mh (slot_table ! k) = get_accelerator mh (slot_table ! k)"
      if k: "k < 128" "slot_table ! k \<noteq> - 1" "k \<noteq> w" for k
    proof -
      have rk: "0 \<le> slot_table ! k" "slot_table ! k < 32" using slot_of(2) [OF T k(1)] k(2) by auto
      have base: "get_accelerator ?mh1 (slot_table ! k) = get_accelerator mh (slot_table ! k)"
        by (simp add: get_accelerator_def)
      show ?thesis
      proof (cases "slot_table ! w = - 1")
        case True
        then show ?thesis using base by (auto simp: mh')
      next
        case False
        then have rw: "0 \<le> slot_table ! w" "slot_table ! w < 32" using sw(2) by auto
        have "length (m_accelerators ?mh1) = 4" using sh by (simp add: shape_def)
        from accelerator_set [OF this rw rk, of 14]
        show ?thesis using slot_unique [OF k(1) w(1) _ k(2)] base False k(3) by (auto simp: mh')
      qed
    qed
    show ?thesis unfolding index_ok_at
    proof (intro allI impI)
      fix k :: nat assume k: "k < 128"
      show "index_at xs ?mh k"
      proof (cases "k = w")
        case True
        then show ?thesis
          using head presence_set(2) [OF T w(1) w(1)] by (simp add: index_at_def pres w(3))
      next
        case False
        have "index_at xs mh k" using others [OF k] False w(3) by simp
        then show ?thesis using False presence_set(2) [OF T w(1) k] acc [OF k] by (simp add: index_at_def pres)
      qed
    qed
  qed
qed

section \<open>Attaching\<close>

lemma fields_okI:
  assumes "skel zs ys"
    "\<And>j. j < length zs \<Longrightarrow> is_live (zs ! j) \<Longrightarrow> known T (zs ! j) \<and> m_next_dup (ys ! j) = next_same zs j \<and>
      (m_dup_head (ys ! j) \<longleftrightarrow> head_of zs (key (zs ! j)) = Some j)"
    "\<And>j. j < length zs \<Longrightarrow> \<not> is_live (zs ! j) \<Longrightarrow> m_next_dup (ys ! j) = None"
  shows "fields_ok T ys"
  unfolding fields_ok_def
proof (intro allI impI conjI)
  fix j assume "j < length ys"
  then have j: "j < length zs" using assms(1) by (simp add: skel_length)
  note s = skel_live [OF assms(1) j] skel_key [OF assms(1) j] skel_known [OF assms(1) j, of T] skel_next [OF assms(1) j] skel_head [OF assms(1)]
  show "m_readiness (ys ! j) \<noteq> LIVE \<Longrightarrow> m_next_dup (ys ! j) = None" using assms(3) [OF j] s(1) by simp
  show "is_live (ys ! j) \<Longrightarrow> known T (ys ! j)" "is_live (ys ! j) \<Longrightarrow> m_next_dup (ys ! j) = next_same ys j"
    "is_live (ys ! j) \<Longrightarrow> m_dup_head (ys ! j) \<longleftrightarrow> head_of ys (key (ys ! j)) = Some j"
    using assms(2) [OF j] s by simp_all
qed

lemma slotnum: "shape mh \<Longrightarrow> n < length (slots mh) \<Longrightarrow> mime_hdr_field_slotnum mh n = int n"
  using blocks_nth [of "m_blocks mh" n] by (simp add: shape_def slots_def mime_hdr_field_slotnum_def)

text \<open>
  The walk finds the place of slot \<open>n\<close> unless two live fields of the name stand before it and one behind it.
\<close>

definition in_order :: "mime_field list \<Rightarrow> nat \<Rightarrow> bool" where
  "in_order xs n \<longleftrightarrow> (\<forall>i j k. i < j \<and> j < n \<and> n < k \<and> k < length xs \<longrightarrow>
     \<not> (same (key (xs ! n)) (xs ! i) \<and> same (key (xs ! n)) (xs ! j) \<and> same (key (xs ! n)) (xs ! k)))"

abbreviation (input) next_of :: "name_id \<Rightarrow> mime_field list \<Rightarrow> nat \<Rightarrow> nat option" where
  "next_of c xs p \<equiv> first_from (Suc p) (same c) xs"

lemma walk_to_end:
  assumes nx: "\<And>p. p < length xs \<Longrightarrow> same c (xs ! p) \<Longrightarrow> m_next_dup (fld mh p) = next_of c xs p"
    and none: "next_of c xs n = None" and n: "\<not> same c (xs ! n)"
  shows "p < n \<Longrightarrow> n < length xs \<Longrightarrow> same c (xs ! p) \<Longrightarrow> ps < int n \<Longrightarrow> ns < int n \<Longrightarrow>
    \<exists>r s. attach_walk mh (int n) p ps (next_of c xs p) ns = Some (r, s, None) \<and> s < int n \<and> r < n \<and> same c (xs ! r) \<and> next_of c xs r = None"
proof (induction "n - p" arbitrary: p ps rule: less_induct)
  case less
  show ?case
  proof (cases "next_of c xs p")
    case None
    then show ?thesis using less.prems by (subst attach_walk.simps) auto
  next
    case (Some d)
    then have d: "p < d" "d < length xs" "same c (xs ! d)" by (simp_all add: first_from_Some)
    moreover have "\<not> n < d" using none d by (auto simp: first_from_None)
    ultimately have dn: "d < n" using n by (metis linorder_neqE_nat)
    have "n - d < n - p" using d dn by linarith
    from less.hyps [OF this dn less.prems(2) d(3) less.prems(5,5)]
    show ?thesis using less.prems(4,5) Some nx [OF d(2,3)] by (subst attach_walk.simps) simp
  qed
qed

lemma attach_place:
  assumes nx: "\<And>p. p < length xs \<Longrightarrow> same c (xs ! p) \<Longrightarrow> m_next_dup (fld mh p) = next_of c xs p"
    and n: "n < length xs" "\<not> same c (xs ! n)" "key (xs ! n) = c" and q: "head_of xs c = Some q" "q < n"
    and ord: "in_order xs n"
    and ns: "\<And>d. next_of c xs q = Some d \<Longrightarrow> ns = int d" "next_of c xs q = None \<Longrightarrow> ns = - 1"
  shows "\<exists>r s. attach_walk mh (int n) q (int q) (next_of c xs q) ns = Some (r, s, next_of c xs n) \<and> s < int n \<and> r < n \<and>
    same c (xs ! r) \<and> next_of c xs r = next_of c xs n"
proof -
  have q': "q < length xs" "same c (xs ! q)" using q(1) by (simp_all add: head_of_def first_from_Some)
  show ?thesis
  proof (cases "next_of c xs q")
    case None
    then have "next_of c xs n = None" using q(2) by (auto simp: first_from_None)
    then show ?thesis using None q(2) q' by (subst attach_walk.simps) auto
  next
    case (Some d)
    then have d: "q < d" "d < length xs" "same c (xs ! d)" "\<forall>j. Suc q \<le> j \<and> j < d \<longrightarrow> \<not> same c (xs ! j)"
      by (simp_all add: first_from_Some)
    show ?thesis
    proof (cases "n < d")
      case True
      then have "next_of c xs n = Some d" using d q(2) by (auto simp: first_from_Some)
      then show ?thesis using True Some q(2) q' ns(1) [OF Some] by (subst attach_walk.simps) auto
    next
      case False
      then have dn: "d < n" using d(3) n(2) by (metis linorder_neqE_nat)
      have none: "next_of c xs n = None"
        unfolding first_from_None using ord d dn q' n(3) unfolding in_order_def by (meson Suc_le_lessD)
      have "int d < int n" using dn by simp
      then show ?thesis using walk_to_end [OF nx none n(2) dn n(1) d(3), of "int d" "int d"] Some ns(1) [OF Some] nx [OF d(2,3)] q(2) none
        by (subst attach_walk.simps) simp
    qed
  qed
qed

text \<open>The field of slot \<open>n\<close> becomes live: the links, the heads and the marks.\<close>

lemma join_next:
  assumes "n < length xs" "\<not> is_live (xs ! n)"
  defines "zs \<equiv> xs[n := (xs ! n)\<lparr>m_readiness := LIVE\<rparr>]" and "c \<equiv> key (xs ! n)"
  shows "j \<noteq> n \<Longrightarrow> next_same zs j = (if key (xs ! j) = c \<and> j < n
      then (case next_of c xs j of Some m \<Rightarrow> if m < n then Some m else Some n | None \<Rightarrow> Some n) else next_same xs j)"
    "next_same zs n = next_of c xs n"
    "head_of zs c = (case head_of xs c of Some m \<Rightarrow> if m < n then Some m else Some n | None \<Rightarrow> Some n)"
    "c' \<noteq> c \<Longrightarrow> head_of zs c' = head_of xs c'"
proof -
  have old: "\<not> same c' (xs ! n)" for c' using assms(2) by (simp add: same_def)
  have new: "same c' ((xs ! n)\<lparr>m_readiness := LIVE\<rparr>) \<longleftrightarrow> c' = c" for c' by (auto simp: same_def c_def)
  have ins: "first_from k (same c) zs = (case first_from k (same c) xs of Some m \<Rightarrow> if m < n \<or> n < k then Some m else Some n
      | None \<Rightarrow> if k \<le> n then Some n else None)" for k
    unfolding zs_def by (rule first_from_insert [where P = "same c", OF assms(1) old]) (simp add: new)
  have oth: "first_from k (same c') zs = first_from k (same c') xs" if "c' \<noteq> c" for k c'
    unfolding zs_def by (rule first_from_other [where P = "same c'", OF old]) (simp add: new that)
  show "next_same zs j = (if key (xs ! j) = c \<and> j < n
      then (case next_of c xs j of Some m \<Rightarrow> if m < n then Some m else Some n | None \<Rightarrow> Some n) else next_same xs j)"
    if j: "j \<noteq> n"
  proof (cases "key (xs ! j) = c")
    case True
    then show ?thesis using j ins [of "Suc j"]
      by (auto simp: next_same_def zs_def split: option.split)
  next
    case False
    then show ?thesis using j oth [OF False, of "Suc j"] by (simp add: next_same_def) (simp add: zs_def)
  qed
  have "key (zs ! n) = c" using assms(1) by (simp add: zs_def c_def)
  then show "next_same zs n = next_of c xs n" using ins [of "Suc n"]
    by (cases "next_of c xs n") (simp_all add: next_same_def)
  show "head_of zs c = (case head_of xs c of Some m \<Rightarrow> if m < n then Some m else Some n | None \<Rightarrow> Some n)"
    using ins [of 0] by (simp add: head_of_def split: option.split)
  show "c' \<noteq> c \<Longrightarrow> head_of zs c' = head_of xs c'" using oth by (simp add: head_of_def)
qed

lemma join_fields:
  assumes ok: "fields_ok T xs" and n: "n < length xs" "\<not> is_live (xs ! n)" and kn: "known T (xs ! n)"
  defines "zs \<equiv> xs[n := (xs ! n)\<lparr>m_readiness := LIVE\<rparr>]" and "c \<equiv> key (xs ! n)"
  assumes skel: "skel zs ys"
    and unlinked: "\<And>j. j < length xs \<Longrightarrow> j \<noteq> n \<Longrightarrow> \<not> same c (xs ! j) \<Longrightarrow>
      m_next_dup (ys ! j) = m_next_dup (xs ! j) \<and> m_dup_head (ys ! j) = m_dup_head (xs ! j)"
    and linked: "\<And>j. j < length xs \<Longrightarrow> same c (xs ! j) \<Longrightarrow>
      m_next_dup (ys ! j) = (if j < n then (case next_of c xs j of Some m \<Rightarrow> if m < n then Some m else Some n | None \<Rightarrow> Some n)
        else next_of c xs j) \<and> (m_dup_head (ys ! j) \<longleftrightarrow> head_of xs c = Some j \<and> j < n)"
    and here: "m_next_dup (ys ! n) = next_of c xs n" "m_dup_head (ys ! n) \<longleftrightarrow> (\<forall>m. head_of xs c = Some m \<longrightarrow> n < m)"
  shows "fields_ok T ys"
proof (rule fields_okI [OF skel])
  have len: "length zs = length xs" by (simp add: zs_def)
  note join = join_next [OF n, folded zs_def c_def]
  have nc: "\<not> same c (xs ! n)" using n(2) by (simp add: same_def)
  have head: "head_of zs c = (case head_of xs c of Some m \<Rightarrow> if m < n then Some m else Some n | None \<Rightarrow> Some n)"
    unfolding zs_def c_def by (rule join_next(3) [OF n]) 
  have hd: "head_of zs c = Some j \<longleftrightarrow> (head_of xs c = Some j \<and> j < n) \<or> (j = n \<and> (\<forall>m. head_of xs c = Some m \<longrightarrow> n < m))" for j
  proof (cases "head_of xs c")
    case (Some m)
    then have "m \<noteq> n" using nc by (auto simp: head_of_def first_from_Some)
    then show ?thesis using Some head by auto
  qed (use head in auto)
  show "known T (zs ! j) \<and> m_next_dup (ys ! j) = next_same zs j \<and> (m_dup_head (ys ! j) \<longleftrightarrow> head_of zs (key (zs ! j)) = Some j)"
    if "j < length zs" "is_live (zs ! j)" for j
  proof (cases "j = n")
    case True
    then have z: "zs ! j = (xs ! n)\<lparr>m_readiness := LIVE\<rparr>" using n(1) by (simp add: zs_def)
    then have "known T (zs ! j)" "key (zs ! j) = c" using kn by (simp_all add: known_def c_def)
    moreover have "next_same zs n = next_of c xs n" unfolding zs_def c_def by (rule join_next(2) [OF n])
    ultimately show ?thesis using here hd [of n] True nc by (auto simp: head_of_def first_from_Some)
  next
    case False
    then have j: "j < length xs" "is_live (xs ! j)" "zs ! j = xs ! j" using that by (simp_all add: zs_def)
    note old = fields_okD [OF ok j(1)]
    show ?thesis
    proof (cases "key (xs ! j) = c")
      case True
      then have "same c (xs ! j)" using j by (simp add: same_def)
      then show ?thesis using linked [OF j(1)] join(1) [OF False] hd [of j] old(1) [OF j(2)] True False j(3)
        by (auto simp: next_same_def)
    next
      case other: False
      then have "\<not> same c (xs ! j)" by (simp add: same_def)
      then show ?thesis using unlinked [OF j(1) False] join(1) [OF False] join(4) [OF other] old(1-3) [OF j(2)] other j(3)
        by simp
    qed
  qed
  show "m_next_dup (ys ! j) = None" if "j < length zs" "\<not> is_live (zs ! j)" for j
  proof -
    have "j \<noteq> n" using that n(1) by (auto simp: zs_def)
    then have j: "j < length xs" "\<not> is_live (xs ! j)" using that by (simp_all add: zs_def)
    then show ?thesis using unlinked [OF j(1) \<open>j \<noteq> n\<close>] fields_okD(4) [OF ok j(1)] by (simp add: same_def)
  qed
qed

lemma index_keep:
  "index_ok xs mh \<Longrightarrow> m_presence mh' = m_presence mh \<Longrightarrow> m_accelerators mh' = m_accelerators mh \<Longrightarrow>
    (\<And>k. head_of ys (Inl (int k)) = head_of xs (Inl (int k))) \<Longrightarrow> index_ok ys mh'"
  by (simp add: index_ok_def get_accelerator_def)

lemma attach_head:
  assumes T: "tokens_ok T" and ok: "hdr_ok T mh" and n: "n < length (slots mh)" "\<not> is_live (slots mh ! n)" and kn: "known T (slots mh ! n)"
  defines "zs \<equiv> (slots mh)[n := (slots mh ! n)\<lparr>m_readiness := LIVE\<rparr>]" and "c \<equiv> key (slots mh ! n)"
  assumes q: "\<And>q. head_of (slots mh) c = Some q \<Longrightarrow> n < q"
    and mh2: "shape mh2" "m_presence mh2 = m_presence mh" "m_accelerators mh2 = m_accelerators mh"
    and skel: "skel zs (slots mh2)"
    and links: "\<And>j. j < length zs \<Longrightarrow> j \<noteq> n \<Longrightarrow> m_next_dup (slots mh2 ! j) = m_next_dup (slots mh ! j) \<and>
      (m_dup_head (slots mh2 ! j) \<longleftrightarrow> m_dup_head (slots mh ! j) \<and> head_of (slots mh) c \<noteq> Some j)"
    "m_next_dup (slots mh2 ! n) = head_of (slots mh) c" "m_dup_head (slots mh2 ! n)"
  shows "hdr_ok T (set_accelerators_and_presence_bits T n mh2)"
    "skel zs (slots (set_accelerators_and_presence_bits T n mh2))"
proof -
  have sh: "shape mh" and f: "fields_ok T (slots mh)" and ix: "index_ok (slots mh) mh" using ok by (simp_all add: hdr_ok_def)
  let ?xs = "slots mh"
  have len: "length zs = length ?xs" "length (slots mh2) = length ?xs" using skel_length [OF skel] by (simp_all add: zs_def)
  have after: "next_of c ?xs n = head_of ?xs c"
  proof (cases "head_of ?xs c")
    case None
    then have "\<forall>j < length ?xs. \<not> same c (?xs ! j)" by (simp add: head_of_def first_from_None)
    then have "next_of c ?xs n = None" unfolding first_from_None by blast
    then show ?thesis using None by simp
  next
    case (Some q)
    then have "next_of c ?xs n = Some q" using assms(8) [OF Some] by (simp add: head_of_def first_from_Some)
    then show ?thesis using Some by simp
  qed
  have later: "n < j" if "j < length ?xs" "same c (?xs ! j)" for j
  proof -
    have "head_of ?xs c \<noteq> None" using that unfolding head_of_def first_from_None by auto
    then obtain q where q: "head_of ?xs c = Some q" by blast
    then have "q \<le> j" using that unfolding head_of_def first_from_Some by (metis le0 not_less)
    moreover have "n < q" by (rule assms(8) [OF q])
    ultimately show ?thesis by simp
  qed
  have fok: "fields_ok T (slots mh2)"
  proof (rule join_fields [OF f n kn])
    show "skel (?xs[n := (?xs ! n)\<lparr>m_readiness := LIVE\<rparr>]) (slots mh2)" using skel by (simp add: zs_def)
    fix j assume j: "j < length ?xs"
    show "m_next_dup (slots mh2 ! j) = m_next_dup (?xs ! j) \<and> m_dup_head (slots mh2 ! j) = m_dup_head (?xs ! j)"
      if "j \<noteq> n" "\<not> same (key (?xs ! n)) (?xs ! j)"
      using links(1) [of j] that j len head_live [of ?xs c j] by (auto simp: c_def same_def)
    show "m_next_dup (slots mh2 ! j) = (if j < n then (case next_of (key (?xs ! n)) ?xs j of Some m \<Rightarrow> if m < n then Some m else Some n | None \<Rightarrow> Some n)
        else next_of (key (?xs ! n)) ?xs j) \<and> (m_dup_head (slots mh2 ! j) \<longleftrightarrow> head_of ?xs (key (?xs ! n)) = Some j \<and> j < n)"
      if s: "same (key (?xs ! n)) (?xs ! j)"
    proof -
      have jn: "n < j" using later [OF j] s by (simp add: c_def)
      have lj: "is_live (?xs ! j)" "key (?xs ! j) = c" using s by (simp_all add: same_def c_def)
      show ?thesis using links(1) [of j] jn j len fields_okD(2,3) [OF f j lj(1)] lj(2)
        by (simp add: next_same_def c_def)
    qed
  next
    show "m_next_dup (slots mh2 ! n) = next_of (key (?xs ! n)) ?xs n" using links(2) after by (simp add: c_def)
    show "m_dup_head (slots mh2 ! n) \<longleftrightarrow> (\<forall>m. head_of ?xs (key (?xs ! n)) = Some m \<longrightarrow> n < m)" using links(3) assms(8) by (auto simp: c_def)
  qed
  have hz: "head_of (slots mh2) c = Some n" "c' \<noteq> c \<Longrightarrow> head_of (slots mh2) c' = head_of ?xs c'" for c'
    using join_next(3,4) [OF n] skel_head [OF skel] assms(8) unfolding zs_def c_def
    by (force split: option.split)+
  have key2: "key (slots mh2 ! n) = c" "known T (slots mh2 ! n)"
    using skel_key [OF skel, of n] skel_known [OF skel, of n T] n(1) kn by (simp_all add: zs_def c_def known_def)
  have others: "index_at (slots mh2) mh2 k" if "k < 128" "key (slots mh2 ! n) \<noteq> Inl (int k)" for k
  proof -
    have "index_at ?xs mh k" using ix that(1) by (simp add: index_ok_at)
    then show ?thesis using hz(2) [of "Inl (int k)"] that(2) key2(1) mh2(2,3) by (simp add: index_at_def get_accelerator_def)
  qed
  have n2: "n < length (slots mh2)" using n(1) len by simp
  have "head_of (slots mh2) (key (slots mh2 ! n)) = Some n" using hz(1) key2(1) by simp
  note si = set_index [OF T mh2(1) n2 key2(2) others this]
  show "hdr_ok T (set_accelerators_and_presence_bits T n mh2)" using si fok by (simp add: hdr_ok_def)
  show "skel zs (slots (set_accelerators_and_presence_bits T n mh2))" using si(1) skel by simp
qed

lemma attach_middle:
  assumes T: "tokens_ok T" and ok: "hdr_ok T mh" and n: "n < length (slots mh)" "\<not> is_live (slots mh ! n)" and kn: "known T (slots mh ! n)"
  defines "zs \<equiv> (slots mh)[n := (slots mh ! n)\<lparr>m_readiness := LIVE\<rparr>]" and "c \<equiv> key (slots mh ! n)"
  assumes q: "head_of (slots mh) c = Some q" "q < n"
    and r: "r < n" "same c (slots mh ! r)" "next_of c (slots mh) r = next_of c (slots mh) n"
    and mh2: "shape mh2" "m_presence mh2 = m_presence mh" "m_accelerators mh2 = m_accelerators mh"
    and skel: "skel zs (slots mh2)"
    and links: "\<And>j. j < length zs \<Longrightarrow> j \<noteq> n \<Longrightarrow> m_dup_head (slots mh2 ! j) = m_dup_head (slots mh ! j) \<and>
      m_next_dup (slots mh2 ! j) = (if j = r then Some n else m_next_dup (slots mh ! j))"
    "m_next_dup (slots mh2 ! n) = next_of c (slots mh) n" "\<not> m_dup_head (slots mh2 ! n)"
  shows "hdr_ok T mh2"
proof -
  have sh: "shape mh" and f: "fields_ok T (slots mh)" and ix: "index_ok (slots mh) mh" using ok by (simp_all add: hdr_ok_def)
  let ?xs = "slots mh"
  have len: "length zs = length ?xs" "length (slots mh2) = length ?xs" using skel_length [OF skel] by (simp_all add: zs_def)
  have gap: "\<not> same c (?xs ! j)" if "r < j" "j < n" "j < length ?xs" for j
  proof
    assume s: "same c (?xs ! j)"
    have "next_of c ?xs r \<noteq> None" using s that unfolding first_from_None by (metis Suc_leI)
    then obtain m where m: "next_of c ?xs r = Some m" by blast
    then have "m \<le> j" using s that by (auto simp: first_from_Some not_less [symmetric])
    moreover have "n < m" using m r(3) by (simp add: first_from_Some)
    ultimately show False using that(2) by simp
  qed
  have fok: "fields_ok T (slots mh2)"
  proof (rule join_fields [OF f n kn])
    show "skel (?xs[n := (?xs ! n)\<lparr>m_readiness := LIVE\<rparr>]) (slots mh2)" using skel by (simp add: zs_def)
    fix j assume j: "j < length ?xs"
    show "m_next_dup (slots mh2 ! j) = m_next_dup (?xs ! j) \<and> m_dup_head (slots mh2 ! j) = m_dup_head (?xs ! j)"
      if "j \<noteq> n" "\<not> same (key (?xs ! n)) (?xs ! j)"
      using links(1) [of j] that j len r(2) by (auto simp: c_def)
    show "m_next_dup (slots mh2 ! j) = (if j < n then (case next_of (key (?xs ! n)) ?xs j of Some m \<Rightarrow> if m < n then Some m else Some n | None \<Rightarrow> Some n)
        else next_of (key (?xs ! n)) ?xs j) \<and> (m_dup_head (slots mh2 ! j) \<longleftrightarrow> head_of ?xs (key (?xs ! n)) = Some j \<and> j < n)"
      if s: "same (key (?xs ! n)) (?xs ! j)"
    proof -
      have lj: "is_live (?xs ! j)" "key (?xs ! j) = c" using s by (simp_all add: same_def c_def)
      have jn: "j \<noteq> n" using lj n by auto
      have old: "m_next_dup (?xs ! j) = next_of c ?xs j" "m_dup_head (?xs ! j) \<longleftrightarrow> head_of ?xs c = Some j"
        using fields_okD(2,3) [OF f j lj(1)] lj(2) by (simp_all add: next_same_def)
      have hd: "m_dup_head (slots mh2 ! j) \<longleftrightarrow> head_of ?xs c = Some j \<and> j < n"
        using links(1) [of j] j len jn old(2) q by auto
      have nx: "m_next_dup (slots mh2 ! j) = (if j < n then (case next_of c ?xs j of Some m \<Rightarrow> if m < n then Some m else Some n | None \<Rightarrow> Some n)
        else next_of c ?xs j)"
      proof (cases "j = r")
        case True
        have "n < m" if "next_of c ?xs j = Some m" for m using that r(3) True by (simp add: first_from_Some)
        then show ?thesis using links(1) [of j] True r(1) j len jn by (auto split: option.split dest: less_asym)
      next
        case False
        show ?thesis
        proof (cases "j < n")
          case True
          then have "j < r" using gap [of j] False j s by (metis linorder_neqE_nat c_def)
          have "next_of c ?xs j \<noteq> None"
            using \<open>j < r\<close> r(1,2) n(1) unfolding first_from_None by (metis Suc_leI less_trans)
          then obtain m where m: "next_of c ?xs j = Some m" by blast
          then have "m \<le> r" using \<open>j < r\<close> r(2) unfolding first_from_Some by (metis Suc_leI not_less)
          note m = m this
          then show ?thesis using links(1) [of j] False True r(1) j len jn old(1) by simp
        next
          case ge: False
          then show ?thesis using links(1) [of j] False j len jn old(1) by simp
        qed
      qed
      show ?thesis using hd nx by (simp add: c_def)
    qed
  next
    show "m_next_dup (slots mh2 ! n) = next_of (key (?xs ! n)) ?xs n" using links(2) by (simp add: c_def)
    show "m_dup_head (slots mh2 ! n) \<longleftrightarrow> (\<forall>m. head_of ?xs (key (?xs ! n)) = Some m \<longrightarrow> n < m)" using links(3) q by (auto simp: c_def)
  qed
  have "head_of (slots mh2) c' = head_of ?xs c'" for c'
    using join_next(3,4) [OF n] skel_head [OF skel] q unfolding zs_def c_def
    by (cases "c' = key (?xs ! n)") auto
  then have "index_ok (slots mh2) mh2" by (intro index_keep [OF ix mh2(2,3)])
  then show ?thesis using fok mh2(1) by (simp add: hdr_ok_def)
qed

lemma name_get:
  assumes "tokens_ok T" "known T f"
  shows "honest_name T (mime_field_name_get f)" "name_key T (mime_field_name_get f) = key f"
proof -
  show "honest_name T (mime_field_name_get f)"
    using assms(2) tokenize_range [OF assms(1), of "m_name f"]
    by (auto simp: mime_field_name_get_def honest_name_def known_def)
  show "name_key T (mime_field_name_get f) = key f"
    using known_key [OF assms(2)] by (cases "m_wks_idx f \<ge> 0") (simp_all add: mime_field_name_get_def name_key_def, simp add: key_def)
qed

lemma live_upd:
  assumes "shape mh" "n < length (slots mh)"
  defines "mh1 \<equiv> upd_fld n (\<lambda>g. g\<lparr>m_readiness := LIVE\<rparr>) mh"
  shows "slots mh1 = (slots mh)[n := (slots mh ! n)\<lparr>m_readiness := LIVE\<rparr>]" "shape mh1"
    "m_presence mh1 = m_presence mh" "m_accelerators mh1 = m_accelerators mh" "length (slots mh1) = length (slots mh)"
  using assms(1,2) by (simp_all add: mh1_def)

lemma link_ok:
  assumes T: "tokens_ok T" and ok: "hdr_ok T mh" and n: "n < length (slots mh)" "\<not> is_live (slots mh ! n)" and kn: "known T (slots mh ! n)"
    and ord: "in_order (slots mh) n"
  defines "mh1 \<equiv> upd_fld n (\<lambda>g. g\<lparr>m_readiness := LIVE\<rparr>) mh" and "zs \<equiv> (slots mh)[n := (slots mh ! n)\<lparr>m_readiness := LIVE\<rparr>]"
  assumes q: "head_of (slots mh) (key (slots mh ! n)) = Some q"
  shows "\<exists>mh2. link_dup T n q mh1 = Some mh2 \<and> hdr_ok T mh2 \<and> skel zs (slots mh2)"
proof -
  let ?xs = "slots mh" and ?c = "key (slots mh ! n)"
  have sh: "shape mh" and f: "fields_ok T ?xs" using ok by (simp_all add: hdr_ok_def)
  note l = live_upd [OF sh n(1), folded mh1_def]
  have z: "slots mh1 = zs" "length zs = length ?xs" using l(1) by (simp_all add: zs_def)
  have q': "q < length ?xs" "is_live (?xs ! q)" "key (?xs ! q) = ?c" using head_live [OF q] by simp_all
  have qn: "q \<noteq> n" using q'(2) n(2) by auto
  have fq: "fld mh1 p = zs ! p" if "p < length ?xs" for p using fld_slots [OF l(2), of p] that z by simp
  have nxt: "m_next_dup (fld mh1 p) = next_of ?c ?xs p" if "p < length ?xs" "same ?c (?xs ! p)" for p
  proof -
    have "p \<noteq> n" "is_live (?xs ! p)" "key (?xs ! p) = ?c" using that(2) n(2) by (auto simp: same_def)
    then show ?thesis using fields_okD(2) [OF f that(1)] fq [OF that(1)] by (simp add: zs_def next_same_def)
  qed
  have sq: "same ?c (?xs ! q)" using q' by (simp add: same_def)
  have ns: "mime_hdr_field_slotnum mh1 p = int p" if "p < length ?xs" for p using slotnum [OF l(2)] that z by simp
  define w where "w = (case next_of ?c ?xs q of Some d \<Rightarrow> mime_hdr_field_slotnum mh1 d | None \<Rightarrow> - 1)"
  have link: "link_dup T n q mh1 = map_option
           (\<lambda>(prev_dup, prev_slotnum, next_dup).
              if prev_slotnum > int n
              then set_accelerators_and_presence_bits T n
                     (upd_fld prev_dup (\<lambda>g. g\<lparr>m_dup_head := False\<rparr>)
                       (upd_fld n (\<lambda>g. g\<lparr>m_dup_head := True, m_next_dup := Some prev_dup\<rparr>) mh1))
              else upd_fld n (\<lambda>g. g\<lparr>m_next_dup := next_dup\<rparr>)
                     (upd_fld prev_dup (\<lambda>g. g\<lparr>m_next_dup := Some n\<rparr>)
                       (upd_fld n (\<lambda>g. g\<lparr>m_dup_head := False\<rparr>) mh1)))
           (attach_walk mh1 (int n) q (int q) (next_of ?c ?xs q) w)"
    using nxt [OF q'(1) sq] ns [OF n(1)] ns [OF q'(1)] by (simp add: link_dup_def Let_def w_def)
  have nh: "(?xs ! n)\<lparr>m_readiness := LIVE\<rparr> = zs ! n" using n(1) by (simp add: zs_def)
  show ?thesis
  proof (cases "n < q")
    case True
    let ?mh2 = "upd_fld q (\<lambda>g. g\<lparr>m_dup_head := False\<rparr>) (upd_fld n (\<lambda>g. g\<lparr>m_dup_head := True, m_next_dup := Some q\<rparr>) mh1)"
    have walk: "attach_walk mh1 (int n) q (int q) (next_of ?c ?xs q) w = Some (q, int q, next_of ?c ?xs q)"
      using True by (subst attach_walk.simps) simp
    have s2: "slots ?mh2 = zs[n := (zs ! n)\<lparr>m_dup_head := True, m_next_dup := Some q\<rparr>, q := (zs ! q)\<lparr>m_dup_head := False\<rparr>]"
      using l(2) n(1) q'(1) z qn by simp
    have sk: "skel zs (slots ?mh2)"
    proof -
      have "skel zs (zs[n := (zs ! n)\<lparr>m_dup_head := True, m_next_dup := Some q\<rparr>])" by (rule skel_upd) simp_all
      from skel_upd [OF this, of "\<lambda>g. g\<lparr>m_dup_head := False\<rparr>" q] show ?thesis using qn by (simp add: s2)
    qed
    have before: "n < p" if "head_of ?xs ?c = Some p" for p using that q True by simp
    have sh2: "shape ?mh2" "m_presence ?mh2 = m_presence mh" "m_accelerators ?mh2 = m_accelerators mh"
      using l n(1) q'(1) z by simp_all
    have links: "m_next_dup (slots ?mh2 ! j) = m_next_dup (?xs ! j) \<and> (m_dup_head (slots ?mh2 ! j) \<longleftrightarrow> m_dup_head (?xs ! j) \<and> head_of ?xs ?c \<noteq> Some j)"
      if "j < length (?xs[n := (?xs ! n)\<lparr>m_readiness := LIVE\<rparr>])" "j \<noteq> n" for j
      using that q q'(1) by (cases "j = q") (simp_all add: s2 z(2), simp_all add: zs_def)
    have here: "m_next_dup (slots ?mh2 ! n) = head_of ?xs ?c" "m_dup_head (slots ?mh2 ! n)" using qn q n(1) z(2) by (simp_all add: s2)
    have "hdr_ok T (set_accelerators_and_presence_bits T n ?mh2) \<and> skel zs (slots (set_accelerators_and_presence_bits T n ?mh2))"
      unfolding zs_def by (intro conjI attach_head [OF T ok n kn before sh2 sk [unfolded zs_def] links here])
    then show ?thesis using True unfolding link walk by auto
  next
    case False
    then have "q < n" using qn by simp
    have wd: "w = int d" if d: "next_of ?c ?xs q = Some d" for d
    proof -
      have "d < length ?xs" using d by (simp add: first_from_Some)
      then show ?thesis using d ns [of d] by (simp add: w_def)
    qed
    have wn: "next_of ?c ?xs q = None \<Longrightarrow> w = - 1" by (simp add: w_def)
    obtain r s where walk: "attach_walk mh1 (int n) q (int q) (next_of ?c ?xs q) w = Some (r, s, next_of ?c ?xs n)" and r: "s < int n" "r < n"
      "same ?c (?xs ! r)" "next_of ?c ?xs r = next_of ?c ?xs n"
      using attach_place [OF nxt n(1) _ refl q \<open>q < n\<close> ord wd wn] n(2) by (auto simp: same_def)
    let ?mh2 = "upd_fld n (\<lambda>g. g\<lparr>m_next_dup := next_of ?c ?xs n\<rparr>) (upd_fld r (\<lambda>g. g\<lparr>m_next_dup := Some n\<rparr>)
                       (upd_fld n (\<lambda>g. g\<lparr>m_dup_head := False\<rparr>) mh1))"
    have rn: "r < length ?xs" "r \<noteq> n" using r(2) n(1) by simp_all
    have s2: "slots ?mh2 = zs[n := (zs ! n)\<lparr>m_dup_head := False\<rparr>, r := (zs ! r)\<lparr>m_next_dup := Some n\<rparr>,
        n := (zs ! n)\<lparr>m_dup_head := False, m_next_dup := next_of ?c ?xs n\<rparr>]"
      using l(2) n(1) rn z by simp
    have sk: "skel zs (slots ?mh2)"
    proof -
      have "skel zs (zs[n := (zs ! n)\<lparr>m_dup_head := False\<rparr>])" by (rule skel_upd) simp_all
      from skel_upd [OF this, of "\<lambda>g. g\<lparr>m_next_dup := Some n\<rparr>" r]
      have "skel zs (zs[n := (zs ! n)\<lparr>m_dup_head := False\<rparr>, r := (zs ! r)\<lparr>m_next_dup := Some n\<rparr>])" using rn by simp
      from skel_upd [OF this, of "\<lambda>g. g\<lparr>m_next_dup := next_of ?c ?xs n\<rparr>" n]
      show ?thesis using rn n(1) z(2) by (simp add: s2)
    qed
    have "hdr_ok T ?mh2"
    proof (rule attach_middle [OF T ok n kn q \<open>q < n\<close> r(2-4)])
      show "shape ?mh2" "m_presence ?mh2 = m_presence mh" "m_accelerators ?mh2 = m_accelerators mh"
        using l n(1) rn z by simp_all
      show "skel (?xs[n := (?xs ! n)\<lparr>m_readiness := LIVE\<rparr>]) (slots ?mh2)" using sk by (simp add: zs_def)
      show "m_dup_head (slots ?mh2 ! j) = m_dup_head (?xs ! j) \<and> m_next_dup (slots ?mh2 ! j) = (if j = r then Some n else m_next_dup (?xs ! j))"
        if "j < length (?xs[n := (?xs ! n)\<lparr>m_readiness := LIVE\<rparr>])" "j \<noteq> n" for j
        using that by (cases "j = r") (simp_all add: s2 z(2), simp_all add: zs_def)
      show "m_next_dup (slots ?mh2 ! n) = next_of ?c ?xs n" "\<not> m_dup_head (slots ?mh2 ! n)" using n(1) z(2) by (simp_all add: s2)
    qed
    then show ?thesis using r(1) sk unfolding link walk by auto
  qed
qed

lemma attach_ok:
  assumes T: "tokens_ok T" and ok: "hdr_ok T mh" and n: "n < length (slots mh)" "m_readiness (slots mh ! n) = DETACHED"
    and kn: "known T (slots mh ! n)" and ord: "in_order (slots mh) n"
    and prev: "check \<or> prev = head_of (slots mh) (key (slots mh ! n))"
  shows "\<exists>mh'. mime_hdr_field_attach T n check prev mh = Some mh' \<and> hdr_ok T mh' \<and>
    skel ((slots mh)[n := (slots mh ! n)\<lparr>m_readiness := LIVE\<rparr>]) (slots mh')"
proof -
  let ?xs = "slots mh" and ?mh1 = "upd_fld n (\<lambda>g. g\<lparr>m_readiness := LIVE\<rparr>) mh"
  let ?zs = "?xs[n := (?xs ! n)\<lparr>m_readiness := LIVE\<rparr>]"
  have sh: "shape mh" and f: "fields_ok T ?xs" using ok by (simp_all add: hdr_ok_def)
  have nl: "\<not> is_live (?xs ! n)" using n(2) by simp
  note l = live_upd [OF sh n(1)]
  have fn: "fld mh n = ?xs ! n" by (rule fld_slots [OF sh n(1)])
  define p where "p = (if check \<or> (case prev of Some q \<Rightarrow> \<not> m_dup_head (fld mh q) | None \<Rightarrow> False)
                            then mime_hdr_field_find T mh (mime_field_name_get (fld mh n)) else prev)"
  have p: "p = head_of ?xs (key (?xs ! n))"
  proof -
    have "mime_hdr_field_find T mh (mime_field_name_get (fld mh n)) = head_of ?xs (key (?xs ! n))"
      using find_head [OF T ok name_get(1) [OF T kn]] name_get(2) [OF T kn] by (simp add: fn)
    then show ?thesis using prev by (auto simp: p_def)
  qed
  have step: "\<exists>mh2. (case p of Some q \<Rightarrow> link_dup T n q ?mh1
      | None \<Rightarrow> Some (set_accelerators_and_presence_bits T n (upd_fld n (\<lambda>g. g\<lparr>m_dup_head := True\<rparr>) ?mh1))) = Some mh2 \<and>
      hdr_ok T mh2 \<and> skel ?zs (slots mh2)"
  proof (cases p)
    case (Some q)
    then show ?thesis using link_ok [OF T ok n(1) nl kn ord] p by simp
  next
    case None
    let ?mh2 = "upd_fld n (\<lambda>g. g\<lparr>m_dup_head := True\<rparr>) ?mh1"
    have s2: "slots ?mh2 = ?zs[n := (?zs ! n)\<lparr>m_dup_head := True\<rparr>]" using l n(1) by simp
    have h: "head_of ?xs (key (?xs ! n)) = None" using None p by simp
    have before: "n < q" if "head_of ?xs (key (?xs ! n)) = Some q" for q using that h by simp
    have sh2: "shape ?mh2" "m_presence ?mh2 = m_presence mh" "m_accelerators ?mh2 = m_accelerators mh" using l n(1) by simp_all
    have sk: "skel ?zs (slots ?mh2)"
      using skel_upd [OF skel_refl [of ?zs], of "\<lambda>g. g\<lparr>m_dup_head := True\<rparr>" n] unfolding s2 by simp
    have links: "m_next_dup (slots ?mh2 ! j) = m_next_dup (?xs ! j) \<and>
        (m_dup_head (slots ?mh2 ! j) \<longleftrightarrow> m_dup_head (?xs ! j) \<and> head_of ?xs (key (?xs ! n)) \<noteq> Some j)"
      if "j < length ?zs" "j \<noteq> n" for j using that h by (simp add: s2)
    have here: "m_next_dup (slots ?mh2 ! n) = head_of ?xs (key (?xs ! n))" "m_dup_head (slots ?mh2 ! n)"
      using h n(1) fields_okD(4) [OF f n(1) nl] by (simp_all add: s2)
    have "hdr_ok T (set_accelerators_and_presence_bits T n ?mh2) \<and> skel ?zs (slots (set_accelerators_and_presence_bits T n ?mh2))"
      using attach_head [OF T ok n(1) nl kn before sh2 sk links here] by simp
    then show ?thesis using None by simp
  qed
  then obtain mh2 where mh2: "(case p of Some q \<Rightarrow> link_dup T n q ?mh1
      | None \<Rightarrow> Some (set_accelerators_and_presence_bits T n (upd_fld n (\<lambda>g. g\<lparr>m_dup_head := True\<rparr>) ?mh1))) = Some mh2"
      "hdr_ok T mh2" "skel ?zs (slots mh2)" by blast
  obtain mh3 where mh3: "recompute_cooked_stuff T (Some (m_wks_idx (fld mh2 n))) mh2 = Some mh3" "same_index mh2 mh3"
    using recompute_total [OF T mh2(2)] by blast
  have at: "mime_hdr_field_attach T n check prev mh =
      (if m_value (fld mh2 n) \<noteq> None \<and> m_cooked (fld mh2 n) then Some mh3 else Some mh2)"
    using mh2(1) mh3(1) n(2) unfolding mime_hdr_field_attach_def Let_def p_def [symmetric] by (simp add: fn)
  have "hdr_ok T mh3" "slots mh3 = slots mh2" using same_index_ok [OF mh3(2)] mh2(2) by simp_all
  then show ?thesis using at mh2(2,3) by (cases "m_value (fld mh2 n) \<noteq> None \<and> m_cooked (fld mh2 n)") auto
qed

section \<open>Detaching\<close>

lemma leave_next:
  assumes "n < length xs" "is_live (xs ! n)"
  defines "zs \<equiv> xs[n := (xs ! n)\<lparr>m_readiness := DETACHED\<rparr>]" and "c \<equiv> key (xs ! n)"
  shows "j \<noteq> n \<Longrightarrow> next_same zs j = (if next_same xs j = Some n then next_of c xs n else next_same xs j)"
    "head_of zs c' = (if head_of xs c' = Some n then next_of c xs n else head_of xs c')"
proof -
  have del: "first_from k (same c) zs = (if first_from k (same c) xs = Some n then next_of c xs n else first_from k (same c) xs)" for k
    unfolding zs_def by (rule first_from_delete [where P = "same c", OF assms(1)]) (use assms(2) in \<open>simp_all add: same_def c_def\<close>)
  have oth: "first_from k (same c') zs = first_from k (same c') xs" if "c' \<noteq> c" for k c'
    unfolding zs_def by (rule first_from_other [where P = "same c'"]) (use that in \<open>simp_all add: same_def c_def\<close>)
  have not_n: "first_from k (same c') xs \<noteq> Some n" if "c' \<noteq> c" for k c'
    using that by (auto simp: first_from_Some same_def c_def)
  show "next_same zs j = (if next_same xs j = Some n then next_of c xs n else next_same xs j)" if j: "j \<noteq> n"
  proof -
    have k: "key (zs ! j) = key (xs ! j)" using j by (simp add: zs_def)
    show ?thesis
    proof (cases "key (xs ! j) = c")
      case True
      then show ?thesis using del by (simp add: next_same_def k)
    next
      case False
      then show ?thesis using oth not_n by (simp add: next_same_def k)
    qed
  qed
  show "head_of zs c' = (if head_of xs c' = Some n then next_of c xs n else head_of xs c')"
    using del oth not_n by (cases "c' = c") (simp_all add: head_of_def)
qed

lemma leave_fields:
  assumes ok: "fields_ok T xs" and n: "n < length xs" "is_live (xs ! n)"
  defines "zs \<equiv> xs[n := (xs ! n)\<lparr>m_readiness := DETACHED\<rparr>]" and "c \<equiv> key (xs ! n)"
  assumes skel: "skel zs ys"
    and links: "\<And>j. j < length xs \<Longrightarrow> j \<noteq> n \<Longrightarrow>
      m_next_dup (ys ! j) = (if m_next_dup (xs ! j) = Some n then next_of c xs n else m_next_dup (xs ! j)) \<and>
      (is_live (xs ! j) \<longrightarrow> m_dup_head (ys ! j) = (m_dup_head (xs ! j) \<or> (m_dup_head (xs ! n) \<and> next_of c xs n = Some j)))"
    "m_next_dup (ys ! n) = None"
  shows "fields_ok T ys"
proof (rule fields_okI [OF skel])
  have len: "length zs = length xs" by (simp add: zs_def)
  note leave = leave_next [OF n, folded zs_def c_def]
  have hn: "m_dup_head (xs ! n) \<longleftrightarrow> head_of xs c = Some n" using fields_okD(3) [OF ok n] by (simp add: c_def)
  show "known T (zs ! j) \<and> m_next_dup (ys ! j) = next_same zs j \<and> (m_dup_head (ys ! j) \<longleftrightarrow> head_of zs (key (zs ! j)) = Some j)"
    if "j < length zs" "is_live (zs ! j)" for j
  proof -
    have jn: "j \<noteq> n" using that n(1) by (auto simp: zs_def)
    then have j: "j < length xs" "is_live (xs ! j)" "zs ! j = xs ! j" using that by (simp_all add: zs_def)
    note old = fields_okD [OF ok j(1)]
    have "m_next_dup (ys ! j) = next_same zs j" using links(1) [OF j(1) jn] old(2) [OF j(2)] leave(1) [OF jn] by simp
    moreover have "m_dup_head (ys ! j) \<longleftrightarrow> head_of zs (key (xs ! j)) = Some j"
    proof (cases "head_of xs (key (xs ! j)) = Some n")
      case True
      then have "key (xs ! j) = c" using head_live [OF True] by (simp add: c_def)
      then show ?thesis using True links(1) [OF j(1) jn] old(3) [OF j(2)] leave(2) hn jn j(2) by auto
    next
      case False
      have "next_of c xs n \<noteq> Some j" if "m_dup_head (xs ! n)"
      proof
        assume "next_of c xs n = Some j"
        then have "key (xs ! j) = c" by (simp add: first_from_Some same_def)
        then show False using False that hn by simp
      qed
      then show ?thesis using False links(1) [OF j(1) jn] old(3) [OF j(2)] leave(2) j(2) by auto
    qed
    ultimately show ?thesis using old(1) [OF j(2)] j(3) by simp
  qed
  show "m_next_dup (ys ! j) = None" if "j < length zs" "\<not> is_live (zs ! j)" for j
  proof (cases "j = n")
    case True
    then show ?thesis using links(2) by simp
  next
    case False
    then have j: "j < length xs" "\<not> is_live (xs ! j)" using that by (simp_all add: zs_def)
    then show ?thesis using links(1) [OF j(1) False] fields_okD(4) [OF ok j(1)] by simp
  qed
qed

lemma find_prev_step:
  "find_prev mh n (Some p) = (if m_next_dup (fld mh p) \<noteq> Some n then find_prev mh n (m_next_dup (fld mh p)) else Some p)"
  by (subst find_prev.simps) simp

lemma find_prev_ok:
  assumes sh: "shape mh" and f: "fields_ok T (slots mh)" and n: "n < length (slots mh)" "same c (slots mh ! n)"
  shows "p < n \<Longrightarrow> same c (slots mh ! p) \<Longrightarrow> \<exists>r < n. find_prev mh n (Some p) = Some r \<and> same c (slots mh ! r) \<and> next_same (slots mh) r = Some n"
proof (induction "n - p" arbitrary: p rule: less_induct)
  case less
  let ?xs = "slots mh"
  have p: "p < length ?xs" "is_live (?xs ! p)" "key (?xs ! p) = c" using less.prems n(1) by (simp_all add: same_def)
  have nxt: "m_next_dup (fld mh p) = next_same ?xs p" using fields_okD(2) [OF f p(1,2)] fld_slots [OF sh p(1)] by simp
  show ?case
  proof (cases "next_same ?xs p = Some n")
    case True
    then show ?thesis using nxt less.prems by (simp add: find_prev_step)
  next
    case False
    have "next_same ?xs p \<noteq> None" using less.prems n p(3) unfolding next_same_def first_from_None by (metis Suc_leI)
    then obtain d where d: "next_same ?xs p = Some d" by blast
    then have "p < d" "same c (?xs ! d)" "d \<le> n"
      using p(3) less.prems(1) n unfolding next_same_def first_from_Some by (auto simp: not_less [symmetric])
    moreover from this have "d < n" using d False by (cases "d = n") auto
    ultimately have "\<exists>r < n. find_prev mh n (Some d) = Some r \<and> same c (?xs ! r) \<and> next_same ?xs r = Some n"
      by (intro less.hyps) auto
    then show ?thesis using d nxt False by (simp add: find_prev_step)
  qed
qed

definition out :: "nat \<Rightarrow> mime_hdr \<Rightarrow> mime_hdr" where
  "out n = upd_fld n (\<lambda>g. g\<lparr>m_readiness := DETACHED, m_next_dup := None\<rparr>)"

lemma out_simps [simp]:
  assumes "shape mh" "n < length (slots mh)"
  shows "slots (out n mh) = (slots mh)[n := (slots mh ! n)\<lparr>m_readiness := DETACHED, m_next_dup := None\<rparr>]" "shape (out n mh)"
    "m_presence (out n mh) = m_presence mh" "m_accelerators (out n mh) = m_accelerators mh"
  using assms by (simp_all add: out_def)

lemma unlink_ok:
  assumes T: "tokens_ok T" and ok: "hdr_ok T mh" and n: "n < length (slots mh)" "is_live (slots mh ! n)"
  defines "zs \<equiv> (slots mh)[n := (slots mh ! n)\<lparr>m_readiness := DETACHED\<rparr>]"
  shows "\<exists>mh1. unlink_dup T n mh = Some mh1 \<and> hdr_ok T (out n mh1) \<and> skel zs (slots (out n mh1)) \<and> length (slots mh1) = length (slots mh)"
proof -
  let ?xs = "slots mh" and ?c = "key (slots mh ! n)"
  have sh: "shape mh" and f: "fields_ok T ?xs" and ix: "index_ok ?xs mh" using ok by (simp_all add: hdr_ok_def)
  have fn: "fld mh n = ?xs ! n" by (rule fld_slots [OF sh n(1)])
  note old = fields_okD [OF f n(1)]
  have kn: "known T (?xs ! n)" by (rule old(1) [OF n(2)])
  have nx: "m_next_dup (?xs ! n) = next_of ?c ?xs n" using old(2) [OF n(2)] by (simp add: next_same_def)
  have hd: "m_dup_head (?xs ! n) \<longleftrightarrow> head_of ?xs ?c = Some n" by (rule old(3) [OF n(2)])
  note leave = leave_next [OF n, folded zs_def]
  have zn: "zs ! n = (?xs ! n)\<lparr>m_readiness := DETACHED\<rparr>" "length zs = length ?xs" using n(1) by (simp_all add: zs_def)
  have links: "m_next_dup (?xs ! j) \<noteq> Some n" if "m_dup_head (?xs ! n)" "j < length ?xs" for j
  proof
    assume l: "m_next_dup (?xs ! j) = Some n"
    then have lj: "is_live (?xs ! j)" using fields_okD(4) [OF f that(2)] by auto
    then have "next_same ?xs j = Some n" using fields_okD(2) [OF f that(2)] l by simp
    then have "j < n" "same ?c (?xs ! j)" using next_live [of ?xs j n] lj by (simp_all add: same_def)
    then show False using that(1) by (auto simp: hd head_of_def first_from_Some)
  qed
  have outer: "skel zs (slots (out n m))" if "shape m" "slots m = ys" "skel ?xs ys" for m ys
  proof -
    have "length ys = length ?xs" using that(3) by (simp add: skel_length)
    then have "slots (out n m) = ys[n := (ys ! n)\<lparr>m_readiness := DETACHED, m_next_dup := None\<rparr>]" using that(1,2) n(1) by simp
    then show ?thesis using that(3) n(1) by (auto simp: skel_def zs_def nth_list_update)
  qed
  show ?thesis
  proof (cases "m_dup_head (?xs ! n)")
    case True
    then have head: "head_of ?xs ?c = Some n" using hd by simp
    have heads: "head_of zs c' = (if c' = ?c then next_of ?c ?xs n else head_of ?xs c')" for c'
    proof (cases "c' = ?c")
      case True
      then show ?thesis using leave(2) [of c'] head by simp
    next
      case False
      then have "head_of ?xs c' \<noteq> Some n" using head_live [of ?xs c' n] by blast
      then show ?thesis using leave(2) [of c'] False by simp
    qed
    show ?thesis
    proof (cases "next_of ?c ?xs n")
      case None
      let ?mh1 = "unset_accelerators_and_presence_bits T n mh" and ?ys = "?xs[n := (?xs ! n)\<lparr>m_readiness := DETACHED, m_next_dup := None\<rparr>]"
      have sky: "skel zs ?ys" using outer [OF sh refl skel_refl] sh n(1) by simp
      have others: "index_at ?ys mh k" if "k < 128" "?c \<noteq> Inl (int k)" for k
      proof -
        have "index_at ?xs mh k" using ix that(1) by (simp add: index_ok_at)
        then show ?thesis using heads [of "Inl (int k)"] skel_head [OF sky] that(2) by (simp add: index_at_def)
      qed
      have "head_of ?ys ?c = None" using heads [of ?c] None skel_head [OF sky] by simp
      note u = unset_index [OF T sh n(1) kn others this]
      have s: "slots (out n ?mh1) = ?ys" using u n(1) by simp
      have "fields_ok T ?ys"
      proof (rule leave_fields [OF f n sky [unfolded zs_def]])
        show "m_next_dup (?ys ! j) = (if m_next_dup (?xs ! j) = Some n then next_of ?c ?xs n else m_next_dup (?xs ! j)) \<and>
          (is_live (?xs ! j) \<longrightarrow> m_dup_head (?ys ! j) = (m_dup_head (?xs ! j) \<or> m_dup_head (?xs ! n) \<and> next_of ?c ?xs n = Some j))"
          if "j < length ?xs" "j \<noteq> n" for j using that None links [OF True that(1)] by simp
      qed (use n(1) in simp)
      then have "hdr_ok T (out n ?mh1)" using s u n(1) index_keep [OF u(3), of "out n ?mh1" ?ys] by (simp add: hdr_ok_def)
      then show ?thesis using True None nx s sky u(1) by (simp add: unlink_dup_def Let_def fn)
    next
      case (Some d)
      have d: "n < d" "d < length ?xs" "is_live (?xs ! d)" "key (?xs ! d) = ?c" using Some by (simp_all add: first_from_Some same_def)
      let ?mh0 = "upd_fld d (\<lambda>g. g\<lparr>m_dup_head := True\<rparr>) mh"
      let ?mh1 = "set_accelerators_and_presence_bits T d ?mh0"
      let ?us = "?xs[d := (?xs ! d)\<lparr>m_dup_head := True\<rparr>]"
      let ?ys = "?us[n := (?us ! n)\<lparr>m_readiness := DETACHED, m_next_dup := None\<rparr>]"
      have s0: "slots ?mh0 = ?us" "shape ?mh0" using sh d(2) by simp_all
      have sk0: "skel ?xs ?us" using skel_upd [OF skel_refl [of ?xs], of "\<lambda>g. g\<lparr>m_dup_head := True\<rparr>" d] by simp
      have sky: "skel zs ?ys" using outer [OF s0(2,1) sk0] s0 n(1) by simp
      have d0: "d < length (slots ?mh0)" "slots ?mh0 ! d = (?xs ! d)\<lparr>m_dup_head := True\<rparr>" using d(2) s0(1) by simp_all
      have kd: "known T (slots ?mh0 ! d)" "key (slots ?mh0 ! d) = ?c"
        using fields_okD(1) [OF f d(2,3)] d(4) content_key(2) [of "(?xs ! d)\<lparr>m_dup_head := True\<rparr>" "?xs ! d" T] by (simp_all add: d0(2))
      have others: "index_at ?ys ?mh0 k" if "k < 128" "key (slots ?mh0 ! d) \<noteq> Inl (int k)" for k
      proof -
        have "index_at ?xs mh k" using ix that(1) by (simp add: index_ok_at)
        then show ?thesis using heads [of "Inl (int k)"] skel_head [OF sky] that(2) kd(2) by (simp add: index_at_def get_accelerator_def)
      qed
      have "head_of ?ys (key (slots ?mh0 ! d)) = Some d" using heads [of ?c] Some skel_head [OF sky] kd(2) by simp
      note u = set_index [OF T s0(2) d0(1) kd(1) others this]
      have s: "slots (out n ?mh1) = ?ys" using u n(1) s0 by simp
      have "fields_ok T ?ys"
      proof (rule leave_fields [OF f n sky [unfolded zs_def]])
        show "m_next_dup (?ys ! j) = (if m_next_dup (?xs ! j) = Some n then next_of ?c ?xs n else m_next_dup (?xs ! j)) \<and>
          (is_live (?xs ! j) \<longrightarrow> m_dup_head (?ys ! j) = (m_dup_head (?xs ! j) \<or> m_dup_head (?xs ! n) \<and> next_of ?c ?xs n = Some j))"
          if "j < length ?xs" "j \<noteq> n" for j using that Some True links [OF True that(1)] by (cases "j = d") auto
      qed (use n(1) in simp)
      then have "hdr_ok T (out n ?mh1)" using s u n(1) s0 index_keep [OF u(3), of "out n ?mh1" ?ys] by (simp add: hdr_ok_def)
      then show ?thesis using True Some nx s sky u(1) s0(1) by (simp add: unlink_dup_def Let_def fn)
    qed
  next
    case False
    then have nh: "head_of ?xs ?c \<noteq> Some n" using hd by simp
    have find: "mime_hdr_field_find T mh (mime_field_name_get (?xs ! n)) = head_of ?xs ?c"
      using find_head [OF T ok name_get(1) [OF T kn]] name_get(2) [OF T kn] by simp
    have sn: "same ?c (?xs ! n)" using n(2) by (simp add: same_def)
    obtain q where q: "head_of ?xs ?c = Some q" "q < n" "same ?c (?xs ! q)"
    proof -
      have "head_of ?xs ?c \<noteq> None" using sn n(1) unfolding head_of_def first_from_None by auto
      then obtain q where q: "head_of ?xs ?c = Some q" by blast
      then have "q \<le> n" using sn by (auto simp: head_of_def first_from_Some not_less [symmetric])
      then show ?thesis using that q nh head_live [OF q] by (auto simp: same_def)
    qed
    obtain r where r: "r < n" "find_prev mh n (Some q) = Some r" "same ?c (?xs ! r)" "next_same ?xs r = Some n"
      using find_prev_ok [OF sh f n(1) sn q(2,3)] by blast
    let ?mh1 = "upd_fld r (\<lambda>g. g\<lparr>m_next_dup := next_of ?c ?xs n\<rparr>) mh"
    let ?us = "?xs[r := (?xs ! r)\<lparr>m_next_dup := next_of ?c ?xs n\<rparr>]"
    let ?ys = "?us[n := (?us ! n)\<lparr>m_readiness := DETACHED, m_next_dup := None\<rparr>]"
    have rl: "r < length ?xs" using r(1) n(1) by simp
    have s0: "slots ?mh1 = ?us" "shape ?mh1" using sh rl by simp_all
    have sk0: "skel ?xs ?us" using skel_upd [OF skel_refl [of ?xs], of "\<lambda>g. g\<lparr>m_next_dup := next_of ?c ?xs n\<rparr>" r] by simp
    have sky: "skel zs ?ys" using outer [OF s0(2,1) sk0] s0 n(1) by simp
    have s: "slots (out n ?mh1) = ?ys" using n(1) s0 by simp
    have only_r: "m_next_dup (?xs ! j) = Some n \<longleftrightarrow> j = r" if "j < length ?xs" for j
    proof
      assume "j = r"
      then show "m_next_dup (?xs ! j) = Some n" using r(3,4) fields_okD(2) [OF f rl] by (simp add: same_def)
    next
      assume l: "m_next_dup (?xs ! j) = Some n"
      then have lj: "is_live (?xs ! j)" using fields_okD(4) [OF f that] by auto
      then have nj: "next_same ?xs j = Some n" using fields_okD(2) [OF f that] l by simp
      then have j: "j < n" "same ?c (?xs ! j)" using next_live [of ?xs j n] lj by (simp_all add: same_def)
      have kj: "key (?xs ! j) = ?c" "key (?xs ! r) = ?c" using j(2) r(3) by (simp_all add: same_def)
      show "j = r"
        using nj r(1,3,4) j unfolding next_same_def kj first_from_Some by (metis Suc_leI linorder_neqE_nat)
    qed
    have "fields_ok T ?ys"
    proof (rule leave_fields [OF f n sky [unfolded zs_def]])
      show "m_next_dup (?ys ! j) = (if m_next_dup (?xs ! j) = Some n then next_of ?c ?xs n else m_next_dup (?xs ! j)) \<and>
        (is_live (?xs ! j) \<longrightarrow> m_dup_head (?ys ! j) = (m_dup_head (?xs ! j) \<or> m_dup_head (?xs ! n) \<and> next_of ?c ?xs n = Some j))"
        if "j < length ?xs" "j \<noteq> n" for j using that False only_r [OF that(1)] by (cases "j = r") auto
    qed (use n(1) in simp)
    moreover have "head_of ?ys c' = head_of ?xs c'" for c'
    proof -
      have "head_of ?xs c' \<noteq> Some n" using head_live [of ?xs c' n] nh by blast
      then show ?thesis using leave(2) [of c'] skel_head [OF sky] by simp
    qed
    ultimately have "hdr_ok T (out n ?mh1)"
      using s s0 n(1) index_keep [OF ix, of "out n ?mh1" ?ys] by (simp add: hdr_ok_def)
    then show ?thesis using False nx s sky find q(1) r(2) s0(1) by (simp add: unlink_dup_def Let_def fn)
  qed
qed

lemma detach_ok:
  assumes T: "tokens_ok T" and ok: "hdr_ok T mh" and n: "n < length (slots mh)" "is_live (slots mh ! n)"
  shows "\<exists>mh'. detach_field T n mh = Some mh' \<and> hdr_ok T mh' \<and>
    skel ((slots mh)[n := (slots mh ! n)\<lparr>m_readiness := DETACHED\<rparr>]) (slots mh')"
proof -
  obtain mh1 where mh1: "unlink_dup T n mh = Some mh1" "hdr_ok T (out n mh1)"
    "skel ((slots mh)[n := (slots mh ! n)\<lparr>m_readiness := DETACHED\<rparr>]) (slots (out n mh1))" using unlink_ok [OF assms] by blast
  obtain mh2 where mh2: "recompute_cooked_stuff T (Some (m_wks_idx (fld (out n mh1) n))) (out n mh1) = Some mh2" "same_index (out n mh1) mh2"
    using recompute_total [OF T mh1(2)] by blast
  have "hdr_ok T mh2" "slots mh2 = slots (out n mh1)" using same_index_ok [OF mh2(2)] mh1(2) by simp_all
  moreover have "detach_field T n mh = (if m_cooked (fld (out n mh1) n) then Some mh2 else Some (out n mh1))"
    using mh1(1) mh2(1) unfolding detach_field_def out_def [symmetric] by (simp add: Let_def)
  ultimately show ?thesis using mh1(2,3) by (cases "m_cooked (fld (out n mh1) n)") auto
qed

section \<open>Removing fields\<close>

text \<open>Slot \<open>n\<close> and, for \<open>all\<close>, the later live fields of its name are no longer live.\<close>

definition removed :: "readiness \<Rightarrow> nat \<Rightarrow> bool \<Rightarrow> mime_field list \<Rightarrow> mime_field list \<Rightarrow> bool" where
  "removed r n all_dups xs ys \<longleftrightarrow> length ys = length xs \<and> (\<forall>j < length xs. content (ys ! j) = content (xs ! j) \<and>
     m_readiness (ys ! j) = (if j = n \<or> all_dups \<and> n < j \<and> same (key (xs ! n)) (xs ! j) then r else m_readiness (xs ! j)))"

lemma removed_one: "n < length xs \<Longrightarrow> skel (xs[n := (xs ! n)\<lparr>m_readiness := r\<rparr>]) ys \<longleftrightarrow> removed r n False xs ys"
  by (auto simp: skel_def removed_def nth_list_update)

text \<open>Removing the rest of the dup list.\<close>

lemma removed_rest:
  assumes "removed r n False xs ys" "next_same xs n = Some d" "removed r d True ys zs" "r \<noteq> LIVE"
  shows "removed r n True xs zs"
proof -
  have d: "n < d" "d < length xs" "is_live (xs ! d)" "key (xs ! d) = key (xs ! n)" using next_live [OF assms(2)] by simp_all
  have kd: "key (ys ! d) = key (xs ! n)" using assms(1) d(2,4) content_key(1) [of "ys ! d" "xs ! d"] by (simp add: removed_def)
  show ?thesis unfolding removed_def
  proof (intro conjI allI impI)
    show "length zs = length xs" using assms(1,3) by (simp add: removed_def)
    fix j assume j: "j < length xs"
    show "content (zs ! j) = content (xs ! j)" using assms(1,3) j by (simp add: removed_def)
    have sj: "same (key (xs ! n)) (ys ! j) \<longleftrightarrow> same (key (xs ! n)) (xs ! j)" if "j \<noteq> n"
      using assms(1) j that content_key(1) [of "ys ! j" "xs ! j"] by (simp add: removed_def same_def)
    have gap: "d \<le> j" if "n < j" "same (key (xs ! n)) (xs ! j)"
      using assms(2) that j unfolding next_same_def first_from_Some by (metis Suc_leI not_less)
    have at_d: "same (key (xs ! n)) (xs ! d)" using d by (simp add: same_def)
    have "m_readiness (zs ! j) = (if j = d \<or> d < j \<and> same (key (xs ! n)) (ys ! j) then r else m_readiness (ys ! j))"
      using assms(1,3) j by (simp add: removed_def kd)
    also have "\<dots> = (if j = n \<or> True \<and> n < j \<and> same (key (xs ! n)) (xs ! j) then r else m_readiness (xs ! j))"
    proof (cases "j = n")
      case True
      then show ?thesis using assms(1) d(1) j by (simp add: removed_def)
    next
      case False
      then show ?thesis using assms(1) sj gap at_d d(1) j by (auto simp: removed_def)
    qed
    finally show "m_readiness (zs ! j) = (if j = n \<or> True \<and> n < j \<and> same (key (xs ! n)) (xs ! j) then r else m_readiness (xs ! j))" .
  qed
qed

lemma removed_last: "removed r n False xs ys \<Longrightarrow> next_same xs n = None \<Longrightarrow> removed r n True xs ys"
  unfolding removed_def next_same_def first_from_None by (metis Suc_leI)

lemma removed_live:
  "removed r n False xs ys \<Longrightarrow> next_same xs n = Some d \<Longrightarrow> d < length ys \<and> is_live (ys ! d)"
  using next_live [of xs n d] by (simp add: removed_def)

lemma field_detach_step:
  "mime_hdr_field_detach T n all_dups mh = Option.bind (detach_field T n mh) (\<lambda>mh1.
     case m_next_dup (fld mh n) of Some d \<Rightarrow> if all_dups then mime_hdr_field_detach T d all_dups mh1 else Some mh1 | None \<Rightarrow> Some mh1)"
  by (subst mime_hdr_field_detach.simps) simp

lemma live_next:
  assumes "hdr_ok T mh" "n < length (slots mh)" "is_live (slots mh ! n)"
  shows "m_next_dup (fld mh n) = next_same (slots mh) n"
proof -
  have "shape mh" and f: "fields_ok T (slots mh)" using assms(1) by (simp_all add: hdr_ok_def)
  then show ?thesis using fields_okD(2) [OF f assms(2,3)] fld_slots [of mh n] assms(2) by simp
qed

lemma field_detach_ok:
  assumes "tokens_ok T"
  shows "hdr_ok T mh \<Longrightarrow> n < length (slots mh) \<Longrightarrow> is_live (slots mh ! n) \<Longrightarrow>
    \<exists>mh'. mime_hdr_field_detach T n all_dups mh = Some mh' \<and> hdr_ok T mh' \<and> removed DETACHED n all_dups (slots mh) (slots mh')"
proof (induction "length (slots mh) - n" arbitrary: n mh rule: less_induct)
  case less
  obtain mh1 where mh1: "detach_field T n mh = Some mh1" "hdr_ok T mh1" "removed DETACHED n False (slots mh) (slots mh1)"
    using detach_ok [OF assms less.prems] unfolding removed_one [OF less.prems(2)] by blast
  note nx = live_next [OF less.prems]
  show ?case
  proof (cases "all_dups \<and> next_same (slots mh) n \<noteq> None")
    case True
    then obtain d where d: "next_same (slots mh) n = Some d" by blast
    have "n < d" "d < length (slots mh1)" "is_live (slots mh1 ! d)" "length (slots mh1) = length (slots mh)"
      using next_live [OF d] removed_live [OF mh1(3) d] mh1(3) by (simp_all add: removed_def)
    moreover from this have "length (slots mh1) - d < length (slots mh) - n" using less.prems(2) by linarith
    ultimately obtain mh2 where mh2: "mime_hdr_field_detach T d all_dups mh1 = Some mh2" "hdr_ok T mh2" "removed DETACHED d all_dups (slots mh1) (slots mh2)"
      using less.hyps mh1(2) by blast
    have "removed DETACHED n True (slots mh) (slots mh2)"
      using removed_rest [OF mh1(3) d] mh2(3) True by simp
    then show ?thesis using mh1(1) mh2(1,2) True d by (subst field_detach_step) (simp add: nx)
  next
    case False
    have "removed DETACHED n all_dups (slots mh) (slots mh1)"
      using False mh1(3) removed_last [OF mh1(3)] by (cases all_dups) auto
    then show ?thesis using mh1(1,2) False by (subst field_detach_step) (auto simp: nx split: option.split)
  qed
qed

lemma destroy_ok:
  assumes ok: "hdr_ok T mh" and n: "n < length (slots mh)" "\<not> is_live (slots mh ! n)"
  shows "hdr_ok T (mime_field_destroy n mh)" "slots (mime_field_destroy n mh) = (slots mh)[n := (slots mh ! n)\<lparr>m_readiness := DELETED\<rparr>]"
proof -
  have sh: "shape mh" and f: "fields_ok T (slots mh)" and ix: "index_ok (slots mh) mh" using ok by (simp_all add: hdr_ok_def)
  let ?ys = "(slots mh)[n := (slots mh ! n)\<lparr>m_readiness := DELETED\<rparr>]"
  show s: "slots (mime_field_destroy n mh) = ?ys" using sh n(1) by (simp add: mime_field_destroy_def)
  have first: "first_from k (same c) ?ys = first_from k (same c) (slots mh)" for k c
    by (rule first_from_other [where P = "same c"]) (use n(2) in \<open>simp_all add: same_def\<close>)
  have "fields_ok T ?ys" unfolding fields_ok_def
  proof (intro allI impI)
    fix j assume j: "j < length ?ys"
    then have j': "j < length (slots mh)" by simp
    note old = fields_okD [OF f j']
    show "(is_live (?ys ! j) \<longrightarrow> known T (?ys ! j) \<and> m_next_dup (?ys ! j) = next_same ?ys j \<and>
        (m_dup_head (?ys ! j) \<longleftrightarrow> head_of ?ys (key (?ys ! j)) = Some j)) \<and> (\<not> is_live (?ys ! j) \<longrightarrow> m_next_dup (?ys ! j) = None)"
    proof (cases "j = n")
      case True
      then show ?thesis using old(4) n by simp
    next
      case False
      then show ?thesis using old first by (simp add: next_same_def head_of_def)
    qed
  qed
  moreover have "index_ok ?ys (mime_field_destroy n mh)"
    using index_keep [OF ix, of "mime_field_destroy n mh" ?ys] first by (simp add: mime_field_destroy_def head_of_def)
  ultimately show "hdr_ok T (mime_field_destroy n mh)" using s sh n(1) by (simp add: hdr_ok_def mime_field_destroy_def)
qed

lemma detach_destroy_ok:
  assumes T: "tokens_ok T" and ok: "hdr_ok T mh" and n: "n < length (slots mh)" "is_live (slots mh ! n)"
  shows "\<exists>mh1. mime_hdr_field_detach T n False mh = Some mh1 \<and> hdr_ok T (mime_field_destroy n mh1) \<and>
    removed DELETED n False (slots mh) (slots (mime_field_destroy n mh1))"
proof -
  obtain mh1 where mh1: "mime_hdr_field_detach T n False mh = Some mh1" "hdr_ok T mh1" "removed DETACHED n False (slots mh) (slots mh1)"
    using field_detach_ok [OF T ok n] by blast
  then have n1: "n < length (slots mh1)" "\<not> is_live (slots mh1 ! n)" using n(1) by (simp_all add: removed_def)
  have "removed DELETED n False (slots mh) (slots (mime_field_destroy n mh1))"
    using mh1(3) destroy_ok(2) [OF mh1(2) n1] n1(1) by (auto simp: removed_def nth_list_update)
  then show ?thesis using mh1(1) destroy_ok(1) [OF mh1(2) n1] by blast
qed

lemma delete_dups_step:
  "delete_dups T (Some n) mh = Option.bind (mime_hdr_field_detach T n False mh) (\<lambda>mh1. delete_dups T (m_next_dup (fld mh n)) (mime_field_destroy n mh1))"
  "delete_dups T None mh = Some mh"
  by (subst delete_dups.simps, simp)+

lemma delete_dups_ok:
  assumes "tokens_ok T"
  shows "hdr_ok T mh \<Longrightarrow> n < length (slots mh) \<Longrightarrow> is_live (slots mh ! n) \<Longrightarrow>
    \<exists>mh'. delete_dups T (Some n) mh = Some mh' \<and> hdr_ok T mh' \<and> removed DELETED n True (slots mh) (slots mh')"
proof (induction "length (slots mh) - n" arbitrary: n mh rule: less_induct)
  case less
  obtain mh1 where mh1: "mime_hdr_field_detach T n False mh = Some mh1" "hdr_ok T (mime_field_destroy n mh1)"
    "removed DELETED n False (slots mh) (slots (mime_field_destroy n mh1))"
    using detach_destroy_ok [OF assms less.prems] by blast
  note nx = live_next [OF less.prems]
  let ?mh2 = "mime_field_destroy n mh1"
  show ?case
  proof (cases "next_same (slots mh) n")
    case (Some d)
    have "n < d" "d < length (slots ?mh2)" "is_live (slots ?mh2 ! d)" "length (slots ?mh2) = length (slots mh)"
      using next_live [OF Some] removed_live [OF mh1(3) Some] mh1(3) by (simp_all add: removed_def)
    moreover from this have "length (slots ?mh2) - d < length (slots mh) - n" using less.prems(2) by linarith
    ultimately obtain mh3 where mh3: "delete_dups T (Some d) ?mh2 = Some mh3" "hdr_ok T mh3" "removed DELETED d True (slots ?mh2) (slots mh3)"
      using less.hyps mh1(2) by blast
    have "removed DELETED n True (slots mh) (slots mh3)" using removed_rest [OF mh1(3) Some mh3(3)] by simp
    then show ?thesis using mh1(1) mh3(1,2) Some by (simp add: delete_dups_step nx)
  next
    case None
    then show ?thesis using mh1(1,2) removed_last [OF mh1(3) None] by (simp add: delete_dups_step nx)
  qed
qed

lemma field_delete_ok:
  assumes "tokens_ok T" "hdr_ok T mh" "n < length (slots mh)" "is_live (slots mh ! n)"
  shows "\<exists>mh'. mime_hdr_field_delete T n all_dups mh = Some mh' \<and> hdr_ok T mh' \<and> removed DELETED n all_dups (slots mh) (slots mh')"
proof (cases all_dups)
  case True
  then show ?thesis using delete_dups_ok [OF assms] by (simp add: mime_hdr_field_delete_def)
next
  case False
  then show ?thesis using detach_destroy_ok [OF assms] by (auto simp: mime_hdr_field_delete_def)
qed

section \<open>Creation and values\<close>

lemma init_ok: "hdr_ok T mime_hdr_init" "slots mime_hdr_init = []"
  by (simp_all add: hdr_ok_def shape_def blocks_ok_def mime_hdr_init_def slots_def fields_ok_def index_ok_def present_def
      head_of_def first_from_def)

text \<open>An update that leaves links, readiness and, for a live field, the name alone.\<close>

lemma upd_ok:
  assumes ok: "hdr_ok T mh" and n: "n < length (slots mh)"
    and g: "m_readiness (g (slots mh ! n)) = m_readiness (slots mh ! n)" "m_next_dup (g (slots mh ! n)) = m_next_dup (slots mh ! n)"
      "m_dup_head (g (slots mh ! n)) = m_dup_head (slots mh ! n)"
      "is_live (slots mh ! n) \<Longrightarrow> m_name (g (slots mh ! n)) = m_name (slots mh ! n) \<and> m_wks_idx (g (slots mh ! n)) = m_wks_idx (slots mh ! n)"
  shows "hdr_ok T (upd_fld n g mh)" "slots (upd_fld n g mh) = (slots mh)[n := g (slots mh ! n)]"
proof -
  have sh: "shape mh" and f: "fields_ok T (slots mh)" and ix: "index_ok (slots mh) mh" using ok by (simp_all add: hdr_ok_def)
  let ?ys = "(slots mh)[n := g (slots mh ! n)]"
  show s: "slots (upd_fld n g mh) = ?ys" using sh n by simp
  have name: "key (?ys ! j) = key (slots mh ! j)" "known T (?ys ! j) = known T (slots mh ! j)" if "is_live (slots mh ! j)" for j
    using g(4) that n by (cases "j = n"; simp add: key_def known_def)+
  have live: "is_live (?ys ! j) = is_live (slots mh ! j)" "m_next_dup (?ys ! j) = m_next_dup (slots mh ! j)"
    "m_dup_head (?ys ! j) = m_dup_head (slots mh ! j)" for j
    using g(1-3) n by (cases "j = n"; simp)+
  have first: "first_from k (same c) ?ys = first_from k (same c) (slots mh)" for k c
  proof (rule first_from_cong)
    fix j
    show "same c (?ys ! j) = same c (slots mh ! j)"
      using live(1) [of j] name(1) [of j] by (cases "is_live (slots mh ! j)") (simp_all only: same_def, simp_all)
  qed simp
  have "fields_ok T ?ys" unfolding fields_ok_def
  proof (intro allI impI)
    fix j assume "j < length ?ys"
    then have j: "j < length (slots mh)" by simp
    note old = fields_okD [OF f j]
    show "(is_live (?ys ! j) \<longrightarrow> known T (?ys ! j) \<and> m_next_dup (?ys ! j) = next_same ?ys j \<and>
        (m_dup_head (?ys ! j) \<longleftrightarrow> head_of ?ys (key (?ys ! j)) = Some j)) \<and> (\<not> is_live (?ys ! j) \<longrightarrow> m_next_dup (?ys ! j) = None)"
      using old live name [of j] first by (simp only: next_same_def head_of_def) simp
  qed
  moreover have "index_ok ?ys (upd_fld n g mh)"
    using index_keep [OF ix, of "upd_fld n g mh" ?ys] first by (simp add: head_of_def)
  ultimately show "hdr_ok T (upd_fld n g mh)" using s sh n by (simp add: hdr_ok_def)
qed

lemma append_slot_ok:
  assumes ok: "hdr_ok T mh" and mh': "slots mh' = slots mh @ [f]" "shape mh'" "m_presence mh' = m_presence mh" "m_accelerators mh' = m_accelerators mh"
    and f: "\<not> is_live f" "m_next_dup f = None"
  shows "hdr_ok T mh'"
proof -
  have fo: "fields_ok T (slots mh)" and ix: "index_ok (slots mh) mh" using ok by (simp_all add: hdr_ok_def)
  have none: "\<not> same c f" for c using f(1) by (simp add: same_def)
  have first: "first_from k (same c) (slots mh @ [f]) = first_from k (same c) (slots mh)" for k c
  proof (cases "first_from k (same c) (slots mh)")
    case None
    then have "\<forall>j. k \<le> j \<and> j < length (slots mh) \<longrightarrow> \<not> same c (slots mh ! j)" by (simp add: first_from_None)
    then have "first_from k (same c) (slots mh @ [f]) = None" unfolding first_from_None using none
      by (simp add: nth_append less_Suc_eq)
    then show ?thesis using None by simp
  next
    case (Some m)
    then have "first_from k (same c) (slots mh @ [f]) = Some m" unfolding first_from_Some by (auto simp: nth_append)
    then show ?thesis using Some by simp
  qed
  have "fields_ok T (slots mh @ [f])" unfolding fields_ok_def
  proof (intro allI impI)
    fix j assume j: "j < length (slots mh @ [f])"
    show "(is_live ((slots mh @ [f]) ! j) \<longrightarrow> known T ((slots mh @ [f]) ! j) \<and> m_next_dup ((slots mh @ [f]) ! j) = next_same (slots mh @ [f]) j \<and>
        (m_dup_head ((slots mh @ [f]) ! j) \<longleftrightarrow> head_of (slots mh @ [f]) (key ((slots mh @ [f]) ! j)) = Some j)) \<and>
        (\<not> is_live ((slots mh @ [f]) ! j) \<longrightarrow> m_next_dup ((slots mh @ [f]) ! j) = None)"
    proof (cases "j < length (slots mh)")
      case True
      then show ?thesis using fields_okD [OF fo True] first by (simp add: nth_append next_same_def head_of_def)
    next
      case False
      then have "j = length (slots mh)" using j by simp
      then show ?thesis using f by simp
    qed
  qed
  moreover have "index_ok (slots mh @ [f]) mh'" using index_keep [OF ix mh'(3,4)] first by (simp add: head_of_def)
  ultimately show ?thesis using mh'(1,2) by (simp add: hdr_ok_def)
qed

lemma create_ok:
  assumes "hdr_ok T mh" "mime_field_create mh = (mh', n)"
  shows "hdr_ok T mh'" "n = length (slots mh)" "slots mh' = slots mh @ [mime_field_init]"
proof -
  have sh: "shape mh" using assms(1) by (simp add: hdr_ok_def)
  note c = create_slots [OF sh assms(2)]
  show "n = length (slots mh)" "slots mh' = slots mh @ [mime_field_init]" by (rule c)+
  show "hdr_ok T mh'" by (rule append_slot_ok [OF assms(1) c(2-5)]) (simp_all add: mime_field_init_def)
qed

text \<open>A new field with a name, not yet attached.\<close>

definition named_field :: "hdr_tokens \<Rightarrow> int \<Rightarrow> bytes \<Rightarrow> mime_field" where
  "named_field T w s = mime_field_init\<lparr>m_wks_idx := w, m_name := take (length s mod 2 ^ 16) s,
     m_cooked := (w = MIME_WKSIDX_CACHE_CONTROL T \<or> w = MIME_WKSIDX_PRAGMA T)\<rparr>"

lemma create_named_ok:
  assumes "hdr_ok T mh" "mime_field_create mh = (mh1, n)"
  shows "hdr_ok T (mime_field_name_set T n w s mh1)" "slots (mime_field_name_set T n w s mh1) = slots mh @ [named_field T w s]"
    "n = length (slots mh)"
proof -
  note c = create_ok [OF assms]
  have n: "n < length (slots mh1)" "slots mh1 ! n = mime_field_init" using c by simp_all
  have nf: "named_field T w s = mime_field_init\<lparr>m_wks_idx := w, m_name := take (length s mod 2 ^ 16) s,
       m_cooked := (m_cooked mime_field_init \<or> w = MIME_WKSIDX_CACHE_CONTROL T \<or> w = MIME_WKSIDX_PRAGMA T)\<rparr>"
    by (simp add: named_field_def mime_field_init_def)
  note u = upd_ok [OF c(1) n(1), of "\<lambda>f. f\<lparr>m_wks_idx := w, m_name := take (length s mod 2 ^ 16) s,
       m_cooked := (m_cooked f \<or> w = MIME_WKSIDX_CACHE_CONTROL T \<or> w = MIME_WKSIDX_PRAGMA T)\<rparr>"]
  have fi: "m_readiness mime_field_init = DETACHED" by (simp add: mime_field_init_def)
  show "hdr_ok T (mime_field_name_set T n w s mh1)" unfolding mime_field_name_set_def
    by (rule u(1)) (simp_all add: n(2) fi)
  have "slots (mime_field_name_set T n w s mh1) = (slots mh1)[n := named_field T w s]" unfolding mime_field_name_set_def nf
    by (subst u(2)) (simp_all add: n(2) fi)
  then show "slots (mime_field_name_set T n w s mh1) = slots mh @ [named_field T w s]" using c by simp
  show "n = length (slots mh)" by (rule c(2))
qed

lemma named_known:
  assumes "honest T s" "length s < 2 ^ 16"
  shows "known T (named_field T (hdrtoken_tokenize T (Text s)) s)" "m_name (named_field T (hdrtoken_tokenize T (Text s)) s) = s"
    "m_readiness (named_field T (hdrtoken_tokenize T (Text s)) s) = DETACHED" "m_value (named_field T (hdrtoken_tokenize T (Text s)) s) = None"
  using assms by (simp_all add: named_field_def known_def mime_field_init_def)

lemma value_upd_ok:
  fixes v :: "bytes option"
  assumes T: "tokens_ok T" and ok: "hdr_ok T mh" and n: "n < length (slots mh)"
  defines "mh1 \<equiv> upd_fld n (\<lambda>g. g\<lparr>m_value := v, m_raw_printable := False\<rparr>) mh"
  shows "\<exists>mh'. (let f = fld mh1 n in if is_live f \<and> m_cooked f then recompute_cooked_stuff T (Some (m_wks_idx f)) mh1 else Some mh1) = Some mh' \<and>
    hdr_ok T mh' \<and> slots mh' = (slots mh)[n := (slots mh ! n)\<lparr>m_value := v, m_raw_printable := False\<rparr>]"
proof -
  note u = upd_ok [OF ok n, of "\<lambda>g. g\<lparr>m_value := v, m_raw_printable := False\<rparr>", folded mh1_def, simplified]
  obtain mh2 where mh2: "recompute_cooked_stuff T (Some (m_wks_idx (fld mh1 n))) mh1 = Some mh2" "same_index mh1 mh2"
    using recompute_total [OF T u(1)] by blast
  then have "hdr_ok T mh2" "slots mh2 = slots mh1" using same_index_ok [OF mh2(2)] u(1) by simp_all
  then show ?thesis using mh2(1) u by (simp add: Let_def)
qed

lemma value_set_ok:
  assumes "tokens_ok T" "hdr_ok T mh" "n < length (slots mh)"
  shows "\<exists>mh'. mime_field_value_set T n v mh = Some mh' \<and> hdr_ok T mh' \<and>
    slots mh' = (slots mh)[n := (slots mh ! n)\<lparr>m_value := Some (take (length v mod 2 ^ 24) v), m_raw_printable := False\<rparr>]"
  using value_upd_ok [OF assms, of "Some (take (length v mod 2 ^ 24) v)"] unfolding mime_field_value_set_def Let_def .

end
