(* ===== verification/MimeHdrSpec.thy ===== *)
theory MimeHdrSpec
  imports MimeHdrOps
begin

unbundle bit_operations_syntax

text \<open>
  Properties of the headers: the operations keep them well-formed, and where attaching and the iterator over
  comma separated values fail.
\<close>

section \<open>The order of the dup list\<close>

lemma walk_past:
  assumes nx: "\<And>p. p < length xs \<Longrightarrow> same c (xs ! p) \<Longrightarrow> m_next_dup (fld mh p) = next_of c xs p"
  shows "p < length xs \<Longrightarrow> same c (xs ! p) \<Longrightarrow> ps < int n \<Longrightarrow> ns < int n \<Longrightarrow>
    \<exists>r s. attach_walk mh (int n) p ps (next_of c xs p) ns = Some (r, s, None) \<and> s < int n \<and> r < length xs \<and> same c (xs ! r) \<and> next_of c xs r = None"
proof (induction "length xs - p" arbitrary: p ps rule: less_induct)
  case less
  show ?case
  proof (cases "next_of c xs p")
    case None
    then show ?thesis using less.prems by (subst attach_walk.simps) auto
  next
    case (Some d)
    then have d: "p < d" "d < length xs" "same c (xs ! d)" by (simp_all add: first_from_Some)
    then have "length xs - d < length xs - p" by simp
    from less.hyps [OF this d(2,3) less.prems(4,4)]
    show ?thesis using less.prems(3,4) Some nx [OF d(2,3)] by (subst attach_walk.simps) simp
  qed
qed

lemma attach_out_of_order:
  assumes T: "tokens_ok T" and ok: "hdr_ok T mh" and n: "n < length (slots mh)" "m_readiness (slots mh ! n) = DETACHED"
    and kn: "known T (slots mh ! n)" and ord: "\<not> in_order (slots mh) n" and cooked: "\<not> m_cooked (slots mh ! n)"
  shows "\<exists>mh'. mime_hdr_field_attach T n True prev mh = Some mh' \<and> \<not> hdr_ok T mh'"
proof -
  let ?xs = "slots mh" and ?c = "key (slots mh ! n)" and ?m = "upd_fld n (\<lambda>g. g\<lparr>m_readiness := LIVE\<rparr>) mh"
  have sh: "shape mh" and f: "fields_ok T ?xs" using ok by (simp_all add: hdr_ok_def)
  note l = live_upd [OF sh n(1)]
  have fn: "fld mh n = ?xs ! n" by (rule fld_slots [OF sh n(1)])
  obtain i j k where ijk: "i < j" "j < n" "n < k" "k < length ?xs" "same ?c (?xs ! i)" "same ?c (?xs ! j)" "same ?c (?xs ! k)"
    using ord unfolding in_order_def by blast
  have "head_of ?xs ?c \<noteq> None" using ijk unfolding head_of_def first_from_None by (meson le0 less_trans)
  then obtain q where q: "head_of ?xs ?c = Some q" by blast
  have qi: "q \<le> i" "same ?c (?xs ! q)" "q < length ?xs" using q ijk(5) by (auto simp: head_of_def first_from_Some not_less [symmetric])
  have find: "mime_hdr_field_find T mh (mime_field_name_get (fld mh n)) = Some q"
    using find_head [OF T ok name_get(1) [OF T kn]] name_get(2) [OF T kn] q by (simp add: fn)
  have fld: "fld ?m p = ?xs ! p" if "p < length ?xs" "p \<noteq> n" for p using fld_slots [OF l(2), of p] that l by simp
  have nxt: "m_next_dup (fld ?m p) = next_of ?c ?xs p" if "p < length ?xs" "same ?c (?xs ! p)" for p
  proof -
    have "p \<noteq> n" "is_live (?xs ! p)" "key (?xs ! p) = ?c" using that(2) n(2) by (auto simp: same_def)
    then show ?thesis using fields_okD(2) [OF f that(1)] fld [OF that(1)] by (simp add: next_same_def)
  qed
  have num: "mime_hdr_field_slotnum ?m p = int p" if "p < length ?xs" for p using slotnum [OF l(2)] that l by simp
  have "next_of ?c ?xs q \<noteq> None" using qi(1) ijk n(1) unfolding first_from_None by (meson Suc_leI le_less_trans less_trans)
  then obtain d where d: "next_of ?c ?xs q = Some d" by blast
  then have dj: "d \<le> j" "q < d" "same ?c (?xs ! d)" using qi(1) ijk(1,6) by (auto simp: first_from_Some not_less [symmetric])
  then have dn: "d < n" "d < length ?xs" using ijk(2) n(1) by simp_all
  have ins: "int d < int n" using dn by simp
  obtain r s where walk: "attach_walk ?m (int n) d (int d) (next_of ?c ?xs d) (int d) = Some (r, s, None)" and r: "s < int n" "r < length ?xs"
    "same ?c (?xs ! r)" "next_of ?c ?xs r = None"
    using walk_past [OF nxt dn(2) dj(3) ins ins] by blast
  have nr: "n < r" using r(4) ijk(3,4,7) unfolding first_from_None by (metis Suc_leI less_trans linorder_neqE_nat)
  have start: "attach_walk ?m (int n) q (int q) (Some d) (int d) = Some (r, s, None)"
    using walk dn dj nxt [OF dn(2) dj(3)] by (subst attach_walk.simps) simp
  let ?mh2 = "upd_fld n (\<lambda>g. g\<lparr>m_next_dup := None\<rparr>) (upd_fld r (\<lambda>g. g\<lparr>m_next_dup := Some n\<rparr>)
                       (upd_fld n (\<lambda>g. g\<lparr>m_dup_head := False\<rparr>) ?m))"
  have link: "link_dup T n q ?m = Some ?mh2"
    using nxt [OF qi(3,2)] num [OF n(1)] num [OF qi(3)] num [OF dn(2)] start d r(1) by (simp add: link_dup_def Let_def)
  have rn: "r \<noteq> n" using nr by simp
  have s2: "slots ?mh2 = ?xs[n := (?xs ! n)\<lparr>m_readiness := LIVE\<rparr>, n := (?xs ! n)\<lparr>m_readiness := LIVE, m_dup_head := False\<rparr>,
      r := (?xs ! r)\<lparr>m_next_dup := Some n\<rparr>, n := (?xs ! n)\<lparr>m_readiness := LIVE, m_dup_head := False, m_next_dup := None\<rparr>]"
    and sh2: "shape ?mh2"
    using l n(1) r(2) rn by simp_all
  have "\<not> hdr_ok T ?mh2"
  proof
    assume "hdr_ok T ?mh2"
    then have "fields_ok T (slots ?mh2)" unfolding hdr_ok_def by blast
    then have "links_up (slots ?mh2)" by (rule fields_ok_links)
    moreover have "m_next_dup (slots ?mh2 ! r) = Some n" "r < length (slots ?mh2)" using r(2) rn by (simp_all add: s2)
    ultimately show False using nr unfolding links_up_def by (meson less_asym)
  qed
  moreover have "\<not> m_cooked (fld ?mh2 n)"
  proof -
    have "fld ?mh2 n = slots ?mh2 ! n" by (rule fld_slots [OF sh2]) (simp add: s2 n(1))
    then show ?thesis using cooked n(1) by (simp add: s2)
  qed
  ultimately have "mime_hdr_field_attach T n True prev mh = Some ?mh2 \<and> \<not> hdr_ok T ?mh2"
    using n(2) find link by (simp add: mime_hdr_field_attach_def fn Let_def)
  then show ?thesis by blast
qed

section \<open>Empty list elements\<close>

lemma scan_ws:
  "cur \<le> e \<Longrightarrow> e < length v \<Longrightarrow> \<forall>i. cur \<le> i \<and> i < e \<longrightarrow> is_cls C_ws (v ! i) \<Longrightarrow> \<not> is_cls C_ws (v ! e) \<Longrightarrow>
    csv_scan v sep Skip_ws cur start ld = csv_scan v sep Parse_value e (Some e) ld"
proof (induction "e - cur" arbitrary: cur)
  case 0
  then have "cur = e" by simp
  then show ?case using "0.prems" by (subst csv_scan.simps) simp
next
  case (Suc n)
  then have lt: "cur < e" by simp
  have "csv_scan v sep Skip_ws cur start ld = csv_scan v sep Skip_ws (cur + 1) start ld"
    using Suc.prems lt by (subst csv_scan.simps) simp
  also have "\<dots> = csv_scan v sep Parse_value e (Some e) ld" by (rule Suc.hyps(1)) (use Suc lt in auto)
  finally show ?case .
qed

lemma comma_small: "\<not> 44 < sint (of_char (CHR '','') :: u8)"
  by code_simp

lemma scan_sep: "cur < length v \<Longrightarrow> v ! cur = sep \<Longrightarrow> csv_scan v sep Parse_value cur start ld = (start, ld, cur)"
  using comma_small by (subst csv_scan.simps) (auto simp: Let_def simp del: of_char_eq_iff)

lemma scan_plain:
  "cur < e \<Longrightarrow> e < length v \<Longrightarrow> v ! e = sep \<Longrightarrow>
    \<forall>i. cur \<le> i \<and> i < e \<longrightarrow> \<not> is_cls C_ws (v ! i) \<and> v ! i \<noteq> sep \<and> v ! i \<noteq> of_char (CHR ''\"'') \<Longrightarrow>
    csv_scan v sep Parse_value cur start ld = (start, Some (e - 1), e)"
proof (induction "e - cur" arbitrary: cur ld)
  case (Suc n)
  have c: "\<not> is_cls C_ws (v ! cur)" "v ! cur \<noteq> sep" "v ! cur \<noteq> of_char (CHR ''\"'')" "cur < length v" using Suc.prems by simp_all
  then have step: "csv_scan v sep Parse_value cur start ld = csv_scan v sep Parse_value (cur + 1) start (Some cur)"
    by (subst csv_scan.simps) (simp add: Let_def)
  show ?case
  proof (cases "cur + 1 = e")
    case True
    then have "csv_scan v sep Parse_value (cur + 1) start (Some cur) = (start, Some cur, e)"
      using Suc.prems scan_sep [of e v sep] by simp
    then show ?thesis using step True by auto
  next
    case False
    then have "cur + 1 < e" using Suc.prems by simp
    have "csv_scan v sep Parse_value (cur + 1) start (Some cur) = (start, Some (e - 1), e)"
      by (rule Suc.hyps(1)) (use Suc \<open>cur + 1 < e\<close> in auto)
    then show ?thesis using step by simp
  qed
qed simp

lemma find_csv_empty:
  assumes "csv_scan (value_bytes (fld mh f)) sep Skip_ws cur None None = (start, None, e)" "m_next_dup (fld mh f) = Some d"
  shows "find_csv mh sep True f cur = find_csv mh sep True d 0"
  using assms by (subst find_csv.simps) simp

lemma find_csv_found:
  assumes "csv_scan (value_bytes (fld mh f)) sep Skip_ws cur None None = (Some s, Some l, e)"
  shows "find_csv mh sep True f cur = Some \<lparr>m_cur_field = f, m_csv_start = Some s, m_csv_len = int l - int s + 1, m_csv_end = e\<rparr>"
  using assms by (subst find_csv.simps) simp

section \<open>Properties\<close>

text \<open>The tables of the running program, with the case insensitive matching of literal patterns.\<close>

definition example_tokens :: hdr_tokens where
  "example_tokens = fst (the (mime_init (\<lambda>p s. begins_with s p) 1300000000))"

lemma example_tokens_ok: "tokens_ok example_tokens"
proof -
  obtain T cs days where T: "tokens_ok T" "mime_init (\<lambda>p s. begins_with s p) 1300000000 = Some (T, cs, days)"
    by (rule mime_init_ok [OF literal_begins, of 1300000000]) simp_all
  then show ?thesis by (simp add: example_tokens_def)
qed

lemma honest_wks: "tokens_ok T \<Longrightarrow> k < 128 \<Longrightarrow> lowb s = low (hdrtoken_strs ! k) \<Longrightarrow> 0 \<notin> set s \<Longrightarrow> honest T s"
  using tokenize_wks [of T k s] by (auto simp: honest_def)

lemma honest_other:
  assumes "tokens_ok T" "0 \<notin> set s" "list_all (\<lambda>p. length p \<noteq> length s) hdrtoken_strs"
  shows "hdrtoken_tokenize T (Text s) = - 1" "honest T s"
proof -
  show "hdrtoken_tokenize T (Text s) = - 1"
  proof (rule tokenize_cases [OF assms(1), of s])
    fix k assume "k < 128" "length s = length (hdrtoken_strs ! k)"
    then have "\<not> list_all (\<lambda>p. length p \<noteq> length s) hdrtoken_strs" unfolding list_all_length by auto
    then show "hdrtoken_tokenize T (Text s) = - 1" using assms(3) by blast
  qed
  then show "honest T s" using assms(2) by (simp add: honest_def)
qed

lemma X_chars: "0 \<notin> set (chars ''X'')" "list_all (\<lambda>p. length p \<noteq> length (chars ''X'')) hdrtoken_strs"
  by code_simp+

lemma tokenize_X: "hdrtoken_tokenize example_tokens (Text (chars ''X'')) = - 1"
  by (rule honest_other(1) [OF example_tokens_ok X_chars])

lemma honest_X: "honest example_tokens (chars ''X'')" "length (chars ''X'') < 2 ^ 16"
  by (rule honest_other(2) [OF example_tokens_ok X_chars]) (simp add: chars_def)

text \<open>
  C28. Well-formed headers. The empty header is well-formed (every live field has the index of its name and is
  linked to the next live field of the same name, exactly the first of them is marked as head, the presence bits
  tell which well-known fields are there and the accelerators hold their slots). Creating a field, setting a value,
  attaching a detached field to a place that the walk finds, detaching and deleting return, keep the header
  well-formed and change the readiness of exactly the fields they name.
\<close>

theorem mime_hdr_well_formed:
  assumes "tokens_ok T" "hdr_ok T mh"
  shows "hdr_ok T mime_hdr_init \<and>
    (\<forall>s. hdr_ok T (fst (mime_field_create_named T (Text s) mh))) \<and>
    (\<forall>n < length (slots mh). \<forall>v. \<exists>mh'. mime_field_value_set T n v mh = Some mh' \<and> hdr_ok T mh') \<and>
    (\<forall>n < length (slots mh). m_readiness (slots mh ! n) = DETACHED \<and> known T (slots mh ! n) \<and> in_order (slots mh) n \<longrightarrow>
      (\<exists>mh'. mime_hdr_field_attach T n True None mh = Some mh' \<and> hdr_ok T mh' \<and>
        skel ((slots mh)[n := (slots mh ! n)\<lparr>m_readiness := LIVE\<rparr>]) (slots mh'))) \<and>
    (\<forall>n < length (slots mh). is_live (slots mh ! n) \<longrightarrow> (\<forall>all_dups.
      (\<exists>mh'. mime_hdr_field_detach T n all_dups mh = Some mh' \<and> hdr_ok T mh' \<and> removed DETACHED n all_dups (slots mh) (slots mh')) \<and>
      (\<exists>mh'. mime_hdr_field_delete T n all_dups mh = Some mh' \<and> hdr_ok T mh' \<and> removed DELETED n all_dups (slots mh) (slots mh'))))"
proof (intro conjI allI impI)
  show "hdr_ok T mime_hdr_init" by (rule init_ok)
  show "hdr_ok T (fst (mime_field_create_named T (Text s) mh))" for s
  proof -
    obtain mh1 n where c: "mime_field_create mh = (mh1, n)" by fastforce
    then show ?thesis using create_named_ok(1) [OF assms(2) c] by (simp add: mime_field_create_named_def)
  qed
  show "\<exists>mh'. mime_field_value_set T n v mh = Some mh' \<and> hdr_ok T mh'" if "n < length (slots mh)" for n v
    using value_set_ok [OF assms that] by blast
  show "\<exists>mh'. mime_hdr_field_attach T n True None mh = Some mh' \<and> hdr_ok T mh' \<and>
      skel ((slots mh)[n := (slots mh ! n)\<lparr>m_readiness := LIVE\<rparr>]) (slots mh')"
    if "n < length (slots mh)" "m_readiness (slots mh ! n) = DETACHED \<and> known T (slots mh ! n) \<and> in_order (slots mh) n" for n
    using attach_ok [OF assms that(1)] that(2) by blast
  show "\<exists>mh'. mime_hdr_field_detach T n all_dups mh = Some mh' \<and> hdr_ok T mh' \<and> removed DETACHED n all_dups (slots mh) (slots mh')"
    "\<exists>mh'. mime_hdr_field_delete T n all_dups mh = Some mh' \<and> hdr_ok T mh' \<and> removed DELETED n all_dups (slots mh) (slots mh')"
    if "n < length (slots mh)" "is_live (slots mh ! n)" for n all_dups
    using field_detach_ok [OF assms(1) assms(2) that] field_delete_ok [OF assms that] by blast+
qed

lemma mime_hdr_well_formed_witness:
  "hdr_ok example_tokens (fst (mime_field_create_named example_tokens (Text (chars ''X'')) mime_hdr_init))"
  using mime_hdr_well_formed [OF example_tokens_ok init_ok(1)] by blast

text \<open>
  C29. The walk of \<open>attach\<close> along the dup list does not update the slot number of the next field: attaching a
  field keeps the header well-formed if and only if there are not two live fields of its name before it and
  another one behind it. Otherwise the dup list leads back to an earlier slot.
\<close>

theorem attach_in_order_iff:
  assumes "tokens_ok T" "hdr_ok T mh" "n < length (slots mh)" "m_readiness (slots mh ! n) = DETACHED"
    "known T (slots mh ! n)" "\<not> m_cooked (slots mh ! n)"
  shows "\<exists>mh'. mime_hdr_field_attach T n True prev mh = Some mh' \<and> (hdr_ok T mh' \<longleftrightarrow> in_order (slots mh) n)"
proof (cases "in_order (slots mh) n")
  case True
  then show ?thesis using attach_ok [OF assms(1-5) True, of True prev] by blast
next
  case False
  then show ?thesis using attach_out_of_order [OF assms(1-5) False assms(6), of prev] by blast
qed

text \<open>Four fields X, of which the slots 0, 1 and 3 are attached.\<close>

lemma create_X:
  assumes "hdr_ok example_tokens mh" "mime_field_create_named example_tokens (Text (chars ''X'')) mh = (mh', n)"
  shows "hdr_ok example_tokens mh'" "slots mh' = slots mh @ [named_field example_tokens (- 1) (chars ''X'')]"
proof -
  note w = tokenize_X
  obtain mh1 k where c: "mime_field_create mh = (mh1, k)" by fastforce
  show "hdr_ok example_tokens mh'" "slots mh' = slots mh @ [named_field example_tokens (- 1) (chars ''X'')]"
    using create_named_ok(1,2) [OF assms(1) c, of "- 1" "chars ''X''"] assms(2) c by (auto simp: mime_field_create_named_def w name_text_def)
qed

definition live_X :: "bool list \<Rightarrow> mime_field list \<Rightarrow> bool" where
  "live_X bs xs \<longleftrightarrow> length xs = length bs \<and> (\<forall>j < length bs. content (xs ! j) = content (named_field example_tokens (- 1) (chars ''X'')) \<and>
     m_readiness (xs ! j) = (if bs ! j then LIVE else DETACHED))"

lemma content_X: "content f = content (named_field example_tokens (- 1) (chars ''X'')) \<Longrightarrow>
    known example_tokens f \<and> key f = Inr (lowb (chars ''X'')) \<and> \<not> m_cooked f"
proof -
  let ?f = "named_field example_tokens (- 1) (chars ''X'')"
  assume c: "content f = content ?f"
  note w = tokenize_X
  have "known example_tokens ?f" "m_name ?f = chars ''X''" using named_known(1,2) [OF honest_X] by (simp_all add: w)
  moreover have "m_wks_idx ?f = - 1" "\<not> m_cooked ?f"
    by (simp_all add: named_field_def wksidx [OF example_tokens_ok] mime_field_init_def)
  ultimately show ?thesis using c content_key [of f ?f] by (simp add: key_def content_def)
qed

lemma same_X: "live_X bs xs \<Longrightarrow> j < length bs \<Longrightarrow> same (Inr (lowb (chars ''X''))) (xs ! j) \<longleftrightarrow> bs ! j"
  using content_X [of "xs ! j"] by (auto simp: live_X_def same_def)

lemma attach_X:
  assumes ok: "hdr_ok example_tokens mh" and X: "live_X bs (slots mh)" and n: "n < length bs" "\<not> bs ! n"
    and ord: "\<And>i j k. i < j \<Longrightarrow> j < n \<Longrightarrow> n < k \<Longrightarrow> k < length bs \<Longrightarrow> \<not> (bs ! i \<and> bs ! j \<and> bs ! k)"
  shows "\<exists>mh'. mime_hdr_field_attach example_tokens n True None mh = Some mh' \<and> hdr_ok example_tokens mh' \<and> live_X (bs[n := True]) (slots mh')"
proof -
  have len: "length (slots mh) = length bs" using X by (simp add: live_X_def)
  have f: "m_readiness (slots mh ! n) = DETACHED" "known example_tokens (slots mh ! n)" "key (slots mh ! n) = Inr (lowb (chars ''X''))"
    using X n content_X [of "slots mh ! n"] by (simp_all add: live_X_def)
  have "in_order (slots mh) n" unfolding in_order_def f(3)
    using same_X [OF X] ord len n(1) by (metis less_trans)
  then obtain mh' where mh': "mime_hdr_field_attach example_tokens n True None mh = Some mh'" "hdr_ok example_tokens mh'"
    "skel ((slots mh)[n := (slots mh ! n)\<lparr>m_readiness := LIVE\<rparr>]) (slots mh')"
    using attach_ok [OF example_tokens_ok ok, of n True None] n(1) len f by auto
  have "live_X (bs[n := True]) (slots mh')" using mh'(3) X n by (auto simp: live_X_def skel_def nth_list_update)
  then show ?thesis using mh'(1,2) by blast
qed

lemma create_live_X:
  assumes "hdr_ok example_tokens mh" "live_X bs (slots mh)"
  shows "\<exists>mh' n. mime_field_create_named example_tokens (Text (chars ''X'')) mh = (mh', n) \<and> hdr_ok example_tokens mh' \<and> live_X (bs @ [False]) (slots mh')"
proof -
  obtain mh' n where c: "mime_field_create_named example_tokens (Text (chars ''X'')) mh = (mh', n)" by fastforce
  have "m_readiness (named_field example_tokens (- 1) (chars ''X'')) = DETACHED" by (simp add: named_field_def mime_field_init_def)
  then have "live_X (bs @ [False]) (slots mh')" using assms(2) create_X(2) [OF assms(1) c] by (auto simp: live_X_def nth_append less_Suc_eq)
  then show ?thesis using c create_X(1) [OF assms(1) c] by blast
qed

lemma three_of_four_X: "\<exists>mh. hdr_ok example_tokens mh \<and> live_X [True, True, False, True] (slots mh)"
proof -
  have "live_X [] (slots mime_hdr_init)" by (simp add: live_X_def init_ok(2))
  then obtain m1 where m1: "hdr_ok example_tokens m1" "live_X [False] (slots m1)" using create_live_X [OF init_ok(1)] by (metis append_Nil)
  obtain m2 where m2: "hdr_ok example_tokens m2" "live_X [False, False] (slots m2)" using create_live_X [OF m1] by auto
  obtain m3 where m3: "hdr_ok example_tokens m3" "live_X [False, False, False] (slots m3)" using create_live_X [OF m2] by auto
  obtain m4 where m4: "hdr_ok example_tokens m4" "live_X [False, False, False, False] (slots m4)" using create_live_X [OF m3] by auto
  obtain m5 where m5: "hdr_ok example_tokens m5" "live_X [True, False, False, False] (slots m5)"
    using attach_X [OF m4, of 0] by auto
  obtain m6 where m6: "hdr_ok example_tokens m6" "live_X [True, True, False, False] (slots m6)"
    using attach_X [OF m5, of 1] by auto
  obtain m7 where "hdr_ok example_tokens m7" "live_X [True, True, False, True] (slots m7)"
    using attach_X [OF m6, of 3] by (auto simp: eval_nat_numeral)
  then show ?thesis by blast
qed

lemma attach_in_order_iff_witness:
  "\<exists>mh mh'. hdr_ok example_tokens mh \<and> mime_hdr_field_attach example_tokens 2 True None mh = Some mh' \<and> \<not> hdr_ok example_tokens mh'"
proof -
  obtain mh where mh: "hdr_ok example_tokens mh" "live_X [True, True, False, True] (slots mh)" using three_of_four_X by blast
  have len: "length (slots mh) = 4" using mh(2) by (simp add: live_X_def)
  have f: "m_readiness (slots mh ! 2) = DETACHED" "known example_tokens (slots mh ! 2)" "key (slots mh ! 2) = Inr (lowb (chars ''X''))"
    "\<not> m_cooked (slots mh ! 2)"
    using mh(2) content_X [of "slots mh ! 2"] by (simp_all add: live_X_def)
  have "\<not> in_order (slots mh) 2" unfolding in_order_def f(3) not_all not_imp
    using same_X [OF mh(2)] len by (intro exI [of _ 0] exI [of _ 1] exI [of _ 3]) simp
  then show ?thesis using attach_in_order_iff [OF example_tokens_ok mh(1), of 2 None] f len mh(1) by auto
qed

text \<open>
  When \<open>find_csv\<close> finds an empty element, it goes on with the next field of the dup list: of a value
  \<open>a,,b\<close> followed by a field of the same name the element \<open>b\<close> is never seen.
\<close>

theorem csv_skips_after_empty:
  assumes "m_value (fld mh f) = Some (a @ [sep, sep] @ b)" "m_next_dup (fld mh f) = Some d" "m_value (fld mh d) \<noteq> None"
    "a \<noteq> []" "\<forall>c \<in> set a. \<not> is_cls C_ws c \<and> c \<noteq> sep \<and> c \<noteq> of_char (CHR ''\"'')" "\<not> is_cls C_ws sep"
  shows "csv_values mh sep f = map_option ((#) a) (csv_values mh sep d)"
proof -
  let ?v = "a @ [sep, sep] @ b" and ?n = "length a"
  have v: "value_bytes (fld mh f) = ?v" using assms(1) by (simp add: value_bytes_def)
  have a: "\<not> is_cls C_ws (?v ! i) \<and> ?v ! i \<noteq> sep \<and> ?v ! i \<noteq> of_char (CHR ''\"'')" if "i < ?n" for i
    using assms(5) nth_mem [OF that] that by (simp add: nth_append)
  have "csv_scan ?v sep Skip_ws 0 None None = csv_scan ?v sep Parse_value 0 (Some 0) None"
    by (rule scan_ws) (use a assms(4) in simp_all)
  also have "\<dots> = (Some 0, Some (?n - 1), ?n)" by (rule scan_plain) (use a assms(4) in \<open>simp_all add: nth_append\<close>)
  finally have first: "find_csv mh sep True f 0 = Some \<lparr>m_cur_field = f, m_csv_start = Some 0, m_csv_len = int (?n - 1) - int 0 + 1, m_csv_end = ?n\<rparr>"
    using find_csv_found [of mh f sep 0] v by simp
  let ?it = "\<lparr>m_cur_field = f, m_csv_start = Some 0, m_csv_len = int (?n - 1) - int 0 + 1, m_csv_end = ?n\<rparr>"
  have "csv_scan ?v sep Skip_ws (?n + 1) None None = csv_scan ?v sep Parse_value (?n + 1) (Some (?n + 1)) None"
    by (rule scan_ws) (use assms(6) in \<open>auto simp: nth_append\<close>)
  also have "\<dots> = (Some (?n + 1), None, ?n + 1)" by (rule scan_sep) (simp_all add: nth_append)
  finally have second: "find_csv mh sep True f (?n + 1) = find_csv mh sep True d 0"
    using find_csv_empty [OF _ assms(2)] v by simp
  have "nat (int (?n - 1) - int 0 + 1) = ?n" using assms(4) by (cases a) simp_all
  then have str: "csv_text mh ?it = a" by (simp add: csv_text_def v)
  have "csv_values mh sep f = csv_rest mh sep ?it" using assms(1) first by (simp add: csv_values_def csv_get_first_def)
  also have "\<dots> = Option.bind (find_csv mh sep True d 0) (\<lambda>it'. map_option ((#) a) (csv_rest mh sep it'))"
  proof (cases "find_csv mh sep True d 0")
    case None
    then show ?thesis using second by (subst csv_rest.simps) (simp add: csv_get_next_def)
  next
    case (Some it')
    then show ?thesis using second str by (subst csv_rest.simps) (cases "csv_rest mh sep it'"; simp add: csv_get_next_def)
  qed
  also have "\<dots> = map_option ((#) a) (csv_values mh sep d)"
    using assms(3) by (cases "find_csv mh sep True d 0") (simp_all add: csv_values_def csv_get_first_def)
  finally show ?thesis .
qed

text \<open>\<open>Cache-Control: a,,b\<close> and \<open>Cache-Control: c\<close>.\<close>

definition two_fields :: mime_hdr where
  "two_fields = mime_hdr_init\<lparr>m_blocks := [[mime_field_init\<lparr>m_value := Some [97, 44, 44, 98], m_next_dup := Some 1\<rparr>,
     mime_field_init\<lparr>m_value := Some [99]\<rparr>]]\<rparr>"

lemma csv_skips_after_empty_witness: "csv_values two_fields 44 0 = Some [[97], [99]]"
proof -
  have ws: "\<not> is_cls C_ws (99 :: u8)" "(99 :: u8) \<noteq> of_char (CHR ''\"'')" "(44 :: u8) = of_char (CHR '','')"
    by (simp_all add: is_cls_iff is_ws0_def CHAR_SP_def CHAR_HT_def of_char_def)
  have v: "value_bytes (fld two_fields 1) = [99]" "m_next_dup (fld two_fields 1) = None" "m_value (fld two_fields 1) \<noteq> None"
    by (simp_all add: two_fields_def fld_def value_bytes_def mime_field_init_def)
  have over: "csv_scan [99] 44 Parse_value 1 (Some 0) (Some 0) = (Some 0, Some 0, 1)" "csv_scan [99] 44 Skip_ws 2 None None = (None, None, 2)"
    by (subst csv_scan.simps, simp)+
  have "csv_scan [99] 44 Parse_value 0 (Some 0) None = csv_scan [99] 44 Parse_value 1 (Some 0) (Some 0)"
    using ws by (subst csv_scan.simps) simp
  moreover have "csv_scan [99] 44 Skip_ws 0 None None = csv_scan [99] 44 Parse_value 0 (Some 0) None"
    using ws by (subst csv_scan.simps) simp
  ultimately have scan: "csv_scan [99] 44 Skip_ws 0 None None = (Some 0, Some 0, 1)" using over(1) by simp
  let ?it = "\<lparr>m_cur_field = 1, m_csv_start = Some 0, m_csv_len = 1, m_csv_end = 1\<rparr>"
  have "find_csv two_fields 44 True 1 0 = Some ?it" using scan v by (subst find_csv.simps) simp
  moreover have "find_csv two_fields 44 True 1 2 = Some \<lparr>m_cur_field = 1, m_csv_start = None, m_csv_len = 0, m_csv_end = 2\<rparr>"
    using over(2) v by (subst find_csv.simps) simp
  then have "csv_rest two_fields 44 ?it = Some [[99]]" using v
    by (subst csv_rest.simps) (simp add: csv_get_next_def csv_rest_end csv_text_def numeral_2_eq_2)
  ultimately have "csv_values two_fields 44 1 = Some [[99]]" using v by (simp add: csv_values_def csv_get_first_def)
  moreover have "\<not> is_cls C_ws (97 :: u8)" "\<not> is_cls C_ws (44 :: u8)" "(97 :: u8) \<noteq> of_char (CHR ''\"'')"
    by (simp_all add: is_cls_iff is_ws0_def CHAR_SP_def CHAR_HT_def of_char_def)
  ultimately show ?thesis using csv_skips_after_empty [of two_fields 0 "[97]" 44 "[98]" 1]
    by (simp add: two_fields_def fld_def)
qed

end
