(* ===== verification/MimeApi.thy ===== *)
theory MimeApi
  imports MimeHdr
begin

unbundle bit_operations_syntax

text \<open>
  The interface of the MIME headers (class MIMEHdr in proxy/hdrs/MIME.h and the value functions of
  proxy/hdrs/MIME.cc): numbers and dates as values, appending to a value, the comma separated pieces of a value
  (with HttpCompat::parse_tok_list), the iterator over the live fields, and the operations by name. \<open>tab\<close> is the
  table of days of the date printer, \<open>re\<close> the matching of the date patterns.
\<close>

section \<open>Numbers and dates\<close>

definition mime_field_value_get_int :: "mime_field \<Rightarrow> s32" where
  "mime_field_value_get_int f = mime_parse_int (value_bytes f)"

definition mime_field_value_get_uint :: "mime_field \<Rightarrow> u32" where
  "mime_field_value_get_uint f = mime_parse_uint (value_bytes f)"

definition mime_field_value_get_int64 :: "mime_field \<Rightarrow> s64" where
  "mime_field_value_get_int64 f = mime_parse_int64 (value_bytes f)"

definition mime_field_value_get_date :: "(string \<Rightarrow> bytes \<Rightarrow> bool) \<Rightarrow> mime_field \<Rightarrow> int option" where
  "mime_field_value_get_date re f = mime_parse_date re (value_bytes f)"

text \<open>The first \<open>len\<close> bytes of a buffer that holds a text and its NUL.\<close>

definition buf_text :: "bytes \<times> int \<Rightarrow> bytes" where
  "buf_text p = take (nat (snd p)) (fst p @ [0])"

definition mime_field_value_set_int :: "hdr_tokens \<Rightarrow> nat \<Rightarrow> s32 \<Rightarrow> mime_hdr \<Rightarrow> mime_hdr option" where
  "mime_field_value_set_int T n v mh = mime_field_value_set T n (buf_text (mime_format_int v 16)) mh"

definition mime_field_value_set_uint :: "hdr_tokens \<Rightarrow> nat \<Rightarrow> u32 \<Rightarrow> mime_hdr \<Rightarrow> mime_hdr option" where
  "mime_field_value_set_uint T n v mh = mime_field_value_set T n (buf_text (mime_format_uint v 16)) mh"

definition mime_field_value_set_int64 :: "hdr_tokens \<Rightarrow> nat \<Rightarrow> s64 \<Rightarrow> mime_hdr \<Rightarrow> mime_hdr option" where
  "mime_field_value_set_int64 T n v mh = mime_field_value_set T n (buf_text (mime_format_int64 v 20)) mh"

definition mime_field_value_set_date :: "hdr_tokens \<Rightarrow> mdy_table \<Rightarrow> nat \<Rightarrow> int \<Rightarrow> mime_hdr \<Rightarrow> mime_hdr option" where
  "mime_field_value_set_date T tab n v mh =
     do { buf \<leftarrow> mime_format_date tab v; mime_field_value_set T n buf mh }"

section \<open>Changing a value\<close>

text \<open>The end of every function that replaces a value.\<close>

definition value_changed :: "hdr_tokens \<Rightarrow> nat \<Rightarrow> bytes option \<Rightarrow> mime_hdr \<Rightarrow> mime_hdr option" where
  "value_changed T n v mh =
     (let mh1 = upd_fld n (\<lambda>g. g\<lparr>m_value := v, m_raw_printable := False\<rparr>) mh; f = fld mh1 n
      in if is_live f \<and> m_cooked f then recompute_cooked_stuff T (Some (m_wks_idx f)) mh1 else Some mh1)"

definition mime_field_value_append :: "hdr_tokens \<Rightarrow> nat \<Rightarrow> bytes \<Rightarrow> bool \<Rightarrow> u8 \<Rightarrow> mime_hdr \<Rightarrow> mime_hdr option" where
  "mime_field_value_append T n value prepend_comma separator mh =
     (let old = value_bytes (fld mh n);
          v = old @ (if prepend_comma \<and> old \<noteq> [] then [separator, CHAR_SP] else []) @ value
      in value_changed T n (Some (take (length v mod 2 ^ 24) v)) mh)"

section \<open>Comma separated pieces\<close>

abbreviation (input) QUOT :: u8 where
  "QUOT \<equiv> 34"

text \<open>The bytes before the next separator outside quotes.\<close>

fun token_len :: "u8 \<Rightarrow> bool \<Rightarrow> bytes \<Rightarrow> nat" where
  "token_len sep in_quote [] = 0"
| "token_len sep in_quote (c # s) =
     (if c = sep \<and> \<not> in_quote then 0 else Suc (token_len sep (if c = QUOT then \<not> in_quote else in_quote) s))"

text \<open>\<open>e\<close> backs up over white space but not before \<open>s\<close>: the text of a token without it.\<close>

definition trim_end :: "bytes \<Rightarrow> bytes" where
  "trim_end t = rev (dropWhile is_ws (rev t))"

text \<open>
  The main loop. The list of tokens, whether the last token ended at a separator, and the rest from
  \<open>s_before_skipping_ws\<close> (an empty token in the code points there).
\<close>

lemma rest_shorter: "s \<noteq> [] \<Longrightarrow> length (dropWhile P s) - Suc n < length s"
  using length_dropWhile_le [of P s] by (cases s) (simp_all del: dropWhile.simps)

function tok_loop :: "bool \<Rightarrow> u8 \<Rightarrow> bytes \<Rightarrow> bool \<Rightarrow> bytes list \<Rightarrow> bytes list \<times> bool" where
  "tok_loop trim_quotes sep s hit_sep acc =
     (if s = [] then (acc, hit_sep)
      else (let s1 = dropWhile is_ws s
            in if s1 \<noteq> [] \<and> hd s1 = sep then tok_loop trim_quotes sep (tl s1) True (acc @ [[]])
               else if s1 = [] then (acc, hit_sep)
               else (let quoted = (hd s1 = QUOT);
                         n = (if quoted then Suc (token_len sep True (tl s1)) else token_len sep False s1);
                         t = trim_end (if quoted \<and> trim_quotes then drop 1 (take n s1) else take n s1);
                         t1 = (if t \<noteq> [] \<and> last t = QUOT \<and> trim_quotes then butlast t else t)
                     in tok_loop trim_quotes sep (drop (n + 1) s1) (n < length s1) (acc @ [t1]))))"
  by pat_completeness auto
termination
  by (relation "measure (\<lambda>(_, _, s, _). length s)") (simp_all add: rest_shorter del: dropWhile_eq_Nil_conv)

declare tok_loop.simps [simp del]

definition parse_tok_list :: "bool \<Rightarrow> bytes option \<Rightarrow> u8 \<Rightarrow> bytes list" where
  "parse_tok_list trim_quotes string sep =
     (case string of
        None \<Rightarrow> []
      | Some s \<Rightarrow>
          (if sep = 0 then []
           else (let (acc, hit_sep) = tok_loop trim_quotes sep s False []
                 in if hit_sep \<or> acc = [] then acc @ [[]] else acc)))"

definition supports_commas :: "hdr_tokens \<Rightarrow> mime_field \<Rightarrow> bool" where
  "supports_commas T f \<longleftrightarrow> (if m_wks_idx f \<ge> 0 then hdrtoken_index_to_flags T (m_wks_idx f) AND HTIF_COMMAS \<noteq> 0 else True)"

abbreviation (input) COMMA :: u8 where
  "COMMA \<equiv> 44"

definition mime_field_value_get_comma_list :: "hdr_tokens \<Rightarrow> mime_field \<Rightarrow> bytes list" where
  "mime_field_value_get_comma_list T f =
     (if \<not> supports_commas T f then [value_bytes f] else parse_tok_list True (m_value f) COMMA)"

definition mime_field_value_get_comma_val :: "hdr_tokens \<Rightarrow> mime_field \<Rightarrow> int \<Rightarrow> bytes option" where
  "mime_field_value_get_comma_val T f idx =
     (if \<not> supports_commas T f then (if idx = 0 then m_value f else None)
      else (let l = mime_field_value_get_comma_list T f in if 0 \<le> idx \<and> idx < int (length l) then Some (l ! nat idx) else None))"

definition mime_field_value_get_comma_val_count :: "hdr_tokens \<Rightarrow> mime_field \<Rightarrow> nat" where
  "mime_field_value_get_comma_val_count T f =
     (if \<not> supports_commas T f then (if value_bytes f = [] then 0 else 1) else length (mime_field_value_get_comma_list T f))"

fun value_str_from_strlist :: "bytes list \<Rightarrow> bytes" where
  "value_str_from_strlist [] = []"
| "value_str_from_strlist [s] = s"
| "value_str_from_strlist (s # t # l) = s @ [COMMA, CHAR_SP] @ value_str_from_strlist (t # l)"

text \<open>The length of the new value is stored in 24 bits.\<close>

definition set_pieces :: "hdr_tokens \<Rightarrow> nat \<Rightarrow> bytes list \<Rightarrow> mime_hdr \<Rightarrow> mime_hdr option" where
  "set_pieces T n l mh =
     (let v = value_str_from_strlist l in value_changed T n (Some (take (length v mod 2 ^ 24) v)) mh)"

definition mime_field_value_set_comma_val :: "hdr_tokens \<Rightarrow> nat \<Rightarrow> int \<Rightarrow> bytes \<Rightarrow> mime_hdr \<Rightarrow> mime_hdr option" where
  "mime_field_value_set_comma_val T n idx piece mh =
     (let l = parse_tok_list False (m_value (fld mh n)) COMMA
      in if idx < 0 \<or> idx \<ge> int (length l) then Some mh else set_pieces T n (l[nat idx := piece]) mh)"

definition mime_field_value_delete_comma_val :: "hdr_tokens \<Rightarrow> nat \<Rightarrow> int \<Rightarrow> mime_hdr \<Rightarrow> mime_hdr option" where
  "mime_field_value_delete_comma_val T n idx mh =
     (let l = parse_tok_list False (m_value (fld mh n)) COMMA
      in if idx < 0 \<or> idx \<ge> int (length l) then Some mh
         else (let l' = take (nat idx) l @ drop (Suc (nat idx)) l
               in if l' = [] then value_changed T n None mh else set_pieces T n l' mh))"

definition mime_field_value_insert_comma_val :: "hdr_tokens \<Rightarrow> nat \<Rightarrow> int \<Rightarrow> bytes \<Rightarrow> mime_hdr \<Rightarrow> mime_hdr option" where
  "mime_field_value_insert_comma_val T n idx piece mh =
     (let l = parse_tok_list False (m_value (fld mh n)) COMMA; i = (if idx < 0 then int (length l) else idx)
      in if i > int (length l) then Some mh
         else set_pieces T n (take (nat i) l @ piece # drop (nat i) l) mh)"

definition mime_field_value_extend_comma_val :: "hdr_tokens \<Rightarrow> nat \<Rightarrow> int \<Rightarrow> bytes \<Rightarrow> mime_hdr \<Rightarrow> mime_hdr option" where
  "mime_field_value_extend_comma_val T n idx piece mh =
     (let l = parse_tok_list False (m_value (fld mh n)) COMMA
      in if idx < 0 \<or> idx \<ge> int (length l) then Some mh
         else (let cell = l ! nat idx;
                   trimmed = (length cell \<ge> 2 \<and> hd cell = QUOT \<and> last cell = QUOT)
               in set_pieces T n
                    (l[nat idx := (if trimmed then [QUOT] @ butlast (tl cell) @ piece @ [QUOT] else cell @ piece)]) mh))"

section \<open>Iteration\<close>

fun mime_hdr_field_get_loop :: "int \<Rightarrow> int \<Rightarrow> nat list \<Rightarrow> mime_hdr \<Rightarrow> nat option" where
  "mime_hdr_field_get_loop got_idx idx [] mh = None"
| "mime_hdr_field_get_loop got_idx idx (n # ns) mh =
     (let g = (if is_live (fld mh n) then got_idx + 1 else got_idx)
      in if g = idx then Some n else mime_hdr_field_get_loop g idx ns mh)"

text \<open>The slots in the order of the two loops over the blocks.\<close>

fun slot_numbers :: "nat \<Rightarrow> mime_field list list \<Rightarrow> nat list" where
  "slot_numbers b [] = []"
| "slot_numbers b (fs # bs) = map (\<lambda>i. b * MIME_FIELD_BLOCK_SLOTS + i) [0..<length fs] @ slot_numbers (b + 1) bs"

definition mime_hdr_field_get :: "mime_hdr \<Rightarrow> int \<Rightarrow> nat option" where
  "mime_hdr_field_get mh idx = mime_hdr_field_get_loop (- 1) idx (slot_numbers 0 (m_blocks mh)) mh"

record field_iter =
  it_slot :: u32
  it_block :: "nat option"

fun iter_blocks :: "nat \<Rightarrow> nat \<Rightarrow> mime_field list list \<Rightarrow> (nat \<times> nat) option" where
  "iter_blocks b slot [] = None"
| "iter_blocks b slot (fs # bs) =
     (case search_block (\<lambda>f. m_readiness f = LIVE) slot (drop slot fs) of
        Some i \<Rightarrow> Some (b, i)
      | None \<Rightarrow> iter_blocks (b + 1) 0 bs)"

definition iter_get_next :: "mime_hdr \<Rightarrow> field_iter \<Rightarrow> field_iter \<times> nat option" where
  "iter_get_next mh it =
     (case it_block it of
        None \<Rightarrow> (it, None)
      | Some b \<Rightarrow>
          (case iter_blocks b (unat (it_slot it + 1)) (drop b (m_blocks mh)) of
             Some (b', i) \<Rightarrow> (\<lparr>it_slot = of_nat i, it_block = Some b'\<rparr>, Some (b' * MIME_FIELD_BLOCK_SLOTS + i))
           | None \<Rightarrow> (it\<lparr>it_block := None\<rparr>, None)))"

definition iter_get_first :: "mime_hdr \<Rightarrow> field_iter \<times> nat option" where
  "iter_get_first mh = iter_get_next mh \<lparr>it_slot = - 1, it_block = Some 0\<rparr>"

text \<open>The fields that \<open>for (f = iter_get_first(&it); f; f = iter_get_next(&it))\<close> visits.\<close>

partial_function (option) iter_rest :: "mime_hdr \<Rightarrow> field_iter \<times> nat option \<Rightarrow> nat list option" where
  "iter_rest mh p =
     (case snd p of
        None \<Rightarrow> Some []
      | Some n \<Rightarrow> do { ns \<leftarrow> iter_rest mh (iter_get_next mh (fst p)); Some (n # ns) })"

definition reset_accelerators_and_presence_bits :: "hdr_tokens \<Rightarrow> mime_hdr \<Rightarrow> mime_hdr" where
  "reset_accelerators_and_presence_bits T mh =
     fold (\<lambda>n m. if is_live (fld m n)
                  then (let m1 = upd_fld n (\<lambda>f. f\<lparr>m_wks_idx := hdrtoken_tokenize T (Text (m_name f))\<rparr>) m
                        in if m_dup_head (fld m1 n) then set_accelerators_and_presence_bits T n m1 else m1)
                  else m)
       (slot_numbers 0 (m_blocks mh)) (init_accelerators_and_presence_bits mh)"

section \<open>The class MIMEHdr\<close>

definition hdr_field_create :: "hdr_tokens \<Rightarrow> hname option \<Rightarrow> mime_hdr \<Rightarrow> mime_hdr \<times> nat" where
  "hdr_field_create T name mh =
     (let (mh1, n) = mime_field_create mh
      in case name of
           None \<Rightarrow> (mh1, n)
         | Some s \<Rightarrow> (mime_field_name_set T n (hdrtoken_tokenize T s) (name_text s) mh1, n))"

definition hdr_field_attach :: "hdr_tokens \<Rightarrow> nat \<Rightarrow> mime_hdr \<Rightarrow> mime_hdr option" where
  "hdr_field_attach T n mh = mime_hdr_field_attach T n True None mh"

definition hdr_field_delete_name :: "hdr_tokens \<Rightarrow> hname \<Rightarrow> mime_hdr \<Rightarrow> mime_hdr option" where
  "hdr_field_delete_name T name mh =
     (case mime_hdr_field_find T mh name of None \<Rightarrow> Some mh | Some n \<Rightarrow> mime_hdr_field_delete T n True mh)"

definition hdr_presence :: "u64 \<Rightarrow> mime_hdr \<Rightarrow> u64" where
  "hdr_presence bits mh = m_presence mh AND bits"

definition hdr_value_get :: "hdr_tokens \<Rightarrow> hname \<Rightarrow> mime_hdr \<Rightarrow> bytes option" where
  "hdr_value_get T name mh = (case mime_hdr_field_find T mh name of Some n \<Rightarrow> m_value (fld mh n) | None \<Rightarrow> None)"

definition hdr_value_get_int :: "hdr_tokens \<Rightarrow> hname \<Rightarrow> mime_hdr \<Rightarrow> s32" where
  "hdr_value_get_int T name mh =
     (case mime_hdr_field_find T mh name of Some n \<Rightarrow> mime_field_value_get_int (fld mh n) | None \<Rightarrow> 0)"

definition hdr_value_get_uint :: "hdr_tokens \<Rightarrow> hname \<Rightarrow> mime_hdr \<Rightarrow> u32" where
  "hdr_value_get_uint T name mh =
     (case mime_hdr_field_find T mh name of Some n \<Rightarrow> mime_field_value_get_uint (fld mh n) | None \<Rightarrow> 0)"

definition hdr_value_get_int64 :: "hdr_tokens \<Rightarrow> hname \<Rightarrow> mime_hdr \<Rightarrow> s64" where
  "hdr_value_get_int64 T name mh =
     (case mime_hdr_field_find T mh name of Some n \<Rightarrow> mime_field_value_get_int64 (fld mh n) | None \<Rightarrow> 0)"

definition hdr_value_get_date :: "hdr_tokens \<Rightarrow> (string \<Rightarrow> bytes \<Rightarrow> bool) \<Rightarrow> hname \<Rightarrow> mime_hdr \<Rightarrow> int option" where
  "hdr_value_get_date T re name mh =
     (case mime_hdr_field_find T mh name of Some n \<Rightarrow> mime_field_value_get_date re (fld mh n) | None \<Rightarrow> Some 0)"

definition hdr_value_get_comma_list :: "hdr_tokens \<Rightarrow> hname \<Rightarrow> mime_hdr \<Rightarrow> bytes list" where
  "hdr_value_get_comma_list T name mh =
     (case mime_hdr_field_find T mh name of Some n \<Rightarrow> mime_field_value_get_comma_list T (fld mh n) | None \<Rightarrow> [])"

definition hdr_value_set :: "hdr_tokens \<Rightarrow> hname \<Rightarrow> bytes \<Rightarrow> mime_hdr \<Rightarrow> mime_hdr option" where
  "hdr_value_set T name v mh = do { (mh1, n) \<leftarrow> mime_hdr_prepare_for_value_set T name mh; mime_field_value_set T n v mh1 }"

definition hdr_value_set_int :: "hdr_tokens \<Rightarrow> hname \<Rightarrow> s32 \<Rightarrow> mime_hdr \<Rightarrow> mime_hdr option" where
  "hdr_value_set_int T name v mh = do { (mh1, n) \<leftarrow> mime_hdr_prepare_for_value_set T name mh; mime_field_value_set_int T n v mh1 }"

definition hdr_value_set_uint :: "hdr_tokens \<Rightarrow> hname \<Rightarrow> u32 \<Rightarrow> mime_hdr \<Rightarrow> mime_hdr option" where
  "hdr_value_set_uint T name v mh = do { (mh1, n) \<leftarrow> mime_hdr_prepare_for_value_set T name mh; mime_field_value_set_uint T n v mh1 }"

definition hdr_value_set_int64 :: "hdr_tokens \<Rightarrow> hname \<Rightarrow> s64 \<Rightarrow> mime_hdr \<Rightarrow> mime_hdr option" where
  "hdr_value_set_int64 T name v mh = do { (mh1, n) \<leftarrow> mime_hdr_prepare_for_value_set T name mh; mime_field_value_set_int64 T n v mh1 }"

definition hdr_value_set_date :: "hdr_tokens \<Rightarrow> mdy_table \<Rightarrow> hname \<Rightarrow> int \<Rightarrow> mime_hdr \<Rightarrow> mime_hdr option" where
  "hdr_value_set_date T tab name v mh =
     do { (mh1, n) \<leftarrow> mime_hdr_prepare_for_value_set T name mh; mime_field_value_set_date T tab n v mh1 }"

partial_function (option) last_dup :: "mime_hdr \<Rightarrow> nat \<Rightarrow> nat option" where
  "last_dup mh n = (case m_next_dup (fld mh n) of None \<Rightarrow> Some n | Some d \<Rightarrow> last_dup mh d)"

definition hdr_value_append :: "hdr_tokens \<Rightarrow> hname \<Rightarrow> bytes \<Rightarrow> bool \<Rightarrow> u8 \<Rightarrow> mime_hdr \<Rightarrow> mime_hdr option" where
  "hdr_value_append T name v prepend_comma separator mh =
     (case mime_hdr_field_find T mh name of
        Some n \<Rightarrow> do { m \<leftarrow> last_dup mh n; mime_field_value_append T m v prepend_comma separator mh }
      | None \<Rightarrow>
          (let (mh1, n) = hdr_field_create T (Some name) mh
           in do { mh2 \<leftarrow> hdr_field_attach T n mh1; mime_field_value_set T n v mh2 }))"

text \<open>The well-known name of a constant such as \<open>MIME_FIELD_AGE\<close>.\<close>

definition wks :: "hdr_tokens \<Rightarrow> string \<Rightarrow> hname" where
  "wks T s = Wks (nat (hdrtoken_tokenize T (Text (chars s))))"

text \<open>The index of a constant such as \<open>HTTP_WKSIDX_GET\<close>.\<close>

definition wks_index :: "hdr_tokens \<Rightarrow> string \<Rightarrow> int" where
  "wks_index T n = hdrtoken_tokenize T (Text (chars n))"

text \<open>\<open>time_t\<close> has 64 bits.\<close>

definition get_age :: "hdr_tokens \<Rightarrow> mime_hdr \<Rightarrow> int" where
  "get_age T mh = (let age = sint (hdr_value_get_int64 T (wks T ''Age'') mh) in if age < 0 then 0 else age)"

definition get_content_length :: "hdr_tokens \<Rightarrow> mime_hdr \<Rightarrow> s64" where
  "get_content_length T mh = hdr_value_get_int64 T (wks T ''Content-Length'') mh"

definition get_date :: "hdr_tokens \<Rightarrow> (string \<Rightarrow> bytes \<Rightarrow> bool) \<Rightarrow> mime_hdr \<Rightarrow> int option" where
  "get_date T re mh = hdr_value_get_date T re (wks T ''Date'') mh"

definition get_expires :: "hdr_tokens \<Rightarrow> (string \<Rightarrow> bytes \<Rightarrow> bool) \<Rightarrow> mime_hdr \<Rightarrow> int option" where
  "get_expires T re mh = hdr_value_get_date T re (wks T ''Expires'') mh"

definition get_if_modified_since :: "hdr_tokens \<Rightarrow> (string \<Rightarrow> bytes \<Rightarrow> bool) \<Rightarrow> mime_hdr \<Rightarrow> int option" where
  "get_if_modified_since T re mh = hdr_value_get_date T re (wks T ''If-Modified-Since'') mh"

definition get_if_unmodified_since :: "hdr_tokens \<Rightarrow> (string \<Rightarrow> bytes \<Rightarrow> bool) \<Rightarrow> mime_hdr \<Rightarrow> int option" where
  "get_if_unmodified_since T re mh = hdr_value_get_date T re (wks T ''If-Unmodified-Since'') mh"

definition get_last_modified :: "hdr_tokens \<Rightarrow> (string \<Rightarrow> bytes \<Rightarrow> bool) \<Rightarrow> mime_hdr \<Rightarrow> int option" where
  "get_last_modified T re mh = hdr_value_get_date T re (wks T ''Last-Modified'') mh"

definition get_if_range_date :: "hdr_tokens \<Rightarrow> (string \<Rightarrow> bytes \<Rightarrow> bool) \<Rightarrow> mime_hdr \<Rightarrow> int option" where
  "get_if_range_date T re mh = hdr_value_get_date T re (wks T ''If-Range'') mh"

definition get_max_forwards :: "hdr_tokens \<Rightarrow> mime_hdr \<Rightarrow> s32" where
  "get_max_forwards T mh = hdr_value_get_int T (wks T ''Max-Forwards'') mh"

abbreviation (input) MIME_COOKED_MASK_CC_NEED_REVALIDATE_ONCE :: u32 where
  "MIME_COOKED_MASK_CC_NEED_REVALIDATE_ONCE \<equiv> 4096"

definition get_cooked_cc_mask :: "mime_hdr \<Rightarrow> u32" where
  "get_cooked_cc_mask mh = m_mask (m_cache_control mh)"

definition get_cooked_cc_max_age :: "mime_hdr \<Rightarrow> int" where
  "get_cooked_cc_max_age mh = m_secs_max_age (m_cache_control mh)"

definition get_cooked_cc_s_maxage :: "mime_hdr \<Rightarrow> int" where
  "get_cooked_cc_s_maxage mh = m_secs_s_maxage (m_cache_control mh)"

definition get_cooked_cc_max_stale :: "mime_hdr \<Rightarrow> int" where
  "get_cooked_cc_max_stale mh = m_secs_max_stale (m_cache_control mh)"

definition get_cooked_cc_min_fresh :: "mime_hdr \<Rightarrow> int" where
  "get_cooked_cc_min_fresh mh = m_secs_min_fresh (m_cache_control mh)"

definition get_cooked_pragma_no_cache :: "mime_hdr \<Rightarrow> bool" where
  "get_cooked_pragma_no_cache mh = m_pragma_no_cache mh"

definition set_cooked_cc_need_revalidate_once :: "mime_hdr \<Rightarrow> mime_hdr" where
  "set_cooked_cc_need_revalidate_once mh =
     mh\<lparr>m_cache_control := (m_cache_control mh)\<lparr>m_mask := m_mask (m_cache_control mh) OR MIME_COOKED_MASK_CC_NEED_REVALIDATE_ONCE\<rparr>\<rparr>"

definition unset_cooked_cc_need_revalidate_once :: "mime_hdr \<Rightarrow> mime_hdr" where
  "unset_cooked_cc_need_revalidate_once mh =
     mh\<lparr>m_cache_control :=
       (m_cache_control mh)\<lparr>m_mask := m_mask (m_cache_control mh) AND NOT MIME_COOKED_MASK_CC_NEED_REVALIDATE_ONCE\<rparr>\<rparr>"

definition set_age :: "hdr_tokens \<Rightarrow> s64 \<Rightarrow> mime_hdr \<Rightarrow> mime_hdr option" where
  "set_age T v mh =
     (if v <s 0 then hdr_value_set_uint T (wks T ''Age'') (2 ^ 31) mh else hdr_value_set_int64 T (wks T ''Age'') v mh)"

definition set_content_length :: "hdr_tokens \<Rightarrow> s64 \<Rightarrow> mime_hdr \<Rightarrow> mime_hdr option" where
  "set_content_length T v mh = hdr_value_set_int64 T (wks T ''Content-Length'') v mh"

definition set_date :: "hdr_tokens \<Rightarrow> mdy_table \<Rightarrow> int \<Rightarrow> mime_hdr \<Rightarrow> mime_hdr option" where
  "set_date T tab v mh = hdr_value_set_date T tab (wks T ''Date'') v mh"

definition set_expires :: "hdr_tokens \<Rightarrow> mdy_table \<Rightarrow> int \<Rightarrow> mime_hdr \<Rightarrow> mime_hdr option" where
  "set_expires T tab v mh = hdr_value_set_date T tab (wks T ''Expires'') v mh"

definition set_if_modified_since :: "hdr_tokens \<Rightarrow> mdy_table \<Rightarrow> int \<Rightarrow> mime_hdr \<Rightarrow> mime_hdr option" where
  "set_if_modified_since T tab v mh = hdr_value_set_date T tab (wks T ''If-Modified-Since'') v mh"

definition set_if_unmodified_since :: "hdr_tokens \<Rightarrow> mdy_table \<Rightarrow> int \<Rightarrow> mime_hdr \<Rightarrow> mime_hdr option" where
  "set_if_unmodified_since T tab v mh = hdr_value_set_date T tab (wks T ''If-Unmodified-Since'') v mh"

definition set_last_modified :: "hdr_tokens \<Rightarrow> mdy_table \<Rightarrow> int \<Rightarrow> mime_hdr \<Rightarrow> mime_hdr option" where
  "set_last_modified T tab v mh = hdr_value_set_date T tab (wks T ''Last-Modified'') v mh"

definition set_max_forwards :: "hdr_tokens \<Rightarrow> s32 \<Rightarrow> mime_hdr \<Rightarrow> mime_hdr option" where
  "set_max_forwards T v mh = hdr_value_set_int T (wks T ''Max-Forwards'') v mh"

definition set_warning :: "hdr_tokens \<Rightarrow> s32 \<Rightarrow> mime_hdr \<Rightarrow> mime_hdr option" where
  "set_warning T v mh = hdr_value_set_int T (wks T ''Warning'') v mh"

definition set_server :: "hdr_tokens \<Rightarrow> bytes \<Rightarrow> mime_hdr \<Rightarrow> mime_hdr option" where
  "set_server T v mh = hdr_value_set T (wks T ''Server'') v mh"

text \<open>The host and the port of the Host field; a part without bytes is not set.\<close>

definition splitOn :: "u8 \<Rightarrow> bytes \<Rightarrow> bytes \<times> bytes" where
  "splitOn c b = (takeWhile (\<lambda>x. x \<noteq> c) b, drop 1 (dropWhile (\<lambda>x. x \<noteq> c) b))"

definition nonempty :: "bytes \<Rightarrow> bytes option" where
  "nonempty b = (if b = [] then None else Some b)"

definition get_host_port_values :: "hdr_tokens \<Rightarrow> mime_hdr \<Rightarrow> nat option \<times> bytes option \<times> bytes option" where
  "get_host_port_values T mh =
     (case mime_hdr_field_find T mh (wks T ''Host'') of
        None \<Rightarrow> (None, None, None)
      | Some n \<Rightarrow>
          (let b = value_bytes (fld mh n)
           in if b = [] then (None, None, None)
              else (let (host, port) =
                          (if hd b = of_char (CHR ''['')
                           then (let (h, r) = splitOn (of_char (CHR '']'')) b
                                 in if length h < length b \<and> r \<noteq> [] \<and> hd r = of_char (CHR '':'')
                                    then (h @ [of_char (CHR '']'')], tl r) else (b, []))
                           else if of_char (CHR '':'') \<in> set b then splitOn (of_char (CHR '':'')) b
                           else (b, []))
                    in (Some n, nonempty host, nonempty port))))"

declare iter_rest.simps [code] last_dup.simps [code]

end
