(* ===== verification/MimeApiSpec.thy ===== *)
theory MimeApiSpec
  imports MimeApi MimeHdrSpec MimeIntSpec
begin

unbundle bit_operations_syntax

text \<open>
  A header as a list of names and values: setting, appending and deleting by name are the operations on this list
  (names regardless of case), looking up is the search in it and the iterator visits it in order. The comma
  separated pieces of a value are read back after they are put together, numbers are read back after they are set.
\<close>

section \<open>The list of the live fields\<close>

type_synonym field_list = "(bytes \<times> bytes option) list"

definition name_value :: "mime_field \<Rightarrow> bytes \<times> bytes option" where
  "name_value f = (m_name f, m_value f)"

definition live_list :: "mime_field list \<Rightarrow> field_list" where
  "live_list xs = map name_value (filter is_live xs)"

definition live_fields :: "mime_hdr \<Rightarrow> field_list" where
  "live_fields mh = live_list (slots mh)"

definition named :: "bytes \<Rightarrow> bytes \<times> bytes option \<Rightarrow> bool" where
  "named s p \<longleftrightarrow> lowb (fst p) = lowb s"

lemma live_list_simps [simp]:
  "live_list [] = []" "live_list (f # xs) = (if is_live f then name_value f # live_list xs else live_list xs)"
  "live_list (xs @ ys) = live_list xs @ live_list ys"
  by (simp_all add: live_list_def)

lemma live_list_rel:
  assumes "list_all2 (\<lambda>f g. is_live g \<longleftrightarrow> is_live f \<and> P f) xs ys"
    "list_all2 (\<lambda>f g. is_live f \<and> P f \<longrightarrow> name_value g = h (name_value f)) xs ys"
  shows "live_list ys = map (h \<circ> name_value) (filter (\<lambda>f. is_live f \<and> P f) xs)"
  using assms by (induction xs ys rule: list_all2_induct) auto

lemma rel_nth: "length xs = length ys \<Longrightarrow> (\<And>j. j < length xs \<Longrightarrow> R (xs ! j) (ys ! j)) \<Longrightarrow> list_all2 R xs ys"
  by (simp add: list_all2_conv_all_nth)

lemma content_name_value: "content f = content g \<Longrightarrow> name_value f = name_value g"
  by (simp add: content_def name_value_def)

lemma skel_live_list: "skel xs ys \<Longrightarrow> live_list ys = live_list xs"
proof -
  assume s: "skel xs ys"
  have j: "is_live (ys ! j) = is_live (xs ! j)" "name_value (ys ! j) = name_value (xs ! j)" if "j < length xs" for j
    using s that content_name_value [of "ys ! j" "xs ! j"] by (simp_all add: skel_def)
  have "live_list ys = map (id \<circ> name_value) (filter (\<lambda>f. is_live f \<and> True) xs)"
    by (rule live_list_rel; rule rel_nth) (use skel_length [OF s] j in simp_all)
  then show ?thesis by (simp add: live_list_def)
qed

lemma key_named:
  assumes "tokens_ok T" "known T f" "honest T s"
  shows "key f = text_key T s \<longleftrightarrow> named s (name_value f)"
  using known_key [OF assms(2)] text_key_eq [OF assms(1) _ assms(3), of "m_name f"] assms(2)
  by (simp add: named_def name_value_def known_def)

text \<open>All live fields of a name.\<close>

lemma same_named:
  assumes "tokens_ok T" "fields_ok T xs" "honest T s" "j < length xs"
  shows "same (text_key T s) (xs ! j) \<longleftrightarrow> is_live (xs ! j) \<and> named s (name_value (xs ! j))"
  using key_named [OF assms(1) _ assms(3)] fields_okD(1) [OF assms(2,4)] by (auto simp: same_def)

section \<open>Looking up\<close>

definition list_get :: "bytes \<Rightarrow> field_list \<Rightarrow> bytes option" where
  "list_get s l = (case find (named s) l of Some p \<Rightarrow> snd p | None \<Rightarrow> None)"

lemma find_live_list:
  "find P (live_list xs) = map_option (\<lambda>n. name_value (xs ! (n - k))) (search_block (\<lambda>f. is_live f \<and> P (name_value f)) k xs)"
proof (induction xs arbitrary: k)
  case (Cons f xs)
  show ?case
  proof (cases "is_live f \<and> P (name_value f)")
    case True
    then show ?thesis by simp
  next
    case False
    have e: "name_value (xs ! (n - (k + 1))) = name_value ((f # xs) ! (n - k))"
      if "search_block (\<lambda>f. is_live f \<and> P (name_value f)) (k + 1) xs = Some n" for n
    proof -
      have "k + 1 \<le> n" using search_block_Some [OF that] by blast
      then have "n - k = Suc (n - (k + 1))" by simp
      then show ?thesis by simp
    qed
    have "find P (live_list (f # xs)) = find P (live_list xs)" using False by auto
    also have "\<dots> = map_option (\<lambda>n. name_value ((f # xs) ! (n - k))) (search_block (\<lambda>f. is_live f \<and> P (name_value f)) (k + 1) xs)"
      unfolding Cons [of "k + 1"] by (rule option.map_cong0) (use e in auto)
    finally have "find P (live_list (f # xs)) =
        map_option (\<lambda>n. name_value ((f # xs) ! (n - k))) (search_block (\<lambda>f. is_live f \<and> P (name_value f)) (k + 1) xs)" .
    moreover have "search_block (\<lambda>f. is_live f \<and> P (name_value f)) k (f # xs) = search_block (\<lambda>f. is_live f \<and> P (name_value f)) (k + 1) xs"
      by (simp only: search_block.simps if_not_P [OF False])
    ultimately show ?thesis by metis
  qed
qed simp

lemma head_search:
  assumes "tokens_ok T" "fields_ok T xs" "honest T s"
  shows "head_of xs (text_key T s) = search_block (\<lambda>f. is_live f \<and> named s (name_value f)) 0 xs"
proof -
  have "head_of xs (text_key T s) = first_from 0 (\<lambda>f. is_live f \<and> named s (name_value f)) xs"
    unfolding head_of_def by (rule first_from_cong) (simp_all add: same_named [OF assms])
  then show ?thesis by (simp add: first_from_def)
qed

lemma find_text:
  assumes "tokens_ok T" "hdr_ok T mh" "honest T s"
  shows "mime_hdr_field_find T mh (Text s) = head_of (slots mh) (text_key T s)"
  using find_head [OF assms(1,2), of "Text s"] assms(3) by (simp add: honest_name_def name_key_def)

lemma find_in_list:
  assumes "tokens_ok T" "hdr_ok T mh" "honest T s"
  shows "find (named s) (live_fields mh) = map_option (\<lambda>n. name_value (fld mh n)) (mime_hdr_field_find T mh (Text s))"
proof -
  have sh: "shape mh" and f: "fields_ok T (slots mh)" using assms(2) by (simp_all add: hdr_ok_def)
  have "find (named s) (live_fields mh) = map_option (\<lambda>n. name_value (slots mh ! n)) (head_of (slots mh) (text_key T s))"
    unfolding live_fields_def find_live_list [of _ _ 0] head_search [OF assms(1) f assms(3)] by simp
  also have "\<dots> = map_option (\<lambda>n. name_value (fld mh n)) (head_of (slots mh) (text_key T s))"
    using fld_slots [OF sh] head_live [of "slots mh" "text_key T s"] by (cases "head_of (slots mh) (text_key T s)") auto
  finally show ?thesis unfolding find_text [OF assms] .
qed

lemma value_get_list:
  assumes "tokens_ok T" "hdr_ok T mh" "honest T s"
  shows "hdr_value_get T (Text s) mh = list_get s (live_fields mh)"
  using find_in_list [OF assms] by (simp add: hdr_value_get_def list_get_def name_value_def split: option.split)

section \<open>Deleting\<close>

lemma removed_all_list:
  assumes T: "tokens_ok T" and f: "fields_ok T xs" and s: "honest T s" and n: "head_of xs (text_key T s) = Some n"
    and r: "removed r n True xs ys" "r \<noteq> LIVE"
  shows "live_list ys = filter (\<lambda>p. \<not> named s p) (live_list xs)"
proof -
  have kn: "key (xs ! n) = text_key T s" "is_live (xs ! n)" using head_live [OF n] by simp_all
  have gone: "is_live (ys ! j) \<longleftrightarrow> is_live (xs ! j) \<and> \<not> named s (name_value (xs ! j))" if j: "j < length xs" for j
  proof -
    have "n \<le> j" if "same (text_key T s) (xs ! j)" using n that by (auto simp: head_of_def first_from_Some not_less [symmetric])
    then have "j = n \<or> n < j \<and> same (text_key T s) (xs ! j) \<longleftrightarrow> same (text_key T s) (xs ! j)"
      using kn by (auto simp: same_def)
    then show ?thesis using r j same_named [OF T f s j] by (auto simp: removed_def kn(1))
  qed
  have nv: "name_value (ys ! j) = name_value (xs ! j)" if "j < length xs" for j
    using r(1) that content_name_value [of "ys ! j" "xs ! j"] by (simp add: removed_def)
  have "live_list ys = map (id \<circ> name_value) (filter (\<lambda>f. is_live f \<and> \<not> named s (name_value f)) xs)"
    by (rule live_list_rel; rule rel_nth) (use r(1) gone nv in \<open>simp_all add: removed_def\<close>)
  also have "\<dots> = filter (\<lambda>p. \<not> named s p) (live_list xs)"
    by (simp add: live_list_def filter_map comp_def conj_commute)
  finally show ?thesis .
qed

lemma none_named:
  assumes "tokens_ok T" "fields_ok T xs" "honest T s" "head_of xs (text_key T s) = None"
  shows "filter (named s) (live_list xs) = []" "filter (\<lambda>p. \<not> named s p) (live_list xs) = live_list xs"
proof -
  have "find (named s) (live_list xs) = None"
    unfolding find_live_list [of _ _ 0] head_search [OF assms(1-3), symmetric] assms(4) by simp
  then have "\<not> named s p" if "p \<in> set (live_list xs)" for p using that unfolding find_None_iff by blast
  then show "filter (named s) (live_list xs) = []" "filter (\<lambda>p. \<not> named s p) (live_list xs) = live_list xs"
    by (simp_all add: filter_empty_conv filter_id_conv)
qed

lemma delete_name_ok:
  assumes T: "tokens_ok T" and ok: "hdr_ok T mh" and s: "honest T s"
  shows "\<exists>mh'. hdr_field_delete_name T (Text s) mh = Some mh' \<and> hdr_ok T mh' \<and>
    live_fields mh' = filter (\<lambda>p. \<not> named s p) (live_fields mh)"
proof -
  have f: "fields_ok T (slots mh)" using ok by (simp add: hdr_ok_def)
  show ?thesis
  proof (cases "head_of (slots mh) (text_key T s)")
    case None
    then show ?thesis using none_named(2) [OF T f s None] ok
      by (simp add: hdr_field_delete_name_def find_text [OF T ok s] live_fields_def)
  next
    case (Some n)
    have n: "n < length (slots mh)" "is_live (slots mh ! n)" using head_live [OF Some] by simp_all
    obtain mh' where mh': "mime_hdr_field_delete T n True mh = Some mh'" "hdr_ok T mh'" "removed DELETED n True (slots mh) (slots mh')"
      using field_delete_ok [OF T ok n] by blast
    have "live_fields mh' = filter (\<lambda>p. \<not> named s p) (live_fields mh)"
      using removed_all_list [OF T f s Some mh'(3)] by (simp add: live_fields_def)
    then show ?thesis using mh' Some by (simp add: hdr_field_delete_name_def find_text [OF T ok s])
  qed
qed

section \<open>Adding and setting\<close>

definition clip :: "bytes \<Rightarrow> bytes" where
  "clip v = take (length v mod 2 ^ 24) v"

lemma live_list_split:
  assumes "n < length xs"
  shows "live_list xs = live_list (take n xs) @ live_list [xs ! n] @ live_list (drop (Suc n) xs)"
    "live_list (xs[n := g]) = live_list (take n xs) @ live_list [g] @ live_list (drop (Suc n) xs)"
proof -
  show "live_list xs = live_list (take n xs) @ live_list [xs ! n] @ live_list (drop (Suc n) xs)"
    by (subst id_take_nth_drop [OF assms]) simp
  show "live_list (xs[n := g]) = live_list (take n xs) @ live_list [g] @ live_list (drop (Suc n) xs)"
    by (subst upd_conv_take_nth_drop [OF assms]) simp
qed

lemma in_live_list: "p \<in> set (live_list xs) \<Longrightarrow> \<exists>j < length xs. is_live (xs ! j) \<and> name_value (xs ! j) = p"
  by (auto simp: live_list_def in_set_conv_nth)

lemma later_unnamed:
  assumes "tokens_ok T" "fields_ok T xs" "honest T s" "next_of (text_key T s) xs n = None"
  shows "\<forall>p \<in> set (live_list (drop (Suc n) xs)). \<not> named s p"
proof
  fix p assume "p \<in> set (live_list (drop (Suc n) xs))"
  then obtain j where j: "j < length (drop (Suc n) xs)" "is_live (drop (Suc n) xs ! j)" "name_value (drop (Suc n) xs ! j) = p"
    using in_live_list by blast
  then have l: "Suc n + j < length xs" by simp
  then have "\<not> same (text_key T s) (xs ! (Suc n + j))" using assms(4) unfolding first_from_None by simp
  then show "\<not> named s p" using same_named [OF assms(1-3) l] j by simp
qed

lemma earlier_unnamed:
  assumes "tokens_ok T" "fields_ok T xs" "honest T s" "head_of xs (text_key T s) = Some n"
  shows "\<forall>p \<in> set (live_list (take n xs)). \<not> named s p"
proof
  fix p assume "p \<in> set (live_list (take n xs))"
  then obtain j where j: "j < length (take n xs)" "is_live (take n xs ! j)" "name_value (take n xs ! j) = p"
    using in_live_list by blast
  then have l: "j < length xs" "j < n" by simp_all
  then have "\<not> same (text_key T s) (xs ! j)" using assms(4) unfolding head_of_def first_from_Some by simp
  then show "\<not> named s p" using same_named [OF assms(1-3) l(1)] j by simp
qed

lemma add_ok:
  assumes T: "tokens_ok T" and ok: "hdr_ok T mh" and s: "honest T s" "length s < 2 ^ 16"
    and c: "mime_field_create mh = (mh1, n)" and w: "w = hdrtoken_tokenize T (Text s)"
    and check: "check \<or> head_of (slots mh) (text_key T s) = None"
  shows "\<exists>mh2. mime_hdr_field_attach T n check None (mime_field_name_set T n w s mh1) = Some mh2 \<and> hdr_ok T mh2 \<and>
    n < length (slots mh2) \<and> is_live (slots mh2 ! n) \<and> m_name (slots mh2 ! n) = s \<and> drop (Suc n) (slots mh2) = [] \<and>
    live_list (take n (slots mh2)) = live_fields mh"
proof -
  let ?f = "named_field T w s" and ?m = "mime_field_name_set T n w s mh1" and ?xs = "slots mh"
  note cn = create_named_ok(1,2) [OF ok c, of w s] create_named_ok(3) [OF ok c] and kn = named_known [OF s, folded w]
  have n: "n < length (slots ?m)" "slots ?m ! n = ?f" using cn(2,3) by simp_all
  have key: "key ?f = text_key T s" using known_key [OF kn(1)] kn(2) by simp
  have ord: "in_order (slots ?m) n" unfolding in_order_def using cn(2,3) by auto
  have head: "head_of (slots ?m) (text_key T s) = None" if "head_of ?xs (text_key T s) = None"
    using that cn(2) kn(3) unfolding head_of_def first_from_None by (auto simp: nth_append less_Suc_eq same_def)
  have d: "m_readiness (slots ?m ! n) = DETACHED" "known T (slots ?m ! n)" "check \<or> None = head_of (slots ?m) (key (slots ?m ! n))"
    using n(2) kn key check head by auto
  obtain mh2 where mh2: "mime_hdr_field_attach T n check None ?m = Some mh2" "hdr_ok T mh2"
    "skel ((slots ?m)[n := (slots ?m ! n)\<lparr>m_readiness := LIVE\<rparr>]) (slots mh2)"
    using attach_ok [OF T cn(1) n(1) d(1,2) ord d(3)] by blast
  have sk: "skel (?xs @ [?f\<lparr>m_readiness := LIVE\<rparr>]) (slots mh2)" using mh2(3) cn(2,3) by simp
  have len: "length (slots mh2) = Suc n" using skel_length [OF sk] cn(3) by simp
  have "skel ?xs (take n (slots mh2))" using sk len cn(3) unfolding skel_def by (auto simp: nth_append)
  then have "live_list (take n (slots mh2)) = live_list ?xs" by (rule skel_live_list)
  moreover have "content (slots mh2 ! n) = content ?f" "is_live (slots mh2 ! n)" using sk cn(3) by (auto simp: skel_def nth_append)
  moreover from this have "m_name (slots mh2 ! n) = s" using kn(2) by (simp add: content_def)
  ultimately show ?thesis using mh2(1,2) len by (simp add: live_fields_def)
qed

lemma value_changed_ok:
  assumes "tokens_ok T" "hdr_ok T mh" "n < length (slots mh)"
  shows "\<exists>mh'. value_changed T n v mh = Some mh' \<and> hdr_ok T mh' \<and>
    slots mh' = (slots mh)[n := (slots mh ! n)\<lparr>m_value := v, m_raw_printable := False\<rparr>]"
  using value_upd_ok [OF assms, of v] unfolding value_changed_def Let_def .

text \<open>Setting the value of a live field.\<close>

lemma set_value_list:
  assumes T: "tokens_ok T" and ok: "hdr_ok T mh" and n: "n < length (slots mh)" "is_live (slots mh ! n)"
  shows "\<exists>mh'. value_changed T n v mh = Some mh' \<and> hdr_ok T mh' \<and>
    live_fields mh' = live_list (take n (slots mh)) @ [(m_name (slots mh ! n), v)] @ live_list (drop (Suc n) (slots mh))"
proof -
  obtain mh' where mh': "value_changed T n v mh = Some mh'" "hdr_ok T mh'"
    "slots mh' = (slots mh)[n := (slots mh ! n)\<lparr>m_value := v, m_raw_printable := False\<rparr>]"
    using value_changed_ok [OF T ok n(1), of v] by blast
  then show ?thesis using live_list_split(2) [OF n(1)] n(2) by (simp add: live_fields_def name_value_def)
qed

lemma value_set_changed: "mime_field_value_set T n v mh = value_changed T n (Some (clip v)) mh"
  by (simp add: mime_field_value_set_def value_changed_def clip_def)

definition list_set :: "bytes \<Rightarrow> bytes \<Rightarrow> field_list \<Rightarrow> field_list" where
  "list_set s v l =
     (case filter (named s) l of
        [] \<Rightarrow> l @ [(s, Some (clip v))]
      | [_] \<Rightarrow> map (\<lambda>p. if named s p then (fst p, Some (clip v)) else p) l
      | _ \<Rightarrow> filter (\<lambda>p. \<not> named s p) l @ [(s, Some (clip v))])"

lemma fld_live_named:
  assumes "hdr_ok T mh" "head_of (slots mh) (text_key T s) = Some n" "tokens_ok T" "honest T s"
  shows "named s (name_value (slots mh ! n))" "m_wks_idx (fld mh n) = hdrtoken_tokenize T (Text s)"
    "m_next_dup (fld mh n) = next_of (text_key T s) (slots mh) n"
proof -
  have sh: "shape mh" and f: "fields_ok T (slots mh)" using assms(1) by (simp_all add: hdr_ok_def)
  have n: "n < length (slots mh)" "is_live (slots mh ! n)" "key (slots mh ! n) = text_key T s" using head_live [OF assms(2)] by simp_all
  have kn: "known T (slots mh ! n)" by (rule fields_okD(1) [OF f n(1,2)])
  show nm: "named s (name_value (slots mh ! n))" using key_named [OF assms(3) kn assms(4)] n(3) by simp
  have "m_wks_idx (slots mh ! n) = hdrtoken_tokenize T (Text (m_name (slots mh ! n)))" using kn by (simp add: known_def)
  also have "\<dots> = hdrtoken_tokenize T (Text s)" by (rule tokenize_lowb) (use nm in \<open>simp add: named_def name_value_def\<close>)
  finally show "m_wks_idx (fld mh n) = hdrtoken_tokenize T (Text s)" using fld_slots [OF sh n(1)] by simp
  show "m_next_dup (fld mh n) = next_of (text_key T s) (slots mh) n"
    using live_next [OF assms(1) n(1,2)] n(3) by (simp add: next_same_def)
qed

lemma set_ok:
  assumes T: "tokens_ok T" and ok: "hdr_ok T mh" and s: "honest T s" "length s < 2 ^ 16"
  shows "\<exists>mh'. hdr_value_set T (Text s) v mh = Some mh' \<and> hdr_ok T mh' \<and> live_fields mh' = list_set s v (live_fields mh)"
proof -
  have f: "fields_ok T (slots mh)" using ok by (simp add: hdr_ok_def)
  note find = find_text [OF T ok s(1)]
  have add: "\<exists>mh3. Option.bind (let (mh1, n) = mime_field_create m
        in map_option (\<lambda>mh3. (mh3, n)) (mime_hdr_field_attach T n False None (mime_field_name_set T n (hdrtoken_tokenize T (Text s)) s mh1)))
        (\<lambda>(mh1, n). mime_field_value_set T n v mh1) = Some mh3 \<and> hdr_ok T mh3 \<and> live_fields mh3 = live_fields m @ [(s, Some (clip v))]"
    if m: "hdr_ok T m" "head_of (slots m) (text_key T s) = None" for m
  proof -
    obtain mh1 n where c: "mime_field_create m = (mh1, n)" by fastforce
    obtain mh2 where mh2: "mime_hdr_field_attach T n False None (mime_field_name_set T n (hdrtoken_tokenize T (Text s)) s mh1) = Some mh2"
      "hdr_ok T mh2" "n < length (slots mh2)" "is_live (slots mh2 ! n)" "m_name (slots mh2 ! n) = s" "drop (Suc n) (slots mh2) = []"
      "live_list (take n (slots mh2)) = live_fields m"
      using add_ok [OF T m(1) s c refl, of False] m(2) by blast
    obtain mh3 where "value_changed T n (Some (clip v)) mh2 = Some mh3" "hdr_ok T mh3"
      "live_fields mh3 = live_fields m @ [(s, Some (clip v))]"
      using set_value_list [OF T mh2(2-4), of "Some (clip v)"] mh2(5-7) by auto
    then show ?thesis using c mh2(1) by (simp add: value_set_changed)
  qed
  show ?thesis
  proof (cases "head_of (slots mh) (text_key T s)")
    case None
    have "hdr_value_set T (Text s) v mh = Option.bind (let (mh1, n) = mime_field_create mh
        in map_option (\<lambda>mh3. (mh3, n)) (mime_hdr_field_attach T n False None (mime_field_name_set T n (hdrtoken_tokenize T (Text s)) s mh1)))
        (\<lambda>(mh1, n). mime_field_value_set T n v mh1)"
      using None by (simp add: hdr_value_set_def mime_hdr_prepare_for_value_set_def find name_text_def Let_def)
    then show ?thesis using add [OF ok None] none_named(1) [OF T f s(1) None] by (simp add: list_set_def live_fields_def)
  next
    case (Some n)
    have n: "n < length (slots mh)" "is_live (slots mh ! n)" using head_live [OF Some] by simp_all
    note h = fld_live_named [OF ok Some T s(1)]
    note split = live_list_split(1) [OF n(1)]
    note early = earlier_unnamed [OF T f s(1) Some]
    show ?thesis
    proof (cases "next_of (text_key T s) (slots mh) n")
      case None
      note late = later_unnamed [OF T f s(1) None]
      have one: "filter (named s) (live_fields mh) = [name_value (slots mh ! n)]"
        using early late h(1) n(2) by (simp add: live_fields_def split filter_empty_conv)
      have "map (\<lambda>p. if named s p then (fst p, Some (clip v)) else p) (live_fields mh) =
          live_list (take n (slots mh)) @ [(m_name (slots mh ! n), Some (clip v))] @ live_list (drop (Suc n) (slots mh))"
        using early late h(1) n(2) by (simp add: live_fields_def split map_idI name_value_def)
      then show ?thesis using set_value_list [OF T ok n, of "Some (clip v)"] Some None one h(3)
        by (simp add: hdr_value_set_def mime_hdr_prepare_for_value_set_def find value_set_changed list_set_def)
    next
      case d: (Some d)
      obtain m where m: "mime_hdr_field_delete T n True mh = Some m" "hdr_ok T m" "removed DELETED n True (slots mh) (slots m)"
        using field_delete_ok [OF T ok n] by blast
      have lm: "live_fields m = filter (\<lambda>p. \<not> named s p) (live_fields mh)"
        using removed_all_list [OF T f s(1) Some m(3)] by (simp add: live_fields_def)
      have "find (named s) (live_fields m) = None" unfolding lm by (simp add: find_None_iff)
      then have hm: "head_of (slots m) (text_key T s) = None"
        using find_in_list [OF T m(2) s(1)] find_text [OF T m(2) s(1)] by simp
      have "hdr_value_set T (Text s) v mh = Option.bind (let (mh1, n) = mime_field_create m
        in map_option (\<lambda>mh3. (mh3, n)) (mime_hdr_field_attach T n False None (mime_field_name_set T n (hdrtoken_tokenize T (Text s)) s mh1)))
        (\<lambda>(mh1, n). mime_field_value_set T n v mh1)"
        using Some d h(2,3) m(1) 
        by (simp add: hdr_value_set_def mime_hdr_prepare_for_value_set_def find name_text_def Let_def case_prod_beta map_option_case
            split: option.split)
      moreover have "list_set s v (live_fields mh) = live_fields m @ [(s, Some (clip v))]"
      proof -
        have dd: "n < d" "d < length (slots mh)" "same (text_key T s) (slots mh ! d)" using d by (simp_all add: first_from_Some)
        then have "is_live (slots mh ! d)" "named s (name_value (slots mh ! d))" using same_named [OF T f s(1) dd(2)] by simp_all
        moreover have "slots mh ! d \<in> set (drop (Suc n) (slots mh))" using dd unfolding in_set_drop by (intro exI [of _ d]) simp
        ultimately have "filter (named s) (live_list (drop (Suc n) (slots mh))) \<noteq> []" by (auto simp: live_list_def filter_empty_conv)
        moreover have "filter (named s) (live_fields mh) = name_value (slots mh ! n) # filter (named s) (live_list (drop (Suc n) (slots mh)))"
          using early h(1) n(2) by (simp add: live_fields_def split filter_empty_conv)
        ultimately show ?thesis unfolding list_set_def lm by (auto split: list.split)
      qed
      ultimately show ?thesis using add [OF m(2) hm] by simp
    qed
  qed
qed

section \<open>Appending to a value\<close>

fun update_last :: "('a \<Rightarrow> bool) \<Rightarrow> ('a \<Rightarrow> 'a) \<Rightarrow> 'a list \<Rightarrow> 'a list" where
  "update_last P g [] = []"
| "update_last P g (x # xs) = (if P x \<and> (\<forall>y \<in> set xs. \<not> P y) then g x # xs else x # update_last P g xs)"

lemma update_last_split: "P x \<Longrightarrow> \<forall>y \<in> set ys. \<not> P y \<Longrightarrow> update_last P g (xs @ x # ys) = xs @ g x # ys"
  by (induction xs) auto

definition list_append :: "bytes \<Rightarrow> bytes \<Rightarrow> bool \<Rightarrow> u8 \<Rightarrow> field_list \<Rightarrow> field_list" where
  "list_append s v prepend_comma separator l =
     (if \<forall>p \<in> set l. \<not> named s p then l @ [(s, Some (clip v))]
      else update_last (named s)
             (\<lambda>p. let old = (case snd p of None \<Rightarrow> [] | Some w \<Rightarrow> w)
                  in (fst p, Some (clip (old @ (if prepend_comma \<and> old \<noteq> [] then [separator, CHAR_SP] else []) @ v)))) l)"

lemma last_dup_ok:
  "hdr_ok T mh \<Longrightarrow> p < length (slots mh) \<Longrightarrow> is_live (slots mh ! p) \<Longrightarrow>
    \<exists>m. last_dup mh p = Some m \<and> m < length (slots mh) \<and> is_live (slots mh ! m) \<and> key (slots mh ! m) = key (slots mh ! p) \<and>
      next_of (key (slots mh ! p)) (slots mh) m = None"
proof (induction "length (slots mh) - p" arbitrary: p rule: less_induct)
  case less
  note nx = live_next [OF less.prems]
  show ?case
  proof (cases "next_same (slots mh) p")
    case None
    then show ?thesis using nx less.prems by (subst last_dup.simps) (simp add: next_same_def)
  next
    case (Some d)
    have d: "p < d" "d < length (slots mh)" "is_live (slots mh ! d)" "key (slots mh ! d) = key (slots mh ! p)"
      using next_live [OF Some] by simp_all
    then have "length (slots mh) - d < length (slots mh) - p" by simp
    then show ?thesis using less.hyps [of d] less.prems(1) d nx Some by (subst last_dup.simps) simp
  qed
qed

lemma append_ok:
  assumes T: "tokens_ok T" and ok: "hdr_ok T mh" and s: "honest T s" "length s < 2 ^ 16"
  shows "\<exists>mh'. hdr_value_append T (Text s) v comma sep mh = Some mh' \<and> hdr_ok T mh' \<and> live_fields mh' = list_append s v comma sep (live_fields mh)"
proof -
  have sh: "shape mh" and f: "fields_ok T (slots mh)" using ok by (simp_all add: hdr_ok_def)
  note find = find_text [OF T ok s(1)]
  show ?thesis
  proof (cases "head_of (slots mh) (text_key T s)")
    case None
    obtain mh1 n where c: "mime_field_create mh = (mh1, n)" by fastforce
    obtain mh2 where mh2: "mime_hdr_field_attach T n True None (mime_field_name_set T n (hdrtoken_tokenize T (Text s)) s mh1) = Some mh2"
      "hdr_ok T mh2" "n < length (slots mh2)" "is_live (slots mh2 ! n)" "m_name (slots mh2 ! n) = s" "drop (Suc n) (slots mh2) = []"
      "live_list (take n (slots mh2)) = live_fields mh"
      using add_ok [OF T ok s c refl, of True] by blast
    obtain mh3 where "value_changed T n (Some (clip v)) mh2 = Some mh3" "hdr_ok T mh3"
      "live_fields mh3 = live_fields mh @ [(s, Some (clip v))]"
      using set_value_list [OF T mh2(2-4), of "Some (clip v)"] mh2(5-7) by auto
    moreover have "\<forall>p \<in> set (live_fields mh). \<not> named s p"
      using none_named(1) [OF T f s(1) None] by (simp add: live_fields_def filter_empty_conv)
    ultimately show ?thesis using c mh2(1) None
      by (simp add: hdr_value_append_def find hdr_field_create_def hdr_field_attach_def name_text_def value_set_changed list_append_def)
  next
    case (Some n)
    have n: "n < length (slots mh)" "is_live (slots mh ! n)" "key (slots mh ! n) = text_key T s" using head_live [OF Some] by simp_all
    obtain m where m: "last_dup mh n = Some m" "m < length (slots mh)" "is_live (slots mh ! m)" "key (slots mh ! m) = text_key T s"
      "next_of (text_key T s) (slots mh) m = None" using last_dup_ok [OF ok n(1,2)] n(3) by auto
    note split = live_list_split(1) [OF m(2)]
    have nm: "named s (name_value (slots mh ! m))" using key_named [OF T fields_okD(1) [OF f m(2,3)] s(1)] m(4) by simp
    note late = later_unnamed [OF T f s(1) m(5)]
    let ?old = "value_bytes (fld mh m)"
    let ?v = "?old @ (if comma \<and> ?old \<noteq> [] then [sep, CHAR_SP] else []) @ v"
    have old: "(case snd (name_value (slots mh ! m)) of None \<Rightarrow> [] | Some w \<Rightarrow> w) = ?old"
      using fld_slots [OF sh m(2)] by (simp add: name_value_def value_bytes_def)
    have "mime_field_value_append T m v comma sep mh = value_changed T m (Some (clip ?v)) mh"
      by (simp add: mime_field_value_append_def clip_def Let_def)
    moreover obtain mh' where "value_changed T m (Some (clip ?v)) mh = Some mh'" "hdr_ok T mh'"
      "live_fields mh' = live_list (take m (slots mh)) @ [(m_name (slots mh ! m), Some (clip ?v))] @ live_list (drop (Suc m) (slots mh))"
      using set_value_list [OF T ok m(2,3), of "Some (clip ?v)"] by blast
    moreover have "list_append s v comma sep (live_fields mh) =
        live_list (take m (slots mh)) @ [(m_name (slots mh ! m), Some (clip ?v))] @ live_list (drop (Suc m) (slots mh))"
    proof -
      have l: "live_fields mh = live_list (take m (slots mh)) @ name_value (slots mh ! m) # live_list (drop (Suc m) (slots mh))"
        using split m(3) by (simp add: live_fields_def)
      have "\<not> (\<forall>p \<in> set (live_fields mh). \<not> named s p)" using nm unfolding l by simp
      then show ?thesis unfolding list_append_def if_not_P l update_last_split [where P = "named s", OF nm late]
        by (simp add: old Let_def) (simp add: name_value_def)
    qed
    ultimately show ?thesis using Some m(1) by (simp add: hdr_value_append_def find)
  qed
qed

section \<open>Iteration\<close>

lemma search_block_shift: "search_block P (a + k) xs = map_option ((+) a) (search_block P k xs)"
proof (induction xs arbitrary: k)
  case (Cons x xs)
  then show ?case using Cons [of "k + 1"] by simp
qed simp

lemma iter_blocks_first:
  "blocks_ok bs \<Longrightarrow> slot \<le> length (hd bs) \<Longrightarrow>
    iter_blocks b slot bs = map_option (\<lambda>n. (n div 16, n mod 16)) (search_block is_live (b * 16 + slot) (drop slot (concat bs)))"
proof (induction bs arbitrary: b slot)
  case (Cons fs bs)
  have l: "length fs \<le> 16" using Cons.prems(1) by (auto simp: blocks_ok_Cons split: if_splits)
  have d: "drop slot (concat (fs # bs)) = drop slot fs @ concat bs" using Cons.prems(2) by simp
  show ?case
  proof (cases "search_block is_live slot (drop slot fs)")
    case (Some i)
    have "i < slot + length (drop slot fs)" using search_block_Some [OF Some] by blast
    then have "i < 16" using Cons.prems(2) l by simp
    then show ?thesis using Some unfolding d search_block_append search_block_shift by simp
  next
    case None
    show ?thesis
    proof (cases "bs = []")
      case True
      then show ?thesis using None unfolding d search_block_append search_block_shift by simp
    next
      case False
      then have bs: "blocks_ok bs" "length fs = 16" using Cons.prems(1) by (simp_all add: blocks_ok_Cons)
      then have "b * 16 + slot + length (drop slot fs) = (b + 1) * 16 + 0" using Cons.prems(2) by simp
      moreover have "search_block is_live (b * 16 + slot) (drop slot fs) = None" using None by (simp add: search_block_shift)
      ultimately have "search_block is_live (b * 16 + slot) (drop slot (concat (fs # bs))) = search_block is_live ((b + 1) * 16 + 0) (concat bs)"
        unfolding d search_block_append by (simp only: option.case)
      then show ?thesis using Cons.IH [OF bs(1), of 0 "b + 1"] None by simp
    qed
  qed
qed simp

lemma blocks_drop: "blocks_ok bs \<Longrightarrow> b < length bs \<Longrightarrow> blocks_ok (drop b bs) \<and> concat (drop b bs) = drop (16 * b) (concat bs) \<and> hd (drop b bs) = bs ! b"
proof (induction bs arbitrary: b)
  case (Cons fs bs)
  show ?case
  proof (cases b)
    case (Suc k)
    then have "bs \<noteq> []" using Cons.prems(2) by auto
    then have "length fs = 16" "blocks_ok bs" using Cons.prems(1) by (simp_all add: blocks_ok_Cons)
    then show ?thesis using Cons.IH [of k] Cons.prems(2) Suc by simp
  qed (use Cons.prems in simp)
qed simp

lemma iter_next_ok:
  assumes sh: "shape mh" and b: "it_block it = Some b" "b < length (m_blocks mh)" and s: "unat (it_slot it + 1) \<le> length (m_blocks mh ! b)"
  shows "case first_from (16 * b + unat (it_slot it + 1)) is_live (slots mh) of
      None \<Rightarrow> snd (iter_get_next mh it) = None
    | Some n \<Rightarrow> iter_get_next mh it = (\<lparr>it_slot = of_nat (n mod 16), it_block = Some (n div 16)\<rparr>, Some n)"
proof -
  have bo: "blocks_ok (m_blocks mh)" using sh by (simp add: shape_def)
  note d = blocks_drop [OF bo b(2)]
  have e: "drop (unat (it_slot it + 1)) (drop (16 * b) (slots mh)) = drop (16 * b + unat (it_slot it + 1)) (slots mh)" by (simp add: add.commute)
  have "iter_blocks b (unat (it_slot it + 1)) (drop b (m_blocks mh)) =
      map_option (\<lambda>n. (n div 16, n mod 16)) (first_from (16 * b + unat (it_slot it + 1)) is_live (slots mh))"
    using iter_blocks_first [of "drop b (m_blocks mh)" "unat (it_slot it + 1)" b] d s e
    by (simp add: first_from_def slots_def mult.commute)
  then show ?thesis using b(1) by (simp add: iter_get_next_def split: option.split)
qed

definition live_from :: "nat \<Rightarrow> mime_field list \<Rightarrow> nat list" where
  "live_from k xs = filter (\<lambda>j. is_live (xs ! j)) [k..<length xs]"

lemma live_from_first:
  "live_from k xs = (case first_from k is_live xs of None \<Rightarrow> [] | Some n \<Rightarrow> n # live_from (Suc n) xs)"
proof (cases "first_from k is_live xs")
  case None
  then have "\<forall>j. k \<le> j \<and> j < length xs \<longrightarrow> \<not> is_live (xs ! j)" unfolding first_from_None .
  then show ?thesis using None by (simp add: live_from_def filter_empty_conv)
next
  case (Some n)
  then have n: "k \<le> n" "n < length xs" "is_live (xs ! n)" "\<forall>j. k \<le> j \<and> j < n \<longrightarrow> \<not> is_live (xs ! j)" by (simp_all add: first_from_Some)
  have "[k..<n] @ [n..<n + (length xs - n)] = [k..<n + (length xs - n)]" using upt_add_eq_append [OF n(1)] by metis
  then have "[k..<length xs] = [k..<n] @ n # [Suc n..<length xs]" using n(2) by (simp add: upt_conv_Cons)
  then show ?thesis using Some n by (simp add: live_from_def filter_empty_conv)
qed

lemma iter_rest_ok:
  assumes sh: "shape mh"
  shows "it_block it = Some b \<Longrightarrow> b < length (m_blocks mh) \<Longrightarrow> unat (it_slot it + 1) \<le> length (m_blocks mh ! b) \<Longrightarrow>
    iter_rest mh (iter_get_next mh it) = Some (live_from (16 * b + unat (it_slot it + 1)) (slots mh))"
proof (induction "length (slots mh) - (16 * b + unat (it_slot it + 1))" arbitrary: it b rule: less_induct)
  case less
  let ?k = "16 * b + unat (it_slot it + 1)"
  note nx = iter_next_ok [OF sh less.prems]
  show ?case
  proof (cases "first_from ?k is_live (slots mh)")
    case None
    then show ?thesis using nx by (subst live_from_first) (subst iter_rest.simps, simp)
  next
    case (Some n)
    have n: "?k \<le> n" "n < length (slots mh)" using Some by (simp_all add: first_from_Some)
    have bl: "n div 16 < length (m_blocks mh)" "n mod 16 < length (m_blocks mh ! (n div 16))"
      using blocks_nth [of "m_blocks mh" n] sh n(2) by (simp_all add: shape_def slots_def)
    let ?it = "\<lparr>it_slot = of_nat (n mod 16), it_block = Some (n div 16)\<rparr>"
    have u: "unat (it_slot ?it + 1) = n mod 16 + 1"
    proof -
      have "n mod 16 + 1 < 2 ^ 32" by (rule less_trans [of _ 17]) simp_all
      moreover have "it_slot ?it + 1 = of_nat (n mod 16 + 1)" by simp
      ultimately show ?thesis by (simp only: unsigned_of_nat) (simp add: take_bit_nat_eq_self)
    qed
    have p: "16 * (n div 16) + unat (it_slot ?it + 1) = Suc n" unfolding u by simp
    have "iter_rest mh (iter_get_next mh ?it) = Some (live_from (Suc n) (slots mh))"
      using less.hyps [of "n div 16" ?it] n bl unfolding p u by simp
    then show ?thesis using nx Some by (subst live_from_first) (subst iter_rest.simps, simp)
  qed
qed

lemma iter_all:
  assumes "shape mh"
  shows "iter_rest mh (iter_get_first mh) = Some (live_from 0 (slots mh))"
    "map (\<lambda>n. name_value (fld mh n)) (live_from 0 (slots mh)) = live_fields mh"
proof -
  have "m_blocks mh \<noteq> []" using assms by (simp add: shape_def blocks_ok_def)
  then show "iter_rest mh (iter_get_first mh) = Some (live_from 0 (slots mh))"
    using iter_rest_ok [OF assms, of "\<lparr>it_slot = - 1, it_block = Some 0\<rparr>" 0] by (simp add: iter_get_first_def)
  have "map (\<lambda>n. name_value (fld mh n)) (live_from 0 (slots mh)) = map (\<lambda>n. name_value (slots mh ! n)) (live_from 0 (slots mh))"
    by (rule map_cong) (simp_all add: live_from_def fld_slots [OF assms])
  also have "\<dots> = map name_value (filter is_live (map ((!) (slots mh)) [0..<length (slots mh)]))"
    by (simp add: live_from_def filter_map comp_def)
  finally show "map (\<lambda>n. name_value (fld mh n)) (live_from 0 (slots mh)) = live_fields mh"
    by (simp only: map_nth live_fields_def live_list_def)
qed

lemma count_live_list: "count_live fs = length (live_list fs)"
  by (induction fs) simp_all

lemma count_fields: "mime_hdr_fields_count mh = length (live_fields mh)"
proof -
  have "sum_list (map count_live bs) = length (live_list (concat bs))" for bs
    by (induction bs) (simp_all add: count_live_list)
  then show ?thesis by (simp add: mime_hdr_fields_count_def live_fields_def slots_def)
qed

section \<open>Comma separated pieces\<close>

text \<open>A piece that is read back: no comma, no quote, no white space at its ends.\<close>

definition clean :: "bytes \<Rightarrow> bool" where
  "clean p \<longleftrightarrow> COMMA \<notin> set p \<and> QUOT \<notin> set p \<and> (p \<noteq> [] \<longrightarrow> \<not> is_ws (hd p) \<and> \<not> is_ws (last p))"

lemma ws_bytes: "is_ws CHAR_SP" "\<not> is_ws COMMA"
  by (simp_all add: is_cls_iff is_ws0_def CHAR_SP_def CHAR_HT_def)

lemma token_len_clean: "COMMA \<notin> set p \<Longrightarrow> QUOT \<notin> set p \<Longrightarrow> token_len COMMA False (p @ s) = length p + token_len COMMA False s"
  by (induction p) auto

lemma trim_end_clean: "clean p \<Longrightarrow> trim_end p = p"
proof (cases "p = []")
  case False
  assume "clean p"
  then have "\<not> is_ws (hd (rev p))" using False by (simp add: clean_def hd_rev)
  then have "dropWhile is_ws (rev p) = rev p" using False by (cases "rev p") simp_all
  then show ?thesis by (simp add: trim_end_def)
qed (simp add: trim_end_def)

lemma skip_ws: "\<forall>c \<in> set ws. is_ws c \<Longrightarrow> s = [] \<or> \<not> is_ws (hd s) \<Longrightarrow> dropWhile is_ws (ws @ s) = s"
  by (induction ws) (auto simp: dropWhile_eq_self_iff)

lemma tok_loop_piece:
  assumes ws: "\<forall>c \<in> set ws. is_ws c" and p: "clean p"
  shows "tok_loop tq COMMA (ws @ p @ COMMA # s) h acc = tok_loop tq COMMA s True (acc @ [p])"
proof (cases "p = []")
  case True
  have "dropWhile is_ws (ws @ COMMA # s) = COMMA # s" by (rule skip_ws [OF ws]) (simp add: ws_bytes)
  then show ?thesis using True by (subst tok_loop.simps) simp
next
  case False
  have hd: "hd (p @ COMMA # s) = hd p" "hd p \<in> set p" using False by simp_all
  have d: "dropWhile is_ws (ws @ p @ COMMA # s) = p @ COMMA # s"
    by (rule skip_ws [OF ws]) (use p False in \<open>simp add: clean_def\<close>)
  have ne: "ws @ p @ COMMA # s \<noteq> []" "hd p \<noteq> COMMA" "hd p \<noteq> QUOT" "last p \<noteq> QUOT"
    using p hd(2) last_in_set [OF False] by (auto simp: clean_def)
  have len: "token_len COMMA False (p @ COMMA # s) = length p" using token_len_clean [of p "COMMA # s"] p by (simp add: clean_def)
  show ?thesis unfolding tok_loop.simps [of tq COMMA "ws @ p @ COMMA # s"] d Let_def
    using ne False trim_end_clean [OF p] by (simp add: len)
qed

lemma tok_loop_last:
  assumes ws: "\<forall>c \<in> set ws. is_ws c" and p: "clean p"
  shows "tok_loop tq COMMA (ws @ p) h acc = (if p = [] then (acc, h) else (acc @ [p], False))"
proof (cases "p = []")
  case True
  have "dropWhile is_ws ws = []" using ws by simp
  then show ?thesis using True by (subst tok_loop.simps) simp
next
  case False
  have d: "dropWhile is_ws (ws @ p) = p" by (rule skip_ws [OF ws]) (use p False in \<open>simp add: clean_def\<close>)
  have ne: "ws @ p \<noteq> []" "hd p \<noteq> COMMA" "hd p \<noteq> QUOT" "last p \<noteq> QUOT"
    using p hd_in_set [OF False] last_in_set [OF False] by (auto simp: clean_def)
  have len: "token_len COMMA False p = length p" using token_len_clean [of p "[]"] p by (simp add: clean_def)
  have "tok_loop tq COMMA (ws @ p) h acc = tok_loop tq COMMA (drop (length p + 1) p) (length p < length p) (acc @ [p])"
    unfolding tok_loop.simps [of tq COMMA "ws @ p"] d Let_def using ne False trim_end_clean [OF p] by (simp add: len)
  also have "\<dots> = (acc @ [p], False)" by (subst tok_loop.simps) simp
  finally show ?thesis using False by simp
qed

lemma tok_loop_pieces:
  "l \<noteq> [] \<Longrightarrow> \<forall>p \<in> set l. clean p \<Longrightarrow> \<forall>c \<in> set ws. is_ws c \<Longrightarrow>
    tok_loop tq COMMA (ws @ value_str_from_strlist l) h acc =
      (if last l = [] then (acc @ butlast l, h \<or> butlast l \<noteq> []) else (acc @ l, False))"
proof (induction l arbitrary: ws h acc rule: value_str_from_strlist.induct)
  case (2 p)
  then show ?case using tok_loop_last [of ws p tq h acc] by simp
next
  case (3 p q l)
  have "tok_loop tq COMMA (ws @ value_str_from_strlist (p # q # l)) h acc =
      tok_loop tq COMMA ([CHAR_SP] @ value_str_from_strlist (q # l)) True (acc @ [p])"
    using tok_loop_piece [of ws p tq "CHAR_SP # value_str_from_strlist (q # l)" h acc] "3.prems" by simp
  also have "\<dots> = (if last (q # l) = [] then ((acc @ [p]) @ butlast (q # l), True) else ((acc @ [p]) @ q # l, False))"
    using "3.IH" [of "[CHAR_SP]" True "acc @ [p]"] "3.prems" ws_bytes(1) by simp
  finally show ?case by simp
qed simp

lemma parse_pieces:
  assumes "l \<noteq> []" "\<forall>p \<in> set l. clean p"
  shows "parse_tok_list tq (Some (value_str_from_strlist l)) COMMA = l"
proof -
  have "tok_loop tq COMMA (value_str_from_strlist l) False [] = (if last l = [] then (butlast l, butlast l \<noteq> []) else (l, False))"
    using tok_loop_pieces [OF assms, of "[]" tq False "[]"] by simp
  moreover have "butlast l @ [[]] = l" if "last l = []" using assms(1) that by (metis append_butlast_last_id)
  ultimately show ?thesis using assms(1) by (auto simp: parse_tok_list_def)
qed

lemma str_length: "l \<noteq> [] \<Longrightarrow> length (value_str_from_strlist l) + 2 = sum_list (map (\<lambda>p. length p + 2) l)"
  by (induction l rule: value_str_from_strlist.induct) auto

lemma strs_chars: "list_all (\<lambda>s. 0 \<notin> set (chars s)) hdrtoken_strs"
  by code_simp

lemma strs_no_nul: "k < 128 \<Longrightarrow> 0 \<notin> set (chars (hdrtoken_strs ! k))"
  using strs_chars by (simp add: list_all_length)

section \<open>Properties\<close>

datatype hdr_op = Op_set bytes bytes | Op_append bytes bytes bool u8 | Op_delete bytes

fun op_name :: "hdr_op \<Rightarrow> bytes" where
  "op_name (Op_set s v) = s"
| "op_name (Op_append s v c p) = s"
| "op_name (Op_delete s) = s"

fun hdr_step :: "hdr_tokens \<Rightarrow> hdr_op \<Rightarrow> mime_hdr \<Rightarrow> mime_hdr option" where
  "hdr_step T (Op_set s v) mh = hdr_value_set T (Text s) v mh"
| "hdr_step T (Op_append s v c p) mh = hdr_value_append T (Text s) v c p mh"
| "hdr_step T (Op_delete s) mh = hdr_field_delete_name T (Text s) mh"

fun hdr_run :: "hdr_tokens \<Rightarrow> hdr_op list \<Rightarrow> mime_hdr \<Rightarrow> mime_hdr option" where
  "hdr_run T [] mh = Some mh"
| "hdr_run T (op # ops) mh = Option.bind (hdr_step T op mh) (hdr_run T ops)"

fun list_step :: "hdr_op \<Rightarrow> field_list \<Rightarrow> field_list" where
  "list_step (Op_set s v) l = list_set s v l"
| "list_step (Op_append s v c p) l = list_append s v c p l"
| "list_step (Op_delete s) l = filter (\<lambda>p. \<not> named s p) l"

lemma hdr_step_ok:
  assumes "tokens_ok T" "hdr_ok T mh" "honest T (op_name op)" "length (op_name op) < 2 ^ 16"
  shows "\<exists>mh'. hdr_step T op mh = Some mh' \<and> hdr_ok T mh' \<and> live_fields mh' = list_step op (live_fields mh)"
  using assms(3,4) set_ok [OF assms(1,2)] append_ok [OF assms(1,2)] delete_name_ok [OF assms(1,2)] by (cases op) simp_all

lemma hdr_run_ok:
  assumes "tokens_ok T"
  shows "hdr_ok T mh \<Longrightarrow> \<forall>op \<in> set ops. honest T (op_name op) \<and> length (op_name op) < 2 ^ 16 \<Longrightarrow>
    \<exists>mh'. hdr_run T ops mh = Some mh' \<and> hdr_ok T mh' \<and> live_fields mh' = fold list_step ops (live_fields mh)"
proof (induction ops arbitrary: mh)
  case (Cons op ops)
  obtain mh1 where "hdr_step T op mh = Some mh1" "hdr_ok T mh1" "live_fields mh1 = list_step op (live_fields mh)"
    using hdr_step_ok [OF assms Cons.prems(1)] Cons.prems(2) by auto
  then show ?case using Cons.IH [of mh1] Cons.prems(2) by simp
qed simp

text \<open>
  C30. A header is the list of its names and values. Setting a value by name (one field is kept and changed,
  several are replaced by one, none is added), appending to the last field of a name and deleting a name return
  and are these operations on the list, in every sequence and regardless of the blocks, slots, links, presence bits
  and accelerators; looking a name up, well-known or not, is the search of the list regardless of case, and the
  iterator and the count give the whole list.
\<close>

theorem mime_hdr_is_list:
  assumes "tokens_ok T" "hdr_ok T mh" "\<forall>op \<in> set ops. honest T (op_name op) \<and> length (op_name op) < 2 ^ 16"
  shows "\<exists>mh'. hdr_run T ops mh = Some mh' \<and> hdr_ok T mh' \<and> live_fields mh' = fold list_step ops (live_fields mh) \<and>
    (\<forall>s. honest T s \<longrightarrow> hdr_value_get T (Text s) mh' = list_get s (live_fields mh')) \<and>
    (\<forall>k < 128. mime_hdr_field_find T mh' (Wks k) = mime_hdr_field_find T mh' (Text (chars (hdrtoken_strs ! k)))) \<and>
    (\<exists>ns. iter_rest mh' (iter_get_first mh') = Some ns \<and> map (\<lambda>n. name_value (fld mh' n)) ns = live_fields mh') \<and>
    mime_hdr_fields_count mh' = length (live_fields mh')"
proof -
  obtain mh' where mh': "hdr_run T ops mh = Some mh'" "hdr_ok T mh'" "live_fields mh' = fold list_step ops (live_fields mh)"
    using hdr_run_ok [OF assms] by blast
  have sh: "shape mh'" using mh'(2) by (simp add: hdr_ok_def)
  have wks: "mime_hdr_field_find T mh' (Wks k) = mime_hdr_field_find T mh' (Text (chars (hdrtoken_strs ! k)))" if k: "k < 128" for k
  proof -
    have t: "hdrtoken_tokenize T (Text (chars (hdrtoken_strs ! k))) = int k" by (rule tokenize_wks [OF assms(1) k]) (simp add: lowb_chars)
    have "honest T (chars (hdrtoken_strs ! k))" by (rule honest_wks [OF assms(1) k]) (simp_all add: lowb_chars strs_no_nul [OF k])
    then have "honest_name T (Text (chars (hdrtoken_strs ! k)))" "honest_name T (Wks k)" using k by (simp_all add: honest_name_def)
    from find_head [OF assms(1) mh'(2) this(1)] find_head [OF assms(1) mh'(2) this(2)] show ?thesis
      by (simp add: name_key_def text_key_def t)
  qed
  show ?thesis using mh' value_get_list [OF assms(1) mh'(2)] wks iter_all [OF sh] count_fields [of mh'] by blast
qed

lemma mime_hdr_is_list_witness:
  "\<exists>mh. hdr_run example_tokens [Op_append (chars ''X'') [97] True COMMA, Op_append (chars ''X'') [98] True COMMA] mime_hdr_init = Some mh \<and>
    live_fields mh = [(chars ''X'', Some [97, COMMA, CHAR_SP, 98])] \<and> hdr_value_get example_tokens (Text (chars ''X'')) mh = Some [97, COMMA, CHAR_SP, 98]"
proof -
  have l: "live_fields mime_hdr_init = []" by (simp add: live_fields_def init_ok(2))
  have c: "clip [97] = [97]" "clip [97, COMMA, CHAR_SP, 98] = [97, COMMA, CHAR_SP, 98]" by (simp_all add: clip_def)
  show ?thesis
    using mime_hdr_is_list [OF example_tokens_ok init_ok(1), of "[Op_append (chars ''X'') [97] True COMMA, Op_append (chars ''X'') [98] True COMMA]"] honest_X
    by (auto simp: l list_append_def named_def list_get_def c Let_def)
qed

text \<open>
  C31. Replacing, inserting and deleting a piece of a comma separated value: reading the pieces of the new value
  gives the updated list of pieces (pieces without commas, quotes and white space at their ends; empty pieces
  are kept).
\<close>

theorem comma_pieces_updated:
  assumes "tokens_ok T" "hdr_ok T mh" "n < length (slots mh)" "m_value (slots mh ! n) = Some (value_str_from_strlist l)" "l \<noteq> []"
    "\<forall>q \<in> set (p # l). clean q" "length (value_str_from_strlist l) + length p + 2 < 2 ^ 24"
  shows "(\<forall>i < length l. \<exists>mh'. mime_field_value_set_comma_val T n (int i) p mh = Some mh' \<and> hdr_ok T mh' \<and>
      parse_tok_list True (m_value (slots mh' ! n)) COMMA = l[i := p]) \<and>
    (\<forall>i \<le> length l. \<exists>mh'. mime_field_value_insert_comma_val T n (int i) p mh = Some mh' \<and> hdr_ok T mh' \<and>
      parse_tok_list True (m_value (slots mh' ! n)) COMMA = take i l @ p # drop i l) \<and>
    (\<forall>i < length l. \<exists>mh'. mime_field_value_delete_comma_val T n (int i) mh = Some mh' \<and> hdr_ok T mh' \<and>
      parse_tok_list True (m_value (slots mh' ! n)) COMMA = take i l @ drop (Suc i) l)"
proof -
  have sh: "shape mh" using assms(2) by (simp add: hdr_ok_def)
  have old: "parse_tok_list False (m_value (fld mh n)) COMMA = l"
    using parse_pieces [OF assms(5)] assms(4,6) fld_slots [OF sh assms(3)] by simp
  have sum: "sum_list (map (\<lambda>p. length p + 2) l) + length p < 2 ^ 24" using assms(5,7) str_length [of l] by simp
  have pieces: "\<exists>mh'. set_pieces T n ps mh = Some mh' \<and> hdr_ok T mh' \<and> parse_tok_list True (m_value (slots mh' ! n)) COMMA = ps"
    if ps: "ps \<noteq> []" "\<forall>q \<in> set ps. clean q" "sum_list (map (\<lambda>p. length p + 2) ps) \<le> sum_list (map (\<lambda>p. length p + 2) l) + length p + 2" for ps
  proof -
    have "length (value_str_from_strlist ps) < 2 ^ 24" using str_length [OF ps(1)] ps(3) sum by linarith
    then have "take (length (value_str_from_strlist ps) mod 2 ^ 24) (value_str_from_strlist ps) = value_str_from_strlist ps" by simp
    then have "set_pieces T n ps mh = value_changed T n (Some (value_str_from_strlist ps)) mh" by (simp only: set_pieces_def Let_def)
    then show ?thesis using value_changed_ok [OF assms(1-3), of "Some (value_str_from_strlist ps)"] parse_pieces [OF ps(1,2)] assms(3) by auto
  qed
  have parts: "sum_list (map (\<lambda>p. length p + 2) l) = sum_list (map (\<lambda>p. length p + 2) (take i l)) + sum_list (map (\<lambda>p. length p + 2) (drop i l))" for i
    by (metis append_take_drop_id map_append sum_list_append)
  show ?thesis
  proof (intro conjI allI impI)
    fix i assume i: "i < length l"
    have d: "drop i l = l ! i # drop (Suc i) l" using i by (simp add: Cons_nth_drop_Suc)
    have "\<exists>mh'. set_pieces T n (l[i := p]) mh = Some mh' \<and> hdr_ok T mh' \<and> parse_tok_list True (m_value (slots mh' ! n)) COMMA = l[i := p]"
    proof (rule pieces)
      show "\<forall>q \<in> set (l[i := p]). clean q" using assms(6) set_update_subset_insert [of l i p] by auto
      show "sum_list (map (\<lambda>p. length p + 2) (l[i := p])) \<le> sum_list (map (\<lambda>p. length p + 2) l) + length p + 2"
        using parts [of i] d by (simp add: upd_conv_take_nth_drop [OF i])
    qed (use assms(5) in simp)
    then show "\<exists>mh'. mime_field_value_set_comma_val T n (int i) p mh = Some mh' \<and> hdr_ok T mh' \<and>
        parse_tok_list True (m_value (slots mh' ! n)) COMMA = l[i := p]"
      using i by (simp add: mime_field_value_set_comma_val_def old Let_def)
    show "\<exists>mh'. mime_field_value_delete_comma_val T n (int i) mh = Some mh' \<and> hdr_ok T mh' \<and>
        parse_tok_list True (m_value (slots mh' ! n)) COMMA = take i l @ drop (Suc i) l"
    proof (cases "take i l @ drop (Suc i) l = []")
      case True
      obtain mh' where "value_changed T n None mh = Some mh'" "hdr_ok T mh'"
        "slots mh' = (slots mh)[n := (slots mh ! n)\<lparr>m_value := None, m_raw_printable := False\<rparr>]"
        using value_changed_ok [OF assms(1-3), of None] by blast
      moreover have "parse_tok_list True None COMMA = []" by (simp add: parse_tok_list_def)
      ultimately show ?thesis using i True assms(3) by (simp add: mime_field_value_delete_comma_val_def old Let_def)
    next
      case False
      have "\<exists>mh'. set_pieces T n (take i l @ drop (Suc i) l) mh = Some mh' \<and> hdr_ok T mh' \<and>
          parse_tok_list True (m_value (slots mh' ! n)) COMMA = take i l @ drop (Suc i) l"
      proof (rule pieces [OF False])
        show "\<forall>q \<in> set (take i l @ drop (Suc i) l). clean q" using assms(6) by (auto dest: in_set_takeD in_set_dropD)
        show "sum_list (map (\<lambda>p. length p + 2) (take i l @ drop (Suc i) l)) \<le> sum_list (map (\<lambda>p. length p + 2) l) + length p + 2"
          using parts [of i] d by simp
      qed
      moreover have "mime_field_value_delete_comma_val T n (int i) mh = set_pieces T n (take i l @ drop (Suc i) l) mh"
        unfolding mime_field_value_delete_comma_val_def old Let_def nat_int if_not_P [OF False] using i by simp
      ultimately show ?thesis by simp
    qed
  next
    fix i assume i: "i \<le> length l"
    have "\<exists>mh'. set_pieces T n (take i l @ p # drop i l) mh = Some mh' \<and> hdr_ok T mh' \<and>
        parse_tok_list True (m_value (slots mh' ! n)) COMMA = take i l @ p # drop i l"
    proof (rule pieces)
      show "\<forall>q \<in> set (take i l @ p # drop i l). clean q" using assms(6) by (auto dest: in_set_takeD in_set_dropD)
      show "sum_list (map (\<lambda>p. length p + 2) (take i l @ p # drop i l)) \<le> sum_list (map (\<lambda>p. length p + 2) l) + length p + 2"
        using parts [of i] by simp
    qed simp
    then show "\<exists>mh'. mime_field_value_insert_comma_val T n (int i) p mh = Some mh' \<and> hdr_ok T mh' \<and>
        parse_tok_list True (m_value (slots mh' ! n)) COMMA = take i l @ p # drop i l"
      using i by (simp add: mime_field_value_insert_comma_val_def old Let_def)
  qed
qed

lemma comma_pieces_updated_witness:
  "\<exists>mh mh'. mime_field_value_set_comma_val example_tokens 0 1 [99] mh = Some mh' \<and>
    parse_tok_list True (m_value (slots mh' ! 0)) COMMA = [[97], [99]]"
proof -
  let ?f = "mime_field_init\<lparr>m_value := Some [97, COMMA, CHAR_SP, 98]\<rparr>" and ?m = "fst (mime_field_create mime_hdr_init)"
  obtain m n where c: "mime_field_create mime_hdr_init = (m, n)" by fastforce
  note cr = create_ok(1) [OF init_ok(1) c, of example_tokens] create_ok(2,3) [OF init_ok(1) c]
  obtain mh where mh: "hdr_ok example_tokens mh" "slots mh = [mime_field_init\<lparr>m_value := Some [97, COMMA, CHAR_SP, 98], m_raw_printable := False\<rparr>]"
    using value_changed_ok [OF example_tokens_ok cr(1), of 0 "Some [97, COMMA, CHAR_SP, 98]"] cr(3) by (auto simp: init_ok(2))
  have prems: "0 < length (slots mh)" "m_value (slots mh ! 0) = Some (value_str_from_strlist [[97], [98]])" "[[97], [98 :: u8]] \<noteq> []"
    "\<forall>q \<in> set ([99] # [[97], [98]]). clean q" "length (value_str_from_strlist [[97], [98]]) + length [99 :: u8] + 2 < 2 ^ 24"
    by (simp_all add: mh(2) clean_def is_cls_iff is_ws0_def CHAR_SP_def CHAR_HT_def)
  from conjunct1 [OF comma_pieces_updated [OF example_tokens_ok mh(1) prems], rule_format, of 1]
  show ?thesis by auto
qed

end
