(* ===== verification/MimeParse.thy ===== *)
theory MimeParse
  imports MimeApi
begin

text \<open>
  Reading and printing MIME headers (proxy/hdrs/MIME.cc): the scanner that cuts the input into fields with
  their continuation lines, over any number of calls, the parser that splits a field into its name and value and
  attaches it to the header, and the printing of a header into a window of a buffer. The line that the
  scanner is collecting is \<open>m_line\<close>; the capacity of its buffer is only kept by \<open>grow_line\<close>. Input is the list of
  the bytes that are left, and what an operation consumes is missing from the rest it returns.
\<close>

section \<open>The scanner\<close>

datatype mime_parse_result = PARSE_ERROR | PARSE_DONE | PARSE_OK | PARSE_CONT

datatype mime_parse_state = MIME_PARSE_BEFORE | MIME_PARSE_FOUND_CR | MIME_PARSE_INSIDE | MIME_PARSE_AFTER

datatype scan_type = MIME_SCANNER_TYPE_LINE | MIME_SCANNER_TYPE_FIELD

record mime_scanner =
  m_line :: bytes
  m_state :: mime_parse_state

definition mime_scanner_init :: mime_scanner where
  "mime_scanner_init = \<lparr>m_line = [], m_state = MIME_PARSE_BEFORE\<rparr>"

definition mime_scanner_clear :: "mime_scanner \<Rightarrow> mime_scanner" where
  "mime_scanner_clear S = mime_scanner_init"

text \<open>
  The size of the line buffer once \<open>n\<close> more bytes have to fit behind the \<open>len\<close> it holds; it is doubled until they do.
  The guard \<open>0 < size\<close> always holds: an empty buffer is given 128 bytes first.
\<close>

function double_line :: "nat \<Rightarrow> nat \<Rightarrow> nat \<Rightarrow> nat" where
  "double_line cap len n = (if cap < len + n \<and> 0 < cap then double_line (cap * 2) len n else cap)"
  by pat_completeness auto
termination
  by (relation "measure (\<lambda>(cap, len, n). len + n - cap)") auto

declare double_line.simps [simp del]

definition grow_line :: "nat \<Rightarrow> nat \<Rightarrow> nat \<Rightarrow> nat" where
  "grow_line cap len n =
     (let free = cap - len
      in if n > free
         then (let cap1 = (if cap = 0 then 128 else cap) in double_line (cap1 * 2) len n)
         else cap)"

definition mime_scanner_append :: "bytes \<Rightarrow> mime_scanner \<Rightarrow> mime_scanner" where
  "mime_scanner_append data S = S\<lparr>m_line := m_line S @ data\<rparr>"

lemma line_rest_shorter: "x \<in> set xs \<Longrightarrow> length (tl (dropWhile (\<lambda>d. d \<noteq> x) xs)) < length xs"
  by (induction xs) auto

text \<open>The loop over the input; it returns what is left.\<close>

function scan_loop ::
  "scan_type \<Rightarrow> mime_scanner \<Rightarrow> bytes \<Rightarrow> mime_parse_result \<times> mime_scanner \<times> bytes" where
  "scan_loop k S [] = (PARSE_CONT, S, [])"
| "scan_loop k S (c # r) =
     (case m_state S of
        MIME_PARSE_BEFORE \<Rightarrow>
          if is_cr c
          then (if r \<noteq> [] \<and> is_lf (hd r) then (PARSE_DONE, S, tl r)
                else scan_loop k (S\<lparr>m_state := MIME_PARSE_FOUND_CR\<rparr>) r)
          else if is_lf c then (PARSE_DONE, S, r)
          else scan_loop k (S\<lparr>m_state := MIME_PARSE_INSIDE\<rparr>) (c # r)
      | MIME_PARSE_FOUND_CR \<Rightarrow>
          if is_lf c then (PARSE_DONE, S, r)
          else scan_loop k ((mime_scanner_append [CHAR_CR] S)\<lparr>m_state := MIME_PARSE_INSIDE\<rparr>) (c # r)
      | MIME_PARSE_INSIDE \<Rightarrow>
          if CHAR_LF \<in> set (c # r)
          then (let rest = tl (dropWhile (\<lambda>d. d \<noteq> CHAR_LF) (c # r))
                in case k of
                     MIME_SCANNER_TYPE_LINE \<Rightarrow> (PARSE_OK, S\<lparr>m_state := MIME_PARSE_BEFORE\<rparr>, rest)
                   | MIME_SCANNER_TYPE_FIELD \<Rightarrow> scan_loop k (S\<lparr>m_state := MIME_PARSE_AFTER\<rparr>) rest)
          else (PARSE_CONT, S, [])
      | MIME_PARSE_AFTER \<Rightarrow>
          if is_ws c then scan_loop k (S\<lparr>m_state := MIME_PARSE_INSIDE\<rparr>) (c # r)
          else (PARSE_OK, S\<lparr>m_state := MIME_PARSE_BEFORE\<rparr>, c # r))"
  by pat_completeness auto
termination
proof (relation "measure (\<lambda>(k, S, inp). 2 * length inp + (if m_state S = MIME_PARSE_INSIDE then 0 else 1))", goal_cases)
  case (5 k S c r rest)
  then show ?case using line_rest_shorter [of CHAR_LF "c # r"] by simp
qed simp_all

declare scan_loop.simps(2) [simp del]

text \<open>The outcome of a call: the result, the scanner, the line with a flag whether it is part of the input, and the rest.\<close>

record scan_out =
  s_result :: mime_parse_result
  s_scanner :: mime_scanner
  s_line :: bytes
  s_shares :: bool
  s_rest :: bytes

text \<open>A final result returns the collected line; with nothing collected the line is the consumed input itself.\<close>

definition scan_final :: "mime_parse_result \<Rightarrow> mime_scanner \<Rightarrow> bytes \<Rightarrow> bytes \<Rightarrow> scan_out" where
  "scan_final z S data rest =
     (let S1 = (if data \<noteq> [] \<and> m_line S \<noteq> [] then mime_scanner_append data S else S)
      in if m_line S1 \<noteq> []
         then \<lparr>s_result = z, s_scanner = S1\<lparr>m_line := []\<rparr>, s_line = m_line S1, s_shares = False, s_rest = rest\<rparr>
         else \<lparr>s_result = z, s_scanner = S1, s_line = data, s_shares = True, s_rest = rest\<rparr>)"

definition mime_scanner_get :: "scan_type \<Rightarrow> bool \<Rightarrow> mime_scanner \<Rightarrow> bytes \<Rightarrow> scan_out" where
  "mime_scanner_get k eof S inp =
     (let (z, S1, rest) = scan_loop k S inp; data = take (length inp - length rest) inp
      in if z = PARSE_CONT
         then (if eof
               then (if data = []
                     then (if m_state S1 \<noteq> MIME_PARSE_INSIDE
                           then scan_final PARSE_DONE (S1\<lparr>m_state := MIME_PARSE_BEFORE\<rparr>) data rest
                           else scan_final PARSE_ERROR S1 data rest)
                     else if m_state S1 = MIME_PARSE_AFTER
                     then scan_final PARSE_OK (S1\<lparr>m_state := MIME_PARSE_BEFORE\<rparr>) data rest
                     else scan_final PARSE_ERROR S1 data rest)
               else \<lparr>s_result = PARSE_CONT, s_scanner = (if data \<noteq> [] then mime_scanner_append data S1 else S1),
                      s_line = [], s_shares = False, s_rest = rest\<rparr>)
         else scan_final z S1 data rest)"

section \<open>The parser\<close>

text \<open>What a line is: the end of the header, nothing of use, a name or a value of 64K, or a name and a value.\<close>

datatype line_kind = Header_end | Garbage | Too_long | Name_value bytes bytes

definition trim_right :: "(u8 \<Rightarrow> bool) \<Rightarrow> bytes \<Rightarrow> bytes" where
  "trim_right P s = rev (dropWhile P (rev s))"

definition COLON :: u8 where
  "COLON = of_char (CHR '':'')"

definition AT_SIGN :: u8 where
  "AT_SIGN = of_char (CHR ''@'')"

definition parse_line :: "bytes \<Rightarrow> line_kind" where
  "parse_line line =
     (if length line \<ge> 2 \<and> line ! 0 = CHAR_CR \<and> line ! 1 = CHAR_LF then Header_end
      else if length line \<ge> 1 \<and> line ! 0 = CHAR_LF then Header_end
      else if \<not> is_cls C_token (line ! 0) \<and> line ! 0 \<noteq> AT_SIGN then Garbage
      else if COLON \<notin> set line then Garbage
      else (let name = trim_right mime_is_ws (takeWhile (\<lambda>c. c \<noteq> COLON) line);
                v = trim_right is_wslfcr (dropWhile mime_is_ws (tl (dropWhile (\<lambda>c. c \<noteq> COLON) line)))
            in if length name \<ge> 65535 \<or> length v \<ge> 65535 then Too_long else Name_value name v))"

definition parse_field :: "hdr_tokens \<Rightarrow> bytes \<Rightarrow> bytes \<Rightarrow> bytes \<Rightarrow> mime_hdr \<Rightarrow> mime_hdr option" where
  "parse_field T line name v mh =
     (let (mh1, n) = mime_field_create mh
      in do { mh2 \<leftarrow> mime_field_name_value_set T n (hdrtoken_tokenize T (Text name)) name v True line mh1;
              mime_hdr_field_attach T n True None mh2 })"

lemma scan_loop_consumes:
  "scan_loop k S inp = (z, S', rest) \<Longrightarrow> length rest \<le> length inp \<and>
     (z = PARSE_OK \<longrightarrow> length rest < length inp \<or> m_state S = MIME_PARSE_AFTER) \<and> (z = PARSE_OK \<longrightarrow> m_state S' = MIME_PARSE_BEFORE)"
proof (induction k S inp arbitrary: z S' rest rule: scan_loop.induct)
  case (2 k S c r)
  note [simp] = scan_loop.simps(2)
  show ?case
  proof (cases "m_state S")
    case MIME_PARSE_BEFORE
    show ?thesis
    proof (cases "is_cr c")
      case True
      then show ?thesis using 2(1) 2(6) MIME_PARSE_BEFORE by (auto split: if_splits)
    next
      case False
      then show ?thesis using 2(2) 2(6) MIME_PARSE_BEFORE by (auto split: if_splits)
    qed
  next
    case MIME_PARSE_FOUND_CR
    then show ?thesis using 2(3) 2(6) by (auto split: if_splits)
  next
    case MIME_PARSE_INSIDE
    have l: "CHAR_LF \<in> set (c # r) \<Longrightarrow> length (tl (dropWhile (\<lambda>d. d \<noteq> CHAR_LF) (c # r))) < length (c # r)"
      by (rule line_rest_shorter)
    show ?thesis
    proof (cases "CHAR_LF \<in> set (c # r)")
      case True
      show ?thesis
      proof (cases k)
        case MIME_SCANNER_TYPE_LINE
        then show ?thesis using 2(6) MIME_PARSE_INSIDE True l by (auto simp: Let_def)
      next
        case MIME_SCANNER_TYPE_FIELD
        then have "scan_loop k (S\<lparr>m_state := MIME_PARSE_AFTER\<rparr>) (tl (dropWhile (\<lambda>d. d \<noteq> CHAR_LF) (c # r))) = (z, S', rest)"
          using 2(6) MIME_PARSE_INSIDE True by (simp add: Let_def)
        then show ?thesis using 2(4) [OF MIME_PARSE_INSIDE True refl MIME_SCANNER_TYPE_FIELD] l [OF True] by fastforce
      qed
    next
      case False
      then show ?thesis using 2(6) MIME_PARSE_INSIDE by auto
    qed
  next
    case MIME_PARSE_AFTER
    then show ?thesis using 2(5) 2(6) by (auto split: if_splits)
  qed
qed simp

lemma scan_final_simps [simp]:
  "s_result (scan_final z S data rest) = z" "s_rest (scan_final z S data rest) = rest"
  "s_line (scan_final z S data rest) = m_line S @ data" "m_line (s_scanner (scan_final z S data rest)) = []"
  "m_state (s_scanner (scan_final z S data rest)) = m_state S"
  by (auto simp: scan_final_def mime_scanner_append_def Let_def)

definition parse_left :: "mime_scanner \<Rightarrow> bytes \<Rightarrow> nat" where
  "parse_left S inp = 2 * length inp + (if m_state S = MIME_PARSE_AFTER then 1 else 0)"

lemma scanner_get_consumes:
  assumes "s_result (mime_scanner_get k eof S inp) = PARSE_OK"
  shows "parse_left (s_scanner (mime_scanner_get k eof S inp)) (s_rest (mime_scanner_get k eof S inp)) < parse_left S inp"
proof -
  obtain z S1 rest where l: "scan_loop k S inp = (z, S1, rest)" by (cases "scan_loop k S inp") auto
  show ?thesis using assms scan_loop_consumes [OF l]
    by (auto simp: mime_scanner_get_def l parse_left_def Let_def split: if_splits)
qed

text \<open>
  The parser; its members other than the scanner are never used. The result, the scanner, the rest of the input and the header.
\<close>

function mime_parser_parse ::
  "hdr_tokens \<Rightarrow> bool \<Rightarrow> mime_scanner \<Rightarrow> bytes \<Rightarrow> mime_hdr \<Rightarrow> (mime_parse_result \<times> mime_scanner \<times> bytes \<times> mime_hdr) option" where
  "mime_parser_parse T eof S inp mh =
     (let out = mime_scanner_get MIME_SCANNER_TYPE_FIELD eof S inp
      in if s_result out \<noteq> PARSE_OK then Some (s_result out, s_scanner out, s_rest out, mh)
         else (case parse_line (s_line out) of
                 Header_end \<Rightarrow> Some (PARSE_DONE, s_scanner out, s_rest out, mh)
               | Garbage \<Rightarrow> mime_parser_parse T eof (s_scanner out) (s_rest out) mh
               | Too_long \<Rightarrow> Some (PARSE_ERROR, s_scanner out, s_rest out, mh)
               | Name_value name v \<Rightarrow>
                   (case parse_field T (s_line out) name v mh of
                      None \<Rightarrow> None
                    | Some mh' \<Rightarrow> mime_parser_parse T eof (s_scanner out) (s_rest out) mh')))"
  by pat_completeness auto
termination
  by (relation "measure (\<lambda>(T, eof, S, inp, mh). parse_left S inp)") (simp_all add: scanner_get_consumes)

declare mime_parser_parse.simps [simp del]

section \<open>The printer\<close>

text \<open>
  The buffer, \<open>*buf_index_inout\<close> and \<open>*buf_chars_to_skip_inout\<close>; the result is whether all was printed. A copy beyond
  the end of the buffer is \<open>None\<close>. Printing to a null buffer, for tests only, is not modelled.
\<close>

record print_buf =
  p_buf :: bytes
  p_index :: nat
  p_skip :: nat

definition mime_mem_print :: "bytes \<Rightarrow> print_buf \<Rightarrow> (bool \<times> print_buf) option" where
  "mime_mem_print src B =
     (if p_skip B > 0 \<and> p_skip B \<ge> length src then Some (True, B\<lparr>p_skip := p_skip B - length src\<rparr>)
      else (let s = (if p_skip B > 0 then drop (p_skip B) src else src); n = min (length (p_buf B) - p_index B) (length s)
            in map_option (\<lambda>buf. (length s = n, B\<lparr>p_buf := buf, p_index := p_index B + n, p_skip := 0\<rparr>))
                 (store_all (p_buf B) (p_index B) (take n s))))"

text \<open>\<open>TRY\<close>: go on when all was printed.\<close>

definition try_print :: "(print_buf \<Rightarrow> (bool \<times> print_buf) option) \<Rightarrow> bool \<times> print_buf \<Rightarrow> (bool \<times> print_buf) option" where
  "try_print f r = (if fst r then f (snd r) else Some r)"

definition fits :: "nat \<Rightarrow> print_buf \<Rightarrow> bool" where
  "fits n B \<longleftrightarrow> p_skip B = 0 \<and> n + p_index B \<le> length (p_buf B)"

definition CRLF :: bytes where
  "CRLF = [CHAR_CR, CHAR_LF]"

text \<open>The name of a live field is not empty: its first byte is read.\<close>

definition mime_field_print :: "mime_field \<Rightarrow> print_buf \<Rightarrow> (bool \<times> print_buf) option" where
  "mime_field_print f B =
     (case m_name f of
        [] \<Rightarrow> None
      | c # _ \<Rightarrow>
          if c = AT_SIGN then Some (True, B)
          else if m_raw_printable f
          then (let n = length (m_name f) + length (value_bytes f) + m_raw_pad f
                in if fits n B
                   then map_option (\<lambda>buf. (True, B\<lparr>p_buf := buf, p_index := p_index B + n\<rparr>))
                          (store_all (p_buf B) (p_index B) (take n (m_raw f)))
                   else mime_mem_print (take n (m_raw f)) B)
          else (let n = length (m_name f) + length (value_bytes f) + 2 + 2
                in if fits n B
                   then do { b1 \<leftarrow> store_all (p_buf B) (p_index B) (m_name f);
                             let i1 = p_index B + length (m_name f);
                             b2 \<leftarrow> store_all b1 i1 [COLON, CHAR_SP];
                             let i2 = i1 + 2;
                             b3 \<leftarrow> store_all b2 i2 (value_bytes f);
                             b4 \<leftarrow> store_all b3 (i2 + length (value_bytes f)) CRLF;
                             Some (True, B\<lparr>p_buf := b4, p_index := p_index B + n\<rparr>) }
                   else do { r1 \<leftarrow> mime_mem_print (m_name f) B;
                             r2 \<leftarrow> try_print (mime_mem_print [COLON, CHAR_SP]) r1;
                             r3 \<leftarrow> try_print (mime_mem_print (value_bytes f)) r2;
                             try_print (mime_mem_print CRLF) r3 }))"

fun print_slots :: "mime_field list \<Rightarrow> print_buf \<Rightarrow> (bool \<times> print_buf) option" where
  "print_slots [] B = Some (True, B)"
| "print_slots (f # fs) B =
     (if is_live f then Option.bind (mime_field_print f B) (try_print (print_slots fs)) else print_slots fs B)"

fun print_blocks :: "mime_field list list \<Rightarrow> print_buf \<Rightarrow> (bool \<times> print_buf) option" where
  "print_blocks [] B = Some (True, B)"
| "print_blocks (b # bs) B = Option.bind (print_slots b B) (try_print (print_blocks bs))"

definition mime_hdr_print :: "mime_hdr \<Rightarrow> print_buf \<Rightarrow> (bool \<times> print_buf) option" where
  "mime_hdr_print mh B = Option.bind (print_blocks (m_blocks mh) B) (try_print (mime_mem_print CRLF))"
end
