(* ===== verification/MimeParseSpec.thy ===== *)
theory MimeParseSpec
  imports MimeParse MimeApiSpec
begin

text \<open>
  The parser is a machine that reads one byte at a time: its scanner keeps exactly the text of the machine over any
  number of calls, so that the cuts between the pieces of the input do not matter.
\<close>

section \<open>The parser as a machine over bytes\<close>

text \<open>What a line does to the header, and the result if it is the last one.\<close>

definition take_line :: "hdr_tokens \<Rightarrow> bytes \<Rightarrow> mime_hdr \<Rightarrow> (mime_parse_result option \<times> mime_hdr) option" where
  "take_line T line mh =
     (case parse_line line of
        Header_end \<Rightarrow> Some (Some PARSE_DONE, mh)
      | Garbage \<Rightarrow> Some (None, mh)
      | Too_long \<Rightarrow> Some (Some PARSE_ERROR, mh)
      | Name_value name v \<Rightarrow> map_option (Pair None) (parse_field T line name v mh))"

lemma parse_step:
  "mime_parser_parse T eof S inp mh =
     (let res = mime_scanner_get MIME_SCANNER_TYPE_FIELD eof S inp
      in if s_result res \<noteq> PARSE_OK then Some (s_result res, s_scanner res, s_rest res, mh)
         else (case take_line T (s_line res) mh of
                 None \<Rightarrow> None
               | Some (Some z, mh') \<Rightarrow> Some (z, s_scanner res, s_rest res, mh')
               | Some (None, mh') \<Rightarrow> mime_parser_parse T eof (s_scanner res) (s_rest res) mh'))"
  by (subst mime_parser_parse.simps) (simp add: take_line_def Let_def split: line_kind.split option.split)

text \<open>The state, the text of the field so far, the input and the header.\<close>

type_synonym fed = "(mime_parse_result \<times> mime_parse_state \<times> bytes \<times> bytes \<times> mime_hdr) option"

function feed :: "hdr_tokens \<Rightarrow> mime_parse_state \<Rightarrow> bytes \<Rightarrow> bytes \<Rightarrow> mime_hdr \<Rightarrow> fed" where
  "feed T st acc [] mh = Some (PARSE_CONT, st, acc, [], mh)"
| "feed T st acc (c # r) mh =
     (case st of
        MIME_PARSE_BEFORE \<Rightarrow>
          if c = CHAR_LF then Some (PARSE_DONE, MIME_PARSE_BEFORE, [], r, mh)
          else if c = CHAR_CR then feed T MIME_PARSE_FOUND_CR [CHAR_CR] r mh
          else feed T MIME_PARSE_INSIDE [c] r mh
      | MIME_PARSE_FOUND_CR \<Rightarrow>
          if c = CHAR_LF then Some (PARSE_DONE, MIME_PARSE_BEFORE, [], r, mh)
          else feed T MIME_PARSE_INSIDE [CHAR_CR, CHAR_CR, c] r mh
      | MIME_PARSE_INSIDE \<Rightarrow> feed T (if c = CHAR_LF then MIME_PARSE_AFTER else MIME_PARSE_INSIDE) (acc @ [c]) r mh
      | MIME_PARSE_AFTER \<Rightarrow>
          if is_ws c then feed T MIME_PARSE_INSIDE (acc @ [c]) r mh
          else (case take_line T acc mh of
                  None \<Rightarrow> None
                | Some (Some z, mh') \<Rightarrow> Some (z, MIME_PARSE_BEFORE, [], c # r, mh')
                | Some (None, mh') \<Rightarrow> feed T MIME_PARSE_BEFORE [] (c # r) mh'))"
  by pat_completeness auto
termination
  by (relation "measure (\<lambda>(T, st, acc, inp, mh). 2 * length inp + (if st = MIME_PARSE_AFTER then 1 else 0))") auto

declare feed.simps(2) [simp del]

lemmas feed_step = feed.simps(2)

lemma feed_append:
  "feed T st acc (a @ b) mh =
     (case feed T st acc a mh of
        None \<Rightarrow> None
      | Some (z, st', acc', rest, mh') \<Rightarrow>
          if z = PARSE_CONT then feed T st' acc' b mh' else Some (z, st', acc', rest @ b, mh'))"
proof (induction T st acc a mh rule: feed.induct)
  case (2 T st acc c r mh)
  show ?case
  proof (cases st)
    case MIME_PARSE_BEFORE
    then show ?thesis using 2(1,2) by (simp add: feed_step)
  next
    case MIME_PARSE_FOUND_CR
    then show ?thesis using 2(3) by (simp add: feed_step)
  next
    case MIME_PARSE_INSIDE
    then show ?thesis using 2(4) by (simp add: feed_step)
  next
    case MIME_PARSE_AFTER
    have n: "take_line T acc mh = Some (Some z, mh') \<Longrightarrow> take_line T acc mh = Some (None, mh'') \<Longrightarrow> False" for z mh' mh'' by simp
    show ?thesis
    proof (cases "is_ws c")
      case True
      then show ?thesis using 2(5) MIME_PARSE_AFTER by (simp add: feed_step)
    next
      case False
      show ?thesis
      proof (cases "take_line T acc mh")
        case None
        then show ?thesis using MIME_PARSE_AFTER False by (simp add: feed_step)
      next
        case (Some p)
        show ?thesis
        proof (cases p)
          case (Pair zo mh')
          show ?thesis
          proof (cases zo)
            case None
            then have "feed T st acc ((c # r) @ b) mh = feed T MIME_PARSE_BEFORE [] ((c # r) @ b) mh'"
              "feed T st acc (c # r) mh = feed T MIME_PARSE_BEFORE [] (c # r) mh'"
              using MIME_PARSE_AFTER False Some Pair by (simp_all add: feed_step)
            then show ?thesis using 2(6) [OF MIME_PARSE_AFTER False Some Pair [symmetric] None] by simp
          next
            case (Some z)
            moreover have "z \<noteq> PARSE_CONT" using \<open>take_line T acc mh = Some p\<close> Pair Some
              by (auto simp: take_line_def split: line_kind.splits)
            ultimately show ?thesis using MIME_PARSE_AFTER False \<open>take_line T acc mh = Some p\<close> Pair by (simp add: feed_step)
          qed
        qed
      qed
    qed
  qed
qed simp

lemma split_at_first: "x \<in> set xs \<Longrightarrow> xs = takeWhile (\<lambda>d. d \<noteq> x) xs @ x # tl (dropWhile (\<lambda>d. d \<noteq> x) xs)"
  by (induction xs) auto

lemma feed_inside:
  "CHAR_LF \<notin> set inp \<Longrightarrow> feed T MIME_PARSE_INSIDE acc inp mh = Some (PARSE_CONT, MIME_PARSE_INSIDE, acc @ inp, [], mh)"
  by (induction inp arbitrary: acc) (auto simp: feed_step)

lemma feed_to_lf:
  "CHAR_LF \<in> set inp \<Longrightarrow> feed T MIME_PARSE_INSIDE acc inp mh =
     feed T MIME_PARSE_AFTER (acc @ takeWhile (\<lambda>d. d \<noteq> CHAR_LF) inp @ [CHAR_LF]) (tl (dropWhile (\<lambda>d. d \<noteq> CHAR_LF) inp)) mh"
  by (induction inp arbitrary: acc) (auto simp: feed_step)

section \<open>The scanner follows the machine\<close>

text \<open>The text of the machine: the collected line and what this call has consumed; a carriage return is put in front of itself.\<close>

definition follows :: "mime_scanner \<Rightarrow> bytes \<Rightarrow> bytes \<Rightarrow> bool" where
  "follows S d acc \<longleftrightarrow>
     acc = m_line S @ d \<and> (m_state S = MIME_PARSE_BEFORE \<longrightarrow> acc = []) \<and> (m_state S = MIME_PARSE_FOUND_CR \<longrightarrow> acc = [CHAR_CR])"

definition scanner_ok :: "mime_scanner \<Rightarrow> bool" where
  "scanner_ok S \<longleftrightarrow> (m_state S = MIME_PARSE_BEFORE \<longrightarrow> m_line S = []) \<and> (m_state S = MIME_PARSE_FOUND_CR \<longrightarrow> m_line S = [CHAR_CR])"

lemma scanner_ok_follows: "scanner_ok S \<longleftrightarrow> follows S [] (m_line S)"
  by (auto simp: scanner_ok_def follows_def)

lemma feed_reconsider:
  "c \<noteq> CHAR_LF \<Longrightarrow> c \<noteq> CHAR_CR \<Longrightarrow> feed T MIME_PARSE_BEFORE [] (c # r) mh = feed T MIME_PARSE_INSIDE [] (c # r) mh"
  "c \<noteq> CHAR_LF \<Longrightarrow> feed T MIME_PARSE_FOUND_CR acc (c # r) mh = feed T MIME_PARSE_INSIDE [CHAR_CR, CHAR_CR] (c # r) mh"
  "is_ws c \<Longrightarrow> feed T MIME_PARSE_AFTER acc (c # r) mh = feed T MIME_PARSE_INSIDE acc (c # r) mh"
  by (auto simp: feed_step is_cls_iff is_ws0_def CHAR_SP_def CHAR_HT_def CHAR_LF_def)

definition scan_ends :: "hdr_tokens \<Rightarrow> fed \<Rightarrow> mime_hdr \<Rightarrow> bytes \<Rightarrow> mime_parse_result \<times> mime_scanner \<times> bytes \<Rightarrow> bool" where
  "scan_ends T r mh d res =
     (case res of (z, S, rest) \<Rightarrow>
        (case z of
           PARSE_CONT \<Rightarrow> rest = [] \<and> follows S d (m_line S @ d) \<and> r = Some (PARSE_CONT, m_state S, m_line S @ d, [], mh)
         | PARSE_OK \<Rightarrow>
             m_state S = MIME_PARSE_BEFORE \<and>
             r = (case take_line T (m_line S @ d) mh of
                    None \<Rightarrow> None
                  | Some (Some z', mh') \<Rightarrow> Some (z', MIME_PARSE_BEFORE, [], rest, mh')
                  | Some (None, mh') \<Rightarrow> feed T MIME_PARSE_BEFORE [] rest mh')
         | PARSE_DONE \<Rightarrow> r = Some (PARSE_DONE, MIME_PARSE_BEFORE, [], rest, mh)
         | PARSE_ERROR \<Rightarrow> False))"

lemma scan_follows:
  assumes "k = MIME_SCANNER_TYPE_FIELD" "follows S d acc"
  shows "\<exists>used. inp = used @ snd (snd (scan_loop k S inp)) \<and>
    scan_ends T (feed T (m_state S) acc inp mh) mh (d @ used) (scan_loop k S inp)"
  using assms
proof (induction k S inp arbitrary: d acc rule: scan_loop.induct)
  case (1 k S)
  then show ?case by (auto simp: scan_ends_def follows_def)
next
  case (2 k S c r)
  have acc: "acc = m_line S @ d" using 2(7) by (simp add: follows_def)
  show ?case
  proof (cases "m_state S")
    case MIME_PARSE_BEFORE
    then have e: "acc = []" "m_line S = []" "d = []" using 2(7) by (auto simp: follows_def)
    consider "c = CHAR_CR" "r \<noteq> []" "hd r = CHAR_LF" | "c = CHAR_CR" "\<not> (r \<noteq> [] \<and> hd r = CHAR_LF)" | "c = CHAR_LF" | "c \<noteq> CHAR_CR" "c \<noteq> CHAR_LF"
      by blast
    then show ?thesis
    proof cases
      case 1
      then obtain r' where "r = CHAR_LF # r'" by (cases r) auto
      then show ?thesis using 1 MIME_PARSE_BEFORE e
        by (auto simp: scan_loop.simps(2) feed_step is_cr_def is_lf_def scan_ends_def CHAR_CR_def CHAR_LF_def)
    next
      case 2
      let ?S = "S\<lparr>m_state := MIME_PARSE_FOUND_CR\<rparr>"
      have l: "scan_loop k S (c # r) = scan_loop k ?S r" using 2 MIME_PARSE_BEFORE
        by (auto simp: scan_loop.simps(2) is_cr_def is_lf_def)
      have f: "feed T (m_state S) acc (c # r) mh = feed T (m_state ?S) [CHAR_CR] r mh" using 2 MIME_PARSE_BEFORE
        by (simp add: feed_step CHAR_CR_def CHAR_LF_def)
      have c: "is_cr c" "\<not> (r \<noteq> [] \<and> is_lf (hd r))" using 2 by (simp_all add: is_cr_def is_lf_def)
      have "follows ?S [CHAR_CR] [CHAR_CR]" using e by (simp add: follows_def)
      then obtain used where "r = used @ snd (snd (scan_loop k ?S r))"
        "scan_ends T (feed T (m_state ?S) [CHAR_CR] r mh) mh ([CHAR_CR] @ used) (scan_loop k ?S r)"
        using "2.IH"(1) [OF MIME_PARSE_BEFORE c "2.prems"(1)] by blast
      then show ?thesis unfolding l f using 2(1) e by (intro exI [of _ "CHAR_CR # used"]) simp
    next
      case 3
      then show ?thesis using MIME_PARSE_BEFORE e
        by (auto simp: scan_loop.simps(2) feed_step is_cr_def is_lf_def scan_ends_def CHAR_CR_def CHAR_LF_def)
    next
      case 4
      let ?S = "S\<lparr>m_state := MIME_PARSE_INSIDE\<rparr>"
      have l: "scan_loop k S (c # r) = scan_loop k ?S (c # r)" using 4 MIME_PARSE_BEFORE
        by (subst scan_loop.simps(2)) (simp add: is_cr_def is_lf_def)
      have f: "feed T (m_state S) acc (c # r) mh = feed T (m_state ?S) acc (c # r) mh" using 4 MIME_PARSE_BEFORE e
        by (simp add: feed_reconsider)
      have "follows ?S d acc" using acc by (simp add: follows_def)
      then show ?thesis unfolding l f using "2.IH"(2) [OF MIME_PARSE_BEFORE _ _ "2.prems"(1)] 4 by (simp add: is_cr_def is_lf_def)
    qed
  next
    case MIME_PARSE_FOUND_CR
    show ?thesis
    proof (cases "c = CHAR_LF")
      case True
      then show ?thesis using MIME_PARSE_FOUND_CR
        by (auto simp: scan_loop.simps(2) feed_step is_lf_def scan_ends_def)
    next
      case False
      let ?S = "(mime_scanner_append [CHAR_CR] S)\<lparr>m_state := MIME_PARSE_INSIDE\<rparr>"
      have l: "scan_loop k S (c # r) = scan_loop k ?S (c # r)" using False MIME_PARSE_FOUND_CR
        by (subst scan_loop.simps(2)) (simp add: is_lf_def)
      have f: "feed T (m_state S) acc (c # r) mh = feed T (m_state ?S) [CHAR_CR, CHAR_CR] (c # r) mh" using False MIME_PARSE_FOUND_CR
        by (simp add: feed_reconsider)
      have "m_line S @ d = [CHAR_CR]" using 2(7) MIME_PARSE_FOUND_CR by (auto simp: follows_def)
      then have "follows ?S d [CHAR_CR, CHAR_CR]" by (auto simp: follows_def mime_scanner_append_def append_eq_Cons_conv)
      then show ?thesis unfolding l f using "2.IH"(3) [OF MIME_PARSE_FOUND_CR _ "2.prems"(1)] False by (simp add: is_lf_def)
    qed
  next
    case MIME_PARSE_INSIDE
    let ?t = "takeWhile (\<lambda>d. d \<noteq> CHAR_LF) (c # r)" and ?dr = "dropWhile (\<lambda>d. d \<noteq> CHAR_LF) (c # r)"
    show ?thesis
    proof (cases "CHAR_LF \<in> set (c # r)")
      case True
      let ?S = "S\<lparr>m_state := MIME_PARSE_AFTER\<rparr>"
      have l: "scan_loop k S (c # r) = scan_loop k ?S (tl ?dr)" using True MIME_PARSE_INSIDE "2.prems"(1)
        by (subst scan_loop.simps(2)) (simp add: Let_def)
      have f: "feed T (m_state S) acc (c # r) mh = feed T (m_state ?S) (acc @ ?t @ [CHAR_LF]) (tl ?dr) mh"
        using feed_to_lf [OF True] MIME_PARSE_INSIDE by simp
      have sp: "c # r = ?t @ CHAR_LF # tl ?dr" using split_at_first [OF True] .
      have "follows ?S (d @ ?t @ [CHAR_LF]) (acc @ ?t @ [CHAR_LF])" using acc by (simp add: follows_def)
      then obtain used where u: "tl ?dr = used @ snd (snd (scan_loop k ?S (tl ?dr)))"
        "scan_ends T (feed T (m_state ?S) (acc @ ?t @ [CHAR_LF]) (tl ?dr) mh) mh ((d @ ?t @ [CHAR_LF]) @ used) (scan_loop k ?S (tl ?dr))"
        using "2.IH"(4) [OF MIME_PARSE_INSIDE True refl "2.prems"(1,1)] by blast
      show ?thesis unfolding l f
      proof (intro exI [of _ "?t @ [CHAR_LF] @ used"] conjI)
        show "c # r = (?t @ [CHAR_LF] @ used) @ snd (snd (scan_loop k ?S (tl ?dr)))" using sp u(1) by simp
      qed (use u(2) in simp)
    next
      case False
      then show ?thesis using MIME_PARSE_INSIDE acc feed_inside [OF False]
        by (auto simp: scan_loop.simps(2) scan_ends_def follows_def)
    qed
  next
    case MIME_PARSE_AFTER
    show ?thesis
    proof (cases "is_ws c")
      case True
      let ?S = "S\<lparr>m_state := MIME_PARSE_INSIDE\<rparr>"
      have l: "scan_loop k S (c # r) = scan_loop k ?S (c # r)" using True MIME_PARSE_AFTER
        by (subst scan_loop.simps(2)) simp
      have f: "feed T (m_state S) acc (c # r) mh = feed T (m_state ?S) acc (c # r) mh" using True MIME_PARSE_AFTER
        by (simp add: feed_reconsider)
      have "follows ?S d acc" using acc by (simp add: follows_def)
      then show ?thesis unfolding l f using "2.IH"(5) [OF MIME_PARSE_AFTER True "2.prems"(1)] by simp
    next
      case False
      then show ?thesis using MIME_PARSE_AFTER acc
        by (auto simp: scan_loop.simps(2) feed_step scan_ends_def)
    qed
  qed
qed

lemma scan_cases:
  assumes "scanner_ok S"
  obtains (cont) S' d where "scan_loop MIME_SCANNER_TYPE_FIELD S inp = (PARSE_CONT, S', [])" "d = inp"
      "follows S' inp (m_line S' @ inp)"
      "feed T (m_state S) (m_line S) inp mh = Some (PARSE_CONT, m_state S', m_line S' @ inp, [], mh)"
    | (ok) S' used rest where "scan_loop MIME_SCANNER_TYPE_FIELD S inp = (PARSE_OK, S', rest)" "inp = used @ rest"
      "m_state S' = MIME_PARSE_BEFORE"
      "feed T (m_state S) (m_line S) inp mh =
         (case take_line T (m_line S' @ used) mh of
            None \<Rightarrow> None
          | Some (Some z, mh') \<Rightarrow> Some (z, MIME_PARSE_BEFORE, [], rest, mh')
          | Some (None, mh') \<Rightarrow> feed T MIME_PARSE_BEFORE [] rest mh')"
    | (done_) S' used rest where "scan_loop MIME_SCANNER_TYPE_FIELD S inp = (PARSE_DONE, S', rest)" "inp = used @ rest"
      "feed T (m_state S) (m_line S) inp mh = Some (PARSE_DONE, MIME_PARSE_BEFORE, [], rest, mh)"
proof -
  obtain z S' rest where l: "scan_loop MIME_SCANNER_TYPE_FIELD S inp = (z, S', rest)" by (cases "scan_loop MIME_SCANNER_TYPE_FIELD S inp") auto
  obtain used where "inp = used @ rest" "scan_ends T (feed T (m_state S) (m_line S) inp mh) mh used (z, S', rest)"
    using scan_follows [OF refl assms [unfolded scanner_ok_follows], of inp T mh] l by auto
  then show ?thesis using that l by (cases z) (auto simp: scan_ends_def)
qed

lemma get_open:
  "scan_loop k S inp = (PARSE_CONT, S', []) \<Longrightarrow> mime_scanner_get k False S inp =
     \<lparr>s_result = PARSE_CONT, s_scanner = (if inp \<noteq> [] then mime_scanner_append inp S' else S'), s_line = [], s_shares = False, s_rest = []\<rparr>"
  by (simp add: mime_scanner_get_def)

lemma get_final:
  "scan_loop k S (used @ rest) = (z, S', rest) \<Longrightarrow> z \<noteq> PARSE_CONT \<Longrightarrow> mime_scanner_get k eof S (used @ rest) = scan_final z S' used rest"
  by (simp add: mime_scanner_get_def)

lemma get_eof:
  "scan_loop k S inp = (PARSE_CONT, S', []) \<Longrightarrow> mime_scanner_get k True S inp =
     (if inp = []
      then (if m_state S' \<noteq> MIME_PARSE_INSIDE then scan_final PARSE_DONE (S'\<lparr>m_state := MIME_PARSE_BEFORE\<rparr>) [] []
            else scan_final PARSE_ERROR S' [] [])
      else if m_state S' = MIME_PARSE_AFTER then scan_final PARSE_OK (S'\<lparr>m_state := MIME_PARSE_BEFORE\<rparr>) inp []
      else scan_final PARSE_ERROR S' inp [])"
  by (simp add: mime_scanner_get_def)

text \<open>What a call of the parser shows: after a final result the state of the scanner does not matter.\<close>

fun view :: "mime_parse_result \<times> mime_scanner \<times> bytes \<times> mime_hdr \<Rightarrow> mime_parse_result \<times> mime_parse_state \<times> bytes \<times> bytes \<times> mime_hdr" where
  "view (z, S, rest, mh) = (z, if z = PARSE_CONT then m_state S else MIME_PARSE_BEFORE, m_line S, rest, mh)"

lemma final_ok: "m_state S = MIME_PARSE_BEFORE \<Longrightarrow> scanner_ok (s_scanner (scan_final z S data rest))"
  by (simp add: scanner_ok_def)

lemma take_line_final: "take_line T line mh = Some (Some z, mh') \<Longrightarrow> z \<noteq> PARSE_CONT \<and> z \<noteq> PARSE_OK"
  by (auto simp: take_line_def split: line_kind.splits)

lemma parse_feed: "scanner_ok S \<Longrightarrow> map_option view (mime_parser_parse T False S inp mh) = feed T (m_state S) (m_line S) inp mh"
proof (induction "parse_left S inp" arbitrary: S inp mh rule: less_induct)
  case less
  show ?case
  proof (cases rule: scan_cases [OF less.prems, where inp = inp and T = T and mh = mh, case_names cont ok done_])
    case (cont S' d)
    then show ?thesis by (subst parse_step) (simp add: get_open [OF cont(1)] mime_scanner_append_def)
  next
    case (ok S' used rest)
    note g = get_final [OF ok(1) [unfolded ok(2)], of False, folded ok(2)]
    let ?S = "s_scanner (scan_final PARSE_OK S' used rest)"
    show ?thesis
    proof (cases "take_line T (m_line S' @ used) mh")
      case None
      then show ?thesis unfolding ok(4) by (subst parse_step) (simp add: g)
    next
      case (Some p)
      obtain zo mh' where p: "p = (zo, mh')" by (cases p)
      show ?thesis
      proof (cases zo)
        case None
        have "parse_left ?S rest < parse_left S inp"
          using scanner_get_consumes [of MIME_SCANNER_TYPE_FIELD False S inp] by (simp add: g)
        moreover have "scanner_ok ?S" by (rule final_ok [OF ok(3)])
        ultimately have "map_option view (mime_parser_parse T False ?S rest mh') = feed T MIME_PARSE_BEFORE [] rest mh'"
          using less.hyps [of ?S rest mh'] ok(3) by simp
        then show ?thesis unfolding ok(4) using Some p None by (subst parse_step) (simp add: g)
      next
        case z: (Some z)
        then show ?thesis unfolding ok(4) using Some p take_line_final [of T "m_line S' @ used" mh z mh'] by (subst parse_step) (simp add: g)
      qed
    qed
  next
    case (done_ S' used rest)
    note g = get_final [OF done_(1) [unfolded done_(2)], of False, folded done_(2)]
    show ?thesis unfolding done_(3) by (subst parse_step) (simp add: g)
  qed
qed

text \<open>At the end of all input.\<close>

definition feed_eof :: "hdr_tokens \<Rightarrow> mime_parse_result \<times> mime_parse_state \<times> bytes \<times> bytes \<times> mime_hdr \<Rightarrow> fed" where
  "feed_eof T r =
     (case r of (z, st, acc, rest, mh) \<Rightarrow>
        if z \<noteq> PARSE_CONT then Some r
        else if st \<noteq> MIME_PARSE_AFTER then Some (PARSE_ERROR, MIME_PARSE_BEFORE, [], [], mh)
        else (case take_line T acc mh of
                None \<Rightarrow> None
              | Some (zo, mh') \<Rightarrow> Some (case zo of None \<Rightarrow> PARSE_DONE | Some z \<Rightarrow> z, MIME_PARSE_BEFORE, [], [], mh')))"

lemma parse_empty_eof:
  "mime_parser_parse T True S [] mh =
     Some (if m_state S = MIME_PARSE_INSIDE then PARSE_ERROR else PARSE_DONE,
       \<lparr>m_line = [], m_state = (if m_state S = MIME_PARSE_INSIDE then MIME_PARSE_INSIDE else MIME_PARSE_BEFORE)\<rparr>, [], mh)"
  by (subst parse_step) (auto simp: get_eof scan_final_def)

lemma scan_loop_rest: "scan_loop MIME_SCANNER_TYPE_FIELD S inp = (PARSE_OK, S', rest) \<Longrightarrow> rest \<noteq> []"
proof (induction MIME_SCANNER_TYPE_FIELD S inp rule: scan_loop.induct)
  case (2 S c r)
  show ?case using 2(6)
    by (subst (asm) scan_loop.simps(2))
      (auto split: mime_parse_state.splits if_splits simp: Let_def dest: "2.hyps")
qed simp

lemma parse_feed_eof:
  "scanner_ok S \<Longrightarrow> inp \<noteq> [] \<Longrightarrow> map_option view (mime_parser_parse T True S inp mh) =
     Option.bind (feed T (m_state S) (m_line S) inp mh) (feed_eof T)"
proof (induction "parse_left S inp" arbitrary: S inp mh rule: less_induct)
  case less
  show ?case
  proof (cases rule: scan_cases [OF less.prems(1), where inp = inp and T = T and mh = mh, case_names cont ok done_])
    case (cont S' d)
    let ?line = "m_line S' @ inp" and ?S = "S'\<lparr>m_state := MIME_PARSE_BEFORE\<rparr>"
    note g = get_eof [OF cont(1)]
    show ?thesis
    proof (cases "m_state S' = MIME_PARSE_AFTER")
      case True
      then show ?thesis unfolding cont(4) using less.prems(2)
        by (subst parse_step) (auto simp: g feed_eof_def parse_empty_eof dest: take_line_final split: option.split)
    next
      case False
      then show ?thesis unfolding cont(4) using less.prems(2)
        by (subst parse_step) (simp add: g feed_eof_def)
    qed
  next
    case (ok S' used rest)
    note g = get_final [OF ok(1) [unfolded ok(2)], of True, folded ok(2)]
    let ?S = "s_scanner (scan_final PARSE_OK S' used rest)"
    show ?thesis
    proof (cases "take_line T (m_line S' @ used) mh")
      case None
      then show ?thesis unfolding ok(4) by (subst parse_step) (simp add: g)
    next
      case (Some p)
      obtain zo mh' where p: "p = (zo, mh')" by (cases p)
      show ?thesis
      proof (cases zo)
        case None
        have "parse_left ?S rest < parse_left S inp"
          using scanner_get_consumes [of MIME_SCANNER_TYPE_FIELD True S inp] by (simp add: g)
        moreover have "scanner_ok ?S" by (rule final_ok [OF ok(3)])
        moreover have "rest \<noteq> []" using scan_loop_rest [OF ok(1)] by simp
        ultimately have "map_option view (mime_parser_parse T True ?S rest mh') = Option.bind (feed T MIME_PARSE_BEFORE [] rest mh') (feed_eof T)"
          using less.hyps [of ?S rest mh'] ok(3) by simp
        then show ?thesis unfolding ok(4) using Some p None by (subst parse_step) (simp add: g)
      next
        case z: (Some z)
        then show ?thesis unfolding ok(4) using Some p take_line_final [of T "m_line S' @ used" mh z mh']
          by (subst parse_step) (simp add: g feed_eof_def)
      qed
    qed
  next
    case (done_ S' used rest)
    note g = get_final [OF done_(1) [unfolded done_(2)], of True, folded done_(2)]
    show ?thesis unfolding done_(3) by (subst parse_step) (simp add: g feed_eof_def)
  qed
qed

end
