(* ===== verification/MimePrintSpec.thy ===== *)
theory MimePrintSpec
  imports MimeParseSpec
begin

text \<open>
  The printer writes a window of the text of the header: the part of it behind what is skipped, as far as there is room.
\<close>

section \<open>Printing writes a window of the text\<close>

definition field_text :: "mime_field \<Rightarrow> bytes" where
  "field_text f =
     (if hd (m_name f) = AT_SIGN then []
      else if m_raw_printable f then take (length (m_name f) + length (value_bytes f) + m_raw_pad f) (m_raw f)
      else m_name f @ [COLON, CHAR_SP] @ value_bytes f @ CRLF)"

definition fields_text :: "mime_field list \<Rightarrow> bytes" where
  "fields_text fs = concat (map field_text (filter is_live fs))"

definition header_text :: "mime_hdr \<Rightarrow> bytes" where
  "header_text mh = fields_text (slots mh) @ CRLF"

text \<open>The part of a text behind what is skipped, as far as there is room.\<close>

definition window :: "bytes \<Rightarrow> print_buf \<Rightarrow> bool \<times> print_buf" where
  "window t B =
     (let room = length (p_buf B) - p_index B; w = take room (drop (p_skip B) t)
      in (length t - p_skip B \<le> room,
          B\<lparr>p_buf := take (p_index B) (p_buf B) @ w @ drop (p_index B + length w) (p_buf B),
            p_index := p_index B + length w, p_skip := p_skip B - length t\<rparr>))"

definition in_buf :: "print_buf \<Rightarrow> bool" where
  "in_buf B \<longleftrightarrow> p_index B \<le> length (p_buf B)"

lemma mem_print: "in_buf B \<Longrightarrow> mime_mem_print t B = Some (window t B)"
proof -
  assume b: "in_buf B"
  show ?thesis
  proof (cases "p_skip B > 0 \<and> p_skip B \<ge> length t")
    case True
    then show ?thesis by (simp add: mime_mem_print_def window_def Let_def)
  next
    case False
    let ?w = "take (length (p_buf B) - p_index B) (drop (p_skip B) t)"
    have "store_all (p_buf B) (p_index B) ?w = Some (take (p_index B) (p_buf B) @ ?w @ drop (p_index B + length ?w) (p_buf B))"
      by (rule store_all_fits) (use b in \<open>simp add: in_buf_def\<close>)
    moreover have "(if p_skip B > 0 then drop (p_skip B) t else t) = drop (p_skip B) t" by simp
    moreover have "take (min (length (p_buf B) - p_index B) (length t - p_skip B)) (drop (p_skip B) t) = ?w"
      by (simp add: min_def)
    ultimately show ?thesis using False by (auto simp: mime_mem_print_def window_def Let_def)
  qed
qed

lemma window_in_buf: "in_buf B \<Longrightarrow> in_buf (snd (window t B))"
  by (auto simp: in_buf_def window_def Let_def)

definition put_at :: "nat \<Rightarrow> bytes \<Rightarrow> bytes \<Rightarrow> bytes" where
  "put_at i xs buf = take i buf @ xs @ drop (i + length xs) buf"

lemma put_at_append:
  assumes "i + length xs \<le> length buf"
  shows "put_at (i + length xs) ys (put_at i xs buf) = put_at i (xs @ ys) buf" "length (put_at i xs buf) = length buf"
proof -
  have "take (i + length xs) (put_at i xs buf) = take i buf @ xs"
    "drop (i + length xs + length ys) (put_at i xs buf) = drop (i + length xs + length ys) buf"
    using assms by (simp_all add: put_at_def add.commute)
  then show "put_at (i + length xs) ys (put_at i xs buf) = put_at i (xs @ ys) buf"
    by (simp add: put_at_def [of "i + length xs"] put_at_def [of i "xs @ ys"] add.assoc)
  show "length (put_at i xs buf) = length buf" using assms by (simp add: put_at_def)
qed

lemma window_alt:
  "window t B =
     (length t - p_skip B \<le> length (p_buf B) - p_index B,
      (let w = take (length (p_buf B) - p_index B) (drop (p_skip B) t)
       in B\<lparr>p_buf := put_at (p_index B) w (p_buf B), p_index := p_index B + length w, p_skip := p_skip B - length t\<rparr>))"
  by (simp add: window_def put_at_def Let_def)

lemma window_append:
  assumes "in_buf B"
  shows "(if fst (window s B) then window t (snd (window s B)) else window s B) = window (s @ t) B"
proof (cases "fst (window s B)")
  case True
  let ?r = "length (p_buf B) - p_index B" and ?k = "p_skip B"
  define s' where "s' = drop ?k s"
  define t' where "t' = drop (?k - length s) t"
  have s: "length s' \<le> ?r" "take ?r s' = s'" "length s - ?k = length s'" using True by (simp_all add: window_alt s'_def)
  have i: "p_index B + length s' \<le> length (p_buf B)" using s(1) assms by (simp add: in_buf_def)
  note p = put_at_append [OF i]
  have w: "take ?r (drop ?k (s @ t)) = s' @ take (?r - length s') t'"
    unfolding drop_append take_append s'_def [symmetric] t'_def [symmetric] s(2) by simp
  have f: "length (s @ t) - ?k \<le> ?r \<longleftrightarrow> length t - (?k - length s) \<le> ?r - length s'" using s(1,3) unfolding length_append by arith
  have b: "snd (window s B) = B\<lparr>p_buf := put_at (p_index B) s' (p_buf B), p_index := p_index B + length s', p_skip := ?k - length s\<rparr>"
    using s by (simp add: window_alt s'_def [symmetric] Let_def)
  have "window t (snd (window s B)) =
      (length t - (?k - length s) \<le> ?r - length s',
       B\<lparr>p_buf := put_at (p_index B + length s') (take (?r - length s') t') (put_at (p_index B) s' (p_buf B)),
         p_index := p_index B + length s' + length (take (?r - length s') t'), p_skip := ?k - length s - length t\<rparr>)"
    unfolding b window_alt [of t] by (simp add: p(2) Let_def t'_def)
  moreover have "window (s @ t) B =
      (length t - (?k - length s) \<le> ?r - length s',
       B\<lparr>p_buf := put_at (p_index B) (s' @ take (?r - length s') t') (p_buf B),
         p_index := p_index B + (length s' + length (take (?r - length s') t')), p_skip := ?k - (length s + length t)\<rparr>)"
    unfolding window_alt [of "s @ t"] w f Let_def by (simp only: length_append)
  ultimately show ?thesis unfolding if_P [OF True] by (simp only: p(1) add.assoc diff_diff_eq)
next
  case False
  then have "length (p_buf B) - p_index B \<le> length (drop (p_skip B) s)" "p_skip B \<le> length s" by (simp_all add: window_def Let_def)
  then show ?thesis using False by (auto simp: window_def Let_def)
qed

lemma try_window:
  "in_buf B \<Longrightarrow> (\<And>B. in_buf B \<Longrightarrow> f B = Some (window t B)) \<Longrightarrow> try_print f (window s B) = Some (window (s @ t) B)"
  using window_append [of B s t] window_in_buf [of B s] by (auto simp: try_print_def split: if_splits)

lemma window_fits:
  "in_buf B \<Longrightarrow> fits (length t) B \<Longrightarrow> window t B =
     (True, B\<lparr>p_buf := take (p_index B) (p_buf B) @ t @ drop (p_index B + length t) (p_buf B), p_index := p_index B + length t\<rparr>)"
  by (auto simp: window_def fits_def in_buf_def Let_def)

definition printable :: "mime_field \<Rightarrow> bool" where
  "printable f \<longleftrightarrow> m_name f \<noteq> [] \<and> (m_raw_printable f \<longrightarrow> length (m_raw f) = length (m_name f) + length (value_bytes f) + m_raw_pad f)"

lemma store_fits_append:
  "i + length xs \<le> length buf \<Longrightarrow> store_all buf i xs = Some buf' \<Longrightarrow> store_all buf' (i + length xs) ys = store_all buf i (xs @ ys)"
  for xs ys :: bytes
proof (induction xs arbitrary: buf i)
  case (Cons x xs)
  then show ?case using Cons.IH [of "Suc i" "buf[i := x]"] by (simp add: store_Some)
qed simp

lemma field_print:
  assumes b: "in_buf B" and p: "printable f"
  shows "mime_field_print f B = Some (window (field_text f) B)"
proof -
  obtain c s where n: "m_name f = c # s" using p by (cases "m_name f") (auto simp: printable_def)
  have w0: "window [] B = (True, B)" using b by (auto simp: window_def in_buf_def)
  show ?thesis
  proof (cases "c = AT_SIGN")
    case True
    then show ?thesis by (simp add: mime_field_print_def field_text_def n w0)
  next
    case c: False
    show ?thesis
    proof (cases "m_raw_printable f")
      case True
      have t: "field_text f = m_raw f" "length (m_raw f) = length (m_name f) + length (value_bytes f) + m_raw_pad f"
        using True c n p by (simp_all add: field_text_def printable_def)
      show ?thesis
      proof (cases "fits (length (m_raw f)) B")
        case fit: True
        have "store_all (p_buf B) (p_index B) (m_raw f) =
            Some (take (p_index B) (p_buf B) @ m_raw f @ drop (p_index B + length (m_raw f)) (p_buf B))"
          by (rule store_all_fits) (use fit in \<open>simp add: fits_def\<close>)
        then show ?thesis using fit c n True t window_fits [OF b fit] by (simp add: mime_field_print_def Let_def)
      next
        case False
        then show ?thesis using c n True t mem_print [OF b, of "m_raw f"] by (simp add: mime_field_print_def Let_def)
      qed
    next
      case False
      let ?v = "value_bytes f"
      have t: "field_text f = m_name f @ [COLON, CHAR_SP] @ ?v @ CRLF" using False c n by (simp add: field_text_def)
      have l: "length (field_text f) = length (m_name f) + length ?v + 2 + 2" unfolding t by (simp add: CRLF_def)
      show ?thesis
      proof (cases "fits (length (field_text f)) B")
        case fit: True
        let ?b = "p_buf B" and ?i = "p_index B"
        have room: "?i + length (m_name f @ [COLON, CHAR_SP] @ ?v @ CRLF) \<le> length ?b" using fit t by (simp add: fits_def)
        define b1 where "b1 = take ?i ?b @ m_name f @ drop (?i + length (m_name f)) ?b"
        define b2 where "b2 = take ?i ?b @ (m_name f @ [COLON, CHAR_SP]) @ drop (?i + length (m_name f @ [COLON, CHAR_SP])) ?b"
        define b3 where "b3 = take ?i ?b @ (m_name f @ [COLON, CHAR_SP] @ ?v) @ drop (?i + length (m_name f @ [COLON, CHAR_SP] @ ?v)) ?b"
        have s1: "store_all ?b ?i (m_name f) = Some b1" unfolding b1_def by (rule store_all_fits) (use room in simp)
        have a2: "store_all ?b ?i (m_name f @ [COLON, CHAR_SP]) = Some b2" unfolding b2_def by (rule store_all_fits) (use room in simp)
        have s2: "store_all b1 (?i + length (m_name f)) [COLON, CHAR_SP] = Some b2"
          using store_fits_append [OF _ s1, of "[COLON, CHAR_SP]"] a2 room by simp
        have a3: "store_all ?b ?i ((m_name f @ [COLON, CHAR_SP]) @ ?v) = Some b3"
          using store_all_fits [of ?i "m_name f @ [COLON, CHAR_SP] @ ?v" ?b] room by (simp add: b3_def)
        have s3: "store_all b2 (?i + length (m_name f) + 2) ?v = Some b3"
          using store_fits_append [OF _ a2, of ?v] a3 room by (simp add: add.assoc)
        have a4: "store_all ?b ?i (((m_name f @ [COLON, CHAR_SP]) @ ?v) @ CRLF) =
            Some (take ?i ?b @ field_text f @ drop (?i + length (field_text f)) ?b)"
          using store_all_fits [of ?i "m_name f @ [COLON, CHAR_SP] @ ?v @ CRLF" ?b] room by (simp add: t)
        have s4: "store_all b3 (?i + length (m_name f) + 2 + length ?v) CRLF =
            Some (take ?i ?b @ field_text f @ drop (?i + length (field_text f)) ?b)"
          using store_fits_append [OF _ a3, of CRLF] a4 room by (simp add: add.assoc)
        show ?thesis using fit c n False window_fits [OF b fit] s1 s2 s3 s4 l
          by (simp add: mime_field_print_def Let_def)
      next
        case nofit: False
        have "Option.bind (mime_mem_print (m_name f) B) (\<lambda>r1.
            Option.bind (try_print (mime_mem_print [COLON, CHAR_SP]) r1) (\<lambda>r2.
            Option.bind (try_print (mime_mem_print ?v) r2) (try_print (mime_mem_print CRLF)))) = Some (window (field_text f) B)"
          using b by (simp add: mem_print try_window t)
        then show ?thesis using nofit c n False l by (simp add: mime_field_print_def Let_def)
      qed
    qed
  qed
qed

lemma print_slots_window: "in_buf B \<Longrightarrow> \<forall>f \<in> set fs. is_live f \<longrightarrow> printable f \<Longrightarrow> print_slots fs B = Some (window (fields_text fs) B)"
proof (induction fs arbitrary: B)
  case Nil
  then show ?case by (auto simp: fields_text_def window_def in_buf_def)
next
  case (Cons f fs)
  then show ?case by (simp add: field_print try_window fields_text_def)
qed

lemma print_blocks_window:
  "in_buf B \<Longrightarrow> \<forall>f \<in> set (concat bs). is_live f \<longrightarrow> printable f \<Longrightarrow> print_blocks bs B = Some (window (fields_text (concat bs)) B)"
proof (induction bs arbitrary: B)
  case Nil
  then show ?case by (auto simp: fields_text_def window_def in_buf_def)
next
  case (Cons b bs)
  have "fields_text (concat (b # bs)) = fields_text b @ fields_text (concat bs)" by (simp add: fields_text_def)
  then show ?case using Cons by (simp add: print_slots_window try_window)
qed

text \<open>The length that is announced counts the fields that are not printed.\<close>

lemma header_length:
  "\<forall>f \<in> set (slots mh). is_live f \<longrightarrow> printable f \<Longrightarrow> mime_hdr_length_get mh =
     length (header_text mh) + sum_list (map mime_field_length_get (filter (\<lambda>f. is_live f \<and> hd (m_name f) = AT_SIGN) (slots mh)))"
proof -
  have f: "is_live f \<Longrightarrow> printable f \<Longrightarrow> mime_field_length_get f =
      length (field_text f) + (if hd (m_name f) = AT_SIGN then mime_field_length_get f else 0)" for f
    by (simp add: mime_field_length_get_def field_text_def printable_def CRLF_def)
  have "\<forall>f \<in> set fs. is_live f \<longrightarrow> printable f \<Longrightarrow> sum_list (map (\<lambda>f. if is_live f then mime_field_length_get f else 0) fs) =
      length (fields_text fs) + sum_list (map mime_field_length_get (filter (\<lambda>f. is_live f \<and> hd (m_name f) = AT_SIGN) fs))" for fs
  proof (induction fs)
    case (Cons g fs)
    then show ?case using f [of g] by (auto simp: fields_text_def)
  qed (simp add: fields_text_def)
  moreover have "sum_list (map (\<lambda>fs. sum_list (map h fs)) bs) = sum_list (map h (concat bs))" for h :: "mime_field \<Rightarrow> nat" and bs
    by (induction bs) simp_all
  moreover assume "\<forall>f \<in> set (slots mh). is_live f \<longrightarrow> printable f"
  ultimately show ?thesis by (simp add: mime_hdr_length_get_def header_text_def slots_def CRLF_def)
qed

end
