(* ===== verification/MimeTextSpec.thy ===== *)
theory MimeTextSpec
  imports MimePrintSpec
begin

text \<open>
  What the parser leaves in a header is the list of the fields of the text, as a plain description of the text by
  lines gives it; the text that the printer writes for a header is read back as the same fields.
\<close>

section \<open>The fields of a text\<close>

text \<open>A field ends with a line feed that is not followed by a space or tab.\<close>

fun field_line :: "bytes \<Rightarrow> (bytes \<times> bytes) option" where
  "field_line [] = None"
| "field_line (c # r) =
     (if c = CHAR_LF \<and> (r = [] \<or> \<not> is_ws (hd r)) then (if r = [] then None else Some ([c], r))
      else map_option (\<lambda>(l, s). (c # l, s)) (field_line r))"

fun is_field_line :: "bytes \<Rightarrow> bool" where
  "is_field_line [] \<longleftrightarrow> False"
| "is_field_line (c # r) \<longleftrightarrow> (if r = [] then c = CHAR_LF else (c = CHAR_LF \<longrightarrow> is_ws (hd r)) \<and> is_field_line r)"

lemma field_line_Some:
  "field_line inp = Some (l, r) \<longleftrightarrow> inp = l @ r \<and> is_field_line l \<and> r \<noteq> [] \<and> \<not> is_ws (hd r)"
proof (induction inp arbitrary: l)
  case Nil
  then show ?case by auto
next
  case (Cons c s)
  show ?case
  proof (cases "c = CHAR_LF \<and> (s = [] \<or> \<not> is_ws (hd s))")
    case True
    then show ?thesis by (cases l) (auto split: if_splits simp: hd_append)
  next
    case False
    show ?thesis
    proof (cases l)
      case Nil
      then show ?thesis using False by auto
    next
      case (Cons d l')
      have "field_line (c # s) = Some (l, r) \<longleftrightarrow> c = d \<and> field_line s = Some (l', r)" using False Cons by auto
      also have "\<dots> \<longleftrightarrow> c = d \<and> s = l' @ r \<and> is_field_line l' \<and> r \<noteq> [] \<and> \<not> is_ws (hd r)" unfolding Cons.IH by simp
      also have "\<dots> \<longleftrightarrow> c # s = l @ r \<and> is_field_line l \<and> r \<noteq> [] \<and> \<not> is_ws (hd r)" using False Cons
        by (cases l') auto
      finally show ?thesis .
    qed
  qed
qed

definition ends_header :: "bytes \<Rightarrow> bytes option" where
  "ends_header inp =
     (if take 2 inp = CRLF then Some (drop 2 inp) else if take 1 inp = [CHAR_LF] then Some (drop 1 inp) else None)"

text \<open>The fields of a text as lines with names and values, the result and what is left.\<close>

type_synonym text_field = "bytes \<times> bytes \<times> bytes"

function text_fields :: "bytes \<Rightarrow> text_field list \<times> mime_parse_result \<times> bytes" where
  "text_fields inp =
     (case ends_header inp of
        Some rest \<Rightarrow> ([], PARSE_DONE, rest)
      | None \<Rightarrow>
          (case field_line inp of
             None \<Rightarrow> ([], PARSE_CONT, [])
           | Some (line, rest) \<Rightarrow>
               (case parse_line line of
                  Header_end \<Rightarrow> ([], PARSE_DONE, rest)
                | Garbage \<Rightarrow> text_fields rest
                | Too_long \<Rightarrow> ([], PARSE_ERROR, rest)
                | Name_value name v \<Rightarrow> (case text_fields rest of (l, z, r) \<Rightarrow> ((line, name, v) # l, z, r)))))"
  by pat_completeness auto
termination
proof (relation "measure length", goal_cases)
  case (2 inp x line rest)
  then show ?case using field_line_Some [of inp line rest] by (cases line) auto
next
  case (3 inp x line rest)
  then show ?case using field_line_Some [of inp line rest] by (cases line) auto
qed simp

declare text_fields.simps [simp del]

section \<open>The parser reads the fields of the text\<close>

definition parsed_field :: "hdr_tokens \<Rightarrow> text_field \<Rightarrow> mime_field" where
  "parsed_field T p =
     (case p of (line, name, v) \<Rightarrow>
        let pad = length line - (length name + length v); w = hdrtoken_tokenize T (Text name);
            ok = (length name + length v \<le> length line \<and> pad \<le> 7)
        in mime_field_init\<lparr>m_wks_idx := w, m_name := name, m_value := Some v, m_raw_printable := ok,
             m_raw_pad := (if ok then pad else 0), m_raw := line, m_readiness := LIVE,
             m_cooked := (w = MIME_WKSIDX_CACHE_CONTROL T \<or> w = MIME_WKSIDX_PRAGMA T)\<rparr>)"

lemma parse_field_ok:
  assumes T: "tokens_ok T" and ok: "hdr_ok T mh" and s: "honest T name" "length name < 65535" "length v < 65535"
  shows "\<exists>mh'. parse_field T line name v mh = Some mh' \<and> hdr_ok T mh' \<and> skel (slots mh @ [parsed_field T (line, name, v)]) (slots mh')"
proof -
  obtain mh1 n where c: "mime_field_create mh = (mh1, n)" by (cases "mime_field_create mh")
  note k = create_ok [OF ok c]
  have n: "n < length (slots mh1)" "slots mh1 ! n = mime_field_init" using k by simp_all
  let ?w = "hdrtoken_tokenize T (Text name)" and ?pad = "length line - (length name + length v)"
  let ?ok = "True \<and> length name + length v \<le> length line \<and> ?pad \<le> 7"
  let ?g = "\<lambda>g :: mime_field. g\<lparr>m_wks_idx := ?w, m_name := take (length name mod 2 ^ 16) name,
                  m_value := Some (take (length v mod 2 ^ 24) v),
                  m_raw_printable := ?ok, m_raw_pad := (if ?ok then ?pad else m_raw_pad g), m_raw := line,
                  m_cooked := (m_cooked g \<or> ?w = MIME_WKSIDX_CACHE_CONTROL T \<or> ?w = MIME_WKSIDX_PRAGMA T)\<rparr>"
  have i: "m_readiness mime_field_init = DETACHED" "\<not> m_cooked mime_field_init" "m_raw_pad mime_field_init = 0"
    by (simp_all add: mime_field_init_def)
  have l: "length name mod 2 ^ 16 = length name" "length v mod 2 ^ 24 = length v"
    "length name mod 65536 = length name" "length v mod 16777216 = length v" using s by simp_all
  let ?m = "upd_fld n ?g mh1" and ?f = "(parsed_field T (line, name, v))\<lparr>m_readiness := DETACHED\<rparr>"
  have g: "?g mime_field_init = ?f" by (simp add: parsed_field_def Let_def l i mime_field_init_def)
  have u: "hdr_ok T ?m" "slots ?m = slots mh @ [?f]"
  proof -
    show "hdr_ok T ?m" by (rule upd_ok(1) [OF k(1) n(1)]) (simp_all add: n(2) i)
    have "slots ?m = (slots mh1)[n := ?g (slots mh1 ! n)]" by (rule upd_ok(2) [OF k(1) n(1)]) (simp_all add: n(2) i)
    then show "slots ?m = slots mh @ [?f]" unfolding n(2) g using k(2,3) by simp
  qed
  have n': "n < length (slots ?m)" "slots ?m ! n = ?f" using u(2) k(2) by simp_all
  have sh: "shape ?m" using u(1) by (simp add: hdr_ok_def)
  have "fld ?m n = ?f" using fld_slots [OF sh n'(1)] n'(2) by simp
  then have set: "mime_field_name_value_set T n ?w name v True line mh1 = Some ?m"
    unfolding mime_field_name_value_set_def Let_def by simp
  have kn: "known T ?f" "m_readiness ?f = DETACHED" using s(1) by (simp_all add: known_def parsed_field_def Let_def)
  have ord: "in_order (slots ?m) n" unfolding in_order_def using u(2) k(2) by auto
  obtain mh2 where mh2: "mime_hdr_field_attach T n True None ?m = Some mh2" "hdr_ok T mh2"
    "skel ((slots ?m)[n := (slots ?m ! n)\<lparr>m_readiness := LIVE\<rparr>]) (slots mh2)"
    using attach_ok [OF T u(1) n'(1) _ _ ord, of True None] n'(2) kn by auto
  have "?f\<lparr>m_readiness := LIVE\<rparr> = parsed_field T (line, name, v)" by (simp add: parsed_field_def Let_def mime_field_init_def)
  then have "(slots ?m)[n := (slots ?m ! n)\<lparr>m_readiness := LIVE\<rparr>] = slots mh @ [parsed_field T (line, name, v)]"
    using n'(2) u(2) k(2) by simp
  then show ?thesis using mh2 c set by (simp add: parse_field_def)
qed

lemma parse_line_lengths: "parse_line line = Name_value name v \<Longrightarrow> length name < 65535 \<and> length v < 65535"
  by (auto simp: parse_line_def Let_def split: if_splits)

lemma skel_append: "skel xs ys \<Longrightarrow> skel (xs @ us) (ys @ us)"
  by (auto simp: skel_def nth_append)

lemma feed_line:
  "feed T MIME_PARSE_INSIDE acc inp mh =
     (case field_line inp of
        None \<Rightarrow> Some (PARSE_CONT, if inp \<noteq> [] \<and> last inp = CHAR_LF then MIME_PARSE_AFTER else MIME_PARSE_INSIDE, acc @ inp, [], mh)
      | Some (l, r) \<Rightarrow>
          (case take_line T (acc @ l) mh of
             None \<Rightarrow> None
           | Some (Some z, mh') \<Rightarrow> Some (z, MIME_PARSE_BEFORE, [], r, mh')
           | Some (None, mh') \<Rightarrow> feed T MIME_PARSE_BEFORE [] r mh'))"
proof (induction inp arbitrary: acc)
  case (Cons c r)
  show ?case
  proof (cases "c = CHAR_LF")
    case True
    show ?thesis
    proof (cases r)
      case Nil
      then show ?thesis using True by (simp add: feed_step)
    next
      case r: (Cons d s)
      show ?thesis
      proof (cases "is_ws d")
        case True
        have "feed T MIME_PARSE_INSIDE acc (c # r) mh = feed T MIME_PARSE_INSIDE (acc @ [c]) r mh"
          using \<open>c = CHAR_LF\<close> r feed_reconsider(3) [OF True] by (simp add: feed_step [of T MIME_PARSE_INSIDE])
        then show ?thesis using Cons.IH [of "acc @ [c]"] True r by (auto split: option.split)
      next
        case False
        then show ?thesis using \<open>c = CHAR_LF\<close> r by (simp add: feed_step [of T MIME_PARSE_INSIDE] feed_step [of T MIME_PARSE_AFTER])
      qed
    qed
  next
    case False
    then have "feed T MIME_PARSE_INSIDE acc (c # r) mh = feed T MIME_PARSE_INSIDE (acc @ [c]) r mh" by (simp add: feed_step)
    then show ?thesis using Cons.IH [of "acc @ [c]"] False by (cases "r = []") (auto split: option.split)
  qed
qed simp

text \<open>A line that begins with a carriage return is of no use, however often that is repeated.\<close>

lemma CR_no_token: "\<not> is_cls C_token CHAR_CR" "CHAR_CR \<noteq> AT_SIGN" "\<not> is_ws CHAR_CR" "\<not> is_ws CHAR_LF"
  by (simp_all add: is_cls_iff is_token0_def is_ctl0_def is_char0_def is_ws0_def CHAR_CR_def CHAR_SP_def CHAR_HT_def CHAR_LF_def AT_SIGN_def)

lemma garbage_CR: "line = CHAR_CR # s \<Longrightarrow> s \<noteq> [] \<Longrightarrow> hd s \<noteq> CHAR_LF \<Longrightarrow> parse_line line = Garbage"
  using CR_no_token by (cases s) (auto simp: parse_line_def CHAR_CR_def CHAR_LF_def)

lemma feed_field:
  assumes "ends_header inp = None" "field_line inp = Some (line, rest)"
  shows "feed T MIME_PARSE_BEFORE [] inp mh =
    (case take_line T line mh of
       None \<Rightarrow> None
     | Some (Some z, mh') \<Rightarrow> Some (z, MIME_PARSE_BEFORE, [], rest, mh')
     | Some (None, mh') \<Rightarrow> feed T MIME_PARSE_BEFORE [] rest mh')"
proof -
  obtain c s where i: "inp = c # s" using assms(2) by (cases inp) auto
  have lf: "c \<noteq> CHAR_LF" using assms(1) i by (auto simp: ends_header_def split: if_splits)
  show ?thesis
  proof (cases "c = CHAR_CR")
    case False
    then have "feed T MIME_PARSE_BEFORE [] inp mh = feed T MIME_PARSE_INSIDE [] inp mh" unfolding i by (rule feed_reconsider(1) [OF lf])
    then show ?thesis unfolding feed_line assms(2) by simp
  next
    case True
    have "s \<noteq> []" using assms(2) i True by (auto simp: CHAR_CR_def CHAR_LF_def)
    then obtain d s' where s: "s = d # s'" by (cases s) auto
    have d: "d \<noteq> CHAR_LF" using assms(1) i s True by (auto simp: ends_header_def CRLF_def split: if_splits)
    obtain l where l: "field_line s = Some (l, rest)" "line = CHAR_CR # l" using assms(2) i True
      by (auto simp: CHAR_CR_def CHAR_LF_def split: if_splits)
    have ls: "l \<noteq> []" "hd l = d" using l(1) s field_line_Some [of s l rest] by (cases l; auto)+
    have "feed T MIME_PARSE_BEFORE [] inp mh = feed T MIME_PARSE_INSIDE [CHAR_CR, CHAR_CR] s mh"
      using i s True lf d feed_reconsider(2) [OF d] by (simp add: feed_step [of T MIME_PARSE_BEFORE])
    also have "\<dots> = feed T MIME_PARSE_BEFORE [] rest mh"
      using l(1) garbage_CR [OF refl, of "CHAR_CR # l"] by (simp add: feed_line take_line_def CHAR_CR_def CHAR_LF_def)
    finally show ?thesis using garbage_CR [OF l(2) ls(1)] ls(2) d by (simp add: take_line_def)
  qed
qed

lemma feed_text:
  assumes T: "tokens_ok T"
  shows "hdr_ok T mh \<Longrightarrow> text_fields inp = (l, z, rest) \<Longrightarrow> \<forall>(line, name, v) \<in> set l. honest T name \<Longrightarrow>
    \<exists>st acc mh'. feed T MIME_PARSE_BEFORE [] inp mh = Some (z, st, acc, rest, mh') \<and> hdr_ok T mh' \<and>
      skel (slots mh @ map (parsed_field T) l) (slots mh')"
proof (induction inp arbitrary: mh l z rest rule: text_fields.induct)
  case (1 inp)
  show ?case
  proof (cases "ends_header inp")
    case (Some r)
    have e: "l = []" "z = PARSE_DONE" "rest = r" using 1(4) Some by (simp_all add: text_fields.simps [of inp])
    have "feed T MIME_PARSE_BEFORE [] inp mh = Some (PARSE_DONE, MIME_PARSE_BEFORE, [], r, mh)"
      using Some by (cases inp rule: remdups_adj.cases)
        (auto simp: ends_header_def CRLF_def feed_step CHAR_CR_def CHAR_LF_def split: if_splits)
    then show ?thesis using e 1(3) by simp
  next
    case None
    note eh = None
    show ?thesis
    proof (cases "field_line inp")
      case None
      have e: "l = []" "z = PARSE_CONT" "rest = []" using 1(4) None eh by (simp_all add: text_fields.simps [of inp])
      have "\<exists>st acc. feed T MIME_PARSE_BEFORE [] inp mh = Some (PARSE_CONT, st, acc, [], mh)"
      proof (cases inp)
        case (Cons c s)
        have lf: "c \<noteq> CHAR_LF" using eh Cons by (auto simp: ends_header_def split: if_splits)
        show ?thesis
        proof (cases "c = CHAR_CR")
          case False
          then have "feed T MIME_PARSE_BEFORE [] inp mh = feed T MIME_PARSE_INSIDE [] inp mh" unfolding Cons
            by (rule feed_reconsider(1) [OF lf])
          then show ?thesis unfolding feed_line None by simp
        next
          case True
          have b: "feed T MIME_PARSE_BEFORE [] inp mh = feed T MIME_PARSE_FOUND_CR [CHAR_CR] s mh" using Cons True lf by (simp add: feed_step)
          show ?thesis
          proof (cases s)
            case s: (Cons d s')
            have d: "d \<noteq> CHAR_LF" using eh Cons s True by (auto simp: ends_header_def CRLF_def split: if_splits)
            have "field_line s = None" using None Cons True by (auto simp: CHAR_CR_def CHAR_LF_def split: if_splits)
            then show ?thesis using b s feed_reconsider(2) [OF d] by (auto simp: feed_line)
          qed (simp add: b)
        qed
      qed simp
      then show ?thesis using e 1(3) by auto
    next
      case (Some p)
      obtain line r where p: "p = (line, r)" by (cases p)
      note fl = Some [unfolded p]
      note f = feed_field [OF eh fl, of T mh]
      note t = 1(4) [unfolded text_fields.simps [of inp], unfolded eh fl, simplified]
      show ?thesis
      proof (cases "parse_line line")
        case Header_end
        then show ?thesis using f t 1(3) by (auto simp: take_line_def)
      next
        case Garbage
        then show ?thesis using f t 1(1) [OF eh fl refl Garbage 1(3) _ 1(5)] by (simp add: take_line_def)
      next
        case Too_long
        then show ?thesis using f t 1(3) by (auto simp: take_line_def)
      next
        case (Name_value name v)
        obtain l' where l': "text_fields r = (l', z, rest)" "l = (line, name, v) # l'" using t Name_value
          by (auto split: prod.splits)
        have h: "honest T name" "\<forall>(line, name, v) \<in> set l'. honest T name" using 1(5) l'(2) by simp_all
        obtain mh1 where mh1: "parse_field T line name v mh = Some mh1" "hdr_ok T mh1"
          "skel (slots mh @ [parsed_field T (line, name, v)]) (slots mh1)"
          using parse_field_ok [OF T 1(3) h(1)] parse_line_lengths [OF Name_value] by blast
        obtain st acc mh' where r: "feed T MIME_PARSE_BEFORE [] r mh1 = Some (z, st, acc, rest, mh')" "hdr_ok T mh'"
          "skel (slots mh1 @ map (parsed_field T) l') (slots mh')"
          using 1(2) [OF eh fl refl Name_value mh1(2) l'(1) h(2)] by blast
        have "skel (slots mh @ map (parsed_field T) l) (slots mh')"
          using skel_trans [OF skel_append [OF mh1(3), of "map (parsed_field T) l'"] r(3)] l'(2) by simp
        then show ?thesis using f Name_value mh1(1) r(1,2) by (simp add: take_line_def)
      qed
    qed
  qed
qed

definition as_field :: "text_field \<Rightarrow> bytes \<times> bytes option" where
  "as_field p = (case p of (line, name, v) \<Rightarrow> (name, Some v))"

lemma parsed_live: "live_list (map (parsed_field T) l) = map as_field l"
  by (induction l) (auto simp: parsed_field_def as_field_def name_value_def Let_def)

lemma parse_text:
  assumes "tokens_ok T" "hdr_ok T mh" "text_fields inp = (l, z, rest)" "\<forall>(line, name, v) \<in> set l. honest T name"
  shows "\<exists>S mh'. mime_parser_parse T False mime_scanner_init inp mh = Some (z, S, rest, mh') \<and> hdr_ok T mh' \<and>
    skel (slots mh @ map (parsed_field T) l) (slots mh') \<and> live_fields mh' = live_fields mh @ map as_field l"
proof -
  obtain st acc mh' where f: "feed T MIME_PARSE_BEFORE [] inp mh = Some (z, st, acc, rest, mh')" "hdr_ok T mh'"
    "skel (slots mh @ map (parsed_field T) l) (slots mh')" using feed_text [OF assms] by blast
  have "scanner_ok mime_scanner_init" by (simp add: scanner_ok_def mime_scanner_init_def)
  then have v: "map_option view (mime_parser_parse T False mime_scanner_init inp mh) = Some (z, st, acc, rest, mh')"
    using parse_feed f(1) by (simp add: mime_scanner_init_def)
  then obtain S where "mime_parser_parse T False mime_scanner_init inp mh = Some (z, S, rest, mh')"
    by (cases "mime_parser_parse T False mime_scanner_init inp mh") auto
  moreover have "live_fields mh' = live_fields mh @ map as_field l"
    using skel_live_list [OF f(3)] by (simp add: live_fields_def parsed_live)
  ultimately show ?thesis using f by blast
qed

section \<open>Reading what was printed\<close>

text \<open>The field that the text of a field is read as.\<close>

definition reads_back :: "mime_field \<Rightarrow> bool" where
  "reads_back f \<longleftrightarrow> is_field_line (field_text f) \<and> m_value f \<noteq> None \<and>
     parse_line (field_text f) = Name_value (m_name f) (value_bytes f)"

definition shown :: "mime_field \<Rightarrow> bool" where
  "shown f \<longleftrightarrow> is_live f \<and> hd (m_name f) \<noteq> AT_SIGN"

definition read_as :: "mime_field \<Rightarrow> text_field" where
  "read_as f = (field_text f, m_name f, value_bytes f)"

lemma parse_line_first:
  assumes "parse_line t = Name_value n v"
  shows "ends_header (t @ x) = None" "\<not> is_ws (hd t)"
proof -
  have h: "\<not> (length t \<ge> 2 \<and> t ! 0 = CHAR_CR \<and> t ! 1 = CHAR_LF)" "\<not> (length t \<ge> 1 \<and> t ! 0 = CHAR_LF)"
      "is_cls C_token (t ! 0) \<or> t ! 0 = AT_SIGN" "COLON \<in> set t"
    using assms by (auto simp: parse_line_def split: if_splits)
  obtain c s where t: "t = c # s" using h(4) by (cases t) auto
  have c: "c \<noteq> CHAR_CR" "c \<noteq> CHAR_LF" using h(3) t CR_no_token
    by (auto simp: is_cls_iff is_token0_def is_ctl0_def is_char0_def CHAR_LF_def AT_SIGN_def)
  then show "ends_header (t @ x) = None" using t by (simp add: ends_header_def CRLF_def)
  show "\<not> is_ws (hd t)" using h(3) t
    by (auto simp: is_cls_iff is_token0_def is_ws0_def is_tspecials0_def is_ctl0_def CHAR_SP_def CHAR_HT_def AT_SIGN_def)
qed

lemma header_text_first: "\<forall>f \<in> set fs. shown f \<longrightarrow> reads_back f \<Longrightarrow> fields_text fs @ CRLF @ y \<noteq> [] \<and> \<not> is_ws (hd (fields_text fs @ CRLF @ y))"
proof (induction fs)
  case Nil
  then show ?case by (simp add: fields_text_def CRLF_def CR_no_token)
next
  case (Cons f fs)
  show ?case
  proof (cases "shown f")
    case True
    then have r: "reads_back f" using Cons.prems by simp
    obtain n v where "parse_line (field_text f) = Name_value n v" using r by (auto simp: reads_back_def)
    moreover have "field_text f \<noteq> []" using r by (auto simp: reads_back_def)
    ultimately show ?thesis using True parse_line_first(2) by (simp add: fields_text_def shown_def)
  next
    case False
    then have "fields_text (f # fs) = fields_text fs" by (auto simp: fields_text_def shown_def field_text_def)
    then show ?thesis using Cons by simp
  qed
qed

lemma text_of_fields:
  "\<forall>f \<in> set fs. shown f \<longrightarrow> reads_back f \<Longrightarrow> text_fields (fields_text fs @ CRLF @ y) = (map read_as (filter shown fs), PARSE_DONE, y)"
proof (induction fs)
  case Nil
  have "ends_header (CRLF @ y) = Some y" by (simp add: ends_header_def CRLF_def)
  then show ?case by (subst text_fields.simps) (simp add: fields_text_def)
next
  case (Cons f fs)
  let ?x = "fields_text fs @ CRLF @ y"
  show ?case
  proof (cases "shown f")
    case True
    then have r: "is_field_line (field_text f)" "parse_line (field_text f) = Name_value (m_name f) (value_bytes f)"
      using Cons.prems by (simp_all add: reads_back_def)
    have e: "fields_text (f # fs) @ CRLF @ y = field_text f @ ?x" using True by (simp add: fields_text_def shown_def)
    have "field_line (field_text f @ ?x) = Some (field_text f, ?x)"
      using r(1) header_text_first [of fs y] Cons.prems unfolding field_line_Some by simp
    then show ?thesis unfolding e using r(2) parse_line_first(1) [OF r(2), of ?x] Cons True
      by (subst text_fields.simps) (simp add: read_as_def)
  next
    case False
    then have "fields_text (f # fs) = fields_text fs" by (auto simp: fields_text_def shown_def field_text_def)
    then show ?thesis using Cons False by simp
  qed
qed

definition visible :: "bytes \<times> bytes option \<Rightarrow> bool" where
  "visible p \<longleftrightarrow> hd (fst p) \<noteq> AT_SIGN"

lemma shown_list: "\<forall>f \<in> set fs. shown f \<longrightarrow> reads_back f \<Longrightarrow> map as_field (map read_as (filter shown fs)) = filter visible (live_list fs)"
  by (induction fs) (auto simp: shown_def as_field_def read_as_def visible_def name_value_def reads_back_def value_bytes_def)

lemma short_line_text:
  assumes "parse_line t = Name_value n v" "length t = length n + length v + p" "p \<le> 7" "hd n \<noteq> AT_SIGN"
  shows "field_text (parsed_field T (t, n, v)) = t"
  using assms by (simp add: field_text_def parsed_field_def Let_def value_bytes_def)

text \<open>A header read back from its text has the same text.\<close>

lemma print_read:
  assumes T: "tokens_ok T" and ok: "hdr_ok T mh" and r: "\<forall>f \<in> set (slots mh). shown f \<longrightarrow> reads_back f"
  shows "\<exists>S mh'. mime_parser_parse T False mime_scanner_init (header_text mh) mime_hdr_init = Some (PARSE_DONE, S, [], mh') \<and>
    live_fields mh' = filter visible (live_fields mh) \<and> skel (map (parsed_field T) (map read_as (filter shown (slots mh)))) (slots mh')"
proof -
  let ?l = "map read_as (filter shown (slots mh))"
  have t: "text_fields (header_text mh) = (?l, PARSE_DONE, [])" using text_of_fields [OF r, of "[]"] by (simp add: header_text_def)
  have "honest T (m_name f)" if f: "f \<in> set (slots mh)" "is_live f" for f
  proof -
    obtain j where j: "j < length (slots mh)" "slots mh ! j = f" using f(1) by (auto simp: in_set_conv_nth)
    have "fields_ok T (slots mh)" using ok by (simp add: hdr_ok_def)
    then have "known T f" using fields_okD(1) j f(2) by blast
    then show ?thesis by (simp add: known_def)
  qed
  then have h: "\<forall>(line, name, v) \<in> set ?l. honest T name" by (auto simp: read_as_def shown_def)
  obtain S mh' where "mime_parser_parse T False mime_scanner_init (header_text mh) mime_hdr_init = Some (PARSE_DONE, S, [], mh')"
    "skel (slots mime_hdr_init @ map (parsed_field T) ?l) (slots mh')" "live_fields mh' = live_fields mime_hdr_init @ map as_field ?l"
    using parse_text [OF T init_ok(1) t h] by blast
  then show ?thesis using shown_list [OF r] by (simp add: init_ok(2) live_fields_def)
qed

section \<open>Names and values that survive\<close>

definition sendable :: "bytes \<Rightarrow> bytes \<Rightarrow> bool" where
  "sendable n v \<longleftrightarrow>
     n \<noteq> [] \<and> (is_cls C_token (hd n) \<or> hd n = AT_SIGN) \<and> COLON \<notin> set n \<and> CHAR_LF \<notin> set n \<and> \<not> mime_is_ws (last n) \<and>
     length n < 65535 \<and> length v < 65535 \<and> (v \<noteq> [] \<longrightarrow> \<not> mime_is_ws (hd v) \<and> \<not> is_wslfcr (last v)) \<and> is_field_line (v @ [CHAR_LF])"

lemma field_line_append:
  "v = [] \<or> last v \<noteq> CHAR_LF \<Longrightarrow> w \<noteq> [] \<Longrightarrow> is_field_line (v @ w) \<longleftrightarrow> is_field_line (v @ [CHAR_LF]) \<and> is_field_line w"
proof (induction v)
  case (Cons c v)
  then show ?case by (cases v) (auto simp: hd_append)
qed simp

lemma field_line_drop: "is_field_line (u @ w) \<Longrightarrow> w \<noteq> [] \<Longrightarrow> is_field_line w"
  by (induction u) (auto split: if_splits)

lemma field_line_plain: "CHAR_LF \<notin> set n \<Longrightarrow> is_field_line w \<Longrightarrow> is_field_line (n @ w)"
  by (induction n) (auto simp: hd_append)

lemma field_line_last: "is_field_line t \<Longrightarrow> t \<noteq> [] \<and> last t = CHAR_LF"
  by (induction t) (auto split: if_splits)

lemma trim_keeps: "s = [] \<or> \<not> P (last s) \<Longrightarrow> trim_right P s = s"
  by (cases s rule: rev_cases) (simp_all add: trim_right_def)

lemma trim_drops: "\<forall>c \<in> set w. P c \<Longrightarrow> trim_right P (s @ w) = trim_right P s"
  by (induction w rule: rev_induct) (simp_all add: trim_right_def flip: append_assoc)

lemma trim_split: "\<exists>w. s = trim_right P s @ w \<and> (\<forall>c \<in> set w. P c) \<and> (trim_right P s \<noteq> [] \<longrightarrow> \<not> P (last (trim_right P s)))"
proof (induction s rule: rev_induct)
  case (snoc c s)
  then obtain w where w: "s = trim_right P s @ w" "\<forall>c \<in> set w. P c" "trim_right P s \<noteq> [] \<longrightarrow> \<not> P (last (trim_right P s))" by blast
  show ?case
  proof (cases "P c")
    case True
    then have "trim_right P (s @ [c]) = trim_right P s" by (simp add: trim_right_def)
    then show ?thesis using w True by (intro exI [of _ "w @ [c]"]) auto
  next
    case False
    then show ?thesis by (intro exI [of _ "[]"]) (simp add: trim_right_def)
  qed
qed (simp add: trim_right_def)

lemma sep_bytes:
  "is_wslfcr CHAR_CR" "is_wslfcr CHAR_LF" "mime_is_ws CHAR_SP" "\<not> mime_is_ws CHAR_CR" "COLON \<noteq> CHAR_LF" "is_wslfcr c \<or> c \<noteq> CHAR_LF"
  "is_ws c \<longleftrightarrow> mime_is_ws c" "COLON \<noteq> CHAR_CR" "mime_is_ws c \<Longrightarrow> is_wslfcr c" "CHAR_CR \<noteq> CHAR_LF"
  by (auto simp: is_cls_iff is_wslfcr0_def is_splf0_def is_spcr0_def is_ws0_def mime_is_ws_def CHAR_CR_def CHAR_LF_def CHAR_SP_def
      CHAR_HT_def COLON_def)

lemma token_first: "is_cls C_token c \<or> c = AT_SIGN \<Longrightarrow> c \<noteq> CHAR_CR \<and> c \<noteq> CHAR_LF \<and> \<not> mime_is_ws c \<and> c \<noteq> COLON"
  by (auto simp: is_cls_iff is_token0_def is_ws0_def is_tspecials0_def is_ctl0_def is_char0_def mime_is_ws_def CHAR_CR_def CHAR_LF_def
      CHAR_SP_def CHAR_HT_def AT_SIGN_def COLON_def chars_def)

lemma sendable_reads:
  assumes "sendable n v"
  shows "is_field_line (n @ [COLON, CHAR_SP] @ v @ CRLF)" "parse_line (n @ [COLON, CHAR_SP] @ v @ CRLF) = Name_value n v"
proof -
  note s = assms [unfolded sendable_def]
  obtain c n' where n: "n = c # n'" using s by (cases n) auto
  have c: "is_cls C_token c \<or> c = AT_SIGN" using s n by simp
  note cf = token_first [OF c]
  have "v = [] \<or> last v \<noteq> CHAR_LF" using s sep_bytes(6) by metis
  then have "is_field_line (v @ CRLF)" using s field_line_append [of v CRLF] by (auto simp: CRLF_def sep_bytes)
  then have "is_field_line ([COLON, CHAR_SP] @ (v @ CRLF))"
    by (rule field_line_plain [rotated]) (simp add: COLON_def CHAR_SP_def CHAR_LF_def)
  then have "is_field_line (n @ [COLON, CHAR_SP] @ (v @ CRLF))" by (rule field_line_plain [rotated]) (use s in simp)
  then show "is_field_line (n @ [COLON, CHAR_SP] @ v @ CRLF)" by simp
  let ?t = "n @ [COLON, CHAR_SP] @ v @ CRLF"
  have nc: "\<forall>d \<in> set n. d \<noteq> COLON" using s by blast
  have tw: "takeWhile (\<lambda>d. d \<noteq> COLON) ?t = n" "dropWhile (\<lambda>d. d \<noteq> COLON) ?t = COLON # CHAR_SP # v @ CRLF"
    using nc by (simp_all add: takeWhile_append2 dropWhile_append2)
  have tn: "trim_right mime_is_ws n = n" by (rule trim_keeps) (use s in simp)
  have dv: "dropWhile mime_is_ws (CHAR_SP # v @ CRLF) = v @ CRLF" using s by (cases v) (auto simp: sep_bytes CRLF_def)
  have "trim_right is_wslfcr (v @ CRLF) = trim_right is_wslfcr v" by (rule trim_drops) (simp add: CRLF_def sep_bytes)
  also have "\<dots> = v" by (rule trim_keeps) (use s in auto)
  finally have tv: "trim_right is_wslfcr (v @ CRLF) = v" .
  show "parse_line ?t = Name_value n v" unfolding parse_line_def tw Let_def list.sel tn dv tv
    using c cf s n by (auto simp: CRLF_def)
qed

lemma parsed_sendable:
  assumes "is_field_line t" "parse_line t = Name_value n v" "CHAR_LF \<notin> set n"
  shows "sendable n v"
proof -
  let ?a = "takeWhile (\<lambda>c. c \<noteq> COLON) t" and ?b = "tl (dropWhile (\<lambda>c. c \<noteq> COLON) t)"
  have p: "is_cls C_token (t ! 0) \<or> t ! 0 = AT_SIGN" "COLON \<in> set t" "n = trim_right mime_is_ws ?a"
    "v = trim_right is_wslfcr (dropWhile mime_is_ws ?b)" "length n < 65535" "length v < 65535"
    using assms(2) by (auto simp: parse_line_def Let_def split: if_splits)
  have sp: "t = ?a @ COLON # ?b" by (rule split_at_first [OF p(2)])
  obtain c t' where t: "t = c # t'" using p(2) by (cases t) auto
  have c: "is_cls C_token c \<or> c = AT_SIGN" using p(1) t by simp
  note cf = token_first [OF c]
  obtain w where w: "?a = n @ w" "\<forall>d \<in> set w. mime_is_ws d" "n \<noteq> [] \<longrightarrow> \<not> mime_is_ws (last n)"
    using trim_split [of ?a mime_is_ws] unfolding p(3) by blast
  have a: "?a = c # takeWhile (\<lambda>c. c \<noteq> COLON) t'" using t cf by simp
  have n: "n \<noteq> []" "hd n = c" using w a cf by (cases n; auto)+
  have nc: "COLON \<notin> set n"
  proof
    assume "COLON \<in> set n"
    then have "COLON \<in> set (n @ w)" by simp
    then have "COLON \<in> set ?a" by (simp only: w(1))
    then show False using set_takeWhileD [of COLON "\<lambda>c. c \<noteq> COLON" t] by simp
  qed
  obtain x where x: "dropWhile mime_is_ws ?b = v @ x" "\<forall>d \<in> set x. is_wslfcr d" "v \<noteq> [] \<longrightarrow> \<not> is_wslfcr (last v)"
    using trim_split [of "dropWhile mime_is_ws ?b" is_wslfcr] unfolding p(4) by blast
  have hv: "v \<noteq> [] \<longrightarrow> \<not> mime_is_ws (hd v)"
  proof
    assume "v \<noteq> []"
    then have "dropWhile mime_is_ws ?b \<noteq> []" "hd (dropWhile mime_is_ws ?b) = hd v" using x(1) by simp_all
    then show "\<not> mime_is_ws (hd v)" using hd_dropWhile [of mime_is_ws ?b] by simp
  qed
  have lv: "v = [] \<or> last v \<noteq> CHAR_LF" using x(3) sep_bytes(2) by auto
  have "?b = takeWhile mime_is_ws ?b @ v @ x" using x(1) takeWhile_dropWhile_id [of mime_is_ws ?b] by simp
  then have tt: "t = (?a @ COLON # takeWhile mime_is_ws ?b @ v) @ x" using sp by simp
  have "last t = CHAR_LF" using field_line_last [OF assms(1)] by simp
  have xn: "x \<noteq> []"
  proof
    assume x0: "x = []"
    then have b: "t = (?a @ [COLON] @ takeWhile mime_is_ws ?b) @ v" using tt by simp
    show False
    proof (cases "v = []")
      case True
      then have "t = ?a @ COLON # takeWhile mime_is_ws ?b" using b by simp
      then have "last t = last (COLON # takeWhile mime_is_ws ?b)" by (metis last_appendR list.discI)
      then have "last t \<in> set (COLON # takeWhile mime_is_ws ?b)" using last_in_set [of "COLON # takeWhile mime_is_ws ?b"] by simp
      then have "last t = COLON \<or> mime_is_ws (last t)" by (auto dest: set_takeWhileD)
      then show False using \<open>last t = CHAR_LF\<close> by (auto simp: mime_is_ws_def CHAR_SP_def CHAR_HT_def CHAR_LF_def COLON_def)
    next
      case False
      then have "last t = last v" using b by (metis last_appendR)
      then show False using lv False \<open>last t = CHAR_LF\<close> by simp
    qed
  qed
  have "t = (?a @ COLON # takeWhile mime_is_ws ?b) @ (v @ x)" using tt by simp
  then have "is_field_line (v @ x)" using assms(1) xn field_line_drop [of "?a @ COLON # takeWhile mime_is_ws ?b" "v @ x"] by simp
  then have "is_field_line (v @ [CHAR_LF])" using field_line_append [OF lv xn] by simp
  then show ?thesis using n c nc assms(3) w(3) p(5,6) hv x(3) by (simp add: sendable_def)
qed

text \<open>The fields that the parser makes and the printed form of fields without a line of their own are read back.\<close>

lemma parsed_reads_back:
  assumes "is_field_line t" "parse_line t = Name_value n v" "CHAR_LF \<notin> set n" "hd n \<noteq> AT_SIGN"
  shows "reads_back (parsed_field T (t, n, v))" "\<exists>p \<le> 7. length (field_text (parsed_field T (t, n, v))) = length n + length v + p"
proof -
  let ?f = "parsed_field T (t, n, v)"
  note s = sendable_reads [OF parsed_sendable [OF assms(1-3)]]
  have f: "m_name ?f = n" "m_value ?f = Some v" "value_bytes ?f = v" by (simp_all add: parsed_field_def Let_def value_bytes_def)
  have "reads_back ?f \<and> (\<exists>p \<le> 7. length (field_text ?f) = length n + length v + p)"
  proof (cases "m_raw_printable ?f")
    case True
    then have l: "length n + length v \<le> length t" "length t - (length n + length v) \<le> 7"
      by (simp_all add: parsed_field_def Let_def split: if_splits)
    then have "field_text ?f = t" using assms(4) by (simp add: field_text_def parsed_field_def Let_def value_bytes_def)
    then show ?thesis
      using assms(1,2) f l by (auto simp: reads_back_def intro: exI [of _ "length t - (length n + length v)"])
  next
    case False
    then have "field_text ?f = n @ [COLON, CHAR_SP] @ v @ CRLF" using assms(4) f by (simp add: field_text_def)
    then show ?thesis
      using s f by (auto simp: reads_back_def CRLF_def intro: exI [of _ 4])
  qed
  then show "reads_back ?f" "\<exists>p \<le> 7. length (field_text ?f) = length n + length v + p" by blast+
qed

lemma set_reads_back:
  "m_value f \<noteq> None \<Longrightarrow> \<not> m_raw_printable f \<Longrightarrow> sendable (m_name f) (value_bytes f) \<Longrightarrow> hd (m_name f) \<noteq> AT_SIGN \<Longrightarrow> reads_back f"
  using sendable_reads [of "m_name f" "value_bytes f"] by (simp add: reads_back_def field_text_def)

lemma text_fields_lines:
  "text_fields inp = (l, z, rest) \<Longrightarrow> (line, name, v) \<in> set l \<Longrightarrow> is_field_line line \<and> parse_line line = Name_value name v"
proof (induction inp arbitrary: l z rest rule: text_fields.induct)
  case (1 inp)
  note t = 1(3) [unfolded text_fields.simps [of inp]]
  obtain ln r where fl: "ends_header inp = None" "field_line inp = Some (ln, r)" using t 1(4) by (auto split: option.splits)
  note t' = t [unfolded fl, simplified]
  show ?case
  proof (cases "parse_line ln")
    case Garbage
    then show ?thesis using 1(1) [OF fl refl Garbage _ 1(4)] t' by simp
  next
    case (Name_value n' v')
    obtain l' where l': "text_fields r = (l', z, rest)" "l = (ln, n', v') # l'" using t' Name_value by (auto split: prod.splits)
    have "(line, name, v) = (ln, n', v') \<or> (line, name, v) \<in> set l'" using 1(4) l'(2) by auto
    then show ?thesis using 1(2) [OF fl refl Name_value l'(1)] Name_value fl(2) field_line_Some [of inp ln r] by auto
  qed (use t' 1(4) in auto)
qed

lemma parse_line_name: "parse_line t = Name_value n v \<Longrightarrow> n \<noteq> []"
proof -
  assume p: "parse_line t = Name_value n v"
  obtain c s where t: "t = c # s" using p by (cases t) (auto simp: parse_line_def Let_def split: if_splits)
  have c: "is_cls C_token c \<or> c = AT_SIGN" using p t by (auto simp: parse_line_def Let_def split: if_splits)
  note cf = token_first [OF c]
  have "n = trim_right mime_is_ws (c # takeWhile (\<lambda>c. c \<noteq> COLON) s)" using p t cf
    by (auto simp: parse_line_def Let_def split: if_splits)
  then obtain w where "c # takeWhile (\<lambda>c. c \<noteq> COLON) s = n @ w" "\<forall>d \<in> set w. mime_is_ws d" using trim_split by metis
  then show "n \<noteq> []" using cf by (cases n) auto
qed

lemma parsed_printable: "parse_line t = Name_value n v \<Longrightarrow> printable (parsed_field T (t, n, v))"
  using parse_line_name [of t n v] by (auto simp: printable_def parsed_field_def Let_def value_bytes_def mime_field_init_def)

lemma skel_text:
  assumes "skel xs ys"
  shows "fields_text ys = fields_text xs" "(\<forall>f \<in> set xs. is_live f \<longrightarrow> printable f) \<Longrightarrow> f \<in> set ys \<Longrightarrow> is_live f \<Longrightarrow> printable f"
    "(\<forall>f \<in> set xs. shown f \<longrightarrow> reads_back f) \<Longrightarrow> f \<in> set ys \<Longrightarrow> shown f \<Longrightarrow> reads_back f"
    "map read_as (filter shown ys) = map read_as (filter shown xs)"
proof -
  have c: "field_text g = field_text f" "printable g = printable f" "reads_back g = reads_back f" "m_name g = m_name f"
    "value_bytes g = value_bytes f" if "content g = content f" for f g
  proof -
    have e: "m_name g = m_name f" "m_value g = m_value f" "m_raw_printable g = m_raw_printable f" "m_raw_pad g = m_raw_pad f"
      "m_raw g = m_raw f" using that by (simp_all add: content_def)
    then show "field_text g = field_text f" "printable g = printable f" "m_name g = m_name f" "value_bytes g = value_bytes f"
      by (simp_all add: field_text_def printable_def value_bytes_def)
    then show "reads_back g = reads_back f" using e by (simp add: reads_back_def)
  qed
  have r: "list_all2 (\<lambda>f g. content g = content f \<and> m_readiness g = m_readiness f) xs ys"
    using assms by (simp add: skel_def list_all2_conv_all_nth)
  show "fields_text ys = fields_text xs" using r
  proof (induction rule: list_all2_induct)
    case (Cons f xs g ys)
    then show ?case using c(1) [of g f] by (simp add: fields_text_def)
  qed simp
  show "map read_as (filter shown ys) = map read_as (filter shown xs)" using r
  proof (induction rule: list_all2_induct)
    case (Cons f xs g ys)
    then show ?case using c(1,4,5) [of g f] by (simp add: shown_def read_as_def)
  qed simp
  have old: "\<exists>g \<in> set xs. content f = content g \<and> m_readiness f = m_readiness g" if f: "f \<in> set ys" for f
  proof -
    obtain j where j: "j < length ys" "ys ! j = f" using f by (auto simp: in_set_conv_nth)
    then have "j < length xs" "content f = content (xs ! j)" "m_readiness f = m_readiness (xs ! j)" using assms by (auto simp: skel_def)
    then show ?thesis using nth_mem [of j xs] by blast
  qed
  show "printable f" if p: "\<forall>f \<in> set xs. is_live f \<longrightarrow> printable f" and f: "f \<in> set ys" "is_live f"
  proof -
    obtain g where g: "g \<in> set xs" "content f = content g" "m_readiness f = m_readiness g" using old [OF f(1)] by blast
    then show ?thesis using c(2) [OF g(2)] p f(2) by simp
  qed
  show "reads_back f" if p: "\<forall>f \<in> set xs. shown f \<longrightarrow> reads_back f" and f: "f \<in> set ys" "shown f"
  proof -
    obtain g where g: "g \<in> set xs" "content f = content g" "m_readiness f = m_readiness g" using old [OF f(1)] by blast
    then have "shown g" using f(2) c(4) [OF g(2)] by (simp add: shown_def)
    then show ?thesis using c(3) [OF g(2)] p g(1) by simp
  qed
qed

section \<open>An example\<close>

definition sample_line :: bytes where
  "sample_line = chars ''X'' @ [COLON, CHAR_SP] @ chars ''1'' @ CRLF"

lemma sample_sendable: "sendable (chars ''X'') (chars ''1'')"
  by (simp add: sendable_def chars_def is_cls_iff is_token0_def is_char0_def is_ctl0_def is_tspecials0_def is_wslfcr0_def is_splf0_def
      is_spcr0_def is_ws0_def mime_is_ws_def CHAR_SP_def CHAR_HT_def CHAR_CR_def CHAR_LF_def AT_SIGN_def COLON_def)

lemmas sample_reads = sendable_reads [OF sample_sendable, folded sample_line_def]

lemma sample_text: "text_fields (sample_line @ CRLF) = ([(sample_line, chars ''X'', chars ''1'')], PARSE_DONE, [])"
proof -
  have "field_line (sample_line @ CRLF) = Some (sample_line, CRLF)" using sample_reads(1) CR_no_token
    by (simp add: field_line_Some CRLF_def)
  moreover have "text_fields CRLF = ([], PARSE_DONE, [])" by (subst text_fields.simps) (simp add: ends_header_def CRLF_def)
  ultimately show ?thesis using sample_reads(2) parse_line_first(1) [OF sample_reads(2), of CRLF]
    by (subst text_fields.simps) simp
qed

lemma sample_open:
  "\<exists>S. mime_parser_parse T False mime_scanner_init sample_line mh = Some (PARSE_CONT, S, [], mh) \<and>
     m_state S = MIME_PARSE_AFTER \<and> m_line S = sample_line"
proof -
  let ?i = "mime_scanner_init"
  have ok: "scanner_ok ?i" and i: "m_state ?i = MIME_PARSE_BEFORE" "m_line ?i = []" by (simp_all add: scanner_ok_def mime_scanner_init_def)
  obtain c s where t: "sample_line = c # s" by (simp add: sample_line_def chars_def)
  have c: "c \<noteq> CHAR_LF" "c \<noteq> CHAR_CR" using t by (auto simp: sample_line_def chars_def CHAR_LF_def CHAR_CR_def)
  have n: "field_line sample_line = None" using sample_reads(1)
    by (simp add: sample_line_def chars_def CRLF_def COLON_def CHAR_SP_def CHAR_LF_def CHAR_CR_def)
  have "feed T MIME_PARSE_BEFORE [] sample_line mh = feed T MIME_PARSE_INSIDE [] sample_line mh"
    unfolding t by (rule feed_reconsider(1) [OF c])
  also have "\<dots> = Some (PARSE_CONT, MIME_PARSE_AFTER, sample_line, [], mh)"
    using field_line_last [OF sample_reads(1)] by (simp add: feed_line n)
  finally have "map_option view (mime_parser_parse T False ?i sample_line mh) = Some (PARSE_CONT, MIME_PARSE_AFTER, sample_line, [], mh)"
    unfolding parse_feed [OF ok] i .
  then show ?thesis by (cases "mime_parser_parse T False ?i sample_line mh") auto
qed

text \<open>What is printed of a header that was read is read as the same text once more.\<close>

lemma reread_text:
  "\<forall>(t, n, v) \<in> set l. is_field_line t \<and> parse_line t = Name_value n v \<and> CHAR_LF \<notin> set n \<Longrightarrow>
     fields_text (map (parsed_field T) (map read_as (filter shown (map (parsed_field T) l)))) = fields_text (map (parsed_field T) l)"
proof (induction l)
  case (Cons x l)
  obtain t n v where x: "x = (t, n, v)" by (cases x)
  let ?f = "parsed_field T x"
  have e: "is_field_line t" "parse_line t = Name_value n v" "CHAR_LF \<notin> set n" using Cons.prems x by auto
  have ih: "fields_text (map (parsed_field T) (map read_as (filter shown (map (parsed_field T) l)))) = fields_text (map (parsed_field T) l)"
    by (rule Cons.IH) (use Cons.prems in simp)
  have fv: "m_name ?f = n" "value_bytes ?f = v" "is_live ?f" by (simp_all add: x parsed_field_def Let_def value_bytes_def)
  show ?case
  proof (cases "hd n = AT_SIGN")
    case True
    then have "\<not> shown ?f" "field_text ?f = []" by (simp_all add: shown_def field_text_def fv)
    then show ?thesis using ih by (simp add: fields_text_def)
  next
    case False
    note b = parsed_reads_back [OF e False, of T, folded x]
    obtain k where k: "k \<le> 7" "length (field_text ?f) = length n + length v + k" using b(2) by blast
    have "parse_line (field_text ?f) = Name_value n v" using b(1) fv by (simp add: reads_back_def)
    then have s: "field_text (parsed_field T (field_text ?f, n, v)) = field_text ?f"
      using short_line_text [OF _ k(2,1) False] by simp
    have "shown ?f" "read_as ?f = (field_text ?f, n, v)" using fv False by (simp_all add: shown_def read_as_def)
    moreover have "is_live (parsed_field T (field_text ?f, n, v))" by (simp add: parsed_field_def Let_def)
    ultimately show ?thesis using ih s fv(3) by (simp add: fields_text_def)
  qed
qed simp

lemma hdr_print_window:
  assumes "in_buf B" "\<forall>f \<in> set (concat (m_blocks mh)). is_live f \<longrightarrow> printable f"
  shows "mime_hdr_print mh B = Some (window (header_text mh) B)"
  unfolding mime_hdr_print_def print_blocks_window [OF assms] by (simp add: try_window assms(1) mem_print header_text_def slots_def)

lemma hdr_print_fits:
  assumes "p_skip B = 0" "p_index B + length (header_text mh) \<le> length (p_buf B)"
    "\<forall>f \<in> set (concat (m_blocks mh)). is_live f \<longrightarrow> printable f"
  shows "mime_hdr_print mh B =
    Some (True, B\<lparr>p_buf := put_at (p_index B) (header_text mh) (p_buf B), p_index := p_index B + length (header_text mh)\<rparr>)"
proof -
  have b: "in_buf B" and f: "fits (length (header_text mh)) B" using assms(1,2) by (simp_all add: in_buf_def fits_def)
  show ?thesis unfolding hdr_print_window [OF b assms(3)] window_fits [OF b f] by (simp add: put_at_def)
qed

lemma X_example: "hd (chars ''X'') \<noteq> AT_SIGN" "CHAR_LF \<notin> set (chars ''X'')"
  by (simp_all add: chars_def AT_SIGN_def CHAR_LF_def)

section \<open>Properties\<close>

lemma feed_coherent:
  "feed T st acc inp mh = Some (PARSE_CONT, st', acc', rest, mh') \<Longrightarrow>
     (st = MIME_PARSE_BEFORE \<longrightarrow> acc = []) \<Longrightarrow> (st = MIME_PARSE_FOUND_CR \<longrightarrow> acc = [CHAR_CR]) \<Longrightarrow>
     rest = [] \<and> (st' = MIME_PARSE_BEFORE \<longrightarrow> acc' = []) \<and> (st' = MIME_PARSE_FOUND_CR \<longrightarrow> acc' = [CHAR_CR])"
proof (induction T st acc inp mh rule: feed.induct)
  case (2 T st acc c r mh)
  then show ?case
    by (cases st) (auto simp: feed_step dest: take_line_final split: if_splits option.splits)
qed simp

lemma parse_open_ok:
  assumes "scanner_ok S" "mime_parser_parse T False S inp mh = Some (PARSE_CONT, S', rest, mh')"
  shows "scanner_ok S'" "rest = []" "feed T (m_state S) (m_line S) inp mh = Some (PARSE_CONT, m_state S', m_line S', [], mh')"
proof -
  have f: "feed T (m_state S) (m_line S) inp mh = Some (PARSE_CONT, m_state S', m_line S', rest, mh')"
    using parse_feed [OF assms(1), of T inp mh] assms(2) by simp
  note c = feed_coherent [OF f] assms(1) [unfolded scanner_ok_def]
  show "scanner_ok S'" "rest = []" using c by (auto simp: scanner_ok_def)
  then show "feed T (m_state S) (m_line S) inp mh = Some (PARSE_CONT, m_state S', m_line S', [], mh')" using f by simp
qed

text \<open>
  C32. The cuts between the pieces in which the input arrives do not matter: reading \<open>a @ b\<close> in one call gives the same
  result, header and rest as reading \<open>a\<close> and then, when more is wanted, \<open>b\<close>; at the end of all input
  this needs a last piece that is not empty.
\<close>

theorem parse_in_pieces:
  assumes "scanner_ok S" "eof \<longrightarrow> b \<noteq> []"
  shows "map_option view (mime_parser_parse T eof S (a @ b) mh) =
    (case mime_parser_parse T False S a mh of
       None \<Rightarrow> None
     | Some (z, S', rest, mh') \<Rightarrow>
         if z = PARSE_CONT then map_option view (mime_parser_parse T eof S' b mh') else Some (view (z, S', rest @ b, mh')))"
proof -
  have whole: "map_option view (mime_parser_parse T eof S inp mh) =
      Option.bind (feed T (m_state S) (m_line S) inp mh) (if eof then feed_eof T else Some)"
    if "scanner_ok S" "eof \<longrightarrow> inp \<noteq> []" for S inp mh
    using parse_feed_eof [OF that(1), of inp T mh] parse_feed [OF that(1), of T inp mh] that(2) by (cases eof) simp_all
  have fin: "feed_eof T (z, st, acc, r, m) = Some (z, st, acc, r, m)" if "z \<noteq> PARSE_CONT" for z st acc r m
    using that by (simp add: feed_eof_def)
  have p: "map_option view (mime_parser_parse T False S a mh) = feed T (m_state S) (m_line S) a mh" by (rule parse_feed [OF assms(1)])
  show ?thesis
  proof (cases "mime_parser_parse T False S a mh")
    case None
    then show ?thesis using p assms(2) by (subst whole [OF assms(1)]) (auto simp: feed_append)
  next
    case (Some r)
    obtain z S' rest mh' where r: "r = (z, S', rest, mh')" by (cases r)
    show ?thesis
    proof (cases "z = PARSE_CONT")
      case True
      note o = parse_open_ok [OF assms(1) Some [unfolded r True]]
      show ?thesis using Some r True o(3) whole [OF o(1) assms(2)] assms(2)
        by (subst whole [OF assms(1)]) (auto simp: feed_append)
    next
      case False
      then show ?thesis using Some r p [symmetric] fin assms(2)
        by (subst whole [OF assms(1)]) (auto simp: feed_append)
    qed
  qed
qed

lemma parse_in_pieces_witness:
  "scanner_ok mime_scanner_init \<and>
   (\<exists>r. map_option view (mime_parser_parse example_tokens False mime_scanner_init (sample_line @ CRLF) mime_hdr_init) = Some r \<and> fst r = PARSE_DONE \<and>
     (\<exists>S. mime_parser_parse example_tokens False mime_scanner_init sample_line mime_hdr_init = Some (PARSE_CONT, S, [], mime_hdr_init) \<and>
        map_option view (mime_parser_parse example_tokens False S CRLF mime_hdr_init) = Some r))"
proof -
  have ok: "scanner_ok mime_scanner_init" by (simp add: scanner_ok_def mime_scanner_init_def)
  obtain S where S: "mime_parser_parse example_tokens False mime_scanner_init sample_line mime_hdr_init = Some (PARSE_CONT, S, [], mime_hdr_init)"
    using sample_open by blast
  have h: "\<forall>(line, name, v) \<in> set [(sample_line, chars ''X'', chars ''1'')]. honest example_tokens name" using honest_X by simp
  obtain S' mh' where w: "mime_parser_parse example_tokens False mime_scanner_init (sample_line @ CRLF) mime_hdr_init = Some (PARSE_DONE, S', [], mh')"
    using parse_text [OF example_tokens_ok init_ok(1) sample_text h] by blast
  have "map_option view (mime_parser_parse example_tokens False S CRLF mime_hdr_init) = Some (view (PARSE_DONE, S', [], mh'))"
    using w S parse_in_pieces [OF ok, of False CRLF example_tokens sample_line mime_hdr_init] by simp
  then show ?thesis using ok w S by (intro conjI exI [of _ "view (PARSE_DONE, S', [], mh')"] exI [of _ S]) simp_all
qed

text \<open>
  C33. A header is a list for the parser too: it reads exactly the fields that the description of the text by lines gives,
  in their order, stops where that stops, and leaves a well-formed header.
\<close>

theorem parse_reads_fields:
  assumes "tokens_ok T" "hdr_ok T mh" "text_fields inp = (l, z, rest)" "\<forall>(line, name, v) \<in> set l. honest T name"
  shows "\<exists>S mh'. mime_parser_parse T False mime_scanner_init inp mh = Some (z, S, rest, mh') \<and> hdr_ok T mh' \<and>
    live_fields mh' = live_fields mh @ map (\<lambda>(line, name, v). (name, Some v)) l"
  using parse_text [OF assms] by (auto simp: as_field_def)

lemma parse_reads_fields_witness:
  "\<exists>S mh'. mime_parser_parse example_tokens False mime_scanner_init (sample_line @ CRLF) mime_hdr_init = Some (PARSE_DONE, S, [], mh') \<and>
    live_fields mh' = [(chars ''X'', Some (chars ''1''))]"
  using parse_reads_fields [OF example_tokens_ok init_ok(1) sample_text] honest_X by (auto simp: live_fields_def init_ok(2))

text \<open>
  C34. Printing a header into a buffer writes exactly the window of its text that is behind the characters to skip and
  fits, counts what it wrote and what is still to skip, reports whether all fitted, and never writes outside the buffer.
\<close>

theorem print_writes_window:
  assumes "p_index B \<le> length (p_buf B)" "\<forall>f \<in> set (concat (m_blocks mh)). is_live f \<longrightarrow> printable f"
  defines "w \<equiv> take (length (p_buf B) - p_index B) (drop (p_skip B) (header_text mh))"
  shows "mime_hdr_print mh B = Some (length (header_text mh) - p_skip B \<le> length (p_buf B) - p_index B,
    B\<lparr>p_buf := take (p_index B) (p_buf B) @ w @ drop (p_index B + length w) (p_buf B),
      p_index := p_index B + length w, p_skip := p_skip B - length (header_text mh)\<rparr>)"
proof -
  have b: "in_buf B" using assms(1) by (simp add: in_buf_def)
  show ?thesis unfolding hdr_print_window [OF b assms(2)] by (simp only: window_def Let_def w_def)
qed

lemma print_writes_window_witness:
  "let mh = mime_hdr_init\<lparr>m_blocks := [[parsed_field example_tokens (sample_line, chars ''X'', chars ''1'')]]\<rparr>
   in mime_hdr_print mh \<lparr>p_buf = [0, 0, 0, 0, 0], p_index = 1, p_skip = 3\<rparr> =
        Some (False, \<lparr>p_buf = 0 # chars ''1'' @ CRLF @ [CHAR_CR], p_index = 5, p_skip = 0\<rparr>)"
proof -
  let ?f = "parsed_field example_tokens (sample_line, chars ''X'', chars ''1'')" and ?B = "\<lparr>p_buf = [0, 0, 0, 0, 0], p_index = 1, p_skip = 3\<rparr>"
  let ?mh = "mime_hdr_init\<lparr>m_blocks := [[?f]]\<rparr>"
  have p: "printable ?f" "is_live ?f" using parsed_printable [OF sample_reads(2)] by (simp_all add: parsed_field_def Let_def)
  have "field_text ?f = sample_line" using short_line_text [OF sample_reads(2), of 4] X_example by (simp add: sample_line_def chars_def CRLF_def)
  then have t: "header_text ?mh = sample_line @ CRLF" using p(2) by (simp add: header_text_def slots_def fields_text_def)
  show ?thesis using print_writes_window [of ?B ?mh] p(1) unfolding t by (simp add: sample_line_def chars_def CRLF_def numeral_eq_Suc)
qed

text \<open>
  When all input has come but its last call brings no more bytes, a last field whose line end was already read is lost:
  the parser reports the end of the header without it, while the same input read at once gives the field.
\<close>

theorem last_field_lost:
  assumes T: "tokens_ok T" and S: "scanner_ok S" and inp: "inp \<noteq> []"
    and open_: "mime_parser_parse T False S inp mh = Some (PARSE_CONT, S', rest, mh')" "m_state S' = MIME_PARSE_AFTER"
    and l: "parse_line (m_line S') = Name_value name v" "hdr_ok T mh'" "honest T name"
  shows "mime_parser_parse T True S' [] mh' = Some (PARSE_DONE, mime_scanner_init, [], mh') \<and>
    (\<exists>S'' mh''. mime_parser_parse T True S inp mh = Some (PARSE_DONE, S'', [], mh'') \<and> live_fields mh'' = live_fields mh' @ [(name, Some v)])"
proof
  show "mime_parser_parse T True S' [] mh' = Some (PARSE_DONE, mime_scanner_init, [], mh')"
    using parse_empty_eof [of T S' mh'] open_(2) by (simp add: mime_scanner_init_def)
  obtain mh'' where f: "parse_field T (m_line S') name v mh' = Some mh''" "skel (slots mh' @ [parsed_field T (m_line S', name, v)]) (slots mh'')"
    using parse_field_ok [OF T l(2,3)] parse_line_lengths [OF l(1)] by blast
  have "map_option view (mime_parser_parse T True S inp mh) = Some (PARSE_DONE, MIME_PARSE_BEFORE, [], [], mh'')"
    unfolding parse_feed_eof [OF S inp] parse_open_ok(3) [OF S open_(1)] using open_(2) l(1) f(1) by (simp add: feed_eof_def take_line_def)
  then obtain S'' where "mime_parser_parse T True S inp mh = Some (PARSE_DONE, S'', [], mh'')"
    by (cases "mime_parser_parse T True S inp mh") auto
  moreover have "live_fields mh'' = live_fields mh' @ [(name, Some v)]"
    using skel_live_list [OF f(2)] parsed_live [of T "[(m_line S', name, v)]"] by (simp add: live_fields_def as_field_def)
  ultimately show "\<exists>S'' mh''. mime_parser_parse T True S inp mh = Some (PARSE_DONE, S'', [], mh'') \<and>
      live_fields mh'' = live_fields mh' @ [(name, Some v)]" by blast
qed

lemma last_field_lost_witness:
  "\<exists>S. mime_parser_parse example_tokens False mime_scanner_init sample_line mime_hdr_init = Some (PARSE_CONT, S, [], mime_hdr_init) \<and>
    mime_parser_parse example_tokens True S [] mime_hdr_init = Some (PARSE_DONE, mime_scanner_init, [], mime_hdr_init) \<and>
    (\<exists>S'' mh''. mime_parser_parse example_tokens True mime_scanner_init sample_line mime_hdr_init = Some (PARSE_DONE, S'', [], mh'') \<and>
       live_fields mh'' = [(chars ''X'', Some (chars ''1''))])"
proof -
  obtain S where S: "mime_parser_parse example_tokens False mime_scanner_init sample_line mime_hdr_init = Some (PARSE_CONT, S, [], mime_hdr_init)"
    "m_state S = MIME_PARSE_AFTER" "m_line S = sample_line" using sample_open by blast
  have ok: "scanner_ok mime_scanner_init" "sample_line \<noteq> []" by (simp_all add: scanner_ok_def mime_scanner_init_def sample_line_def CRLF_def)
  note r = last_field_lost [OF example_tokens_ok ok S(1,2) _ init_ok(1) honest_X(1), unfolded S(3), OF sample_reads(2)]
  show ?thesis using S(1) r by (auto simp: live_fields_def init_ok(2))
qed

text \<open>
  C35. A header that was read is printed as a text that is read back as the same fields, without those whose name begins
  with \<open>@\<close>, and the header read back has the same text; a name must not contain a line feed.
\<close>

theorem parse_print_parse:
  assumes T: "tokens_ok T" and t: "text_fields inp = (l, PARSE_DONE, rest)"
    and l: "\<forall>(line, name, v) \<in> set l. honest T name \<and> CHAR_LF \<notin> set name"
  shows "\<exists>S mh S' mh'. mime_parser_parse T False mime_scanner_init inp mime_hdr_init = Some (PARSE_DONE, S, rest, mh) \<and>
    (\<forall>B. p_skip B = 0 \<and> p_index B + length (header_text mh) \<le> length (p_buf B) \<longrightarrow>
       mime_hdr_print mh B = Some (True, B\<lparr>p_buf := put_at (p_index B) (header_text mh) (p_buf B), p_index := p_index B + length (header_text mh)\<rparr>)) \<and>
    mime_parser_parse T False mime_scanner_init (header_text mh) mime_hdr_init = Some (PARSE_DONE, S', [], mh') \<and>
    live_fields mh' = filter (\<lambda>(n, v). hd n \<noteq> AT_SIGN) (live_fields mh) \<and> header_text mh' = header_text mh"
proof -
  have h: "\<forall>(line, name, v) \<in> set l. honest T name" using l by auto
  obtain S mh where p: "mime_parser_parse T False mime_scanner_init inp mime_hdr_init = Some (PARSE_DONE, S, rest, mh)" "hdr_ok T mh"
    "skel (map (parsed_field T) l) (slots mh)" using parse_text [OF T init_ok(1) t h] by (auto simp: init_ok(2))
  have each: "is_field_line line \<and> parse_line line = Name_value name v \<and> CHAR_LF \<notin> set name" if "(line, name, v) \<in> set l" for line name v
    using text_fields_lines [OF t that] l that by auto
  have pr: "\<forall>f \<in> set (slots mh). is_live f \<longrightarrow> printable f"
    using skel_text(2) [OF p(3)] each parsed_printable by fastforce
  have m: "m_name (parsed_field T (line, name, v)) = name" for line name v by (simp add: parsed_field_def Let_def)
  have rb: "\<forall>f \<in> set (slots mh). shown f \<longrightarrow> reads_back f"
    using skel_text(3) [OF p(3)] each parsed_reads_back(1) by (fastforce simp: shown_def m)
  obtain S' mh' where q: "mime_parser_parse T False mime_scanner_init (header_text mh) mime_hdr_init = Some (PARSE_DONE, S', [], mh')"
    "live_fields mh' = filter visible (live_fields mh)" "skel (map (parsed_field T) (map read_as (filter shown (slots mh)))) (slots mh')"
    using print_read [OF T p(2) rb] by blast
  have "fields_text (slots mh') = fields_text (map (parsed_field T) (map read_as (filter shown (map (parsed_field T) l))))"
    using skel_text(1) [OF q(3)] skel_text(4) [OF p(3)] by simp
  also have "\<dots> = fields_text (map (parsed_field T) l)" by (rule reread_text) (use each in blast)
  also have "\<dots> = fields_text (slots mh)" using skel_text(1) [OF p(3)] by simp
  finally have same: "header_text mh' = header_text mh" by (simp add: header_text_def)
  have print: "mime_hdr_print mh B = Some (True, B\<lparr>p_buf := put_at (p_index B) (header_text mh) (p_buf B), p_index := p_index B + length (header_text mh)\<rparr>)"
    if "p_skip B = 0 \<and> p_index B + length (header_text mh) \<le> length (p_buf B)" for B
    using that by (intro hdr_print_fits) (use pr in \<open>simp_all add: slots_def\<close>)
  have "filter visible xs = filter (\<lambda>(n, v). hd n \<noteq> AT_SIGN) xs" for xs by (induction xs) (auto simp: visible_def)
  then show ?thesis using p(1) q(1,2) same print by metis
qed

lemma parse_print_parse_witness:
  "\<exists>S mh S' mh'. mime_parser_parse example_tokens False mime_scanner_init (sample_line @ CRLF) mime_hdr_init = Some (PARSE_DONE, S, [], mh) \<and>
    mime_parser_parse example_tokens False mime_scanner_init (header_text mh) mime_hdr_init = Some (PARSE_DONE, S', [], mh') \<and>
    live_fields mh' = filter (\<lambda>(n, v). hd n \<noteq> AT_SIGN) (live_fields mh)"
  using parse_print_parse [OF example_tokens_ok sample_text] honest_X(1) X_example by auto

text \<open>
  Only the first byte of a name is looked at: a line end followed by spaces before the colon becomes part of the name, and
  such a field is printed as two lines that nothing is read from.
\<close>

definition folded_name :: bytes where
  "folded_name = chars ''A'' @ CRLF @ replicate 9 CHAR_SP @ [COLON] @ chars ''b'' @ CRLF"

lemma folded_name_lost:
  "text_fields (folded_name @ CRLF) = ([(folded_name, chars ''A'' @ CRLF, chars ''b'')], PARSE_DONE, []) \<and>
   field_text (parsed_field T (folded_name, chars ''A'' @ CRLF, chars ''b'')) = chars ''A'' @ CRLF @ [COLON, CHAR_SP] @ chars ''b'' @ CRLF \<and>
   text_fields ((chars ''A'' @ CRLF @ [COLON, CHAR_SP] @ chars ''b'' @ CRLF) @ CRLF) = ([], PARSE_DONE, [])"
proof (intro conjI)
  note [simp] = is_cls_iff is_token0_def is_char0_def is_ctl0_def is_tspecials0_def is_wslfcr0_def is_splf0_def
      is_spcr0_def is_ws0_def mime_is_ws_def CHAR_SP_def CHAR_HT_def CHAR_CR_def CHAR_LF_def AT_SIGN_def COLON_def trim_right_def
      ends_header_def parse_line_def
  have b: "CRLF = [13, 10]" "chars ''A'' = [65]" "chars ''b'' = [98]" by (simp_all add: CRLF_def chars_def)
  have t: "folded_name = [65, 13, 10, 32, 32, 32, 32, 32, 32, 32, 32, 32, 58, 98, 13, 10]"
    unfolding folded_name_def b by (simp add: eval_nat_numeral)
  have e: "text_fields [13, 10] = ([], PARSE_DONE, [])" by (subst text_fields.simps) (simp add: b)
  have f: "field_line ([65, 13, 10, 32, 32, 32, 32, 32, 32, 32, 32, 32, 58, 98, 13, 10] @ [13, 10]) =
      Some ([65, 13, 10, 32, 32, 32, 32, 32, 32, 32, 32, 32, 58, 98, 13, 10], [13, 10])" by simp
  have p: "parse_line [65, 13, 10, 32, 32, 32, 32, 32, 32, 32, 32, 32, 58, 98, 13, 10] = Name_value [65, 13, 10] [98]"
    by (simp add: chars_def)
  show "text_fields (folded_name @ CRLF) = ([(folded_name, chars ''A'' @ CRLF, chars ''b'')], PARSE_DONE, [])"
    unfolding t b by (subst text_fields.simps) (simp only: f p e option.case line_kind.case prod.case, simp add: b)
  show "field_text (parsed_field T (folded_name, chars ''A'' @ CRLF, chars ''b'')) = chars ''A'' @ CRLF @ [COLON, CHAR_SP] @ chars ''b'' @ CRLF"
    unfolding t b by (simp add: field_text_def parsed_field_def value_bytes_def mime_field_init_def Let_def b)
  have g: "field_line ([65, 13, 10, 58, 32, 98, 13, 10] @ [13, 10]) = Some ([65, 13, 10], [58, 32, 98, 13, 10] @ [13, 10])"
    "field_line ([58, 32, 98, 13, 10] @ [13, 10]) = Some ([58, 32, 98, 13, 10], [13, 10])" by simp_all
  have k: "parse_line [65, 13, 10] = Garbage" "parse_line [58, 32, 98, 13, 10] = Garbage" by (simp_all add: chars_def)
  have "text_fields ([58, 32, 98, 13, 10] @ [13, 10]) = ([], PARSE_DONE, [])"
    by (subst text_fields.simps) (simp only: g k e option.case line_kind.case prod.case, simp add: b)
  then show "text_fields ((chars ''A'' @ CRLF @ [COLON, CHAR_SP] @ chars ''b'' @ CRLF) @ CRLF) = ([], PARSE_DONE, [])"
    unfolding b by (subst text_fields.simps) (simp add: g k b)
qed

end
