(* ===== verification/HttpCache.thy ===== *)
theory HttpCache
  imports MimeApi
begin

unbundle bit_operations_syntax

text \<open>
  What a transaction decides about the cache (proxy/http/HttpTransact.cc, HttpTransactHeaders.cc): the age of a
  cached response and its freshness limit, whether it may be served, with or without a warning, or must be
  revalidated, whether a request is looked up and a response stored. The headers are those of
  \<open>MimeHdr\<close>. Times are seconds; \<open>int32\<close> and \<open>int64\<close> are the conversions to \<open>int\<close> and \<open>time_t\<close>. Parameters:
  the matching of the date patterns \<open>re\<close>, the random fuzz of the freshness limit, the product with the
  floating point factor of the heuristic. The Via string and the statistics are not modelled.
\<close>

section \<open>State\<close>

definition int64 :: "int \<Rightarrow> int" where
  "int64 i = sint (word_of_int i :: s64)"

abbreviation (input) NUM_SECONDS_IN_ONE_YEAR :: int where
  "NUM_SECONDS_IN_ONE_YEAR \<equiv> 31536000"

abbreviation (input) UNDEFINED_TIME :: int where
  "UNDEFINED_TIME \<equiv> 0"

datatype freshness = FRESHNESS_FRESH | FRESHNESS_WARNING | FRESHNESS_STALE

datatype authentication =
  AUTHENTICATION_SUCCESS | AUTHENTICATION_MUST_REVALIDATE | AUTHENTICATION_MUST_PROXY | AUTHENTICATION_CACHE_AUTH

datatype cache_auth = CACHE_AUTH_NONE | CACHE_AUTH_FRESH | CACHE_AUTH_STALE | CACHE_AUTH_SERVE

datatype cache_lookup_result =
  CACHE_LOOKUP_NONE | CACHE_LOOKUP_MISS | CACHE_LOOKUP_DOC_BUSY | CACHE_LOOKUP_HIT_STALE | CACHE_LOOKUP_HIT_WARNING |
  CACHE_LOOKUP_HIT_FRESH | CACHE_LOOKUP_SKIPPED

datatype range_setup = RANGE_NONE | RANGE_REQUESTED | RANGE_NOT_SATISFIABLE | RANGE_NOT_HANDLED | RANGE_NOT_TRANSFORM_REQUESTED

text \<open>A message: the method or the status, the parts of the URL that are looked at, and the fields. Methods and schemes are indices of well-known strings.\<close>

record http_hdr =
  h_method :: int
  h_status :: int
  u_scheme :: int
  u_path :: "bytes option"
  u_params :: "bytes option"
  u_query :: "bytes option"
  h_fields :: mime_hdr

text \<open>\<open>cache_heuristic_lm\<close> is the integer part of a time multiplied by the factor \<open>cache_heuristic_lm_factor\<close>.\<close>

record txn_conf =
  cache_http :: bool
  cache_urls_that_look_dynamic :: bool
  cache_range_lookup :: bool
  cache_ims_on_client_no_cache :: bool
  cache_ignore_auth :: bool
  cache_responses_to_cookies :: int
  cache_required_headers :: int
  negative_caching_enabled :: bool
  cache_when_to_revalidate :: int
  cache_heuristic_lm :: "int \<Rightarrow> int"
  cache_heuristic_min_lifetime :: int
  cache_heuristic_max_lifetime :: int
  cache_guaranteed_min_lifetime :: int
  cache_guaranteed_max_lifetime :: int
  cache_max_stale_age :: int
  freshness_fuzz_time :: int

record cache_control_result =
  revalidate_after :: int
  ttl_in_cache :: int
  never_cache :: bool
  ignore_client_no_cache :: bool
  ignore_server_no_cache :: bool
  ignore_client_cc_max_age :: bool
  cookies_override :: int

record cache_directives =
  does_client_permit_lookup :: bool
  does_client_permit_storing :: bool
  does_client_permit_dns_storing :: bool
  does_config_permit_lookup :: bool
  does_config_permit_storing :: bool
  does_server_permit_storing :: bool

text \<open>What the cache keeps of an object.\<close>

record http_info =
  i_request :: http_hdr
  i_response :: http_hdr
  i_request_sent_time :: int
  i_response_received_time :: int

record trans_state =
  s_now :: int
  request_sent_time :: int
  response_received_time :: int
  client_request_time :: int
  plugin_set_expire_time :: int
  s_method :: int
  s_http_0_9 :: bool
  s_client_request :: http_hdr
  s_object_read :: http_info
  s_object_store :: "http_info option"
  s_update_continue :: bool
  s_tunnelling :: bool
  s_lookup_count :: int
  s_lookup_result :: cache_lookup_result
  s_range_setup :: range_setup
  s_readwhilewrite :: bool
  s_www_auth_content :: cache_auth
  s_api_req_cacheable :: bool
  s_api_resp_cacheable :: bool
  s_api_no_store :: bool
  s_cache_control :: cache_control_result
  s_directives :: cache_directives
  s_is_revalidation_necessary :: bool
  s_trust_response_cl :: bool
  s_force_dns :: bool

section \<open>Headers\<close>

definition presence :: "hdr_tokens \<Rightarrow> string \<Rightarrow> http_hdr \<Rightarrow> bool" where
  "presence T n h \<longleftrightarrow> hdr_presence (hdrtoken_index_to_mask T (wks_index T n)) (h_fields h) \<noteq> 0"

definition cc_mask_of :: "http_hdr \<Rightarrow> u32" where
  "cc_mask_of h = get_cooked_cc_mask (h_fields h)"

definition is_cache_control_set :: "hdr_tokens \<Rightarrow> string \<Rightarrow> http_hdr \<Rightarrow> bool" where
  "is_cache_control_set T d h \<longleftrightarrow> cc_mask_of h AND cc_mask (wks_prefixes T ! nat (wks_index T d)) \<noteq> 0"

definition is_pragma_no_cache_set :: "http_hdr \<Rightarrow> bool" where
  "is_pragma_no_cache_set h \<longleftrightarrow> get_cooked_pragma_no_cache (h_fields h)"

definition is_method_cacheable :: "hdr_tokens \<Rightarrow> int \<Rightarrow> bool" where
  "is_method_cacheable T m \<longleftrightarrow> m = wks_index T ''GET'' \<or> m = wks_index T ''HEAD''"

definition is_method_cache_lookupable :: "hdr_tokens \<Rightarrow> int \<Rightarrow> bool" where
  "is_method_cache_lookupable T m \<longleftrightarrow>
     m = wks_index T ''GET'' \<or> m = wks_index T ''HEAD'' \<or> m = wks_index T ''POST'' \<or> m = wks_index T ''DELETE'' \<or>
     m = wks_index T ''PUT'' \<or> m = wks_index T ''PURGE'' \<or> m = wks_index T ''PUSH''"

definition does_method_require_cache_copy_deletion :: "hdr_tokens \<Rightarrow> int \<Rightarrow> bool" where
  "does_method_require_cache_copy_deletion T m \<longleftrightarrow>
     m \<noteq> wks_index T ''GET'' \<and>
     (m = wks_index T ''DELETE'' \<or> m = wks_index T ''PURGE'' \<or> m = wks_index T ''PUT'' \<or> m = wks_index T ''POST'')"

definition does_server_allow_response_to_be_stored :: "http_hdr \<Rightarrow> bool" where
  "does_server_allow_response_to_be_stored h \<longleftrightarrow>
     \<not> (cc_mask_of h AND (MIME_COOKED_MASK_CC_NO_CACHE OR MIME_COOKED_MASK_CC_NO_STORE OR MIME_COOKED_MASK_CC_PRIVATE) \<noteq> 0 \<or>
        is_pragma_no_cache_set h)"

section \<open>Age and freshness\<close>

definition calculate_document_age :: "hdr_tokens \<Rightarrow> int \<Rightarrow> int \<Rightarrow> http_hdr \<Rightarrow> int \<Rightarrow> int \<Rightarrow> int" where
  "calculate_document_age T req_time resp_time h resp_date now =
     (let age_value = get_age T (h_fields h);
          date_value = (if resp_date > 0 then resp_date else 0);
          now_value = max now resp_time;
          apparent_age = (if date_value > 0 then max 0 (int64 (resp_time - date_value)) else 0)
      in if age_value < 0 then - 1
         else (let corrected_received_age = max apparent_age age_value;
                   response_delay = int64 (resp_time - req_time);
                   corrected_initial_age = int64 (corrected_received_age + response_delay);
                   resident_time = int64 (now_value - resp_time)
               in int64 (corrected_initial_age + resident_time)))"

definition clip_year :: "int \<Rightarrow> int" where
  "clip_year t = min (max 0 t) NUM_SECONDS_IN_ONE_YEAR"

text \<open>The heuristic limit, of a response without expiry information.\<close>

definition heuristic_limit ::
  "hdr_tokens \<Rightarrow> (string \<Rightarrow> bytes \<Rightarrow> bool) \<Rightarrow> txn_conf \<Rightarrow> http_hdr \<Rightarrow> bool \<Rightarrow> int \<Rightarrow> int option" where
  "heuristic_limit T re conf h date_set date_value =
     do { lm \<leftarrow> (if presence T ''Last-Modified'' h
                 then map_option (\<lambda>l. if l = UNDEFINED_TIME then None else Some (min l date_value)) (get_last_modified T re (h_fields h))
                 else Some None);
          Some (case lm of
                  Some l \<Rightarrow> if date_set then max (cache_heuristic_lm conf (date_value - l)) 0 else int32 (cache_heuristic_min_lifetime conf)
                | None \<Rightarrow> int32 (cache_heuristic_min_lifetime conf)) }"

text \<open>The limit by the response alone, and whether it is heuristic.\<close>

definition response_limit ::
  "hdr_tokens \<Rightarrow> (string \<Rightarrow> bytes \<Rightarrow> bool) \<Rightarrow> txn_conf \<Rightarrow> trans_state \<Rightarrow> http_hdr \<Rightarrow> int \<Rightarrow> (int \<times> bool) option" where
  "response_limit T re conf s h resp_date =
     (let m = cc_mask_of h
      in if m AND (MIME_COOKED_MASK_CC_S_MAXAGE OR MIME_COOKED_MASK_CC_MAX_AGE) \<noteq> 0
         then Some (clip_year (if m AND MIME_COOKED_MASK_CC_S_MAXAGE \<noteq> 0 then get_cooked_cc_s_maxage (h_fields h)
                               else get_cooked_cc_max_age (h_fields h)), False)
         else do { (expires_set, expires) \<leftarrow>
                     (if plugin_set_expire_time s \<noteq> UNDEFINED_TIME then Some (True, plugin_set_expire_time s)
                      else map_option (Pair (presence T ''Expires'' h)) (get_expires T re (h_fields h)));
                   let date_set = (resp_date > 0);
                   let date_value = (if date_set then resp_date else request_sent_time s);
                   if expires_set \<and> \<not> s_readwhilewrite s
                   then (let e = (if expires = UNDEFINED_TIME \<or> expires \<le> date_value then date_value else expires)
                         in Some (clip_year (int32 (e - date_value)), False))
                   else map_option (\<lambda>l. (l, True)) (heuristic_limit T re conf h date_set date_value) })"

definition calculate_document_freshness_limit ::
  "hdr_tokens \<Rightarrow> (string \<Rightarrow> bytes \<Rightarrow> bool) \<Rightarrow> txn_conf \<Rightarrow> trans_state \<Rightarrow> http_hdr \<Rightarrow> int \<Rightarrow> (int \<times> bool) option" where
  "calculate_document_freshness_limit T re conf s h resp_date =
     do { (limit, heuristic) \<leftarrow> response_limit T re conf s h resp_date;
          let lo = max 0 (cache_guaranteed_min_lifetime conf);
          let hi = min NUM_SECONDS_IN_ONE_YEAR (cache_guaranteed_max_lifetime conf);
          let lo' = (if heuristic then max lo (cache_heuristic_min_lifetime conf) else lo);
          let hi' = (if heuristic then min hi (cache_heuristic_max_lifetime conf) else hi);
          let l1 = (if limit > hi' then int32 hi' else limit);
          let l2 = (if l1 < lo' then int32 lo' else l1);
          Some (l2, heuristic) }"

text \<open>The limit on the age after the wishes of the client, and whether it wants a revalidation.\<close>

definition client_limit :: "cache_control_result \<Rightarrow> bool \<Rightarrow> http_hdr \<Rightarrow> int \<Rightarrow> int \<times> bool" where
  "client_limit cc os_specifies_revalidate req fresh_limit =
     (let m = cc_mask_of req; f = h_fields req;
          a1 = (if m AND MIME_COOKED_MASK_CC_MAX_STALE \<noteq> 0 \<and> \<not> os_specifies_revalidate
                then (if get_cooked_cc_max_stale f \<noteq> 2 ^ 31 - 1 then int32 (fresh_limit + get_cooked_cc_max_stale f)
                      else get_cooked_cc_max_stale f)
                else fresh_limit);
          a2 = (if m AND MIME_COOKED_MASK_CC_MIN_FRESH \<noteq> 0 then min a1 (int32 (fresh_limit - get_cooked_cc_min_fresh f)) else a1);
          use_age = (\<not> ignore_client_cc_max_age cc \<and> m AND MIME_COOKED_MASK_CC_MAX_AGE \<noteq> 0);
          a3 = (if use_age then min a2 (get_cooked_cc_max_age f) else a2)
      in (a3, use_age \<and> get_cooked_cc_max_age f = 0))"

text \<open>What \<open>cache_when_to_revalidate\<close> decides.\<close>

definition config_freshness :: "hdr_tokens \<Rightarrow> txn_conf \<Rightarrow> http_hdr \<Rightarrow> bool \<Rightarrow> freshness option" where
  "config_freshness T conf req heuristic =
     (if cache_when_to_revalidate conf = 0 \<or> u_scheme req \<noteq> wks_index T ''http'' then None
      else if cache_when_to_revalidate conf = 1 then (if heuristic then Some FRESHNESS_STALE else None)
      else if cache_when_to_revalidate conf = 2 then Some FRESHNESS_STALE
      else if cache_when_to_revalidate conf = 3 then Some FRESHNESS_FRESH
      else if cache_when_to_revalidate conf = 4 then (if presence T ''If-Modified-Since'' req then Some FRESHNESS_STALE else None)
      else None)"

definition os_specifies_revalidate :: "http_hdr \<Rightarrow> bool" where
  "os_specifies_revalidate h \<longleftrightarrow> cc_mask_of h AND (MIME_COOKED_MASK_CC_MUST_REVALIDATE OR MIME_COOKED_MASK_CC_PROXY_REVALIDATE) \<noteq> 0"

definition what_is_document_freshness ::
  "hdr_tokens \<Rightarrow> (string \<Rightarrow> bytes \<Rightarrow> bool) \<Rightarrow> (int \<Rightarrow> int) \<Rightarrow> txn_conf \<Rightarrow> trans_state \<Rightarrow> http_hdr \<Rightarrow> http_hdr \<Rightarrow> freshness option" where
  "what_is_document_freshness T re fuzz conf s req resp =
     (let cc = s_cache_control s
      in if ttl_in_cache cc > 0
         then Some (if int32 (s_now s - response_received_time s) > ttl_in_cache cc then FRESHNESS_STALE else FRESHNESS_FRESH)
         else if cc_mask_of resp AND MIME_COOKED_MASK_CC_NEED_REVALIDATE_ONCE \<noteq> 0 \<and> revalidate_after cc \<le> 0 then Some FRESHNESS_STALE
         else do { resp_date \<leftarrow> get_date T re (h_fields resp);
                   (limit, heuristic) \<leftarrow> calculate_document_freshness_limit T re conf s resp resp_date;
                   let fresh_limit = (if freshness_fuzz_time conf \<ge> 0 then clip_year (int32 (limit - fuzz limit)) else limit);
                   let age = calculate_document_age T (request_sent_time s) (response_received_time s) resp resp_date (s_now s);
                   let current_age = (if age < 0 then NUM_SECONDS_IN_ONE_YEAR else min NUM_SECONDS_IN_ONE_YEAR age);
                   Some (case config_freshness T conf req heuristic of
                           Some f \<Rightarrow> f
                         | None \<Rightarrow>
                             (let (a, do_revalidate) = client_limit cc (os_specifies_revalidate resp) req fresh_limit;
                                  age_limit = (if revalidate_after cc \<ge> 0 then revalidate_after cc else a)
                              in if do_revalidate \<or> current_age > age_limit then FRESHNESS_STALE
                                 else if current_age > fresh_limit
                                 then (if os_specifies_revalidate resp then FRESHNESS_STALE else FRESHNESS_WARNING)
                                 else FRESHNESS_FRESH)) })"
section \<open>What the client and the server permit\<close>

definition does_client_request_permit_cached_response :: "hdr_tokens \<Rightarrow> cache_control_result \<Rightarrow> http_hdr \<Rightarrow> bool" where
  "does_client_request_permit_cached_response T cc h \<longleftrightarrow>
     ignore_client_no_cache cc \<or> \<not> is_cache_control_set T ''no-cache'' h \<and> \<not> is_pragma_no_cache_set h"

definition does_client_request_permit_dns_caching :: "hdr_tokens \<Rightarrow> cache_control_result \<Rightarrow> http_hdr \<Rightarrow> bool" where
  "does_client_request_permit_dns_caching T cc h \<longleftrightarrow>
     \<not> (is_pragma_no_cache_set h \<and> is_cache_control_set T ''no-cache'' h \<and> \<not> ignore_client_no_cache cc)"

definition does_client_request_permit_storing :: "hdr_tokens \<Rightarrow> cache_control_result \<Rightarrow> http_hdr \<Rightarrow> bool" where
  "does_client_request_permit_storing T cc h \<longleftrightarrow> ignore_client_no_cache cc \<or> \<not> is_cache_control_set T ''no-store'' h"

text \<open>
  The result of the rules of the configuration, \<open>cc\<close>, comes in. \<open>txn_conf\<close> points to the configuration that all
  transactions share, so that the second result is what they all see from then on.
\<close>

definition update_cache_control_information_from_config ::
  "hdr_tokens \<Rightarrow> cache_control_result \<Rightarrow> txn_conf \<Rightarrow> trans_state \<Rightarrow> trans_state \<times> txn_conf" where
  "update_cache_control_information_from_config T cc conf s =
     (let d = s_directives s; h = s_client_request s;
          d1 = d\<lparr>does_config_permit_lookup := (does_config_permit_lookup d \<and> \<not> never_cache cc),
                 does_config_permit_storing := (does_config_permit_storing d \<and> \<not> never_cache cc),
                 does_client_permit_storing := (does_client_request_permit_storing T cc h \<and> \<not> s_http_0_9 s),
                 does_client_permit_lookup := (does_client_request_permit_cached_response T cc h \<and> \<not> s_http_0_9 s),
                 does_client_permit_dns_storing := does_client_request_permit_dns_caching T cc h\<rparr>
      in (s\<lparr>s_cache_control := cc, s_directives := d1\<rparr>,
          if cookies_override cc \<ge> 0 then conf\<lparr>cache_responses_to_cookies := cookies_override cc\<rparr> else conf))"

definition AuthenticationNeeded :: "hdr_tokens \<Rightarrow> txn_conf \<Rightarrow> http_hdr \<Rightarrow> http_hdr \<Rightarrow> authentication" where
  "AuthenticationNeeded T conf req resp =
     (let cache_auth = (mime_hdr_field_find T (h_fields resp) (Text (chars ''@WWW-Auth'')) \<noteq> None \<and> h_method req = wks_index T ''GET'')
      in if \<not> cache_ignore_auth conf \<and> presence T ''Authorization'' req
         then (if is_cache_control_set T ''must-revalidate'' resp \<or> is_cache_control_set T ''proxy-revalidate'' resp
               then AUTHENTICATION_MUST_REVALIDATE
               else if is_cache_control_set T ''public'' resp then AUTHENTICATION_SUCCESS
               else if cache_auth then AUTHENTICATION_CACHE_AUTH
               else AUTHENTICATION_MUST_PROXY)
         else if cache_auth then AUTHENTICATION_CACHE_AUTH
         else AUTHENTICATION_SUCCESS)"

definition type_begins :: "bytes option \<Rightarrow> string \<Rightarrow> bool" where
  "type_begins content_type n \<longleftrightarrow>
     (case content_type of None \<Rightarrow> False | Some t \<Rightarrow> length t \<ge> length n \<and> take (length n) t = chars n)"

definition do_cookies_prevent_caching :: "hdr_tokens \<Rightarrow> int \<Rightarrow> http_hdr \<Rightarrow> http_hdr \<Rightarrow> http_hdr option \<Rightarrow> bool" where
  "do_cookies_prevent_caching T cookies_conf req resp cached_req =
     (if cookies_conf = 1 then False
      else if cookies_conf = 0 then True
      else if \<not> presence T ''Set-Cookie'' resp \<and> \<not> presence T ''Cookie'' req \<and>
              (case cached_req of None \<Rightarrow> True | Some c \<Rightarrow> \<not> presence T ''Cookie'' c)
      then False
      else (let content_type = hdr_value_get T (wks T ''Content-Type'') (h_fields resp)
            in if cookies_conf = 2 then \<not> type_begins content_type ''image''
               else if type_begins content_type ''text''
               then \<not> (cookies_conf = 4 \<and> (\<not> presence T ''Set-Cookie'' resp \<or> is_cache_control_set T ''public'' resp))
               else False))"

definition response_cacheable_indicated_by_cc :: "http_hdr \<Rightarrow> int" where
  "response_cacheable_indicated_by_cc resp =
     (if cc_mask_of resp AND (MIME_COOKED_MASK_CC_NO_STORE OR MIME_COOKED_MASK_CC_PRIVATE) \<noteq> 0 then - 1
      else if cc_mask_of resp AND (MIME_COOKED_MASK_CC_PUBLIC OR MIME_COOKED_MASK_CC_MAX_AGE OR MIME_COOKED_MASK_CC_S_MAXAGE OR
                MIME_COOKED_MASK_CC_MUST_REVALIDATE OR MIME_COOKED_MASK_CC_PROXY_REVALIDATE) \<noteq> 0 then 1
      else 0)"

definition is_negative_caching_appropriate :: "txn_conf \<Rightarrow> http_hdr option \<Rightarrow> bool" where
  "is_negative_caching_appropriate conf server_response \<longleftrightarrow>
     negative_caching_enabled conf \<and>
     (case server_response of
        None \<Rightarrow> False
      | Some h \<Rightarrow> h_status h \<in> set [204, 305, 400, 403, 404, 405, 414, 500, 501, 502, 503, 504])"

section \<open>Lookup\<close>

text \<open>
  The comparison of the end of a path with \<open>asp\<close>, from its last byte on; \<open>t\<close> is what is still to be matched, the last
  byte first. At the first byte of the path it ends.
\<close>

fun ends_asp :: "bytes \<Rightarrow> bytes \<Rightarrow> bool" where
  "ends_asp (c # d # r) (t # ts) \<longleftrightarrow> ink_tolower c = ink_tolower t \<and> (ts = [] \<or> ends_asp (d # r) ts)"
| "ends_asp r ts \<longleftrightarrow> False"

definition is_cgi :: "bytes \<Rightarrow> bool" where
  "is_cgi p \<longleftrightarrow> p ! 0 \<in> set (chars ''cC'') \<and> p ! 1 \<in> set (chars ''gG'') \<and> p ! 2 \<in> set (chars ''iI'')"

fun contains_cgi :: "bytes \<Rightarrow> bool" where
  "contains_cgi [] \<longleftrightarrow> False"
| "contains_cgi (c # r) \<longleftrightarrow> length (c # r) \<ge> 3 \<and> (is_cgi (c # r) \<or> contains_cgi r)"

text \<open>For an empty path that is present the byte in front of it is read.\<close>

definition url_looks_dynamic :: "hdr_tokens \<Rightarrow> http_hdr \<Rightarrow> bool option" where
  "url_looks_dynamic T h =
     (if u_scheme h \<noteq> wks_index T ''http'' \<and> u_scheme h \<noteq> wks_index T ''https'' then Some False
      else if u_params h \<noteq> None \<or> u_query h \<noteq> None then Some True
      else (case u_path h of
              None \<Rightarrow> Some False
            | Some [] \<Rightarrow> None
            | Some p \<Rightarrow> Some (ends_asp (rev p) (rev (chars ''asp'')) \<or> contains_cgi p)))"

definition is_request_cache_lookupable :: "hdr_tokens \<Rightarrow> txn_conf \<Rightarrow> trans_state \<Rightarrow> bool option" where
  "is_request_cache_lookupable T conf s =
     (if s_tunnelling s then Some False
      else if s_lookup_count s > 0 then Some True
      else if \<not> cache_http conf then Some False
      else if \<not> is_method_cache_lookupable T (s_method s) \<and> \<not> s_api_req_cacheable s then Some False
      else do { dynamic \<leftarrow> (if cache_urls_that_look_dynamic conf then Some False else url_looks_dynamic T (s_client_request s));
                let f = h_fields (s_client_request s);
                let max_forwards =
                  (if presence T ''Max-Forwards'' (s_client_request s)
                   then (case mime_hdr_field_find T f (wks T ''Max-Forwards'') of
                           None \<Rightarrow> - 1 | Some n \<Rightarrow> mime_field_value_get_int (fld f n))
                   else - 1);
                if dynamic \<and> ttl_in_cache (s_cache_control s) \<le> 0 \<and> max_forwards \<noteq> 0 then Some False
                else if \<not> cache_range_lookup conf \<and> presence T ''Range'' (s_client_request s) then Some False
                else Some True })"

section \<open>Storing\<close>

definition required_headers_missing ::
  "hdr_tokens \<Rightarrow> (string \<Rightarrow> bytes \<Rightarrow> bool) \<Rightarrow> txn_conf \<Rightarrow> http_hdr \<Rightarrow> bool option" where
  "required_headers_missing T re conf resp =
     (let limit = (presence T ''Expires'' resp \<or> cc_mask_of resp AND (MIME_COOKED_MASK_CC_MAX_AGE OR MIME_COOKED_MASK_CC_S_MAXAGE) \<noteq> 0)
      in if cache_required_headers conf = 1 \<and> \<not> limit
         then map_option (\<lambda>t. t = 0) (get_last_modified T re (h_fields resp))
         else Some (cache_required_headers conf = 2 \<and> \<not> limit))"

text \<open>The end of \<open>is_response_cacheable\<close>, without an indication by Cache-Control.\<close>

definition cacheable_by_default :: "hdr_tokens \<Rightarrow> txn_conf \<Rightarrow> trans_state \<Rightarrow> http_hdr \<Rightarrow> http_hdr \<Rightarrow> bool" where
  "cacheable_by_default T conf s req resp =
     (if presence T ''Expires'' resp then True
      else if h_status resp \<in> set [302, 307] then False
      else if h_method req = wks_index T ''POST'' \<and> ttl_in_cache (s_cache_control s) \<le> 0 then False
      else if s_api_no_store s then False
      else if \<not> negative_caching_enabled conf then h_status resp \<in> set [200, 304, 203, 301, 300, 410]
      else h_status resp \<notin> set [303, 401, 407])"

definition is_response_cacheable ::
  "hdr_tokens \<Rightarrow> (string \<Rightarrow> bytes \<Rightarrow> bool) \<Rightarrow> txn_conf \<Rightarrow> trans_state \<Rightarrow> http_hdr \<Rightarrow> http_hdr \<Rightarrow> (bool \<times> trans_state) option" where
  "is_response_cacheable T re conf s req resp =
     (let cc = s_cache_control s; d = s_directives s; ttl = (ttl_in_cache cc > 0)
      in if \<not> is_method_cacheable T (h_method req) \<and> \<not> s_api_req_cacheable s then Some (False, s)
         else do { lookupable \<leftarrow> is_request_cache_lookupable T conf s;
                   if \<not> lookupable then Some (False, s)
                   else if s_range_setup s = RANGE_NOT_HANDLED then Some (False, s)
                   else if \<not> ttl \<and> do_cookies_prevent_caching T (cache_responses_to_cookies conf) req resp None then Some (False, s)
                   else if \<not> cache_ignore_auth conf \<and> presence T ''WWW-Authenticate'' resp then Some (False, s)
                   else if \<not> does_server_permit_storing d \<and> \<not> ignore_server_no_cache cc \<and> \<not> ttl then Some (False, s)
                   else if (\<not> does_config_permit_storing d \<and> \<not> ignore_server_no_cache cc \<and> \<not> ttl) \<or> never_cache cc then Some (False, s)
                   else if \<not> does_client_permit_storing d \<and> \<not> ignore_client_no_cache cc then Some (False, s)
                   else do { missing \<leftarrow> (if h_status resp = 200 \<and> \<not> ttl then required_headers_missing T re conf resp else Some False);
                             if missing then Some (False, s)
                             else if h_status resp \<in> set [206, 416] then Some (False, s)
                             else (let indicator = response_cacheable_indicated_by_cc resp
                                   in if indicator > 0 then Some (True, s\<lparr>s_www_auth_content := CACHE_AUTH_NONE\<rparr>)
                                      else if indicator < 0 \<and> \<not> ttl \<and> \<not> ignore_server_no_cache cc then Some (False, s)
                                      else Some (cacheable_by_default T conf s req resp, s)) } })"

section \<open>Serving\<close>

definition is_cache_response_returnable :: "hdr_tokens \<Rightarrow> txn_conf \<Rightarrow> trans_state \<Rightarrow> bool" where
  "is_cache_response_returnable T conf s \<longleftrightarrow>
     (let cc = s_cache_control s
      in \<not> never_cache cc \<and> does_client_permit_lookup (s_directives s) \<and>
         (is_method_cacheable T (s_method s) \<or> s_api_resp_cacheable s) \<and>
         \<not> (ttl_in_cache cc \<le> 0 \<and>
            do_cookies_prevent_caching T (cache_responses_to_cookies conf) (s_client_request s) (i_response (s_object_read s))
              (Some (i_request (s_object_read s)))))"

definition is_stale_cache_response_returnable ::
  "hdr_tokens \<Rightarrow> (string \<Rightarrow> bytes \<Rightarrow> bool) \<Rightarrow> txn_conf \<Rightarrow> trans_state \<Rightarrow> bool option" where
  "is_stale_cache_response_returnable T re conf s =
     (let obj = s_object_read s; resp = i_response obj
      in if \<not> does_client_permit_lookup (s_directives s) then Some False
         else if cc_mask_of resp AND (MIME_COOKED_MASK_CC_MUST_REVALIDATE OR MIME_COOKED_MASK_CC_PROXY_REVALIDATE OR
                   MIME_COOKED_MASK_CC_NEED_REVALIDATE_ONCE OR MIME_COOKED_MASK_CC_NO_CACHE OR MIME_COOKED_MASK_CC_NO_STORE OR
                   MIME_COOKED_MASK_CC_S_MAXAGE) \<noteq> 0 \<or> is_pragma_no_cache_set resp then Some False
         else do { resp_date \<leftarrow> get_date T re (h_fields resp);
                   let age = calculate_document_age T (i_request_sent_time obj) (i_response_received_time obj) resp resp_date (s_now s);
                   if age < 0 \<or> age > cache_max_stale_age conf then Some False
                   else Some (AuthenticationNeeded T conf (s_client_request s) resp = AUTHENTICATION_SUCCESS) })"

definition need_to_revalidate :: "hdr_tokens \<Rightarrow> txn_conf \<Rightarrow> trans_state \<Rightarrow> bool \<times> trans_state" where
  "need_to_revalidate T conf s =
     (case (if s_update_continue s then s_object_store s else Some (s_object_read s)) of
        None \<Rightarrow> (True, s)
      | Some obj \<Rightarrow>
          (let a = AuthenticationNeeded T conf (s_client_request s) (i_response obj);
               needs_authenticate = (a = AUTHENTICATION_MUST_REVALIDATE \<or> a = AUTHENTICATION_MUST_PROXY);
               needs_revalidate = (s_lookup_result s = CACHE_LOOKUP_HIT_STALE \<and> \<not> s_update_continue s);
               send_revalidate = (needs_authenticate \<or> needs_revalidate \<or> \<not> is_cache_response_returnable T conf s)
           in if a = AUTHENTICATION_CACHE_AUTH
              then (True, s\<lparr>s_www_auth_content := (if send_revalidate then CACHE_AUTH_STALE else CACHE_AUTH_FRESH)\<rparr>)
              else (send_revalidate, s)))"

text \<open>DELETE and PURGE: the status of the answer if the proxy answers itself. The response is not modelled.\<close>

definition delete_all_document_alternates_and_return :: "hdr_tokens \<Rightarrow> bool \<Rightarrow> trans_state \<Rightarrow> (int option \<times> trans_state) option" where
  "delete_all_document_alternates_and_return T cache_hit s =
     (let m = s_method s; req = s_client_request s; f = h_fields req; purge = (m = wks_index T ''PURGE'')
      in if m \<noteq> wks_index T ''GET'' \<and> (m = wks_index T ''DELETE'' \<or> purge)
         then (let max_forwards = map_option (\<lambda>n. sint (mime_field_value_get_int (fld f n))) (mime_hdr_field_find T f (wks T ''Max-Forwards''))
               in if purge \<or> (case max_forwards of Some v \<Rightarrow> v \<le> 0 | None \<Rightarrow> False)
                  then Some (Some (if cache_hit then 200 else 404), s\<lparr>s_trust_response_cl := True\<rparr>)
                  else (case max_forwards of
                          None \<Rightarrow> Some (None, s)
                        | Some v \<Rightarrow> map_option (\<lambda>f'. (None, s\<lparr>s_client_request := req\<lparr>h_fields := f'\<rparr>\<rparr>))
                                      (hdr_value_set_int T (wks T ''Max-Forwards'') (word_of_int (v - 1)) f)))
         else Some (None, s))"

text \<open>The next step after a hit: the cached object is deleted and the client answered with a status, or the origin server is looked up, or the hit is handled.\<close>

datatype hit_next = PROXY_INTERNAL_CACHE_DELETE int | DNS_LOOKUP | HANDLE_CACHE_OPEN_READ_HIT

definition lookup_result_of :: "freshness \<Rightarrow> cache_lookup_result" where
  "lookup_result_of f =
     (case f of FRESHNESS_FRESH \<Rightarrow> CACHE_LOOKUP_HIT_FRESH | FRESHNESS_WARNING \<Rightarrow> CACHE_LOOKUP_HIT_WARNING
      | FRESHNESS_STALE \<Rightarrow> CACHE_LOOKUP_HIT_STALE)"

definition HandleCacheOpenReadHitFreshness ::
  "hdr_tokens \<Rightarrow> (string \<Rightarrow> bytes \<Rightarrow> bool) \<Rightarrow> (int \<Rightarrow> int) \<Rightarrow> txn_conf \<Rightarrow> trans_state \<Rightarrow> (hit_next \<times> trans_state) option" where
  "HandleCacheOpenReadHitFreshness T re fuzz conf s =
     do { (answer, s0) \<leftarrow> delete_all_document_alternates_and_return T True s;
          case answer of
            Some status \<Rightarrow> Some (PROXY_INTERNAL_CACHE_DELETE status, s0)
          | None \<Rightarrow>
              do { let obj = s_object_read s0;
                   let s1 = s0\<lparr>request_sent_time := min (client_request_time s0) (i_request_sent_time obj),
                               response_received_time := min (client_request_time s0) (i_response_received_time obj)\<rparr>;
                   s2 \<leftarrow> (if s_lookup_result s1 = CACHE_LOOKUP_NONE
                           then map_option
                                  (\<lambda>f. s1\<lparr>s_lookup_result := lookup_result_of f,
                                          s_is_revalidation_necessary := (f = FRESHNESS_STALE \<or> s_is_revalidation_necessary s1)\<rparr>)
                                  (what_is_document_freshness T re fuzz conf s1 (s_client_request s1) (i_response obj))
                           else Some s1);
                   if s_force_dns s2 then Some (HANDLE_CACHE_OPEN_READ_HIT, s2)
                   else (let (origin, s3) = need_to_revalidate T conf s2
                         in Some (if origin then DNS_LOOKUP else HANDLE_CACHE_OPEN_READ_HIT, s3)) } }"

end
