(* ===== verification/HttpCacheSpec.thy ===== *)
theory HttpCacheSpec
  imports HttpCache MimeApiSpec
begin

unbundle bit_operations_syntax

text \<open>
  The freshness of a cached response: its age, whatever overflows, is the age of the protocol clipped to a year, its
  limit stays within the bounds of the configuration, and the verdict is the rule of the protocol over integers
  without bounds. A response may be stored, or served stale, only when no party forbids it.
\<close>

section \<open>Conversions\<close>

lemma int64_int [simp]: "- (2 ^ 63) \<le> i \<Longrightarrow> i < 2 ^ 63 \<Longrightarrow> int64 i = i"
  unfolding int64_def by (simp only: sint_sbintrunc') (simp add: signed_take_bit_int_eq_self)

lemma int32_int: "- (2 ^ 31) \<le> i \<Longrightarrow> i < 2 ^ 31 \<Longrightarrow> int32 i = i"
  unfolding int32_def by (simp only: sint_sbintrunc') (simp add: signed_take_bit_int_eq_self)

lemma int32_range: "- (2 ^ 31) \<le> int32 i" "int32 i < 2 ^ 31"
  using sint_ge [of "word_of_int i :: s32"] sint_lt [of "word_of_int i :: s32"] by (simp_all add: int32_def)

lemma int64_add: "int64 (int64 a + b) = int64 (a + b)"
  by (simp add: int64_def)

lemma int64_shift: "int64 (i + 2 ^ 64) = int64 i"
proof -
  have "word_of_int (i + 2 ^ 64) = (word_of_int i :: s64)" by (simp add: word_of_int_eq_iff take_bit_eq_mod)
  then show ?thesis by (simp only: int64_def)
qed

lemma int32_shift: "int32 (i + 2 ^ 32) = int32 i"
proof -
  have "word_of_int (i + 2 ^ 32) = (word_of_int i :: s32)" by (simp add: word_of_int_eq_iff take_bit_eq_mod)
  then show ?thesis by (simp only: int32_def)
qed

lemma int64_unsigned: "0 \<le> i \<Longrightarrow> i < 2 ^ 64 \<Longrightarrow> int64 i = (if i < 2 ^ 63 then i else i - 2 ^ 64)"
  using int64_int [of "i - 2 ^ 64"] int64_shift [of "i - 2 ^ 64"] by auto

lemma int32_wraps: "2 ^ 31 \<le> i \<Longrightarrow> i < 2 ^ 32 \<Longrightarrow> int32 i = i - 2 ^ 32"
  using int32_int [of "i - 2 ^ 32"] int32_shift [of "i - 2 ^ 32"] by auto

section \<open>The age\<close>

text \<open>The age by section 13.2.3 of the protocol.\<close>

definition protocol_age :: "hdr_tokens \<Rightarrow> int \<Rightarrow> int \<Rightarrow> http_hdr \<Rightarrow> int \<Rightarrow> int \<Rightarrow> int" where
  "protocol_age T req_time resp_time h resp_date now =
     max (if resp_date > 0 then max 0 (resp_time - resp_date) else 0) (get_age T (h_fields h)) +
     (resp_time - req_time) + (max now resp_time - resp_time)"

text \<open>The times of a transaction, as a clock gives them: the request before the response.\<close>

definition clock_times :: "int \<Rightarrow> int \<Rightarrow> int \<Rightarrow> bool" where
  "clock_times req_time resp_time now \<longleftrightarrow>
     0 \<le> req_time \<and> req_time \<le> resp_time \<and> resp_time < 2 ^ 62 \<and> 0 \<le> now \<and> now < 2 ^ 62"

lemma get_age_range: "0 \<le> get_age T mh" "get_age T mh < 2 ^ 63"
  using sint_lt [of "hdr_value_get_int64 T (wks T ''Age'') mh"] by (simp_all add: get_age_def Let_def)

lemma protocol_age_range:
  assumes "clock_times q r now"
  shows "0 \<le> protocol_age T q r h d now" "protocol_age T q r h d now < 2 ^ 64"
  using assms get_age_range [of T "h_fields h"] by (auto simp: protocol_age_def clock_times_def max_def)

lemma tm_seconds_range:
  assumes "tm_seconds tp = Some t"
  shows "- (2 ^ 31) \<le> t \<and> t < 2 ^ 31"
proof -
  consider "t = 2 ^ 31 - 1" | "t = 0" | i where "t = int32 i"
    using assms unfolding tm_seconds_def Let_def by (auto simp only: map_option_eq_Some option.inject split: if_splits)
  then show ?thesis using int32_range by cases simp_all
qed

lemma date_range: "hdr_value_get_date T re n mh = Some d \<Longrightarrow> - (2 ^ 31) \<le> d \<and> d < 2 ^ 31"
  unfolding hdr_value_get_date_def mime_field_value_get_date_def mime_parse_date_def
  by (auto simp only: option.inject dest: tm_seconds_range split: option.splits) simp_all

lemma document_age:
  assumes "clock_times q r now" "d < 2 ^ 62"
  shows "calculate_document_age T q r h d now = int64 (protocol_age T q r h d now)"
proof -
  have a: "int64 (r - d) = r - d" if "0 < d" by (rule int64_int) (use assms that in \<open>simp_all add: clock_times_def\<close>)
  have b: "int64 (r - q) = r - q" "int64 (max now r - r) = max now r - r"
    by (rule int64_int; use assms in \<open>simp add: clock_times_def max_def\<close>)+
  show ?thesis
    using get_age_range(1) [of T "h_fields h"] a
    by (simp add: calculate_document_age_def Let_def b int64_add protocol_age_def)
qed

text \<open>The age that is compared with the limits. An age that overflows counts as a year.\<close>

definition seen_age :: "int \<Rightarrow> int" where
  "seen_age age = (if age < 0 then NUM_SECONDS_IN_ONE_YEAR else min NUM_SECONDS_IN_ONE_YEAR age)"

lemma seen_document_age:
  assumes "clock_times q r now" "d < 2 ^ 62"
  shows "seen_age (calculate_document_age T q r h d now) = min NUM_SECONDS_IN_ONE_YEAR (protocol_age T q r h d now)"
  unfolding document_age [OF assms] seen_age_def
  using protocol_age_range [OF assms(1), of T h d] by (simp add: int64_unsigned)

lemma protocol_age_mono: "now \<le> now' \<Longrightarrow> protocol_age T q r h d now \<le> protocol_age T q r h d now'"
  by (simp add: protocol_age_def max_def)

section \<open>The limit\<close>

text \<open>The bounds that the configuration guarantees.\<close>

definition limit_min :: "txn_conf \<Rightarrow> bool \<Rightarrow> int" where
  "limit_min conf heuristic =
     (let lo = max 0 (cache_guaranteed_min_lifetime conf) in if heuristic then max lo (cache_heuristic_min_lifetime conf) else lo)"

definition limit_max :: "txn_conf \<Rightarrow> bool \<Rightarrow> int" where
  "limit_max conf heuristic =
     (let hi = min NUM_SECONDS_IN_ONE_YEAR (cache_guaranteed_max_lifetime conf)
      in if heuristic then min hi (cache_heuristic_max_lifetime conf) else hi)"

lemma limit_max_year: "limit_max conf heuristic \<le> NUM_SECONDS_IN_ONE_YEAR"
  by (auto simp: limit_max_def Let_def)

lemma limit_by_bounds:
  "calculate_document_freshness_limit T re conf s h d =
     map_option (\<lambda>(limit, heuristic).
         (let l = (if limit > limit_max conf heuristic then int32 (limit_max conf heuristic) else limit)
          in if l < limit_min conf heuristic then int32 (limit_min conf heuristic) else l, heuristic))
       (response_limit T re conf s h d)"
  by (cases "response_limit T re conf s h d") (auto simp: calculate_document_freshness_limit_def limit_min_def limit_max_def Let_def)

lemma limit_bounds:
  assumes "calculate_document_freshness_limit T re conf s h d = Some (l, heuristic)"
    "limit_min conf heuristic < 2 ^ 31" "0 \<le> limit_max conf heuristic"
  shows "limit_min conf heuristic \<le> l" "l \<le> max (limit_min conf heuristic) (limit_max conf heuristic)"
proof -
  obtain limit where l: "l = (let l = (if limit > limit_max conf heuristic then int32 (limit_max conf heuristic) else limit)
          in if l < limit_min conf heuristic then int32 (limit_min conf heuristic) else l)"
    using assms(1) by (auto simp: limit_by_bounds)
  have "int32 (limit_max conf heuristic) = limit_max conf heuristic"
    by (rule int32_int) (use assms(3) limit_max_year [of conf heuristic] in simp_all)
  moreover have "int32 (limit_min conf heuristic) = limit_min conf heuristic"
    by (rule int32_int) (use assms(2) in \<open>auto simp: limit_min_def Let_def\<close>)
  ultimately show "limit_min conf heuristic \<le> l" "l \<le> max (limit_min conf heuristic) (limit_max conf heuristic)"
    unfolding l Let_def by auto
qed

section \<open>The verdict\<close>

definition rank :: "freshness \<Rightarrow> nat" where
  "rank f = (case f of FRESHNESS_FRESH \<Rightarrow> 0 | FRESHNESS_WARNING \<Rightarrow> 1 | FRESHNESS_STALE \<Rightarrow> 2)"

text \<open>The verdict on an age, once the limits are known.\<close>

definition verdict :: "cache_control_result \<Rightarrow> http_hdr \<Rightarrow> http_hdr \<Rightarrow> int \<Rightarrow> int \<Rightarrow> freshness" where
  "verdict cc req resp fresh_limit current_age =
     (let (a, do_revalidate) = client_limit cc (os_specifies_revalidate resp) req fresh_limit;
          age_limit = (if revalidate_after cc \<ge> 0 then revalidate_after cc else a)
      in if do_revalidate \<or> current_age > age_limit then FRESHNESS_STALE
         else if current_age > fresh_limit
         then (if os_specifies_revalidate resp then FRESHNESS_STALE else FRESHNESS_WARNING)
         else FRESHNESS_FRESH)"

lemma verdict_mono: "a \<le> b \<Longrightarrow> rank (verdict cc req resp l a) \<le> rank (verdict cc req resp l b)"
  by (simp add: verdict_def rank_def Let_def split: prod.split)

text \<open>The limit after the fuzz.\<close>

definition fuzzed :: "(int \<Rightarrow> int) \<Rightarrow> txn_conf \<Rightarrow> int \<Rightarrow> int" where
  "fuzzed fuzz conf limit = (if freshness_fuzz_time conf \<ge> 0 then clip_year (int32 (limit - fuzz limit)) else limit)"

lemma freshness_verdict:
  assumes "ttl_in_cache (s_cache_control s) \<le> 0"
    "cc_mask_of resp AND MIME_COOKED_MASK_CC_NEED_REVALIDATE_ONCE = 0 \<or> revalidate_after (s_cache_control s) > 0"
  shows "what_is_document_freshness T re fuzz conf s req resp =
    Option.bind (get_date T re (h_fields resp)) (\<lambda>d.
      map_option (\<lambda>(limit, heuristic).
          case config_freshness T conf req heuristic of
            Some f \<Rightarrow> f
          | None \<Rightarrow> verdict (s_cache_control s) req resp (fuzzed fuzz conf limit)
              (seen_age (calculate_document_age T (request_sent_time s) (response_received_time s) resp d (s_now s))))
        (calculate_document_freshness_limit T re conf s resp d))"
proof -
  have n: "\<not> ttl_in_cache (s_cache_control s) > 0"
    "\<not> (cc_mask_of resp AND MIME_COOKED_MASK_CC_NEED_REVALIDATE_ONCE \<noteq> 0 \<and> revalidate_after (s_cache_control s) \<le> 0)"
    using assms by auto
  show ?thesis
    unfolding what_is_document_freshness_def Let_def [of "s_cache_control s"] if_not_P [OF n(1)] if_not_P [OF n(2)]
    unfolding fuzzed_def seen_age_def verdict_def Let_def
    by (simp add: map_option_case split: Option.bind_splits option.split prod.split)
qed

lemma limit_now: "calculate_document_freshness_limit T re conf (s\<lparr>s_now := t\<rparr>) h d = calculate_document_freshness_limit T re conf s h d"
proof -
  have "plugin_set_expire_time (s\<lparr>s_now := t\<rparr>) = plugin_set_expire_time s" "request_sent_time (s\<lparr>s_now := t\<rparr>) = request_sent_time s"
    "s_readwhilewrite (s\<lparr>s_now := t\<rparr>) = s_readwhilewrite s" by simp_all
  then show ?thesis by (simp only: calculate_document_freshness_limit_def response_limit_def)
qed

lemma verdict_seen_mono:
  assumes "clock_times q r now" "clock_times q r now'" "now \<le> now'" "get_date T re (h_fields resp) = Some d"
  shows "seen_age (calculate_document_age T q r h d now) \<le> seen_age (calculate_document_age T q r h d now')"
proof -
  have d: "d < 2 ^ 62" using date_range [OF assms(4) [unfolded get_date_def]] by simp
  show ?thesis unfolding seen_document_age [OF assms(1) d] seen_document_age [OF assms(2) d]
    using protocol_age_mono [OF assms(3), of T q r h d] by simp
qed

text \<open>
  C37. A stale document stays stale: as time passes, the verdict on a cached response goes from fresh to a warning to stale
  and never back, by the same configuration, request and fuzz, whatever the headers say, and also where the age overflows.
\<close>

theorem freshness_never_recovers:
  assumes "what_is_document_freshness T re fuzz conf s req resp = Some f"
    "what_is_document_freshness T re fuzz conf (s\<lparr>s_now := later\<rparr>) req resp = Some g"
    "s_now s \<le> later" "later < 2 ^ 31"
    "0 \<le> request_sent_time s" "request_sent_time s \<le> response_received_time s" "response_received_time s \<le> s_now s"
  shows "rank f \<le> rank g"
proof -
  let ?s = "s\<lparr>s_now := later\<rparr>" and ?cc = "s_cache_control s"
  have c: "clock_times (request_sent_time s) (response_received_time s) (s_now s)"
    "clock_times (request_sent_time s) (response_received_time s) later"
    using assms(3-7) by (simp_all add: clock_times_def)
  have small: "int32 (s_now s - response_received_time s) = s_now s - response_received_time s"
    "int32 (later - response_received_time s) = later - response_received_time s"
    by (rule int32_int; use assms(3-7) in simp)+
  consider "ttl_in_cache ?cc > 0"
    | "ttl_in_cache ?cc \<le> 0" "cc_mask_of resp AND MIME_COOKED_MASK_CC_NEED_REVALIDATE_ONCE \<noteq> 0" "revalidate_after ?cc \<le> 0"
    | "ttl_in_cache ?cc \<le> 0" "cc_mask_of resp AND MIME_COOKED_MASK_CC_NEED_REVALIDATE_ONCE = 0 \<or> revalidate_after ?cc > 0"
    by linarith
  then show ?thesis
  proof cases
    case 1
    then show ?thesis using assms(1-3) by (auto simp: what_is_document_freshness_def small rank_def split: if_splits)
  next
    case 2
    then show ?thesis using assms(1,2) by (simp add: what_is_document_freshness_def)
  next
    case 3
    then have 4: "ttl_in_cache (s_cache_control ?s) \<le> 0"
      "cc_mask_of resp AND MIME_COOKED_MASK_CC_NEED_REVALIDATE_ONCE = 0 \<or> revalidate_after (s_cache_control ?s) > 0" by simp_all
    obtain d l h where d: "get_date T re (h_fields resp) = Some d"
      and l: "calculate_document_freshness_limit T re conf s resp d = Some (l, h)"
      using assms(1) unfolding freshness_verdict [OF 3] by (auto simp: bind_eq_Some_conv)
    show ?thesis
      using assms(1,2) verdict_mono [OF verdict_seen_mono [OF c assms(3) d, of resp], of ?cc req resp "fuzzed fuzz conf l"]
      unfolding freshness_verdict [OF 3] freshness_verdict [OF 4] limit_now
      by (auto simp: d l split: option.splits)
  qed
qed

section \<open>The rule of the protocol\<close>

definition wants :: "u32 \<Rightarrow> http_hdr \<Rightarrow> bool" where
  "wants d h \<longleftrightarrow> cc_mask_of h AND d \<noteq> 0"






text \<open>A \<open>max-stale\<close> that overflows the sum makes the document stale, however young it is.\<close>

lemma max_stale_overflows:
  assumes "wants MIME_COOKED_MASK_CC_MAX_STALE req" "\<not> os_specifies_revalidate resp" "revalidate_after cc < 0"
    "limit < 2 ^ 31" "2 ^ 31 \<le> limit + get_cooked_cc_max_stale (h_fields req)" "get_cooked_cc_max_stale (h_fields req) < 2 ^ 31 - 1" "0 \<le> age"
  shows "verdict cc req resp limit age = FRESHNESS_STALE"
proof -
  have w: "int32 (limit + get_cooked_cc_max_stale (h_fields req)) < 0"
    using int32_wraps [of "limit + get_cooked_cc_max_stale (h_fields req)"] assms(4-6) by simp
  obtain a again where l: "client_limit cc (os_specifies_revalidate resp) req limit = (a, again)" by fastforce
  have "a < 0" using l w assms(1,2,6) by (auto simp: client_limit_def wants_def Let_def split: if_splits)
  then show ?thesis using assms(3,7) by (simp add: verdict_def l)
qed

section \<open>An exchange\<close>

text \<open>A header without fields, with the directives of Cache-Control that were read.\<close>

definition cc_only :: "cooked_cc \<Rightarrow> mime_hdr" where
  "cc_only cc = mime_hdr_init\<lparr>m_cache_control := cc\<rparr>"

lemma find_cc_only: "mime_hdr_field_find T (cc_only cc) n = None"
proof -
  have "search_by_slotnum (cc_only cc) k = None" for k
    by (cases "k div MIME_FIELD_BLOCK_SLOTS") (simp_all add: search_by_slotnum_def cc_only_def mime_hdr_init_def)
  then show ?thesis
    by (cases n) (simp_all add: mime_hdr_field_find_def search_by_wks_def search_by_string_def cc_only_def mime_hdr_init_def Let_def)
qed

lemma cc_only_simps [simp]:
  "get_cooked_cc_mask (cc_only cc) = m_mask cc" "get_cooked_cc_max_age (cc_only cc) = m_secs_max_age cc"
  "get_cooked_cc_s_maxage (cc_only cc) = m_secs_s_maxage cc" "get_cooked_cc_max_stale (cc_only cc) = m_secs_max_stale cc"
  "get_cooked_cc_min_fresh (cc_only cc) = m_secs_min_fresh cc" "get_cooked_pragma_no_cache (cc_only cc) = False"
  "hdr_presence k (cc_only cc) = 0" "hdr_value_get_date T re n (cc_only cc) = Some 0" "get_age T (cc_only cc) = 0"
  by (simp_all add: get_cooked_cc_mask_def get_cooked_cc_max_age_def get_cooked_cc_s_maxage_def get_cooked_cc_max_stale_def
      get_cooked_cc_min_fresh_def get_cooked_pragma_no_cache_def hdr_presence_def hdr_value_get_date_def hdr_value_get_int64_def
      get_age_def find_cc_only)
    (simp_all add: cc_only_def mime_hdr_init_def)

text \<open>A GET, and a response with \<open>max-age=60\<close>.\<close>

definition a_request :: http_hdr where
  "a_request = \<lparr>h_method = wks_index example_tokens ''GET'', h_status = 0, u_scheme = wks_index example_tokens ''http'',
     u_path = None, u_params = None, u_query = None, h_fields = cc_only no_cooked\<rparr>"

definition a_response :: http_hdr where
  "a_response = \<lparr>h_method = 0, h_status = 200, u_scheme = 0, u_path = None, u_params = None, u_query = None,
     h_fields = cc_only (no_cooked\<lparr>m_mask := 1, m_secs_max_age := 60\<rparr>)\<rparr>"

definition a_conf :: txn_conf where
  "a_conf = \<lparr>cache_http = True, cache_urls_that_look_dynamic = True, cache_range_lookup = True, cache_ims_on_client_no_cache = True,
     cache_ignore_auth = False, cache_responses_to_cookies = 1, cache_required_headers = 2, negative_caching_enabled = False,
     cache_when_to_revalidate = 0, cache_heuristic_lm = (\<lambda>t. t div 10), cache_heuristic_min_lifetime = 3600,
     cache_heuristic_max_lifetime = 86400, cache_guaranteed_min_lifetime = 0, cache_guaranteed_max_lifetime = 31536000,
     cache_max_stale_age = 604800, freshness_fuzz_time = - 1\<rparr>"

text \<open>Sent and received at second 100, now it is second 130.\<close>

definition a_state :: trans_state where
  "a_state = \<lparr>s_now = 130, request_sent_time = 100, response_received_time = 100, client_request_time = 130,
     plugin_set_expire_time = 0, s_method = wks_index example_tokens ''GET'', s_http_0_9 = False, s_client_request = a_request,
     s_object_read = \<lparr>i_request = a_request, i_response = a_response, i_request_sent_time = 100, i_response_received_time = 100\<rparr>,
     s_object_store = None, s_update_continue = False, s_tunnelling = False, s_lookup_count = 0, s_lookup_result = CACHE_LOOKUP_NONE,
     s_range_setup = RANGE_NONE, s_readwhilewrite = False, s_www_auth_content = CACHE_AUTH_NONE, s_api_req_cacheable = False,
     s_api_resp_cacheable = False, s_api_no_store = False,
     s_cache_control = \<lparr>revalidate_after = - 1, ttl_in_cache = 0, never_cache = False, ignore_client_no_cache = False,
       ignore_server_no_cache = False, ignore_client_cc_max_age = False, cookies_override = - 1\<rparr>,
     s_directives = \<lparr>does_client_permit_lookup = True, does_client_permit_storing = True, does_client_permit_dns_storing = True,
       does_config_permit_lookup = True, does_config_permit_storing = True, does_server_permit_storing = True\<rparr>,
     s_is_revalidation_necessary = False, s_trust_response_cl = False, s_force_dns = False\<rparr>"

lemma a_limit: "calculate_document_freshness_limit example_tokens re a_conf s a_response d = Some (60, False)"
  by (simp add: calculate_document_freshness_limit_def response_limit_def cc_mask_of_def a_response_def a_conf_def no_cooked_def clip_year_def Let_def)

lemma a_date: "get_date T re (h_fields a_response) = Some 0"
  by (simp add: get_date_def a_response_def)

lemma a_mask: "cc_mask_of a_request = 0" "cc_mask_of a_response = 1"
  by (simp_all add: cc_mask_of_def a_request_def a_response_def no_cooked_def)

lemma a_age: "calculate_document_age T 100 100 a_response 0 now = int64 (max now 100 - 100)" if "0 \<le> now" "now < 2 ^ 62"
  using document_age [of 100 100 now 0 T a_response] that
  by (simp add: clock_times_def protocol_age_def a_response_def)

lemma a_verdict:
  "what_is_document_freshness example_tokens re fuzz a_conf (a_state\<lparr>s_now := t\<rparr>) a_request a_response =
     Some (if t \<le> 160 then FRESHNESS_FRESH else FRESHNESS_STALE)" if "100 \<le> t" "t < 2 ^ 31"
proof -
  have 1: "ttl_in_cache (s_cache_control (a_state\<lparr>s_now := t\<rparr>)) \<le> 0" by (simp add: a_state_def)
  have age: "seen_age (calculate_document_age example_tokens 100 100 a_response 0 t) = min NUM_SECONDS_IN_ONE_YEAR (t - 100)"
    using a_age [of t example_tokens] that by (simp add: seen_age_def)
  have 2: "cc_mask_of a_response AND MIME_COOKED_MASK_CC_NEED_REVALIDATE_ONCE = 0 \<or> revalidate_after (s_cache_control (a_state\<lparr>s_now := t\<rparr>)) > 0"
    by (simp add: a_mask)
  have st: "request_sent_time (a_state\<lparr>s_now := t\<rparr>) = 100" "response_received_time (a_state\<lparr>s_now := t\<rparr>) = 100"
    "s_now (a_state\<lparr>s_now := t\<rparr>) = t" "s_cache_control (a_state\<lparr>s_now := t\<rparr>) = s_cache_control a_state"
    by (simp_all add: a_state_def)
  have "verdict (s_cache_control a_state) a_request a_response 60 (min NUM_SECONDS_IN_ONE_YEAR (t - 100)) =
      (if t \<le> 160 then FRESHNESS_FRESH else FRESHNESS_STALE)"
    by (simp add: verdict_def client_limit_def a_mask os_specifies_revalidate_def a_state_def)
  moreover have "config_freshness T a_conf req h = None" "fuzzed fuzz a_conf l = l" for T req h l
    by (simp_all add: config_freshness_def fuzzed_def a_conf_def)
  ultimately show ?thesis unfolding freshness_verdict [OF 1 2] st by (simp only: a_date a_limit Option.bind.simps option.map prod.case option.case age)
qed

lemma freshness_never_recovers_witness:
  "what_is_document_freshness example_tokens (\<lambda>p b. False) (\<lambda>l. 0) a_conf (a_state\<lparr>s_now := 130\<rparr>) a_request a_response = Some FRESHNESS_FRESH \<and>
   what_is_document_freshness example_tokens (\<lambda>p b. False) (\<lambda>l. 0) a_conf (a_state\<lparr>s_now := 200\<rparr>) a_request a_response = Some FRESHNESS_STALE \<and>
   rank FRESHNESS_FRESH \<le> rank FRESHNESS_STALE"
proof -
  have now: "s_now (a_state\<lparr>s_now := 130\<rparr>) \<le> 200" "(200::int) < 2 ^ 31" "0 \<le> request_sent_time (a_state\<lparr>s_now := 130\<rparr>)"
    "request_sent_time (a_state\<lparr>s_now := 130\<rparr>) \<le> response_received_time (a_state\<lparr>s_now := 130\<rparr>)"
    "response_received_time (a_state\<lparr>s_now := 130\<rparr>) \<le> s_now (a_state\<lparr>s_now := 130\<rparr>)" by (simp_all add: a_state_def)
  have f: "what_is_document_freshness example_tokens (\<lambda>p b. False) (\<lambda>l. 0) a_conf (a_state\<lparr>s_now := 130\<rparr>) a_request a_response = Some FRESHNESS_FRESH"
    "what_is_document_freshness example_tokens (\<lambda>p b. False) (\<lambda>l. 0) a_conf ((a_state\<lparr>s_now := 130\<rparr>)\<lparr>s_now := 200\<rparr>) a_request a_response = Some FRESHNESS_STALE"
    by (simp_all add: a_verdict)
  show ?thesis using freshness_never_recovers [OF f now] f by simp
qed


section \<open>Storing\<close>

lemma refused: "(if c then Some (False, s) else r) = Some (True, s') \<longleftrightarrow> \<not> c \<and> r = Some (True, s')"
  by simp



text \<open>A client that says \<open>no-store\<close> is heard, unless the configuration ignores it; for HTTP/0.9 nothing is stored or looked up.\<close>

lemma no_store_heard:
  assumes "update_cache_control_information_from_config T cc conf s = (s', conf')"
    "is_cache_control_set T ''no-store'' (s_client_request s) \<or> s_http_0_9 s" "\<not> ignore_client_no_cache cc"
  shows "\<not> does_client_permit_storing (s_directives s') \<and> is_response_cacheable T re conf' s' req resp \<noteq> Some (True, s'')"
proof -
  have n: "\<not> does_client_permit_storing (s_directives s')" "\<not> ignore_client_no_cache (s_cache_control s')"
    using assms by (auto simp: update_cache_control_information_from_config_def does_client_request_permit_storing_def Let_def)
  have "is_response_cacheable T re conf' s' req resp \<noteq> Some (True, s'')"
    unfolding is_response_cacheable_def Let_def refused bind_eq_Some_conv using n by blast
  then show ?thesis using n by simp
qed

section \<open>Serving\<close>









section \<open>URLs that look dynamic\<close>

text \<open>The path ends in \<open>asp\<close> behind at least one more byte, or contains \<open>cgi\<close>, in any case of the letters.\<close>

lemma ends_asp_iff: "ts \<noteq> [] \<Longrightarrow> ends_asp r ts \<longleftrightarrow> length ts < length r \<and> map ink_tolower (take (length ts) r) = map ink_tolower ts"
proof (induction r ts rule: ends_asp.induct)
  case (1 c d r t ts)
  then show ?case by (cases "ts = []") auto
qed auto

lemma suffix_Cons: "(\<exists>u v. c # r = u @ v \<and> P v) \<longleftrightarrow> P (c # r) \<or> (\<exists>u v. r = u @ v \<and> P v)"
  by (auto simp: Cons_eq_append_conv)

lemma contains_cgi_iff: "contains_cgi p \<longleftrightarrow> (\<exists>u v. p = u @ v \<and> length v \<ge> 3 \<and> is_cgi v)"
proof (induction p)
  case (Cons c r)
  show ?case unfolding suffix_Cons [of c r "\<lambda>v. length v \<ge> 3 \<and> is_cgi v"] using Cons by auto
qed simp

lemma looks_dynamic:
  assumes "u_scheme h = wks_index T ''http''" "u_path h = Some p" "p \<noteq> []"
  shows "url_looks_dynamic T h = Some (u_params h \<noteq> None \<or> u_query h \<noteq> None \<or>
    (\<exists>u v. p = u @ v \<and> u \<noteq> [] \<and> map ink_tolower v = map ink_tolower (chars ''asp'')) \<or>
    (\<exists>u v. p = u @ v \<and> length v \<ge> 3 \<and> is_cgi v))"
proof -
  let ?w = "chars ''asp''"
  have w: "length ?w = 3" "?w \<noteq> []" by (simp_all add: chars_def)
  have "ends_asp (rev p) (rev ?w) \<longleftrightarrow> 3 < length p \<and> map ink_tolower (drop (length p - 3) p) = map ink_tolower ?w"
    using ends_asp_iff [of "rev ?w" "rev p"] w by (simp add: take_rev rev_map [symmetric])
  also have "\<dots> \<longleftrightarrow> (\<exists>u v. p = u @ v \<and> u \<noteq> [] \<and> map ink_tolower v = map ink_tolower ?w)" (is "?l \<longleftrightarrow> ?r")
  proof
    assume ?l
    then show ?r by (intro exI [of _ "take (length p - 3) p"] exI [of _ "drop (length p - 3) p"]) auto
  next
    assume ?r
    then obtain u v where u: "p = u @ v" "u \<noteq> []" "map ink_tolower v = map ink_tolower ?w" by blast
    have "length v = 3" using arg_cong [OF u(3), of length] w by simp
    then show ?l using u by simp
  qed
  finally have e: "ends_asp (rev p) (rev ?w) \<longleftrightarrow> ?r" .
  have "url_looks_dynamic T h = Some (u_params h \<noteq> None \<or> u_query h \<noteq> None \<or> ends_asp (rev p) (rev ?w) \<or> contains_cgi p)"
    using assms by (cases p) (auto simp: url_looks_dynamic_def)
  then show ?thesis unfolding e contains_cgi_iff .
qed

end
