(* ===== verification/Spec2Isabelle.thy ===== *)
theory Spec2Isabelle
  imports Prelude Base64 Links EventQueue AtomicList CacheDir CacheDirShape CacheDirSpec RamCacheSpec
    ParseRules ParseRulesSpec IOBuffer IOBufferRead IOBufferWrite IOBufferSpec Chunked ChunkedSpec MimeDate MimeDateSpec MimeIntSpec HdrToken HdrTokenSpec MimeHdr MimeHdrInv
    MimeHdrOps MimeHdrSpec MimeApi MimeApiSpec MimeParse MimeParseSpec MimePrintSpec MimeTextSpec HttpCache HttpCacheSpec
begin

text \<open>
  Verification of the core of Apache Traffic Server, a caching HTTP proxy, from its sources under src/.

  \<^bold>\<open>The program and the theories.\<close> Event threads take timed events from a queue and run the state machines of
  transactions. A transaction moves bytes through shared buffers, reads and writes messages with MIME headers, decodes
  chunked bodies, and decides whether a response is looked up in, served from or stored in the cache, whose directory
  and memory cache find objects by key. The theories follow these parts from the bottom up:

  \<^item> \<open>Prelude\<close>: bytes and machine words, buffers whose loads and stores are checked (outside the buffer is the value
    \<open>None\<close>), the operators \<open>/\<close> and \<open>%\<close> of C.
  \<^item> \<open>Base64\<close>: lib/ts/ink_base64.cc, \<open>ats_base64_encode\<close> and \<open>ats_base64_decode\<close> on the buffers of the caller.
  \<^item> \<open>Links\<close>: lib/ts/List.h, the operations of \<open>DLL\<close> and \<open>Queue\<close> pointer by pointer over a store of link cells;
    the event queue and the RAM cache are built on them.
  \<^item> \<open>EventQueue\<close>: iocore/eventsystem/I_PriorityEventQueue.h and PQ-List.cc. A \<open>pqueue\<close> has ten queues by the time
    left; \<open>pq_enqueue\<close>, \<open>pq_remove\<close>, \<open>check_ready\<close>, \<open>earliest_timeout\<close> are the methods.
  \<^item> \<open>AtomicList\<close>: lib/ts/ink_queue.cc, the lock-free list and free list as a step relation over the atomic
    accesses of any number of threads; the head has a version of 16 bits or none, as the code is compiled.
  \<^item> \<open>CacheDir\<close>, \<open>CacheDirShape\<close>, \<open>CacheDirSpec\<close>: iocore/cache/CacheDir.cc and P_CacheDir.h. The entries of five
    words are linked by 16-bit offsets into the chains of buckets and a free list per segment; \<open>dir_probe\<close>,
    \<open>dir_insert\<close>, \<open>dir_overwrite\<close>, \<open>dir_delete\<close> and the cleaning of segments and volumes.
  \<^item> \<open>RamCache\<close>, \<open>RamCacheSpec\<close>: iocore/cache/RamCacheLRU.cc, \<open>get\<close>, \<open>put\<close>, \<open>fixup\<close> and the resizing of the table.
  \<^item> \<open>ParseRules\<close>, \<open>ParseRulesSpec\<close>: lib/ts/ParseRules.h, ParseRules.cc, CompileParseRules.cc, the character
    classes, the table generated from them, the scanning and number functions.
  \<^item> \<open>IOBuffer\<close>, \<open>IOBufferRead\<close>, \<open>IOBufferWrite\<close>, \<open>IOBufferSpec\<close>: iocore/eventsystem/ioBuffer.h,
    P_IOBuffer.h, ioBuffer.cc. Data areas are shared by blocks, blocks by chains; \<open>MIOBuffer\<close> writes, readers consume.
  \<^item> \<open>Chunked\<close>, \<open>ChunkedSpec\<close>: \<open>ChunkedHandler\<close> of proxy/http/HttpTunnel.cc, decoding and encoding of the chunked
    coding, over the buffers of \<open>IOBuffer\<close>.
  \<^item> \<open>MimeDate\<close>, \<open>MimeDateSpec\<close>, \<open>MimeIntSpec\<close>: numbers and dates of proxy/hdrs/MIME.cc.
  \<^item> \<open>HdrToken\<close>, \<open>HdrTokenSpec\<close>: proxy/hdrs/HdrToken.cc, the well-known strings, their hash table and its lookup.
  \<^item> \<open>MimeHdr\<close>, \<open>MimeHdrInv\<close>, \<open>MimeHdrOps\<close>, \<open>MimeHdrSpec\<close>: the header of proxy/hdrs/MIME.cc, field slots in blocks
    of 16 with presence bits, slot accelerators, lists of duplicates and the values cooked from Cache-Control.
  \<^item> \<open>MimeApi\<close>, \<open>MimeApiSpec\<close>: class \<open>MIMEHdr\<close> of proxy/hdrs/MIME.h and the comma separated values of HttpCompat.cc.
  \<^item> \<open>MimeParse\<close>, \<open>MimeParseSpec\<close>, \<open>MimePrintSpec\<close>, \<open>MimeTextSpec\<close>: the scanner, the parser and the printer of headers.
  \<^item> \<open>HttpCache\<close>, \<open>HttpCacheSpec\<close>: the decisions about the cache in proxy/http/HttpTransact.cc and
    HttpTransactHeaders.cc, on the headers of \<open>MimeHdr\<close>.

  \<^bold>\<open>How the code is modelled.\<close> Definitions have the names of the functions; a helper definition is a part of a
  function, such as the body of a loop. A struct is a record, an enumeration a datatype, an object that is shared an
  address into a store. Integers are words where the code relies on their width, or \<open>int\<close> with the conversion written
  out (\<open>int32\<close>, \<open>uint32\<close>, \<open>int64\<close>). \<open>None\<close> is undefined behaviour (a read or write outside of a buffer, a NULL
  pointer) or, for a loop defined by \<open>partial_function\<close>, that the loop does not end; there is no fuel, and theorems
  state that the result exists. Parameters stand for code outside of src/: the allocator's next address, the clock, random numbers
  and the PCRE library (\<open>re p s\<close>: the pattern \<open>p\<close> matches \<open>s\<close>).

  \<^bold>\<open>What the lemmas show.\<close>

  \<^item> Representation: a chain of link cells is a list (\<open>linked\<close>), a segment of the directory the lists of the entries of its
    buckets (\<open>seg_rep\<close>), the RAM cache the list of its entries by last use (\<open>ram_rep\<close>), a reader the list of its bytes,
    a header the list of its live fields (\<open>live_fields\<close>). Each operation keeps the representation and is a plain operation on it.
  \<^item> Interfaces: what a client relies on is a locale that is interpreted on the model: a source of bytes and a pipe in
    \<open>IOBufferSpec\<close>, on which the chunked decoder is proved, a first-in first-out queue in \<open>Links\<close>, under the event queue
    and the RAM cache, and a cache with \<open>get\<close>, \<open>put\<close> and \<open>fixup\<close> in \<open>RamCacheSpec\<close>.
  \<^item> Behaviour over time: no interleaving of threads gives one node to two of them (\<open>AtomicList\<close>); no event is lost or
    late when the queue is checked every 256 ticks (\<open>EventQueue\<close>); every history of the RAM cache is coherent; a response
    that has become stale stays stale (\<open>HttpCacheSpec\<close>).
  \<^item> Pieces: decoding a chunked body or parsing a header in pieces gives the same as at once (\<open>ChunkedSpec\<close>, \<open>MimeParseSpec\<close>, \<open>MimeTextSpec\<close>).
  \<^item> Round trips: base64, numbers, dates, chunked bodies, comma separated values, and headers that are parsed, printed and parsed again.
  \<^item> Equivalence: the character table with the definitions of the classes, the day conversion with the Gregorian calendar
    counted day by day, the freshness of a response with the rule of the protocol over integers without bounds.

  \<^bold>\<open>Bounds.\<close> The date conversion is covered up to the year 3201 and dates are read back up to 2037, where \<open>mime_parse_date\<close>
  ends; times of a transaction are below \<open>2 ^ 62\<close> seconds, where the sums of \<open>calculate_document_age\<close> wrap at most once;
  lengths of buffers are as the code's types allow. The hash table of the well-known strings is evaluated for the tables of the source.

  \<^bold>\<open>Defects.\<close> Lemmas show where the code fails: the decoder of base64 writes a NUL behind its buffer; a gap of 512 ticks
  skips every bucket; \<open>dir_probe\<close> with a stale predecessor breaks a segment and \<open>dir_insert\<close> never returns on a full one;
  a chunk size wraps at \<open>2 ^ 32\<close>; a header name with the hash of a well-known one is taken for it; attaching a field between
  others of its name can lose the order; an empty list element hides what follows; a last field can be lost at the end of input;
  a large \<open>max-stale\<close> makes a document stale.

  \<^bold>\<open>Not modelled.\<close> The asynchronous input and output of the cache and the network, TLS, DNS, clustering and the threads of
  the event system are calls of the operating system and of libraries. The state machine of HTTP and the tunnel around the
  chunked coding connect the event handlers of other components; of the handlers of a transaction only those that
  decide about the cache are covered. The string heap of headers is not modelled: a field holds its bytes.
  Logging, management, configuration, plugins and their interface are left out.
\<close>

end
